(* ===== verification/Kernel_Prelude.thy ===== *)
theory Kernel_Prelude
  imports Main "HOL-Library.Word"
begin

text \<open>
  Shared vocabulary of the development: the machine integer types of the C code, the
  outcome of an operation that may end in the kernel's \<open>panic\<close>, the alignment macros of
  \<open>kernel/src/utils/macros.h\<close>, and the facts on words, lists and outcomes that the
  component theories use. The collections \<open>align_simps\<close> (alignment arithmetic read as
  arithmetic on \<open>nat\<close>) and \<open>kres_simps\<close> (sequencing of fallible operations) gather
  them for \<open>simp add:\<close>.
\<close>

unbundle bit_operations_syntax

named_theorems align_simps \<open>alignment macros as arithmetic on natural numbers\<close>
named_theorems kres_simps \<open>sequencing of operations that may panic\<close>

section \<open>Machine integers\<close>

type_synonym u8 = "8 word"
type_synonym u16 = "16 word"
type_synonym u32 = "32 word"
type_synonym u64 = "64 word"

section \<open>Operations that may panic\<close>

text \<open>
  \<open>panic()\<close> halts the machine and never returns. An operation that reaches it has the
  outcome \<open>Inl (Panic message)\<close>; one that returns has \<open>Inr\<close> of its result.
\<close>

datatype kpanic = Panic string

type_synonym 'a kres = "kpanic + 'a"

definition kbind :: "'a kres \<Rightarrow> ('a \<Rightarrow> 'b kres) \<Rightarrow> 'b kres" where
  "kbind r f = (case r of Inl e \<Rightarrow> Inl e | Inr x \<Rightarrow> f x)"

lemma kbind_Inl [simp, kres_simps]: "kbind (Inl e) f = Inl e"
  by (simp add: kbind_def)

lemma kbind_Inr [simp, kres_simps]: "kbind (Inr x) f = f x"
  by (simp add: kbind_def)

lemma kbind_eq_Inr [kres_simps]: "kbind r f = Inr y \<longleftrightarrow> (\<exists>x. r = Inr x \<and> f x = Inr y)"
  by (cases r) (auto simp: kbind_def)

lemma kbind_eq_Inl [kres_simps]:
  "kbind r f = Inl e \<longleftrightarrow> r = Inl e \<or> (\<exists>x. r = Inr x \<and> f x = Inl e)"
  by (cases r) (auto simp: kbind_def)

text \<open>
  Code with a loop that may run forever has the outcome \<open>None\<close> when it does; \<open>kobind\<close> sequences
  such operations.
\<close>

text \<open>
  The kernel is built with a sanitizer whose handlers panic (\<open>utils/ubsan.c\<close>). A signed sum that
  does not fit 64 bits ends there.
\<close>

definition fits_long :: "int \<Rightarrow> bool" where
  "fits_long i \<longleftrightarrow> - (2 ^ 63) \<le> i \<and> i < 2 ^ 63"

definition ubsan_add :: "int \<Rightarrow> int \<Rightarrow> int kres" where
  "ubsan_add a b = (if fits_long (a + b) then Inr (a + b) else Inl (Panic ''UBSAN: Add overflow''))"

text \<open>
  An access that leaves its buffer: where the sanitizer knows the size of the array it panics, elsewhere
  what follows is not defined. Both are the one outcome \<open>out_of_bounds\<close>.
\<close>

definition out_of_bounds :: "'a kres option" where
  "out_of_bounds = Some (Inl (Panic ''(access out of bounds)''))"

definition kobind :: "'a kres option \<Rightarrow> ('a \<Rightarrow> 'b kres option) \<Rightarrow> 'b kres option" where
  "kobind r f = (case r of None \<Rightarrow> None | Some (Inl e) \<Rightarrow> Some (Inl e) | Some (Inr x) \<Rightarrow> f x)"

lemma kobind_simps [simp]:
  "kobind None f = None" "kobind (Some (Inl e)) f = Some (Inl e)" "kobind (Some (Inr x)) f = f x"
  by (simp_all add: kobind_def)

lemma kobind_out_of_bounds [simp]: "kobind out_of_bounds f = out_of_bounds"
  by (simp add: out_of_bounds_def)

lemma kobind_eq_Inr: "kobind r f = Some (Inr y) \<longleftrightarrow> (\<exists>x. r = Some (Inr x) \<and> f x = Some (Inr y))"
  by (cases r; cases "the r") (auto simp: kobind_def)

lemma kobind_mono [partial_function_mono]:
  assumes "mono_option B" and "\<And>y. mono_option (\<lambda>f. C y f)"
  shows "mono_option (\<lambda>f. kobind (B f) (\<lambda>y. C y f))"
proof -
  have "kobind r f = Option.bind r (\<lambda>x. case x of Inl e \<Rightarrow> Some (Inl e) | Inr y \<Rightarrow> f y)"
    for r :: "'c kres option" and f :: "'c \<Rightarrow> 'd kres option"
    by (simp add: kobind_def split: option.splits sum.splits)
  moreover have "mono_option (\<lambda>f. Option.bind (B f) (\<lambda>x. case x of Inl e \<Rightarrow> Some (Inl e) | Inr y \<Rightarrow> C y f))"
  proof (rule bind_mono [OF assms(1)])
    fix x
    show "mono_option (\<lambda>f. case x of Inl e \<Rightarrow> Some (Inl e) | Inr y \<Rightarrow> C y f)"
      by (cases x) (simp_all add: assms(2) option.const_mono)
  qed
  ultimately show ?thesis by simp
qed

section \<open>Alignment macros\<close>

text \<open>The three macros of \<open>utils/macros.h\<close>, on \<open>uint64_t\<close>; the addition wraps.\<close>

definition ALIGN_UP :: "u64 \<Rightarrow> u64 \<Rightarrow> u64" where
  "ALIGN_UP x align = (x + (align - 1)) AND NOT (align - 1)"

definition ALIGN_DOWN :: "u64 \<Rightarrow> u64 \<Rightarrow> u64" where
  "ALIGN_DOWN x align = x AND NOT (align - 1)"

definition IS_ALIGNED :: "u64 \<Rightarrow> u64 \<Rightarrow> bool" where
  "IS_ALIGNED x align \<longleftrightarrow> x AND (align - 1) = 0"

definition PAGE_SIZE :: u64 where
  "PAGE_SIZE = 0x1000"

definition LARGE_PAGE_SIZE :: u64 where
  "LARGE_PAGE_SIZE = 0x200000"

definition JUMBO_PAGE_SIZE :: u64 where
  "JUMBO_PAGE_SIZE = 0x40000000"

section \<open>Words\<close>

lemma unat_and_mask: "unat (x AND mask n) = unat x mod 2 ^ n" for x :: "'a::len word"
proof -
  have "unat (take_bit n x) = take_bit n (unat x)" by (rule unsigned_take_bit_eq)
  then show ?thesis by (simp add: take_bit_eq_mask [of n x] take_bit_eq_mod [of n "unat x"])
qed

lemma word_split_mask: "x = (x AND NOT (mask n)) OR (x AND mask n)" for x :: "'a::len word"
  by (rule bit_word_eqI) (auto simp add: bit_simps)

lemma unat_or_disjoint: "unat (a OR b) = unat a + unat b" if "a AND b = 0"
  for a b :: "'a::len word"
proof -
  have "unat a AND unat b = 0" using that by (metis unsigned_0 unsigned_and_eq)
  then have "unat a OR unat b = unat a + unat b" by (metis disjunctive_add_eq_or)
  then show ?thesis by (simp add: unsigned_or_eq)
qed

lemma unat_and_not_mask: "unat (x AND NOT (mask n)) = unat x - unat x mod 2 ^ n"
  for x :: "'a::len word"
proof -
  have "(x AND NOT (mask n)) AND (x AND mask n) = 0"
    by (rule bit_word_eqI) (auto simp add: bit_simps)
  then have "unat x = unat (x AND NOT (mask n)) + unat (x AND mask n)"
    by (metis unat_or_disjoint word_split_mask)
  then show ?thesis by (simp add: unat_and_mask)
qed

lemma word_eq_unatI: "unat a = unat b \<Longrightarrow> a = b" for a b :: "'a::len word"
  by (rule word_unat_eq_iff [THEN iffD2])

lemma unat_add_no_wrap: "unat a + unat b < 2 ^ LENGTH('a) \<Longrightarrow> unat (a + b) = unat a + unat b"
  for a b :: "'a::len word"
  by (simp add: unat_word_ariths)

lemma unat_lt_64: "unat (a :: u64) < 18446744073709551616"
  using unsigned_less [of a] by simp

lemma unat_of_nat64: "n < 18446744073709551616 \<Longrightarrow> unat (of_nat n :: u64) = n"
  by (simp add: unat_of_nat)

lemma unat_inc_less: "x < y \<Longrightarrow> unat (x + 1) = Suc (unat x)" for x y :: "'a::len word"
proof -
  assume "x < y"
  then have "unat x + 1 < 2 ^ LENGTH('a)"
    using unsigned_less [where ?'a = nat and w = y] by (simp only: word_less_nat_alt)
  then show ?thesis by (simp add: unat_word_ariths)
qed

lemma nth_list_update_if: "xs[i := x] ! j = (if i = j \<and> j < length xs then x else xs ! j)"
  by (cases "i = j"; cases "j < length xs") (auto simp: list_update_beyond)

text \<open>Distinct addresses with a common alignment are at least that far apart, both ways.\<close>

lemma aligned_far_apart:
  fixes a b :: u64
  assumes "d dvd unat a" and "d dvd unat b" and "d dvd 2 ^ 64" and "a \<noteq> b" and "k < d"
  shows "d \<le> unat (b + of_nat k - a)"
proof -
  have lt: "unat a < 2 ^ 64" "unat b < 2 ^ 64" using unat_lt_64 by simp_all
  have "d dvd unat (b - a)"
    using assms(1-3) lt by (auto simp: unat_sub_if' dvd_diff_nat intro: dvd_add)
  moreover have "0 < unat (b - a)" using assms(4) by (simp add: unat_gt_0)
  ultimately obtain q where q: "unat (b - a) = d * q" "0 < q" by (auto elim!: dvdE)
  obtain n where n: "(2::nat) ^ 64 = d * n" using assms(3) by (rule dvdE)
  have "d * q < d * n" using unat_lt_64 [of "b - a"] q n by simp
  then have "d * q + d \<le> 2 ^ 64" unfolding n by (metis Suc_leI mult_Suc_right add.commute mult_le_mono2 nat_mult_less_cancel_disj)
  then have "unat (b - a + of_nat k) = d * q + k"
    using assms(5) q by (subst unat_add_no_wrap) (simp_all add: unat_of_nat64)
  moreover have "d \<le> d * q + k" using q(2) by (simp add: trans_le_add1)
  ultimately show ?thesis by (simp only: diff_add_eq)
qed

section \<open>Page alignment as arithmetic\<close>

abbreviation page_aligned :: "u64 \<Rightarrow> bool" where
  "page_aligned x \<equiv> unat x mod 4096 = 0"

lemma mask_12: "(mask 12 :: u64) = 4095"
  by (simp add: mask_eq_exp_minus_1)

lemma PAGE_SIZE_minus_1: "PAGE_SIZE - 1 = mask 12"
  by (simp add: PAGE_SIZE_def mask_12)

lemma unat_PAGE_SIZE [simp]: "unat PAGE_SIZE = 4096"
  by (simp add: PAGE_SIZE_def)

lemma unat_ALIGN_DOWN_page [align_simps]:
  "unat (ALIGN_DOWN x PAGE_SIZE) = unat x - unat x mod 4096"
  by (simp add: ALIGN_DOWN_def PAGE_SIZE_minus_1 unat_and_not_mask)

lemma IS_ALIGNED_page [align_simps]: "IS_ALIGNED x PAGE_SIZE \<longleftrightarrow> page_aligned x"
  by (simp add: IS_ALIGNED_def PAGE_SIZE_minus_1 word_unat_eq_iff unat_and_mask)

lemma unat_ALIGN_UP_page [align_simps]:
  assumes "unat x + 4095 < 2 ^ 64"
  shows "unat (ALIGN_UP x PAGE_SIZE) = (unat x + 4095) div 4096 * 4096"
proof -
  have "unat (x + mask 12) = unat x + 4095"
    using assms by (simp add: mask_12 unat_word_ariths)
  then show ?thesis
    by (simp add: ALIGN_UP_def PAGE_SIZE_minus_1 unat_and_not_mask minus_mod_eq_div_mult)
qed

lemma ALIGN_UP_page_aligned: "page_aligned (ALIGN_UP x PAGE_SIZE)"
proof -
  have "unat (ALIGN_UP x PAGE_SIZE) = unat (x + mask 12) div 4096 * 4096"
    by (simp add: ALIGN_UP_def PAGE_SIZE_minus_1 unat_and_not_mask minus_mod_eq_div_mult)
  then show ?thesis by simp
qed

lemma ALIGN_DOWN_page_aligned: "page_aligned (ALIGN_DOWN x PAGE_SIZE)"
  by (simp add: unat_ALIGN_DOWN_page minus_mod_eq_div_mult)

lemma page_aligned_le: "page_aligned x \<Longrightarrow> unat x \<le> 18446744073709547520"
  using unat_lt_64 [of x] by (auto elim!: dvdE)

lemma ALIGN_UP_aligned_id: "page_aligned x \<Longrightarrow> ALIGN_UP x PAGE_SIZE = x"
  using page_aligned_le [of x]
  by (intro word_eq_unatI) (auto simp: unat_ALIGN_UP_page elim!: dvdE)

lemma ALIGN_UP_ge:
  assumes "unat x + 4095 < 2 ^ 64"
  shows "unat x \<le> unat (ALIGN_UP x PAGE_SIZE)" and "unat (ALIGN_UP x PAGE_SIZE) \<le> unat x + 4095"
  using assms by (simp_all add: unat_ALIGN_UP_page)

end
