(* ===== verification/Byte_Memory.thy ===== *)
theory Byte_Memory
  imports Kernel_Prelude
begin

text \<open>
  The byte-addressed memory the kernel reads and writes through pointers, and its aligned
  64-bit accesses. The kernel's in-memory structures (free-list nodes, page tables, slab
  objects) are read and written as naturally aligned \<open>uint64_t\<close> cells; the locale
  \<open>cell_memory\<close> states the laws such cells obey, and is interpreted on the little-endian
  byte memory, so that clients reason with cells and the model keeps bytes.
\<close>

named_theorems mem_simps \<open>reading memory after writing it\<close>

section \<open>Bytes and 64-bit cells\<close>

type_synonym mem = "u64 \<Rightarrow> u8"

definition read64 :: "mem \<Rightarrow> u64 \<Rightarrow> u64" where
  "read64 m a =
     ucast (m a) OR push_bit 8 (ucast (m (a + 1))) OR push_bit 16 (ucast (m (a + 2)))
     OR push_bit 24 (ucast (m (a + 3))) OR push_bit 32 (ucast (m (a + 4)))
     OR push_bit 40 (ucast (m (a + 5))) OR push_bit 48 (ucast (m (a + 6)))
     OR push_bit 56 (ucast (m (a + 7)))"

definition write64 :: "mem \<Rightarrow> u64 \<Rightarrow> u64 \<Rightarrow> mem" where
  "write64 m a v = (\<lambda>x. if unat (x - a) < 8 then ucast (drop_bit (8 * unat (x - a)) v) else m x)"

text \<open>A block of \<open>n\<close> bytes set to one value, as \<open>rep stosb\<close> leaves it.\<close>

definition fill_bytes :: "mem \<Rightarrow> u64 \<Rightarrow> u8 \<Rightarrow> nat \<Rightarrow> mem" where
  "fill_bytes m a c n = (\<lambda>x. if unat (x - a) < n then c else m x)"

abbreviation cell_aligned :: "u64 \<Rightarrow> bool" where
  "cell_aligned a \<equiv> unat a mod 8 = 0"

subsection \<open>Laws of cells\<close>

lemma word64_of_bytes:
  "ucast (ucast v :: u8) OR push_bit 8 (ucast (ucast (drop_bit 8 v) :: u8))
   OR push_bit 16 (ucast (ucast (drop_bit 16 v) :: u8))
   OR push_bit 24 (ucast (ucast (drop_bit 24 v) :: u8))
   OR push_bit 32 (ucast (ucast (drop_bit 32 v) :: u8))
   OR push_bit 40 (ucast (ucast (drop_bit 40 v) :: u8))
   OR push_bit 48 (ucast (ucast (drop_bit 48 v) :: u8))
   OR push_bit 56 (ucast (ucast (drop_bit 56 v) :: u8)) = (v :: u64)" (is "?w = v")
proof (rule bit_word_eqI)
  fix n assume "n < LENGTH(64)"
  then consider "n < 8" | "8 \<le> n" "n < 16" | "16 \<le> n" "n < 24" | "24 \<le> n" "n < 32"
    | "32 \<le> n" "n < 40" | "40 \<le> n" "n < 48" | "48 \<le> n" "n < 56" | "56 \<le> n" "n < 64"
    by fastforce
  then show "bit ?w n = bit v n"
    by cases (simp_all add: bit_simps less_diff_conv2)
qed

lemma read64_write64_same [mem_simps]: "read64 (write64 m a v) a = v"
  by (simp add: read64_def write64_def word64_of_bytes)

lemma byte_of_other_cell:
  assumes "cell_aligned a" and "cell_aligned b" and "a \<noteq> b" and "k < 8"
  shows "8 \<le> unat (b + of_nat k - a)"
  using assms by (intro aligned_far_apart) auto

lemma byte_of_other_page:
  assumes "page_aligned a" and "page_aligned b" and "a \<noteq> b" and "k < 4096"
  shows "4096 \<le> unat (b + of_nat k - a)"
  using assms by (intro aligned_far_apart) auto

lemma read64_cong_bytes:
  assumes "\<And>k. k < 8 \<Longrightarrow> m (b + of_nat k) = m' (b + of_nat k)"
  shows "read64 m b = read64 m' b"
proof -
  have "m b = m' b" "m (b + 1) = m' (b + 1)" "m (b + 2) = m' (b + 2)" "m (b + 3) = m' (b + 3)"
    "m (b + 4) = m' (b + 4)" "m (b + 5) = m' (b + 5)" "m (b + 6) = m' (b + 6)"
    "m (b + 7) = m' (b + 7)"
    using assms [of 0] assms [of 1] assms [of 2] assms [of 3] assms [of 4] assms [of 5]
      assms [of 6] assms [of 7] by simp_all
  then show ?thesis by (simp add: read64_def)
qed

lemma read64_write64_other [mem_simps]:
  assumes "cell_aligned a" and "cell_aligned b" and "a \<noteq> b"
  shows "read64 (write64 m a v) b = read64 m b"
proof (rule read64_cong_bytes)
  fix k :: nat assume "k < 8"
  from byte_of_other_cell [OF assms this]
  show "write64 m a v (b + of_nat k) = m (b + of_nat k)" by (simp add: write64_def)
qed

lemma read64_fill_outside:
  assumes "\<And>k. k < 8 \<Longrightarrow> n \<le> unat (b + of_nat k - a)"
  shows "read64 (fill_bytes m a c n) b = read64 m b"
proof (rule read64_cong_bytes)
  fix k :: nat assume "k < 8"
  from assms [OF this] show "fill_bytes m a c n (b + of_nat k) = m (b + of_nat k)"
    by (simp add: fill_bytes_def)
qed

lemma read64_fill_zero_inside:
  assumes "\<And>k. k < 8 \<Longrightarrow> unat (b + of_nat k - a) < n"
  shows "read64 (fill_bytes m a 0 n) b = 0"
proof -
  have "read64 (fill_bytes m a 0 n) b = read64 (\<lambda>_. 0) b"
    by (rule read64_cong_bytes) (use assms in \<open>auto simp: fill_bytes_def\<close>)
  then show ?thesis by (simp add: read64_def)
qed

lemma read64_fill_other_page:
  assumes "page_aligned a" and "page_aligned b" and "a \<noteq> b" and "k < 512"
  shows "read64 (fill_bytes m a c 4096) (b + 8 * of_nat k) = read64 m (b + 8 * of_nat k)"
proof (rule read64_fill_outside)
  fix j :: nat assume "j < 8"
  then have "4096 \<le> unat (b + of_nat (8 * k + j) - a)"
    using assms by (intro byte_of_other_page) auto
  then show "4096 \<le> unat (b + 8 * of_nat k + of_nat j - a)" by (simp add: add.assoc)
qed

lemma page_aligned_cell: "page_aligned a \<Longrightarrow> cell_aligned a"
  using mod_mod_cancel [of 8 4096 "unat a"] by simp

section \<open>The interface of 64-bit cells\<close>

text \<open>
  What the memory-resident structures rely on: a cell read back after a write holds what
  was written, and a write leaves every other aligned cell as it was.
\<close>

locale cell_memory =
  fixes rd :: "'m \<Rightarrow> u64 \<Rightarrow> u64"
    and wr :: "'m \<Rightarrow> u64 \<Rightarrow> u64 \<Rightarrow> 'm"
    and ok :: "u64 \<Rightarrow> bool"
  assumes rd_wr_same: "rd (wr m a v) a = v"
    and rd_wr_other: "ok a \<Longrightarrow> ok b \<Longrightarrow> a \<noteq> b \<Longrightarrow> rd (wr m a v) b = rd m b"
begin

lemma rd_wr: "ok a \<Longrightarrow> ok b \<Longrightarrow> rd (wr m a v) b = (if a = b then v else rd m b)"
  by (simp add: rd_wr_same rd_wr_other)

lemma rd_wr_twice:
  "ok a \<Longrightarrow> ok b \<Longrightarrow> rd (wr (wr m a v) a w) b = (if a = b then w else rd m b)"
  by (simp add: rd_wr)

text \<open>The chain of cells that starts at \<open>p\<close> and follows each cell's content to \<open>q\<close>.\<close>

primrec chain :: "'m \<Rightarrow> u64 \<Rightarrow> u64 list \<Rightarrow> u64 \<Rightarrow> bool" where
  "chain m p [] q \<longleftrightarrow> p = q"
| "chain m p (a # as) q \<longleftrightarrow> p = a \<and> a \<noteq> 0 \<and> chain m (rd m a) as q"

lemma chain_append: "chain m p (as @ bs) q \<longleftrightarrow> (\<exists>r. chain m p as r \<and> chain m r bs q)"
  by (induction as arbitrary: p) auto

lemma chain_frame:
  assumes "ok u" and "\<forall>a \<in> set as. ok a" and "u \<notin> set as"
  shows "chain (wr m u v) p as q \<longleftrightarrow> chain m p as q"
  using assms by (induction as arbitrary: p) (auto simp: rd_wr)

lemma chain_cong:
  assumes "\<And>a. a \<in> set as \<Longrightarrow> rd m' a = rd m a"
  shows "chain m' p as q \<longleftrightarrow> chain m p as q"
  using assms by (induction as arbitrary: p) auto

lemma chain_push:
  assumes "ok u" and "u \<noteq> 0" and "\<forall>a \<in> set as. ok a" and "u \<notin> set as" and "chain m p as q"
  shows "chain (wr m u p) u (u # as) q"
  using assms by (simp add: chain_frame rd_wr_same)

lemma chain_det:
  assumes "chain m p as 0" and "chain m p bs 0"
  shows "as = bs"
  using assms
proof (induction as arbitrary: p bs)
  case Nil
  then show ?case by (cases bs) auto
next
  case (Cons a as)
  then show ?case by (cases bs) auto
qed

end

interpretation bm: cell_memory read64 write64 cell_aligned
  by unfold_locales (simp_all add: mem_simps)

lemmas free_chain_simps = bm.chain_frame bm.chain_append bm.rd_wr

end
