(* ===== verification/Libc_String.thy ===== *)
theory Libc_String
  imports Byte_Memory
begin

text \<open>
  The string and memory routines of \<open>kernel/src/libc/string.c\<close> and \<open>libc/ctype.c\<close>, on the
  byte memory and pointers. The loops that walk to a terminating NUL are partial
  (\<open>None\<close>: no NUL is ever met); under \<open>cstr_at\<close>, which says that a C string is stored at
  an address, each returns and agrees with an operation on the list of its bytes. The
  list operations are what the components above the C library use.
\<close>

section \<open>Block operations\<close>

text \<open>\<open>rep stosb\<close> and \<open>rep movsb\<close> with the direction flag clear: one byte per step, upwards.\<close>

fun rep_stosb :: "mem \<Rightarrow> u64 \<Rightarrow> u8 \<Rightarrow> nat \<Rightarrow> mem" where
  "rep_stosb m dst c 0 = m"
| "rep_stosb m dst c (Suc n) = rep_stosb (m(dst := c)) (dst + 1) c n"

fun rep_movsb :: "mem \<Rightarrow> u64 \<Rightarrow> u64 \<Rightarrow> nat \<Rightarrow> mem" where
  "rep_movsb m dst src 0 = m"
| "rep_movsb m dst src (Suc n) = rep_movsb (m(dst := m src)) (dst + 1) (src + 1) n"

definition memset :: "mem \<Rightarrow> u64 \<Rightarrow> u8 \<Rightarrow> u64 \<Rightarrow> mem \<times> u64" where
  "memset m dst c n = (rep_stosb m dst c (unat n), dst)"

definition memcpy :: "mem \<Rightarrow> u64 \<Rightarrow> u64 \<Rightarrow> u64 \<Rightarrow> mem \<times> u64" where
  "memcpy m dst src n = (rep_movsb m dst src (unat n), dst)"

text \<open>The two loops of \<open>memmove\<close>: forwards when the source is above, backwards when below.\<close>

fun memmove_up :: "mem \<Rightarrow> u64 \<Rightarrow> u64 \<Rightarrow> nat \<Rightarrow> nat \<Rightarrow> mem" where
  "memmove_up m dest src i 0 = m"
| "memmove_up m dest src i (Suc k) =
     memmove_up (m(dest + of_nat i := m (src + of_nat i))) dest src (Suc i) k"

fun memmove_down :: "mem \<Rightarrow> u64 \<Rightarrow> u64 \<Rightarrow> nat \<Rightarrow> mem" where
  "memmove_down m dest src 0 = m"
| "memmove_down m dest src (Suc i) =
     memmove_down (m(dest + of_nat i := m (src + of_nat i))) dest src i"

definition memmove :: "mem \<Rightarrow> u64 \<Rightarrow> u64 \<Rightarrow> u64 \<Rightarrow> mem \<times> u64" where
  "memmove m dest src n =
     (if dest < src then memmove_up m dest src 0 (unat n)
      else if src < dest then memmove_down m dest src (unat n)
      else m, dest)"

fun memcmp_loop :: "mem \<Rightarrow> u64 \<Rightarrow> u64 \<Rightarrow> nat \<Rightarrow> nat \<Rightarrow> int" where
  "memcmp_loop m p1 p2 i 0 = 0"
| "memcmp_loop m p1 p2 i (Suc k) =
     (if m (p1 + of_nat i) \<noteq> m (p2 + of_nat i)
      then (if m (p1 + of_nat i) < m (p2 + of_nat i) then -1 else 1)
      else memcmp_loop m p1 p2 (Suc i) k)"

definition memcmp :: "mem \<Rightarrow> u64 \<Rightarrow> u64 \<Rightarrow> u64 \<Rightarrow> int" where
  "memcmp m s1 s2 n = memcmp_loop m s1 s2 0 (unat n)"

section \<open>String operations\<close>

partial_function (option) strcmp :: "mem \<Rightarrow> u64 \<Rightarrow> u64 \<Rightarrow> int option" where
  "strcmp m s1 s2 =
     (if m s1 \<noteq> 0 \<and> m s1 = m s2 then strcmp m (s1 + 1) (s2 + 1)
      else Some (int (unat (m s1)) - int (unat (m s2))))"

fun strncmp_loop :: "mem \<Rightarrow> u64 \<Rightarrow> u64 \<Rightarrow> nat \<Rightarrow> nat \<Rightarrow> int" where
  "strncmp_loop m s1 s2 i 0 = 0"
| "strncmp_loop m s1 s2 i (Suc k) =
     (if m (s1 + of_nat i) \<noteq> 0 \<and> m (s1 + of_nat i) = m (s2 + of_nat i)
      then strncmp_loop m s1 s2 (Suc i) k
      else int (unat (m (s1 + of_nat i))) - int (unat (m (s2 + of_nat i))))"

definition strncmp :: "mem \<Rightarrow> u64 \<Rightarrow> u64 \<Rightarrow> u64 \<Rightarrow> int" where
  "strncmp m s1 s2 n = strncmp_loop m s1 s2 0 (unat n)"

partial_function (option) strcpy_loop :: "mem \<Rightarrow> u64 \<Rightarrow> u64 \<Rightarrow> mem option" where
  "strcpy_loop m d s =
     (let m' = m(d := m s) in if m s \<noteq> 0 then strcpy_loop m' (d + 1) (s + 1) else Some m')"

definition strcpy :: "mem \<Rightarrow> u64 \<Rightarrow> u64 \<Rightarrow> (mem \<times> u64) option" where
  "strcpy m strDest strSrc = map_option (\<lambda>m'. (m', strDest)) (strcpy_loop m strDest strSrc)"

partial_function (option) strlen_loop :: "mem \<Rightarrow> u64 \<Rightarrow> u64 option" where
  "strlen_loop m s = (if m s \<noteq> 0 then strlen_loop m (s + 1) else Some s)"

definition strlen :: "mem \<Rightarrow> u64 \<Rightarrow> u64 option" where
  "strlen m str = map_option (\<lambda>s. s - str) (strlen_loop m str)"

text \<open>\<open>strchr\<close> returns the null pointer, \<open>0\<close>, when the character does not occur.\<close>

partial_function (option) strchr :: "mem \<Rightarrow> u64 \<Rightarrow> u8 \<Rightarrow> u64 option" where
  "strchr m s c =
     (if m s \<noteq> 0 then (if m s = c then Some s else strchr m (s + 1) c)
      else if c = 0 then Some s else Some 0)"

section \<open>Characters\<close>

definition toupper :: "int \<Rightarrow> int" where
  "toupper c = (if 97 \<le> c \<and> c \<le> 122 then c - 32 else c)"

definition tolower :: "int \<Rightarrow> int" where
  "tolower c = (if 65 \<le> c \<and> c \<le> 90 then c + 32 else c)"

section \<open>C strings as lists of bytes\<close>

fun cstr_at :: "mem \<Rightarrow> u64 \<Rightarrow> u8 list \<Rightarrow> bool" where
  "cstr_at m s [] \<longleftrightarrow> m s = 0"
| "cstr_at m s (x # xs) \<longleftrightarrow> x \<noteq> 0 \<and> m s = x \<and> cstr_at m (s + 1) xs"

text \<open>
  \<open>strcmp\<close> and \<open>strncmp\<close> on the bytes of two strings; the end of a list is the NUL.
\<close>

fun strcmp_str :: "u8 list \<Rightarrow> u8 list \<Rightarrow> int" where
  "strcmp_str [] [] = 0"
| "strcmp_str [] (y # ys) = - int (unat y)"
| "strcmp_str (x # xs) [] = int (unat x)"
| "strcmp_str (x # xs) (y # ys) =
     (if x = y then strcmp_str xs ys else int (unat x) - int (unat y))"

fun strncmp_str :: "u8 list \<Rightarrow> u8 list \<Rightarrow> nat \<Rightarrow> int" where
  "strncmp_str xs ys 0 = 0"
| "strncmp_str [] [] (Suc n) = 0"
| "strncmp_str [] (y # ys) (Suc n) = - int (unat y)"
| "strncmp_str (x # xs) [] (Suc n) = int (unat x)"
| "strncmp_str (x # xs) (y # ys) (Suc n) =
     (if x = y then strncmp_str xs ys n else int (unat x) - int (unat y))"

definition bytes_of :: "string \<Rightarrow> u8 list" where
  "bytes_of s = map (\<lambda>c. of_nat (of_char c)) s"

section \<open>Block operations: closed forms\<close>

lemma unat_diff_step: "unat (x - d) = Suc (unat (x - (d + 1)))" if "x \<noteq> d" for x d :: u64
proof -
  have "x - d \<noteq> 0" using that by simp
  then have "unat (x - d - 1) = unat (x - d) - 1" "0 < unat (x - d)"
    by (simp_all add: unat_minus_one unat_gt_0)
  then show ?thesis by (simp add: diff_diff_eq)
qed

lemma rep_stosb_eq: "n \<le> 2 ^ 64 \<Longrightarrow> rep_stosb m dst c n = fill_bytes m dst c n"
proof (induction n arbitrary: m dst)
  case 0
  show ?case by (simp add: fill_bytes_def)
next
  case (Suc n)
  have "fill_bytes (m(dst := c)) (dst + 1) c n = fill_bytes m dst c (Suc n)"
  proof
    fix x :: u64
    have "unat (x - dst) = Suc (unat (x - (dst + 1)))" if "x \<noteq> dst"
      using that by (rule unat_diff_step)
    then show "fill_bytes (m(dst := c)) (dst + 1) c n x = fill_bytes m dst c (Suc n) x"
      by (cases "x = dst") (auto simp: fill_bytes_def)
  qed
  with Suc show ?case by simp
qed

lemma memset_eq: "memset m dst c n = (fill_bytes m dst c (unat n), dst)"
  using unat_lt_64 [of n] by (simp add: memset_def rep_stosb_eq)

text \<open>What a copy of \<open>n\<close> bytes must leave in memory, whatever the overlap.\<close>

definition copied :: "mem \<Rightarrow> u64 \<Rightarrow> u64 \<Rightarrow> nat \<Rightarrow> mem" where
  "copied m dst src n = (\<lambda>x. if unat (x - dst) < n then m (src + (x - dst)) else m x)"

lemma unat_offset: "i < 18446744073709551616 \<Longrightarrow> unat (d + of_nat i - d :: u64) = i"
  by (simp add: unat_of_nat64)

lemma offset_of_unat: "d + of_nat (unat (x - d)) = (x :: u64)"
  by simp

lemma memmove_down_eq:
  assumes "src < dest" and "unat src + n < 2 ^ 64" and "unat dest + n < 2 ^ 64"
  shows "memmove_down m dest src n = copied m dest src n"
  using assms(2,3)
proof (induction n arbitrary: m)
  case 0
  show ?case by (simp add: copied_def)
next
  case (Suc n)
  let ?m' = "m(dest + of_nat n := m (src + of_nat n))"
  have "copied ?m' dest src n = copied m dest src (Suc n)"
  proof
    fix x :: u64
    show "copied ?m' dest src n x = copied m dest src (Suc n) x"
    proof (cases "x = dest + of_nat n")
      case True
      with Suc.prems show ?thesis by (simp add: copied_def unat_of_nat64)
    next
      case False
      then have "unat (x - dest) \<noteq> n" by (metis offset_of_unat)
      moreover have "src + (x - dest) \<noteq> dest + of_nat n" if lt: "unat (x - dest) < n"
      proof -
        have "unat (src + (x - dest)) = unat src + unat (x - dest)"
          using Suc.prems lt by (intro unat_add_no_wrap) simp
        moreover have "unat (dest + of_nat n) = unat dest + n"
          using Suc.prems by (subst unat_add_no_wrap) (simp_all add: unat_of_nat64)
        moreover have "unat src < unat dest" using assms(1) by (simp add: word_less_nat_alt)
        ultimately show ?thesis using lt by (metis add_less_mono less_irrefl)
      qed
      ultimately show ?thesis using False by (auto simp: copied_def)
    qed
  qed
  with Suc show ?case by simp
qed

lemma memmove_up_eq:
  assumes "dest < src" and "unat src + (i + k) < 2 ^ 64" and "unat dest + (i + k) < 2 ^ 64"
  shows "memmove_up m dest src i k =
    (\<lambda>x. if i \<le> unat (x - dest) \<and> unat (x - dest) < i + k then m (src + (x - dest)) else m x)"
  using assms(2,3)
proof (induction k arbitrary: m i)
  case 0
  show ?case by (auto simp: fun_eq_iff)
next
  case (Suc k)
  let ?m' = "m(dest + of_nat i := m (src + of_nat i))"
  have "(if Suc i \<le> unat (x - dest) \<and> unat (x - dest) < Suc i + k then ?m' (src + (x - dest)) else ?m' x)
      = (if i \<le> unat (x - dest) \<and> unat (x - dest) < i + Suc k then m (src + (x - dest)) else m x)"
    for x :: u64
  proof (cases "x = dest + of_nat i")
    case True
    with Suc.prems show ?thesis by (simp add: unat_of_nat64)
  next
    case False
    then have "unat (x - dest) \<noteq> i" by (metis offset_of_unat)
    moreover have "src + (x - dest) \<noteq> dest + of_nat i"
      if lt: "Suc i \<le> unat (x - dest)" "unat (x - dest) < Suc i + k"
    proof -
      have "unat (src + (x - dest)) = unat src + unat (x - dest)"
        using Suc.prems lt by (intro unat_add_no_wrap) simp
      moreover have "unat (dest + of_nat i) = unat dest + i"
        using Suc.prems by (subst unat_add_no_wrap) (simp_all add: unat_of_nat64)
      moreover have "unat dest < unat src" using assms(1) by (simp add: word_less_nat_alt)
      ultimately show ?thesis using lt by (metis add_less_mono less_irrefl Suc_le_lessD)
    qed
    ultimately show ?thesis using False by auto
  qed
  with Suc show ?case by (simp add: fun_eq_iff)
qed

lemma memmove_copies:
  assumes "unat src + unat n < 2 ^ 64" and "unat dest + unat n < 2 ^ 64"
  shows "memmove m dest src n = (copied m dest src (unat n), dest)"
proof -
  have "copied m dest dest (unat n) = m" by (auto simp: copied_def)
  with assms show ?thesis
    by (auto simp: memmove_def memmove_down_eq memmove_up_eq copied_def not_less
        dest!: order_antisym)
qed

lemma rep_movsb_eq:
  assumes "unat src + n < 2 ^ 64" and "unat dst + n < 2 ^ 64"
    and "unat src + n \<le> unat dst \<or> unat dst \<le> unat src"
  shows "rep_movsb m dst src n = copied m dst src n"
  using assms
proof (induction n arbitrary: m dst src)
  case 0
  show ?case by (simp add: copied_def)
next
  case (Suc n)
  have s1: "unat (src + 1) = Suc (unat src)" "unat (dst + 1) = Suc (unat dst)"
    using Suc.prems by (simp_all add: unat_add_no_wrap)
  let ?m' = "m(dst := m src)"
  have "copied ?m' (dst + 1) (src + 1) n x = copied m dst src (Suc n) x" for x :: u64
  proof (cases "x = dst")
    case True
    have "unat (dst - (dst + 1)) = 2 ^ 64 - 1" by (simp add: unsigned_minus_1_eq_mask mask_eq_exp_minus_1)
    with True Suc.prems show ?thesis by (simp add: copied_def)
  next
    case False
    then have u: "unat (x - dst) = Suc (unat (x - (dst + 1)))"
      by (rule unat_diff_step)
    have "src + (x - dst) \<noteq> dst" if lt: "unat (x - (dst + 1)) < n"
    proof -
      have "unat (src + (x - dst)) = unat src + Suc (unat (x - (dst + 1)))"
        using Suc.prems lt u by (subst unat_add_no_wrap) simp_all
      with Suc.prems(3) lt have "unat (src + (x - dst)) \<noteq> unat dst" by linarith
      then show ?thesis by metis
    qed
    moreover have "src + 1 + (x - (dst + 1)) = src + (x - dst)" by simp
    ultimately show ?thesis using False u by (simp add: copied_def)
  qed
  with Suc s1 show ?case by (auto simp: fun_eq_iff)
qed

section \<open>String operations agree with the list operations\<close>

lemma cstr_at_nonzero: "cstr_at m s xs \<Longrightarrow> 0 \<notin> set xs"
  by (induction m s xs rule: cstr_at.induct) auto

lemma cstr_at_cong: "(\<And>i. i \<le> length xs \<Longrightarrow> m' (s + of_nat i) = m (s + of_nat i)) \<Longrightarrow>
    cstr_at m' s xs = cstr_at m s xs"
proof (induction m s xs rule: cstr_at.induct)
  case (1 m s)
  from "1.prems" [of 0] show ?case by simp
next
  case (2 m s x xs)
  have "m' (s + 1 + of_nat i) = m (s + 1 + of_nat i)" if "i \<le> length xs" for i
    using "2.prems" [of "Suc i"] that by (simp add: add.assoc)
  moreover have "m' s = m s" using "2.prems" [of 0] by simp
  ultimately show ?case using "2.IH" by simp
qed

lemma strcmp_refines: "cstr_at m s1 xs \<Longrightarrow> cstr_at m s2 ys \<Longrightarrow> strcmp m s1 s2 = Some (strcmp_str xs ys)"
proof (induction xs ys arbitrary: s1 s2 rule: strcmp_str.induct)
  case (4 x xs y ys)
  then show ?case by (subst strcmp.simps) auto
qed (subst strcmp.simps; auto)+

lemma strncmp_loop_refines:
  assumes "cstr_at m (s1 + of_nat i) xs" and "cstr_at m (s2 + of_nat i) ys"
  shows "strncmp_loop m s1 s2 i n = strncmp_str xs ys n"
  using assms
proof (induction xs ys n arbitrary: i rule: strncmp_str.induct)
  case (5 x xs y ys n)
  from "5.prems" "5.IH" [of "Suc i"] show ?case by (auto simp: ac_simps)
qed auto

lemma strncmp_refines: "cstr_at m s1 xs \<Longrightarrow> cstr_at m s2 ys \<Longrightarrow> strncmp m s1 s2 n = strncmp_str xs ys (unat n)"
  using strncmp_loop_refines [of m s1 0 xs s2 ys] by (simp add: strncmp_def)

lemma strlen_loop_refines: "cstr_at m s xs \<Longrightarrow> strlen_loop m s = Some (s + of_nat (length xs))"
  by (induction m s xs rule: cstr_at.induct) (subst strlen_loop.simps; auto simp: add.assoc)+

lemma strlen_refines: "cstr_at m s xs \<Longrightarrow> strlen m s = Some (of_nat (length xs))"
  by (simp add: strlen_def strlen_loop_refines)

lemma strcmp_str_eq_0: "0 \<notin> set xs \<Longrightarrow> 0 \<notin> set ys \<Longrightarrow> strcmp_str xs ys = 0 \<longleftrightarrow> xs = ys"
  by (induction xs ys rule: strcmp_str.induct) (auto simp: word_uint_eq_iff)

lemma strncmp_str_eq_0:
  "0 \<notin> set xs \<Longrightarrow> 0 \<notin> set ys \<Longrightarrow> strncmp_str xs ys n = 0 \<longleftrightarrow> take n xs = take n ys"
  by (induction xs ys n rule: strncmp_str.induct) (auto simp: word_uint_eq_iff)

lemma strcmp_str_neg:
  "0 \<notin> set xs \<Longrightarrow> 0 \<notin> set ys \<Longrightarrow> strcmp_str xs ys < 0 \<longleftrightarrow> (xs, ys) \<in> lexord {(a, b). a < b}"
  by (induction xs ys rule: strcmp_str.induct) (auto simp: word_less_def word_uint_eq_iff order_less_le)

lemma strcpy_loop_refines:
  assumes "cstr_at m s xs" and "unat s + length xs < 2 ^ 64" and "unat d + length xs < 2 ^ 64"
    and "unat s + length xs < unat d \<or> unat d + length xs < unat s"
  shows "\<exists>m'. strcpy_loop m d s = Some m' \<and> cstr_at m' d xs
    \<and> (\<forall>x. unat x < unat d \<or> unat d + length xs < unat x \<longrightarrow> m' x = m x)"
  using assms
proof (induction xs arbitrary: m s d)
  case Nil
  then show ?case by (subst strcpy_loop.simps) (auto simp: Let_def)
next
  case (Cons c xs)
  define m1 where "m1 = m(d := c)"
  have s1: "unat (s + 1) = Suc (unat s)" "unat (d + 1) = Suc (unat d)"
    using Cons.prems by (simp_all add: unat_add_no_wrap)
  have "m1 (s + 1 + of_nat i) = m (s + 1 + of_nat i)" if "i \<le> length xs" for i
  proof -
    have "unat (s + 1 + of_nat i) = Suc (unat s) + i"
      using Cons.prems(2) that s1 by (subst unat_add_no_wrap) (simp_all add: unat_of_nat64)
    with Cons.prems(4) that show ?thesis by (auto simp: m1_def)
  qed
  then have "cstr_at m1 (s + 1) xs"
    using Cons.prems(1) cstr_at_cong [of xs m1 "s + 1" m] by auto
  from Cons.IH [OF this, of "d + 1"] Cons.prems s1 obtain m' where
    m': "strcpy_loop m1 (d + 1) (s + 1) = Some m'" "cstr_at m' (d + 1) xs"
    "\<forall>x. unat x < Suc (unat d) \<or> Suc (unat d + length xs) < unat x \<longrightarrow> m' x = m1 x"
    by auto
  then have "m' d = c" "\<forall>x. unat x < unat d \<or> unat d + length (c # xs) < unat x \<longrightarrow> m' x = m x"
    by (auto simp: m1_def)
  moreover have "strcpy_loop m d s = Some m'"
    using Cons.prems(1) m'(1) by (subst strcpy_loop.simps) (auto simp: Let_def m1_def)
  ultimately show ?case using Cons.prems(1) m'(2) by auto
qed

lemma strchr_found:
  "cstr_at m s (xs @ c # ys) \<Longrightarrow> c \<notin> set xs \<Longrightarrow> strchr m s c = Some (s + of_nat (length xs))"
proof (induction xs arbitrary: s)
  case Nil
  then show ?case by (subst strchr.simps) auto
next
  case (Cons x xs)
  then show ?case by (subst strchr.simps) (auto simp: add.assoc)
qed

lemma strchr_missing: "cstr_at m s xs \<Longrightarrow> c \<notin> set xs \<Longrightarrow> c \<noteq> 0 \<Longrightarrow> strchr m s c = Some 0"
  by (induction m s xs rule: cstr_at.induct) (subst strchr.simps; auto)+

lemma memcmp_loop_eq_0:
  "memcmp_loop m p1 p2 i k = 0 \<longleftrightarrow> (\<forall>j \<in> {i..<i + k}. m (p1 + of_nat j) = m (p2 + of_nat j))"
proof (induction k arbitrary: i)
  case 0
  show ?case by simp
next
  case (Suc k)
  have "{i..<i + Suc k} = insert i {Suc i..<Suc i + k}" by auto
  with Suc.IH [of "Suc i"] show ?case by simp
qed

lemma tolower_idem: "tolower (tolower c) = tolower c"
  by (auto simp: tolower_def)

lemma toupper_tolower: "65 \<le> c \<Longrightarrow> c \<le> 90 \<Longrightarrow> toupper (tolower c) = c"
  by (auto simp: tolower_def toupper_def)

end
