(* ===== verification/Allocator.thy ===== *)
theory Allocator
  imports Kernel_Prelude
begin

text \<open>
  The contract of a fallible allocator of addresses: what the page frame allocator promises
  the virtual memory manager and the slab heap (\<open>frame_allocator\<close>, last in first out), and what
  the slab heap promises the rest of the kernel (\<open>address_allocator\<close>). \<open>live\<close> is the set of addresses handed out and not yet given back. The clients'
  facts on whole sequences of requests are proved once, here.
\<close>

locale address_allocator =
  fixes alloc :: "'s \<Rightarrow> (u64 \<times> 's) kres"
    and free :: "u64 \<Rightarrow> 's \<Rightarrow> 's kres"
    and inv :: "'s \<Rightarrow> bool"
    and live :: "'s \<Rightarrow> u64 set"
  assumes alloc_ok: "inv s \<Longrightarrow> alloc s = Inr (a, s') \<Longrightarrow>
      inv s' \<and> a \<notin> live s \<and> live s' = insert a (live s)"
    and free_ok: "inv s \<Longrightarrow> a \<in> live s \<Longrightarrow>
      \<exists>s'. free a s = Inr s' \<and> inv s' \<and> live s' = live s - {a}"
begin

text \<open>A sequence of \<open>n\<close> allocations, and the release of a list of addresses.\<close>

primrec alloc_many :: "nat \<Rightarrow> 's \<Rightarrow> (u64 list \<times> 's) kres" where
  "alloc_many 0 s = Inr ([], s)"
| "alloc_many (Suc n) s =
     kbind (alloc s) (\<lambda>(a, s1). kbind (alloc_many n s1) (\<lambda>(as, s2). Inr (a # as, s2)))"

primrec free_many :: "u64 list \<Rightarrow> 's \<Rightarrow> 's kres" where
  "free_many [] s = Inr s"
| "free_many (a # as) s = kbind (free a s) (free_many as)"

lemma alloc_many_ok:
  assumes "inv s" and "alloc_many n s = Inr (as, s')"
  shows "inv s' \<and> length as = n \<and> distinct as \<and> set as \<inter> live s = {} \<and> live s' = set as \<union> live s"
  using assms
proof (induction n arbitrary: s as)
  case (Suc n)
  obtain a s1 as1 where *: "alloc s = Inr (a, s1)" "alloc_many n s1 = Inr (as1, s')" "as = a # as1"
    using Suc.prems(2) by (auto simp: kres_simps)
  from alloc_ok [OF Suc.prems(1) *(1)] Suc.IH [OF _ *(2)] *(3) show ?case by auto
qed auto

lemma free_many_ok:
  assumes "inv s" and "distinct as" and "set as \<subseteq> live s"
  shows "\<exists>s'. free_many as s = Inr s' \<and> inv s' \<and> live s' = live s - set as"
  using assms
proof (induction as arbitrary: s)
  case (Cons a as)
  obtain s1 where s1: "free a s = Inr s1" "inv s1" "live s1 = live s - {a}"
    using free_ok [of s a] Cons.prems by auto
  moreover have "set as \<subseteq> live s1" using Cons.prems s1(3) by auto
  ultimately show ?case using Cons.IH [of s1] Cons.prems by auto
qed auto

text \<open>Whatever was allocated can be given back in any order, and then nothing is leaked.\<close>

lemma alloc_free_any_order:
  assumes "inv s" and "alloc_many n s = Inr (as, s1)" and "distinct bs" and "set bs = set as"
  shows "\<exists>s2. free_many bs s1 = Inr s2 \<and> inv s2 \<and> live s2 = live s"
proof -
  note a = alloc_many_ok [OF assms(1,2)]
  have "set bs \<subseteq> live s1" using a assms(4) by auto
  moreover have "live s1 - set bs = live s" using a assms(4) by auto
  ultimately show ?thesis using free_many_ok [of s1 bs] a assms(3) by auto
qed

end

text \<open>A last-in first-out allocator: an address given back is the next one handed out.\<close>

locale frame_allocator = address_allocator +
  assumes free_next: "inv s \<Longrightarrow> a \<in> live s \<Longrightarrow> free a s = Inr s' \<Longrightarrow> \<exists>s''. alloc s' = Inr (a, s'')"
begin

lemma free_alloc_lifo:
  assumes "inv s" and "a \<in> live s" and "free a s = Inr s1"
  shows "\<exists>s2. alloc s1 = Inr (a, s2) \<and> inv s2 \<and> live s2 = live s"
proof -
  have s1: "inv s1" "live s1 = live s - {a}" using free_ok [OF assms(1,2)] assms(3) by auto
  obtain s2 where s2: "alloc s1 = Inr (a, s2)" using free_next [OF assms] by blast
  from alloc_ok [OF s1(1) s2] s1 s2 assms(2) show ?thesis by auto
qed

end

end
