(* ===== verification/Pmm.thy ===== *)
theory Pmm
  imports Libc_String Allocator
begin

text \<open>
  The physical memory manager, \<open>kernel/src/memory/pmm.c\<close>. The page frame database is a
  list of child tables with one state per page; the free list is threaded through the
  free pages themselves, as \<open>next\<close> cells in the byte memory seen through the higher-half
  direct map. \<open>pmm_inv\<close> is the invariant of the allocator; the locale \<open>frame_allocator\<close>
  is the contract its clients rely on, interpreted here on \<open>allocate_page\<close> and
  \<open>free_page\<close>. Every operation runs under \<open>pmm_spinlock\<close> and is one step of the model.
\<close>

named_theorems pmm_simps \<open>frame database updates\<close>

section \<open>State\<close>

datatype page_state_t = PAGE_UNINIT | PAGE_FREE | PAGE_USED

text \<open>A child table: \<open>ct_addr\<close> is its own address, the other fields are the struct's.\<close>

record pmm_child_table_t =
  ct_addr :: u64
  ct_start :: u64
  ct_end :: u64
  ct_num_pages :: u64
  ct_pages :: "page_state_t list"

record pmm =
  hhdmOffset :: u64
  freelist_head :: u64
  num_child_tables :: u32
  child_tables :: "pmm_child_table_t list"
  total_pages :: u64
  used_pages :: u64
  fill_t :: u32
  fill_p :: u64
  kmem :: mem

datatype limine_memmap_type = LIMINE_MEMMAP_USABLE | LIMINE_MEMMAP_RESERVED
  | LIMINE_MEMMAP_ACPI_RECLAIMABLE | LIMINE_MEMMAP_ACPI_NVS | LIMINE_MEMMAP_BAD_MEMORY
  | LIMINE_MEMMAP_BOOTLOADER_RECLAIMABLE | LIMINE_MEMMAP_EXECUTABLE_AND_MODULES
  | LIMINE_MEMMAP_FRAMEBUFFER | LIMINE_MEMMAP_OTHER u64

record limine_memmap_entry =
  me_base :: u64
  me_length :: u64
  me_type :: limine_memmap_type

section \<open>The frame database\<close>

text \<open>
  \<open>get_page_info\<close> returns a pointer into a child table; the model returns the table's index
  and the page's index in it. \<open>None\<close> is the null pointer.
\<close>

fun get_page_info_from :: "nat \<Rightarrow> pmm_child_table_t list \<Rightarrow> u64 \<Rightarrow> (nat \<times> nat) option kres" where
  "get_page_info_from i [] phys_addr = Inr None"
| "get_page_info_from i (ct # cts) phys_addr =
     (if ct_start ct \<le> phys_addr \<and> phys_addr \<le> ct_end ct then
        (let index = (ALIGN_DOWN phys_addr PAGE_SIZE - ct_start ct) div PAGE_SIZE
         in if ct_num_pages ct \<le> index
            then Inl (Panic ''PMM: attempted to get info on out of bounds page that was meant to be in range'')
            else Inr (Some (i, unat index)))
      else get_page_info_from (Suc i) cts phys_addr)"

definition get_page_info :: "pmm \<Rightarrow> u64 \<Rightarrow> (nat \<times> nat) option kres" where
  "get_page_info s phys_addr =
     get_page_info_from 0 (take (unat (num_child_tables s)) (child_tables s)) phys_addr"

text \<open>The address of \<open>pages[k]\<close>: the struct's fixed part is 24 bytes, a \<open>page_t\<close> is 4.\<close>

definition page_ptr :: "pmm_child_table_t \<Rightarrow> u64 \<Rightarrow> u64" where
  "page_ptr ct k = ct_addr ct + 24 + 4 * k"

fun get_phys_addr_from_tables :: "pmm_child_table_t list \<Rightarrow> u64 \<Rightarrow> u64" where
  "get_phys_addr_from_tables [] page = 0"
| "get_phys_addr_from_tables (sub # cts) page =
     (if page_ptr sub 0 \<le> page \<and> page < page_ptr sub (ct_num_pages sub)
      then ct_start sub + ((page - page_ptr sub 0) div 4) * PAGE_SIZE
      else get_phys_addr_from_tables cts page)"

definition get_phys_addr_from_page_info :: "pmm \<Rightarrow> u64 \<Rightarrow> u64" where
  "get_phys_addr_from_page_info s page =
     get_phys_addr_from_tables (take (unat (num_child_tables s)) (child_tables s)) page"

definition page_st :: "pmm \<Rightarrow> nat \<Rightarrow> nat \<Rightarrow> page_state_t" where
  "page_st s i k = ct_pages (child_tables s ! i) ! k"

definition set_page_state :: "nat \<Rightarrow> nat \<Rightarrow> page_state_t \<Rightarrow> pmm \<Rightarrow> pmm" where
  "set_page_state i k v s =
     s\<lparr>child_tables := (child_tables s)[i := (child_tables s ! i)
        \<lparr>ct_pages := (ct_pages (child_tables s ! i))[k := v]\<rparr>]\<rparr>"

text \<open>Push the page whose direct-map address is \<open>node\<close> on the free list.\<close>

definition push_free_node :: "u64 \<Rightarrow> pmm \<Rightarrow> pmm" where
  "push_free_node node s =
     s\<lparr>kmem := write64 (kmem s) node (freelist_head s), freelist_head := node\<rparr>"

section \<open>Filling the free list\<close>

text \<open>One pass of the inner loop's body, for the page under the cursor of table \<open>t\<close>.\<close>

definition pmm_fill_page :: "nat \<Rightarrow> u64 \<Rightarrow> pmm \<Rightarrow> u64 \<times> pmm" where
  "pmm_fill_page t pages_added s =
     (let child = child_tables s ! t;
          page_addr = ct_start child + PAGE_SIZE * fill_p s
      in if page_st s t (unat (fill_p s)) = PAGE_UNINIT
         then (pages_added + 1,
               (push_free_node (page_addr + hhdmOffset s)
                 (set_page_state t (unat (fill_p s)) PAGE_FREE s))\<lparr>fill_p := fill_p s + 1\<rparr>)
         else (pages_added, s\<lparr>fill_p := fill_p s + 1\<rparr>))"

lemma pmm_fill_page_frame:
  "snd (pmm_fill_page t added s) = s' \<Longrightarrow> fill_p s' = fill_p s + 1 \<and> fill_t s' = fill_t s
     \<and> num_child_tables s' = num_child_tables s
     \<and> ct_num_pages (child_tables s' ! i) = ct_num_pages (child_tables s ! i)"
  by (auto simp: pmm_fill_page_def push_free_node_def set_page_state_def Let_def
      nth_list_update_if split: if_splits)

function pmm_fill_child :: "nat \<Rightarrow> u64 \<Rightarrow> u64 \<Rightarrow> pmm \<Rightarrow> u64 \<times> pmm" where
  "pmm_fill_child t pages pages_added s =
     (if fill_p s < ct_num_pages (child_tables s ! t) \<and> pages_added < pages
      then (case pmm_fill_page t pages_added s of (added', s') \<Rightarrow> pmm_fill_child t pages added' s')
      else (pages_added, s))"
  by pat_completeness auto
termination
proof (relation "measure (\<lambda>(t, pages, added, s). unat (ct_num_pages (child_tables s ! t)) - unat (fill_p s))")
  fix t :: nat and pages pages_added :: u64 and s xa y
  assume lt: "fill_p s < ct_num_pages (child_tables s ! t) \<and> pages_added < pages"
    and x: "(xa, y) = pmm_fill_page t pages_added s"
  from x have "snd (pmm_fill_page t pages_added s) = y" by (metis snd_conv)
  from pmm_fill_page_frame [OF this] have "fill_p y = fill_p s + 1"
    "ct_num_pages (child_tables y ! t) = ct_num_pages (child_tables s ! t)" by blast+
  moreover have "unat (fill_p s + 1) = Suc (unat (fill_p s))"
    using lt unat_inc_less by blast
  ultimately show "((t, pages, xa, y), t, pages, pages_added, s)
      \<in> measure (\<lambda>(t, pages, added, s). unat (ct_num_pages (child_tables s ! t)) - unat (fill_p s))"
    using lt by (auto simp: word_less_nat_alt)
qed auto

declare pmm_fill_child.simps [simp del]

lemma pmm_fill_child_frame:
  "pmm_fill_child t pages added s = (added', s') \<Longrightarrow> fill_t s' = fill_t s
     \<and> num_child_tables s' = num_child_tables s
     \<and> \<not> (fill_p s' < ct_num_pages (child_tables s' ! t) \<and> added' < pages)"
proof (induction t pages added s rule: pmm_fill_child.induct)
  case (1 t pages added s)
  show ?case
  proof (cases "fill_p s < ct_num_pages (child_tables s ! t) \<and> added < pages")
    case True
    obtain a1 s1 where p: "pmm_fill_page t added s = (a1, s1)" by force
    have "pmm_fill_child t pages a1 s1 = (added', s')"
      using 1(2) True p by (simp add: pmm_fill_child.simps [of t pages added s])
    from 1(1) [OF True p [symmetric] this] show ?thesis
      using pmm_fill_page_frame [of t added s s1] p by simp
  next
    case False
    then show ?thesis using 1(2) by (subst (asm) pmm_fill_child.simps) auto
  qed
qed

text \<open>The outer loop: finish the child under the cursor, then move on to the next one.\<close>

definition pmm_next_child :: "pmm \<Rightarrow> pmm" where
  "pmm_next_child s =
     (if ct_num_pages (child_tables s ! unat (fill_t s)) \<le> fill_p s
      then s\<lparr>fill_t := fill_t s + 1, fill_p := 0\<rparr> else s)"

function pmm_fill_loop :: "u64 \<Rightarrow> u64 \<Rightarrow> pmm \<Rightarrow> pmm" where
  "pmm_fill_loop pages pages_added s =
     (if fill_t s < num_child_tables s \<and> pages_added < pages
      then (case pmm_fill_child (unat (fill_t s)) pages pages_added s of
              (added', s') \<Rightarrow> pmm_fill_loop pages added' (pmm_next_child s'))
      else s)"
  by pat_completeness auto
termination
proof (relation "measures [\<lambda>(pages, added, s). unat (num_child_tables s) - unat (fill_t s),
      \<lambda>(pages, added, s). if added < pages then 1 else 0]")
  fix pages added :: u64 and s xa y
  assume lt: "fill_t s < num_child_tables s \<and> added < pages"
    and x: "(xa, y) = pmm_fill_child (unat (fill_t s)) pages added s"
  from x have fr: "fill_t y = fill_t s" "num_child_tables y = num_child_tables s"
    "fill_p y < ct_num_pages (child_tables y ! unat (fill_t s)) \<longrightarrow> \<not> xa < pages"
    using pmm_fill_child_frame [of "unat (fill_t s)" pages added s xa y] by auto
  have "unat (fill_t s + 1) = Suc (unat (fill_t s))" using lt unat_inc_less by blast
  then show "((pages, xa, pmm_next_child y), pages, added, s)
      \<in> measures [\<lambda>(pages, added, s). unat (num_child_tables s) - unat (fill_t s),
        \<lambda>(pages, added, s). if added < pages then 1 else 0]"
    using lt fr by (auto simp: pmm_next_child_def word_less_nat_alt not_le)
qed auto

declare pmm_fill_loop.simps [simp del]

definition pmm_fill :: "u64 \<Rightarrow> pmm \<Rightarrow> pmm" where
  "pmm_fill pages s = pmm_fill_loop pages 0 s"

section \<open>Allocating and freeing\<close>

definition allocate_page :: "pmm \<Rightarrow> (u64 \<times> pmm) kres" where
  "allocate_page s =
     (let s1 = (if freelist_head s = 0 then pmm_fill 512 s else s)
      in if freelist_head s1 = 0 then Inl (Panic ''PMM: out of memory'')
      else
        (let node = freelist_head s1;
             s2 = s1\<lparr>freelist_head := read64 (kmem s1) node\<rparr>;
             phys = node - hhdmOffset s2
         in kbind (get_page_info s2 phys) (\<lambda>info.
           case info of
             None \<Rightarrow> Inl (Panic ''PMM: attempted to allocate page not in PFNdb'')
           | Some (i, k) \<Rightarrow>
               if page_st s2 i k = PAGE_USED then Inl (Panic ''PMM: attempted to allocate used page'')
               else
                 (let s3 = set_page_state i k PAGE_USED s2
                  in Inr (phys, s3\<lparr>used_pages := used_pages s3 + 1,
                                  kmem := fst (memset (kmem s3) node 0 PAGE_SIZE)\<rparr>)))))"

definition free_page :: "u64 \<Rightarrow> pmm \<Rightarrow> pmm kres" where
  "free_page phys s =
     kbind (get_page_info s phys) (\<lambda>info.
       case info of
         None \<Rightarrow> Inr s
       | Some (i, k) \<Rightarrow>
           if page_st s i k = PAGE_UNINIT then Inl (Panic ''PMM: attempted to free an uninit page'')
           else if page_st s i k = PAGE_FREE then Inl (Panic ''PMM: attempted to double free'')
           else
             (let s1 = set_page_state i k PAGE_FREE s
              in Inr (push_free_node (phys + hhdmOffset s1)
                       (s1\<lparr>used_pages := used_pages s1 - 1\<rparr>))))"

section \<open>Setting up\<close>

text \<open>
  The boot loader's memory map is the list of its entries. A region is managed when it is
  usable and longer than sixteen pages; the tables live at the start of their region.
\<close>

definition pmm_usable :: "limine_memmap_entry \<Rightarrow> bool" where
  "pmm_usable e \<longleftrightarrow> me_type e = LIMINE_MEMMAP_USABLE \<and> PAGE_SIZE * 16 < me_length e"

fun find_parent_table :: "u64 \<Rightarrow> limine_memmap_entry list \<Rightarrow> u64" where
  "find_parent_table off [] = 0"
| "find_parent_table off (e # es) =
     (if pmm_usable e then ALIGN_UP (me_base e) PAGE_SIZE + off else find_parent_table off es)"

definition setup_child :: "u64 \<Rightarrow> u64 \<Rightarrow> limine_memmap_entry \<Rightarrow> pmm \<Rightarrow> pmm" where
  "setup_child parent_table parent_table_size entry s =
     (if \<not> pmm_usable entry then s
      else
        (let num_pages = me_length entry div PAGE_SIZE;
             child_table_size = 24 + 4 * num_pages;
             child = (if ALIGN_UP (me_base entry) PAGE_SIZE + hhdmOffset s = parent_table
                      then parent_table + parent_table_size
                      else ALIGN_UP (me_base entry) PAGE_SIZE + hhdmOffset s);
             s1 = s\<lparr>kmem := fst (memset (kmem s) child 0 child_table_size)\<rparr>;
             start = ALIGN_UP (child - hhdmOffset s + child_table_size) PAGE_SIZE;
             end' = ALIGN_DOWN (me_base entry + me_length entry) PAGE_SIZE
         in if end' \<le> start then s1\<lparr>num_child_tables := num_child_tables s1 - 1\<rparr>
            else
              (let n = (end' - start) div PAGE_SIZE
               in s1\<lparr>total_pages := total_pages s1 + n,
                     child_tables := child_tables s1 @
                       [\<lparr>ct_addr = child, ct_start = start, ct_end = end', ct_num_pages = n,
                         ct_pages = replicate (unat n) PAGE_UNINIT\<rparr>]\<rparr>)))"

definition setup_pmm :: "u64 \<Rightarrow> limine_memmap_entry list \<Rightarrow> mem \<Rightarrow> pmm kres" where
  "setup_pmm offset memmap m =
     (let num_usable_regions = of_nat (length (filter pmm_usable memmap)) :: u64;
          parent_table_size = 8 + 8 * num_usable_regions;
          parent_table = find_parent_table offset memmap
      in if parent_table = 0 then Inl (Panic ''PMM: could not find space for parent table'')
         else
           (let s0 = \<lparr>hhdmOffset = offset, freelist_head = 0,
                      num_child_tables = ucast num_usable_regions, child_tables = [],
                      total_pages = 0, used_pages = 0, fill_t = 0, fill_p = 0,
                      kmem = fst (memset m parent_table 0 parent_table_size)\<rparr>
            in Inr (pmm_fill 512 (fold (setup_child parent_table parent_table_size) memmap s0))))"

section \<open>The invariant\<close>

text \<open>
  A page is the pair of its table and its index there; \<open>page_node\<close> is its address in the
  direct map, where its free-list node lives.
\<close>

definition page_locs :: "pmm \<Rightarrow> (nat \<times> nat) set" where
  "page_locs s = {(i, k). i < length (child_tables s) \<and> k < length (ct_pages (child_tables s ! i))}"

definition page_addr :: "pmm \<Rightarrow> nat \<times> nat \<Rightarrow> u64" where
  "page_addr s = (\<lambda>(i, k). ct_start (child_tables s ! i) + of_nat (4096 * k))"

definition page_node :: "pmm \<Rightarrow> nat \<times> nat \<Rightarrow> u64" where
  "page_node s l = page_addr s l + hhdmOffset s"

definition pages_in :: "page_state_t \<Rightarrow> pmm \<Rightarrow> (nat \<times> nat) set" where
  "pages_in v s = {l \<in> page_locs s. page_st s (fst l) (snd l) = v}"

definition ct_wf :: "u64 \<Rightarrow> pmm_child_table_t \<Rightarrow> bool" where
  "ct_wf off ct \<longleftrightarrow> page_aligned (ct_start ct)
     \<and> unat (ct_end ct) = unat (ct_start ct) + 4096 * length (ct_pages ct)
     \<and> unat (ct_num_pages ct) = length (ct_pages ct)
     \<and> unat (ct_end ct) + unat off < 2 ^ 64 \<and> 0 < unat (ct_start ct) + unat off"

definition pmm_wf :: "pmm \<Rightarrow> bool" where
  "pmm_wf s \<longleftrightarrow> length (child_tables s) = unat (num_child_tables s) \<and> page_aligned (hhdmOffset s)
     \<and> (\<forall>ct \<in> set (child_tables s). ct_wf (hhdmOffset s) ct)
     \<and> sorted_wrt (\<lambda>a b. ct_end a < ct_start b) (child_tables s)"

text \<open>The fill cursor: exactly the pages it has not passed are uninitialised.\<close>

definition behind_cursor :: "pmm \<Rightarrow> nat \<times> nat \<Rightarrow> bool" where
  "behind_cursor s = (\<lambda>(i, k). i < unat (fill_t s) \<or> i = unat (fill_t s) \<and> k < unat (fill_p s))"

definition pmm_cursor :: "pmm \<Rightarrow> bool" where
  "pmm_cursor s \<longleftrightarrow> unat (fill_t s) \<le> length (child_tables s)
     \<and> (unat (fill_t s) < length (child_tables s) \<longrightarrow>
          unat (fill_p s) \<le> length (ct_pages (child_tables s ! unat (fill_t s))))
     \<and> (unat (fill_t s) = length (child_tables s) \<longrightarrow> fill_p s = 0)
     \<and> (\<forall>l \<in> page_locs s. l \<in> pages_in PAGE_UNINIT s \<longleftrightarrow> \<not> behind_cursor s l)"

text \<open>The free list holds exactly the free pages, each once.\<close>

definition pmm_free_list :: "pmm \<Rightarrow> u64 list \<Rightarrow> bool" where
  "pmm_free_list s fl \<longleftrightarrow> bm.chain (kmem s) (freelist_head s) fl 0 \<and> distinct fl
     \<and> set fl = page_node s ` pages_in PAGE_FREE s"

definition pmm_rel :: "pmm \<Rightarrow> u64 list \<Rightarrow> bool" where
  "pmm_rel s fl \<longleftrightarrow> pmm_wf s \<and> pmm_cursor s \<and> pmm_free_list s fl
     \<and> used_pages s = of_nat (card (pages_in PAGE_USED s))"

definition pmm_inv :: "pmm \<Rightarrow> bool" where
  "pmm_inv s \<longleftrightarrow> (\<exists>fl. pmm_rel s fl)"

section \<open>Pages and their addresses\<close>

definition pmm_layout :: "pmm \<Rightarrow> u64 \<times> u32 \<times> (u64 \<times> u64 \<times> u64 \<times> u64 \<times> nat) list" where
  "pmm_layout s = (hhdmOffset s, num_child_tables s,
     map (\<lambda>ct. (ct_addr ct, ct_start ct, ct_end ct, ct_num_pages ct, length (ct_pages ct)))
       (child_tables s))"

lemma layout_nth:
  assumes "pmm_layout s' = pmm_layout s"
  shows "length (child_tables s') = length (child_tables s)"
    and "i < length (child_tables s) \<Longrightarrow> ct_addr (child_tables s' ! i) = ct_addr (child_tables s ! i)
      \<and> ct_start (child_tables s' ! i) = ct_start (child_tables s ! i)
      \<and> ct_end (child_tables s' ! i) = ct_end (child_tables s ! i)
      \<and> ct_num_pages (child_tables s' ! i) = ct_num_pages (child_tables s ! i)
      \<and> length (ct_pages (child_tables s' ! i)) = length (ct_pages (child_tables s ! i))"
    and "hhdmOffset s' = hhdmOffset s" and "num_child_tables s' = num_child_tables s"
proof -
  let ?f = "\<lambda>ct. (ct_addr ct, ct_start ct, ct_end ct, ct_num_pages ct, length (ct_pages ct))"
  have m: "map ?f (child_tables s') = map ?f (child_tables s)"
    using assms by (simp add: pmm_layout_def)
  then show len: "length (child_tables s') = length (child_tables s)"
    by (rule map_eq_imp_length_eq)
  show "hhdmOffset s' = hhdmOffset s" "num_child_tables s' = num_child_tables s"
    using assms by (simp_all add: pmm_layout_def)
  assume i: "i < length (child_tables s)"
  have "?f (child_tables s' ! i) = ?f (child_tables s ! i)"
    using arg_cong [OF m, of "\<lambda>xs. xs ! i"] i len by simp
  then show "ct_addr (child_tables s' ! i) = ct_addr (child_tables s ! i)
      \<and> ct_start (child_tables s' ! i) = ct_start (child_tables s ! i)
      \<and> ct_end (child_tables s' ! i) = ct_end (child_tables s ! i)
      \<and> ct_num_pages (child_tables s' ! i) = ct_num_pages (child_tables s ! i)
      \<and> length (ct_pages (child_tables s' ! i)) = length (ct_pages (child_tables s ! i))" by simp
qed

lemma layout_cong:
  assumes "pmm_layout s' = pmm_layout s"
  shows "page_locs s' = page_locs s" and "l \<in> page_locs s \<Longrightarrow> page_addr s' l = page_addr s l"
    and "l \<in> page_locs s \<Longrightarrow> page_node s' l = page_node s l" and "pmm_wf s' = pmm_wf s"
proof -
  note n = layout_nth [OF assms]
  show "page_locs s' = page_locs s" by (auto simp: page_locs_def n)
  show "l \<in> page_locs s \<Longrightarrow> page_addr s' l = page_addr s l"
    by (auto simp: page_locs_def page_addr_def n)
  then show "l \<in> page_locs s \<Longrightarrow> page_node s' l = page_node s l" by (simp add: page_node_def n)
  show "pmm_wf s' = pmm_wf s"
    by (auto simp: pmm_wf_def n ct_wf_def sorted_wrt_iff_nth_less all_set_conv_all_nth)
qed

lemma wf_table:
  assumes "pmm_wf s" and "i < length (child_tables s)"
  shows "ct_wf (hhdmOffset s) (child_tables s ! i)"
  using assms by (auto simp: pmm_wf_def)

lemma unat_page_addr:
  assumes "pmm_wf s" and "(i, k) \<in> page_locs s"
  shows "unat (page_addr s (i, k)) = unat (ct_start (child_tables s ! i)) + 4096 * k"
    and "unat (page_addr s (i, k)) + 4096 \<le> unat (ct_end (child_tables s ! i))"
    and "unat (page_node s (i, k)) = unat (page_addr s (i, k)) + unat (hhdmOffset s)"
proof -
  have w: "ct_wf (hhdmOffset s) (child_tables s ! i)" and k: "k < length (ct_pages (child_tables s ! i))"
    using assms wf_table by (auto simp: page_locs_def)
  have b: "unat (ct_start (child_tables s ! i)) + 4096 * length (ct_pages (child_tables s ! i)) < 2 ^ 64"
    using w unat_lt_64 [of "ct_end (child_tables s ! i)"] by (simp add: ct_wf_def)
  have *: "unat (of_nat (4096 * k) :: u64) = 4096 * k"
    by (rule unat_of_nat64) (use b k in simp)
  show a: "unat (page_addr s (i, k)) = unat (ct_start (child_tables s ! i)) + 4096 * k"
    unfolding page_addr_def prod.case by (subst unat_add_no_wrap) (use * b k in simp_all)
  show e: "unat (page_addr s (i, k)) + 4096 \<le> unat (ct_end (child_tables s ! i))"
    using a w k by (simp add: ct_wf_def)
  show "unat (page_node s (i, k)) = unat (page_addr s (i, k)) + unat (hhdmOffset s)"
    unfolding page_node_def by (rule unat_add_no_wrap) (use w e in \<open>simp add: ct_wf_def\<close>)
qed

lemma page_node_props:
  assumes "pmm_wf s" and "l \<in> page_locs s"
  shows "page_aligned (page_addr s l)" and "page_aligned (page_node s l)"
    and "cell_aligned (page_node s l)" and "page_node s l \<noteq> 0"
    and "page_node s l - hhdmOffset s = page_addr s l"
proof -
  obtain i k where l: "l = (i, k)" by force
  have w: "ct_wf (hhdmOffset s) (child_tables s ! i)" using assms wf_table by (auto simp: page_locs_def l)
  note u = unat_page_addr [OF assms [unfolded l]]
  show a: "page_aligned (page_addr s l)" using w by (auto simp: l u(1) ct_wf_def)
  show b: "page_aligned (page_node s l)"
    using a assms(1) by (auto simp: l u(3) pmm_wf_def)
  then show "cell_aligned (page_node s l)" by (rule page_aligned_cell)
  have "0 < unat (page_node s l)" using w by (auto simp: l u(1,3) ct_wf_def)
  then show "page_node s l \<noteq> 0" by auto
  show "page_node s l - hhdmOffset s = page_addr s l" by (simp add: page_node_def)
qed

lemma table_disjoint:
  assumes "pmm_wf s" and "i < length (child_tables s)" and "j < length (child_tables s)"
    and "unat (ct_start (child_tables s ! i)) \<le> x" and "x \<le> unat (ct_end (child_tables s ! i))"
    and "unat (ct_start (child_tables s ! j)) \<le> x" and "x \<le> unat (ct_end (child_tables s ! j))"
  shows "i = j"
proof (rule ccontr)
  assume "i \<noteq> j"
  then consider "i < j" | "j < i" by linarith
  then have "unat (ct_end (child_tables s ! i)) < unat (ct_start (child_tables s ! j))
      \<or> unat (ct_end (child_tables s ! j)) < unat (ct_start (child_tables s ! i))"
    using assms(1-3) by cases (simp_all add: pmm_wf_def sorted_wrt_iff_nth_less word_less_nat_alt)
  then show False using assms(4-7) by linarith
qed

lemma page_addr_eqD:
  assumes wf: "pmm_wf s" and l: "(i, k) \<in> page_locs s" "(j, n) \<in> page_locs s"
    and eq: "page_addr s (i, k) = page_addr s (j, n)"
  shows "i = j \<and> k = n"
proof -
  note u = unat_page_addr [OF wf l(1)] and v = unat_page_addr [OF wf l(2)]
  have "i = j"
  proof (rule table_disjoint [OF wf, of i j "unat (page_addr s (i, k))"])
    show "unat (ct_start (child_tables s ! i)) \<le> unat (page_addr s (i, k))" using u(1) by linarith
    show "unat (page_addr s (i, k)) \<le> unat (ct_end (child_tables s ! i))" using u(2) by linarith
    show "unat (ct_start (child_tables s ! j)) \<le> unat (page_addr s (i, k))" unfolding eq using v(1) by linarith
    show "unat (page_addr s (i, k)) \<le> unat (ct_end (child_tables s ! j))" unfolding eq using v(2) by linarith
  qed (use l in \<open>auto simp: page_locs_def\<close>)
  moreover have "unat (page_addr s (i, k)) = unat (page_addr s (j, n))" using eq by simp
  ultimately show ?thesis using u(1) v(1) by simp
qed

lemma page_node_inj: "pmm_wf s \<Longrightarrow> inj_on (page_node s) (page_locs s)"
  by (auto simp: inj_on_def page_node_def dest: page_addr_eqD)

lemma page_locs_finite: "finite (page_locs s)"
proof -
  have "page_locs s = (SIGMA i : {..< length (child_tables s)}. {..< length (ct_pages (child_tables s ! i))})"
    by (auto simp: page_locs_def)
  then show ?thesis by simp
qed

lemma pages_in_finite [simp]: "finite (pages_in v s)"
  using page_locs_finite [of s] by (rule rev_finite_subset) (auto simp: pages_in_def)

lemma pages_in_locs: "l \<in> pages_in v s \<Longrightarrow> l \<in> page_locs s"
  by (simp add: pages_in_def)

lemma pages_in_subset: "pages_in v s \<subseteq> page_locs s"
  by (auto simp: pages_in_def)

subsection \<open>Looking a page up\<close>

lemma get_page_info_from_nth:
  assumes "i < length cts" and "ct_start (cts ! i) \<le> p" and "p \<le> ct_end (cts ! i)"
    and "\<And>j. j < i \<Longrightarrow> \<not> (ct_start (cts ! j) \<le> p \<and> p \<le> ct_end (cts ! j))"
  shows "get_page_info_from n cts p =
    (let index = (ALIGN_DOWN p PAGE_SIZE - ct_start (cts ! i)) div PAGE_SIZE
     in if ct_num_pages (cts ! i) \<le> index
        then Inl (Panic ''PMM: attempted to get info on out of bounds page that was meant to be in range'')
        else Inr (Some (n + i, unat index)))"
  using assms
proof (induction cts arbitrary: i n)
  case (Cons ct cts)
  show ?case
  proof (cases i)
    case 0
    then show ?thesis using Cons.prems by (simp add: Let_def)
  next
    case (Suc i')
    have "get_page_info_from (Suc n) cts p =
      (let index = (ALIGN_DOWN p PAGE_SIZE - ct_start (cts ! i')) div PAGE_SIZE
       in if ct_num_pages (cts ! i') \<le> index
          then Inl (Panic ''PMM: attempted to get info on out of bounds page that was meant to be in range'')
          else Inr (Some (Suc n + i', unat index)))"
    proof (rule Cons.IH)
      fix j assume "j < i'"
      then show "\<not> (ct_start (cts ! j) \<le> p \<and> p \<le> ct_end (cts ! j))"
        using Cons.prems(4) [of "Suc j"] Suc by simp
    qed (use Cons.prems Suc in auto)
    moreover have "(ct_start ct \<le> p \<and> p \<le> ct_end ct) = False"
      using Cons.prems(4) [of 0] Suc by simp
    ultimately show ?thesis
      by (simp only: Suc get_page_info_from.simps if_False nth_Cons_Suc add_Suc_right add_Suc)
  qed
qed simp

lemma get_page_info_from_None:
  "get_page_info_from n cts p = Inr None \<longleftrightarrow>
     (\<forall>ct \<in> set cts. \<not> (ct_start ct \<le> p \<and> p \<le> ct_end ct))"
  by (induction cts arbitrary: n) (auto simp: Let_def)

text \<open>
  The outcome of a lookup in a well-formed database: the page's own entry inside a table, a
  panic exactly at a table's end address (the range test includes it), nothing elsewhere.
\<close>

lemma get_page_info_at:
  assumes wf: "pmm_wf s" and i: "i < length (child_tables s)"
    and p: "ct_start (child_tables s ! i) \<le> p" "p \<le> ct_end (child_tables s ! i)"
  shows "get_page_info s p =
    (if p = ct_end (child_tables s ! i)
     then Inl (Panic ''PMM: attempted to get info on out of bounds page that was meant to be in range'')
     else Inr (Some (i, (unat p - unat (ct_start (child_tables s ! i))) div 4096)))"
proof -
  let ?ct = "child_tables s ! i"
  let ?d = "(ALIGN_DOWN p PAGE_SIZE - ct_start ?ct) div PAGE_SIZE"
  have w: "ct_wf (hhdmOffset s) ?ct" using wf i wf_table by blast
  have dvd: "4096 dvd unat (ct_start ?ct)" using w by (simp add: ct_wf_def mod_eq_0_iff_dvd)
  then obtain q where q: "unat (ct_start ?ct) = 4096 * q" by (rule dvdE)
  have le: "unat (ct_start ?ct) \<le> unat p" "unat p \<le> unat (ct_end ?ct)" using p by (simp_all add: word_le_nat_alt)
  have ad: "unat (ALIGN_DOWN p PAGE_SIZE) = 4096 * (unat p div 4096)"
    by (simp add: unat_ALIGN_DOWN_page minus_mod_eq_mult_div)
  have qle: "q \<le> unat p div 4096" using le(1) q by linarith
  have "unat (ALIGN_DOWN p PAGE_SIZE - ct_start ?ct) = 4096 * (unat p div 4096) - 4096 * q"
    using ad q qle by (simp add: unat_sub word_le_nat_alt)
  then have d: "unat ?d = unat p div 4096 - q"
    by (simp add: unat_div flip: diff_mult_distrib2)
  have d2: "(unat p - unat (ct_start ?ct)) div 4096 = unat p div 4096 - q"
    unfolding q using le(1) q by simp
  have "ct_num_pages ?ct \<le> ?d \<longleftrightarrow> p = ct_end ?ct"
    using w d le q qle by (auto simp: word_le_nat_alt ct_wf_def word_unat_eq_iff)
  moreover have "get_page_info s p =
    (if ct_num_pages ?ct \<le> ?d
     then Inl (Panic ''PMM: attempted to get info on out of bounds page that was meant to be in range'')
     else Inr (Some (0 + i, unat ?d)))"
    unfolding get_page_info_def
  proof (subst get_page_info_from_nth [where i = i])
    fix j assume "j < i"
    then show "\<not> (ct_start (take (unat (num_child_tables s)) (child_tables s) ! j) \<le> p
        \<and> p \<le> ct_end (take (unat (num_child_tables s)) (child_tables s) ! j))"
      using table_disjoint [OF wf, of i j "unat p"] i le wf by (auto simp: pmm_wf_def word_le_nat_alt)
  qed (use i wf p in \<open>auto simp: pmm_wf_def Let_def\<close>)
  ultimately show ?thesis by (simp add: d d2)
qed

section \<open>Updates of the database\<close>

lemma set_page_state_fields [simp]:
  "hhdmOffset (set_page_state i k v s) = hhdmOffset s"
  "freelist_head (set_page_state i k v s) = freelist_head s"
  "num_child_tables (set_page_state i k v s) = num_child_tables s"
  "total_pages (set_page_state i k v s) = total_pages s"
  "used_pages (set_page_state i k v s) = used_pages s"
  "fill_t (set_page_state i k v s) = fill_t s" "fill_p (set_page_state i k v s) = fill_p s"
  "kmem (set_page_state i k v s) = kmem s"
  by (simp_all add: set_page_state_def)

lemma push_free_node_fields [simp]:
  "hhdmOffset (push_free_node a s) = hhdmOffset s" "freelist_head (push_free_node a s) = a"
  "num_child_tables (push_free_node a s) = num_child_tables s"
  "child_tables (push_free_node a s) = child_tables s"
  "total_pages (push_free_node a s) = total_pages s" "used_pages (push_free_node a s) = used_pages s"
  "fill_t (push_free_node a s) = fill_t s" "fill_p (push_free_node a s) = fill_p s"
  "kmem (push_free_node a s) = write64 (kmem s) a (freelist_head s)"
  by (simp_all add: push_free_node_def)

text \<open>What depends on the tables alone is the same in every state that has the same tables.\<close>

lemma tables_cong:
  assumes "child_tables s' = child_tables s"
  shows "page_st s' = page_st s" and "page_locs s' = page_locs s" and "pages_in v s' = pages_in v s"
    and "page_addr s' = page_addr s"
  using assms by (simp_all add: page_st_def page_locs_def pages_in_def page_addr_def fun_eq_iff)

lemma layout_set_page_state [pmm_simps]: "pmm_layout (set_page_state i k v s) = pmm_layout s"
proof (cases "i < length (child_tables s)")
  case True
  then show ?thesis by (simp add: pmm_layout_def set_page_state_def map_update list_update_same_conv)
next
  case False
  then show ?thesis by (simp add: pmm_layout_def set_page_state_def list_update_beyond)
qed

lemma layout_tables:
  "child_tables s' = child_tables s \<Longrightarrow> hhdmOffset s' = hhdmOffset s
     \<Longrightarrow> num_child_tables s' = num_child_tables s \<Longrightarrow> pmm_layout s' = pmm_layout s"
  by (simp add: pmm_layout_def)

lemma page_st_set [pmm_simps]:
  assumes "(i, k) \<in> page_locs s"
  shows "page_st (set_page_state i k v s) j n = (if (j, n) = (i, k) then v else page_st s j n)"
  using assms by (auto simp: page_st_def set_page_state_def page_locs_def nth_list_update_if)

lemma pages_in_set [pmm_simps]:
  assumes "(i, k) \<in> page_locs s"
  shows "pages_in w (set_page_state i k v s) =
    (if w = v then insert (i, k) (pages_in w s) else pages_in w s - {(i, k)})"
  using assms
  by (auto simp: pages_in_def page_st_set layout_cong(1) [OF layout_set_page_state])

subsection \<open>The free list\<close>

lemma free_list_aligned:
  assumes "pmm_wf s" and "pmm_free_list s fl" and "a \<in> set fl"
  shows "cell_aligned a" and "a \<noteq> 0"
proof -
  obtain l where "a = page_node s l" and "l \<in> page_locs s"
    using assms(2,3) pages_in_locs by (auto simp: pmm_free_list_def)
  then show "cell_aligned a" and "a \<noteq> 0" using page_node_props(3,4) [OF assms(1)] by simp_all
qed

lemma free_list_nodes:
  assumes "pmm_free_list s fl"
  shows "\<And>a. a \<in> set fl \<Longrightarrow> \<exists>l \<in> page_locs s. a = page_node s l"
    and "\<And>a. a \<in> set fl \<Longrightarrow> \<exists>l \<in> pages_in PAGE_FREE s. a = page_node s l"
  using assms pages_in_subset [of PAGE_FREE s] by (auto simp: pmm_free_list_def)

text \<open>Marking a page free and pushing its node keeps the free list exact.\<close>

lemma free_list_push:
  assumes wf: "pmm_wf s" and fl: "pmm_free_list s fl" and l: "(i, k) \<in> page_locs s"
    and new: "(i, k) \<notin> pages_in PAGE_FREE s"
  shows "pmm_free_list (push_free_node (page_node s (i, k)) (set_page_state i k PAGE_FREE s))
    (page_node s (i, k) # fl)"
proof -
  let ?a = "page_node s (i, k)" and ?s = "set_page_state i k PAGE_FREE s"
  have nin: "?a \<notin> set fl"
    using new fl inj_on_image_mem_iff [OF page_node_inj [OF wf] l pages_in_subset]
    by (simp add: pmm_free_list_def)
  have free: "pages_in PAGE_FREE (push_free_node ?a ?s) = insert (i, k) (pages_in PAGE_FREE s)"
    using tables_cong(3) [of "push_free_node ?a ?s" ?s] by (simp add: pages_in_set [OF l])
  have lay: "pmm_layout (push_free_node ?a ?s) = pmm_layout s"
    using layout_tables [of "push_free_node ?a ?s" ?s] by (simp add: layout_set_page_state)
  have "page_node (push_free_node ?a ?s) ` insert (i, k) (pages_in PAGE_FREE s)
      = page_node s ` insert (i, k) (pages_in PAGE_FREE s)"
    by (rule image_cong) (use l pages_in_locs layout_cong(3) [OF lay] in auto)
  moreover have "bm.chain (write64 (kmem s) ?a (freelist_head s)) ?a (?a # fl) 0"
    using fl nin page_node_props [OF wf l] free_list_aligned [OF wf fl]
    by (intro bm.chain_push) (auto simp: pmm_free_list_def)
  ultimately show ?thesis
    using fl nin unfolding pmm_free_list_def free by simp
qed

section \<open>Filling keeps the invariant\<close>

text \<open>
  How filling moves the state: the frame database keeps its tables and its used pages, free
  pages stay free, the free list grows at the head, and only the first cell of free pages is
  written.
\<close>

definition pmm_grown :: "pmm \<Rightarrow> u64 list \<Rightarrow> pmm \<Rightarrow> u64 list \<Rightarrow> bool" where
  "pmm_grown s fl s' fl' \<longleftrightarrow> pmm_rel s' fl' \<and> pmm_layout s' = pmm_layout s
     \<and> pages_in PAGE_USED s' = pages_in PAGE_USED s \<and> total_pages s' = total_pages s
     \<and> pages_in PAGE_FREE s \<subseteq> pages_in PAGE_FREE s' \<and> (\<exists>new. fl' = new @ fl)
     \<and> (\<forall>b. (\<forall>l \<in> pages_in PAGE_FREE s'. 8 \<le> unat (b - page_node s l)) \<longrightarrow> kmem s' b = kmem s b)"

lemma grown_refl: "pmm_rel s fl \<Longrightarrow> pmm_grown s fl s fl"
  by (simp add: pmm_grown_def)

lemma grown_trans:
  assumes "pmm_grown s fl s1 fl1" and "pmm_grown s1 fl1 s2 fl2"
  shows "pmm_grown s fl s2 fl2"
proof -
  have lay: "pmm_layout s1 = pmm_layout s" using assms(1) by (simp add: pmm_grown_def)
  have "kmem s2 b = kmem s b" if b: "\<forall>l \<in> pages_in PAGE_FREE s2. 8 \<le> unat (b - page_node s l)" for b
  proof -
    have "pages_in PAGE_FREE s1 \<subseteq> pages_in PAGE_FREE s2" using assms(2) by (simp add: pmm_grown_def)
    then have "\<forall>l \<in> pages_in PAGE_FREE s1. 8 \<le> unat (b - page_node s l)" using b by blast
    then have "kmem s1 b = kmem s b" using assms(1) by (simp add: pmm_grown_def)
    moreover have "\<forall>l \<in> pages_in PAGE_FREE s2. 8 \<le> unat (b - page_node s1 l)"
      using b assms(2) lay layout_cong(1,3) by (metis pages_in_locs pmm_grown_def)
    ultimately show ?thesis using assms(2) by (simp add: pmm_grown_def)
  qed
  then show ?thesis using assms by (auto simp: pmm_grown_def)
qed

lemma pmm_fill_page_grown:
  assumes rel: "pmm_rel s fl" and t: "unat (fill_t s) < length (child_tables s)"
    and p: "fill_p s < ct_num_pages (child_tables s ! unat (fill_t s))"
  shows "\<exists>s'. pmm_fill_page (unat (fill_t s)) added s = (added + 1, s')
    \<and> pmm_grown s fl s' (page_node s (unat (fill_t s), unat (fill_p s)) # fl)
    \<and> fill_t s' = fill_t s"
proof -
  let ?t = "unat (fill_t s)" and ?k = "unat (fill_p s)"
  let ?s1 = "set_page_state ?t ?k PAGE_FREE s" and ?a = "page_node s (?t, ?k)"
  let ?s2 = "(push_free_node ?a ?s1)\<lparr>fill_p := fill_p s + 1\<rparr>"
  have wf: "pmm_wf s" and cur: "pmm_cursor s" and fl: "pmm_free_list s fl"
    using rel by (simp_all add: pmm_rel_def)
  have k: "?k < length (ct_pages (child_tables s ! ?t))"
    using wf_table [OF wf t] p by (simp add: ct_wf_def word_less_nat_alt)
  then have l: "(?t, ?k) \<in> page_locs s" using t by (simp add: page_locs_def)
  have un: "(?t, ?k) \<in> pages_in PAGE_UNINIT s"
    using cur l by (simp add: pmm_cursor_def behind_cursor_def)
  have a: "ct_start (child_tables s ! ?t) + PAGE_SIZE * fill_p s + hhdmOffset s = ?a"
    by (simp add: page_node_def page_addr_def PAGE_SIZE_def word_of_nat_eq_iff)
  have step: "pmm_fill_page ?t added s = (added + 1, ?s2)"
    using un by (simp add: pmm_fill_page_def Let_def a pages_in_def)
  have lay: "pmm_layout ?s2 = pmm_layout s"
    using layout_tables [of ?s2 ?s1] by (simp add: layout_set_page_state)
  have pin: "pages_in v ?s2 = pages_in v ?s1" for v by (rule tables_cong) simp
  have free: "pmm_free_list ?s2 (?a # fl)"
    using free_list_push [OF wf fl l] un
    by (auto simp: pmm_free_list_def pages_in_def page_locs_def page_st_def page_node_def page_addr_def)
  have inc: "unat (fill_p s + 1) = Suc ?k" using p unat_inc_less by blast
  have "pmm_cursor ?s2" unfolding pmm_cursor_def
  proof (intro conjI ballI)
    fix l' assume "l' \<in> page_locs ?s2"
    then have "l' \<in> page_locs s" using layout_cong(1) [OF lay] by simp
    then show "l' \<in> pages_in PAGE_UNINIT ?s2 \<longleftrightarrow> \<not> behind_cursor ?s2 l'"
      using cur unfolding pin pages_in_set [OF l]
      by (cases l') (auto simp: pmm_cursor_def behind_cursor_def inc less_Suc_eq)
  qed (use cur t k layout_nth [OF lay] inc in \<open>auto simp: pmm_cursor_def\<close>)
  moreover have "pages_in PAGE_USED ?s2 = pages_in PAGE_USED s"
  proof -
    have "(?t, ?k) \<notin> pages_in PAGE_USED s" using un by (simp add: pages_in_def)
    then show ?thesis by (simp add: pin pages_in_set [OF l])
  qed
  ultimately have "pmm_rel ?s2 (?a # fl)"
    using rel free layout_cong(4) [OF lay] by (simp add: pmm_rel_def)
  moreover have "kmem ?s2 b = kmem s b"
    if "\<forall>l \<in> pages_in PAGE_FREE ?s2. 8 \<le> unat (b - page_node s l)" for b
    using that by (simp add: pin pages_in_set [OF l] write64_def)
  moreover have "pages_in PAGE_FREE s \<subseteq> pages_in PAGE_FREE ?s2" by (auto simp: pin pages_in_set [OF l])
  ultimately have "pmm_grown s fl ?s2 (?a # fl)"
    using lay \<open>pages_in PAGE_USED ?s2 = pages_in PAGE_USED s\<close> by (auto simp: pmm_grown_def)
  then show ?thesis using step by auto
qed

lemma pmm_fill_child_grown:
  assumes "pmm_rel s fl" and "t = unat (fill_t s)" and "t < length (child_tables s)"
    and "pmm_fill_child t pages added s = (added', s')"
  shows "\<exists>fl'. pmm_grown s fl s' fl' \<and> unat added' + length fl = unat added + length fl'"
  using assms
proof (induction t pages added s arbitrary: fl rule: pmm_fill_child.induct)
  case (1 t pages added s)
  show ?case
  proof (cases "fill_p s < ct_num_pages (child_tables s ! t) \<and> added < pages")
    case True
    obtain s1 fl1 where st: "pmm_fill_page t added s = (added + 1, s1)" "pmm_grown s fl s1 fl1"
        "length fl1 = Suc (length fl)" "fill_t s1 = fill_t s"
      using pmm_fill_page_grown [OF 1(2), of added] 1(3,4) True by force
    have "pmm_fill_child t pages (added + 1) s1 = (added', s')"
      using 1(5) True st(1) by (simp add: pmm_fill_child.simps [of t pages added s])
    moreover have "pmm_rel s1 fl1" "pmm_layout s1 = pmm_layout s" using st(2) by (simp_all add: pmm_grown_def)
    ultimately obtain fl' where "pmm_grown s1 fl1 s' fl'"
        "unat added' + length fl1 = unat (added + 1) + length fl'"
      using 1(1) [OF True st(1) [symmetric]] 1(3,4) st(4) layout_nth(1) by metis
    moreover have "unat (added + 1) = Suc (unat added)" using True unat_inc_less by blast
    ultimately show ?thesis using grown_trans [OF st(2)] st(3) by force
  next
    case False
    then have "s' = s" "added' = added" using 1(5) by (auto simp: pmm_fill_child.simps [of t])
    then show ?thesis using grown_refl [OF 1(2)] by auto
  qed
qed

lemma pmm_next_child_grown:
  assumes rel: "pmm_rel s fl" and t: "unat (fill_t s) < length (child_tables s)"
  shows "pmm_grown s fl (pmm_next_child s) fl"
proof (cases "ct_num_pages (child_tables s ! unat (fill_t s)) \<le> fill_p s")
  case True
  let ?s = "s\<lparr>fill_t := fill_t s + 1, fill_p := 0\<rparr>"
  have wf: "pmm_wf s" and cur: "pmm_cursor s" using rel by (simp_all add: pmm_rel_def)
  have inc: "unat (fill_t s + 1) = Suc (unat (fill_t s))"
    using t wf unat_inc_less [of "fill_t s" "num_child_tables s"] by (simp add: pmm_wf_def word_less_nat_alt)
  have len: "length (ct_pages (child_tables s ! unat (fill_t s))) \<le> unat (fill_p s)"
    using wf_table [OF wf t] True by (simp add: ct_wf_def word_le_nat_alt)
  have same: "pages_in v ?s = pages_in v s" "page_locs ?s = page_locs s" "page_node ?s = page_node s"
    "pmm_layout ?s = pmm_layout s" for v
    by (simp_all add: pages_in_def page_locs_def page_st_def page_node_def page_addr_def
        pmm_layout_def fun_eq_iff)
  have "pmm_cursor ?s"
    using cur t inc len unfolding pmm_cursor_def same
    by (auto simp: behind_cursor_def page_locs_def less_Suc_eq)
  moreover have "pmm_free_list ?s fl" using rel by (simp add: pmm_rel_def pmm_free_list_def same)
  ultimately have "pmm_rel ?s fl"
    using rel layout_cong(4) [OF same(4)] by (simp add: pmm_rel_def same)
  then show ?thesis using True by (simp add: pmm_next_child_def pmm_grown_def same)
next
  case False
  then show ?thesis using grown_refl [OF rel] by (simp add: pmm_next_child_def)
qed

lemma pmm_fill_loop_grown:
  assumes "pmm_rel s fl"
  shows "\<exists>fl'. pmm_grown s fl (pmm_fill_loop pages added s) fl'
    \<and> (pages_in PAGE_UNINIT (pmm_fill_loop pages added s) = {}
       \<or> unat pages + length fl \<le> unat added + length fl')"
  using assms
proof (induction pages added s arbitrary: fl rule: pmm_fill_loop.induct)
  case (1 pages added s)
  have wf: "pmm_wf s" using 1(2) by (simp add: pmm_rel_def)
  show ?case
  proof (cases "fill_t s < num_child_tables s \<and> added < pages")
    case True
    obtain a1 s1 where c: "pmm_fill_child (unat (fill_t s)) pages added s = (a1, s1)" by force
    have t: "unat (fill_t s) < length (child_tables s)" using wf True by (simp add: pmm_wf_def word_less_nat_alt)
    obtain fl1 where g1: "pmm_grown s fl s1 fl1" and n1: "unat a1 + length fl = unat added + length fl1"
      using pmm_fill_child_grown [OF 1(2) refl t c] by blast
    have s1: "pmm_rel s1 fl1" "unat (fill_t s1) < length (child_tables s1)"
      using g1 t pmm_fill_child_frame [OF c] layout_nth(1) [of s1 s] by (auto simp: pmm_grown_def)
    note g2 = pmm_next_child_grown [OF this]
    then have "pmm_rel (pmm_next_child s1) fl1" by (simp add: pmm_grown_def)
    from 1(1) [OF True c [symmetric] this] obtain fl' where
      "pmm_grown (pmm_next_child s1) fl1 (pmm_fill_loop pages a1 (pmm_next_child s1)) fl'"
      "pages_in PAGE_UNINIT (pmm_fill_loop pages a1 (pmm_next_child s1)) = {}
       \<or> unat pages + length fl1 \<le> unat a1 + length fl'" by blast
    moreover have "pmm_fill_loop pages added s = pmm_fill_loop pages a1 (pmm_next_child s1)"
      using True c by (simp add: pmm_fill_loop.simps [of pages added])
    ultimately show ?thesis
      using grown_trans [OF grown_trans [OF g1 g2]] n1 by (intro exI [of _ fl']) auto
  next
    case False
    then have eq: "pmm_fill_loop pages added s = s" by (subst pmm_fill_loop.simps) auto
    have "pages_in PAGE_UNINIT s = {}" if "\<not> fill_t s < num_child_tables s"
    proof -
      have "length (child_tables s) \<le> unat (fill_t s)"
        using that wf by (simp add: pmm_wf_def word_less_nat_alt)
      then have "behind_cursor s l" if "l \<in> page_locs s" for l
        using that by (auto simp: behind_cursor_def page_locs_def)
      then show ?thesis
        using 1(2) pages_in_locs by (fastforce simp: pmm_rel_def pmm_cursor_def)
    qed
    then show ?thesis using False grown_refl [OF 1(2)] eq by (auto simp: word_less_nat_alt not_less)
  qed
qed

lemma pmm_fill_grown:
  assumes "pmm_rel s fl"
  shows "\<exists>fl'. pmm_grown s fl (pmm_fill pages s) fl'
    \<and> (pages_in PAGE_UNINIT (pmm_fill pages s) = {} \<or> unat pages + length fl \<le> length fl')"
  using pmm_fill_loop_grown [OF assms, of pages 0] by (simp add: pmm_fill_def)

section \<open>Allocation and release keep the invariant\<close>

lemma free_list_nil:
  assumes "pmm_rel s fl"
  shows "freelist_head s = 0 \<longleftrightarrow> fl = []"
  using assms by (cases fl) (auto simp: pmm_rel_def pmm_free_list_def)

lemma page_locs_partition:
  "page_locs s = pages_in PAGE_UNINIT s \<union> pages_in PAGE_FREE s \<union> pages_in PAGE_USED s"
  by (auto simp: pages_in_def) (metis page_state_t.exhaust)

text \<open>
  \<open>pmm_taken s l s'\<close>: the move from \<open>s\<close> to \<open>s'\<close> handed out the page \<open>l\<close>. The page was not in
  use and is zero; the used pages are the old ones and it; nothing is written outside pages
  that were not in use.
\<close>

definition pmm_taken :: "pmm \<Rightarrow> nat \<times> nat \<Rightarrow> pmm \<Rightarrow> bool" where
  "pmm_taken s l s' \<longleftrightarrow> pmm_inv s' \<and> pmm_layout s' = pmm_layout s
     \<and> l \<in> page_locs s \<and> l \<notin> pages_in PAGE_USED s
     \<and> pages_in PAGE_USED s' = insert l (pages_in PAGE_USED s)
     \<and> (\<forall>b. unat (b - page_node s l) < 4096 \<longrightarrow> kmem s' b = 0)
     \<and> (\<forall>b. (\<forall>l' \<in> page_locs s - pages_in PAGE_USED s. 4096 \<le> unat (b - page_node s l')) \<longrightarrow>
          kmem s' b = kmem s b)"

text \<open>Popping the head of a non-empty list: the state \<open>allocate_page\<close> leaves.\<close>

definition pmm_pop :: "pmm \<Rightarrow> nat \<times> nat \<Rightarrow> pmm" where
  "pmm_pop s l =
     (set_page_state (fst l) (snd l) PAGE_USED (s\<lparr>freelist_head := read64 (kmem s) (freelist_head s)\<rparr>))
       \<lparr>used_pages := used_pages s + 1, kmem := fill_bytes (kmem s) (freelist_head s) 0 4096\<rparr>"

lemma get_page_info_addr:
  assumes wf: "pmm_wf s" and l: "l \<in> page_locs s"
  shows "get_page_info s (page_addr s l) = Inr (Some l)"
proof -
  obtain i k where ik: "l = (i, k)" by force
  note u = unat_page_addr [OF wf l [unfolded ik]]
  have i: "i < length (child_tables s)" using l by (simp add: ik page_locs_def)
  have "page_addr s (i, k) \<noteq> ct_end (child_tables s ! i)" using u(2) by auto
  moreover have "ct_start (child_tables s ! i) \<le> page_addr s (i, k)" using u(1) by (simp add: word_le_nat_alt)
  moreover have "page_addr s (i, k) \<le> ct_end (child_tables s ! i)" using u(2) by (simp add: word_le_nat_alt)
  ultimately show ?thesis using get_page_info_at [OF wf i] u(1) by (simp add: ik)
qed

lemma pmm_pop_tables:
  assumes "l \<in> page_locs s"
  shows "pmm_layout (pmm_pop s l) = pmm_layout s"
    and "pages_in v (pmm_pop s l) = (if v = PAGE_USED then insert l (pages_in v s) else pages_in v s - {l})"
proof -
  obtain i k where l: "l = (i, k)" by force
  let ?s0 = "s\<lparr>freelist_head := read64 (kmem s) (freelist_head s)\<rparr>"
  let ?s1 = "set_page_state i k PAGE_USED ?s0"
  have ct: "child_tables (pmm_pop s l) = child_tables ?s1" by (simp add: pmm_pop_def l)
  have "pmm_layout (pmm_pop s l) = pmm_layout ?s1"
    by (rule layout_tables [OF ct]) (simp_all add: pmm_pop_def)
  then show "pmm_layout (pmm_pop s l) = pmm_layout s"
    by (simp add: layout_set_page_state) (simp add: pmm_layout_def)
  have "(i, k) \<in> page_locs ?s0" using assms by (simp add: page_locs_def l)
  from pages_in_set [OF this, of v PAGE_USED]
  show "pages_in v (pmm_pop s l) = (if v = PAGE_USED then insert l (pages_in v s) else pages_in v s - {l})"
    using tables_cong(3) [OF ct] tables_cong(3) [of ?s0 s] by (simp add: l)
qed

lemma pmm_pop_rel:
  assumes rel: "pmm_rel s (page_node s l # fl)" and l: "l \<in> pages_in PAGE_FREE s"
  shows "pmm_rel (pmm_pop s l) fl"
proof -
  let ?s = "pmm_pop s l"
  have wf: "pmm_wf s" and cur: "pmm_cursor s" and free: "pmm_free_list s (page_node s l # fl)"
    using rel by (simp_all add: pmm_rel_def)
  have loc: "l \<in> page_locs s" using l pages_in_locs by blast
  note lay = pmm_pop_tables(1) [OF loc] and pin = pmm_pop_tables(2) [OF loc]
  have head: "freelist_head s = page_node s l" using free by (simp add: pmm_free_list_def)
  have other: "read64 (fill_bytes (kmem s) (page_node s l) 0 4096) a = read64 (kmem s) a" if a: "a \<in> set fl" for a
  proof -
    obtain l' where l': "a = page_node s l'" "l' \<in> page_locs s"
      using a free_list_nodes [OF free] by (meson list.set_intros(2))
    have "a \<noteq> page_node s l" using a free by (auto simp: pmm_free_list_def)
    then show ?thesis
      using read64_fill_other_page [of "page_node s l" a 0] page_node_props(2) [OF wf] loc l' by simp
  qed
  have set_fl: "set fl = page_node s ` (pages_in PAGE_FREE s - {l})"
  proof -
    have "set fl = page_node s ` pages_in PAGE_FREE s - {page_node s l}"
      using free by (auto simp: pmm_free_list_def)
    also have "\<dots> = page_node s ` (pages_in PAGE_FREE s - {l})"
      using inj_on_image_set_diff [OF page_node_inj [OF wf], of "pages_in PAGE_FREE s" "{l}"]
        pages_in_subset loc by auto
    finally show ?thesis .
  qed
  have "page_node ?s ` (pages_in PAGE_FREE s - {l}) = page_node s ` (pages_in PAGE_FREE s - {l})"
    by (rule image_cong) (use layout_cong(3) [OF lay] pages_in_locs in auto)
  then have "pmm_free_list ?s fl"
    using free bm.chain_cong [of fl "fill_bytes (kmem s) (page_node s l) 0 4096" "kmem s", OF other] set_fl
    by (simp add: pmm_free_list_def pin) (simp add: pmm_pop_def head)
  moreover have "pmm_cursor ?s"
    using cur l layout_nth [OF lay] unfolding pmm_cursor_def layout_cong(1) [OF lay] pin
    by (auto simp: behind_cursor_def pmm_pop_def pages_in_def)
  moreover have "used_pages ?s = of_nat (card (pages_in PAGE_USED ?s))"
  proof -
    have "l \<notin> pages_in PAGE_USED s" using l by (simp add: pages_in_def)
    then show ?thesis using rel by (simp add: pin pmm_rel_def) (simp add: pmm_pop_def)
  qed
  ultimately show ?thesis using wf layout_cong(4) [OF lay] by (simp add: pmm_rel_def)
qed

lemma pmm_pop_taken:
  assumes rel: "pmm_rel s (page_node s l # fl)" and l: "l \<in> pages_in PAGE_FREE s"
  shows "pmm_taken s l (pmm_pop s l)"
proof -
  have loc: "l \<in> page_locs s" and nu: "l \<notin> pages_in PAGE_USED s" using l by (simp_all add: pages_in_def)
  have km: "kmem (pmm_pop s l) = fill_bytes (kmem s) (page_node s l) 0 4096"
    using rel by (simp add: pmm_pop_def pmm_rel_def pmm_free_list_def)
  show ?thesis
    using pmm_pop_rel [OF rel l] pmm_pop_tables [OF loc] loc nu
    by (auto simp: pmm_taken_def pmm_inv_def km fill_bytes_def dest!: bspec)
qed

lemma allocate_page_head:
  assumes rel: "pmm_rel s (a # fl)"
  shows "\<exists>l \<in> pages_in PAGE_FREE s. a = page_node s l
    \<and> allocate_page s = Inr (page_addr s l, pmm_pop s l)"
proof -
  have wf: "pmm_wf s" and free: "pmm_free_list s (a # fl)" using rel by (simp_all add: pmm_rel_def)
  obtain l where l: "l \<in> pages_in PAGE_FREE s" "a = page_node s l" using free_list_nodes(2) [OF free] by (meson list.set_intros(1))
  obtain i k where ik: "l = (i, k)" by force
  have loc: "l \<in> page_locs s" using l pages_in_locs by blast
  have head: "freelist_head s = a" "a \<noteq> 0" using free by (simp_all add: pmm_free_list_def)
  let ?s0 = "s\<lparr>freelist_head := read64 (kmem s) a\<rparr>"
  have "get_page_info ?s0 (page_addr s l) = Inr (Some (i, k))"
    using get_page_info_addr [OF wf loc] by (simp add: get_page_info_def ik)
  moreover have "page_st ?s0 i k = PAGE_FREE" using l by (simp add: pages_in_def page_st_def ik)
  ultimately have "allocate_page s = Inr (page_addr s l, pmm_pop s l)"
    using head l(2) page_node_props(5) [OF wf loc]
    by (simp add: allocate_page_def Let_def pmm_pop_def ik memset_eq)
  then show ?thesis using l by blast
qed

lemma allocate_page_fill:
  assumes "freelist_head s = 0" and "freelist_head (pmm_fill 512 s) \<noteq> 0"
  shows "allocate_page s = allocate_page (pmm_fill 512 s)"
  using assms by (simp add: allocate_page_def)

lemma grown_taken:
  assumes g: "pmm_grown s fl s1 fl1" and t: "pmm_taken s1 l s2"
  shows "pmm_taken s l s2"
proof -
  have lay: "pmm_layout s1 = pmm_layout s" and used: "pages_in PAGE_USED s1 = pages_in PAGE_USED s"
    using g by (simp_all add: pmm_grown_def)
  note locs = layout_cong(1) [OF lay] and node = layout_cong(3) [OF lay]
  have l: "l \<in> page_locs s" using t locs by (simp add: pmm_taken_def)
  have "kmem s2 b = kmem s b"
    if b: "\<forall>l' \<in> page_locs s - pages_in PAGE_USED s. 4096 \<le> unat (b - page_node s l')" for b
  proof -
    have "\<forall>l' \<in> pages_in PAGE_FREE s1. 8 \<le> unat (b - page_node s l')"
    proof
      fix l' assume "l' \<in> pages_in PAGE_FREE s1"
      then have "l' \<in> page_locs s - pages_in PAGE_USED s1" unfolding locs [symmetric] by (simp add: pages_in_def)
      then have "4096 \<le> unat (b - page_node s l')" using b used by simp
      then show "8 \<le> unat (b - page_node s l')" by simp
    qed
    then have "kmem s1 b = kmem s b" using g by (simp add: pmm_grown_def)
    moreover have "kmem s2 b = kmem s1 b"
      using t b node locs used by (simp add: pmm_taken_def)
    ultimately show ?thesis by simp
  qed
  then show ?thesis using t used lay locs node [OF l] l by (simp add: pmm_taken_def)
qed

text \<open>The two outcomes of an allocation in a state of the allocator.\<close>

lemma allocate_page_outcome:
  assumes inv: "pmm_inv s"
  shows "(page_locs s = pages_in PAGE_USED s \<and> allocate_page s = Inl (Panic ''PMM: out of memory''))
    \<or> (\<exists>l s'. allocate_page s = Inr (page_addr s l, s') \<and> pmm_taken s l s')"
proof -
  obtain fl where rel: "pmm_rel s fl" using inv by (auto simp: pmm_inv_def)
  show ?thesis
  proof (cases fl)
    case (Cons a fl')
    then show ?thesis using allocate_page_head [of s a fl'] pmm_pop_taken rel by blast
  next
    case Nil
    then have h0: "freelist_head s = 0" using free_list_nil [OF rel] by simp
    let ?s1 = "pmm_fill 512 s"
    obtain fl1 where g: "pmm_grown s [] ?s1 fl1"
        and full: "pages_in PAGE_UNINIT ?s1 = {} \<or> 512 \<le> length fl1"
      using pmm_fill_grown [of s "[]" 512] rel Nil by auto
    have rel1: "pmm_rel ?s1 fl1" and lay: "pmm_layout ?s1 = pmm_layout s" using g by (simp_all add: pmm_grown_def)
    show ?thesis
    proof (cases fl1)
      case Nil
      then have "freelist_head ?s1 = 0" "pages_in PAGE_FREE ?s1 = {}"
        using free_list_nil [OF rel1] rel1 by (auto simp: pmm_rel_def pmm_free_list_def)
      moreover have "page_locs s = pages_in PAGE_USED s"
        using page_locs_partition [of ?s1] full Nil calculation layout_cong(1) [OF lay] g
        by (simp add: pmm_grown_def)
      ultimately show ?thesis using h0 by (simp add: allocate_page_def)
    next
      case (Cons a fl')
      then obtain l where l: "l \<in> pages_in PAGE_FREE ?s1" "a = page_node ?s1 l"
          "allocate_page ?s1 = Inr (page_addr ?s1 l, pmm_pop ?s1 l)"
        using allocate_page_head rel1 by blast
      have t: "pmm_taken s l (pmm_pop ?s1 l)"
        using grown_taken [OF g] pmm_pop_taken l(1,2) rel1 Cons by blast
      have "freelist_head ?s1 \<noteq> 0" using free_list_nil [OF rel1] Cons by simp
      then have "allocate_page s = Inr (page_addr s l, pmm_pop ?s1 l)"
        using allocate_page_fill [OF h0] l(3) layout_cong(2) [OF lay] t by (simp add: pmm_taken_def)
      then show ?thesis using t by blast
    qed
  qed
qed

text \<open>
  Releasing a page in use: it becomes the head of the free list, and only its first cell is
  written.
\<close>

lemma free_page_used:
  assumes rel: "pmm_rel s fl" and l: "l \<in> pages_in PAGE_USED s"
  shows "\<exists>s'. free_page (page_addr s l) s = Inr s' \<and> pmm_rel s' (page_node s l # fl)
    \<and> pmm_layout s' = pmm_layout s \<and> pages_in PAGE_USED s' = pages_in PAGE_USED s - {l}
    \<and> kmem s' = write64 (kmem s) (page_node s l) (freelist_head s)"
proof -
  obtain i k where ik: "l = (i, k)" by force
  have wf: "pmm_wf s" and cur: "pmm_cursor s" and free: "pmm_free_list s fl"
    using rel by (simp_all add: pmm_rel_def)
  have loc: "(i, k) \<in> page_locs s" using l pages_in_locs ik by blast
  let ?s1 = "set_page_state i k PAGE_FREE s" and ?a = "page_node s (i, k)"
  let ?s2 = "push_free_node ?a (?s1\<lparr>used_pages := used_pages s - 1\<rparr>)"
  have st: "page_st s i k = PAGE_USED" using l by (simp add: pages_in_def ik)
  have step: "free_page (page_addr s l) s = Inr ?s2"
    using get_page_info_addr [OF wf loc] st by (simp add: free_page_def ik Let_def page_node_def)
  have lay: "pmm_layout ?s2 = pmm_layout s"
    using layout_tables [of ?s2 ?s1] by (simp add: layout_set_page_state)
  have pin: "pages_in v ?s2 = pages_in v ?s1" for v by (rule tables_cong) simp
  have nf: "(i, k) \<notin> pages_in PAGE_FREE s" "(i, k) \<notin> pages_in PAGE_UNINIT s"
    using st by (simp_all add: pages_in_def)
  have "pmm_free_list ?s2 (?a # fl)"
    using free_list_push [OF wf free loc nf(1)]
    by (simp add: pmm_free_list_def pages_in_def page_locs_def page_st_def page_node_def page_addr_def)
  moreover have "pmm_cursor ?s2"
    using cur nf(2) layout_nth [OF lay] unfolding pmm_cursor_def layout_cong(1) [OF lay] pin pages_in_set [OF loc]
    by (simp add: behind_cursor_def)
  moreover have used: "pages_in PAGE_USED ?s2 = pages_in PAGE_USED s - {l}"
    by (simp add: pin pages_in_set [OF loc] ik)
  moreover have "used_pages ?s2 = of_nat (card (pages_in PAGE_USED ?s2))"
  proof -
    have "Suc (card (pages_in PAGE_USED s - {l})) = card (pages_in PAGE_USED s)"
      using card_Suc_Diff1 [OF pages_in_finite l] .
    then have "(of_nat (card (pages_in PAGE_USED s)) :: u64) = of_nat (card (pages_in PAGE_USED s - {l})) + 1"
      by (metis of_nat_Suc add.commute)
    then show ?thesis using rel by (simp only: used) (simp add: pmm_rel_def)
  qed
  ultimately have "pmm_rel ?s2 (?a # fl)" using wf layout_cong(4) [OF lay] by (simp add: pmm_rel_def)
  then show ?thesis using step lay used by (auto simp: ik)
qed

lemma allocate_after_push:
  assumes rel: "pmm_rel s (page_node s l # fl)" and l: "l \<in> page_locs s"
  shows "allocate_page s = Inr (page_addr s l, pmm_pop s l)"
proof -
  have wf: "pmm_wf s" using rel by (simp add: pmm_rel_def)
  obtain l' where "l' \<in> pages_in PAGE_FREE s" "page_node s l = page_node s l'"
      "allocate_page s = Inr (page_addr s l', pmm_pop s l')"
    using allocate_page_head [OF rel] by blast
  then show ?thesis using l page_node_inj [OF wf] pages_in_locs by (metis inj_onD)
qed

section \<open>The allocator's contract\<close>

definition pmm_live :: "pmm \<Rightarrow> u64 set" where
  "pmm_live s = page_addr s ` pages_in PAGE_USED s"

lemma page_addr_inj: "pmm_wf s \<Longrightarrow> inj_on (page_addr s) (page_locs s)"
  by (auto simp: inj_on_def dest: page_addr_eqD)

lemma pmm_live_layout:
  assumes "pmm_layout s' = pmm_layout s"
  shows "pmm_live s' = page_addr s ` pages_in PAGE_USED s'"
  unfolding pmm_live_def
  by (rule image_cong) (use layout_cong [OF assms] pages_in_locs [of _ _ s'] in auto)

lemma pmm_taken_live:
  assumes wf: "pmm_wf s" and t: "pmm_taken s l s'"
  shows "pmm_live s' = insert (page_addr s l) (pmm_live s)" and "page_addr s l \<notin> pmm_live s"
proof -
  show "pmm_live s' = insert (page_addr s l) (pmm_live s)"
    using t pmm_live_layout [of s' s] by (simp add: pmm_taken_def) (simp add: pmm_live_def)
  show "page_addr s l \<notin> pmm_live s"
    using t inj_on_image_mem_iff [OF page_addr_inj [OF wf] _ pages_in_subset]
    by (simp add: pmm_live_def pmm_taken_def)
qed

lemma pmm_inv_wf: "pmm_inv s \<Longrightarrow> pmm_wf s"
  by (auto simp: pmm_inv_def pmm_rel_def)

lemma free_page_live:
  assumes inv: "pmm_inv s" and a: "a \<in> pmm_live s"
  shows "\<exists>s'. free_page a s = Inr s' \<and> pmm_inv s' \<and> pmm_live s' = pmm_live s - {a}
    \<and> (\<exists>s''. allocate_page s' = Inr (a, s''))"
proof -
  obtain fl l where rel: "pmm_rel s fl" and l: "l \<in> pages_in PAGE_USED s" "a = page_addr s l"
    using inv a by (auto simp: pmm_inv_def pmm_live_def)
  have wf: "pmm_wf s" and loc: "l \<in> page_locs s" using inv pmm_inv_wf l pages_in_locs by blast+
  obtain s' where s': "free_page a s = Inr s'" "pmm_rel s' (page_node s l # fl)"
      "pmm_layout s' = pmm_layout s" "pages_in PAGE_USED s' = pages_in PAGE_USED s - {l}"
    using free_page_used [OF rel l(1)] l(2) by blast
  have "pmm_live s' = pmm_live s - {a}"
    using inj_on_image_set_diff [OF page_addr_inj [OF wf], of "pages_in PAGE_USED s" "{l}"]
      pages_in_subset loc unfolding pmm_live_layout [OF s'(3)] s'(4) by (auto simp: pmm_live_def l(2))
  moreover have "allocate_page s' = Inr (a, pmm_pop s' l)"
    using allocate_after_push [of s' l fl] s'(2) loc layout_cong [OF s'(3)] l(2) by simp
  ultimately show ?thesis using s'(1,2) by (auto simp: pmm_inv_def)
qed

interpretation pf: frame_allocator allocate_page free_page pmm_inv pmm_live
proof
  fix s a s' assume inv: "pmm_inv s" and al: "allocate_page s = Inr (a, s')"
  then obtain l where "a = page_addr s l" "pmm_taken s l s'" using allocate_page_outcome [OF inv] by auto
  then show "pmm_inv s' \<and> a \<notin> pmm_live s \<and> pmm_live s' = insert a (pmm_live s)"
    using pmm_taken_live [OF pmm_inv_wf [OF inv]] by (simp add: pmm_taken_def)
next
  fix s a assume "pmm_inv s" "a \<in> pmm_live s"
  then show "\<exists>s'. free_page a s = Inr s' \<and> pmm_inv s' \<and> pmm_live s' = pmm_live s - {a}"
    using free_page_live by blast
next
  fix s a s' assume "pmm_inv s" "a \<in> pmm_live s" "free_page a s = Inr s'"
  then show "\<exists>s''. allocate_page s' = Inr (a, s'')" using free_page_live by fastforce
qed

section \<open>Setting up establishes the invariant\<close>

text \<open>
  What the Limine boot protocol promises of its memory map: usable entries are page aligned,
  sorted and disjoint; the direct map covers them (its window is \<open>2 ^ 47\<close> bytes, physical
  memory is taken to end below \<open>2 ^ 46\<close>).
\<close>

definition limine_memmap_ok :: "u64 \<Rightarrow> limine_memmap_entry list \<Rightarrow> bool" where
  "limine_memmap_ok off memmap \<longleftrightarrow> page_aligned off \<and> 0 < unat off \<and> unat off + 2 ^ 47 \<le> 2 ^ 64
     \<and> length memmap < 2 ^ 32
     \<and> (\<forall>e \<in> set memmap. me_type e = LIMINE_MEMMAP_USABLE \<longrightarrow> page_aligned (me_base e)
          \<and> page_aligned (me_length e) \<and> unat (me_base e) + unat (me_length e) \<le> 2 ^ 46)
     \<and> sorted_wrt (\<lambda>a b. me_type a = LIMINE_MEMMAP_USABLE \<and> me_type b = LIMINE_MEMMAP_USABLE \<longrightarrow>
          unat (me_base a) + unat (me_length a) \<le> unat (me_base b)) memmap"

text \<open>
  A table placed in its region: the table, then the pages it manages, inside the region.
\<close>

definition ct_in_entry :: "u64 \<Rightarrow> limine_memmap_entry \<Rightarrow> pmm_child_table_t \<Rightarrow> bool" where
  "ct_in_entry off e ct \<longleftrightarrow> unat (me_base e) \<le> unat (ct_addr ct - off)
     \<and> unat (ct_addr ct - off) + 24 + 4 * length (ct_pages ct) \<le> unat (ct_start ct)
     \<and> unat (ct_end ct) \<le> unat (me_base e) + unat (me_length e)
     \<and> ct_pages ct = replicate (length (ct_pages ct)) PAGE_UNINIT"

lemma setup_child_table:
  assumes off: "unat off + 2 ^ 47 \<le> 2 ^ 64" and size: "unat psize \<le> 2 ^ 36"
    and b: "page_aligned (me_base e)" and len: "page_aligned (me_length e)"
    and top: "unat (me_base e) + unat (me_length e) \<le> 2 ^ 46" and nz: "0 < unat off"
    and child: "child - off = me_base e \<or> child - off = me_base e + psize"
    and start: "start = ALIGN_UP (child - off + (24 + 4 * (me_length e div PAGE_SIZE))) PAGE_SIZE"
    and end': "end' = ALIGN_DOWN (me_base e + me_length e) PAGE_SIZE" and lt: "start < end'"
    and n: "n = (end' - start) div PAGE_SIZE"
    and ct: "ct = \<lparr>ct_addr = child, ct_start = start, ct_end = end', ct_num_pages = n,
                  ct_pages = replicate (unat n) PAGE_UNINIT\<rparr>"
  shows "ct_wf off ct \<and> ct_in_entry off e ct"
proof -
  let ?c = "child - off" and ?z = "24 + 4 * (me_length e div PAGE_SIZE)"
  have q: "unat (me_length e div PAGE_SIZE) = unat (me_length e) div 4096" by (simp add: unat_div)
  have c: "unat (me_base e) \<le> unat ?c" "unat ?c \<le> 2 ^ 46 + 2 ^ 36"
    using child top size by (auto simp: unat_word_ariths)
  have z: "unat ?z = 24 + 4 * (unat (me_length e) div 4096)"
    using top q by (simp add: unat_word_ariths)
  have cz: "unat (?c + ?z) = unat ?c + unat ?z"
    by (rule unat_add_no_wrap) (use c z top in simp)
  have s1: "unat ?c + unat ?z \<le> unat start" and al: "page_aligned start"
    using ALIGN_UP_ge(1) [of "?c + ?z"] c z top cz start ALIGN_UP_page_aligned by simp_all
  have e1: "unat end' = unat (me_base e) + unat (me_length e)"
    using b len top end' by (auto simp: unat_ALIGN_DOWN_page unat_word_ariths)
  have lt': "unat start < unat end'" using lt by (simp add: word_less_nat_alt)
  have "4096 dvd unat end' - unat start"
    using al b len by (intro dvd_diff_nat) (auto simp: e1)
  moreover have un: "unat n = (unat end' - unat start) div 4096"
    using lt' n by (simp add: unat_div unat_sub word_le_nat_alt)
  ultimately have n4: "4096 * unat n = unat end' - unat start" by simp
  have "unat n \<le> unat (me_length e) div 4096"
    unfolding un using e1 s1 c by (intro div_le_mono) linarith
  then show ?thesis
    using n4 lt' s1 z c al e1 top off nz by (simp add: ct ct_wf_def ct_in_entry_def)
qed

lemma setup_child_fields [simp]:
  "hhdmOffset (setup_child pt ps e s) = hhdmOffset s"
  "freelist_head (setup_child pt ps e s) = freelist_head s"
  "used_pages (setup_child pt ps e s) = used_pages s"
  "fill_t (setup_child pt ps e s) = fill_t s" "fill_p (setup_child pt ps e s) = fill_p s"
  by (simp_all add: setup_child_def Let_def)

lemma setup_children_fields [simp]:
  "hhdmOffset (fold (setup_child pt ps) es s) = hhdmOffset s"
  "freelist_head (fold (setup_child pt ps) es s) = freelist_head s"
  "used_pages (fold (setup_child pt ps) es s) = used_pages s"
  "fill_t (fold (setup_child pt ps) es s) = fill_t s"
  "fill_p (fold (setup_child pt ps) es s) = fill_p s"
  by (induction es arbitrary: s) simp_all

lemma setup_child_cases:
  assumes "pmm_usable e" and b: "page_aligned (me_base e)"
  obtains "child_tables (setup_child pt ps e s) = child_tables s"
      "num_child_tables (setup_child pt ps e s) = num_child_tables s - 1"
  | child start end' n ct where "child - hhdmOffset s = me_base e \<or> child - hhdmOffset s = me_base e + ps"
      "start = ALIGN_UP (child - hhdmOffset s + (24 + 4 * (me_length e div PAGE_SIZE))) PAGE_SIZE"
      "end' = ALIGN_DOWN (me_base e + me_length e) PAGE_SIZE" "start < end'"
      "n = (end' - start) div PAGE_SIZE"
      "ct = \<lparr>ct_addr = child, ct_start = start, ct_end = end', ct_num_pages = n,
             ct_pages = replicate (unat n) PAGE_UNINIT\<rparr>"
      "child_tables (setup_child pt ps e s) = child_tables s @ [ct]"
      "num_child_tables (setup_child pt ps e s) = num_child_tables s"
proof -
  define child where "child = (if me_base e + hhdmOffset s = pt then pt + ps else me_base e + hhdmOffset s)"
  define start where "start = ALIGN_UP (child - hhdmOffset s + (24 + 4 * (me_length e div PAGE_SIZE))) PAGE_SIZE"
  define end' where "end' = ALIGN_DOWN (me_base e + me_length e) PAGE_SIZE"
  have up: "ALIGN_UP (me_base e) PAGE_SIZE = me_base e" using b by (rule ALIGN_UP_aligned_id)
  note d = setup_child_def [of pt ps e s, unfolded up Let_def,
      folded child_def, folded start_def end'_def]
  show thesis
  proof (cases "end' \<le> start")
    case True
    then show thesis using assms(1) that(1) by (simp add: d)
  next
    case False
    then show thesis
      using assms(1) by (intro that(2) [OF _ start_def end'_def _ refl refl]) (auto simp: d child_def)
  qed
qed

definition entry_ok :: "limine_memmap_entry \<Rightarrow> bool" where
  "entry_ok e \<longleftrightarrow> page_aligned (me_base e) \<and> page_aligned (me_length e)
     \<and> unat (me_base e) + unat (me_length e) \<le> 2 ^ 46"

lemma setup_children_wf:
  assumes "unat (hhdmOffset s) + 2 ^ 47 \<le> 2 ^ 64" and "0 < unat (hhdmOffset s)" and "unat ps \<le> 2 ^ 36"
    and "\<And>e. e \<in> set es \<Longrightarrow> pmm_usable e \<Longrightarrow> entry_ok e"
    and "sorted_wrt (\<lambda>a b. pmm_usable a \<and> pmm_usable b \<longrightarrow>
          unat (me_base a) + unat (me_length a) \<le> unat (me_base b)) es"
    and "\<And>e ct. e \<in> set es \<Longrightarrow> pmm_usable e \<Longrightarrow> ct \<in> set (child_tables s) \<Longrightarrow>
          unat (ct_end ct) \<le> unat (me_base e)"
    and "sorted_wrt (\<lambda>a b. ct_end a < ct_start b) (child_tables s)"
    and "\<And>ct. ct \<in> set (child_tables s) \<Longrightarrow>
          ct_wf (hhdmOffset s) ct \<and> (\<exists>e \<in> E. pmm_usable e \<and> ct_in_entry (hhdmOffset s) e ct)"
    and "set es \<subseteq> E"
  shows "sorted_wrt (\<lambda>a b. ct_end a < ct_start b) (child_tables (fold (setup_child pt ps) es s))
    \<and> (\<forall>ct \<in> set (child_tables (fold (setup_child pt ps) es s)).
         ct_wf (hhdmOffset s) ct \<and> (\<exists>e \<in> E. pmm_usable e \<and> ct_in_entry (hhdmOffset s) e ct))"
  using assms
proof (induction es arbitrary: s)
  case Nil
  then show ?case by simp
next
  case (Cons e es)
  let ?s1 = "setup_child pt ps e s"
  have step: "(\<forall>e' ct. e' \<in> set es \<longrightarrow> pmm_usable e' \<longrightarrow> ct \<in> set (child_tables ?s1) \<longrightarrow>
          unat (ct_end ct) \<le> unat (me_base e'))
      \<and> sorted_wrt (\<lambda>a b. ct_end a < ct_start b) (child_tables ?s1)
      \<and> (\<forall>ct. ct \<in> set (child_tables ?s1) \<longrightarrow>
          ct_wf (hhdmOffset s) ct \<and> (\<exists>e \<in> E. pmm_usable e \<and> ct_in_entry (hhdmOffset s) e ct))"
  proof (cases "pmm_usable e")
    case False
    then have "?s1 = s" by (simp add: setup_child_def)
    then show ?thesis using Cons.prems by simp
  next
    case True
    have ok: "entry_ok e" using Cons.prems(4) True by simp
    then have al: "page_aligned (me_base e)" by (simp add: entry_ok_def)
    show ?thesis
    proof (rule setup_child_cases [OF True al, of pt ps s])
      assume "child_tables ?s1 = child_tables s"
      then show ?thesis using Cons.prems by simp
    next
      fix child start end' n ct
      assume new: "child - hhdmOffset s = me_base e \<or> child - hhdmOffset s = me_base e + ps"
        "start = ALIGN_UP (child - hhdmOffset s + (24 + 4 * (me_length e div PAGE_SIZE))) PAGE_SIZE"
        "end' = ALIGN_DOWN (me_base e + me_length e) PAGE_SIZE" "start < end'"
        "n = (end' - start) div PAGE_SIZE"
        "ct = \<lparr>ct_addr = child, ct_start = start, ct_end = end', ct_num_pages = n,
               ct_pages = replicate (unat n) PAGE_UNINIT\<rparr>"
        and ct: "child_tables ?s1 = child_tables s @ [ct]"
      have w: "ct_wf (hhdmOffset s) ct \<and> ct_in_entry (hhdmOffset s) e ct"
        by (rule setup_child_table [OF Cons.prems(1,3) _ _ _ Cons.prems(2) new])
          (use ok in \<open>simp_all add: entry_ok_def\<close>)
      then have "unat (me_base e) < unat (ct_start ct)" "unat (ct_end ct) \<le> unat (me_base e) + unat (me_length e)"
        by (simp_all add: ct_in_entry_def)
      moreover have "unat (ct_end c) \<le> unat (me_base e)" if "c \<in> set (child_tables s)" for c
        using Cons.prems(6) [of e c] True that by simp
      ultimately show ?thesis
        using Cons.prems(5-9) True w unfolding ct
        by (fastforce simp: sorted_wrt_append word_less_nat_alt)
    qed
  qed
  have "sorted_wrt (\<lambda>a b. ct_end a < ct_start b) (child_tables (fold (setup_child pt ps) es ?s1))
    \<and> (\<forall>ct \<in> set (child_tables (fold (setup_child pt ps) es ?s1)).
         ct_wf (hhdmOffset ?s1) ct \<and> (\<exists>e \<in> E. pmm_usable e \<and> ct_in_entry (hhdmOffset ?s1) e ct))"
    by (rule Cons.IH) (use Cons.prems step in \<open>simp_all\<close>)
  then show ?case by simp
qed

lemma setup_children_count:
  assumes "\<And>e. e \<in> set es \<Longrightarrow> pmm_usable e \<Longrightarrow> entry_ok e"
  shows "num_child_tables (fold (setup_child pt ps) es s) - of_nat (length (child_tables (fold (setup_child pt ps) es s)))
      = num_child_tables s - of_nat (length (child_tables s)) - of_nat (length (filter pmm_usable es))
    \<and> length (child_tables (fold (setup_child pt ps) es s)) \<le> length (child_tables s) + length es"
  using assms
proof (induction es arbitrary: s)
  case Nil
  then show ?case by simp
next
  case (Cons e es)
  let ?s1 = "setup_child pt ps e s"
  note IH = Cons.IH [of ?s1]
  show ?case
  proof (cases "pmm_usable e")
    case False
    then have "?s1 = s" by (simp add: setup_child_def)
    then show ?thesis using IH Cons.prems False by force
  next
    case True
    then have al: "page_aligned (me_base e)" using Cons.prems by (auto simp: entry_ok_def)
    have "num_child_tables ?s1 - of_nat (length (child_tables ?s1))
        = num_child_tables s - of_nat (length (child_tables s)) - 1
      \<and> length (child_tables ?s1) \<le> length (child_tables s) + 1"
      by (rule setup_child_cases [OF True al, of pt ps s]) (simp_all add: algebra_simps)
    moreover have "num_child_tables (fold (setup_child pt ps) es ?s1)
          - of_nat (length (child_tables (fold (setup_child pt ps) es ?s1)))
        = num_child_tables ?s1 - of_nat (length (child_tables ?s1)) - of_nat (length (filter pmm_usable es))
      \<and> length (child_tables (fold (setup_child pt ps) es ?s1)) \<le> length (child_tables ?s1) + length es"
      using IH Cons.prems by simp
    ultimately show ?thesis using True by (simp add: diff_diff_eq)
  qed
qed

lemma find_parent_table_nonzero:
  assumes "\<exists>e \<in> set es. pmm_usable e" and "\<And>e. e \<in> set es \<Longrightarrow> pmm_usable e \<Longrightarrow> entry_ok e"
    and "unat off + 2 ^ 47 \<le> 2 ^ 64" and "0 < unat off"
  shows "find_parent_table off es \<noteq> 0"
  using assms(1,2)
proof (induction es)
  case (Cons e es)
  show ?case
  proof (cases "pmm_usable e")
    case True
    then have ok: "entry_ok e" using Cons.prems by simp
    then have "unat (me_base e + off) = unat (me_base e) + unat off"
      using assms(3) by (intro unat_add_no_wrap) (simp add: entry_ok_def)
    then have "0 < unat (me_base e + off)" using assms(4) by simp
    then have "me_base e + off \<noteq> 0" by auto
    then show ?thesis using True ok by (simp add: entry_ok_def ALIGN_UP_aligned_id)
  qed (use Cons in auto)
qed simp

text \<open>With every page uninitialised and the cursor at the start, the free list is empty.\<close>

lemma pmm_rel_initial:
  assumes "pmm_wf s" and "freelist_head s = 0" and "used_pages s = 0" and "fill_t s = 0" and "fill_p s = 0"
    and un: "\<And>ct. ct \<in> set (child_tables s) \<Longrightarrow> ct_pages ct = replicate (length (ct_pages ct)) PAGE_UNINIT"
  shows "pmm_rel s [] \<and> pages_in PAGE_USED s = {}"
proof -
  have st: "page_st s i k = PAGE_UNINIT" if "(i, k) \<in> page_locs s" for i k
    using un [of "child_tables s ! i"] that
    by (auto simp: page_st_def page_locs_def) (metis nth_replicate)
  then have "pages_in PAGE_USED s = {}" "pages_in PAGE_FREE s = {}" "pages_in PAGE_UNINIT s = page_locs s"
    by (auto simp: pages_in_def)
  then show ?thesis
    using assms(1-5) by (auto simp: pmm_rel_def pmm_cursor_def pmm_free_list_def behind_cursor_def)
qed

lemma setup_pmm_rel:
  assumes ok: "limine_memmap_ok off memmap" and ex: "\<exists>e \<in> set memmap. pmm_usable e"
  shows "\<exists>s. setup_pmm off memmap m = Inr s \<and> pmm_inv s \<and> pages_in PAGE_USED s = {}
    \<and> (\<forall>(i, k) \<in> page_locs s. \<exists>e \<in> set memmap. pmm_usable e
         \<and> unat (me_base e) < unat (page_addr s (i, k))
         \<and> unat (ct_addr (child_tables s ! i) - off) + 24 + 4 * length (ct_pages (child_tables s ! i))
             \<le> unat (page_addr s (i, k))
         \<and> unat (page_addr s (i, k)) + 4096 \<le> unat (me_base e) + unat (me_length e))"
proof -
  let ?n = "of_nat (length (filter pmm_usable memmap)) :: u64"
  let ?pt = "find_parent_table off memmap" and ?ps = "8 + 8 * ?n"
  define s0 where "s0 = \<lparr>hhdmOffset = off, freelist_head = 0, num_child_tables = ucast ?n,
      child_tables = [], total_pages = 0, used_pages = 0, fill_t = 0, fill_p = 0,
      kmem = fst (memset m ?pt 0 ?ps)\<rparr>"
  define s1 where "s1 = fold (setup_child ?pt ?ps) memmap s0"
  have len: "length (filter pmm_usable memmap) \<le> length memmap" "length memmap < 2 ^ 32"
    using ok by (simp_all add: limine_memmap_ok_def)
  have eok: "e \<in> set memmap \<Longrightarrow> pmm_usable e \<Longrightarrow> entry_ok e" for e
    using ok by (simp add: limine_memmap_ok_def pmm_usable_def entry_ok_def)
  have off: "unat off + 2 ^ 47 \<le> 2 ^ 64" "0 < unat off" "page_aligned off"
    using ok by (simp_all add: limine_memmap_ok_def)
  have ps: "unat ?ps \<le> 2 ^ 36"
  proof -
    have "length (filter pmm_usable memmap) < 2 ^ 32" using len by (rule le_less_trans)
    then show ?thesis
      using unat_of_nat64 [of "length (filter pmm_usable memmap)"] by (simp add: unat_word_ariths)
  qed
  have srt: "sorted_wrt (\<lambda>a b. pmm_usable a \<and> pmm_usable b \<longrightarrow>
      unat (me_base a) + unat (me_length a) \<le> unat (me_base b)) memmap"
    using ok unfolding limine_memmap_ok_def
    by (elim conjE) (erule sorted_wrt_mono_rel [rotated], simp add: pmm_usable_def)
  have tabs: "sorted_wrt (\<lambda>a b. ct_end a < ct_start b) (child_tables s1)
    \<and> (\<forall>ct \<in> set (child_tables s1). ct_wf off ct
         \<and> (\<exists>e \<in> set memmap. pmm_usable e \<and> ct_in_entry off e ct))"
    using setup_children_wf [of s0 ?ps memmap "set memmap" ?pt] off ps eok srt
    by (simp add: s1_def s0_def)
  have cnt: "num_child_tables s1 - of_nat (length (child_tables s1))
        = num_child_tables s0 - of_nat (length (child_tables s0)) - of_nat (length (filter pmm_usable memmap))
      \<and> length (child_tables s1) \<le> length (child_tables s0) + length memmap"
    unfolding s1_def by (rule setup_children_count) (rule eok)
  moreover have "num_child_tables s0 = of_nat (length (filter pmm_usable memmap))"
    by (simp add: s0_def word_unat_eq_iff unsigned_of_nat unsigned_ucast_eq take_bit_take_bit)
  moreover have "child_tables s0 = []" by (simp add: s0_def)
  ultimately have "num_child_tables s1 = of_nat (length (child_tables s1))"
      "length (child_tables s1) \<le> length memmap" by simp_all
  then have "length (child_tables s1) = unat (num_child_tables s1)"
    using len by (simp add: unat_of_nat)
  then have "pmm_wf s1" using tabs off by (simp add: pmm_wf_def s1_def s0_def)
  moreover have "ct_pages ct = replicate (length (ct_pages ct)) PAGE_UNINIT" if "ct \<in> set (child_tables s1)" for ct
    using tabs that unfolding ct_in_entry_def by meson
  ultimately have r1: "pmm_rel s1 []" "pages_in PAGE_USED s1 = {}"
    using pmm_rel_initial [of s1] by (simp_all add: s1_def s0_def)
  then obtain fl' where g: "pmm_grown s1 [] (pmm_fill 512 s1) fl'" using pmm_fill_grown by blast
  let ?s = "pmm_fill 512 s1"
  have lay: "pmm_layout ?s = pmm_layout s1" and inv: "pmm_inv ?s" and used: "pages_in PAGE_USED ?s = {}"
    using g r1(2) by (auto simp: pmm_grown_def pmm_inv_def)
  have "\<exists>e \<in> set memmap. pmm_usable e \<and> unat (me_base e) < unat (page_addr ?s (i, k))
      \<and> unat (ct_addr (child_tables ?s ! i) - off) + 24 + 4 * length (ct_pages (child_tables ?s ! i))
          \<le> unat (page_addr ?s (i, k))
      \<and> unat (page_addr ?s (i, k)) + 4096 \<le> unat (me_base e) + unat (me_length e)"
    if l': "(i, k) \<in> page_locs ?s" for i k
  proof -
    have l: "(i, k) \<in> page_locs s1" using l' layout_cong(1) [OF lay] by simp
    then have i: "i < length (child_tables s1)" by (simp add: page_locs_def)
    then obtain e where "e \<in> set memmap" "pmm_usable e" "ct_in_entry off e (child_tables s1 ! i)"
      using tabs nth_mem by blast
    then show ?thesis
      using unat_page_addr [OF \<open>pmm_wf s1\<close> l] layout_cong(2) [OF lay l] layout_nth(2) [OF lay i]
      unfolding ct_in_entry_def by (intro bexI [of _ e] conjI) simp_all
  qed
  then show ?thesis
    using inv used find_parent_table_nonzero [OF ex eok off(1,2)]
    by (auto simp: setup_pmm_def Let_def s1_def s0_def)
qed

section \<open>Properties\<close>

lemma pmm_inv_used_pages: "pmm_inv s \<Longrightarrow> used_pages s = of_nat (card (pages_in PAGE_USED s))"
  by (auto simp: pmm_inv_def pmm_rel_def)

text \<open>A byte of one page is far from every other page's start.\<close>

lemma byte_of_page_far:
  assumes wf: "pmm_wf s" and l: "l \<in> page_locs s" "l' \<in> page_locs s" "l \<noteq> l'"
    and b: "unat (b - page_node s l) < 4096"
  shows "4096 \<le> unat (b - page_node s l')"
proof -
  have "page_node s l \<noteq> page_node s l'" using page_node_inj [OF wf] l by (auto simp: inj_on_def)
  then show ?thesis
    using byte_of_other_page [of "page_node s l'" "page_node s l" "unat (b - page_node s l)"]
      page_node_props(2) [OF wf] l b by simp
qed

lemma pmm_taken_used:
  assumes "pmm_wf s" and "pmm_taken s l s'" and "l' \<in> pages_in PAGE_USED s"
    and "unat (b - page_node s l') < 4096"
  shows "kmem s' b = kmem s b"
proof -
  have "\<forall>l'' \<in> page_locs s - pages_in PAGE_USED s. 4096 \<le> unat (b - page_node s l'')"
    using byte_of_page_far [OF assms(1), of l'] assms(3,4) pages_in_locs by blast
  then show ?thesis using assms(2) by (simp add: pmm_taken_def)
qed

text \<open>The owners of frames in use may write them as they like.\<close>

lemma pmm_inv_kmem:
  assumes inv: "pmm_inv s"
    and eq: "\<And>b. (\<forall>l \<in> pages_in PAGE_USED s. 4096 \<le> unat (b - page_node s l)) \<Longrightarrow> m' b = kmem s b"
  shows "pmm_inv (s\<lparr>kmem := m'\<rparr>)"
proof -
  obtain fl where rel: "pmm_rel s fl" using inv by (auto simp: pmm_inv_def)
  have wf: "pmm_wf s" and free: "pmm_free_list s fl" using rel by (simp_all add: pmm_rel_def)
  have "read64 m' a = read64 (kmem s) a" if mem: "a \<in> set fl" for a
  proof (rule read64_cong_bytes)
    fix k :: nat assume k: "k < 8"
    obtain l where l: "l \<in> pages_in PAGE_FREE s" "a = page_node s l"
      using free_list_nodes(2) [OF free mem] by blast
    have "\<forall>l' \<in> pages_in PAGE_USED s. 4096 \<le> unat (a + of_nat k - page_node s l')"
    proof
      fix l' assume l': "l' \<in> pages_in PAGE_USED s"
      then have "l \<noteq> l'" using l(1) by (auto simp: pages_in_def)
      then show "4096 \<le> unat (a + of_nat k - page_node s l')"
        using byte_of_page_far [OF wf pages_in_locs [OF l(1)] pages_in_locs [OF l']] k l(2)
        by (simp add: unat_of_nat)
    qed
    then show "m' (a + of_nat k) = kmem s (a + of_nat k)" by (rule eq)
  qed
  then have "bm.chain m' (freelist_head s) fl 0"
    using free bm.chain_cong [of fl m' "kmem s"] by (simp add: pmm_free_list_def)
  then have "pmm_rel (s\<lparr>kmem := m'\<rparr>) fl"
    using rel by (simp add: pmm_rel_def pmm_free_list_def pmm_wf_def pmm_cursor_def behind_cursor_def
        page_locs_def pages_in_def page_st_def page_node_def page_addr_def)
  then show ?thesis by (auto simp: pmm_inv_def)
qed

text \<open>A small frame database: three pages, in use, free and not yet initialised.\<close>

definition demo_pmm :: pmm where
  "demo_pmm = \<lparr>hhdmOffset = 0x10000, freelist_head = 0x12000, num_child_tables = 1,
     child_tables = [\<lparr>ct_addr = 0x10F00, ct_start = 0x1000, ct_end = 0x4000, ct_num_pages = 3,
                      ct_pages = [PAGE_USED, PAGE_FREE, PAGE_UNINIT]\<rparr>],
     total_pages = 3, used_pages = 1, fill_t = 0, fill_p = 2, kmem = (\<lambda>_. 0)\<rparr>"

lemma demo_pmm_pages:
  "page_locs demo_pmm = {(0, 0), (0, 1), (0, 2)}" "pages_in PAGE_USED demo_pmm = {(0, 0)}"
  "pages_in PAGE_FREE demo_pmm = {(0, 1)}" "pages_in PAGE_UNINIT demo_pmm = {(0, 2)}"
proof -
  show locs: "page_locs demo_pmm = {(0, 0), (0, 1), (0, 2)}"
    by (auto simp: page_locs_def demo_pmm_def less_Suc_eq numeral_3_eq_3 numeral_2_eq_2)
  show "pages_in PAGE_USED demo_pmm = {(0, 0)}" "pages_in PAGE_FREE demo_pmm = {(0, 1)}"
    "pages_in PAGE_UNINIT demo_pmm = {(0, 2)}"
    unfolding pages_in_def locs by (auto simp: page_st_def demo_pmm_def)
qed

lemma demo_pmm_inv: "pmm_inv demo_pmm"
proof -
  have "pmm_wf demo_pmm" by (simp add: pmm_wf_def ct_wf_def demo_pmm_def)
  moreover have "pmm_free_list demo_pmm [0x12000]"
    unfolding pmm_free_list_def demo_pmm_pages
    by (simp add: demo_pmm_def read64_def page_node_def page_addr_def)
  moreover have "pmm_cursor demo_pmm"
    unfolding pmm_cursor_def demo_pmm_pages by (simp add: demo_pmm_def behind_cursor_def)
  moreover have "used_pages demo_pmm = of_nat (card (pages_in PAGE_USED demo_pmm))"
    unfolding demo_pmm_pages by (simp add: demo_pmm_def)
  ultimately show ?thesis unfolding pmm_inv_def pmm_rel_def by blast
qed

text \<open>
  C2: In every state of the allocator, \<open>allocate_page\<close> either hands out a page-aligned frame
  that was not in use, zeroed, adding exactly it to the used frames, keeping the content of
  every frame already in use and the allocator's invariant; or it panics with "out of memory",
  and then every frame is in use.
\<close>

theorem allocate_page_correct:
  assumes inv: "pmm_inv s"
  shows "case allocate_page s of
      Inl e \<Rightarrow> e = Panic ''PMM: out of memory'' \<and> pages_in PAGE_USED s = page_locs s
    | Inr (phys, s') \<Rightarrow>
        (\<exists>l \<in> page_locs s - pages_in PAGE_USED s. phys = page_addr s l \<and> IS_ALIGNED phys PAGE_SIZE
           \<and> pages_in PAGE_USED s' = insert l (pages_in PAGE_USED s)
           \<and> used_pages s' = used_pages s + 1
           \<and> (\<forall>b. unat (b - (phys + hhdmOffset s)) < 4096 \<longrightarrow> kmem s' b = 0)
           \<and> (\<forall>l' \<in> pages_in PAGE_USED s. \<forall>b. unat (b - page_node s l') < 4096 \<longrightarrow> kmem s' b = kmem s b)
           \<and> pmm_inv s')"
proof -
  have wf: "pmm_wf s" using inv by (rule pmm_inv_wf)
  consider (oom) "page_locs s = pages_in PAGE_USED s" "allocate_page s = Inl (Panic ''PMM: out of memory'')"
    | (ok) l s' where "allocate_page s = Inr (page_addr s l, s')" "pmm_taken s l s'"
    using allocate_page_outcome [OF inv] by blast
  then show ?thesis
  proof cases
    case oom
    then show ?thesis by simp
  next
    case (ok l s')
    have l: "l \<in> page_locs s - pages_in PAGE_USED s" using ok(2) by (simp add: pmm_taken_def)
    have "IS_ALIGNED (page_addr s l) PAGE_SIZE"
      using page_node_props(1) [OF wf] l by (simp add: IS_ALIGNED_page)
    moreover have "used_pages s' = used_pages s + 1"
      using pmm_inv_used_pages [OF inv] pmm_inv_used_pages [of s'] ok(2) l by (simp add: pmm_taken_def)
    moreover have "kmem s' b = kmem s b"
      if "l' \<in> pages_in PAGE_USED s" "unat (b - page_node s l') < 4096" for l' b
      using pmm_taken_used [OF wf ok(2) that] .
    ultimately show ?thesis
      using ok l unfolding ok(1) sum.case prod.case
      by (intro bexI [of _ l]) (simp_all add: pmm_taken_def page_node_def)
  qed
qed

theorem allocate_page_correct_witness:
  "pmm_inv demo_pmm \<and> (case allocate_page demo_pmm of
      Inl e \<Rightarrow> False | Inr (phys, s') \<Rightarrow> IS_ALIGNED phys PAGE_SIZE \<and> used_pages s' = 2 \<and> pmm_inv s')"
proof -
  have "pages_in PAGE_USED demo_pmm \<noteq> page_locs demo_pmm" unfolding demo_pmm_pages by auto
  moreover have "used_pages demo_pmm = 1" by (simp add: demo_pmm_def)
  ultimately show ?thesis
    using allocate_page_correct [OF demo_pmm_inv] demo_pmm_inv by (auto split: sum.splits prod.splits)
qed

text \<open>
  C3: Frames handed out by any run of successful allocations are pairwise different and
  different from every frame already in use; given back in any order, no release panics, the
  invariant holds again and exactly the frames in use before are in use.
\<close>

theorem alloc_many_free_many:
  assumes "pmm_inv s" and "pf.alloc_many n s = Inr (as, s1)" and "distinct bs" and "set bs = set as"
  shows "length as = n \<and> distinct as \<and> set as \<inter> pmm_live s = {}
    \<and> (\<exists>s2. pf.free_many bs s1 = Inr s2 \<and> pmm_inv s2 \<and> pmm_live s2 = pmm_live s)"
  using pf.alloc_many_ok [OF assms(1,2)] pf.alloc_free_any_order [OF assms] by auto

lemma demo_pmm_allocates: "\<exists>a s'. allocate_page demo_pmm = Inr (a, s')"
proof -
  have "pages_in PAGE_USED demo_pmm \<noteq> page_locs demo_pmm" unfolding demo_pmm_pages by auto
  then show ?thesis using allocate_page_outcome [OF demo_pmm_inv] by auto
qed

theorem alloc_many_free_many_witness:
  "\<exists>a s1. pf.alloc_many 1 demo_pmm = Inr ([a], s1) \<and> a \<notin> pmm_live demo_pmm
     \<and> (\<exists>s2. pf.free_many [a] s1 = Inr s2 \<and> pmm_inv s2 \<and> pmm_live s2 = pmm_live demo_pmm)"
proof -
  obtain a s1 where "allocate_page demo_pmm = Inr (a, s1)" using demo_pmm_allocates by blast
  then have "pf.alloc_many 1 demo_pmm = Inr ([a], s1)" by simp
  from alloc_many_free_many [OF demo_pmm_inv this, of "[a]"] this show ?thesis by simp
qed

text \<open>
  A frame in use can be released; the next allocation hands out the same frame, zeroed.
\<close>

theorem free_page_then_allocate:
  assumes "pmm_inv s" and "phys \<in> pmm_live s"
  shows "\<exists>s1 s2. free_page phys s = Inr s1 \<and> pmm_inv s1 \<and> pmm_live s1 = pmm_live s - {phys}
    \<and> allocate_page s1 = Inr (phys, s2) \<and> pmm_inv s2 \<and> pmm_live s2 = pmm_live s"
  using pf.free_ok [OF assms] pf.free_alloc_lifo [OF assms] by fastforce

theorem free_page_then_allocate_witness:
  "pmm_inv demo_pmm \<and> 0x1000 \<in> pmm_live demo_pmm
   \<and> (\<exists>s1 s2. free_page 0x1000 demo_pmm = Inr s1 \<and> allocate_page s1 = Inr (0x1000, s2) \<and> pmm_inv s2)"
proof -
  have "0x1000 \<in> pmm_live demo_pmm"
    unfolding pmm_live_def demo_pmm_pages by (simp add: page_addr_def demo_pmm_def)
  from free_page_then_allocate [OF demo_pmm_inv this] this demo_pmm_inv show ?thesis by blast
qed

text \<open>
  C4: Releasing a frame that is not in use panics without changing the state: "double free"
  for a free frame, "uninit page" for one never initialised. An address outside every managed
  range is ignored, and the end address of a range, which is outside it, panics.
\<close>

theorem free_page_errors:
  assumes inv: "pmm_inv s"
  shows "(\<forall>l \<in> pages_in PAGE_FREE s.
            free_page (page_addr s l) s = Inl (Panic ''PMM: attempted to double free''))
    \<and> (\<forall>l \<in> pages_in PAGE_UNINIT s.
            free_page (page_addr s l) s = Inl (Panic ''PMM: attempted to free an uninit page''))
    \<and> (\<forall>ct \<in> set (child_tables s). free_page (ct_end ct) s =
            Inl (Panic ''PMM: attempted to get info on out of bounds page that was meant to be in range''))
    \<and> (\<forall>phys. (\<forall>ct \<in> set (child_tables s). phys < ct_start ct \<or> ct_end ct < phys) \<longrightarrow>
            free_page phys s = Inr s)"
proof -
  have wf: "pmm_wf s" using inv by (rule pmm_inv_wf)
  have info: "get_page_info s (page_addr s l) = Inr (Some l)" if "l \<in> pages_in v s" for l v
    using get_page_info_addr [OF wf pages_in_locs [OF that]] .
  have "free_page (ct_end ct) s =
      Inl (Panic ''PMM: attempted to get info on out of bounds page that was meant to be in range'')"
    if mem: "ct \<in> set (child_tables s)" for ct
  proof -
    obtain i where i: "i < length (child_tables s)" and ct: "child_tables s ! i = ct"
      using mem by (auto simp: in_set_conv_nth)
    have "ct_start ct \<le> ct_end ct"
      using wf_table [OF wf i] unfolding ct ct_wf_def word_le_nat_alt by linarith
    then show ?thesis
      using get_page_info_at [OF wf i, of "ct_end ct"] unfolding ct by (simp add: free_page_def)
  qed
  moreover have "free_page phys s = Inr s"
    if "\<forall>ct \<in> set (child_tables s). phys < ct_start ct \<or> ct_end ct < phys" for phys
  proof -
    have "get_page_info s phys = Inr None"
      unfolding get_page_info_def get_page_info_from_None
      using that by (meson in_set_takeD leD)
    then show ?thesis by (simp add: free_page_def)
  qed
  ultimately show ?thesis using info by (fastforce simp: free_page_def pages_in_def)
qed

theorem free_page_errors_witness:
  "pmm_inv demo_pmm
   \<and> free_page 0x2000 demo_pmm = Inl (Panic ''PMM: attempted to double free'')
   \<and> free_page 0x3000 demo_pmm = Inl (Panic ''PMM: attempted to free an uninit page'')
   \<and> free_page 0x4000 demo_pmm =
       Inl (Panic ''PMM: attempted to get info on out of bounds page that was meant to be in range'')
   \<and> free_page 0x8000 demo_pmm = Inr demo_pmm"
proof -
  note e = free_page_errors [OF demo_pmm_inv, unfolded demo_pmm_pages]
  have addr: "page_addr demo_pmm (0, 1) = 0x2000" "page_addr demo_pmm (0, 2) = 0x3000"
    by (simp_all add: page_addr_def demo_pmm_def)
  have tab: "set (child_tables demo_pmm) = {child_tables demo_pmm ! 0}"
      "ct_start (child_tables demo_pmm ! 0) = 0x1000" "ct_end (child_tables demo_pmm ! 0) = 0x4000"
    by (simp_all add: demo_pmm_def)
  have "free_page 0x2000 demo_pmm = Inl (Panic ''PMM: attempted to double free'')" using e addr(1) by simp
  moreover have "free_page 0x3000 demo_pmm = Inl (Panic ''PMM: attempted to free an uninit page'')"
    using e addr(2) by simp
  moreover have "free_page 0x4000 demo_pmm =
      Inl (Panic ''PMM: attempted to get info on out of bounds page that was meant to be in range'')"
    using e unfolding tab(1) by (simp add: tab(2,3))
  moreover have "free_page 0x8000 demo_pmm = Inr demo_pmm" using e unfolding tab(1) by (simp add: tab(2,3))
  ultimately show ?thesis using demo_pmm_inv by blast
qed

text \<open>
  C5: From a memory map as the boot protocol promises it, with a usable region, set-up ends in
  a state of the allocator with no frame in use, and every frame it will ever hand out lies in
  a usable region, behind that region's own frame table.
\<close>

theorem setup_pmm_correct:
  assumes "limine_memmap_ok off memmap" and "\<exists>e \<in> set memmap. pmm_usable e"
  shows "\<exists>s. setup_pmm off memmap m = Inr s \<and> pmm_inv s \<and> pmm_live s = {}
    \<and> (\<forall>(i, k) \<in> page_locs s. \<exists>e \<in> set memmap. pmm_usable e
         \<and> unat (me_base e) < unat (page_addr s (i, k))
         \<and> unat (ct_addr (child_tables s ! i) - off) + 24 + 4 * length (ct_pages (child_tables s ! i))
             \<le> unat (page_addr s (i, k))
         \<and> unat (page_addr s (i, k)) + 4096 \<le> unat (me_base e) + unat (me_length e))"
  using setup_pmm_rel [OF assms, of m] unfolding pmm_live_def by (elim exE conjE) (auto intro!: exI)

definition demo_memmap :: "limine_memmap_entry list" where
  "demo_memmap = [\<lparr>me_base = 0, me_length = 0x1000, me_type = LIMINE_MEMMAP_RESERVED\<rparr>,
     \<lparr>me_base = 0x1000, me_length = 0x20000, me_type = LIMINE_MEMMAP_USABLE\<rparr>]"

theorem setup_pmm_correct_witness:
  "limine_memmap_ok 0xFFFF800000000000 demo_memmap \<and> (\<exists>e \<in> set demo_memmap. pmm_usable e)
   \<and> (\<exists>s. setup_pmm 0xFFFF800000000000 demo_memmap (\<lambda>_. 0) = Inr s \<and> pmm_inv s \<and> pmm_live s = {})"
proof -
  have ok: "limine_memmap_ok 0xFFFF800000000000 demo_memmap"
    by (simp add: limine_memmap_ok_def demo_memmap_def)
  have ex: "\<exists>e \<in> set demo_memmap. pmm_usable e"
    by (simp add: demo_memmap_def pmm_usable_def PAGE_SIZE_def)
  from setup_pmm_correct [OF ok ex, of "\<lambda>_. 0"] ok ex show ?thesis by blast
qed

end
