(* ===== verification/Vma.thy ===== *)
theory Vma
  imports Kernel_Prelude
begin

text \<open>
  The virtual address allocator, \<open>kernel/src/memory/vma.c\<close>. A page map keeps its free and its
  used ranges in two red-black trees ordered by \<open>vmm_cmp_range\<close>; a tree is modelled by its
  in-order sequence, on which searching and inserting compare with the elements in order as
  the descent does. The locale \<open>range_tree\<close> is the contract of such a tree, with the lemmas
  on carving a piece out of one tree into another proved in it; it is interpreted on the
  sequences. \<open>vma_inv\<close> says that free and used ranges never overlap; allocating and freeing
  move exactly the bytes of the request between the two. The nodes come from the kernel heap,
  whose failure is a panic of its own and not modelled here.
\<close>

section \<open>Ranges and trees\<close>

record vmm_page_range =
  vaddr :: u64
  rsize :: u64

definition vmm_cmp_range :: "vmm_page_range \<Rightarrow> vmm_page_range \<Rightarrow> int" where
  "vmm_cmp_range left right =
     (if vaddr right \<le> vaddr left \<and> vaddr left < vaddr right + rsize right then 0
      else if vaddr left < vaddr right then -1
      else if vaddr right < vaddr left then 1
      else 0)"

type_synonym range_tree = "vmm_page_range list"

fun RB_INSERT :: "range_tree \<Rightarrow> vmm_page_range \<Rightarrow> range_tree" where
  "RB_INSERT [] elm = [elm]"
| "RB_INSERT (tmp # ts) elm =
     (if vmm_cmp_range elm tmp < 0 then elm # tmp # ts
      else if 0 < vmm_cmp_range elm tmp then tmp # RB_INSERT ts elm
      else tmp # ts)"

fun RB_FIND :: "range_tree \<Rightarrow> vmm_page_range \<Rightarrow> vmm_page_range option" where
  "RB_FIND [] elm = None"
| "RB_FIND (tmp # ts) elm =
     (if vmm_cmp_range elm tmp < 0 then None
      else if 0 < vmm_cmp_range elm tmp then RB_FIND ts elm
      else Some tmp)"

definition RB_REMOVE :: "range_tree \<Rightarrow> vmm_page_range \<Rightarrow> range_tree" where
  "RB_REMOVE ts elm = remove1 elm ts"

record pagemap =
  top_level :: u64
  free_ranges :: range_tree
  used_ranges :: range_tree

definition VALLOC_RANGE_START :: u64 where "VALLOC_RANGE_START = 0xFFFFA00000000000"
definition VALLOC_RANGE_END :: u64 where "VALLOC_RANGE_END = 0xFFFFE00000000000"

section \<open>Operations\<close>

definition valloc_init :: "pagemap \<Rightarrow> pagemap" where
  "valloc_init kernel_pagemap = kernel_pagemap\<lparr>free_ranges := RB_INSERT (free_ranges kernel_pagemap)
     \<lparr>vaddr = VALLOC_RANGE_START, rsize = VALLOC_RANGE_END - VALLOC_RANGE_START\<rparr>\<rparr>"

text \<open>The overloads of \<open>valloc\<close> differ in their arguments; zero is failure.\<close>

definition valloc :: "pagemap \<Rightarrow> u64 \<Rightarrow> u64 \<times> pagemap" where
  "valloc pm size0 =
     (if size0 = 0 then (0, pm)
      else
        (let sz = ALIGN_UP size0 PAGE_SIZE
         in case find (\<lambda>r. sz \<le> rsize r) (free_ranges pm) of
              None \<Rightarrow> (0, pm)
            | Some rng \<Rightarrow>
                (let free1 = RB_REMOVE (free_ranges pm) rng
                 in if rsize rng = sz
                    then (vaddr rng, pm\<lparr>free_ranges := free1,
                                         used_ranges := RB_INSERT (used_ranges pm) rng\<rparr>)
                    else
                      (let split_range = \<lparr>vaddr = vaddr rng, rsize = sz\<rparr>;
                           rest = \<lparr>vaddr = vaddr rng + sz, rsize = rsize rng - sz\<rparr>
                       in (vaddr split_range,
                           pm\<lparr>free_ranges := RB_INSERT free1 rest,
                              used_ranges := RB_INSERT (used_ranges pm) split_range\<rparr>)))))"

text \<open>
  Taking \<open>[addr, addr + sz)\<close> out of the range \<open>r\<close> of one tree into the other: the code writes
  it twice, in the fixed \<open>valloc\<close> (free to used) and in \<open>vfree\<close> (used to free).
\<close>

definition move_range :: "range_tree \<Rightarrow> range_tree \<Rightarrow> vmm_page_range \<Rightarrow> u64 \<Rightarrow> u64 \<Rightarrow> range_tree \<times> range_tree" where
  "move_range src dst r addr sz =
     (let src1 = RB_REMOVE src r
      in if addr = vaddr r then
           (if sz = rsize r then (src1, RB_INSERT dst r)
            else (RB_INSERT src1 \<lparr>vaddr = vaddr r + sz, rsize = rsize r - sz\<rparr>,
                  RB_INSERT dst \<lparr>vaddr = vaddr r, rsize = sz\<rparr>))
         else
           (let pre_size = addr - vaddr r;
                post_size = rsize r - pre_size - sz;
                src2 = (if 0 < pre_size then RB_INSERT src1 (r\<lparr>rsize := pre_size\<rparr>) else src1);
                src3 = (if 0 < post_size
                        then RB_INSERT src2 \<lparr>vaddr = addr + sz, rsize = post_size\<rparr> else src2)
            in (src3, RB_INSERT dst \<lparr>vaddr = addr, rsize = sz\<rparr>)))"

definition valloc_fixed :: "pagemap \<Rightarrow> u64 \<Rightarrow> u64 \<Rightarrow> bool \<Rightarrow> u64 \<times> pagemap" where
  "valloc_fixed pm size0 fixed_addr0 noreplace =
     (if \<not> IS_ALIGNED fixed_addr0 PAGE_SIZE then (0, pm)
      else
        (let sz0 = ALIGN_UP size0 PAGE_SIZE;
             uresult = RB_FIND (used_ranges pm) \<lparr>vaddr = fixed_addr0, rsize = 0\<rparr>
         in if noreplace \<and> uresult \<noteq> None then (0, pm)
            else if (case uresult of Some u \<Rightarrow> sz0 \<le> rsize u | None \<Rightarrow> False) then (fixed_addr0, pm)
            else
              (let fixed_addr = (case uresult of Some u \<Rightarrow> fixed_addr0 + rsize u | None \<Rightarrow> fixed_addr0);
                   sz = (case uresult of Some u \<Rightarrow> sz0 - rsize u | None \<Rightarrow> sz0)
               in case RB_FIND (free_ranges pm) \<lparr>vaddr = fixed_addr, rsize = 0\<rparr> of
                    None \<Rightarrow> (0, pm)
                  | Some fresult \<Rightarrow>
                      (case move_range (free_ranges pm) (used_ranges pm) fresult fixed_addr sz of
                         (free', used') \<Rightarrow> (fixed_addr, pm\<lparr>free_ranges := free', used_ranges := used'\<rparr>)))))"

text \<open>\<open>vfree\<close> returns 0 on refusal and which of its three cases it took otherwise.\<close>

definition vfree :: "pagemap \<Rightarrow> u64 \<Rightarrow> u64 \<Rightarrow> u64 \<times> pagemap" where
  "vfree pm va size0 =
     (if \<not> IS_ALIGNED va PAGE_SIZE then (0, pm)
      else
        (let sz = ALIGN_UP size0 PAGE_SIZE
         in case RB_FIND (used_ranges pm) \<lparr>vaddr = va, rsize = 0\<rparr> of
              None \<Rightarrow> (0, pm)
            | Some uresult \<Rightarrow>
                if vaddr uresult + rsize uresult < va + sz then (0, pm)
                else
                  (case move_range (used_ranges pm) (free_ranges pm) uresult va sz of
                     (used', free') \<Rightarrow>
                       (if vaddr uresult = va then (if rsize uresult = sz then 1 else 2) else 3,
                        pm\<lparr>free_ranges := free', used_ranges := used'\<rparr>))))"

section \<open>The contract of a tree of ranges\<close>

definition bytes_in :: "vmm_page_range \<Rightarrow> nat set" where
  "bytes_in r = {unat (vaddr r) ..< unat (vaddr r) + unat (rsize r)}"

definition range_ok :: "vmm_page_range \<Rightarrow> bool" where
  "range_ok r \<longleftrightarrow> page_aligned (vaddr r) \<and> page_aligned (rsize r) \<and> 0 < unat (rsize r)
     \<and> unat (vaddr r) + unat (rsize r) < 2 ^ 64"

locale range_tree =
  fixes ins :: "'t \<Rightarrow> vmm_page_range \<Rightarrow> 't"
    and del :: "'t \<Rightarrow> vmm_page_range \<Rightarrow> 't"
    and find_at :: "'t \<Rightarrow> u64 \<Rightarrow> vmm_page_range option"
    and elems :: "'t \<Rightarrow> vmm_page_range set"
    and ok :: "'t \<Rightarrow> bool"
  assumes elems_ok: "ok t \<Longrightarrow> r \<in> elems t \<Longrightarrow> range_ok r"
    and elems_disjoint: "ok t \<Longrightarrow> r \<in> elems t \<Longrightarrow> r' \<in> elems t \<Longrightarrow> r \<noteq> r' \<Longrightarrow>
      bytes_in r \<inter> bytes_in r' = {}"
    and ins_ok: "ok t \<Longrightarrow> range_ok r \<Longrightarrow> bytes_in r \<inter> (\<Union>x \<in> elems t. bytes_in x) = {} \<Longrightarrow>
      ok (ins t r) \<and> elems (ins t r) = insert r (elems t)"
    and del_ok: "ok t \<Longrightarrow> r \<in> elems t \<Longrightarrow> ok (del t r) \<and> elems (del t r) = elems t - {r}"
    and find_at: "ok t \<Longrightarrow> find_at t a =
      (if \<exists>r \<in> elems t. unat a \<in> bytes_in r then Some (THE r. r \<in> elems t \<and> unat a \<in> bytes_in r) else None)"
begin

definition cover :: "'t \<Rightarrow> nat set" where
  "cover t = (\<Union>r \<in> elems t. bytes_in r)"

lemma cover_ins:
  assumes "ok t" and "range_ok r" and "bytes_in r \<inter> cover t = {}"
  shows "ok (ins t r) \<and> cover (ins t r) = bytes_in r \<union> cover t"
  using ins_ok [of t r] assms by (auto simp: cover_def)

lemma cover_del:
  assumes "ok t" and "r \<in> elems t"
  shows "ok (del t r) \<and> cover (del t r) = cover t - bytes_in r"
  using del_ok [OF assms] elems_disjoint [OF assms] by (auto simp: cover_def)

lemma find_at_Some:
  assumes "ok t" and "find_at t a = Some r"
  shows "r \<in> elems t \<and> unat a \<in> bytes_in r"
proof -
  obtain r' where r': "r' \<in> elems t" "unat a \<in> bytes_in r'" using assms find_at [of t a] by (auto split: if_splits)
  have "(THE x. x \<in> elems t \<and> unat a \<in> bytes_in x) = r'"
    using r' elems_disjoint [OF assms(1)] by (intro the_equality) blast+
  then show ?thesis using r' assms find_at [of t a] by (auto split: if_splits)
qed

lemma find_at_None: "ok t \<Longrightarrow> find_at t a = None \<Longrightarrow> unat a \<notin> cover t"
  using find_at [of t a] by (auto simp: cover_def split: if_splits)

text \<open>Replacing a range of \<open>src\<close> by the parts around a piece that goes to \<open>dst\<close>.\<close>

lemma carve:
  assumes ok: "ok src" "ok dst" and dis: "cover src \<inter> cover dst = {}" and r: "r \<in> elems src"
    and p: "range_ok p" "bytes_in p \<subseteq> bytes_in r"
  shows "ok (ins dst p)" and "cover (ins dst p) = cover dst \<union> bytes_in p"
    and "ok (del src r)" and "cover (del src r) = cover src - bytes_in r"
    and "\<And>a. range_ok a \<Longrightarrow> bytes_in a \<subseteq> bytes_in r \<Longrightarrow>
      ok (ins (del src r) a) \<and> cover (ins (del src r) a) = (cover src - bytes_in r) \<union> bytes_in a"
    and "\<And>a b. range_ok a \<Longrightarrow> bytes_in a \<subseteq> bytes_in r \<Longrightarrow> range_ok b \<Longrightarrow> bytes_in b \<subseteq> bytes_in r \<Longrightarrow>
      bytes_in a \<inter> bytes_in b = {} \<Longrightarrow> ok (ins (ins (del src r) a) b)
        \<and> cover (ins (ins (del src r) a) b) = (cover src - bytes_in r) \<union> bytes_in a \<union> bytes_in b"
    and "p \<in> elems (ins dst p)"
proof -
  have sub: "bytes_in r \<subseteq> cover src" using r by (auto simp: cover_def)
  show "ok (ins dst p)" "cover (ins dst p) = cover dst \<union> bytes_in p"
    using cover_ins [OF ok(2) p(1)] sub p(2) dis by blast+
  have "bytes_in p \<inter> (\<Union>x \<in> elems dst. bytes_in x) = {}" using sub p(2) dis unfolding cover_def by blast
  from ins_ok [OF ok(2) p(1) this] show "p \<in> elems (ins dst p)" by simp
  show d: "ok (del src r)" "cover (del src r) = cover src - bytes_in r"
    using cover_del [OF ok(1) r] by simp_all
  show one: "ok (ins (del src r) a) \<and> cover (ins (del src r) a) = (cover src - bytes_in r) \<union> bytes_in a"
    if "range_ok a" "bytes_in a \<subseteq> bytes_in r" for a
    using cover_ins [OF d(1) that(1)] that(2) d(2) by blast
  show "ok (ins (ins (del src r) a) b)
      \<and> cover (ins (ins (del src r) a) b) = (cover src - bytes_in r) \<union> bytes_in a \<union> bytes_in b"
    if "range_ok a" "bytes_in a \<subseteq> bytes_in r" "range_ok b" "bytes_in b \<subseteq> bytes_in r"
      "bytes_in a \<inter> bytes_in b = {}" for a b
    using cover_ins [of "ins (del src r) a" b] one [OF that(1,2)] that(3-5) by blast
qed

end

section \<open>The sequences implement the contract\<close>

definition tree_ok :: "range_tree \<Rightarrow> bool" where
  "tree_ok ts \<longleftrightarrow> (\<forall>r \<in> set ts. range_ok r)
     \<and> sorted_wrt (\<lambda>a b. unat (vaddr a) + unat (rsize a) \<le> unat (vaddr b)) ts"

lemma unat_range_end:
  "range_ok r \<Longrightarrow> unat (vaddr r + rsize r) = unat (vaddr r) + unat (rsize r)"
  by (rule unat_add_no_wrap) (simp add: range_ok_def)

lemma cmp_range_cases:
  assumes "range_ok r"
  shows "vmm_cmp_range x r = (if unat (vaddr x) \<in> bytes_in r then 0
    else if unat (vaddr x) < unat (vaddr r) then -1 else 1)"
  using assms unat_range_end [OF assms]
  by (auto simp: vmm_cmp_range_def bytes_in_def word_le_nat_alt word_less_nat_alt range_ok_def)

lemma tree_ok_Cons:
  "tree_ok (t # ts) \<longleftrightarrow> range_ok t \<and> tree_ok ts
     \<and> (\<forall>r \<in> set ts. unat (vaddr t) + unat (rsize t) \<le> unat (vaddr r))"
  by (auto simp: tree_ok_def)

lemma tree_disjoint:
  assumes "tree_ok ts" and "r \<in> set ts" and "r' \<in> set ts" and "r \<noteq> r'"
  shows "bytes_in r \<inter> bytes_in r' = {}"
  using assms by (induction ts) (auto simp: tree_ok_Cons bytes_in_def)

lemma range_ok_start: "range_ok r \<Longrightarrow> unat (vaddr r) \<in> bytes_in r"
  by (simp add: bytes_in_def range_ok_def)

lemma RB_INSERT_ok:
  assumes "tree_ok ts" and "range_ok r" and "bytes_in r \<inter> (\<Union>x \<in> set ts. bytes_in x) = {}"
  shows "tree_ok (RB_INSERT ts r) \<and> set (RB_INSERT ts r) = insert r (set ts)"
  using assms
proof (induction ts)
  case Nil
  then show ?case by (simp add: tree_ok_def)
next
  case (Cons t ts)
  have t: "range_ok t" "tree_ok ts" and dis: "bytes_in r \<inter> bytes_in t = {}"
    using Cons.prems by (auto simp: tree_ok_Cons)
  have nin: "unat (vaddr r) \<notin> bytes_in t" using range_ok_start [OF Cons.prems(2)] dis by blast
  have IH: "tree_ok (RB_INSERT ts r) \<and> set (RB_INSERT ts r) = insert r (set ts)"
    using Cons t(2) by auto
  show ?case
  proof (cases "unat (vaddr r) < unat (vaddr t)")
    case True
    have "unat (vaddr t) \<notin> bytes_in r" using range_ok_start [OF t(1)] dis by blast
    then have "unat (vaddr r) + unat (rsize r) \<le> unat (vaddr t)" using True by (auto simp: bytes_in_def)
    then show ?thesis
      using True nin Cons.prems by (auto simp: cmp_range_cases [OF t(1)] tree_ok_Cons intro: order_trans)
  next
    case False
    then have "unat (vaddr t) + unat (rsize t) \<le> unat (vaddr r)" using nin by (auto simp: bytes_in_def)
    then show ?thesis
      using False nin IH Cons.prems(1) by (auto simp: cmp_range_cases [OF t(1)] tree_ok_Cons)
  qed
qed

lemma tree_ok_distinct: "tree_ok ts \<Longrightarrow> distinct ts"
proof (induction ts)
  case (Cons t ts)
  then have "t \<notin> set ts" by (auto simp: tree_ok_Cons range_ok_def)
  then show ?case using Cons by (simp add: tree_ok_Cons)
qed simp

lemma RB_REMOVE_ok:
  assumes "tree_ok ts" and "r \<in> set ts"
  shows "tree_ok (RB_REMOVE ts r) \<and> set (RB_REMOVE ts r) = set ts - {r}"
proof -
  have "sorted_wrt P (remove1 r ts)" if "sorted_wrt P ts" for P :: "vmm_page_range \<Rightarrow> vmm_page_range \<Rightarrow> bool"
    using that by (induction ts) (auto dest: set_remove1_subset [THEN subsetD])
  moreover have "set (remove1 r ts) = set ts - {r}"
    using tree_ok_distinct [OF assms(1)] by (rule set_remove1_eq)
  ultimately show ?thesis using assms(1) by (auto simp: RB_REMOVE_def tree_ok_def)
qed

lemma RB_FIND_at:
  assumes "tree_ok ts"
  shows "RB_FIND ts \<lparr>vaddr = a, rsize = z\<rparr> =
    (if \<exists>r \<in> set ts. unat a \<in> bytes_in r then Some (THE r. r \<in> set ts \<and> unat a \<in> bytes_in r) else None)"
proof -
  have "(case RB_FIND ts \<lparr>vaddr = a, rsize = z\<rparr> of
      None \<Rightarrow> \<forall>r \<in> set ts. unat a \<notin> bytes_in r | Some r \<Rightarrow> r \<in> set ts \<and> unat a \<in> bytes_in r)"
    using assms
  proof (induction ts)
    case (Cons t ts)
    then have t: "range_ok t" "tree_ok ts" by (auto simp: tree_ok_Cons)
    show ?case
    proof (cases "unat a \<in> bytes_in t")
      case False
      then show ?thesis
        using Cons t by (auto simp: cmp_range_cases [OF t(1)] tree_ok_Cons bytes_in_def split: option.splits)
    qed (simp add: cmp_range_cases [OF t(1)])
  qed simp
  moreover have "(THE r. r \<in> set ts \<and> unat a \<in> bytes_in r) = r'" if "r' \<in> set ts" "unat a \<in> bytes_in r'" for r'
    using that tree_disjoint [OF assms] by (intro the_equality) blast+
  ultimately show ?thesis by (auto split: option.splits)
qed

interpretation rt: range_tree RB_INSERT RB_REMOVE "\<lambda>t a. RB_FIND t \<lparr>vaddr = a, rsize = 0\<rparr>" set tree_ok
proof
  fix t r r' a
  show "range_ok r" if "tree_ok t" "r \<in> set t" using that by (simp add: tree_ok_def)
  show "bytes_in r \<inter> bytes_in r' = {}" if "tree_ok t" "r \<in> set t" "r' \<in> set t" "r \<noteq> r'"
    using tree_disjoint that .
  show "tree_ok (RB_INSERT t r) \<and> set (RB_INSERT t r) = insert r (set t)"
    if "tree_ok t" "range_ok r" "bytes_in r \<inter> (\<Union>x \<in> set t. bytes_in x) = {}"
    using RB_INSERT_ok that .
  show "tree_ok (RB_REMOVE t r) \<and> set (RB_REMOVE t r) = set t - {r}" if "tree_ok t" "r \<in> set t"
    using RB_REMOVE_ok that .
  show "RB_FIND t \<lparr>vaddr = a, rsize = 0\<rparr> = (if \<exists>r \<in> set t. unat a \<in> bytes_in r
      then Some (THE r. r \<in> set t \<and> unat a \<in> bytes_in r) else None)" if "tree_ok t"
    using RB_FIND_at that .
qed

section \<open>Moving ranges\<close>

definition vma_inv :: "pagemap \<Rightarrow> bool" where
  "vma_inv pm \<longleftrightarrow> tree_ok (free_ranges pm) \<and> tree_ok (used_ranges pm)
     \<and> rt.cover (free_ranges pm) \<inter> rt.cover (used_ranges pm) = {}"

text \<open>A piece of a range, and the parts before and after it.\<close>

lemma range_piece:
  assumes r: "range_ok r" and a: "page_aligned a" and z: "page_aligned z" "0 < unat z"
    and lo: "unat (vaddr r) \<le> unat a" and hi: "unat a + unat z \<le> unat (vaddr r) + unat (rsize r)"
  shows "range_ok \<lparr>vaddr = a, rsize = z\<rparr>"
    and "bytes_in \<lparr>vaddr = a, rsize = z\<rparr> = {unat a ..< unat a + unat z}"
    and "unat (a - vaddr r) = unat a - unat (vaddr r)"
    and "unat (rsize r - (a - vaddr r) - z) = unat (vaddr r) + unat (rsize r) - (unat a + unat z)"
    and "unat (a + z) = unat a + unat z"
proof -
  have top: "unat (vaddr r) + unat (rsize r) < 2 ^ 64" using r by (simp add: range_ok_def)
  show "range_ok \<lparr>vaddr = a, rsize = z\<rparr>" using assms by (simp add: range_ok_def)
  show "bytes_in \<lparr>vaddr = a, rsize = z\<rparr> = {unat a ..< unat a + unat z}" by (simp add: bytes_in_def)
  show d: "unat (a - vaddr r) = unat a - unat (vaddr r)" using lo by (simp add: unat_sub word_le_nat_alt)
  have "unat (rsize r - (a - vaddr r)) = unat (rsize r) - (unat a - unat (vaddr r))"
    using d lo hi by (simp add: unat_sub word_le_nat_alt)
  then show "unat (rsize r - (a - vaddr r) - z) = unat (vaddr r) + unat (rsize r) - (unat a + unat z)"
    using d lo hi by (subst unat_sub) (simp_all add: word_le_nat_alt)
  show "unat (a + z) = unat a + unat z" by (rule unat_add_no_wrap) (use hi top in simp)
qed

lemma move_range_ok:
  assumes ok: "tree_ok src" "tree_ok dst" and dis: "rt.cover src \<inter> rt.cover dst = {}" and r: "r \<in> set src"
    and a: "page_aligned a" and z: "page_aligned z" "0 < unat z"
    and lo: "unat (vaddr r) \<le> unat a" and hi: "unat a + unat z \<le> unat (vaddr r) + unat (rsize r)"
    and mv: "move_range src dst r a z = (src', dst')"
  shows "tree_ok src' \<and> tree_ok dst' \<and> rt.cover src' = rt.cover src - {unat a ..< unat a + unat z}
    \<and> rt.cover dst' = rt.cover dst \<union> {unat a ..< unat a + unat z}
    \<and> \<lparr>vaddr = a, rsize = z\<rparr> \<in> set dst'"
proof -
  have rok: "range_ok r" using ok(1) r by (simp add: tree_ok_def)
  note pc = range_piece [OF rok a z lo hi]
  have br: "bytes_in r = {unat (vaddr r) ..< unat (vaddr r) + unat (rsize r)}" by (simp add: bytes_in_def)
  have sub: "bytes_in r \<subseteq> rt.cover src" using r by (auto simp: rt.cover_def)
  have inside: "bytes_in \<lparr>vaddr = a, rsize = z\<rparr> \<subseteq> bytes_in r" using lo hi by (auto simp: pc(2) br)
  note cv = rt.carve [OF ok dis r pc(1) inside]
  have aln: "page_aligned (a - vaddr r)" "page_aligned (rsize r - (a - vaddr r) - z)" "page_aligned (a + z)"
    using rok a z unfolding pc(3-5) range_ok_def
    by (auto simp: mod_eq_0_iff_dvd intro!: dvd_diff_nat dvd_add)
  define post where "post = \<lparr>vaddr = a + z, rsize = rsize r - (a - vaddr r) - z\<rparr>"
  define pre where "pre = \<lparr>vaddr = vaddr r, rsize = a - vaddr r\<rparr>"
  have pre: "range_ok pre" "bytes_in pre = {unat (vaddr r) ..< unat a}" if "a \<noteq> vaddr r"
  proof -
    have "unat (vaddr r) \<noteq> unat a" using that by (simp add: word_unat_eq_iff)
    then show "range_ok pre" "bytes_in pre = {unat (vaddr r) ..< unat a}"
      using rok aln(1) lo hi z(2) by (auto simp: pre_def range_ok_def bytes_in_def pc(3))
  qed
  have post: "range_ok post" "bytes_in post = {unat a + unat z ..< unat (vaddr r) + unat (rsize r)}"
    if "rsize r - (a - vaddr r) - z \<noteq> 0"
  proof -
    have "0 < unat (rsize r - (a - vaddr r) - z)" using that by (simp add: unat_gt_0)
    then show "range_ok post" "bytes_in post = {unat a + unat z ..< unat (vaddr r) + unat (rsize r)}"
      using rok aln(2,3) hi by (auto simp: post_def range_ok_def bytes_in_def pc(4,5))
  qed
  have post0: "unat a + unat z = unat (vaddr r) + unat (rsize r)" if "rsize r - (a - vaddr r) - z = 0"
    using pc(4) hi that by simp
  show ?thesis
  proof (cases "a = vaddr r")
    case True
    show ?thesis
    proof (cases "z = rsize r")
      case eq: True
      then have piece: "\<lparr>vaddr = a, rsize = z\<rparr> = r" using True by simp
      have "src' = RB_REMOVE src r" "dst' = RB_INSERT dst r"
        using mv True eq by (simp_all add: move_range_def Let_def)
      then show ?thesis unfolding piece using cv(1-4,7) [unfolded piece] br True eq by simp
    next
      case False
      have nz: "rsize r - (a - vaddr r) - z \<noteq> 0" using True False by auto
      have "move_range src dst r a z = (RB_INSERT (RB_REMOVE src r) post, RB_INSERT dst \<lparr>vaddr = a, rsize = z\<rparr>)"
        using True False by (simp add: move_range_def Let_def post_def)
      moreover have postb: "bytes_in post \<subseteq> bytes_in r" using post(2) [OF nz] lo by (auto simp: br)
      moreover have "rt.cover src - bytes_in r \<union> bytes_in post = rt.cover src - {unat a ..< unat a + unat z}"
        using post(2) [OF nz] True sub hi z(2) by (auto simp: br)
      ultimately show ?thesis
        using mv cv(1,2,7) cv(5) [OF post(1) [OF nz] postb] by (simp add: pc(2))
    qed
  next
    case False
    note pre = pre [OF False]
    have pos: "0 < a - vaddr r" using False by (simp add: word_gt_0)
    have upd: "r\<lparr>rsize := a - vaddr r\<rparr> = pre" by (rule vmm_page_range.equality) (simp_all add: pre_def)
    have preb: "bytes_in pre \<subseteq> bytes_in r" using pre(2) hi by (auto simp: br)
    show ?thesis
    proof (cases "rsize r - (a - vaddr r) - z = 0")
      case True
      have "move_range src dst r a z = (RB_INSERT (RB_REMOVE src r) pre, RB_INSERT dst \<lparr>vaddr = a, rsize = z\<rparr>)"
        using True False pos by (simp add: move_range_def Let_def upd)
      moreover have "rt.cover src - bytes_in r \<union> bytes_in pre = rt.cover src - {unat a ..< unat a + unat z}"
        using pre(2) post0 [OF True] sub lo z(2) by (auto simp: br)
      ultimately show ?thesis using mv cv(1,2,7) cv(5) [OF pre(1) preb] by (simp add: pc(2))
    next
      case nz: False
      note post = post [OF nz]
      have postb: "bytes_in post \<subseteq> bytes_in r" "bytes_in pre \<inter> bytes_in post = {}"
        using post(2) pre(2) lo by (auto simp: br)
      have "move_range src dst r a z = (RB_INSERT (RB_INSERT (RB_REMOVE src r) pre) post,
          RB_INSERT dst \<lparr>vaddr = a, rsize = z\<rparr>)"
        using nz False pos by (simp add: move_range_def Let_def upd post_def word_gt_0)
      moreover have "rt.cover src - bytes_in r \<union> bytes_in pre \<union> bytes_in post
          = rt.cover src - {unat a ..< unat a + unat z}"
        using pre(2) post(2) sub lo hi z(2) by (auto simp: br)
      ultimately show ?thesis
        using mv cv(1,2,7) cv(6) [OF pre(1) preb post(1) postb] by (simp add: pc(2))
    qed
  qed
qed

section \<open>Allocation and release move exactly the request\<close>

lemma ALIGN_UP_request:
  assumes "0 < z" and "unat z \<le> 2 ^ 64 - 4096"
  shows "page_aligned (ALIGN_UP z PAGE_SIZE)" and "0 < unat (ALIGN_UP z PAGE_SIZE)"
    and "unat z \<le> unat (ALIGN_UP z PAGE_SIZE)" and "unat (ALIGN_UP z PAGE_SIZE) \<le> unat z + 4095"
proof -
  have b: "unat z + 4095 < 2 ^ 64" using assms(2) by simp
  show "page_aligned (ALIGN_UP z PAGE_SIZE)" by (rule ALIGN_UP_page_aligned)
  show "unat z \<le> unat (ALIGN_UP z PAGE_SIZE)" and "unat (ALIGN_UP z PAGE_SIZE) \<le> unat z + 4095"
    using ALIGN_UP_ge [OF b] .
  then show "0 < unat (ALIGN_UP z PAGE_SIZE)" using assms(1) by (simp add: word_less_nat_alt)
qed

lemma valloc_none:
  "z \<noteq> 0 \<Longrightarrow> find (\<lambda>r. ALIGN_UP z PAGE_SIZE \<le> rsize r) (free_ranges pm) = None \<Longrightarrow> valloc pm z = (0, pm)"
  by (simp add: valloc_def Let_def)

lemma valloc_move:
  assumes "z \<noteq> 0" and "find (\<lambda>r. ALIGN_UP z PAGE_SIZE \<le> rsize r) (free_ranges pm) = Some r"
    and "move_range (free_ranges pm) (used_ranges pm) r (vaddr r) (ALIGN_UP z PAGE_SIZE) = (f, u)"
  shows "valloc pm z = (vaddr r, pm\<lparr>free_ranges := f, used_ranges := u\<rparr>)"
  using assms by (auto simp: valloc_def move_range_def Let_def)

text \<open>
  \<open>vma_moved free used a n free' used'\<close>: the bytes \<open>[a, a + n)\<close>, all free before, are used now.
\<close>

definition vma_moved :: "range_tree \<Rightarrow> range_tree \<Rightarrow> u64 \<Rightarrow> nat \<Rightarrow> range_tree \<Rightarrow> range_tree \<Rightarrow> bool" where
  "vma_moved src dst a n src' dst' \<longleftrightarrow> {unat a ..< unat a + n} \<subseteq> rt.cover src
     \<and> rt.cover src' = rt.cover src - {unat a ..< unat a + n}
     \<and> rt.cover dst' = rt.cover dst \<union> {unat a ..< unat a + n}"

lemma cover_element: "r \<in> set ts \<Longrightarrow> bytes_in r \<subseteq> rt.cover ts"
  by (auto simp: rt.cover_def)

lemma move_range_moved:
  assumes "tree_ok src" "tree_ok dst" and "rt.cover src \<inter> rt.cover dst = {}" and "r \<in> set src"
    and "page_aligned a" and "page_aligned z" "0 < unat z"
    and "unat (vaddr r) \<le> unat a" and "unat a + unat z \<le> unat (vaddr r) + unat (rsize r)"
    and "move_range src dst r a z = (src', dst')"
  shows "vma_moved src dst a (unat z) src' dst' \<and> tree_ok src' \<and> tree_ok dst'
    \<and> rt.cover src' \<inter> rt.cover dst' = {} \<and> \<lparr>vaddr = a, rsize = z\<rparr> \<in> set dst'"
proof -
  have "{unat a ..< unat a + unat z} \<subseteq> bytes_in r" using assms(8,9) by (auto simp: bytes_in_def)
  then have "{unat a ..< unat a + unat z} \<subseteq> rt.cover src" using cover_element [OF assms(4)] by blast
  then show ?thesis using move_range_ok [OF assms] assms(3) by (auto simp: vma_moved_def)
qed

lemma valloc_outcome:
  assumes inv: "vma_inv pm" and z: "0 < z" "unat z \<le> 2 ^ 64 - 4096"
    and v: "valloc pm z = (a, pm')"
  shows "(find (\<lambda>r. ALIGN_UP z PAGE_SIZE \<le> rsize r) (free_ranges pm) = None \<and> a = 0 \<and> pm' = pm)
    \<or> (page_aligned a \<and> top_level pm' = top_level pm \<and> vma_inv pm'
       \<and> vma_moved (free_ranges pm) (used_ranges pm) a (unat (ALIGN_UP z PAGE_SIZE))
           (free_ranges pm') (used_ranges pm')
       \<and> \<lparr>vaddr = a, rsize = ALIGN_UP z PAGE_SIZE\<rparr> \<in> set (used_ranges pm'))"
proof (cases "find (\<lambda>r. ALIGN_UP z PAGE_SIZE \<le> rsize r) (free_ranges pm)")
  case None
  then show ?thesis using v z(1) valloc_none [OF _ None] by auto
next
  case (Some r)
  let ?z = "ALIGN_UP z PAGE_SIZE"
  note up = ALIGN_UP_request [OF z]
  have r: "r \<in> set (free_ranges pm)" "unat ?z \<le> unat (rsize r)"
    using Some by (auto simp: find_Some_iff word_le_nat_alt)
  have ok: "tree_ok (free_ranges pm)" "tree_ok (used_ranges pm)"
    "rt.cover (free_ranges pm) \<inter> rt.cover (used_ranges pm) = {}" using inv by (simp_all add: vma_inv_def)
  have al: "page_aligned (vaddr r)" using ok(1) r(1) by (simp add: tree_ok_def range_ok_def)
  obtain f u where mv: "move_range (free_ranges pm) (used_ranges pm) r (vaddr r) ?z = (f, u)" by force
  have "z \<noteq> 0" using z(1) by auto
  from valloc_move [OF this Some mv] v have eq: "a = vaddr r" "pm' = pm\<lparr>free_ranges := f, used_ranges := u\<rparr>"
    by simp_all
  from move_range_moved [OF ok r(1) al up(1,2) _ _ mv] r(2) show ?thesis
    by (simp add: eq al vma_inv_def)
qed

lemma range_of_byte:
  assumes "tree_ok ts" and "RB_FIND ts \<lparr>vaddr = a, rsize = 0\<rparr> = Some r"
  shows "r \<in> set ts" and "range_ok r" and "unat (vaddr r) \<le> unat a"
    and "unat a < unat (vaddr r) + unat (rsize r)"
  using rt.find_at_Some [OF assms] assms(1) by (auto simp: bytes_in_def tree_ok_def)

lemma vfree_outcome:
  assumes inv: "vma_inv pm" and va: "page_aligned va" and z: "0 < z" "unat z \<le> 2 ^ 64 - 4096"
    and nw: "unat va + unat (ALIGN_UP z PAGE_SIZE) < 2 ^ 64" and v: "vfree pm va z = (res, pm')"
  shows "if \<exists>r \<in> set (used_ranges pm). {unat va ..< unat va + unat (ALIGN_UP z PAGE_SIZE)} \<subseteq> bytes_in r
    then res \<in> {1, 2, 3} \<and> top_level pm' = top_level pm \<and> vma_inv pm'
      \<and> vma_moved (used_ranges pm) (free_ranges pm) va (unat (ALIGN_UP z PAGE_SIZE))
          (used_ranges pm') (free_ranges pm')
    else res = 0 \<and> pm' = pm"
proof -
  let ?z = "ALIGN_UP z PAGE_SIZE"
  note up = ALIGN_UP_request [OF z]
  have ok: "tree_ok (used_ranges pm)" "tree_ok (free_ranges pm)"
    "rt.cover (used_ranges pm) \<inter> rt.cover (free_ranges pm) = {}" using inv by (auto simp: vma_inv_def)
  have sum: "unat (va + ?z) = unat va + unat ?z" by (rule unat_add_no_wrap) (use nw in simp)
  have first: "unat va \<in> {unat va ..< unat va + unat ?z}" using up(2) by simp
  show ?thesis
  proof (cases "RB_FIND (used_ranges pm) \<lparr>vaddr = va, rsize = 0\<rparr>")
    case None
    then have "unat va \<notin> bytes_in r" if "r \<in> set (used_ranges pm)" for r
      using rt.find_at_None [OF ok(1) None] that cover_element by blast
    then have "\<not> (\<exists>r \<in> set (used_ranges pm). {unat va ..< unat va + unat ?z} \<subseteq> bytes_in r)"
      using first by blast
    then show ?thesis using None v va by (auto simp: vfree_def Let_def IS_ALIGNED_page)
  next
    case (Some u)
    note u = range_of_byte [OF ok(1) Some]
    have only: "(\<exists>r \<in> set (used_ranges pm). {unat va ..< unat va + unat ?z} \<subseteq> bytes_in r)
        \<longleftrightarrow> unat va + unat ?z \<le> unat (vaddr u) + unat (rsize u)"
    proof
      assume "\<exists>r \<in> set (used_ranges pm). {unat va ..< unat va + unat ?z} \<subseteq> bytes_in r"
      then obtain r where r: "r \<in> set (used_ranges pm)" "{unat va ..< unat va + unat ?z} \<subseteq> bytes_in r" by blast
      then have "r = u" using tree_disjoint [OF ok(1) r(1) u(1)] first u(3,4) by (fastforce simp: bytes_in_def)
      then show "unat va + unat ?z \<le> unat (vaddr u) + unat (rsize u)"
        using r(2) up(2) by (simp add: bytes_in_def)
    qed (use u in \<open>auto simp: bytes_in_def\<close>)
    have guard: "vaddr u + rsize u < va + ?z \<longleftrightarrow> \<not> unat va + unat ?z \<le> unat (vaddr u) + unat (rsize u)"
      using unat_range_end [OF u(2)] sum by (simp add: word_less_nat_alt not_le)
    obtain us fr where mv: "move_range (used_ranges pm) (free_ranges pm) u va ?z = (us, fr)" by force
    show ?thesis
    proof (cases "unat va + unat ?z \<le> unat (vaddr u) + unat (rsize u)")
      case True
      then have "res \<in> {1, 2, 3}" "pm' = pm\<lparr>free_ranges := fr, used_ranges := us\<rparr>"
        using v va Some mv guard by (auto simp: vfree_def Let_def IS_ALIGNED_page split: if_splits)
      then show ?thesis
        using move_range_moved [OF ok u(1) va up(1,2) u(3) True mv] only True by (auto simp: vma_inv_def)
    next
      case False
      then show ?thesis using v va Some guard only by (auto simp: vfree_def Let_def IS_ALIGNED_page)
    qed
  qed
qed

section \<open>Properties\<close>

text \<open>A small address space: two free ranges around a used one.\<close>

definition demo_pagemap :: pagemap where
  "demo_pagemap = \<lparr>top_level = 0,
     free_ranges = [\<lparr>vaddr = 0x1000, rsize = 0x1000\<rparr>, \<lparr>vaddr = 0x8000, rsize = 0x8000\<rparr>],
     used_ranges = [\<lparr>vaddr = 0x2000, rsize = 0x3000\<rparr>]\<rparr>"

lemma demo_pagemap_inv: "vma_inv demo_pagemap"
  by (auto simp: vma_inv_def demo_pagemap_def tree_ok_def range_ok_def rt.cover_def bytes_in_def)



text \<open>
  C7: \<open>vfree\<close> releases a page-aligned piece exactly when one used range holds all of it: then
  its bytes, and no others, go from the used to the free ranges, wherever in the range they
  are; otherwise it returns 0 and changes nothing.
\<close>

theorem vfree_correct:
  assumes inv: "vma_inv pm" and va: "IS_ALIGNED va PAGE_SIZE" and z: "0 < z" "unat z \<le> 2 ^ 64 - 4096"
    and nw: "unat va + unat (ALIGN_UP z PAGE_SIZE) < 2 ^ 64" and v: "vfree pm va z = (res, pm')"
  shows "if \<exists>r \<in> set (used_ranges pm). {unat va ..< unat va + unat (ALIGN_UP z PAGE_SIZE)} \<subseteq> bytes_in r
    then res \<in> {1, 2, 3} \<and> top_level pm' = top_level pm \<and> vma_inv pm'
      \<and> vma_moved (used_ranges pm) (free_ranges pm) va (unat (ALIGN_UP z PAGE_SIZE))
          (used_ranges pm') (free_ranges pm')
    else res = 0 \<and> pm' = pm"
  using vfree_outcome [OF inv _ z nw v] va by (simp add: IS_ALIGNED_page)

theorem vfree_correct_witness:
  "vma_inv demo_pagemap \<and> fst (vfree demo_pagemap 0x3000 0x1000) = 3
   \<and> vma_inv (snd (vfree demo_pagemap 0x3000 0x1000))"
proof -
  have up: "ALIGN_UP (0x1000 :: u64) PAGE_SIZE = 0x1000" "IS_ALIGNED (0x3000 :: u64) PAGE_SIZE"
    by (simp_all add: ALIGN_UP_def IS_ALIGNED_def PAGE_SIZE_def)
  obtain res pm' where v: "vfree demo_pagemap 0x3000 0x1000 = (res, pm')" by force
  have "\<exists>r \<in> set (used_ranges demo_pagemap). {unat (0x3000 :: u64) ..< unat (0x3000 :: u64) + unat (0x1000 :: u64)} \<subseteq> bytes_in r"
    by (simp add: demo_pagemap_def bytes_in_def)
  then have "vma_inv pm'"
    using vfree_correct [OF demo_pagemap_inv up(2) _ _ _ v] by (simp add: up)
  moreover have "res = 3"
    using v by (simp add: vfree_def up Let_def demo_pagemap_def vmm_cmp_range_def move_range_def)
  ultimately show ?thesis using demo_pagemap_inv v by simp
qed

text \<open>
  Allocating and then releasing the same size is accepted as the release of a whole range
  (result 1) and gives back exactly the free and the used bytes of before.
\<close>

theorem valloc_vfree_roundtrip:
  assumes inv: "vma_inv pm" and z: "0 < z" "unat z \<le> 2 ^ 64 - 4096"
    and fit: "\<exists>r \<in> set (free_ranges pm). ALIGN_UP z PAGE_SIZE \<le> rsize r"
    and v: "valloc pm z = (a, pm1)" and f: "vfree pm1 a z = (res, pm2)"
  shows "res = 1 \<and> vma_inv pm2 \<and> rt.cover (free_ranges pm2) = rt.cover (free_ranges pm)
    \<and> rt.cover (used_ranges pm2) = rt.cover (used_ranges pm)"
proof -
  let ?z = "ALIGN_UP z PAGE_SIZE" and ?p = "\<lparr>vaddr = a, rsize = ALIGN_UP z PAGE_SIZE\<rparr>"
  have al: "page_aligned a" and inv1: "vma_inv pm1" and p: "?p \<in> set (used_ranges pm1)"
    and mv: "vma_moved (free_ranges pm) (used_ranges pm) a (unat ?z) (free_ranges pm1) (used_ranges pm1)"
    using valloc_outcome [OF inv z v] fit by (auto simp: find_None_iff)
  have ok1: "tree_ok (used_ranges pm1)" using inv1 by (simp add: vma_inv_def)
  have rok: "range_ok ?p" using ok1 p by (simp add: tree_ok_def)
  then have nw: "unat a + unat ?z < 2 ^ 64" by (simp add: range_ok_def)
  have "\<exists>r \<in> set (used_ranges pm1). {unat a ..< unat a + unat ?z} \<subseteq> bytes_in r"
    using p by (intro bexI [of _ ?p]) (simp_all add: bytes_in_def)
  then have out: "vma_inv pm2" "vma_moved (used_ranges pm1) (free_ranges pm1) a (unat ?z)
      (used_ranges pm2) (free_ranges pm2)"
    using vfree_outcome [OF inv1 al z nw f] by simp_all
  have "RB_FIND (used_ranges pm1) \<lparr>vaddr = a, rsize = 0\<rparr> = Some ?p"
  proof -
    have "unat a \<in> bytes_in ?p" using range_ok_start [OF rok] by simp
    moreover from this have "(THE r. r \<in> set (used_ranges pm1) \<and> unat a \<in> bytes_in r) = ?p"
      using tree_disjoint [OF ok1 p] p by (intro the_equality) blast+
    ultimately show ?thesis using rt.find_at [OF ok1, of a] p by auto
  qed
  then have "res = 1"
    using f al unat_range_end [OF rok] by (auto simp: vfree_def Let_def IS_ALIGNED_page split: prod.splits)
  moreover have "rt.cover (free_ranges pm2) = rt.cover (free_ranges pm)"
    using out(2) mv unfolding vma_moved_def by blast
  moreover have "rt.cover (used_ranges pm2) = rt.cover (used_ranges pm)"
    using out(2) mv inv unfolding vma_moved_def vma_inv_def by blast
  ultimately show ?thesis using out(1) by simp
qed

theorem valloc_vfree_roundtrip_witness:
  "vma_inv demo_pagemap \<and> (let (a, pm1) = valloc demo_pagemap 0x2000; (res, pm2) = vfree pm1 a 0x2000
     in res = 1 \<and> vma_inv pm2 \<and> rt.cover (free_ranges pm2) = rt.cover (free_ranges demo_pagemap))"
proof -
  obtain a pm1 where v: "valloc demo_pagemap 0x2000 = (a, pm1)" by force
  obtain res pm2 where f: "vfree pm1 a 0x2000 = (res, pm2)" by force
  have "\<exists>r \<in> set (free_ranges demo_pagemap). ALIGN_UP 0x2000 PAGE_SIZE \<le> rsize r"
    by (simp add: demo_pagemap_def ALIGN_UP_def PAGE_SIZE_def)
  from valloc_vfree_roundtrip [OF demo_pagemap_inv _ _ this v f] v f show ?thesis
    using demo_pagemap_inv by (simp add: Let_def)
qed

text \<open>
  A fixed allocation of a page-aligned place inside one free range takes exactly those
  bytes; one that starts in a used range is refused when replacing is forbidden.
\<close>

theorem valloc_fixed_correct:
  assumes inv: "vma_inv pm" and al: "IS_ALIGNED a PAGE_SIZE" and z: "0 < z" "unat z \<le> 2 ^ 64 - 4096"
  shows "(\<forall>r \<in> set (free_ranges pm).
      {unat a ..< unat a + unat (ALIGN_UP z PAGE_SIZE)} \<subseteq> bytes_in r \<longrightarrow>
        (\<exists>pm'. valloc_fixed pm z a noreplace = (a, pm') \<and> vma_inv pm'
          \<and> vma_moved (free_ranges pm) (used_ranges pm) a (unat (ALIGN_UP z PAGE_SIZE))
              (free_ranges pm') (used_ranges pm')))
    \<and> (noreplace \<longrightarrow> unat a \<in> rt.cover (used_ranges pm) \<longrightarrow> valloc_fixed pm z a noreplace = (0, pm))"
proof (intro conjI ballI impI)
  let ?z = "ALIGN_UP z PAGE_SIZE"
  note up = ALIGN_UP_request [OF z]
  have ok: "tree_ok (free_ranges pm)" "tree_ok (used_ranges pm)"
    "rt.cover (free_ranges pm) \<inter> rt.cover (used_ranges pm) = {}" using inv by (simp_all add: vma_inv_def)
  have pal: "page_aligned a" using al by (simp add: IS_ALIGNED_page)
  { fix r assume r: "r \<in> set (free_ranges pm)" and sub: "{unat a ..< unat a + unat ?z} \<subseteq> bytes_in r"
    have in_r: "unat a \<in> bytes_in r" using sub up(2) by auto
    then have "unat a \<notin> rt.cover (used_ranges pm)" using cover_element [OF r] ok(3) by blast
    then have none: "RB_FIND (used_ranges pm) \<lparr>vaddr = a, rsize = 0\<rparr> = None"
      using rt.find_at_Some [OF ok(2)] cover_element by (cases "RB_FIND (used_ranges pm) \<lparr>vaddr = a, rsize = 0\<rparr>") blast+
    have "(THE r. r \<in> set (free_ranges pm) \<and> unat a \<in> bytes_in r) = r"
      using tree_disjoint [OF ok(1)] r in_r by (intro the_equality) blast+
    then have found: "RB_FIND (free_ranges pm) \<lparr>vaddr = a, rsize = 0\<rparr> = Some r"
      using rt.find_at [OF ok(1), of a] r in_r by auto
    obtain f u where mv: "move_range (free_ranges pm) (used_ranges pm) r a ?z = (f, u)" by force
    have "unat (vaddr r) \<le> unat a" "unat a + unat ?z \<le> unat (vaddr r) + unat (rsize r)"
      using sub up(2) by (auto simp: bytes_in_def)
    from move_range_moved [OF ok r pal up(1,2) this mv]
    show "\<exists>pm'. valloc_fixed pm z a noreplace = (a, pm') \<and> vma_inv pm'
        \<and> vma_moved (free_ranges pm) (used_ranges pm) a (unat ?z) (free_ranges pm') (used_ranges pm')"
      using al none found mv by (simp add: valloc_fixed_def Let_def vma_inv_def) }
  assume "noreplace" and "unat a \<in> rt.cover (used_ranges pm)"
  then show "valloc_fixed pm z a noreplace = (0, pm)"
    using rt.find_at_None [OF ok(2), of a] by (auto simp: valloc_fixed_def Let_def)
qed

theorem valloc_fixed_correct_witness:
  "vma_inv demo_pagemap \<and> (\<exists>pm'. valloc_fixed demo_pagemap 0x1000 0x9000 True = (0x9000, pm') \<and> vma_inv pm')
   \<and> valloc_fixed demo_pagemap 0x1000 0x3000 True = (0, demo_pagemap)"
proof -
  have up: "ALIGN_UP (0x1000 :: u64) PAGE_SIZE = 0x1000" "IS_ALIGNED (0x9000 :: u64) PAGE_SIZE"
    "IS_ALIGNED (0x3000 :: u64) PAGE_SIZE"
    by (simp_all add: ALIGN_UP_def IS_ALIGNED_def PAGE_SIZE_def)
  have r: "\<lparr>vaddr = 0x8000, rsize = 0x8000\<rparr> \<in> set (free_ranges demo_pagemap)" by (simp add: demo_pagemap_def)
  have u: "0x3000 \<in> rt.cover (used_ranges demo_pagemap)" by (simp add: demo_pagemap_def rt.cover_def bytes_in_def)
  have "\<exists>pm'. valloc_fixed demo_pagemap 0x1000 0x9000 True = (0x9000, pm') \<and> vma_inv pm'"
    using valloc_fixed_correct [OF demo_pagemap_inv up(2), of "0x1000" True, THEN conjunct1, rule_format, OF _ _ r]
    by (auto simp: up(1) bytes_in_def)
  moreover have "valloc_fixed demo_pagemap 0x1000 0x3000 True = (0, demo_pagemap)"
    using valloc_fixed_correct [OF demo_pagemap_inv up(3), of "0x1000" True] u by simp
  ultimately show ?thesis using demo_pagemap_inv by blast
qed

text \<open>
  A fixed allocation longer than the free range it starts in is not refused: the address
  space it is given runs over a range in use, and the free range left behind has a size that
  wrapped around.
\<close>

theorem valloc_fixed_overruns:
  "vma_inv demo_pagemap \<and> valloc_fixed demo_pagemap 0x3000 0x1000 True = (0x1000, demo_pagemap
      \<lparr>free_ranges := [\<lparr>vaddr = 0x4000, rsize = - 0x2000\<rparr>, \<lparr>vaddr = 0x8000, rsize = 0x8000\<rparr>],
       used_ranges := [\<lparr>vaddr = 0x1000, rsize = 0x3000\<rparr>, \<lparr>vaddr = 0x2000, rsize = 0x3000\<rparr>]\<rparr>)"
proof -
  have "ALIGN_UP (0x3000 :: u64) PAGE_SIZE = 0x3000" "IS_ALIGNED (0x1000 :: u64) PAGE_SIZE"
    by (simp_all add: ALIGN_UP_def IS_ALIGNED_def PAGE_SIZE_def)
  then show ?thesis
    using demo_pagemap_inv
    by (simp add: valloc_fixed_def Let_def demo_pagemap_def vmm_cmp_range_def move_range_def RB_REMOVE_def)
qed

end
