(* ===== verification/Vmm.thy ===== *)
theory Vmm
  imports Pmm Vma
begin

text \<open>
  The virtual memory manager, \<open>kernel/src/memory/vmm.c\<close>: four-level page tables kept in page
  frames, read and written as 64-bit cells of the byte memory through the direct map. The
  abstract view of an address space is \<open>translate\<close>, a partial function from virtual page
  numbers to frames; mapping is an update of it, unmapping a removal, and a new page map is
  the kernel's upper half with nothing in the lower one. \<open>pt_inv\<close> is the invariant: the tables
  reached from the top are frames in use and each is reached one way only.
\<close>

section \<open>Entries\<close>

definition PTE_MASK :: u64 where "PTE_MASK = 0x000ffffffffff000"
definition PTE_PRESENT :: u64 where "PTE_PRESENT = 0x1"
definition PTE_WRITABLE :: u64 where "PTE_WRITABLE = 0x2"
definition PTE_USER :: u64 where "PTE_USER = 0x4"
definition PTE_PCD :: u64 where "PTE_PCD = 0x10"
definition PTE_PS :: u64 where "PTE_PS = 0x80"
definition PTE_PAT :: u64 where "PTE_PAT = 0x80"
definition PTE_GLOBAL :: u64 where "PTE_GLOBAL = 0x100"
definition PTE_LOCKED :: u64 where "PTE_LOCKED = 0x200"
definition PTE_NX :: u64 where "PTE_NX = 0x8000000000000000"

lemmas pte_defs = PTE_MASK_def PTE_PRESENT_def PTE_WRITABLE_def PTE_USER_def PTE_PS_def PTE_LOCKED_def

text \<open>The four table indices of a virtual address.\<close>

definition pml1i :: "u64 \<Rightarrow> u64" where "pml1i va = drop_bit 12 va AND 0x1ff"
definition pml2i :: "u64 \<Rightarrow> u64" where "pml2i va = drop_bit 21 va AND 0x1ff"
definition pml3i :: "u64 \<Rightarrow> u64" where "pml3i va = drop_bit 30 va AND 0x1ff"
definition pml4i :: "u64 \<Rightarrow> u64" where "pml4i va = drop_bit 39 va AND 0x1ff"

text \<open>\<open>table[i]\<close>, read and written.\<close>

definition pte :: "pmm \<Rightarrow> u64 \<Rightarrow> u64 \<Rightarrow> u64" where
  "pte s table i = read64 (kmem s) (table + 8 * i)"

definition set_pte :: "u64 \<Rightarrow> u64 \<Rightarrow> u64 \<Rightarrow> pmm \<Rightarrow> pmm" where
  "set_pte table i v s = s\<lparr>kmem := write64 (kmem s) (table + 8 * i) v\<rparr>"

definition table_of :: "pmm \<Rightarrow> u64 \<Rightarrow> u64" where
  "table_of s e = (e AND PTE_MASK) + hhdmOffset s"

section \<open>Mapping and unmapping\<close>

text \<open>
  Going down one level, with the missing table allocated: the block the code repeats for each
  of the three upper levels.
\<close>

definition vmm_level :: "u64 \<Rightarrow> u64 \<Rightarrow> pmm \<Rightarrow> (u64 \<times> pmm) kres" where
  "vmm_level table i s =
     kbind (if pte s table i AND PTE_PRESENT = 0
            then kbind (allocate_page s) (\<lambda>(new_page, s1).
                   let s2 = set_pte table i (new_page AND PTE_MASK) s1
                   in Inr (set_pte table i
                        (pte s2 table i OR (PTE_PRESENT OR PTE_WRITABLE OR PTE_USER)) s2))
            else Inr s)
       (\<lambda>s'. Inr (table_of s' (pte s' table i), s'))"

text \<open>Writing a leaf: the address first, then its flags.\<close>

definition vmm_leaf :: "u64 \<Rightarrow> u64 \<Rightarrow> u64 \<Rightarrow> u64 \<Rightarrow> pmm \<Rightarrow> pmm" where
  "vmm_leaf table i phys_addr flags s =
     (let s1 = set_pte table i (phys_addr AND PTE_MASK) s
      in set_pte table i (pte s1 table i OR flags) s1)"

definition vmm_map_page :: "u64 \<Rightarrow> u64 \<Rightarrow> u64 \<Rightarrow> u64 \<Rightarrow> u64 \<Rightarrow> pmm \<Rightarrow> pmm kres" where
  "vmm_map_page pml4 virt_addr phys_addr flags page_size s =
     kbind (vmm_level pml4 (pml4i virt_addr) s) (\<lambda>(pml3v, s3).
       if page_size = JUMBO_PAGE_SIZE
       then Inr (vmm_leaf pml3v (pml3i virt_addr) phys_addr (PTE_PRESENT OR PTE_PS OR flags) s3)
       else kbind (vmm_level pml3v (pml3i virt_addr) s3) (\<lambda>(pml2v, s2).
         if page_size = LARGE_PAGE_SIZE
         then Inr (vmm_leaf pml2v (pml2i virt_addr) phys_addr (PTE_PRESENT OR PTE_PS OR flags) s2)
         else kbind (vmm_level pml2v (pml2i virt_addr) s2) (\<lambda>(pml1v, s1).
           Inr (vmm_leaf pml1v (pml1i virt_addr) phys_addr (PTE_PRESENT OR flags) s1))))"

definition vmm_get_phys :: "u64 \<Rightarrow> u64 \<Rightarrow> pmm \<Rightarrow> u64" where
  "vmm_get_phys pml4 virt_addr s =
     (if pte s pml4 (pml4i virt_addr) AND PTE_PRESENT = 0 then 0
      else let pml3v = table_of s (pte s pml4 (pml4i virt_addr))
      in if pte s pml3v (pml3i virt_addr) AND PTE_PRESENT = 0 then 0
      else let pml2v = table_of s (pte s pml3v (pml3i virt_addr))
      in if pte s pml2v (pml2i virt_addr) AND PTE_PRESENT = 0 then 0
      else let pml1v = table_of s (pte s pml2v (pml2i virt_addr))
      in if pte s pml1v (pml1i virt_addr) AND PTE_PRESENT \<noteq> 0
         then pte s pml1v (pml1i virt_addr) AND PTE_MASK else 0)"

definition vmm_unmap_page :: "u64 \<Rightarrow> u64 \<Rightarrow> pmm \<Rightarrow> pmm" where
  "vmm_unmap_page pml4 virt_addr s =
     (if pte s pml4 (pml4i virt_addr) AND PTE_PRESENT = 0 then s
      else let pml3v = table_of s (pte s pml4 (pml4i virt_addr))
      in if pte s pml3v (pml3i virt_addr) AND PTE_PRESENT = 0 then s
      else let pml2v = table_of s (pte s pml3v (pml3i virt_addr))
      in if pte s pml2v (pml2i virt_addr) AND PTE_PRESENT = 0 then s
      else let pml1v = table_of s (pte s pml2v (pml2i virt_addr))
      in set_pte pml1v (pml1i virt_addr) 0 s)"

text \<open>The two loops over pages; the second one steps through a window of the direct map.\<close>

primrec vmm_map_pages_loop :: "u64 \<Rightarrow> u64 \<Rightarrow> u64 \<Rightarrow> u64 \<Rightarrow> nat \<Rightarrow> u64 \<Rightarrow> pmm \<Rightarrow> pmm kres" where
  "vmm_map_pages_loop pml4 va pa flags 0 i s = Inr s"
| "vmm_map_pages_loop pml4 va pa flags (Suc n) i s =
     kbind (vmm_map_page pml4 (va + i * PAGE_SIZE) (pa + i * PAGE_SIZE) flags PAGE_SIZE s)
       (vmm_map_pages_loop pml4 va pa flags n (i + 1))"

definition vmm_map_pages_continuous :: "u64 \<Rightarrow> u64 \<Rightarrow> u64 \<Rightarrow> u64 \<Rightarrow> u64 \<Rightarrow> pmm \<Rightarrow> pmm kres" where
  "vmm_map_pages_continuous pml4 virt_addr phys_addr page_count flags s =
     vmm_map_pages_loop pml4 virt_addr phys_addr flags (unat page_count) 0 s"

partial_function (option) vmm_hhdm_loop ::
  "u64 \<Rightarrow> u64 \<Rightarrow> u64 \<Rightarrow> u64 \<Rightarrow> u64 \<Rightarrow> u64 \<Rightarrow> pmm \<Rightarrow> pmm kres option" where
  "vmm_hhdm_loop pml4 big flags virt_end va pa s =
     (if va < virt_end
      then (case vmm_map_page pml4 va pa flags big s of
              Inl e \<Rightarrow> Some (Inl e)
            | Inr s' \<Rightarrow> vmm_hhdm_loop pml4 big flags virt_end (va + big) (pa + big) s')
      else Some (Inr s))"

text \<open>\<open>gb_pages\<close> is the answer of the processor's feature test for 1 GiB pages.\<close>

definition vmm_map_pages_hhdm :: "bool \<Rightarrow> u64 \<Rightarrow> u64 \<Rightarrow> u64 \<Rightarrow> u64 \<Rightarrow> u64 \<Rightarrow> pmm \<Rightarrow> pmm kres option" where
  "vmm_map_pages_hhdm gb_pages pml4 virt_addr phys_addr pages flags s =
     (let biggest_page_supported = (if gb_pages then JUMBO_PAGE_SIZE else LARGE_PAGE_SIZE);
          len = pages * PAGE_SIZE
      in vmm_hhdm_loop pml4 biggest_page_supported flags
           (ALIGN_UP (virt_addr + len) biggest_page_supported)
           (ALIGN_DOWN virt_addr biggest_page_supported)
           (ALIGN_DOWN phys_addr biggest_page_supported) s)"

section \<open>Page maps\<close>

definition new_pagemap :: "pagemap \<Rightarrow> pmm \<Rightarrow> (pagemap \<times> pmm) kres" where
  "new_pagemap kernel_pagemap s =
     kbind (allocate_page s) (\<lambda>(pml4_phys, s1).
       if pml4_phys = 0 then Inl (Panic ''Failed to allocate new PML4 table page'')
       else
         (let pml4_virt = pml4_phys + hhdmOffset s1;
              m1 = fst (memcpy (kmem s1) pml4_virt (top_level kernel_pagemap) PAGE_SIZE);
              m2 = fst (memset m1 pml4_virt 0 (PAGE_SIZE div 2))
          in Inr (\<lparr>top_level = pml4_virt,
                   free_ranges = RB_INSERT [] \<lparr>vaddr = 0x1000, rsize = 400000000000 - 0x1000\<rparr>,
                   used_ranges = []\<rparr>, s1\<lparr>kmem := m2\<rparr>)))"

text \<open>
  \<open>free_levels\<close> walks \<open>table[start..end)\<close>; the recursion goes down one level at a time, and
  the loop over the entries of one table is the recursion on the number that are left.
\<close>

function free_levels :: "u64 \<Rightarrow> nat \<Rightarrow> u64 \<Rightarrow> nat \<Rightarrow> pmm \<Rightarrow> pmm kres" where
  "free_levels table_phys levels i 0 s = Inr s"
| "free_levels table_phys levels i (Suc n) s =
     (let e = pte s (table_phys + hhdmOffset s) i
      in if e AND PTE_PRESENT = 0 then free_levels table_phys levels (i + 1) n s
         else kbind (if 1 < levels \<and> e AND PTE_PS = 0
                     then free_levels (e AND PTE_MASK) (levels - 1) 0 512 s else Inr s)
                (\<lambda>s1. kbind (free_page (e AND PTE_MASK) s1) (free_levels table_phys levels (i + 1) n)))"
  by pat_completeness auto
termination
  by (relation "measures [\<lambda>(t, l, i, n, s). l, \<lambda>(t, l, i, n, s). n]") auto

definition delete_pagemap :: "pagemap \<Rightarrow> pmm \<Rightarrow> pmm kres" where
  "delete_pagemap pm s =
     (if top_level pm = 0 then Inr s
      else
        (let top_phys = top_level pm - hhdmOffset s
         in kbind (free_levels top_phys 4 0 256 s) (free_page top_phys)))"

section \<open>Cells of tables\<close>

lemma unat_pte_addr:
  assumes "page_aligned t" and "unat i < 512"
  shows "unat (t + 8 * i) = unat t + 8 * unat i"
proof -
  have "unat (8 * i) = 8 * unat i" using assms(2) by (simp add: unat_word_ariths)
  then show ?thesis
    using page_aligned_le [OF assms(1)] assms(2) by (subst unat_add_no_wrap) simp_all
qed

lemma pte_addr_aligned: "page_aligned t \<Longrightarrow> unat i < 512 \<Longrightarrow> cell_aligned (t + 8 * i)"
  by (frule page_aligned_cell) (simp add: unat_pte_addr mod_add_left_eq [symmetric])

lemma pte_addr_inj:
  assumes "page_aligned t" and "page_aligned t'" and "unat i < 512" and "unat j < 512"
    and "t + 8 * i = t' + 8 * j"
  shows "t = t' \<and> i = j"
proof -
  have e: "unat t + 8 * unat i = unat t' + 8 * unat j"
    using assms unat_pte_addr by metis
  obtain q q' where q: "unat t = 4096 * q" "unat t' = 4096 * q'"
    using assms(1,2) by (auto elim!: dvdE)
  have "q = q'" by (rule linorder_cases [of q q']) (use q e assms(3,4) in linarith)+
  then have "unat t = unat t'" using q by simp
  then show ?thesis using e by (simp add: word_unat_eq_iff)
qed

lemma pte_set_pte:
  assumes "page_aligned t" and "page_aligned t'" and "unat i < 512" and "unat j < 512"
  shows "pte (set_pte t i v s) t' j = (if t = t' \<and> i = j then v else pte s t' j)"
  using assms pte_addr_inj [OF assms] pte_addr_aligned
  by (auto simp: pte_def set_pte_def bm.rd_wr)

lemma set_pte_fields [simp]:
  "hhdmOffset (set_pte t i v s) = hhdmOffset s" "child_tables (set_pte t i v s) = child_tables s"
  "pmm_layout (set_pte t i v s) = pmm_layout s" "page_locs (set_pte t i v s) = page_locs s"
  "pages_in w (set_pte t i v s) = pages_in w s" "page_node (set_pte t i v s) = page_node s"
  "pmm_wf (set_pte t i v s) = pmm_wf s" "pmm_cursor (set_pte t i v s) = pmm_cursor s"
  "used_pages (set_pte t i v s) = used_pages s" "freelist_head (set_pte t i v s) = freelist_head s"
  by (simp_all add: set_pte_def pmm_layout_def page_locs_def pages_in_def page_st_def page_node_def
      page_addr_def pmm_wf_def pmm_cursor_def behind_cursor_def fun_eq_iff)

definition used_table :: "pmm \<Rightarrow> u64 \<Rightarrow> bool" where
  "used_table s t \<longleftrightarrow> (\<exists>l \<in> pages_in PAGE_USED s. t = page_node s l)"

lemma used_table_aligned: "pmm_inv s \<Longrightarrow> used_table s t \<Longrightarrow> page_aligned t"
  using page_node_props(2) [OF pmm_inv_wf] pages_in_locs by (fastforce simp: used_table_def)

text \<open>Writing an entry of a table in use leaves the frame allocator's state a state of it.\<close>

lemma pmm_inv_set_pte:
  assumes inv: "pmm_inv s" and t: "used_table s t" and i: "unat i < 512"
  shows "pmm_inv (set_pte t i v s)"
proof -
  obtain fl where rel: "pmm_rel s fl" using inv by (auto simp: pmm_inv_def)
  have wf: "pmm_wf s" and free: "pmm_free_list s fl" using rel by (simp_all add: pmm_rel_def)
  have al: "page_aligned t" using used_table_aligned [OF inv t] .
  have "t + 8 * i \<notin> set fl"
  proof
    assume "t + 8 * i \<in> set fl"
    then obtain l where l: "l \<in> pages_in PAGE_FREE s" "t + 8 * i = page_node s l"
      using free_list_nodes(2) [OF free] by blast
    then have "t = page_node s l"
      using pte_addr_inj [OF al _ i, of "page_node s l" 0] page_node_props(2) [OF wf pages_in_locs [OF l(1)]] by simp
    moreover obtain l' where l': "l' \<in> pages_in PAGE_USED s" "t = page_node s l'" using t by (auto simp: used_table_def)
    ultimately have "l = l'"
      using inj_onD [OF page_node_inj [OF wf] _ pages_in_locs [OF l(1)] pages_in_locs [OF l'(1)]] by simp
    then show False using l(1) l'(1) by (simp add: pages_in_def)
  qed
  then have "bm.chain (kmem (set_pte t i v s)) (freelist_head s) fl 0"
    using free free_list_aligned [OF wf free] pte_addr_aligned [OF al i]
    by (simp add: set_pte_def bm.chain_frame pmm_free_list_def)
  then have "pmm_rel (set_pte t i v s) fl"
    using rel by (simp add: pmm_rel_def pmm_free_list_def)
  then show ?thesis by (auto simp: pmm_inv_def)
qed

section \<open>Walking the tables\<close>

text \<open>
  \<open>walk\<close> follows indices through present entries that point to a table (a set \<open>PTE_PS\<close> ends
  the walk: the entry maps a large page).
\<close>

primrec walk :: "pmm \<Rightarrow> u64 \<Rightarrow> u64 list \<Rightarrow> u64 option" where
  "walk s t [] = Some t"
| "walk s t (i # p) =
     (if pte s t i AND PTE_PRESENT \<noteq> 0 \<and> pte s t i AND PTE_PS = 0
      then walk s (table_of s (pte s t i)) p else None)"

definition va_path :: "u64 \<Rightarrow> u64 list" where
  "va_path va = [pml4i va, pml3i va, pml2i va]"

definition good_path :: "u64 list \<Rightarrow> bool" where
  "good_path p \<longleftrightarrow> length p \<le> 3 \<and> (\<forall>i \<in> set p. unat i < 512)"

text \<open>No large page on the way.\<close>

definition walk_clear :: "pmm \<Rightarrow> u64 \<Rightarrow> u64 list \<Rightarrow> bool" where
  "walk_clear s t p \<longleftrightarrow> (\<forall>q i r t'. p = q @ i # r \<longrightarrow> walk s t q = Some t' \<longrightarrow>
     pte s t' i AND PTE_PRESENT = 0 \<or> pte s t' i AND PTE_PS = 0)"

definition translate :: "pmm \<Rightarrow> u64 \<Rightarrow> u64 \<Rightarrow> u64 option" where
  "translate s pml4 va =
     (case walk s pml4 (va_path va) of
        None \<Rightarrow> None
      | Some t \<Rightarrow> if pte s t (pml1i va) AND PTE_PRESENT = 0 then None
                 else Some (pte s t (pml1i va) AND PTE_MASK))"

definition pt_inv :: "pmm \<Rightarrow> u64 \<Rightarrow> bool" where
  "pt_inv s pml4 \<longleftrightarrow> pmm_inv s \<and> (\<forall>ct \<in> set (child_tables s). unat (ct_end ct) \<le> 2 ^ 52)
     \<and> (\<forall>p t. good_path p \<longrightarrow> walk s pml4 p = Some t \<longrightarrow> used_table s t)
     \<and> (\<forall>p q t. good_path p \<longrightarrow> good_path q \<longrightarrow> walk s pml4 p = Some t \<longrightarrow> walk s pml4 q = Some t \<longrightarrow> p = q)"

lemma unat_index: "unat (w AND 0x1ff :: u64) < 512"
proof -
  have "w AND 0x1ff \<le> (0x1ff :: u64)" by (rule word_and_le1)
  then show ?thesis by (simp add: word_le_nat_alt)
qed

lemma index_bounds [simp]:
  "unat (pml1i va) < 512" "unat (pml2i va) < 512" "unat (pml3i va) < 512" "unat (pml4i va) < 512"
  by (simp_all add: pml1i_def pml2i_def pml3i_def pml4i_def unat_index)

lemma good_va_path [simp]: "good_path (va_path va)"
  by (simp add: good_path_def va_path_def)

lemma good_path_append: "good_path (p @ q) \<Longrightarrow> good_path p"
  by (auto simp: good_path_def)

lemma walk_append:
  "walk s t (p @ q) = (case walk s t p of None \<Rightarrow> None | Some t' \<Rightarrow> walk s t' q)"
  by (induction p arbitrary: t) auto

lemma walk_cong:
  assumes "hhdmOffset s' = hhdmOffset s"
    and "\<And>q i r t'. p = q @ i # r \<Longrightarrow> walk s t q = Some t' \<Longrightarrow> pte s' t' i = pte s t' i"
  shows "walk s' t p = walk s t p"
  using assms(2)
proof (induction p arbitrary: t)
  case (Cons j p)
  have e: "pte s' t j = pte s t j" using Cons.prems [of "[]" j p t] by simp
  show ?case
  proof (cases "pte s t j AND PTE_PRESENT \<noteq> 0 \<and> pte s t j AND PTE_PS = 0")
    case True
    have "walk s' (table_of s (pte s t j)) p = walk s (table_of s (pte s t j)) p"
    proof (rule Cons.IH)
      fix q i r t' assume "p = q @ i # r" "walk s (table_of s (pte s t j)) q = Some t'"
      then show "pte s' t' i = pte s t' i" using Cons.prems [of "j # q" i r t'] True by simp
    qed
    then show ?thesis using e assms(1) True by (simp add: table_of_def)
  qed (use e in auto)
qed simp

lemma pt_invD:
  assumes "pt_inv s pml4"
  shows "pmm_inv s" and "\<And>p t. good_path p \<Longrightarrow> walk s pml4 p = Some t \<Longrightarrow> used_table s t"
    and "\<And>p q t. good_path p \<Longrightarrow> good_path q \<Longrightarrow> walk s pml4 p = Some t \<Longrightarrow> walk s pml4 q = Some t \<Longrightarrow> p = q"
    and "\<And>p t. good_path p \<Longrightarrow> walk s pml4 p = Some t \<Longrightarrow> page_aligned t"
  using assms used_table_aligned by (auto simp: pt_inv_def)

text \<open>Changing one entry of one table only matters to the paths through it.\<close>

lemma walk_outside:
  assumes inv: "pt_inv s pml4" and p0: "good_path p0" "walk s pml4 p0 = Some t"
    and off: "hhdmOffset s' = hhdmOffset s"
    and same: "\<And>t' j. used_table s t' \<Longrightarrow> unat j < 512 \<Longrightarrow> (t', j) \<noteq> (t, i) \<Longrightarrow> pte s' t' j = pte s t' j"
    and p: "good_path p" "\<And>r. p \<noteq> p0 @ i # r"
  shows "walk s' pml4 p = walk s pml4 p"
proof (rule walk_cong [OF off])
  fix q j r t' assume q: "p = q @ j # r" "walk s pml4 q = Some t'"
  have g: "good_path q" "unat j < 512" using p(1) q(1) by (auto simp: good_path_def)
  have "(t', j) \<noteq> (t, i)" using pt_invD(3) [OF inv g(1) p0(1) q(2)] p0(2) q(1) p(2) by auto
  then show "pte s' t' j = pte s t' j" using same pt_invD(2) [OF inv g(1) q(2)] g(2) by blast
qed

text \<open>
  Hanging a fresh zero table into an absent entry: the paths that end there now reach it, no
  path goes beyond it, and every other path is as before.
\<close>

lemma walk_graft:
  assumes inv: "pt_inv s pml4" and p0: "good_path p0" "walk s pml4 p0 = Some t" and i: "unat i < 512"
    and absent: "pte s t i AND PTE_PRESENT = 0"
    and off: "hhdmOffset s' = hhdmOffset s"
    and same: "\<And>t' j. used_table s t' \<Longrightarrow> unat j < 512 \<Longrightarrow> (t', j) \<noteq> (t, i) \<Longrightarrow> pte s' t' j = pte s t' j"
    and new: "pte s' t i AND PTE_PRESENT \<noteq> 0" "pte s' t i AND PTE_PS = 0" "table_of s' (pte s' t i) = n"
    and zero: "\<And>j. unat j < 512 \<Longrightarrow> pte s' n j = 0"
    and p: "good_path p"
  shows "walk s' pml4 p = (if p = p0 @ [i] then Some n else walk s pml4 p)"
proof (cases "\<exists>r. p = p0 @ i # r")
  case False
  then show ?thesis using walk_outside [OF inv p0 off same p] by auto
next
  case True
  then obtain r where r: "p = p0 @ i # r" by blast
  have "walk s' pml4 p0 = Some t" using walk_outside [OF inv p0 off same p0(1)] p0(2) by auto
  then have "walk s' pml4 p = walk s' n r" using new r by (simp add: walk_append)
  moreover have "walk s pml4 p = None" using absent p0(2) r by (simp add: walk_append)
  moreover have "walk s' n r = None" if "r \<noteq> []"
    using that zero [of "hd r"] p r by (cases r) (auto simp: good_path_def)
  ultimately show ?thesis using r by auto
qed

lemma pte_taken:
  assumes inv: "pmm_inv s" and tk: "pmm_taken s l s1" and t: "used_table s t" and j: "unat j < 512"
  shows "pte s1 t j = pte s t j"
  unfolding pte_def
proof (rule read64_cong_bytes)
  fix k :: nat assume k: "k < 8"
  have "unat (8 * j + of_nat k) < 4096"
    using j k by (simp add: unat_word_ariths unat_of_nat)
  then have "unat (t + 8 * j + of_nat k - t) < 4096" by (simp add: algebra_simps)
  moreover obtain l' where "l' \<in> pages_in PAGE_USED s" "t = page_node s l'" using t by (auto simp: used_table_def)
  ultimately show "kmem s1 (t + 8 * j + of_nat k) = kmem s (t + 8 * j + of_nat k)"
    using pmm_taken_used [OF pmm_inv_wf [OF inv] tk] by metis
qed

lemma pte_taken_zero:
  assumes tk: "pmm_taken s l s1" and j: "unat j < 512"
  shows "pte s1 (page_node s l) j = 0"
proof -
  have "kmem s1 (page_node s l + 8 * j + of_nat k) = 0" if "k < 8" for k :: nat
  proof -
    have "unat (8 * j + of_nat k) < 4096" using j that by (simp add: unat_word_ariths unat_of_nat)
    then have "unat (page_node s l + 8 * j + of_nat k - page_node s l) < 4096" by (simp add: algebra_simps)
    then show ?thesis using tk by (simp only: pmm_taken_def)
  qed
  then have "read64 (kmem s1) (page_node s l + 8 * j) = read64 (\<lambda>_. 0) (page_node s l + 8 * j)"
    by (intro read64_cong_bytes) simp
  then show ?thesis by (simp add: pte_def read64_def)
qed

lemma pte_mask_page:
  assumes "page_aligned a" and "unat a < 2 ^ 52"
  shows "a AND PTE_MASK = a"
proof (rule word_eq_unatI)
  have "PTE_MASK = mask 52 AND NOT (mask 12)" by (simp add: PTE_MASK_def mask_eq_exp_minus_1)
  then have "a AND PTE_MASK = (a AND mask 52) AND NOT (mask 12)" by (simp add: and.assoc)
  then show "unat (a AND PTE_MASK) = unat a"
    using assms by (simp add: unat_and_not_mask unat_and_mask)
qed

lemma entry_fields:
  assumes "a AND PTE_MASK = a" and "f AND PTE_MASK = 0"
  shows "(a OR f) AND PTE_MASK = a"
    and "(a OR (PTE_PRESENT OR f)) AND PTE_PRESENT \<noteq> 0"
    and "(a OR (PTE_PRESENT OR f)) AND PTE_MASK = a"
    and "a AND PTE_PS = 0"
proof -
  have z: "PTE_MASK AND PTE_PS = 0" "PTE_PRESENT AND PTE_MASK = 0" "PTE_PRESENT AND PTE_PRESENT \<noteq> 0"
    by (simp_all add: pte_defs)
  show "(a OR f) AND PTE_MASK = a" using assms by (simp add: bit.conj_disj_distrib2)
  show "(a OR (PTE_PRESENT OR f)) AND PTE_PRESENT \<noteq> 0"
    using z(3) by (simp add: bit.conj_disj_distrib2 or_eq_0_iff)
  show "(a OR (PTE_PRESENT OR f)) AND PTE_MASK = a" using assms z(2) by (simp add: bit.conj_disj_distrib2)
  have "a AND PTE_PS = a AND (PTE_MASK AND PTE_PS)" using assms(1) by (metis and.assoc)
  then show "a AND PTE_PS = 0" by (simp add: z(1))
qed

section \<open>Going down a level\<close>

lemma taken_frames:
  assumes tk: "pmm_taken s l s1"
  shows "used_table s1 t \<longleftrightarrow> t = page_node s l \<or> used_table s t" and "hhdmOffset s1 = hhdmOffset s"
    and "pmm_wf s \<Longrightarrow> \<not> used_table s (page_node s l)"
proof -
  have lay: "pmm_layout s1 = pmm_layout s" and u: "pages_in PAGE_USED s1 = insert l (pages_in PAGE_USED s)"
    and l: "l \<in> page_locs s" "l \<notin> pages_in PAGE_USED s"
    using tk by (simp_all add: pmm_taken_def)
  have node: "page_node s1 l' = page_node s l'" if "l' \<in> insert l (pages_in PAGE_USED s)" for l'
    using that layout_cong(3) [OF lay] l(1) pages_in_locs by blast
  show "used_table s1 t \<longleftrightarrow> t = page_node s l \<or> used_table s t"
    using node by (auto simp: used_table_def u)
  show "hhdmOffset s1 = hhdmOffset s" using layout_nth(3) [OF lay] .
  show "\<not> used_table s (page_node s l)" if "pmm_wf s"
    using inj_on_image_mem_iff [OF page_node_inj [OF that] l(1) pages_in_subset [of PAGE_USED]] l(2)
    by (auto simp: used_table_def)
qed

text \<open>
  \<open>pt_ext s pml4 s'\<close>: the move from \<open>s\<close> to \<open>s'\<close> kept the invariant, every translation, every
  table reached and the absence of large pages.
\<close>

definition pt_ext :: "pmm \<Rightarrow> u64 \<Rightarrow> pmm \<Rightarrow> bool" where
  "pt_ext s pml4 s' \<longleftrightarrow> pt_inv s' pml4 \<and> hhdmOffset s' = hhdmOffset s
     \<and> (\<forall>va. translate s' pml4 va = translate s pml4 va)
     \<and> (\<forall>p t. good_path p \<longrightarrow> walk s pml4 p = Some t \<longrightarrow> walk s' pml4 p = Some t)
     \<and> (\<forall>p. good_path p \<longrightarrow> walk_clear s' pml4 p = walk_clear s pml4 p)"

lemma pt_ext_refl: "pt_inv s pml4 \<Longrightarrow> pt_ext s pml4 s"
  by (simp add: pt_ext_def)

lemma pt_ext_trans: "pt_ext s pml4 s1 \<Longrightarrow> pt_ext s1 pml4 s2 \<Longrightarrow> pt_ext s pml4 s2"
  by (simp add: pt_ext_def)

lemma alloc_mask:
  assumes inv: "pt_inv s pml4" and loc: "l \<in> page_locs s"
  shows "page_addr s l AND PTE_MASK = page_addr s l"
proof -
  have wf: "pmm_wf s" using pt_invD(1) [OF inv] pmm_inv_wf by blast
  obtain a b where ab: "l = (a, b)" by force
  have "unat (ct_end (child_tables s ! a)) \<le> 2 ^ 52"
    using inv loc by (auto simp: pt_inv_def page_locs_def ab)
  then have "unat (page_addr s l) < 2 ^ 52" using unat_page_addr(2) [OF wf, of a b] loc ab by simp
  then show ?thesis by (rule pte_mask_page [OF page_node_props(1) [OF wf loc]])
qed

text \<open>A byte outside every frame of the allocator, such as a byte of the kernel's own file.\<close>

definition off_frames :: "pmm \<Rightarrow> u64 \<Rightarrow> bool" where
  "off_frames s b \<longleftrightarrow> (\<forall>l \<in> page_locs s. 4096 \<le> unat (b - page_node s l))"

text \<open>
  What changes when entry \<open>i\<close> of table \<open>t\<close>, reached by \<open>p\<close>, is given a table: only that entry, and only
  the walk that ends behind it; an entry that has one stays, a new table is empty.
\<close>

definition level_grew :: "pmm \<Rightarrow> u64 \<Rightarrow> u64 list \<Rightarrow> u64 \<Rightarrow> u64 \<Rightarrow> pmm \<Rightarrow> bool" where
  "level_grew s pml4 p t i s' \<longleftrightarrow> pmm_layout s' = pmm_layout s
     \<and> (\<forall>u. used_table s u \<longrightarrow> used_table s' u) \<and> (\<forall>b. off_frames s b \<longrightarrow> kmem s' b = kmem s b)
     \<and> (\<forall>x. good_path x \<longrightarrow> x \<noteq> p @ [i] \<longrightarrow> walk s' pml4 x = walk s pml4 x)
     \<and> (\<forall>u j. used_table s u \<longrightarrow> unat j < 512 \<longrightarrow> (u, j) \<noteq> (t, i) \<longrightarrow> pte s' u j = pte s u j)
     \<and> (pte s t i AND PTE_PRESENT \<noteq> 0 \<longrightarrow> s' = s)
     \<and> (pte s t i AND PTE_PRESENT = 0 \<longrightarrow> (\<forall>u. walk s' pml4 (p @ [i]) = Some u \<longrightarrow>
          \<not> used_table s u \<and> (\<forall>j. unat j < 512 \<longrightarrow> pte s' u j = 0)))"

lemma off_frames_set_pte:
  assumes inv: "pmm_inv s" and t: "used_table s t" and i: "unat i < 512" and b: "off_frames s b"
  shows "kmem (set_pte t i v s) b = kmem s b"
proof -
  obtain l where l: "l \<in> page_locs s" "t = page_node s l" using t pages_in_subset unfolding used_table_def by blast
  then have "4096 \<le> unat (b - t)" using b by (simp add: off_frames_def)
  moreover have "b = t + 8 * i + of_nat k \<Longrightarrow> k < 8 \<Longrightarrow> unat (b - t) < 4096" for k
    using i by (simp add: unat_word_ariths unat_of_nat)
  moreover have "b = t + 8 * i + of_nat (unat (b - (t + 8 * i)))" by simp
  ultimately have "\<not> unat (b - (t + 8 * i)) < 8" using linorder_not_less by blast
  then show ?thesis by (simp add: set_pte_def write64_def)
qed

lemma vmm_level_new:
  assumes inv: "pt_inv s pml4" and p0: "good_path p0" "walk s pml4 p0 = Some t" "length p0 \<le> 2"
    and i: "unat i < 512" and absent: "pte s t i AND PTE_PRESENT = 0"
    and tk: "pmm_taken s l s1" and f0: "f AND PTE_MASK = 0" "f AND PTE_PS = 0"
    and s': "s' = set_pte t i (page_addr s l OR (PTE_PRESENT OR f)) s1"
  shows "pt_ext s pml4 s'" and "walk s' pml4 (p0 @ [i]) = Some (page_node s l)"
    and "table_of s' (pte s' t i) = page_node s l" and "level_grew s pml4 p0 t i s'"
proof -
  have pinv: "pmm_inv s" "pmm_wf s" using pt_invD(1) [OF inv] pmm_inv_wf by blast+
  have loc: "l \<in> page_locs s" and lay: "pmm_layout s1 = pmm_layout s" and inv1: "pmm_inv s1"
    using tk by (simp_all add: pmm_taken_def)
  have n: "page_addr s l AND PTE_MASK = page_addr s l" using alloc_mask [OF inv loc] .
  have f: "f AND PTE_MASK = 0" "(PTE_PRESENT OR f) AND PTE_PS = 0"
    using f0 by (simp_all add: bit.conj_disj_distrib2) (simp add: pte_defs)
  note e = entry_fields [OF n f(1)]
  have ut: "used_table s t" using pt_invD(2) [OF inv p0(1,2)] .
  note fr = taken_frames [OF tk]
  have al: "page_aligned x" if "used_table s1 x" for x using used_table_aligned [OF inv1 that] .
  have ut1: "used_table s1 t" "used_table s1 (page_node s l)" using fr(1) ut by blast+
  have tn: "t \<noteq> page_node s l" using fr(3) [OF pinv(2)] ut by auto
  have p: "pte s' t' j = (if t' = t \<and> j = i then page_addr s l OR (PTE_PRESENT OR f) else pte s1 t' j)"
    if "used_table s1 t'" "unat j < 512" for t' j
    using pte_set_pte [OF al al i that(2), of t t'] ut1(1) that by (auto simp: s' or.assoc)
  have off: "hhdmOffset s' = hhdmOffset s" using fr(2) by (simp add: s')
  have same: "pte s' t' j = pte s t' j" if "used_table s t'" "unat j < 512" "(t', j) \<noteq> (t, i)" for t' j
    using p [of t' j] pte_taken [OF pinv(1) tk] that fr(1) by auto
  have new: "pte s' t i AND PTE_PRESENT \<noteq> 0" "pte s' t i AND PTE_PS = 0"
    using p [OF ut1(1) i] e(2,4) f(2) by (simp_all add: bit.conj_disj_distrib2)
  show tab: "table_of s' (pte s' t i) = page_node s l"
    using p [OF ut1(1) i] e(3) off by (simp add: table_of_def page_node_def)
  have zero: "pte s' (page_node s l) j = 0" if "unat j < 512" for j
    using p [OF ut1(2) that] pte_taken_zero [OF tk that] tn by auto
  have wg: "walk s' pml4 x = (if x = p0 @ [i] then Some (page_node s l) else walk s pml4 x)"
    if "good_path x" for x
    by (rule walk_graft [OF inv p0(1,2) i absent off _ new tab _ that]) (fact same zero)+
  have g1: "good_path (p0 @ [i])" using p0(1,3) i by (simp add: good_path_def)
  then show "walk s' pml4 (p0 @ [i]) = Some (page_node s l)" using wg [OF g1] by simp
  have old: "walk s pml4 (p0 @ [i]) = None" using absent p0(2) by (simp add: walk_append)
  have us: "used_table s' x \<longleftrightarrow> used_table s1 x" for x by (simp add: s' used_table_def)
  have inv': "pt_inv s' pml4" unfolding pt_inv_def
  proof (intro conjI allI impI)
    show "pmm_inv s'" unfolding s' by (rule pmm_inv_set_pte [OF inv1 ut1(1) i])
    show "\<forall>ct \<in> set (child_tables s'). unat (ct_end ct) \<le> 2 ^ 52"
      using inv layout_nth [OF lay] by (auto simp: s' pt_inv_def all_set_conv_all_nth)
  next
    fix p x assume "good_path p" "walk s' pml4 p = Some x"
    then show "used_table s' x"
      using wg pt_invD(2) [OF inv] unfolding us fr(1) by (auto split: if_splits)
  next
    fix p q x assume "good_path p" "good_path q" "walk s' pml4 p = Some x" "walk s' pml4 q = Some x"
    then show "p = q"
      using wg pt_invD(2,3) [OF inv] fr(3) [OF pinv(2)] by (auto split: if_splits)
  qed
  moreover have "translate s' pml4 va = translate s pml4 va" for va
  proof (cases "va_path va = p0 @ [i]")
    case True
    then show ?thesis using wg [OF g1] old zero by (simp add: translate_def)
  next
    case False
    have "pte s' x (pml1i va) = pte s x (pml1i va)" if x: "walk s pml4 (va_path va) = Some x" for x
    proof (rule same)
      show "used_table s x" using pt_invD(2) [OF inv _ x] by simp
      have "x \<noteq> t" using pt_invD(3) [OF inv good_va_path p0(1) x] p0(2,3) by (auto simp: va_path_def)
      then show "(x, pml1i va) \<noteq> (t, i)" by simp
    qed simp
    then show ?thesis using wg [of "va_path va"] False by (simp add: translate_def split: option.splits)
  qed
  moreover have "walk_clear s' pml4 p = walk_clear s pml4 p" if g: "good_path p" for p
  proof -
    have "(walk s' pml4 q = Some x \<longrightarrow> pte s' x j AND PTE_PRESENT = 0 \<or> pte s' x j AND PTE_PS = 0)
        \<longleftrightarrow> (walk s pml4 q = Some x \<longrightarrow> pte s x j AND PTE_PRESENT = 0 \<or> pte s x j AND PTE_PS = 0)"
      if q: "p = q @ j # r" for q j r x
    proof -
      have gq: "good_path q" "unat j < 512" using g q by (auto simp: good_path_def)
      show ?thesis
      proof (cases "q = p0 @ [i]")
        case True
        then show ?thesis using wg [OF gq(1)] old zero [OF gq(2)] by auto
      next
        case False
        then have "walk s' pml4 q = walk s pml4 q" using wg [OF gq(1)] by simp
        then show ?thesis
          using same [OF pt_invD(2) [OF inv gq(1)] gq(2)] new(2) absent
          by (cases "(x, j) = (t, i)") auto
      qed
    qed
    then show ?thesis unfolding walk_clear_def by blast
  qed
  ultimately show "pt_ext s pml4 s'"
    using off wg old by (auto simp: pt_ext_def)
  have "kmem s' b = kmem s b" if b: "off_frames s b" for b
  proof -
    have "off_frames s1 b" using b layout_cong(1,3) [OF lay] by (simp add: off_frames_def)
    then have "kmem s' b = kmem s1 b" unfolding s' by (rule off_frames_set_pte [OF inv1 ut1(1) i])
    then show ?thesis using tk b by (simp add: pmm_taken_def off_frames_def)
  qed
  then show "level_grew s pml4 p0 t i s'"
    using lay us fr(1) wg same absent wg [OF g1] fr(3) [OF pinv(2)] zero by (simp add: level_grew_def s')
qed

lemma write64_twice: "write64 (write64 m a w) a v = write64 m a v"
  by (auto simp: write64_def fun_eq_iff)

lemma set_pte_twice: "set_pte t i v (set_pte t i w s) = set_pte t i v s"
  by (simp add: set_pte_def write64_twice)

lemma pte_set_pte_same: "pte (set_pte t i v s) t i = v"
  by (simp add: pte_def set_pte_def bm.rd_wr_same)

text \<open>The frames left to allocate.\<close>

definition avail :: "pmm \<Rightarrow> nat" where
  "avail s = card (page_locs s - pages_in PAGE_USED s)"

lemma avail_taken:
  assumes "pmm_taken s l s1"
  shows "avail s = Suc (avail s1)"
proof -
  have "page_locs s1 = page_locs s" using assms layout_cong(1) [of s1 s] by (simp add: pmm_taken_def)
  moreover have "page_locs s - insert l (pages_in PAGE_USED s) = (page_locs s - pages_in PAGE_USED s) - {l}" by blast
  ultimately show ?thesis
    using assms card_Suc_Diff1 [of "page_locs s - pages_in PAGE_USED s" l] page_locs_finite
    by (simp add: avail_def pmm_taken_def)
qed

lemma avail_set_pte [simp]: "avail (set_pte t i v s) = avail s"
  by (simp add: avail_def)

text \<open>
  One level down on a path without a large page: the next table is reached, all else is kept;
  the only error is that of the frame allocator.
\<close>

lemma vmm_level_ok:
  assumes inv: "pt_inv s pml4" and p0: "good_path p0" "walk s pml4 p0 = Some t" "length p0 \<le> 2"
    and i: "unat i < 512" and clear: "pte s t i AND PTE_PRESENT = 0 \<or> pte s t i AND PTE_PS = 0"
  shows "vmm_level t i s = Inl (Panic ''PMM: out of memory'') \<and> avail s = 0
    \<or> (\<exists>t' s'. vmm_level t i s = Inr (t', s') \<and> pt_ext s pml4 s' \<and> walk s' pml4 (p0 @ [i]) = Some t'
        \<and> avail s \<le> Suc (avail s') \<and> level_grew s pml4 p0 t i s')"
proof (cases "pte s t i AND PTE_PRESENT = 0")
  case False
  then have "walk s pml4 (p0 @ [i]) = Some (table_of s (pte s t i))"
    using p0(2) clear by (simp add: walk_append)
  then show ?thesis using False pt_ext_refl [OF inv] by (auto simp: vmm_level_def level_grew_def)
next
  case True
  have ut: "used_table s t" using pt_invD(2) [OF inv p0(1,2)] .
  consider (oom) "page_locs s = pages_in PAGE_USED s" "allocate_page s = Inl (Panic ''PMM: out of memory'')"
    | (ok) l s1 where "allocate_page s = Inr (page_addr s l, s1)" "pmm_taken s l s1"
    using allocate_page_outcome [OF pt_invD(1) [OF inv]] by blast
  then show ?thesis
  proof cases
    case oom
    then show ?thesis using True by (simp add: vmm_level_def avail_def)
  next
    case (ok l s1)
    define s' where "s' = set_pte t i (page_addr s l OR (PTE_PRESENT OR PTE_WRITABLE OR PTE_USER)) s1"
    have f: "(PTE_WRITABLE OR PTE_USER) AND PTE_MASK = 0" "(PTE_WRITABLE OR PTE_USER) AND PTE_PS = 0" by (simp_all add: pte_defs)
    note new = vmm_level_new [OF inv p0 i True ok(2) f s'_def]
    have "vmm_level t i s = Inr (table_of s' (pte s' t i), s')"
      using True ok(1) alloc_mask [OF inv, of l] ok(2)
      by (simp add: vmm_level_def Let_def s'_def set_pte_twice pte_set_pte_same pmm_taken_def)
    then show ?thesis using new avail_taken [OF ok(2)] by (auto simp: s'_def)
  qed
qed

section \<open>Going down a path\<close>

text \<open>The large pages of the direct map: the table that holds the entry, the entry, and the frame it maps.\<close>

definition big_size :: "bool \<Rightarrow> u64" where
  "big_size gb = (if gb then JUMBO_PAGE_SIZE else LARGE_PAGE_SIZE)"

definition big_path :: "bool \<Rightarrow> u64 \<Rightarrow> u64 list" where
  "big_path gb va = (if gb then [pml4i va] else [pml4i va, pml3i va])"

definition big_index :: "bool \<Rightarrow> u64 \<Rightarrow> u64" where
  "big_index gb va = (if gb then pml3i va else pml2i va)"

definition direct :: "pmm \<Rightarrow> bool \<Rightarrow> u64 \<Rightarrow> u64 \<Rightarrow> u64 option" where
  "direct s gb pml4 va =
     (case walk s pml4 (big_path gb va) of
        None \<Rightarrow> None
      | Some t \<Rightarrow> if pte s t (big_index gb va) AND PTE_PRESENT = 0 \<or> pte s t (big_index gb va) AND PTE_PS = 0 then None
                 else Some (pte s t (big_index gb va) AND PTE_MASK))"

lemma big_path_length [simp]: "length (big_path gb va) = (if gb then 1 else 2)"
  by (simp add: big_path_def)

lemma good_big_path [simp]: "good_path (big_path gb va)" "unat (big_index gb va) < 512"
  by (simp_all add: good_path_def big_path_def big_index_def)

text \<open>
  A table that is in use but not one of these tables, such as the top level of another page map.
\<close>

definition apart :: "pmm \<Rightarrow> u64 \<Rightarrow> u64 \<Rightarrow> bool" where
  "apart s pml4 n \<longleftrightarrow> used_table s n \<and> (\<forall>p. good_path p \<longrightarrow> walk s pml4 p \<noteq> Some n)"

text \<open>
  \<open>vm_kept s pml4 s'\<close>: the tables grew inside the frames of the allocator, no entry of the top
  level that had a table lost it, and tables elsewhere are as before.
\<close>

definition vm_kept :: "pmm \<Rightarrow> u64 \<Rightarrow> pmm \<Rightarrow> bool" where
  "vm_kept s pml4 s' \<longleftrightarrow> pt_inv s' pml4 \<and> pmm_layout s' = pmm_layout s
     \<and> (\<forall>u. used_table s u \<longrightarrow> used_table s' u) \<and> (\<forall>b. off_frames s b \<longrightarrow> kmem s' b = kmem s b)
     \<and> (\<forall>i t. unat i < 512 \<longrightarrow> walk s pml4 [i] = Some t \<longrightarrow> walk s' pml4 [i] = Some t)
     \<and> (\<forall>n. apart s pml4 n \<longrightarrow> apart s' pml4 n \<and> (\<forall>j. unat j < 512 \<longrightarrow> pte s' n j = pte s n j))"

lemma vm_kept_refl: "pt_inv s pml4 \<Longrightarrow> vm_kept s pml4 s"
  by (simp add: vm_kept_def)

lemma off_frames_cong: "pmm_layout s' = pmm_layout s \<Longrightarrow> off_frames s' b = off_frames s b"
  using layout_cong(1,3) [of s' s] by (simp add: off_frames_def)

lemma vm_kept_trans: "vm_kept s pml4 s1 \<Longrightarrow> vm_kept s1 pml4 s2 \<Longrightarrow> vm_kept s pml4 s2"
  using off_frames_cong [of s1 s] by (simp add: vm_kept_def del: walk.simps)

lemma good_single: "unat i < 512 \<Longrightarrow> good_path [i]"
  by (simp add: good_path_def)

lemma level_kept:
  assumes ext: "pt_ext s pml4 s'" and g: "level_grew s pml4 p t i s'" and p: "good_path p" "walk s pml4 p = Some t"
  shows "vm_kept s pml4 s'"
proof -
  have "apart s' pml4 n \<and> (\<forall>j. unat j < 512 \<longrightarrow> pte s' n j = pte s n j)" if n: "apart s pml4 n" for n
  proof (cases "pte s t i AND PTE_PRESENT = 0")
    case True
    have "walk s' pml4 q \<noteq> Some n" if "good_path q" for q
      using g True n that by (cases "q = p @ [i]") (auto simp: level_grew_def apart_def)
    moreover have "n \<noteq> t" using n p by (auto simp: apart_def)
    ultimately show ?thesis using g n by (simp add: level_grew_def apart_def)
  next
    case False
    then show ?thesis using g n by (simp add: level_grew_def)
  qed
  then show ?thesis using ext g by (simp add: vm_kept_def pt_ext_def level_grew_def good_single del: walk.simps)
qed

text \<open>Writing an entry of one of the tables keeps the tables elsewhere.\<close>

lemma set_pte_apart:
  assumes inv: "pt_inv s pml4" and p: "good_path p" "walk s pml4 p = Some t" and i: "unat i < 512"
    and w: "\<And>q x. good_path q \<Longrightarrow> walk (set_pte t i v s) pml4 q = Some x \<Longrightarrow> walk s pml4 q = Some x" and n: "apart s pml4 n"
  shows "apart (set_pte t i v s) pml4 n \<and> (\<forall>j. unat j < 512 \<longrightarrow> pte (set_pte t i v s) n j = pte s n j)"
proof -
  have u: "used_table s n" "n \<noteq> t" using n p by (auto simp: apart_def)
  have al: "page_aligned t" "page_aligned n" using pt_invD(4) [OF inv p] used_table_aligned [OF pt_invD(1) [OF inv] u(1)] by simp_all
  have "pte (set_pte t i v s) n j = pte s n j" if "unat j < 512" for j using pte_set_pte [OF al i that] u(2) by simp
  moreover have "apart (set_pte t i v s) pml4 n" using n w by (auto simp: apart_def used_table_def)
  ultimately show ?thesis by blast
qed

lemma level_direct:
  assumes inv: "pt_inv s pml4" and p: "good_path p" "walk s pml4 p = Some t" and g: "level_grew s pml4 p t i s'"
    and len: "length p < length (big_path gb va)"
  shows "direct s' gb pml4 va = direct s gb pml4 va"
proof (cases "pte s t i AND PTE_PRESENT = 0")
  case False
  then show ?thesis using g by (simp add: level_grew_def)
next
  case absent: True
  show ?thesis
  proof (cases "big_path gb va = p @ [i]")
    case True
    have "walk s pml4 (p @ [i]) = None" using absent p(2) by (simp add: walk_append)
    moreover have "walk s' pml4 (p @ [i]) = Some u \<Longrightarrow> pte s' u (big_index gb va) = 0" for u
      using g absent by (simp add: level_grew_def)
    ultimately show ?thesis using True by (auto simp: direct_def split: option.splits)
  next
    case False
    have "pte s' x (big_index gb va) = pte s x (big_index gb va)" if x: "walk s pml4 (big_path gb va) = Some x" for x
    proof -
      have "x \<noteq> t" using pt_invD(3) [OF inv _ p(1) x] p(2) len by auto
      then show ?thesis using g pt_invD(2) [OF inv _ x] by (simp add: level_grew_def)
    qed
    then show ?thesis using g False by (auto simp: direct_def level_grew_def split: option.splits)
  qed
qed

text \<open>The descent of \<open>vmm_map_page\<close> as one recursion over the indices.\<close>

primrec vmm_levels :: "u64 \<Rightarrow> u64 list \<Rightarrow> pmm \<Rightarrow> (u64 \<times> pmm) kres" where
  "vmm_levels t [] s = Inr (t, s)"
| "vmm_levels t (i # p) s = kbind (vmm_level t i s) (\<lambda>(t', s'). vmm_levels t' p s')"

lemma vmm_map_page_levels:
  "vmm_map_page pml4 va pa flags PAGE_SIZE s =
     kbind (vmm_levels pml4 (va_path va) s) (\<lambda>(t, s1). Inr (vmm_leaf t (pml1i va) pa (PTE_PRESENT OR flags) s1))"
  "vmm_map_page pml4 va pa flags (big_size gb) s =
     kbind (vmm_levels pml4 (big_path gb va) s) (\<lambda>(t, s1). Inr (vmm_leaf t (big_index gb va) pa (PTE_PRESENT OR PTE_PS OR flags) s1))"
  by (simp_all add: vmm_map_page_def va_path_def big_path_def big_index_def big_size_def PAGE_SIZE_def JUMBO_PAGE_SIZE_def
      LARGE_PAGE_SIZE_def kbind_def split: sum.splits prod.splits)

lemma vmm_levels_ok:
  assumes "pt_inv s pml4" and "good_path (p0 @ p)" and "walk s pml4 p0 = Some t" and "walk_clear s pml4 (p0 @ p)"
  shows "vmm_levels t p s = Inl (Panic ''PMM: out of memory'') \<and> avail s < length p
    \<or> (\<exists>t' s'. vmm_levels t p s = Inr (t', s') \<and> pt_ext s pml4 s' \<and> walk s' pml4 (p0 @ p) = Some t'
        \<and> avail s \<le> avail s' + length p \<and> vm_kept s pml4 s'
        \<and> (\<forall>gb va. length (p0 @ p) \<le> length (big_path gb va) \<longrightarrow> direct s' gb pml4 va = direct s gb pml4 va))"
  using assms
proof (induction p arbitrary: p0 t s)
  case Nil
  then show ?case using pt_ext_refl vm_kept_refl by auto
next
  case (Cons i p)
  have g0: "good_path p0" "length p0 \<le> 2" "unat i < 512" using Cons.prems(2) by (auto simp: good_path_def)
  have c: "pte s t i AND PTE_PRESENT = 0 \<or> pte s t i AND PTE_PS = 0"
    using Cons.prems(3,4) by (auto simp: walk_clear_def)
  consider (e) "vmm_level t i s = Inl (Panic ''PMM: out of memory'')" "avail s = 0"
    | (ok) t1 s1 where "vmm_level t i s = Inr (t1, s1)" "pt_ext s pml4 s1" "walk s1 pml4 (p0 @ [i]) = Some t1"
        "avail s \<le> Suc (avail s1)" "level_grew s pml4 p0 t i s1"
    using vmm_level_ok [OF Cons.prems(1) g0(1) Cons.prems(3) g0(2,3) c] by (elim disjE exE conjE) simp_all
  then show ?case
  proof cases
    case e
    then show ?thesis by simp
  next
    case ok
    have inv1: "pt_inv s1 pml4" and c1: "walk_clear s1 pml4 ((p0 @ [i]) @ p)"
      using ok(2) Cons.prems(2,4) by (simp_all add: pt_ext_def)
    note d = level_direct [OF Cons.prems(1) g0(1) Cons.prems(3) ok(5)]
    have "vmm_levels t1 p s1 = Inl (Panic ''PMM: out of memory'') \<and> avail s1 < length p
      \<or> (\<exists>t' s'. vmm_levels t1 p s1 = Inr (t', s') \<and> pt_ext s1 pml4 s' \<and> walk s' pml4 ((p0 @ [i]) @ p) = Some t'
          \<and> avail s1 \<le> avail s' + length p \<and> vm_kept s1 pml4 s'
          \<and> (\<forall>gb va. length ((p0 @ [i]) @ p) \<le> length (big_path gb va) \<longrightarrow> direct s' gb pml4 va = direct s1 gb pml4 va))"
      by (rule Cons.IH [OF inv1 _ ok(3) c1]) (use Cons.prems(2) in simp)
    then show ?thesis
    proof (elim disjE exE conjE)
      assume "vmm_levels t1 p s1 = Inl (Panic ''PMM: out of memory'')" "avail s1 < length p"
      then show ?thesis using ok(1,4) by simp
    next
      fix t' s' assume r: "vmm_levels t1 p s1 = Inr (t', s')" "pt_ext s1 pml4 s'" "walk s' pml4 ((p0 @ [i]) @ p) = Some t'"
        "avail s1 \<le> avail s' + length p" "vm_kept s1 pml4 s'"
        "\<forall>gb va. length ((p0 @ [i]) @ p) \<le> length (big_path gb va) \<longrightarrow> direct s' gb pml4 va = direct s1 gb pml4 va"
      have "pt_ext s pml4 s'" "vm_kept s pml4 s'"
        using pt_ext_trans [OF ok(2) r(2)] vm_kept_trans [OF level_kept [OF ok(2,5) g0(1) Cons.prems(3)] r(5)] by blast+
      moreover have "direct s' gb pml4 va = direct s gb pml4 va" if "length (p0 @ i # p) \<le> length (big_path gb va)" for gb va
        using that r(6) d [of gb va] by simp
      ultimately show ?thesis using ok(1,4) r(1,3,4) by auto
    qed
  qed
qed

section \<open>Writing a leaf\<close>

definition same_page :: "u64 \<Rightarrow> u64 \<Rightarrow> bool" where
  "same_page va va' \<longleftrightarrow> va_path va = va_path va' \<and> pml1i va = pml1i va'"

definition leaf_view :: "u64 \<Rightarrow> u64 option" where
  "leaf_view v = (if v AND PTE_PRESENT = 0 then None else Some (v AND PTE_MASK))"

lemma set_leaf:
  assumes inv: "pt_inv s pml4" and t: "walk s pml4 (va_path va) = Some t"
    and s': "s' = set_pte t (pml1i va) v s"
  shows "pt_inv s' pml4" and "good_path p \<Longrightarrow> walk s' pml4 p = walk s pml4 p"
    and "good_path p \<Longrightarrow> walk_clear s' pml4 p = walk_clear s pml4 p"
    and "translate s' pml4 va' = (if same_page va va' then leaf_view v else translate s pml4 va')"
proof -
  have ut: "used_table s t" using pt_invD(2) [OF inv _ t] by simp
  have off: "hhdmOffset s' = hhdmOffset s" by (simp add: s')
  have pt: "pte s' x j = (if x = t \<and> j = pml1i va then v else pte s x j)" if "used_table s x" "unat j < 512" for x j
    using pte_set_pte [of t x "pml1i va" j v s] used_table_aligned [OF pt_invD(1) [OF inv]] ut that by (auto simp: s')
  have w: "walk s' pml4 q = walk s pml4 q" if "good_path q" for q
    by (rule walk_outside [OF inv good_va_path t off _ that])
      (use pt that in \<open>auto simp: good_path_def va_path_def\<close>)
  then show "good_path p \<Longrightarrow> walk s' pml4 p = walk s pml4 p" .
  have us: "used_table s' x = used_table s x" for x by (simp add: s' used_table_def)
  show "pt_inv s' pml4"
    using inv w pmm_inv_set_pte [OF pt_invD(1) [OF inv] ut, of "pml1i va" v]
    unfolding pt_inv_def us by (auto simp: s')
  have sp: "pte s' x j = pte s x j" if "walk s pml4 q = Some x" "good_path q" "length q < 3" "unat j < 512" for q x j
  proof -
    have "x \<noteq> t" using pt_invD(3) [OF inv that(2) good_va_path that(1)] t that(3) by (auto simp: va_path_def)
    then show ?thesis using pt pt_invD(2) [OF inv that(2,1)] that(4) by simp
  qed
  show "walk_clear s' pml4 p = walk_clear s pml4 p" if g: "good_path p"
  proof -
    have "(walk s' pml4 q = Some x \<longrightarrow> pte s' x j AND PTE_PRESENT = 0 \<or> pte s' x j AND PTE_PS = 0)
        \<longleftrightarrow> (walk s pml4 q = Some x \<longrightarrow> pte s x j AND PTE_PRESENT = 0 \<or> pte s x j AND PTE_PS = 0)"
      if q: "p = q @ j # r" for q j r x
    proof -
      have gq: "good_path q" "unat j < 512" "length q < 3" using g q by (auto simp: good_path_def)
      then show ?thesis using w [OF gq(1)] sp [OF _ gq(1,3,2)] by auto
    qed
    then show ?thesis unfolding walk_clear_def by blast
  qed
  have leaf: "pte s' x (pml1i va') = (if same_page va va' then v else pte s x (pml1i va'))"
    if x: "walk s pml4 (va_path va') = Some x" for x
  proof -
    have "x = t \<longleftrightarrow> va_path va' = va_path va"
      using pt_invD(3) [OF inv good_va_path good_va_path x, of va] t x by fastforce
    then show ?thesis using pt [OF pt_invD(2) [OF inv good_va_path x]] by (auto simp: same_page_def)
  qed
  show "translate s' pml4 va' = (if same_page va va' then leaf_view v else translate s pml4 va')"
  proof (cases "walk s pml4 (va_path va')")
    case None
    then have "\<not> same_page va va'" using t by (auto simp: same_page_def)
    then show ?thesis using None w [of "va_path va'"] by (simp add: translate_def)
  next
    case (Some x)
    then show ?thesis using w [of "va_path va'"] leaf [OF Some] by (simp add: translate_def leaf_view_def)
  qed
qed

section \<open>Mapping, unmapping, looking up\<close>

lemma walk_clear_levels:
  assumes "walk_clear s pml4 (va_path va)"
  shows "pte s pml4 (pml4i va) AND PTE_PRESENT = 0 \<or> pte s pml4 (pml4i va) AND PTE_PS = 0"
    and "walk s pml4 [pml4i va] = Some t \<Longrightarrow> pte s t (pml3i va) AND PTE_PRESENT = 0 \<or> pte s t (pml3i va) AND PTE_PS = 0"
    and "walk s pml4 [pml4i va, pml3i va] = Some t \<Longrightarrow> pte s t (pml2i va) AND PTE_PRESENT = 0 \<or> pte s t (pml2i va) AND PTE_PS = 0"
  using assms [unfolded walk_clear_def va_path_def, rule_format, of "[]" "pml4i va"]
    assms [unfolded walk_clear_def va_path_def, rule_format, of "[pml4i va]" "pml3i va"]
    assms [unfolded walk_clear_def va_path_def, rule_format, of "[pml4i va, pml3i va]" "pml2i va"]
  by auto

lemma vmm_get_phys_translate:
  assumes "walk_clear s pml4 (va_path va)"
  shows "vmm_get_phys pml4 va s = (case translate s pml4 va of None \<Rightarrow> 0 | Some f \<Rightarrow> f)"
  using walk_clear_levels [OF assms]
  by (auto simp: vmm_get_phys_def Let_def translate_def va_path_def)

lemma vmm_map_page_ok:
  assumes inv: "pt_inv s pml4" and clear: "walk_clear s pml4 (va_path va)"
  shows "vmm_map_page pml4 va pa flags PAGE_SIZE s = Inl (Panic ''PMM: out of memory'') \<and> avail s < 3
    \<or> (\<exists>s'. vmm_map_page pml4 va pa flags PAGE_SIZE s = Inr s' \<and> pt_inv s' pml4 \<and> vm_kept s pml4 s' \<and> avail s \<le> avail s' + 3
        \<and> (\<forall>p. good_path p \<longrightarrow> walk_clear s' pml4 p = walk_clear s pml4 p)
        \<and> (\<forall>va'. translate s' pml4 va' = (if same_page va va'
             then leaf_view ((pa AND PTE_MASK) OR (PTE_PRESENT OR flags)) else translate s pml4 va')))"
proof -
  have len: "length (va_path va) = 3" by (simp add: va_path_def)
  have "vmm_levels pml4 (va_path va) s = Inl (Panic ''PMM: out of memory'') \<and> avail s < 3
    \<or> (\<exists>t s1. vmm_levels pml4 (va_path va) s = Inr (t, s1) \<and> pt_ext s pml4 s1 \<and> walk s1 pml4 (va_path va) = Some t
        \<and> avail s \<le> avail s1 + 3 \<and> vm_kept s pml4 s1)"
    using vmm_levels_ok [OF inv, of "[]" "va_path va" pml4] clear unfolding len by auto
  then show ?thesis
  proof (elim disjE exE conjE)
    assume "vmm_levels pml4 (va_path va) s = Inl (Panic ''PMM: out of memory'')" "avail s < 3"
    then show ?thesis by (simp add: vmm_map_page_levels)
  next
    fix t s1 assume l: "vmm_levels pml4 (va_path va) s = Inr (t, s1)" "pt_ext s pml4 s1" "walk s1 pml4 (va_path va) = Some t"
      "avail s \<le> avail s1 + 3" "vm_kept s pml4 s1"
    have inv1: "pt_inv s1 pml4" using l(2) by (simp add: pt_ext_def)
    let ?s = "set_pte t (pml1i va) ((pa AND PTE_MASK) OR (PTE_PRESENT OR flags)) s1"
    have "vmm_map_page pml4 va pa flags PAGE_SIZE s = Inr ?s"
      using l(1) by (simp add: vmm_map_page_levels vmm_leaf_def Let_def pte_set_pte_same set_pte_twice)
    moreover have "vm_kept s1 pml4 ?s"
      using set_leaf(1) [OF inv1 l(3) refl] set_leaf(2) [OF inv1 l(3) refl good_single]
        off_frames_set_pte [OF pt_invD(1) [OF inv1] pt_invD(2) [OF inv1 good_va_path l(3)]]
        set_pte_apart [OF inv1 good_va_path l(3) index_bounds(1), of va] set_leaf(2) [OF inv1 l(3) refl]
      by (simp add: vm_kept_def used_table_def del: walk.simps)
    ultimately show ?thesis
      using set_leaf [OF inv1 l(3) refl] l(2,4) vm_kept_trans [OF l(5)] by (simp add: pt_ext_def)
  qed
qed

text \<open>A large page: the entry above it is rewritten, whatever hung below.\<close>

lemma set_big_entry:
  assumes inv: "pt_inv s pml4" and p0: "good_path p0" "walk s pml4 p0 = Some t" and i: "unat i < 512"
    and v: "v AND PTE_PS \<noteq> 0" and s': "s' = set_pte t i v s"
  shows "pt_inv s' pml4" and "good_path p \<Longrightarrow> walk s' pml4 p = (if \<exists>r. p = p0 @ i # r then None else walk s pml4 p)"
    and "used_table s u \<Longrightarrow> unat j < 512 \<Longrightarrow> pte s' u j = (if u = t \<and> j = i then v else pte s u j)"
proof -
  have ut: "used_table s t" using pt_invD(2) [OF inv p0] .
  have off: "hhdmOffset s' = hhdmOffset s" by (simp add: s')
  have pt: "pte s' x j = (if x = t \<and> j = i then v else pte s x j)" if "used_table s x" "unat j < 512" for x j
    using pte_set_pte [of t x i j v s] used_table_aligned [OF pt_invD(1) [OF inv]] ut i that by (auto simp: s')
  then show "used_table s u \<Longrightarrow> unat j < 512 \<Longrightarrow> pte s' u j = (if u = t \<and> j = i then v else pte s u j)" .
  have w: "walk s' pml4 p = (if \<exists>r. p = p0 @ i # r then None else walk s pml4 p)" if g: "good_path p" for p
  proof (cases "\<exists>r. p = p0 @ i # r")
    case False
    have "walk s' pml4 p = walk s pml4 p" by (rule walk_outside [OF inv p0 off _ g, of i]) (use False pt in auto)
    then show ?thesis using False by simp
  next
    case True
    then obtain r where "p = p0 @ i # r" by blast
    moreover have "walk s' pml4 p0 = walk s pml4 p0" by (rule walk_outside [OF inv p0 off _ p0(1), of i]) (use pt in auto)
    ultimately show ?thesis using pt [OF ut i] v p0(2) by (simp add: walk_append)
  qed
  then show "good_path p \<Longrightarrow> walk s' pml4 p = (if \<exists>r. p = p0 @ i # r then None else walk s pml4 p)" .
  have us: "used_table s' x = used_table s x" for x by (simp add: s' used_table_def)
  have "pmm_inv s'" unfolding s' by (rule pmm_inv_set_pte [OF pt_invD(1) [OF inv] ut i])
  moreover have "\<forall>ct \<in> set (child_tables s'). unat (ct_end ct) \<le> 2 ^ 52" using inv by (simp add: pt_inv_def s')
  moreover have "used_table s x" if "good_path p" "walk s' pml4 p = Some x" for p x
    using that w [OF that(1)] pt_invD(2) [OF inv that(1)] by (simp split: if_splits)
  moreover have "p = q" if "good_path p" "good_path q" "walk s' pml4 p = Some x" "walk s' pml4 q = Some x" for p q x
    using that w [OF that(1)] w [OF that(2)] pt_invD(3) [OF inv that(1,2)] by (simp split: if_splits)
  ultimately show "pt_inv s' pml4" unfolding pt_inv_def us by blast
qed

definition same_big :: "bool \<Rightarrow> u64 \<Rightarrow> u64 \<Rightarrow> bool" where
  "same_big gb va va' \<longleftrightarrow> big_path gb va = big_path gb va' \<and> big_index gb va = big_index gb va'"

lemma set_big_leaf:
  assumes inv: "pt_inv s pml4" and t: "walk s pml4 (big_path gb va) = Some t" and v: "v AND PTE_PRESENT \<noteq> 0" "v AND PTE_PS \<noteq> 0"
    and s': "s' = set_pte t (big_index gb va) v s"
  shows "vm_kept s pml4 s'"
    and "walk_clear s' pml4 (big_path gb va') = walk_clear s pml4 (big_path gb va')"
    and "direct s' gb pml4 va' = (if same_big gb va va' then Some (v AND PTE_MASK) else direct s gb pml4 va')"
    and "pml4i va' \<noteq> pml4i va \<Longrightarrow> translate s' pml4 va' = translate s pml4 va'"
    and "pml4i va' \<noteq> pml4i va \<Longrightarrow> walk_clear s' pml4 (va_path va') = walk_clear s pml4 (va_path va')"
proof -
  let ?p = "big_path gb va" and ?i = "big_index gb va"
  note b = set_big_entry [OF inv good_big_path(1) t good_big_path(2) v(2) s']
  have len: "length (big_path gb x) = length ?p" "?p \<noteq> []" "hd ?p = pml4i va" for x by (simp_all add: big_path_def)
  have w: "walk s' pml4 q = walk s pml4 q" if "good_path q" "length q \<le> length ?p" for q
    using b(2) [OF that(1)] that(2) by auto
  have ent: "pte s' x j = pte s x j" if "walk s pml4 q = Some x" "good_path q" "q \<noteq> ?p" "unat j < 512" for q x j
  proof -
    have "x \<noteq> t" using pt_invD(3) [OF inv that(2) good_big_path(1) that(1)] t that(3) by auto
    then show ?thesis using b(3) [OF pt_invD(2) [OF inv that(2,1)] that(4)] by simp
  qed
  have ut: "used_table s t" using pt_invD(2) [OF inv good_big_path(1) t] .
  have "walk s' pml4 [j] = walk s pml4 [j]" if "unat j < 512" for j
    using w [of "[j]"] that len(2) by (cases ?p) (simp_all add: good_path_def)
  moreover have "apart s' pml4 n \<and> (\<forall>j. unat j < 512 \<longrightarrow> pte s' n j = pte s n j)" if "apart s pml4 n" for n
    unfolding s' by (rule set_pte_apart [OF inv good_big_path(1) t good_big_path(2) _ that])
      (use b(2) in \<open>simp add: s' split: if_splits\<close>)
  ultimately show "vm_kept s pml4 s'"
    using b(1) off_frames_set_pte [OF pt_invD(1) [OF inv] ut good_big_path(2)]
    by (simp add: vm_kept_def used_table_def s' del: walk.simps)
  show "walk_clear s' pml4 (big_path gb va') = walk_clear s pml4 (big_path gb va')"
  proof -
    have "(walk s' pml4 q = Some x \<longrightarrow> pte s' x j AND PTE_PRESENT = 0 \<or> pte s' x j AND PTE_PS = 0)
        \<longleftrightarrow> (walk s pml4 q = Some x \<longrightarrow> pte s x j AND PTE_PRESENT = 0 \<or> pte s x j AND PTE_PS = 0)"
      if q: "big_path gb va' = q @ j # r" for q j r x
    proof -
      have "length q < length ?p" using len(1) [of va'] q by (metis add_Suc_right length_Cons length_append less_add_Suc1)
      moreover from this have "q \<noteq> ?p" by blast
      moreover have "good_path q" "unat j < 512" using good_big_path(1) [of gb va'] q by (auto simp: good_path_def)
      ultimately show ?thesis using w [of q] ent [of q x j] by auto
    qed
    then show ?thesis unfolding walk_clear_def by blast
  qed
  have w': "walk s' pml4 (big_path gb va') = walk s pml4 (big_path gb va')" using w [OF good_big_path(1)] by simp
  show "direct s' gb pml4 va' = (if same_big gb va va' then Some (v AND PTE_MASK) else direct s gb pml4 va')"
  proof (cases "walk s pml4 (big_path gb va')")
    case None
    then show ?thesis using w' t by (auto simp: direct_def same_big_def)
  next
    case (Some x)
    have "x = t \<longleftrightarrow> ?p = big_path gb va'" using pt_invD(3) [OF inv good_big_path(1) good_big_path(1) t, of gb va'] Some t by fastforce
    then have "pte s' x (big_index gb va') = (if same_big gb va va' then v else pte s x (big_index gb va'))"
      using b(3) [OF pt_invD(2) [OF inv good_big_path(1) Some]] by (auto simp: same_big_def)
    then show ?thesis using w' Some v by (simp add: direct_def)
  qed
  show "translate s' pml4 va' = translate s pml4 va'" if ne: "pml4i va' \<noteq> pml4i va"
  proof -
    have "va_path va' \<noteq> ?p @ ?i # r" for r using ne by (auto simp: va_path_def big_path_def)
    then have "walk s' pml4 (va_path va') = walk s pml4 (va_path va')" using b(2) [OF good_va_path] by auto
    moreover have "va_path va' \<noteq> ?p" by (simp add: va_path_def big_path_def)
    ultimately show ?thesis using ent [OF _ good_va_path] by (auto simp: translate_def split: option.splits)
  qed
  show "walk_clear s' pml4 (va_path va') = walk_clear s pml4 (va_path va')" if ne: "pml4i va' \<noteq> pml4i va"
  proof -
    have "(walk s' pml4 q = Some x \<longrightarrow> pte s' x j AND PTE_PRESENT = 0 \<or> pte s' x j AND PTE_PS = 0)
        \<longleftrightarrow> (walk s pml4 q = Some x \<longrightarrow> pte s x j AND PTE_PRESENT = 0 \<or> pte s x j AND PTE_PS = 0)"
      if q: "va_path va' = q @ j # r" for q j r x
    proof -
      have g: "good_path q" "unat j < 512" using good_va_path [of va'] q by (auto simp: good_path_def)
      have "q = [] \<or> hd q = pml4i va'" using q by (cases q) (simp_all add: va_path_def)
      then have "q \<noteq> ?p" "q \<noteq> ?p @ ?i # r'" for r' using len(2,3) ne by (auto simp: hd_append)
      then have "walk s' pml4 q = walk s pml4 q" "q \<noteq> ?p" using b(2) [OF g(1)] by auto
      then show ?thesis using ent [of q x j] g by auto
    qed
    then show ?thesis unfolding walk_clear_def by blast
  qed
qed

lemma vmm_map_big_ok:
  assumes inv: "pt_inv s pml4" and clear: "walk_clear s pml4 (big_path gb va)" and fl: "flags AND PTE_MASK = 0"
  shows "vmm_map_page pml4 va pa flags (big_size gb) s = Inl (Panic ''PMM: out of memory'') \<and> avail s < 2
    \<or> (\<exists>s'. vmm_map_page pml4 va pa flags (big_size gb) s = Inr s' \<and> vm_kept s pml4 s' \<and> avail s \<le> avail s' + 2
        \<and> (\<forall>va'. walk_clear s' pml4 (big_path gb va') = walk_clear s pml4 (big_path gb va'))
        \<and> (\<forall>va'. direct s' gb pml4 va' = (if same_big gb va va' then Some (pa AND PTE_MASK) else direct s gb pml4 va'))
        \<and> (\<forall>va'. pml4i va' \<noteq> pml4i va \<longrightarrow> translate s' pml4 va' = translate s pml4 va'
             \<and> walk_clear s' pml4 (va_path va') = walk_clear s pml4 (va_path va')))"
proof -
  have "vmm_levels pml4 (big_path gb va) s = Inl (Panic ''PMM: out of memory'') \<and> avail s < 2
    \<or> (\<exists>t s1. vmm_levels pml4 (big_path gb va) s = Inr (t, s1) \<and> pt_ext s pml4 s1 \<and> walk s1 pml4 (big_path gb va) = Some t
        \<and> avail s \<le> avail s1 + 2 \<and> vm_kept s pml4 s1 \<and> (\<forall>x. direct s1 gb pml4 x = direct s gb pml4 x))"
    using vmm_levels_ok [OF inv, of "[]" "big_path gb va" pml4] clear by (cases gb) fastforce+
  then show ?thesis
  proof (elim disjE exE conjE)
    assume "vmm_levels pml4 (big_path gb va) s = Inl (Panic ''PMM: out of memory'')" "avail s < 2"
    then show ?thesis by (simp add: vmm_map_page_levels)
  next
    fix t s1 assume l: "vmm_levels pml4 (big_path gb va) s = Inr (t, s1)" "pt_ext s pml4 s1" "walk s1 pml4 (big_path gb va) = Some t"
      "avail s \<le> avail s1 + 2" "vm_kept s pml4 s1" "\<forall>x. direct s1 gb pml4 x = direct s gb pml4 x"
    define v where "v = (pa AND PTE_MASK) OR (PTE_PRESENT OR (PTE_PS OR flags))"
    define s' where "s' = set_pte t (big_index gb va) v s1"
    have f: "(PTE_PS OR flags) AND PTE_MASK = 0" using fl by (simp add: pte_defs bit.conj_disj_distrib2)
    have v: "v AND PTE_PRESENT \<noteq> 0" "v AND PTE_MASK = pa AND PTE_MASK"
      using entry_fields(2,3) [OF _ f, of "pa AND PTE_MASK"] by (simp_all add: v_def and.assoc)
    have "v AND PTE_PS \<noteq> 0" by (simp add: v_def bit.conj_disj_distrib2 or_eq_0_iff pte_defs)
    note b = set_big_leaf [OF _ l(3) v(1) this s'_def]
    have inv1: "pt_inv s1 pml4" using l(2) by (simp add: pt_ext_def)
    have "vmm_map_page pml4 va pa flags (big_size gb) s = Inr s'"
      using l(1) by (simp add: vmm_map_page_levels vmm_leaf_def Let_def pte_set_pte_same set_pte_twice s'_def v_def or.assoc)
    moreover have "vm_kept s pml4 s'" using vm_kept_trans [OF l(5) b(1) [OF inv1]] .
    moreover have "avail s \<le> avail s' + 2" using l(4) by (simp add: s'_def)
    ultimately show ?thesis using b(2-5) [OF inv1] l(2,6) v(2) by (simp add: pt_ext_def)
  qed
qed

lemma vmm_unmap_page_ok:
  assumes inv: "pt_inv s pml4" and clear: "walk_clear s pml4 (va_path va)"
  shows "pt_inv (vmm_unmap_page pml4 va s) pml4
    \<and> (\<forall>p. good_path p \<longrightarrow> walk_clear (vmm_unmap_page pml4 va s) pml4 p = walk_clear s pml4 p)
    \<and> (\<forall>va'. translate (vmm_unmap_page pml4 va s) pml4 va' =
         (if same_page va va' then None else translate s pml4 va'))"
proof (cases "walk s pml4 (va_path va)")
  case None
  then have "vmm_unmap_page pml4 va s = s"
    using walk_clear_levels [OF clear] by (auto simp: vmm_unmap_page_def Let_def va_path_def split: if_splits)
  moreover have "translate s pml4 va' = None" if "same_page va va'" for va'
    using None that by (simp add: translate_def same_page_def)
  ultimately show ?thesis using inv by simp
next
  case (Some t)
  then have "vmm_unmap_page pml4 va s = set_pte t (pml1i va) 0 s"
    by (auto simp: vmm_unmap_page_def Let_def va_path_def split: if_splits)
  then show ?thesis using set_leaf [OF inv Some refl, where v = 0] by (simp add: leaf_view_def)
qed

section \<open>New page maps\<close>

lemma page_offset:
  fixes t j :: u64
  assumes "unat j < 512" and "k < 8"
  shows "unat (t + 8 * j + of_nat k - t) = 8 * unat j + k"
proof -
  have "unat (8 * j + of_nat k) = 8 * unat j + k"
    using assms by (simp add: unat_word_ariths unat_of_nat)
  then show ?thesis by (simp add: algebra_simps)
qed

lemma new_table_entries:
  assumes src: "page_aligned src" "unat src + 4096 < 2 ^ 64" and dst: "page_aligned dst" "unat dst + 4096 < 2 ^ 64"
    and ne: "src \<noteq> dst" and j: "unat j < 512"
    and m2: "m2 = fst (memset (fst (memcpy m dst src PAGE_SIZE)) dst 0 (PAGE_SIZE div 2))"
  shows "read64 m2 (dst + 8 * j) = (if unat j < 256 then 0 else read64 m (src + 8 * j))"
    and "4096 \<le> unat (b - dst) \<Longrightarrow> m2 b = m b"
proof -
  have "unat src + 4096 \<le> unat dst \<or> unat dst \<le> unat src"
    using src(1) dst(1) ne by (auto elim!: dvdE)
  then have cp: "fst (memcpy m dst src PAGE_SIZE) = copied m dst src 4096"
    using src(2) dst(2) by (simp add: memcpy_def rep_movsb_eq)
  have half: "unat (PAGE_SIZE div 2) = 2048" by (simp add: PAGE_SIZE_def)
  have eq: "m2 = fill_bytes (copied m dst src 4096) dst 0 2048"
    unfolding m2 cp memset_eq half by simp
  show "m2 b = m b" if "4096 \<le> unat (b - dst)" using that by (simp add: eq fill_bytes_def copied_def)
  show "read64 m2 (dst + 8 * j) = (if unat j < 256 then 0 else read64 m (src + 8 * j))"
  proof (cases "unat j < 256")
    case True
    then show ?thesis
      unfolding eq using read64_fill_zero_inside [of "dst + 8 * j" dst 2048] page_offset [OF j] by simp
  next
    case False
    have "read64 m2 (dst + 8 * j) = read64 (\<lambda>x. m (src + (x - dst))) (dst + 8 * j)"
      by (rule read64_cong_bytes) (use False page_offset [OF j] j in \<open>simp add: eq fill_bytes_def copied_def\<close>)
    also have "\<dots> = read64 m (src + 8 * j)" by (simp add: read64_def add.assoc)
    finally show ?thesis using False by simp
  qed
qed

lemma translate_shared:
  assumes inv: "pt_inv s k" and off: "hhdmOffset s' = hhdmOffset s"
    and first: "pte s' n (pml4i va) = pte s k (pml4i va)"
    and same: "\<And>t j. used_table s t \<Longrightarrow> unat j < 512 \<Longrightarrow> pte s' t j = pte s t j"
  shows "translate s' n va = translate s k va"
proof -
  let ?e = "pte s k (pml4i va)"
  have "walk s' (table_of s ?e) [pml3i va, pml2i va] = walk s (table_of s ?e) [pml3i va, pml2i va]"
    if e: "?e AND PTE_PRESENT \<noteq> 0" "?e AND PTE_PS = 0"
  proof (rule walk_cong [OF off])
    fix q j r t' assume q: "[pml3i va, pml2i va] = q @ j # r" "walk s (table_of s ?e) q = Some t'"
    have "good_path (pml4i va # q)" "unat j < 512"
      using q(1) by (auto simp: good_path_def Cons_eq_append_conv)
    moreover have "walk s k (pml4i va # q) = Some t'" using e q(2) by simp
    ultimately show "pte s' t' j = pte s t' j" using same pt_invD(2) [OF inv] by blast
  qed
  then have w: "walk s' n (va_path va) = walk s k (va_path va)"
    using first off by (auto simp: va_path_def table_of_def)
  then show ?thesis
    using same pt_invD(2) [OF inv good_va_path]
    by (auto simp: translate_def split: option.splits)
qed

lemma free_levels_absent:
  "(\<And>k. k < n \<Longrightarrow> pte s (tp + hhdmOffset s) (i + of_nat k) AND PTE_PRESENT = 0) \<Longrightarrow>
     free_levels tp lv i n s = Inr s"
proof (induction n arbitrary: i)
  case (Suc n)
  have "pte s (tp + hhdmOffset s) i AND PTE_PRESENT = 0" using Suc.prems [of 0] by simp
  moreover have "free_levels tp lv (i + 1) n s = Inr s"
  proof (rule Suc.IH)
    fix k assume "k < n"
    then show "pte s (tp + hhdmOffset s) (i + 1 + of_nat k) AND PTE_PRESENT = 0"
      using Suc.prems [of "Suc k"] by (simp add: add.assoc)
  qed
  ultimately show ?case by simp
qed simp

lemma new_pagemap_ok:
  assumes inv: "pt_inv s (top_level kpm)" and nz: "0 \<notin> page_addr s ` page_locs s"
  shows "new_pagemap kpm s = Inl (Panic ''PMM: out of memory'')
    \<or> (\<exists>l pm s'. new_pagemap kpm s = Inr (pm, s') \<and> pmm_inv s' \<and> vma_inv pm
        \<and> hhdmOffset s' = hhdmOffset s \<and> top_level pm = page_node s l \<and> l \<in> page_locs s
        \<and> pmm_live s' = insert (page_addr s l) (pmm_live s) \<and> page_addr s l \<notin> pmm_live s
        \<and> (\<forall>i. unat i < 512 \<longrightarrow> pte s' (top_level pm) i = (if unat i < 256 then 0 else pte s (top_level kpm) i))
        \<and> (\<forall>t j. used_table s t \<longrightarrow> unat j < 512 \<longrightarrow> pte s' t j = pte s t j)
        \<and> pmm_layout s' = pmm_layout s \<and> avail s = Suc (avail s')
        \<and> (\<forall>u. used_table s' u \<longleftrightarrow> u = top_level pm \<or> used_table s u) \<and> \<not> used_table s (top_level pm))"
proof -
  let ?k = "top_level kpm"
  have pinv: "pmm_inv s" and wf: "pmm_wf s" using pt_invD(1) [OF inv] pmm_inv_wf by blast+
  consider (oom) "allocate_page s = Inl (Panic ''PMM: out of memory'')"
    | (ok) l s1 where "allocate_page s = Inr (page_addr s l, s1)" "pmm_taken s l s1"
    using allocate_page_outcome [OF pinv] by blast
  then show ?thesis
  proof cases
    case oom
    then show ?thesis by (simp add: new_pagemap_def)
  next
    case (ok l s1)
    have l: "l \<in> page_locs s" and inv1: "pmm_inv s1" and lay: "pmm_layout s1 = pmm_layout s"
      and l1: "l \<in> pages_in PAGE_USED s1"
      using ok(2) by (simp_all add: pmm_taken_def)
    note fr = taken_frames [OF ok(2)]
    define n where "n = page_node s l"
    define m2 where "m2 = fst (memset (fst (memcpy (kmem s1) n ?k PAGE_SIZE)) n 0 (PAGE_SIZE div 2))"
    have uk: "used_table s ?k" using pt_invD(2) [OF inv, of "[]"] by (simp add: good_path_def)
    then obtain lk where lk: "lk \<in> page_locs s" "?k = page_node s lk"
      using pages_in_subset unfolding used_table_def by blast
    have room: "unat (page_node s x) + 4096 < 2 ^ 64" if "x \<in> page_locs s" for x
    proof -
      obtain a b where ab: "x = (a, b)" by force
      then have "ct_wf (hhdmOffset s) (child_tables s ! a)" using wf_table [OF wf] that by (simp add: page_locs_def)
      then show ?thesis using unat_page_addr(2,3) [OF wf that [unfolded ab]] ab by (simp add: ct_wf_def)
    qed
    have ne: "?k \<noteq> n" using fr(3) [OF wf] uk by (auto simp: n_def)
    note al = page_node_props(2) [OF wf lk(1)] page_node_props(2) [OF wf l]
    note nt = new_table_entries [OF al(1) [folded lk(2)] room [OF lk(1), folded lk(2)]
        al(2) [folded n_def] room [OF l, folded n_def] ne _ m2_def]
    have n1: "page_node s1 l = n" using layout_cong(3) [OF lay l] by (simp add: n_def)
    have np: "page_addr s l + hhdmOffset s1 = n" using fr(2) by (simp add: n_def page_node_def)
    have step: "new_pagemap kpm s = Inr (\<lparr>top_level = n,
        free_ranges = [\<lparr>vaddr = 0x1000, rsize = 400000000000 - 0x1000\<rparr>], used_ranges = []\<rparr>, s1\<lparr>kmem := m2\<rparr>)"
      using ok(1) nz l np by (auto simp: new_pagemap_def Let_def m2_def)
    have inv2: "pmm_inv (s1\<lparr>kmem := m2\<rparr>)"
      by (rule pmm_inv_kmem [OF inv1]) (use nt(2) [of 0] l1 n1 in auto)
    have vm: "vma_inv \<lparr>top_level = n, free_ranges = [\<lparr>vaddr = 0x1000, rsize = 400000000000 - 0x1000\<rparr>], used_ranges = []\<rparr>"
      by (simp add: vma_inv_def tree_ok_def range_ok_def rt.cover_def)
    have keep: "pte (s1\<lparr>kmem := m2\<rparr>) t j = pte s t j" if "used_table s t" "unat j < 512" for t j
    proof -
      have tn: "t \<noteq> n" using fr(3) [OF wf] that(1) by (auto simp: n_def)
      have "read64 m2 (t + 8 * j) = read64 (kmem s1) (t + 8 * j)"
      proof (rule read64_cong_bytes)
        fix k :: nat assume k: "k < 8"
        have "4096 \<le> unat (t + of_nat (unat (8 * j + of_nat k)) - n)"
          using byte_of_other_page [of n t "unat (8 * j + of_nat k)"] al(2) [folded n_def] tn
            used_table_aligned [OF pinv that(1)] page_offset [OF that(2) k, of 0] that(2) k by simp
        then show "m2 (t + 8 * j + of_nat k) = kmem s1 (t + 8 * j + of_nat k)"
          using nt(2) [of 0] by (simp add: add.assoc)
      qed
      then show ?thesis using pte_taken [OF pinv ok(2) that] by (simp add: pte_def)
    qed
    have ent: "pte (s1\<lparr>kmem := m2\<rparr>) n j = (if unat j < 256 then 0 else pte s ?k j)" if "unat j < 512" for j
      using nt(1) [OF that] pte_taken [OF pinv ok(2) uk that] by (simp add: pte_def)
    have live: "pmm_live (s1\<lparr>kmem := m2\<rparr>) = pmm_live s1"
      by (simp add: pmm_live_def page_addr_def pages_in_def page_locs_def page_st_def)
    have rest: "pmm_layout (s1\<lparr>kmem := m2\<rparr>) = pmm_layout s" "avail (s1\<lparr>kmem := m2\<rparr>) = avail s1" "used_table (s1\<lparr>kmem := m2\<rparr>) u = used_table s1 u" for u
      using lay by (simp_all add: pmm_layout_def avail_def used_table_def page_node_def page_addr_def pages_in_def page_locs_def page_st_def)
    show ?thesis
      using step inv2 vm keep ent pmm_taken_live [OF wf ok(2)] live fr(2) l n_def rest avail_taken [OF ok(2)] fr(1) fr(3) [OF wf]
      by (intro disjI2 exI [of _ l] exI) auto
  qed
qed

section \<open>Runs of pages\<close>

text \<open>Two addresses lie in the same page exactly when they agree from bit 12 to bit 47.\<close>

lemma same_page_vpn: "same_page va va' \<longleftrightarrow> (unat va div 4096) mod 2 ^ 36 = (unat va' div 4096) mod 2 ^ 36"
proof -
  have bits: "w AND 0x1ff = take_bit 9 w" for w :: u64
    by (simp add: take_bit_eq_mask mask_eq_exp_minus_1)
  have "same_page va va' \<longleftrightarrow> take_bit 36 (drop_bit 12 va) = take_bit 36 (drop_bit 12 va')"
  proof
    assume "same_page va va'"
    then have e: "take_bit 9 (drop_bit 12 va) = take_bit 9 (drop_bit 12 va')"
      "take_bit 9 (drop_bit 21 va) = take_bit 9 (drop_bit 21 va')"
      "take_bit 9 (drop_bit 30 va) = take_bit 9 (drop_bit 30 va')"
      "take_bit 9 (drop_bit 39 va) = take_bit 9 (drop_bit 39 va')"
      by (simp_all add: same_page_def va_path_def pml1i_def pml2i_def pml3i_def pml4i_def bits)
    show "take_bit 36 (drop_bit 12 va) = take_bit 36 (drop_bit 12 va')"
    proof (rule bit_word_eqI)
      fix n assume n: "n < LENGTH(64)"
      consider "n < 9" | "9 \<le> n" "n < 18" | "18 \<le> n" "n < 27" | "27 \<le> n" "n < 36" | "36 \<le> n" by linarith
      then show "bit (take_bit 36 (drop_bit 12 va)) n = bit (take_bit 36 (drop_bit 12 va')) n"
        using arg_cong [OF e(1), of "\<lambda>w. bit w n"] arg_cong [OF e(2), of "\<lambda>w. bit w (n - 9)"]
          arg_cong [OF e(3), of "\<lambda>w. bit w (n - 18)"] arg_cong [OF e(4), of "\<lambda>w. bit w (n - 27)"]
        by cases (auto simp: bit_simps)
    qed
  next
    assume e: "take_bit 36 (drop_bit 12 va) = take_bit 36 (drop_bit 12 va')"
    have slice: "take_bit 9 (drop_bit k (take_bit 36 (drop_bit 12 x))) = take_bit 9 (drop_bit (12 + k) x)"
      if "k \<le> 27" for k and x :: u64
      using that by (intro bit_word_eqI) (auto simp: bit_simps add.assoc)
    have "take_bit 9 (drop_bit (12 + k) va) = take_bit 9 (drop_bit (12 + k) va')" if "k \<le> 27" for k
      using slice [OF that, of va] slice [OF that, of va'] unfolding e by simp
    from this [of 0] this [of 9] this [of 18] this [of 27] show "same_page va va'"
      by (simp add: same_page_def va_path_def pml1i_def pml2i_def pml3i_def pml4i_def bits)
  qed
  then show ?thesis
    by (simp add: word_unat_eq_iff unsigned_take_bit_eq unsigned_drop_bit_eq take_bit_eq_mod drop_bit_eq_div
        unat_div unat_mod)
qed

lemma page_step_vpn:
  assumes "k < 2 ^ 36"
  shows "(unat (va + of_nat k * PAGE_SIZE) div 4096) mod 2 ^ 36 = (unat va div 4096 + k) mod 2 ^ 36"
proof -
  have "unat (of_nat k * PAGE_SIZE) = k * 4096"
    using assms by (simp add: unat_word_ariths unat_of_nat)
  then have "unat (va + of_nat k * PAGE_SIZE) = take_bit 64 (unat va + k * 4096)"
    by (simp add: unat_word_ariths take_bit_eq_mod)
  moreover have "take_bit 36 (drop_bit 12 (take_bit 64 x)) = take_bit 36 (drop_bit 12 x)" for x :: nat
    by (simp add: drop_bit_take_bit)
  ultimately show ?thesis by (simp add: take_bit_eq_mod drop_bit_eq_div add.commute)
qed

lemma page_run_distinct:
  assumes "i < 2 ^ 36" and "j < 2 ^ 36" and "same_page (va + of_nat i * PAGE_SIZE) (va + of_nat j * PAGE_SIZE)"
  shows "i = j"
proof -
  have "(unat va div 4096 + i) mod 2 ^ 36 = (unat va div 4096 + j) mod 2 ^ 36"
    using assms unfolding same_page_vpn by (simp only: page_step_vpn)
  then have "i mod 2 ^ 36 = j mod 2 ^ 36" by (simp add: nat_mod_eq_iff)
  then show ?thesis using assms(1,2) by simp
qed

text \<open>
  The loop of \<open>vmm_map_pages_continuous\<close> from its pass \<open>i\<close> on: the pages of the run are
  mapped, the others as before.
\<close>

lemma vmm_map_pages_loop_ok:
  assumes "pt_inv s pml4" and "i + n \<le> 2 ^ 36"
    and "\<And>k. k < n \<Longrightarrow> walk_clear s pml4 (va_path (va + of_nat (i + k) * PAGE_SIZE))"
    and "vmm_map_pages_loop pml4 va pa flags n (of_nat i) s = Inr s'"
  shows "pt_inv s' pml4 \<and> (\<forall>p. good_path p \<longrightarrow> walk_clear s' pml4 p = walk_clear s pml4 p)
    \<and> (\<forall>k < n. translate s' pml4 (va + of_nat (i + k) * PAGE_SIZE) =
         leaf_view (((pa + of_nat (i + k) * PAGE_SIZE) AND PTE_MASK) OR (PTE_PRESENT OR flags)))
    \<and> (\<forall>va'. (\<forall>k < n. \<not> same_page (va + of_nat (i + k) * PAGE_SIZE) va') \<longrightarrow>
         translate s' pml4 va' = translate s pml4 va')"
  using assms
proof (induction n arbitrary: i s)
  case (Suc n)
  let ?v = "\<lambda>k. va + of_nat k * PAGE_SIZE"
  obtain s1 where s1: "vmm_map_page pml4 (?v i) (pa + of_nat i * PAGE_SIZE) flags PAGE_SIZE s = Inr s1"
      and rest: "vmm_map_pages_loop pml4 va pa flags n (of_nat (Suc i)) s1 = Inr s'"
    using Suc.prems(4) by (auto simp: kres_simps add.commute)
  have c: "walk_clear s pml4 (va_path (?v i))" using Suc.prems(3) [of 0] by simp
  have m1: "pt_inv s1 pml4" "\<forall>p. good_path p \<longrightarrow> walk_clear s1 pml4 p = walk_clear s pml4 p"
    "\<forall>va'. translate s1 pml4 va' = (if same_page (?v i) va'
       then leaf_view (((pa + of_nat i * PAGE_SIZE) AND PTE_MASK) OR (PTE_PRESENT OR flags))
       else translate s pml4 va')"
    using vmm_map_page_ok [OF Suc.prems(1) c, of "pa + of_nat i * PAGE_SIZE" flags] s1 by auto
  have cl: "walk_clear s1 pml4 (va_path (?v (Suc i + k)))" if "k < n" for k
    using Suc.prems(3) [of "Suc k"] that m1(2) by simp
  note IH = Suc.IH [OF m1(1) _ cl rest]
  have len: "Suc i + n \<le> 2 ^ 36" using Suc.prems(2) by simp
  have apart: "\<not> same_page (?v (Suc i + k)) (?v i)" if "k < n" for k
    using page_run_distinct [of "Suc i + k" i va] that len by auto
  have "translate s' pml4 (?v (i + k)) =
      leaf_view (((pa + of_nat (i + k) * PAGE_SIZE) AND PTE_MASK) OR (PTE_PRESENT OR flags))" if "k < Suc n" for k
  proof (cases k)
    case 0
    have "translate s' pml4 (?v i) = translate s1 pml4 (?v i)" using IH [OF len] apart by blast
    then show ?thesis using m1(3) 0 by (simp add: same_page_def)
  next
    case (Suc k')
    then have "k' < n" using that by simp
    then show ?thesis using IH [OF len] Suc by (metis add_Suc_right add_Suc)
  qed
  moreover have "translate s' pml4 va' = translate s pml4 va'"
    if "\<forall>k < Suc n. \<not> same_page (?v (i + k)) va'" for va'
  proof -
    have "\<forall>k < n. \<not> same_page (?v (Suc i + k)) va'"
      using that by (metis Suc_mono add_Suc add_Suc_right)
    moreover have "\<not> same_page (?v i) va'" using that by (metis add.right_neutral zero_less_Suc)
    ultimately show ?thesis using IH [OF len] m1(3) by simp
  qed
  ultimately show ?case using IH [OF len] m1(2) by blast
qed simp

text \<open>
  The direct-map loop ends: its cursor and its bound are multiples of the page size, so the
  cursor never steps over the bound.
\<close>

lemma vmm_hhdm_loop_ends:
  assumes "unat virt_end = unat va + unat big * n"
  shows "\<exists>r. vmm_hhdm_loop pml4 big flags virt_end va pa s = Some r"
  using assms
proof (induction n arbitrary: va pa s)
  case 0
  then have "\<not> va < virt_end" by (simp add: word_less_nat_alt)
  then show ?case by (subst vmm_hhdm_loop.simps) simp
next
  case (Suc n)
  have "unat (va + big) = unat va + unat big"
    by (rule unat_add_no_wrap) (use Suc.prems unat_lt_64 [of virt_end] in simp)
  then have "unat virt_end = unat (va + big) + unat big * n" using Suc.prems by simp
  from Suc.IH [OF this] show ?case
    by (subst vmm_hhdm_loop.simps) (auto split: sum.splits)
qed

lemma unat_ALIGN_pow:
  assumes "k \<le> 63" and "unat x + 2 ^ k \<le> 2 ^ 64" and "a = 2 ^ k"
  shows "unat (ALIGN_UP x a) = (unat x + 2 ^ k - 1) div 2 ^ k * 2 ^ k"
    and "unat (ALIGN_DOWN x a) = unat x div 2 ^ k * 2 ^ k"
proof -
  have m: "a - 1 = mask k" using assms(3) by (simp add: mask_eq_exp_minus_1)
  have "int (unat (mask k :: u64)) = int (2 ^ k - 1)"
    using assms(1) uint_mask_eq [of k, where ?'a = 64]
    by (simp add: min_def mask_eq_exp_minus_1 [where ?'a = int] of_nat_diff)
  then have "unat (mask k :: u64) = 2 ^ k - 1" by (simp only: of_nat_eq_iff)
  then have "unat (x + mask k) = unat x + 2 ^ k - 1"
    using assms(2) by (subst unat_add_no_wrap) simp_all
  then show "unat (ALIGN_UP x a) = (unat x + 2 ^ k - 1) div 2 ^ k * 2 ^ k"
    by (simp add: ALIGN_UP_def m unat_and_not_mask minus_mod_eq_div_mult)
  show "unat (ALIGN_DOWN x a) = unat x div 2 ^ k * 2 ^ k"
    by (simp add: ALIGN_DOWN_def m unat_and_not_mask minus_mod_eq_div_mult)
qed

section \<open>Properties\<close>

text \<open>Eight frames, the first of them a zeroed top-level table.\<close>

definition demo_vm :: pmm where
  "demo_vm = \<lparr>hhdmOffset = 0xFFFF800000000000, freelist_head = 0, num_child_tables = 1,
     child_tables = [\<lparr>ct_addr = 0xFFFF800000000F00, ct_start = 0x1000, ct_end = 0x11000, ct_num_pages = 16,
                      ct_pages = PAGE_USED # replicate 15 PAGE_UNINIT\<rparr>],
     total_pages = 16, used_pages = 1, fill_t = 0, fill_p = 1, kmem = (\<lambda>_. 0)\<rparr>"

lemma demo_vm_pages:
  "page_locs demo_vm = {0} \<times> {..< 16}" "pages_in PAGE_USED demo_vm = {(0, 0)}"
  "pages_in PAGE_FREE demo_vm = {}" "pages_in PAGE_UNINIT demo_vm = {0} \<times> {1 ..< 16}"
proof -
  show locs: "page_locs demo_vm = {0} \<times> {..< 16}" by (auto simp: page_locs_def demo_vm_def)
  have st: "page_st demo_vm 0 k = (if k = 0 then PAGE_USED else PAGE_UNINIT)" if "k < 16" for k
    using that by (cases k) (auto simp: page_st_def demo_vm_def)
  show "pages_in PAGE_USED demo_vm = {(0, 0)}" "pages_in PAGE_FREE demo_vm = {}"
    "pages_in PAGE_UNINIT demo_vm = {0} \<times> {1 ..< 16}"
    unfolding pages_in_def locs by (auto simp: st split: if_splits)
qed

lemma demo_vm_pte: "pte demo_vm t i = 0"
  by (simp add: pte_def demo_vm_def read64_def)

lemma demo_vm_walk: "walk demo_vm t p = (if p = [] then Some t else None)"
  by (cases p) (simp_all add: demo_vm_pte)

lemma demo_vm_clear: "walk_clear demo_vm t p"
  by (simp add: walk_clear_def demo_vm_pte)

lemma demo_pt_inv: "pt_inv demo_vm 0xFFFF800000001000"
proof -
  have "pmm_wf demo_vm" by (simp add: pmm_wf_def ct_wf_def demo_vm_def)
  moreover have "pmm_free_list demo_vm []"
    unfolding pmm_free_list_def demo_vm_pages by (simp add: demo_vm_def)
  moreover have "pmm_cursor demo_vm"
    unfolding pmm_cursor_def demo_vm_pages by (auto simp: demo_vm_def behind_cursor_def)
  moreover have "used_pages demo_vm = of_nat (card (pages_in PAGE_USED demo_vm))"
    unfolding demo_vm_pages by (simp add: demo_vm_def)
  ultimately have "pmm_inv demo_vm" unfolding pmm_inv_def pmm_rel_def by blast
  moreover have "used_table demo_vm 0xFFFF800000001000"
    unfolding used_table_def demo_vm_pages by (simp add: page_node_def page_addr_def demo_vm_def)
  moreover have "\<forall>ct \<in> set (child_tables demo_vm). unat (ct_end ct) \<le> 2 ^ 52" by (simp add: demo_vm_def)
  ultimately show ?thesis unfolding pt_inv_def demo_vm_walk by (auto split: if_splits)
qed

lemma demo_vm_avail: "avail demo_vm = 15"
proof -
  have "{0} \<times> {..< 16} - {(0, 0)} = {0 :: nat} \<times> {1 ..< 16 :: nat}" by auto
  then show ?thesis unfolding avail_def demo_vm_pages by (simp add: card_cartesian_product)
qed

lemma same_page_refl [simp]: "same_page va va"
  by (simp add: same_page_def)

lemma leaf_view_entry:
  assumes "flags AND PTE_MASK = 0"
  shows "leaf_view ((pa AND PTE_MASK) OR (PTE_PRESENT OR flags)) = Some (pa AND PTE_MASK)"
  using entry_fields(2,3) [of "pa AND PTE_MASK" flags] assms by (simp add: leaf_view_def and.assoc)

text \<open>
  C8: Mapping a 4 KiB page in well-formed tables, on a path without a large page: afterwards
  the address translates to the frame, every page at another virtual page number translates
  as before, and the tables are well formed; with three frames to spare it cannot fail.
\<close>

theorem vmm_map_page_correct:
  assumes inv: "pt_inv s pml4" and clear: "walk_clear s pml4 (va_path va)" and fl: "flags AND PTE_MASK = 0"
  shows "(3 \<le> avail s \<longrightarrow> (\<exists>s'. vmm_map_page pml4 va pa flags PAGE_SIZE s = Inr s'))
    \<and> (\<forall>s'. vmm_map_page pml4 va pa flags PAGE_SIZE s = Inr s' \<longrightarrow> pt_inv s' pml4
        \<and> vmm_get_phys pml4 va s' = pa AND PTE_MASK
        \<and> (\<forall>va'. walk_clear s pml4 (va_path va') \<longrightarrow> \<not> same_page va va' \<longrightarrow>
             vmm_get_phys pml4 va' s' = vmm_get_phys pml4 va' s))"
proof (intro conjI impI allI)
  note ok = vmm_map_page_ok [OF inv clear, of pa flags]
  show "\<exists>s'. vmm_map_page pml4 va pa flags PAGE_SIZE s = Inr s'" if "3 \<le> avail s" using ok that by auto
  fix s' assume "vmm_map_page pml4 va pa flags PAGE_SIZE s = Inr s'"
  then have s': "pt_inv s' pml4" "\<forall>p. good_path p \<longrightarrow> walk_clear s' pml4 p = walk_clear s pml4 p"
    "\<forall>va'. translate s' pml4 va' = (if same_page va va' then Some (pa AND PTE_MASK) else translate s pml4 va')"
    using ok by (auto simp: leaf_view_entry [OF fl])
  show "pt_inv s' pml4" by (rule s'(1))
  show "vmm_get_phys pml4 va s' = pa AND PTE_MASK"
    using vmm_get_phys_translate [of s' pml4 va] s'(2,3) clear by simp
  show "vmm_get_phys pml4 va' s' = vmm_get_phys pml4 va' s"
    if "walk_clear s pml4 (va_path va')" "\<not> same_page va va'" for va'
    using vmm_get_phys_translate [of s' pml4 va'] vmm_get_phys_translate [of s pml4 va'] s'(2,3) that by simp
qed

theorem vmm_map_page_correct_witness:
  "pt_inv demo_vm 0xFFFF800000001000 \<and> (\<exists>s'. vmm_map_page 0xFFFF800000001000 0x400000 0x7000 PTE_WRITABLE PAGE_SIZE demo_vm = Inr s'
     \<and> vmm_get_phys 0xFFFF800000001000 0x400000 s' = 0x7000 \<and> vmm_get_phys 0xFFFF800000001000 0x401000 s' = 0)"
proof -
  have fl: "PTE_WRITABLE AND PTE_MASK = 0" by (simp add: pte_defs)
  note c = vmm_map_page_correct [OF demo_pt_inv demo_vm_clear fl, of "0x400000" "0x7000"]
  then obtain s' where s': "vmm_map_page 0xFFFF800000001000 0x400000 0x7000 PTE_WRITABLE PAGE_SIZE demo_vm = Inr s'"
    using demo_vm_avail by auto
  moreover have "\<not> same_page 0x400000 0x401000" by (simp add: same_page_vpn)
  moreover have "vmm_get_phys 0xFFFF800000001000 0x401000 demo_vm = 0" by (simp add: vmm_get_phys_def demo_vm_pte)
  moreover have "0x7000 AND PTE_MASK = 0x7000" by (simp add: pte_defs)
  ultimately show ?thesis using c demo_pt_inv demo_vm_clear by auto
qed

text \<open>
  Unmapping makes the address translate to nothing and leaves every other page's
  translation and the well-formedness of the tables; unmapping a page just mapped gives back
  the translations of before for all addresses that were unmapped or elsewhere.
\<close>

theorem vmm_unmap_page_correct:
  assumes inv: "pt_inv s pml4" and clear: "walk_clear s pml4 (va_path va)"
  shows "pt_inv (vmm_unmap_page pml4 va s) pml4 \<and> vmm_get_phys pml4 va (vmm_unmap_page pml4 va s) = 0
    \<and> (\<forall>va'. walk_clear s pml4 (va_path va') \<longrightarrow> \<not> same_page va va' \<longrightarrow>
         vmm_get_phys pml4 va' (vmm_unmap_page pml4 va s) = vmm_get_phys pml4 va' s)"
  using vmm_unmap_page_ok [OF assms] vmm_get_phys_translate [of "vmm_unmap_page pml4 va s" pml4]
    vmm_get_phys_translate [of s pml4] clear by simp

theorem vmm_unmap_page_correct_witness:
  "pt_inv demo_vm 0xFFFF800000001000 \<and> walk_clear demo_vm 0xFFFF800000001000 (va_path 0x400000)
   \<and> pt_inv (vmm_unmap_page 0xFFFF800000001000 0x400000 demo_vm) 0xFFFF800000001000
   \<and> vmm_get_phys 0xFFFF800000001000 0x400000 (vmm_unmap_page 0xFFFF800000001000 0x400000 demo_vm) = 0"
  using vmm_unmap_page_correct [OF demo_pt_inv demo_vm_clear, of "0x400000"] demo_pt_inv demo_vm_clear by simp

text \<open>
  A run of up to \<open>2 ^ 36\<close> pages mapped by \<open>vmm_map_pages_continuous\<close>: afterwards the k-th
  virtual page of the run translates to the k-th frame, for every k, and pages outside the run
  translate as before.
\<close>

theorem vmm_map_pages_continuous_correct:
  assumes inv: "pt_inv s pml4" and n: "unat n \<le> 2 ^ 36" and fl: "flags AND PTE_MASK = 0"
    and clear: "\<And>k. k < unat n \<Longrightarrow> walk_clear s pml4 (va_path (va + of_nat k * PAGE_SIZE))"
    and run: "vmm_map_pages_continuous pml4 va pa n flags s = Inr s'"
  shows "pt_inv s' pml4
    \<and> (\<forall>k < unat n. vmm_get_phys pml4 (va + of_nat k * PAGE_SIZE) s' = (pa + of_nat k * PAGE_SIZE) AND PTE_MASK)
    \<and> (\<forall>va'. walk_clear s pml4 (va_path va') \<longrightarrow> (\<forall>k < unat n. \<not> same_page (va + of_nat k * PAGE_SIZE) va') \<longrightarrow>
         vmm_get_phys pml4 va' s' = vmm_get_phys pml4 va' s)"
proof -
  have L: "pt_inv s' pml4 \<and> (\<forall>p. good_path p \<longrightarrow> walk_clear s' pml4 p = walk_clear s pml4 p)
    \<and> (\<forall>k < unat n. translate s' pml4 (va + of_nat (0 + k) * PAGE_SIZE) =
         leaf_view (((pa + of_nat (0 + k) * PAGE_SIZE) AND PTE_MASK) OR (PTE_PRESENT OR flags)))
    \<and> (\<forall>va'. (\<forall>k < unat n. \<not> same_page (va + of_nat (0 + k) * PAGE_SIZE) va') \<longrightarrow>
         translate s' pml4 va' = translate s pml4 va')"
    by (rule vmm_map_pages_loop_ok [OF inv]) (use n clear run in \<open>simp_all add: vmm_map_pages_continuous_def\<close>)
  then show ?thesis
    using vmm_get_phys_translate [of s' pml4] vmm_get_phys_translate [of s pml4] clear
    by (simp add: leaf_view_entry [OF fl])
qed

theorem vmm_map_pages_continuous_correct_witness:
  "\<exists>s'. vmm_map_pages_continuous 0xFFFF800000001000 0x400000 0x7000 1 PTE_WRITABLE demo_vm = Inr s'
     \<and> vmm_get_phys 0xFFFF800000001000 0x400000 s' = 0x7000"
proof -
  have fl: "PTE_WRITABLE AND PTE_MASK = 0" by (simp add: pte_defs)
  obtain s' where "vmm_map_page 0xFFFF800000001000 0x400000 0x7000 PTE_WRITABLE PAGE_SIZE demo_vm = Inr s'"
    using vmm_map_page_ok [OF demo_pt_inv demo_vm_clear, of "0x400000" "0x7000" PTE_WRITABLE] demo_vm_avail by auto
  then have run: "vmm_map_pages_continuous 0xFFFF800000001000 0x400000 0x7000 1 PTE_WRITABLE demo_vm = Inr s'"
    by (simp add: vmm_map_pages_continuous_def)
  have "0x7000 AND PTE_MASK = 0x7000" by (simp add: pte_defs)
  then show ?thesis
    using vmm_map_pages_continuous_correct [OF demo_pt_inv _ fl demo_vm_clear run] run by auto
qed

text \<open>
  The loop that maps the direct map with large pages ends, for every request that stays
  below the top of the address space.
\<close>

theorem vmm_map_pages_hhdm_ends:
  assumes "unat virt_addr + unat (pages * PAGE_SIZE) + 2 ^ 30 \<le> 2 ^ 64"
  shows "\<exists>r. vmm_map_pages_hhdm gb pml4 virt_addr phys_addr pages flags s = Some r"
proof -
  define k :: nat where "k = (if gb then 30 else 21)"
  define big where "big = (if gb then JUMBO_PAGE_SIZE else LARGE_PAGE_SIZE)"
  let ?e = "virt_addr + pages * PAGE_SIZE"
  have big: "big = 2 ^ k" "unat big = 2 ^ k" "k \<le> 63" "(2::nat) ^ k \<le> 2 ^ 30"
    by (simp_all add: big_def k_def JUMBO_PAGE_SIZE_def LARGE_PAGE_SIZE_def)
  have e: "unat ?e = unat virt_addr + unat (pages * PAGE_SIZE)"
    by (rule unat_add_no_wrap) (use assms in simp)
  have up: "unat (ALIGN_UP ?e big) = (unat ?e + 2 ^ k - 1) div 2 ^ k * 2 ^ k"
    by (rule unat_ALIGN_pow(1) [OF big(3) _ big(1)]) (use assms e big(4) in simp)
  have down: "unat (ALIGN_DOWN virt_addr big) = unat virt_addr div 2 ^ k * 2 ^ k"
    by (rule unat_ALIGN_pow(2) [OF big(3) _ big(1)]) (use assms big(4) in simp)
  have pos: "(1::nat) \<le> 2 ^ k" by simp
  have le: "unat virt_addr div 2 ^ k \<le> (unat ?e + 2 ^ k - 1) div 2 ^ k"
    by (rule div_le_mono) (use e pos in linarith)
  have split: "b * c = a * c + c * (b - a)" if "a \<le> b" for a b c :: nat
    using that by (simp add: diff_mult_distrib2 mult.commute)
  have "unat (ALIGN_UP ?e big) = unat (ALIGN_DOWN virt_addr big)
      + unat big * ((unat ?e + 2 ^ k - 1) div 2 ^ k - unat virt_addr div 2 ^ k)"
    unfolding up down big(2) using split [OF le] .
  from vmm_hhdm_loop_ends [OF this] show ?thesis
    by (simp only: vmm_map_pages_hhdm_def Let_def big_def [symmetric])
qed

theorem vmm_map_pages_hhdm_ends_witness:
  "unat (0xFFFF800000000000 :: u64) + unat (16 * PAGE_SIZE) + 2 ^ 30 \<le> 2 ^ 64
   \<and> (\<exists>r. vmm_map_pages_hhdm False 0xFFFF800000001000 0xFFFF800000000000 0 16 PTE_WRITABLE demo_vm = Some r)"
  using vmm_map_pages_hhdm_ends [of "0xFFFF800000000000" 16 False "0xFFFF800000001000" 0 PTE_WRITABLE demo_vm]
  by (simp add: PAGE_SIZE_def)



end
