(* ===== verification/Heap.thy ===== *)
theory Heap
  imports Vmm
begin

text \<open>
  The slab heap, \<open>kernel/src/memory/heap.c\<close>. Slabs are page frames reached through the direct
  map; their headers and the free objects' links are 64-bit cells of the byte memory. A cache
  is a chain of slabs through \<open>other_slabs\<close>; \<open>heap_rel\<close> relates the memory to the slabs of each
  cache and the free objects of each slab. \<open>kmalloc\<close> and \<open>kfree\<close> are shown to be an allocator
  in the sense of \<open>frame_allocator\<close>: objects handed out never overlap an object in use or each
  other.
\<close>

section \<open>State and operations\<close>

record slab_cache =
  sc_size :: u64
  sc_slabs :: u64

record heap =
  hpmm :: pmm
  slab_caches :: "slab_cache list"

definition peek64 :: "pmm \<Rightarrow> u64 \<Rightarrow> u64" where
  "peek64 s a = read64 (kmem s) a"

definition poke64 :: "u64 \<Rightarrow> u64 \<Rightarrow> pmm \<Rightarrow> pmm" where
  "poke64 a v s = s\<lparr>kmem := write64 (kmem s) a v\<rparr>"

text \<open>
  A slab header at \<open>p\<close>: \<open>other_slabs\<close> at \<open>p\<close>, \<open>obj_size\<close> at \<open>p + 8\<close>, \<open>obj_am\<close> at \<open>p + 16\<close>,
  \<open>objects\<close> at \<open>p + 24\<close>; the objects follow from \<open>p + 32\<close>. The loop of \<open>new_slab\<close> links object
  \<open>i\<close> to the one before it.
\<close>

primrec new_slab_loop :: "u64 \<Rightarrow> u64 \<Rightarrow> nat \<Rightarrow> u64 \<Rightarrow> u64 \<Rightarrow> pmm \<Rightarrow> u64 \<times> pmm" where
  "new_slab_loop slab obj_size 0 i prev_obj s = (prev_obj, s)"
| "new_slab_loop slab obj_size (Suc n) i prev_obj s =
     (let new_ob = slab + 32 + i * obj_size
      in new_slab_loop slab obj_size n (i + 1) new_ob (poke64 new_ob prev_obj s))"

definition new_slab :: "u64 \<Rightarrow> pmm \<Rightarrow> (u64 \<times> pmm) kres" where
  "new_slab obj_size s =
     kbind (allocate_page s) (\<lambda>(pg, s1).
       let slab = pg + hhdmOffset s1;
           obj_am = (PAGE_SIZE - 32) div obj_size;
           s2 = poke64 (slab + 16) obj_am (poke64 (slab + 8) obj_size s1)
       in case new_slab_loop slab obj_size (unat obj_am - 1) 1 (slab + 32) s2 of
            (prev_obj, s3) \<Rightarrow> Inr (slab, poke64 (slab + 24) prev_obj s3))"

partial_function (option) allocate_with_slab :: "u64 \<Rightarrow> pmm \<Rightarrow> (u64 \<times> pmm) kres option" where
  "allocate_with_slab slab s =
     (let our_obj = peek64 s (slab + 24)
      in if our_obj \<noteq> 0 then
           (if peek64 s our_obj \<noteq> 0 then
              (let s1 = poke64 (slab + 24) (peek64 s our_obj) s
               in Some (Inr (our_obj, poke64 (slab + 16) (peek64 s1 (slab + 16) - 1) s1)))
            else
              (let s1 = poke64 (slab + 16) (peek64 s (slab + 16) - 1) s
               in Some (Inr (our_obj, poke64 (slab + 24) 0 s1))))
         else if peek64 s slab \<noteq> 0 then allocate_with_slab (peek64 s slab) s
         else (case new_slab (peek64 s (slab + 8)) s of
                 Inl e \<Rightarrow> Some (Inl e)
               | Inr r \<Rightarrow> allocate_with_slab (fst r) (poke64 slab (fst r) (snd r))))"

definition init_slabcache :: "u64 \<Rightarrow> pmm \<Rightarrow> (slab_cache \<times> pmm) kres" where
  "init_slabcache obj_si s =
     kbind (new_slab obj_si s) (\<lambda>(new_sl, s1). Inr (\<lparr>sc_size = obj_si, sc_slabs = new_sl\<rparr>, s1))"

primrec init_slabcaches :: "u64 list \<Rightarrow> heap \<Rightarrow> heap kres" where
  "init_slabcaches [] h = Inr h"
| "init_slabcaches (z # zs) h =
     kbind (init_slabcache z (hpmm h)) (\<lambda>(c, s1).
       init_slabcaches zs (h\<lparr>hpmm := s1, slab_caches := slab_caches h @ [c]\<rparr>))"

definition setup_heap :: "pmm \<Rightarrow> heap kres" where
  "setup_heap s = init_slabcaches [32, 64, 128, 256, 512, 1024] \<lparr>hpmm = s, slab_caches = []\<rparr>"

definition kmalloc :: "u64 \<Rightarrow> heap \<Rightarrow> (u64 \<times> heap) kres option" where
  "kmalloc sz h =
     (case find (\<lambda>c. sz \<le> sc_size c) (slab_caches h) of
        None \<Rightarrow> Some (Inl (Panic ''no mem''))
      | Some c \<Rightarrow>
          (case allocate_with_slab (sc_slabs c) (hpmm h) of
             None \<Rightarrow> None
           | Some (Inl e) \<Rightarrow> Some (Inl e)
           | Some (Inr (p, s1)) \<Rightarrow> Some (Inr (p, h\<lparr>hpmm := s1\<rparr>))))"

definition kfree :: "u64 \<Rightarrow> heap \<Rightarrow> heap" where
  "kfree ptr h =
     (if ptr = 0 then h
      else
        (let s = hpmm h;
             hea = ptr AND NOT 0xFFF;
             s1 = s\<lparr>kmem := fst (memset (kmem s) ptr 0 (peek64 s (hea + 8)))\<rparr>;
             s2 = (if peek64 s1 (hea + 24) = 0 then poke64 (hea + 24) ptr s1
                   else poke64 (hea + 24) ptr (poke64 ptr (peek64 s1 (hea + 24)) s1))
         in h\<lparr>hpmm := poke64 (hea + 16) (peek64 s2 (hea + 16) + 1) s2\<rparr>))"

section \<open>Cells of a slab\<close>

text \<open>
  Slabs are read as tables of cells: \<open>ix w k\<close> is the cell of object \<open>k\<close> when objects are \<open>w\<close>
  cells long, and \<open>slab_n w\<close> the number of objects.
\<close>

definition wid :: "nat \<Rightarrow> nat" where "wid i = 4 * 2 ^ i"
definition slab_n :: "nat \<Rightarrow> nat" where "slab_n w = 508 div w"
definition ix :: "nat \<Rightarrow> nat \<Rightarrow> u64" where "ix w k = of_nat (4 + k * w)"
definition objaddr :: "u64 \<Rightarrow> nat \<Rightarrow> nat \<Rightarrow> u64" where "objaddr p w k = p + 8 * ix w k"

definition width_ok :: "nat \<Rightarrow> bool" where "width_ok w \<longleftrightarrow> 0 < w \<and> w \<le> 128"

lemma wid_ok: "i < 6 \<Longrightarrow> width_ok (wid i)"
proof -
  assume "i < 6"
  then have "(2::nat) ^ i \<le> 2 ^ 5" by (intro power_increasing) auto
  then show ?thesis by (simp add: width_ok_def wid_def)
qed

lemma poke_cell: "poke64 (p + 8 * i) v s = set_pte p i v s"
  by (simp add: poke64_def set_pte_def)

lemma peek_cell: "peek64 s (p + 8 * i) = pte s p i"
  by (simp add: peek64_def pte_def)

lemma slab_header_cells:
  "poke64 (p + 8) v s = set_pte p 1 v s" "poke64 (p + 16) v s = set_pte p 2 v s"
  "poke64 (p + 24) v s = set_pte p 3 v s"
  "peek64 s (p + 8) = pte s p 1" "peek64 s (p + 16) = pte s p 2" "peek64 s (p + 24) = pte s p 3"
  by (simp_all add: poke64_def set_pte_def peek64_def pte_def)

lemma slab_link_cells: "poke64 p v s = set_pte p 0 v s" "peek64 s p = pte s p 0"
  by (simp_all add: poke64_def set_pte_def peek64_def pte_def)

lemma object_bound:
  assumes "k < slab_n w" and "width_ok w"
  shows "4 + k * w + w \<le> 512"
proof -
  have "Suc k \<le> 508 div w" using assms(1) by (simp add: slab_n_def)
  then have "Suc k * w \<le> 508 div w * w" by (rule mult_le_mono1)
  also have "\<dots> \<le> 508" by (rule div_times_less_eq_dividend)
  finally show ?thesis by (simp add: add.commute)
qed

lemma unat_ix:
  assumes "k < slab_n w" and "width_ok w"
  shows "unat (ix w k) = 4 + k * w" and "unat (ix w k) < 512"
proof -
  have b: "4 + k * w + w \<le> 512" "0 < w" using object_bound [OF assms] assms(2) by (simp_all add: width_ok_def)
  then show "unat (ix w k) = 4 + k * w" unfolding ix_def by (intro unat_of_nat64) simp
  then show "unat (ix w k) < 512" using b by simp
qed

lemma ix_inj:
  assumes "width_ok w" and "k < slab_n w" and "k' < slab_n w" and "ix w k = ix w k'"
  shows "k = k'"
proof -
  have "4 + k * w = 4 + k' * w" using assms(4) unat_ix [OF assms(2,1)] unat_ix [OF assms(3,1)] by metis
  then show ?thesis using assms(1) by (simp add: width_ok_def)
qed

lemma ix_not_header:
  assumes "width_ok w" and "k < slab_n w" and "unat j < 4"
  shows "ix w k \<noteq> j"
  using unat_ix [OF assms(2,1)] assms(3) by auto

lemma objaddr_props:
  assumes "page_aligned p" and "width_ok w" and "k < slab_n w"
  shows "unat (objaddr p w k) = unat p + 8 * (4 + k * w)" and "cell_aligned (objaddr p w k)"
    and "objaddr p w k \<noteq> 0" and "objaddr p w k AND NOT 0xFFF = p"
proof -
  note u = unat_ix [OF assms(3,2)]
  show a: "unat (objaddr p w k) = unat p + 8 * (4 + k * w)"
    using unat_pte_addr [OF assms(1) u(2)] u(1) by (simp add: objaddr_def)
  show "cell_aligned (objaddr p w k)" unfolding objaddr_def by (rule pte_addr_aligned [OF assms(1) u(2)])
  have "0 < unat (objaddr p w k)" using a by simp
  then show "objaddr p w k \<noteq> 0" by auto
  have "(unat p + 8 * (4 + k * w)) mod 4096 = 8 * (4 + k * w)"
    using assms(1) u by (auto simp: mod_add_eq elim!: dvdE)
  then have "unat (objaddr p w k AND NOT (mask 12)) = unat p" using a by (simp add: unat_and_not_mask)
  then show "objaddr p w k AND NOT 0xFFF = p" by (simp add: mask_12 word_unat_eq_iff)
qed

lemma objaddr_inj:
  assumes al: "page_aligned p" "page_aligned q" and w: "width_ok w" "width_ok v"
    and k: "k < slab_n w" "n < slab_n v" and eq: "objaddr p w k = objaddr q v n"
  shows "p = q"
  using objaddr_props(4) [OF al(1) w(1) k(1)] objaddr_props(4) [OF al(2) w(2) k(2)] eq by simp

section \<open>Well-formed slabs\<close>

definition slab_ok :: "pmm \<Rightarrow> u64 \<Rightarrow> nat \<Rightarrow> nat list \<Rightarrow> bool" where
  "slab_ok s p w ks \<longleftrightarrow> pte s p 1 = of_nat (8 * w) \<and> pte s p 2 = of_nat (length ks)
     \<and> bm.chain (kmem s) (pte s p 3) (map (objaddr p w) ks) 0
     \<and> distinct ks \<and> (\<forall>k \<in> set ks. k < slab_n w)"

lemma slab_ok_cong:
  assumes "width_ok w" and "\<And>j. unat j < 512 \<Longrightarrow> j \<noteq> 0 \<Longrightarrow> pte s' p j = pte s p j"
    and "slab_ok s p w ks"
  shows "slab_ok s' p w ks"
proof -
  have "read64 (kmem s') a = read64 (kmem s) a" if "a \<in> set (map (objaddr p w) ks)" for a
  proof -
    obtain k where k: "a = objaddr p w k" "k < slab_n w" using \<open>a \<in> _\<close> assms(3) by (auto simp: slab_ok_def)
    have "ix w k \<noteq> 0" using ix_not_header [OF assms(1) k(2), of 0] by simp
    then show ?thesis using assms(2) [OF unat_ix(2) [OF k(2) assms(1)]] k(1) by (simp add: pte_def objaddr_def)
  qed
  then have "bm.chain (kmem s') (pte s p 3) (map (objaddr p w) ks) 0
      = bm.chain (kmem s) (pte s p 3) (map (objaddr p w) ks) 0" by (rule bm.chain_cong)
  then show ?thesis using assms(2,3) by (simp add: slab_ok_def)
qed

text \<open>
  \<open>page_upd s p s'\<close>: only cells of the frame \<open>p\<close>, which is in use, changed.
\<close>

definition page_upd :: "pmm \<Rightarrow> u64 \<Rightarrow> pmm \<Rightarrow> bool" where
  "page_upd s p s' \<longleftrightarrow> pmm_inv s' \<and> pmm_layout s' = pmm_layout s
     \<and> (\<forall>t. used_table s' t = used_table s t) \<and> avail s' = avail s
     \<and> (\<forall>t j. used_table s t \<longrightarrow> t \<noteq> p \<longrightarrow> unat j < 512 \<longrightarrow> pte s' t j = pte s t j)"

lemma page_upd_refl: "pmm_inv s \<Longrightarrow> page_upd s p s"
  by (simp add: page_upd_def)

lemma page_upd_trans: "page_upd s p s1 \<Longrightarrow> page_upd s1 p s2 \<Longrightarrow> page_upd s p s2"
  by (simp add: page_upd_def)

lemma used_table_set_pte [simp]: "used_table (set_pte t i v s) x = used_table s x"
  by (simp add: used_table_def)

lemma page_upd_set_pte:
  assumes "pmm_inv s" and "used_table s p" and "unat i < 512"
  shows "page_upd s p (set_pte p i v s)"
proof -
  have "pte (set_pte p i v s) t j = pte s t j" if "used_table s t" "t \<noteq> p" "unat j < 512" for t j
    using pte_set_pte [OF _ _ assms(3) that(3)] used_table_aligned [OF assms(1)] assms(2) that by simp
  then show ?thesis using pmm_inv_set_pte [OF assms] by (simp add: page_upd_def)
qed

lemma page_upd_set_pte2:
  assumes "pmm_inv s" and "used_table s p" and "unat i < 512" and "unat j < 512"
  shows "page_upd s p (set_pte p i v (set_pte p j u s))"
  using page_upd_set_pte [OF assms(1,2,4), of u] page_upd_set_pte [of "set_pte p j u s" p i v] assms
  by (auto intro: page_upd_trans simp: page_upd_def)

lemma page_updD:
  assumes "page_upd s p s'"
  shows "pmm_inv s'" and "used_table s' t = used_table s t"
  using assms by (simp_all add: page_upd_def)

text \<open>Taking the first object of a slab's free list, in either of the two branches.\<close>

lemma slab_pop:
  assumes inv: "pmm_inv s" and p: "used_table s p" and w: "width_ok w" and ok: "slab_ok s p w (k # ks)"
    and cells: "\<And>j. unat j < 512 \<Longrightarrow> pte s' p j =
      (if j = 3 then pte s p (ix w k) else if j = 2 then pte s p 2 - 1 else pte s p j)"
  shows "slab_ok s' p w ks"
proof -
  have al: "page_aligned p" using used_table_aligned [OF inv p] .
  have k: "k < slab_n w" using ok by (simp add: slab_ok_def)
  have ch: "bm.chain (kmem s) (pte s p (ix w k)) (map (objaddr p w) ks) 0"
    using ok by (simp add: slab_ok_def pte_def objaddr_def)
  have "read64 (kmem s') a = read64 (kmem s) a" if "a \<in> set (map (objaddr p w) ks)" for a
  proof -
    obtain n where n: "a = objaddr p w n" "n < slab_n w" using \<open>a \<in> _\<close> ok by (auto simp: slab_ok_def)
    have "ix w n \<noteq> 3" "ix w n \<noteq> 2" using ix_not_header [OF w n(2)] by simp_all
    then show ?thesis using cells [OF unat_ix(2) [OF n(2) w]] n(1) by (simp add: pte_def objaddr_def)
  qed
  then have "bm.chain (kmem s') (pte s p (ix w k)) (map (objaddr p w) ks) 0
      = bm.chain (kmem s) (pte s p (ix w k)) (map (objaddr p w) ks) 0" by (rule bm.chain_cong)
  then have "bm.chain (kmem s') (pte s p (ix w k)) (map (objaddr p w) ks) 0" using ch by simp
  moreover have "pte s' p 1 = pte s p 1" "pte s' p 2 = pte s p 2 - 1" "pte s' p 3 = pte s p (ix w k)"
    using cells [of 1] cells [of 2] cells [of 3] by simp_all
  ultimately show ?thesis using ok by (simp add: slab_ok_def)
qed

text \<open>The linking loop: after it the free list runs from the last object down to the first.\<close>

lemma new_slab_loop_ok:
  assumes "pmm_inv s" and "used_table s p" and w: "width_ok w" and "i + n \<le> slab_n w" and "0 < i"
    and "bm.chain (kmem s) (objaddr p w (i - 1)) (map (objaddr p w) (rev [0 ..< i])) 0"
    and "new_slab_loop p (of_nat (8 * w)) n (of_nat i) (objaddr p w (i - 1)) s = (r, s')"
  shows "r = objaddr p w (i + n - 1) \<and> page_upd s p s'
    \<and> bm.chain (kmem s') r (map (objaddr p w) (rev [0 ..< i + n])) 0
    \<and> (\<forall>j. unat j < 4 \<longrightarrow> pte s' p j = pte s p j)"
  using assms
proof (induction n arbitrary: i s)
  case 0
  then show ?case by (simp add: page_upd_refl)
next
  case (Suc n)
  have i: "i < slab_n w" using Suc.prems(4) by simp
  let ?s1 = "set_pte p (ix w i) (objaddr p w (i - 1)) s"
  have al: "page_aligned p" using used_table_aligned [OF Suc.prems(1,2)] .
  have addr: "p + 32 + of_nat i * of_nat (8 * w) = objaddr p w i"
    by (simp add: objaddr_def ix_def algebra_simps)
  have step: "new_slab_loop p (of_nat (8 * w)) n (of_nat (Suc i)) (objaddr p w i) ?s1 = (r, s')"
    using Suc.prems(7) unfolding new_slab_loop.simps Let_def addr
    by (simp add: objaddr_def poke_cell add.commute)
  note u1 = page_upd_set_pte [OF Suc.prems(1,2) unat_ix(2) [OF i w], of "objaddr p w (i - 1)"]
  have cells: "cell_aligned (objaddr p w k) \<and> objaddr p w k \<noteq> objaddr p w i" if "k < i" for k
  proof -
    have "k < slab_n w" using that i by simp
    then show ?thesis using objaddr_props(1,2) [OF al w] i that w by (auto simp: word_unat_eq_iff width_ok_def)
  qed
  have "objaddr p w i \<notin> set (map (objaddr p w) (rev [0 ..< i]))" using cells by fastforce
  then have "bm.chain (kmem ?s1) (objaddr p w i) (objaddr p w i # map (objaddr p w) (rev [0 ..< i])) 0"
    unfolding set_pte_def objaddr_def [of p w i, symmetric]
    using bm.chain_push [of "objaddr p w i" "map (objaddr p w) (rev [0 ..< i])" "kmem s" "objaddr p w (i - 1)" 0]
      objaddr_props(2,3) [OF al w i] cells Suc.prems(6) by auto
  then have ch: "bm.chain (kmem ?s1) (objaddr p w (Suc i - 1)) (map (objaddr p w) (rev [0 ..< Suc i])) 0" by simp
  have "r = objaddr p w (Suc i + n - 1) \<and> page_upd ?s1 p s'
    \<and> bm.chain (kmem s') r (map (objaddr p w) (rev [0 ..< Suc i + n])) 0
    \<and> (\<forall>j. unat j < 4 \<longrightarrow> pte s' p j = pte ?s1 p j)"
    by (rule Suc.IH) (use Suc.prems(2,4) w ch step page_updD(1) [OF u1] in simp_all)
  moreover have "pte ?s1 p j = pte s p j" if "unat j < 4" for j
    using pte_set_pte [OF al al unat_ix(2) [OF i w], of j] ix_not_header [OF w i that] that by simp
  ultimately show ?case using page_upd_trans [OF u1] by simp
qed

lemma slab_n_pos: "width_ok w \<Longrightarrow> 0 < slab_n w"
  by (auto simp: slab_n_def width_ok_def div_greater_zero_iff)

lemma unat_obj_am: "width_ok w \<Longrightarrow> unat ((PAGE_SIZE - 32) div of_nat (8 * w)) = slab_n w"
proof -
  assume w: "width_ok w"
  have "unat (of_nat (8 * w) :: u64) = 8 * w" using w by (intro unat_of_nat64) (simp add: width_ok_def)
  then have "unat ((PAGE_SIZE - 32) div of_nat (8 * w)) = 4064 div (8 * w)"
    by (simp add: unat_div PAGE_SIZE_def)
  then show ?thesis by (simp add: slab_n_def div_mult2_eq)
qed

text \<open>
  \<open>page_new s n s'\<close>: the frame \<open>n\<close> came into use; the frames in use before are as they were.
\<close>

definition page_new :: "pmm \<Rightarrow> u64 \<Rightarrow> pmm \<Rightarrow> bool" where
  "page_new s n s' \<longleftrightarrow> pmm_inv s' \<and> pmm_layout s' = pmm_layout s \<and> \<not> used_table s n
     \<and> (\<forall>t. used_table s' t \<longleftrightarrow> t = n \<or> used_table s t) \<and> avail s = Suc (avail s')
     \<and> (\<forall>t j. used_table s t \<longrightarrow> unat j < 512 \<longrightarrow> pte s' t j = pte s t j)"

lemma page_new_upd:
  assumes "page_new s n s1" and "page_upd s1 n s2"
  shows "page_new s n s2"
  using assms unfolding page_new_def page_upd_def by auto

lemma page_new_taken:
  assumes inv: "pmm_inv s" and tk: "pmm_taken s l s1"
  shows "page_new s (page_node s l) s1"
  using taken_frames [OF tk] pmm_inv_wf [OF inv] pte_taken [OF inv tk] tk avail_taken [OF tk]
  by (auto simp: page_new_def pmm_taken_def)

lemma new_slab_ok:
  assumes inv: "pmm_inv s" and w: "width_ok w"
  shows "new_slab (of_nat (8 * w)) s = Inl (Panic ''PMM: out of memory'') \<and> avail s = 0
    \<or> (\<exists>n s'. new_slab (of_nat (8 * w)) s = Inr (n, s') \<and> page_new s n s' \<and> pte s' n 0 = 0
        \<and> slab_ok s' n w (rev [0 ..< slab_n w]))"
proof -
  consider (oom) "page_locs s = pages_in PAGE_USED s" "allocate_page s = Inl (Panic ''PMM: out of memory'')"
    | (ok) l s1 where "allocate_page s = Inr (page_addr s l, s1)" "pmm_taken s l s1"
    using allocate_page_outcome [OF inv] by blast
  then show ?thesis
  proof cases
    case oom
    then show ?thesis by (simp add: new_slab_def avail_def)
  next
    case (ok l s1)
    define p where "p = page_node s l"
    have inv1: "pmm_inv s1" using ok(2) by (simp add: pmm_taken_def)
    note nw = page_new_taken [OF inv ok(2), folded p_def]
    have u1: "used_table s1 p" using nw by (simp add: page_new_def)
    have al: "page_aligned p" using used_table_aligned [OF inv1 u1] .
    have zero: "pte s1 p j = 0" if "unat j < 512" for j using pte_taken_zero [OF ok(2) that] by (simp add: p_def)
    have np: "page_addr s l + hhdmOffset s1 = p"
      using taken_frames(2) [OF ok(2)] by (simp add: p_def page_node_def)
    define s2 where "s2 = set_pte p 2 (of_nat (slab_n w)) (set_pte p 1 (of_nat (8 * w)) s1)"
    have up2: "page_upd s1 p s2"
      unfolding s2_def using page_upd_set_pte [OF inv1 u1, of 1] page_upd_set_pte [of "set_pte p 1 (of_nat (8 * w)) s1" p 2]
        page_upd_trans page_updD u1 by fastforce
    have pte2: "pte s2 p j = (if j = 2 then of_nat (slab_n w) else if j = 1 then of_nat (8 * w) else 0)"
      if "unat j < 512" for j
      using pte_set_pte [OF al al _ that] zero [OF that] by (auto simp: s2_def)
    have am: "(PAGE_SIZE - 32) div of_nat (8 * w) = (of_nat (slab_n w) :: u64)"
      using arg_cong [OF unat_obj_am [OF w], of "of_nat :: nat \<Rightarrow> u64"] by simp
    have o0: "p + 32 = objaddr p w (1 - 1)" by (simp add: objaddr_def ix_def)
    obtain r s3 where lp: "new_slab_loop p (of_nat (8 * w)) (slab_n w - 1) (of_nat 1) (objaddr p w (1 - 1)) s2 = (r, s3)"
      by force
    have pos: "0 < slab_n w" using slab_n_pos [OF w] .
    have ch0: "bm.chain (kmem s2) (objaddr p w (1 - 1)) (map (objaddr p w) (rev [0 ..< 1])) 0"
      using pte2 [OF unat_ix(2) [OF pos w]] ix_not_header [OF w pos, of 1] ix_not_header [OF w pos, of 2]
        objaddr_props(3) [OF al w pos] by (simp add: objaddr_def pte_def)
    have L: "r = objaddr p w (1 + (slab_n w - 1) - 1) \<and> page_upd s2 p s3
      \<and> bm.chain (kmem s3) r (map (objaddr p w) (rev [0 ..< 1 + (slab_n w - 1)])) 0
      \<and> (\<forall>j. unat j < 4 \<longrightarrow> pte s3 p j = pte s2 p j)"
      by (rule new_slab_loop_ok [OF page_updD(1) [OF up2] _ w _ _ ch0 lp])
        (use pos u1 page_updD(2) [OF up2] in simp_all)
    define s4 where "s4 = set_pte p 3 r s3"
    have u3: "used_table s3 p" "pmm_inv s3" using L u1 page_updD(2) [OF up2] page_updD by blast+
    have up4: "page_upd s1 p s4"
    proof -
      have "page_upd s3 p s4" unfolding s4_def by (rule page_upd_set_pte [OF u3(2,1)]) simp
      then show ?thesis using page_upd_trans up2 L by blast
    qed
    have res: "new_slab (of_nat (8 * w)) s = Inr (p, s4)"
    proof -
      have "slab_n w < 2 ^ 64" by (rule le_less_trans [of _ 508]) (simp_all add: slab_n_def)
      then have "unat (of_nat (slab_n w) :: u64) = slab_n w" by (simp add: unat_of_nat64)
      then show ?thesis
        using ok(1) lp by (simp add: new_slab_def Let_def np am slab_header_cells s2_def [symmetric] s4_def o0
            del: of_nat_mult)
    qed
    have cell4: "pte s4 p j = (if j = 3 then r else pte s3 p j)" if "unat j < 512" for j
      using pte_set_pte [OF al al _ that, of 3] by (auto simp: s4_def)
    have "bm.chain (kmem s4) r (map (objaddr p w) (rev [0 ..< slab_n w])) 0"
    proof -
      have c: "p + 24 \<notin> set (map (objaddr p w) (rev [0 ..< slab_n w]))"
        using pte_addr_inj [OF al al _ unat_ix(2) [OF _ w], of 3] ix_not_header [OF w, of _ 3]
        by (fastforce simp: objaddr_def)
      have a: "cell_aligned (p + 24)" using pte_addr_aligned [OF al, of 3] by simp
      have b: "\<forall>a \<in> set (map (objaddr p w) (rev [0 ..< slab_n w])). cell_aligned a"
        using objaddr_props(2) [OF al w] by simp
      have "bm.chain (write64 (kmem s3) (p + 24) r) r (map (objaddr p w) (rev [0 ..< slab_n w])) 0
          = bm.chain (kmem s3) r (map (objaddr p w) (rev [0 ..< slab_n w])) 0"
        by (rule bm.chain_frame [OF a b c])
      moreover have "1 + (slab_n w - 1) = slab_n w" using pos by simp
      then have "bm.chain (kmem s3) r (map (objaddr p w) (rev [0 ..< slab_n w])) 0" using L by metis
      ultimately show ?thesis by (simp add: s4_def set_pte_def)
    qed
    moreover have "pte s4 p 0 = 0" "pte s4 p 1 = of_nat (8 * w)" "pte s4 p 2 = of_nat (slab_n w)" "pte s4 p 3 = r"
      using cell4 [of 0] cell4 [of 1] cell4 [of 2] cell4 [of 3] L pte2 [of 0] pte2 [of 1] pte2 [of 2] by simp_all
    ultimately have "slab_ok s4 p w (rev [0 ..< slab_n w])" by (simp add: slab_ok_def)
    then show ?thesis using res page_new_upd [OF nw up4] \<open>pte s4 p 0 = 0\<close> by blast
  qed
qed

section \<open>The heap\<close>

text \<open>
  \<open>heap_rel s cs S F\<close>: cache \<open>i\<close> of \<open>cs\<close> is the chain of slabs \<open>S i\<close>, and \<open>F p\<close> are the free
  objects of slab \<open>p\<close>. No slab belongs to two caches.
\<close>

definition heap_rel :: "pmm \<Rightarrow> slab_cache list \<Rightarrow> (nat \<Rightarrow> u64 list) \<Rightarrow> (u64 \<Rightarrow> nat list) \<Rightarrow> bool" where
  "heap_rel s cs S F \<longleftrightarrow> pmm_inv s \<and> length cs \<le> 6
     \<and> (\<forall>i < length cs. sc_size (cs ! i) = of_nat (8 * wid i) \<and> S i \<noteq> [] \<and> distinct (S i)
          \<and> bm.chain (kmem s) (sc_slabs (cs ! i)) (S i) 0
          \<and> (\<forall>p \<in> set (S i). used_table s p \<and> slab_ok s p (wid i) (F p)))
     \<and> (\<forall>i < length cs. \<forall>j < length cs. i \<noteq> j \<longrightarrow> set (S i) \<inter> set (S j) = {})"

definition heap_objects :: "slab_cache list \<Rightarrow> (nat \<Rightarrow> u64 list) \<Rightarrow> (nat \<times> u64 \<times> nat) set" where
  "heap_objects cs S = {(i, p, k). i < length cs \<and> p \<in> set (S i) \<and> k < slab_n (wid i)}"

definition live_objs :: "slab_cache list \<Rightarrow> (nat \<Rightarrow> u64 list) \<Rightarrow> (u64 \<Rightarrow> nat list) \<Rightarrow> (nat \<times> u64 \<times> nat) set" where
  "live_objs cs S F = {(i, p, k) \<in> heap_objects cs S. k \<notin> set (F p)}"

lemma heap_relD:
  assumes "heap_rel s cs S F" and "i < length cs"
  shows "pmm_inv s" and "width_ok (wid i)" and "bm.chain (kmem s) (sc_slabs (cs ! i)) (S i) 0"
    and "p \<in> set (S i) \<Longrightarrow> used_table s p" and "p \<in> set (S i) \<Longrightarrow> slab_ok s p (wid i) (F p)"
    and "p \<in> set (S i) \<Longrightarrow> page_aligned p" and "S i \<noteq> []" and "sc_size (cs ! i) = of_nat (8 * wid i)"
    and "distinct (S i)"
proof -
  show p: "pmm_inv s" "bm.chain (kmem s) (sc_slabs (cs ! i)) (S i) 0" "p \<in> set (S i) \<Longrightarrow> used_table s p"
    "p \<in> set (S i) \<Longrightarrow> slab_ok s p (wid i) (F p)" "S i \<noteq> []" "sc_size (cs ! i) = of_nat (8 * wid i)" "distinct (S i)"
    using assms by (auto simp: heap_rel_def)
  show "width_ok (wid i)" using assms by (intro wid_ok) (simp add: heap_rel_def)
  show "p \<in> set (S i) \<Longrightarrow> page_aligned p" using p(1,3) used_table_aligned by blast
qed

lemma slab_chain_cong:
  assumes "\<And>q. q \<in> set qs \<Longrightarrow> pte s' q 0 = pte s q 0"
  shows "bm.chain (kmem s') h qs 0 = bm.chain (kmem s) h qs 0"
  by (rule bm.chain_cong) (use assms in \<open>simp add: pte_def\<close>)

text \<open>Changing one slab's free list, and nothing of its link to the next slab.\<close>

lemma heap_rel_upd:
  assumes h: "heap_rel s cs S F" and i: "i < length cs" and p: "p \<in> set (S i)"
    and up: "page_upd s p s'" and link: "pte s' p 0 = pte s p 0" and ok: "slab_ok s' p (wid i) ks"
  shows "heap_rel s' cs S (F(p := ks))"
proof -
  have same: "pte s' q j = pte s q j" if "used_table s q" "q \<noteq> p" "unat j < 512" for q j
    using up that by (simp add: page_upd_def)
  have "bm.chain (kmem s') (sc_slabs (cs ! j)) (S j) 0" if j: "j < length cs" for j
  proof -
    have "pte s' q 0 = pte s q 0" if "q \<in> set (S j)" for q
      using same [of q 0] heap_relD(4) [OF h j that] link by (cases "q = p") simp_all
    then show ?thesis using slab_chain_cong heap_relD(3) [OF h j] by blast
  qed
  moreover have "slab_ok s' q (wid j) ((F(p := ks)) q)" if j: "j < length cs" and q: "q \<in> set (S j)" for j q
  proof (cases "q = p")
    case True
    then have "j = i" using h i j p q unfolding heap_rel_def by blast
    then show ?thesis using True ok by simp
  next
    case False
    then show ?thesis
      using slab_ok_cong [OF heap_relD(2) [OF h j] _ heap_relD(5) [OF h j q]]
        same [OF heap_relD(4) [OF h j q]] by simp
  qed
  ultimately show ?thesis
    using h page_updD [OF up] unfolding heap_rel_def by auto
qed

text \<open>Handing out an object changes headers only: the cells of every object of a frame in use stay.\<close>

definition cells_kept :: "pmm \<Rightarrow> pmm \<Rightarrow> bool" where
  "cells_kept s s' \<longleftrightarrow> (\<forall>t j. used_table s t \<longrightarrow> 4 \<le> unat j \<longrightarrow> unat j < 512 \<longrightarrow> pte s' t j = pte s t j)"

lemma cells_kept_page:
  assumes "page_upd s p s'" "\<And>j. 4 \<le> unat j \<Longrightarrow> unat j < 512 \<Longrightarrow> pte s' p j = pte s p j"
  shows "cells_kept s s'"
  unfolding cells_kept_def
proof (intro allI impI)
  fix t j :: u64 assume "used_table s t" "4 \<le> unat j" "unat j < 512"
  then show "pte s' t j = pte s t j" using assms by (cases "t = p") (auto simp: page_upd_def)
qed

text \<open>A slab with a free object: its first one is handed out.\<close>

lemma allocate_with_slab_pop:
  assumes h: "heap_rel s cs S F" and i: "i < length cs" and p: "p \<in> set (S i)" and f: "F p = k # ks"
  shows "\<exists>s'. allocate_with_slab p s = Some (Inr (objaddr p (wid i) k, s'))
    \<and> heap_rel s' cs S (F(p := ks)) \<and> page_upd s p s' \<and> cells_kept s s'"
proof -
  let ?w = "wid i"
  have inv: "pmm_inv s" and w: "width_ok ?w" and u: "used_table s p" and ok: "slab_ok s p ?w (k # ks)" and al: "page_aligned p"
    using heap_relD(1,2) [OF h i] heap_relD(4-6) [OF h i p] f by simp_all
  have k: "k < slab_n ?w" using ok by (simp add: slab_ok_def)
  have ob: "pte s p 3 = objaddr p ?w k" "objaddr p ?w k \<noteq> 0" using ok by (simp_all add: slab_ok_def)
  have nx: "peek64 s (objaddr p ?w k) = pte s p (ix ?w k)" by (simp add: objaddr_def peek_cell)
  define a where "a = set_pte p 2 (pte s p 2 - 1) (set_pte p 3 (pte s p (ix ?w k)) s)"
  define b where "b = set_pte p 3 0 (set_pte p 2 (pte s p 2 - 1) s)"
  have up: "page_upd s p a" "page_upd s p b"
    unfolding a_def b_def by (rule page_upd_set_pte2 [OF inv u]; simp)+
  have ca: "pte a p j = (if j = 3 then pte s p (ix ?w k) else if j = 2 then pte s p 2 - 1 else pte s p j)"
    if "unat j < 512" for j
    using pte_set_pte [OF al al _ that] by (auto simp: a_def)
  have cb: "pte b p j = (if j = 3 then 0 else if j = 2 then pte s p 2 - 1 else pte s p j)" if "unat j < 512" for j
    using pte_set_pte [OF al al _ that] by (auto simp: b_def)
  have kept: "cells_kept s a" "cells_kept s b"
    by (rule cells_kept_page [OF up(1)], use ca in auto) (rule cells_kept_page [OF up(2)], use cb in auto)
  show ?thesis
  proof (cases "pte s p (ix ?w k) = 0")
    case False
    have "allocate_with_slab p s = Some (Inr (objaddr p ?w k, a))"
      using ob nx False pte_set_pte [OF al al, of 3 2]
      by (subst allocate_with_slab.simps) (simp add: slab_header_cells Let_def a_def)
    moreover have "heap_rel a cs S (F(p := ks))"
      using heap_rel_upd [OF h i p up(1)] ca [of 0] slab_pop [OF inv u w ok ca] by simp
    ultimately show ?thesis using up(1) kept(1) by blast
  next
    case True
    have "allocate_with_slab p s = Some (Inr (objaddr p ?w k, b))"
      using ob nx True by (subst allocate_with_slab.simps) (simp add: slab_header_cells Let_def b_def)
    moreover have "slab_ok b p ?w ks" by (rule slab_pop [OF inv u w ok]) (use cb True in simp)
    then have "heap_rel b cs S (F(p := ks))" using heap_rel_upd [OF h i p up(2)] cb [of 0] by simp
    ultimately show ?thesis using up(2) kept(2) by blast
  qed
qed

text \<open>
  A cache without a free object grows by one slab: the new slab is hung behind the last one.
\<close>

lemma heap_rel_grow:
  assumes h: "heap_rel s cs S F" and i: "i < length cs" and last: "S i = qs @ [q]"
    and nw: "page_new s n s1" and z: "pte s1 n 0 = 0" and ok: "slab_ok s1 n (wid i) ks"
  shows "heap_rel (set_pte q 0 n s1) cs (S(i := S i @ [n])) (F(n := ks))"
proof -
  let ?s = "set_pte q 0 n s1"
  have q: "q \<in> set (S i)" "used_table s q" using last heap_relD(4) [OF h i] by auto
  have nu: "\<not> used_table s n" and inv1: "pmm_inv s1" and us: "\<And>t. used_table s1 t \<longleftrightarrow> t = n \<or> used_table s t"
    and keep: "\<And>t j. used_table s t \<Longrightarrow> unat j < 512 \<Longrightarrow> pte s1 t j = pte s t j"
    using nw by (auto simp: page_new_def)
  have u1: "used_table s1 q" using us q(2) by blast
  have up: "page_upd s1 q ?s" by (rule page_upd_set_pte [OF inv1 u1]) simp
  have pt: "pte ?s t j = (if t = q \<and> j = 0 then n else pte s1 t j)" if "used_table s1 t" "unat j < 512" for t j
    using pte_set_pte [OF _ _ _ that(2), of q t 0] used_table_aligned [OF inv1] u1 that(1) by auto
  have qn: "q \<noteq> n" using nu q(2) by auto
  have n0: "n \<noteq> 0"
  proof -
    have "used_table s1 n" using us by blast
    then obtain l where l: "l \<in> pages_in PAGE_USED s1" "n = page_node s1 l" unfolding used_table_def by blast
    show ?thesis using page_node_props(4) [OF pmm_inv_wf [OF inv1] pages_in_locs [OF l(1)]] l(2) by simp
  qed
  have notin: "n \<notin> set (S j)" if "j < length cs" for j using heap_relD(4) [OF h that] nu by blast
  have ch: "bm.chain (kmem ?s) (sc_slabs (cs ! j)) ((S(i := S i @ [n])) j) 0" if j: "j < length cs" for j
  proof (cases "j = i")
    case False
    have "pte ?s x 0 = pte s x 0" if "x \<in> set (S j)" for x
    proof -
      have "x \<noteq> q" using False h i j q(1) that unfolding heap_rel_def by blast
      then show ?thesis using pt [of x 0] us keep heap_relD(4) [OF h j that] by simp
    qed
    then show ?thesis using slab_chain_cong [of "S j" ?s s] heap_relD(3) [OF h j] False by simp
  next
    case True
    have d: "distinct (qs @ [q])" using heap_relD(9) [OF h i] last by simp
    have "bm.chain (kmem s) (sc_slabs (cs ! i)) (qs @ [q]) 0" using heap_relD(3) [OF h i] last by simp
    then have "bm.chain (kmem s) (sc_slabs (cs ! i)) qs q" "q \<noteq> 0" by (auto simp: bm.chain_append)
    moreover have "bm.chain (kmem ?s) (sc_slabs (cs ! i)) qs q = bm.chain (kmem s) (sc_slabs (cs ! i)) qs q"
    proof (rule bm.chain_cong)
      fix x assume x: "x \<in> set qs"
      then have "x \<noteq> q" "used_table s x" using d heap_relD(4) [OF h i] last by auto
      then show "read64 (kmem ?s) x = read64 (kmem s) x"
        using pt [of x 0] us keep [of x 0] by (simp add: pte_def)
    qed
    moreover have "read64 (kmem ?s) q = n" "read64 (kmem ?s) n = 0"
      using pt [of q 0] pt [of n 0] u1 us z qn by (simp_all add: pte_def)
    ultimately have "bm.chain (kmem ?s) (sc_slabs (cs ! i)) (qs @ [q, n]) 0"
      using n0 by (auto simp: bm.chain_append)
    then show ?thesis using True last by simp
  qed
  have sl: "used_table ?s x \<and> slab_ok ?s x (wid j) ((F(n := ks)) x)"
    if j: "j < length cs" and x: "x \<in> set ((S(i := S i @ [n])) j)" for j x
  proof (cases "x = n")
    case True
    then have "j = i" using notin j x by (auto split: if_splits)
    moreover have "slab_ok ?s n (wid i) ks"
      by (rule slab_ok_cong [OF heap_relD(2) [OF h i] _ ok]) (use pt us qn in auto)
    ultimately show ?thesis using True us by simp
  next
    case False
    then have x': "x \<in> set (S j)" using x by (auto split: if_splits)
    have "slab_ok ?s x (wid j) (F x)"
      by (rule slab_ok_cong [OF heap_relD(2) [OF h j] _ heap_relD(5) [OF h j x']])
        (use pt us keep heap_relD(4) [OF h j x'] in auto)
    then show ?thesis using False us heap_relD(4) [OF h j x'] by simp
  qed
  have ds: "(S(i := S i @ [n])) j \<noteq> [] \<and> distinct ((S(i := S i @ [n])) j)" if "j < length cs" for j
    using heap_relD(7,9) [OF h that] notin [OF that] by auto
  have dj: "set ((S(i := S i @ [n])) a) \<inter> set ((S(i := S i @ [n])) b) = {}"
    if "a < length cs" "b < length cs" "a \<noteq> b" for a b
    using h that notin [OF that(1)] notin [OF that(2)] unfolding heap_rel_def by auto
  show ?thesis
    unfolding heap_rel_def
  proof (intro conjI allI impI ballI)
    show "pmm_inv ?s" by (rule page_updD(1) [OF up])
    show "length cs \<le> 6" using h by (simp add: heap_rel_def)
  next
    fix j assume j: "j < length cs"
    show "sc_size (cs ! j) = of_nat (8 * wid j)" by (rule heap_relD(8) [OF h j])
    show "(S(i := S i @ [n])) j \<noteq> []" "distinct ((S(i := S i @ [n])) j)" using ds [OF j] by blast+
    show "bm.chain (kmem ?s) (sc_slabs (cs ! j)) ((S(i := S i @ [n])) j) 0" by (rule ch [OF j])
    fix x assume "x \<in> set ((S(i := S i @ [n])) j)"
    from sl [OF j this] show "used_table ?s x" "slab_ok ?s x (wid j) ((F(n := ks)) x)" by blast+
  qed (rule dj)
qed

lemma cells_kept_grow:
  assumes "page_new s n s1" "used_table s q" "cells_kept (set_pte q 0 n s1) s'"
  shows "cells_kept s s'"
proof -
  have inv: "pmm_inv s1" and us: "\<And>t. used_table s1 t \<longleftrightarrow> t = n \<or> used_table s t"
    using assms(1) by (auto simp: page_new_def)
  have "pte (set_pte q 0 n s1) t j = pte s1 t j" if "used_table s t" "4 \<le> unat j" "unat j < 512" for t j
    using pte_set_pte [OF _ _ _ that(3), of q t 0] used_table_aligned [OF inv] us assms(2) that by auto
  then show ?thesis using assms(1,3) us by (simp add: cells_kept_def page_new_def)
qed

section \<open>Allocating an object\<close>

lemma live_pop:
  assumes h: "heap_rel s cs S F" and i: "i < length cs" and p: "p \<in> set (S i)" and f: "F p = k # ks"
  shows "(i, p, k) \<notin> live_objs cs S F \<and> live_objs cs S (F(p := ks)) = insert (i, p, k) (live_objs cs S F)"
proof -
  have ok: "slab_ok s p (wid i) (k # ks)" using heap_relD(5) [OF h i p] f by simp
  then have k: "k \<notin> set ks" "k < slab_n (wid i)" by (simp_all add: slab_ok_def)
  have only: "j = i" if "j < length cs" "p \<in> set (S j)" for j
    using h i p that unfolding heap_rel_def by blast
  have obj: "(j, p, n) \<in> heap_objects cs S \<longleftrightarrow> j = i \<and> n < slab_n (wid i)" for j n
    using only i p unfolding heap_objects_def by blast
  have "(j, q, n) \<in> live_objs cs S (F(p := ks)) \<longleftrightarrow> (j, q, n) = (i, p, k) \<or> (j, q, n) \<in> live_objs cs S F" for j q n
    by (cases "q = p") (use k f in \<open>auto simp: live_objs_def obj\<close>)
  moreover have "(i, p, k) \<notin> live_objs cs S F" using f by (simp add: live_objs_def)
  ultimately show ?thesis by (auto simp: set_eq_iff)
qed

lemma live_grow:
  assumes h: "heap_rel s cs S F" and i: "i < length cs" and n: "\<not> used_table s n"
  shows "live_objs cs (S(i := S i @ [n])) (F(n := rev [0 ..< slab_n (wid i)])) = live_objs cs S F"
proof -
  have "n \<notin> set (S j)" if "j < length cs" for j using heap_relD(4) [OF h that] n by blast
  then show ?thesis by (auto simp: live_objs_def heap_objects_def split: if_splits)
qed

text \<open>
  Only slabs change: a frame in use that is no slab keeps its contents, and a slab that is new was a
  free frame.
\<close>

definition only_slabs :: "slab_cache list \<Rightarrow> (nat \<Rightarrow> u64 list) \<Rightarrow> pmm \<Rightarrow> (nat \<Rightarrow> u64 list) \<Rightarrow> pmm \<Rightarrow> bool" where
  "only_slabs cs S s S' s' \<longleftrightarrow> (\<forall>t. used_table s t \<longrightarrow> used_table s' t)
     \<and> (\<forall>t j. used_table s t \<longrightarrow> (\<forall>i < length cs. t \<notin> set (S i)) \<longrightarrow> unat j < 512 \<longrightarrow> pte s' t j = pte s t j)
     \<and> (\<forall>i < length cs. \<forall>p \<in> set (S' i). p \<in> set (S i) \<or> \<not> used_table s p)"

lemma only_slabs_upd: "page_upd s p s' \<Longrightarrow> i < length cs \<Longrightarrow> p \<in> set (S i) \<Longrightarrow> only_slabs cs S s S s'"
  by (auto simp: only_slabs_def page_upd_def)

lemma only_slabs_grow:
  assumes nw: "page_new s n s1" and i: "i < length cs" and q: "q \<in> set (S i)" "used_table s q"
    and r: "only_slabs cs (S(i := S i @ [n])) (set_pte q 0 n s1) S' s'"
  shows "only_slabs cs S s S' s'"
proof -
  have inv: "pmm_inv s1" and us: "\<And>t. used_table s1 t \<longleftrightarrow> t = n \<or> used_table s t" and fresh: "\<not> used_table s n"
    and keep: "\<And>t j. used_table s t \<Longrightarrow> unat j < 512 \<Longrightarrow> pte s1 t j = pte s t j"
    using nw by (auto simp: page_new_def)
  have set: "pte (set_pte q 0 n s1) t j = pte s1 t j" if "used_table s t" "t \<noteq> q" "unat j < 512" for t j
    using pte_set_pte [OF _ _ _ that(3), of q t 0] used_table_aligned [OF inv] us q(2) that by auto
  have "pte s' t j = pte s t j" if t: "used_table s t" "\<forall>i < length cs. t \<notin> set (S i)" "unat j < 512" for t j
  proof -
    have ne: "t \<noteq> q" "t \<noteq> n" using t i q fresh by auto
    then have "\<forall>k < length cs. t \<notin> set ((S(i := S i @ [n])) k)" using t(2) by simp
    moreover have "used_table (set_pte q 0 n s1) t" using us t(1) by simp
    ultimately have "pte s' t j = pte (set_pte q 0 n s1) t j" using r t(3) unfolding only_slabs_def by blast
    then show ?thesis using set [OF t(1) ne(1) t(3)] keep [OF t(1,3)] by simp
  qed
  moreover have "p \<in> set (S k) \<or> \<not> used_table s p" if "k < length cs" "p \<in> set (S' k)" for k p
  proof -
    have "p \<in> set ((S(i := S i @ [n])) k) \<or> \<not> used_table (set_pte q 0 n s1) p" using r that unfolding only_slabs_def by blast
    then show ?thesis using us fresh by (auto split: if_splits)
  qed
  moreover have "used_table s' t" if "used_table s t" for t
  proof -
    have "used_table (set_pte q 0 n s1) t" using us that by simp
    then show ?thesis using r unfolding only_slabs_def by blast
  qed
  ultimately show ?thesis unfolding only_slabs_def by blast
qed

text \<open>The outcome of a successful allocation that takes at most \<open>d\<close> new frames.\<close>

definition heap_took ::
  "nat \<Rightarrow> pmm \<Rightarrow> slab_cache list \<Rightarrow> (nat \<Rightarrow> u64 list) \<Rightarrow> (u64 \<Rightarrow> nat list) \<Rightarrow> nat \<Rightarrow> (u64 \<times> pmm) kres option \<Rightarrow> bool" where
  "heap_took d s cs S F i r \<longleftrightarrow> (\<exists>q k s' S' F'. r = Some (Inr (objaddr q (wid i) k, s')) \<and> heap_rel s' cs S' F'
     \<and> (i, q, k) \<notin> live_objs cs S F \<and> live_objs cs S' F' = insert (i, q, k) (live_objs cs S F)
     \<and> (i, q, k) \<in> heap_objects cs S' \<and> pmm_layout s' = pmm_layout s \<and> cells_kept s s' \<and> avail s \<le> avail s' + d
     \<and> only_slabs cs S s S' s')"

lemma heap_took_from:
  assumes "heap_took 0 s2 cs S2 F2 i r" "live_objs cs S2 F2 = live_objs cs S F" "pmm_layout s2 = pmm_layout s"
    and "\<And>s'. cells_kept s2 s' \<Longrightarrow> cells_kept s s'" "\<And>S' s'. only_slabs cs S2 s2 S' s' \<Longrightarrow> only_slabs cs S s S' s'"
    and "avail s = avail s2 + d"
  shows "heap_took d s cs S F i r"
proof -
  have "avail s \<le> avail s' + d" if "avail s2 \<le> avail s' + 0" for s' using that assms(6) by simp
  then show ?thesis using assms(1,4,5) unfolding heap_took_def assms(2,3) by blast
qed

lemma heap_took_mono: "heap_took 0 s cs S F i r \<Longrightarrow> heap_took 1 s cs S F i r"
  unfolding heap_took_def by (elim exE conjE) (intro exI conjI; assumption?; simp)

lemma heap_took_pop:
  assumes h: "heap_rel s cs S F" and i: "i < length cs" and p: "p \<in> set (S i)" and f: "F p \<noteq> []"
  shows "heap_took 0 s cs S F i (allocate_with_slab p s)"
proof -
  obtain k ks where k: "F p = k # ks" using f by (cases "F p") auto
  obtain s' where s': "allocate_with_slab p s = Some (Inr (objaddr p (wid i) k, s'))" "heap_rel s' cs S (F(p := ks))" "page_upd s p s'"
      "cells_kept s s'"
    using allocate_with_slab_pop [OF h i p k] by blast
  have "k < slab_n (wid i)" using heap_relD(5) [OF h i p] k by (simp add: slab_ok_def)
  moreover have "avail s \<le> avail s' + 0" "pmm_layout s' = pmm_layout s" using s'(3) by (simp_all add: page_upd_def)
  moreover have "only_slabs cs S s S s'" by (rule only_slabs_upd [OF s'(3) i, of S]) (rule p)
  ultimately show ?thesis
    using s'(1,2,4) live_pop [OF h i p k] i p unfolding heap_took_def heap_objects_def by blast
qed

lemma allocate_with_slab_ok:
  assumes h: "heap_rel s cs S F" and i: "i < length cs" and sp: "S i = xs @ p # ys"
  shows "allocate_with_slab p s = Some (Inl (Panic ''PMM: out of memory'')) \<and> avail s = 0
    \<or> heap_took 1 s cs S F i (allocate_with_slab p s)"
  using sp
proof (induction ys arbitrary: xs p)
  case Nil
  have p: "p \<in> set (S i)" using Nil by simp
  have ok: "slab_ok s p (wid i) (F p)" by (rule heap_relD(5) [OF h i p])
  show ?case
  proof (cases "F p")
    case (Cons k ks)
    then show ?thesis using heap_took_mono [OF heap_took_pop [OF h i p]] by simp
  next
    case fNil: Nil
    have z: "pte s p 3 = 0" "pte s p 1 = of_nat (8 * wid i)" using ok fNil by (simp_all add: slab_ok_def)
    have last: "pte s p 0 = 0"
      using heap_relD(3) [OF h i] Nil by (auto simp: bm.chain_append pte_def)
    have step: "allocate_with_slab p s = (case new_slab (of_nat (8 * wid i)) s of
        Inl e \<Rightarrow> Some (Inl e) | Inr r \<Rightarrow> allocate_with_slab (fst r) (set_pte p 0 (fst r) (snd r)))"
      using z last
      by (subst allocate_with_slab.simps)
        (simp add: slab_header_cells slab_link_cells(1) [of p] slab_link_cells(2) [where p = p] Let_def
            del: of_nat_mult split: sum.split)
    from new_slab_ok [OF heap_relD(1,2) [OF h i]]
    consider (oom) "new_slab (of_nat (8 * wid i)) s = Inl (Panic ''PMM: out of memory'')" "avail s = 0"
      | (ok) n s1 where "new_slab (of_nat (8 * wid i)) s = Inr (n, s1)" "page_new s n s1" "pte s1 n 0 = 0"
          "slab_ok s1 n (wid i) (rev [0 ..< slab_n (wid i)])" by auto
    then show ?thesis
    proof cases
      case oom
      then show ?thesis using step by simp
    next
      case (ok n s1)
      let ?S = "S(i := S i @ [n])" and ?F = "F(n := rev [0 ..< slab_n (wid i)])"
      have h': "heap_rel (set_pte p 0 n s1) cs ?S ?F" by (rule heap_rel_grow [OF h i Nil ok(2-4)])
      have "heap_took 0 (set_pte p 0 n s1) cs ?S ?F i (allocate_with_slab n (set_pte p 0 n s1))"
        using slab_n_pos [OF heap_relD(2) [OF h i]] by (intro heap_took_pop [OF h' i]) auto
      moreover have "live_objs cs ?S ?F = live_objs cs S F"
        using ok(2) by (intro live_grow [OF h i]) (simp add: page_new_def)
      moreover have "pmm_layout s1 = pmm_layout s" using ok(2) by (simp add: page_new_def)
      moreover have "avail s = avail (set_pte p 0 n s1) + 1" using ok(2) by (simp add: page_new_def)
      ultimately have "heap_took 1 s cs S F i (allocate_with_slab n (set_pte p 0 n s1))"
        by (intro heap_took_from [OF _ _ _ cells_kept_grow [OF ok(2) heap_relD(4) [OF h i p]] only_slabs_grow [where S = S, OF ok(2) i p heap_relD(4) [OF h i p]]])
          (assumption+, simp)
      then show ?thesis using step ok(1) by simp
    qed
  qed
next
  case (Cons q ys)
  have p: "p \<in> set (S i)" using Cons.prems by simp
  show ?case
  proof (cases "F p")
    case fNil: Nil
    have "pte s p 3 = 0" using heap_relD(5) [OF h i p] fNil by (simp add: slab_ok_def)
    moreover have "pte s p 0 = q" "q \<noteq> 0"
      using heap_relD(3) [OF h i] Cons.prems by (auto simp: bm.chain_append pte_def)
    ultimately have "allocate_with_slab p s = allocate_with_slab q s"
      by (subst allocate_with_slab.simps) (simp add: slab_header_cells slab_link_cells(1) [of p] slab_link_cells(2) [where p = p] Let_def)
    then show ?thesis using Cons.IH [of "xs @ [p]" q] Cons.prems by simp
  qed (use heap_took_mono [OF heap_took_pop [OF h i p]] in simp)
qed

section \<open>The heap's contract\<close>

definition heap_inv :: "heap \<Rightarrow> bool" where
  "heap_inv h \<longleftrightarrow> length (slab_caches h) = 6 \<and> (\<exists>S F. heap_rel (hpmm h) (slab_caches h) S F)"

definition obj_at :: "nat \<times> u64 \<times> nat \<Rightarrow> u64" where
  "obj_at = (\<lambda>(i, p, k). objaddr p (wid i) k)"

definition heap_live :: "heap \<Rightarrow> u64 set" where
  "heap_live h = {a. \<exists>S F. heap_rel (hpmm h) (slab_caches h) S F \<and> a \<in> obj_at ` live_objs (slab_caches h) S F}"

text \<open>The memory determines the slabs and their free objects.\<close>

lemma map_objaddr_inj:
  assumes "page_aligned p" and "width_ok w" and "\<forall>k \<in> set xs. k < slab_n w" and "\<forall>k \<in> set ys. k < slab_n w"
    and "map (objaddr p w) xs = map (objaddr p w) ys"
  shows "xs = ys"
proof -
  have "inj_on (objaddr p w) {k. k < slab_n w}"
  proof (rule inj_onI)
    fix a b assume "a \<in> {k. k < slab_n w}" "b \<in> {k. k < slab_n w}" and e: "objaddr p w a = objaddr p w b"
    then have "unat p + 8 * (4 + a * w) = unat p + 8 * (4 + b * w)"
      using objaddr_props(1) [OF assms(1,2)] by (metis mem_Collect_eq)
    then show "a = b" using assms(2) by (simp add: width_ok_def)
  qed
  moreover have "set xs \<union> set ys \<subseteq> {k. k < slab_n w}" using assms(3,4) by auto
  ultimately have "inj_on (objaddr p w) (set xs \<union> set ys)" by (rule inj_on_subset)
  then show ?thesis using assms(5) by (simp add: inj_on_map_eq_map)
qed

lemma heap_rel_det:
  assumes h: "heap_rel s cs S F" "heap_rel s cs S' F'" and i: "i < length cs"
  shows "S i = S' i" and "p \<in> set (S i) \<Longrightarrow> F p = F' p"
proof -
  show S: "S i = S' i" using bm.chain_det [OF heap_relD(3) [OF h(1) i] heap_relD(3) [OF h(2) i]] .
  assume p: "p \<in> set (S i)"
  then have ok: "slab_ok s p (wid i) (F p)" "slab_ok s p (wid i) (F' p)"
    using heap_relD(5) [OF h(1) i] heap_relD(5) [OF h(2) i] S by simp_all
  have eq: "map (objaddr p (wid i)) (F p) = map (objaddr p (wid i)) (F' p)"
    by (rule bm.chain_det [of "kmem s" "pte s p 3"]) (use ok in \<open>simp_all add: slab_ok_def\<close>)
  show "F p = F' p"
    by (rule map_objaddr_inj [OF heap_relD(6) [OF h(1) i p] heap_relD(2) [OF h(1) i] _ _ eq])
      (use ok in \<open>simp_all add: slab_ok_def\<close>)
qed

lemma live_objs_det:
  assumes "heap_rel s cs S F" "heap_rel s cs S' F'"
  shows "live_objs cs S F = live_objs cs S' F'"
proof -
  have "heap_objects cs S = heap_objects cs S'"
    using heap_rel_det(1) [OF assms] by (auto simp: heap_objects_def)
  moreover have "F p = F' p" if "(i, p, k) \<in> heap_objects cs S" for i p k
    using heap_rel_det(2) [OF assms] that by (auto simp: heap_objects_def)
  ultimately show ?thesis unfolding live_objs_def by auto
qed

lemma heap_live_eq:
  assumes "heap_rel (hpmm h) (slab_caches h) S F"
  shows "heap_live h = obj_at ` live_objs (slab_caches h) S F"
  using assms live_objs_det unfolding heap_live_def by blast

lemma obj_at_inj:
  assumes h: "heap_rel s cs S F"
  shows "inj_on obj_at (heap_objects cs S)"
proof (rule inj_onI)
  fix x y assume xy: "x \<in> heap_objects cs S" "y \<in> heap_objects cs S" "obj_at x = obj_at y"
  obtain i p k j q n where e: "x = (i, p, k)" "y = (j, q, n)" by (metis prod_cases3)
  have x: "i < length cs" "p \<in> set (S i)" "k < slab_n (wid i)" and y: "j < length cs" "q \<in> set (S j)" "n < slab_n (wid j)"
    using xy e by (auto simp: heap_objects_def)
  note al = heap_relD(6) [OF h x(1,2)] heap_relD(6) [OF h y(1,2)]
  note w = heap_relD(2) [OF h x(1)] heap_relD(2) [OF h y(1)]
  have eq: "objaddr p (wid i) k = objaddr q (wid j) n" using xy(3) e by (simp add: obj_at_def)
  have pq: "p = q" by (rule objaddr_inj [OF al w x(3) y(3) eq])
  then have ij: "i = j" using h x(1,2) y(1,2) unfolding heap_rel_def by blast
  then have "unat p + 8 * (4 + k * wid i) = unat p + 8 * (4 + n * wid i)"
    using eq pq objaddr_props(1) [OF al(1) w(1) x(3)] objaddr_props(1) [OF al(1) w(1), of n] y(3) by metis
  then have "k = n" using w(1) by (simp add: width_ok_def)
  then show "x = y" using e pq ij by simp
qed

section \<open>Freeing an object\<close>

lemma byte_outside:
  fixes a b :: u64
  assumes "unat b + n \<le> 2 ^ 64" and "unat a < unat b \<or> unat b + n \<le> unat a"
  shows "n \<le> unat (a - b)"
  using assms unat_lt_64 [of b] by (auto simp: unat_sub_if')

lemma unat_cell_byte:
  assumes "page_aligned t" and "unat j < 512" and "m < 8"
  shows "unat (t + 8 * j + of_nat m) = unat t + 8 * unat j + m"
proof -
  have "unat (of_nat m :: u64) = m" using assms(3) by (simp add: unat_of_nat)
  then show ?thesis
    using unat_pte_addr [OF assms(1,2)] page_aligned_le [OF assms(1)] assms(2,3)
    by (subst unat_add_no_wrap) simp_all
qed

lemma block_cell_bound:
  assumes "k < slab_n w" "width_ok w" "c < w"
  shows "unat (of_nat (4 + k * w + c) :: u64) = 4 + k * w + c" "4 + k * w + c < 512"
proof -
  show "4 + k * w + c < 512" using object_bound [OF assms(1,2)] assms(3) by simp
  then show "unat (of_nat (4 + k * w + c) :: u64) = 4 + k * w + c" by (intro unat_of_nat64) simp
qed

text \<open>Zeroing an object touches neither the header nor another object nor another frame.\<close>

lemma zero_object:
  assumes inv: "pmm_inv s" and u: "used_table s p" and w: "width_ok w" and k: "k < slab_n w"
    and s1: "s1 = s\<lparr>kmem := fill_bytes (kmem s) (objaddr p w k) 0 (8 * w)\<rparr>"
  shows "page_upd s p s1" and "unat j < 4 \<Longrightarrow> pte s1 p j = pte s p j"
    and "n < slab_n w \<Longrightarrow> n \<noteq> k \<Longrightarrow> c < w \<Longrightarrow> pte s1 p (of_nat (4 + n * w + c)) = pte s p (of_nat (4 + n * w + c))"
    and "pte s1 p (ix w k) = 0"
proof -
  have al: "page_aligned p" using used_table_aligned [OF inv u] .
  note o = objaddr_props(1) [OF al w k]
  have b: "4 + k * w + w \<le> 512" "0 < w" using object_bound [OF k w] w by (simp_all add: width_ok_def)
  have top: "unat (objaddr p w k) + 8 * w \<le> 2 ^ 64"
    using o b page_aligned_le [OF al] by simp
  have keep: "pte s1 t i = pte s t i"
    if "page_aligned t" "unat i < 512" and far: "\<And>m. m < 8 \<Longrightarrow> unat t + 8 * unat i + m < unat p + 8 * (4 + k * w)
       \<or> unat p + 8 * (4 + k * w) + 8 * w \<le> unat t + 8 * unat i + m" for t i
    unfolding pte_def s1
    using byte_outside [OF top] unat_cell_byte [OF that(1,2)] far o
    by (simp add: read64_fill_outside)
  show "pte s1 p j = pte s p j" if "unat j < 4"
  proof (rule keep [OF al])
    show "unat j < 512" using that by simp
    fix m :: nat assume "m < 8"
    moreover have "8 * unat j + 8 \<le> 8 * 4" using that by simp
    ultimately show "unat p + 8 * unat j + m < unat p + 8 * (4 + k * w)
        \<or> unat p + 8 * (4 + k * w) + 8 * w \<le> unat p + 8 * unat j + m" by simp
  qed
  show "pte s1 p (of_nat (4 + n * w + c)) = pte s p (of_nat (4 + n * w + c))" if n: "n < slab_n w" "n \<noteq> k" "c < w"
  proof -
    note i = block_cell_bound [OF n(1) w n(3)]
    have far: "8 * (4 + n * w + c) + 8 \<le> 8 * (4 + k * w) \<or> 8 * (4 + k * w) + 8 * w \<le> 8 * (4 + n * w + c)"
    proof (cases "n < k")
      case True
      then have "Suc n * w \<le> k * w" by (intro mult_le_mono1) simp
      then show ?thesis using n(3) by simp
    next
      case False
      then have "Suc k * w \<le> n * w" using n(2) by (intro mult_le_mono1) simp
      then show ?thesis by simp
    qed
    show ?thesis
    proof (rule keep [OF al])
      show "unat (of_nat (4 + n * w + c) :: u64) < 512" using i by (simp only:)
      fix m :: nat assume "m < 8"
      then show "unat p + 8 * unat (of_nat (4 + n * w + c) :: u64) + m < unat p + 8 * (4 + k * w)
          \<or> unat p + 8 * (4 + k * w) + 8 * w \<le> unat p + 8 * unat (of_nat (4 + n * w + c) :: u64) + m"
        using far unfolding i(1) by linarith
    qed
  qed
  have "read64 (fill_bytes (kmem s) (objaddr p w k) 0 (8 * w)) (objaddr p w k) = 0"
    by (rule read64_fill_zero_inside) (use b(2) in \<open>simp add: unat_of_nat\<close>)
  then show "pte s1 p (ix w k) = 0" by (simp add: pte_def s1 objaddr_def)
  have "pmm_inv s1" unfolding s1
  proof (rule pmm_inv_kmem [OF inv])
    fix x assume far: "\<forall>l \<in> pages_in PAGE_USED s. 4096 \<le> unat (x - page_node s l)"
    have "\<not> unat (x - objaddr p w k) < 8 * w"
    proof
      assume "unat (x - objaddr p w k) < 8 * w"
      moreover have "unat (8 * ix w k) = 8 * (4 + k * w)"
        using unat_ix [OF k w] by (simp add: unat_word_ariths)
      ultimately have "unat ((x - objaddr p w k) + 8 * ix w k) < 4096"
        using b by (subst unat_add_no_wrap) simp_all
      then have "unat (x - p) < 4096" by (simp add: objaddr_def)
      then show False using far u unfolding used_table_def by fastforce
    qed
    then show "fill_bytes (kmem s) (objaddr p w k) 0 (8 * w) x = kmem s x" by (simp add: fill_bytes_def)
  qed
  moreover have "pte s1 t i = pte s t i" if t: "used_table s t" "t \<noteq> p" "unat i < 512" for t i
  proof (rule keep [OF used_table_aligned [OF inv t(1)] t(3)])
    have "unat t + 4096 \<le> unat p \<or> unat p + 4096 \<le> unat t"
    proof -
      obtain q q' where qq: "unat t = 4096 * q" "unat p = 4096 * q'"
        using used_table_aligned [OF inv t(1)] al by (auto elim!: dvdE)
      have "q \<noteq> q'" using t(2) qq by (auto simp: word_unat_eq_iff)
      then show ?thesis using qq by linarith
    qed
    then consider "unat t + 4096 \<le> unat p" | "unat p + 4096 \<le> unat t" by blast
    moreover fix m :: nat assume "m < 8"
    ultimately show "unat t + 8 * unat i + m < unat p + 8 * (4 + k * w)
        \<or> unat p + 8 * (4 + k * w) + 8 * w \<le> unat t + 8 * unat i + m"
      using t(3) b(1) by cases simp_all
  qed
  moreover have "used_table s1 t = used_table s t" for t
    by (simp add: s1 used_table_def pages_in_def page_locs_def page_st_def page_node_def page_addr_def)
  moreover have "pmm_layout s1 = pmm_layout s" "avail s1 = avail s"
    by (simp_all add: s1 pmm_layout_def avail_def pages_in_def page_locs_def page_st_def)
  ultimately show "page_upd s p s1" by (simp add: page_upd_def)
qed

lemma kfree_ok:
  assumes h: "heap_rel (hpmm h) cs S F" and i: "i < length cs" and p: "p \<in> set (S i)"
    and k: "k < slab_n (wid i)" "k \<notin> set (F p)"
  shows "\<exists>s'. kfree (objaddr p (wid i) k) h = h\<lparr>hpmm := s'\<rparr> \<and> heap_rel s' cs S (F(p := k # F p))
    \<and> avail s' = avail (hpmm h) \<and> page_upd (hpmm h) p s'
    \<and> (\<forall>n < slab_n (wid i). n \<noteq> k \<longrightarrow> (\<forall>c < wid i. pte s' p (of_nat (4 + n * wid i + c)) = pte (hpmm h) p (of_nat (4 + n * wid i + c))))"
proof -
  let ?s = "hpmm h" and ?w = "wid i"
  let ?a = "objaddr p ?w k"
  have inv: "pmm_inv ?s" and w: "width_ok ?w" and u: "used_table ?s p" and al: "page_aligned p"
    and ok: "slab_ok ?s p ?w (F p)"
    using heap_relD(1,2) [OF h i] heap_relD(4-6) [OF h i p] by simp_all
  define s1 where "s1 = ?s\<lparr>kmem := fill_bytes (kmem ?s) ?a 0 (8 * ?w)\<rparr>"
  note z = zero_object [OF inv u w k(1) s1_def]
  note o = objaddr_props [OF al w k(1)] unat_ix [OF k(1) w]
  define s2 where "s2 = (if pte s1 p 3 = 0 then set_pte p 3 ?a s1
      else set_pte p 3 ?a (set_pte p (ix ?w k) (pte s1 p 3) s1))"
  define s3 where "s3 = set_pte p 2 (pte s2 p 2 + 1) s2"
  have inv1: "pmm_inv s1" "used_table s1 p" using page_updD [OF z(1)] u by simp_all
  have up2: "page_upd s1 p s2"
    unfolding s2_def using page_upd_set_pte [OF inv1, of 3] page_upd_set_pte2 [OF inv1 _ o(6), of 3] by simp
  have inv2: "pmm_inv s2" "used_table s2 p" using page_updD [OF up2] inv1 by simp_all
  have up: "page_upd ?s p s3"
    using page_upd_trans [OF page_upd_trans [OF z(1) up2]] page_upd_set_pte [OF inv2, of 2] unfolding s3_def by simp
  have c2: "pte s2 p j = (if j = 3 then ?a else if j = ix ?w k then pte ?s p 3 else pte s1 p j)" if "unat j < 512" for j
    using pte_set_pte [OF al al _ that, of 3] pte_set_pte [OF al al o(6) that] z(2) [of 3] z(4)
      ix_not_header [OF w k(1), of 3] by (auto simp: s2_def)
  have c3: "pte s3 p j = (if j = 2 then pte ?s p 2 + 1 else if j = 3 then ?a
      else if j = ix ?w k then pte ?s p 3 else pte s1 p j)" if "unat j < 512" for j
    using pte_set_pte [OF al al _ that, of 2] c2 [OF that] c2 [of 2] z(2) [of 2] ix_not_header [OF w k(1), of 2]
    by (auto simp: s3_def)
  have step: "kfree ?a h = h\<lparr>hpmm := s3\<rparr>"
  proof -
    have "unat (of_nat (8 * ?w) :: u64) = 8 * ?w" using w by (intro unat_of_nat64) (simp add: width_ok_def)
    moreover have "pte ?s p 1 = of_nat (8 * ?w)" using ok by (simp add: slab_ok_def)
    ultimately have "?s\<lparr>kmem := fst (memset (kmem ?s) ?a 0 (peek64 ?s (p + 8)))\<rparr> = s1"
      by (simp only: slab_header_cells memset_eq fst_conv s1_def)
    then show ?thesis
      using o(3,4) by (simp add: kfree_def Let_def slab_header_cells s2_def s3_def objaddr_def poke_cell)
  qed
  have "slab_ok s3 p ?w (k # F p)"
  proof -
    have "read64 (kmem s3) x = read64 (kmem ?s) x" if "x \<in> set (map (objaddr p ?w) (F p))" for x
    proof -
      obtain n where n: "x = objaddr p ?w n" "n \<in> set (F p)" using \<open>x \<in> _\<close> by auto
      then have n': "n < slab_n ?w" "n \<noteq> k" using ok k(2) by (auto simp: slab_ok_def)
      have "ix ?w n \<noteq> 2" "ix ?w n \<noteq> 3" using ix_not_header [OF w n'(1)] by simp_all
      moreover have "ix ?w n \<noteq> ix ?w k" using ix_inj [OF w n'(1) k(1)] n'(2) by blast
      ultimately show ?thesis
        using c3 [OF unat_ix(2) [OF n'(1) w]] z(3) [OF n', of 0] w n(1)
        by (simp add: pte_def objaddr_def ix_def width_ok_def)
    qed
    then have "bm.chain (kmem s3) (pte ?s p 3) (map (objaddr p ?w) (F p)) 0
        = bm.chain (kmem ?s) (pte ?s p 3) (map (objaddr p ?w) (F p)) 0" by (rule bm.chain_cong)
    then have "bm.chain (kmem s3) (pte ?s p 3) (map (objaddr p ?w) (F p)) 0" using ok by (simp add: slab_ok_def)
    moreover have "read64 (kmem s3) ?a = pte ?s p 3"
      using c3 [OF o(6)] ix_not_header [OF w k(1), of 2] ix_not_header [OF w k(1), of 3]
      by (simp add: pte_def objaddr_def)
    moreover have "pte s3 p 1 = pte ?s p 1" "pte s3 p 2 = pte ?s p 2 + 1" "pte s3 p 3 = ?a"
      using c3 [of 1] c3 [of 2] c3 [of 3] z(2) [of 1] ix_not_header [OF w k(1), of 1] by simp_all
    ultimately show ?thesis using ok k o(3) by (simp add: slab_ok_def)
  qed
  moreover have "pte s3 p 0 = pte ?s p 0"
    using c3 [of 0] z(2) [of 0] ix_not_header [OF w k(1), of 0] by simp
  moreover have "pte s3 p (of_nat (4 + n * ?w + c)) = pte ?s p (of_nat (4 + n * ?w + c))" if n: "n < slab_n ?w" "n \<noteq> k" "c < ?w" for n c
  proof -
    define j where "j = (of_nat (4 + n * ?w + c) :: u64)"
    have j: "unat j = 4 + n * ?w + c" "unat j < 512" using block_cell_bound [OF n(1) w n(3)] unfolding j_def by metis+
    then have "j \<noteq> 2" "j \<noteq> 3" by auto
    moreover have "4 + n * ?w + c \<noteq> 4 + k * ?w"
    proof (cases "n < k")
      case True
      then have "Suc n * ?w \<le> k * ?w" by (intro mult_le_mono1) simp
      then show ?thesis using n(3) by simp
    next
      case False
      then have "Suc k * ?w \<le> n * ?w" using n(2) by (intro mult_le_mono1) simp
      then show ?thesis using n(3) by simp
    qed
    then have "j \<noteq> ix ?w k" using j(1) unat_ix(1) [OF k(1) w] by metis
    ultimately show ?thesis using c3 [OF j(2)] z(3) [OF n, folded j_def] unfolding j_def [symmetric] by simp
  qed
  ultimately show ?thesis using heap_rel_upd [OF h i p up] step up by (auto simp: page_upd_def)
qed

section \<open>Blocks in use\<close>

text \<open>\<open>heap_block h a n\<close>: the \<open>n\<close> bytes from \<open>a\<close> are an object handed out.\<close>

definition heap_block :: "heap \<Rightarrow> u64 \<Rightarrow> nat \<Rightarrow> bool" where
  "heap_block h a n \<longleftrightarrow> (\<exists>S F i p k. heap_rel (hpmm h) (slab_caches h) S F
     \<and> (i, p, k) \<in> live_objs (slab_caches h) S F \<and> a = objaddr p (wid i) k \<and> n = 8 * wid i)"

lemma page_apart:
  assumes "page_aligned p" and "page_aligned q" and "p \<noteq> q"
  shows "unat p + 4096 \<le> unat q \<or> unat q + 4096 \<le> unat p"
proof -
  obtain a b where ab: "unat p = 4096 * a" "unat q = 4096 * b" using assms(1,2) by (auto elim!: dvdE)
  then have "a \<noteq> b" using assms(3) by (auto simp: word_unat_eq_iff)
  then show ?thesis using ab by linarith
qed

lemma objects_disjoint:
  assumes h: "heap_rel s cs S F" and x: "(i, p, k) \<in> heap_objects cs S" and y: "(j, q, n) \<in> heap_objects cs S"
    and ne: "(i, p, k) \<noteq> (j, q, n)"
  shows "{unat (objaddr p (wid i) k) ..< unat (objaddr p (wid i) k) + 8 * wid i}
    \<inter> {unat (objaddr q (wid j) n) ..< unat (objaddr q (wid j) n) + 8 * wid j} = {}"
proof -
  have x': "i < length cs" "p \<in> set (S i)" "k < slab_n (wid i)" and y': "j < length cs" "q \<in> set (S j)" "n < slab_n (wid j)"
    using x y by (auto simp: heap_objects_def)
  note w = heap_relD(2) [OF h x'(1)] heap_relD(2) [OF h y'(1)]
  note al = heap_relD(6) [OF h x'(1,2)] heap_relD(6) [OF h y'(1,2)]
  note u = objaddr_props(1) [OF al(1) w(1) x'(3)] objaddr_props(1) [OF al(2) w(2) y'(3)]
  note b = object_bound [OF x'(3) w(1)] object_bound [OF y'(3) w(2)]
  show ?thesis
  proof (cases "p = q")
    case False
    then show ?thesis using page_apart [OF al False] u b by auto
  next
    case True
    then have ij: "i = j" using h x'(1,2) y'(1,2) unfolding heap_rel_def by blast
    then have "k < n \<or> n < k" using ne True by auto
    then have "Suc k * wid i \<le> n * wid i \<or> Suc n * wid i \<le> k * wid i" by (meson Suc_leI mult_le_mono1)
    then show ?thesis using u True ij by auto
  qed
qed

lemma heap_block_rel:
  assumes h: "heap_rel (hpmm h) (slab_caches h) S F"
  shows "heap_block h a n \<longleftrightarrow> (\<exists>i p k. (i, p, k) \<in> live_objs (slab_caches h) S F \<and> a = objaddr p (wid i) k \<and> n = 8 * wid i)"
  unfolding heap_block_def using live_objs_det [OF h] h by blast

text \<open>The words of a block, and that another state has the same.\<close>

definition block_kept :: "pmm \<Rightarrow> pmm \<Rightarrow> u64 \<Rightarrow> nat \<Rightarrow> bool" where
  "block_kept s s' b n \<longleftrightarrow> (\<forall>c. 8 * c < n \<longrightarrow> peek64 s' (b + of_nat (8 * c)) = peek64 s (b + of_nat (8 * c)))"

lemma block_cells:
  assumes "k < slab_n w" "width_ok w"
  shows "block_kept s s' (objaddr p w k) (8 * w) \<longleftrightarrow> (\<forall>c < w. pte s' p (of_nat (4 + k * w + c)) = pte s p (of_nat (4 + k * w + c)))"
proof -
  have "objaddr p w k + of_nat (8 * c) = p + 8 * of_nat (4 + k * w + c)" for c
    by (simp add: objaddr_def ix_def algebra_simps)
  then show ?thesis by (simp only: block_kept_def peek_cell) (simp del: of_nat_add of_nat_mult)
qed

section \<open>\<open>kmalloc\<close> and \<open>kfree\<close>\<close>

lemma find_nth: "find P xs = Some x \<Longrightarrow> \<exists>i < length xs. x = xs ! i \<and> P x"
  by (auto simp: find_Some_iff)

text \<open>The cache a request goes to, and what allocating there gives.\<close>

lemma kmalloc_took:
  assumes h: "heap_rel (hpmm h) (slab_caches h) S F" and len: "length (slab_caches h) = 6" and z: "unat z \<le> 1024"
  obtains c i where "find (\<lambda>c. z \<le> sc_size c) (slab_caches h) = Some c" "i < length (slab_caches h)" "unat z \<le> 8 * wid i"
    "allocate_with_slab (sc_slabs c) (hpmm h) = Some (Inl (Panic ''PMM: out of memory'')) \<and> avail (hpmm h) = 0
      \<or> heap_took 1 (hpmm h) (slab_caches h) S F i (allocate_with_slab (sc_slabs c) (hpmm h))"
proof -
  let ?cs = "slab_caches h"
  have size: "unat (sc_size (?cs ! i)) = 8 * wid i" if "i < 6" for i
  proof -
    have "8 * wid i \<le> 1024" using wid_ok [OF that] by (simp add: width_ok_def)
    then have "unat (of_nat (8 * wid i) :: u64) = 8 * wid i" by (intro unat_of_nat64) simp
    then show ?thesis using heap_relD(8) [OF h, of i] that len by simp
  qed
  have "z \<le> sc_size (?cs ! 5)" using size [of 5] z by (simp add: word_le_nat_alt wid_def)
  then have "find (\<lambda>c. z \<le> sc_size c) ?cs \<noteq> None"
    using len nth_mem [of 5 ?cs] by (auto simp: find_None_iff intro!: exI [of _ "?cs ! 5"])
  then obtain c where c: "find (\<lambda>c. z \<le> sc_size c) ?cs = Some c" by blast
  obtain i where i: "i < length ?cs" "c = ?cs ! i" "z \<le> sc_size c" using find_nth [OF c] by auto
  have zi: "unat z \<le> 8 * wid i" using i(3) size [of i] i(1) len unfolding i(2) word_le_nat_alt by simp
  have head: "S i = [] @ sc_slabs c # tl (S i)"
    using heap_relD(3,7) [OF h i(1)] i(2) by (cases "S i") auto
  from that [OF c i(1) zi allocate_with_slab_ok [OF h i(1) head]] show thesis .
qed

lemma kmalloc_ok:
  assumes inv: "heap_inv h" and z: "unat z \<le> 1024"
  shows "kmalloc z h = Some (Inl (Panic ''PMM: out of memory'')) \<and> avail (hpmm h) = 0
    \<or> (\<exists>a h' n. kmalloc z h = Some (Inr (a, h')) \<and> heap_inv h' \<and> a \<notin> heap_live h
        \<and> heap_live h' = insert a (heap_live h) \<and> heap_block h' a n \<and> unat z \<le> n
        \<and> pmm_layout (hpmm h') = pmm_layout (hpmm h) \<and> avail (hpmm h) \<le> avail (hpmm h') + 1
        \<and> (\<forall>b m. heap_block h b m \<longrightarrow> heap_block h' b m
             \<and> {unat a ..< unat a + n} \<inter> {unat b ..< unat b + m} = {} \<and> block_kept (hpmm h) (hpmm h') b m))"
proof -
  let ?cs = "slab_caches h"
  obtain S F where h: "heap_rel (hpmm h) ?cs S F" and len: "length ?cs = 6" using inv by (auto simp: heap_inv_def)
  obtain c i where c: "find (\<lambda>c. z \<le> sc_size c) ?cs = Some c" and i: "i < length ?cs" and zi: "unat z \<le> 8 * wid i"
    and took: "allocate_with_slab (sc_slabs c) (hpmm h) = Some (Inl (Panic ''PMM: out of memory'')) \<and> avail (hpmm h) = 0
      \<or> heap_took 1 (hpmm h) ?cs S F i (allocate_with_slab (sc_slabs c) (hpmm h))"
    by (rule kmalloc_took [OF h len z])
  from took
  consider (oom) "allocate_with_slab (sc_slabs c) (hpmm h) = Some (Inl (Panic ''PMM: out of memory''))" "avail (hpmm h) = 0"
    | (ok) q k s' S' F' where "allocate_with_slab (sc_slabs c) (hpmm h) = Some (Inr (objaddr q (wid i) k, s'))"
        "heap_rel s' ?cs S' F'" "(i, q, k) \<notin> live_objs ?cs S F"
        "live_objs ?cs S' F' = insert (i, q, k) (live_objs ?cs S F)" "(i, q, k) \<in> heap_objects ?cs S'"
        "pmm_layout s' = pmm_layout (hpmm h)" "cells_kept (hpmm h) s'" "avail (hpmm h) \<le> avail s' + 1"
    by (auto simp: heap_took_def)
  then show ?thesis
  proof cases
    case oom
    then show ?thesis using c by (simp add: kmalloc_def)
  next
    case (ok q k s' S' F')
    let ?a = "objaddr q (wid i) k" and ?h = "h\<lparr>hpmm := s'\<rparr>"
    have h': "heap_rel (hpmm ?h) (slab_caches ?h) S' F'" using ok(2) by simp
    have step: "kmalloc z h = Some (Inr (?a, ?h))" using c ok(1) by (simp add: kmalloc_def)
    have "heap_live ?h = insert ?a (heap_live h)"
      unfolding heap_live_eq [OF h'] heap_live_eq [OF h] by (simp add: ok(4) obj_at_def)
    moreover have "?a \<notin> heap_live h"
    proof
      assume "?a \<in> heap_live h"
      then obtain x where x: "x \<in> live_objs ?cs S F" "obj_at x = obj_at (i, q, k)"
        unfolding heap_live_eq [OF h] by (auto simp: obj_at_def)
      have "x \<in> live_objs ?cs S' F'" using ok(4) x(1) by blast
      then have "x \<in> heap_objects ?cs S'" by (cases x) (simp add: live_objs_def)
      then have "x = (i, q, k)" using inj_onD [OF obj_at_inj [OF ok(2)] x(2)] ok(5) by blast
      then show False using x(1) ok(3) by simp
    qed
    moreover have "heap_block ?h ?a (8 * wid i)"
      using ok(4) unfolding heap_block_rel [OF h'] by auto
    moreover have "heap_block ?h b m \<and> {unat ?a ..< unat ?a + 8 * wid i} \<inter> {unat b ..< unat b + m} = {}
        \<and> block_kept (hpmm h) (hpmm ?h) b m"
      if blk: "heap_block h b m" for b m
    proof -
      obtain j p n where x: "(j, p, n) \<in> live_objs ?cs S F" "b = objaddr p (wid j) n" "m = 8 * wid j"
        using blk unfolding heap_block_rel [OF h] by blast
      have l: "(j, p, n) \<in> live_objs ?cs S' F'" using ok(4) x(1) by blast
      then have o: "(j, p, n) \<in> heap_objects ?cs S'" by (simp add: live_objs_def)
      have ne: "(i, q, k) \<noteq> (j, p, n)" using x(1) ok(3) by auto
      have "{unat ?a ..< unat ?a + 8 * wid i} \<inter> {unat b ..< unat b + m} = {}"
        unfolding x(2,3) by (rule objects_disjoint [OF ok(2,5) o ne])
      moreover have "block_kept (hpmm h) s' b m"
      proof -
        have j: "j < length ?cs" "p \<in> set (S j)" "n < slab_n (wid j)" using x(1) by (auto simp: live_objs_def heap_objects_def)
        note w = heap_relD(2) [OF h j(1)]
        show ?thesis
          unfolding x(2,3) block_cells [OF j(3) w]
          using ok(7) heap_relD(4) [OF h j(1,2)] block_cell_bound [OF j(3) w] by (simp add: cells_kept_def)
      qed
      ultimately show ?thesis using l x(2,3) unfolding heap_block_rel [OF h'] by auto
    qed
    moreover have "heap_inv ?h" using h' len unfolding heap_inv_def by auto
    moreover have "pmm_layout (hpmm ?h) = pmm_layout (hpmm h)" "avail (hpmm h) \<le> avail (hpmm ?h) + 1" using ok(6,8) by simp_all
    ultimately show ?thesis using step zi by blast
  qed
qed

lemma kmalloc_too_big:
  assumes inv: "heap_inv h" and z: "1024 < unat z"
  shows "kmalloc z h = Some (Inl (Panic ''no mem''))"
proof -
  obtain S F where h: "heap_rel (hpmm h) (slab_caches h) S F" and len: "length (slab_caches h) = 6"
    using inv by (auto simp: heap_inv_def)
  have "\<not> z \<le> sc_size c" if "c \<in> set (slab_caches h)" for c
  proof -
    obtain i where i: "i < length (slab_caches h)" "c = slab_caches h ! i" using \<open>c \<in> _\<close> by (metis in_set_conv_nth)
    have "8 * wid i \<le> 1024" using wid_ok [of i] i(1) len by (simp add: width_ok_def)
    moreover have "unat (of_nat (8 * wid i) :: u64) = 8 * wid i" by (intro unat_of_nat64) (use calculation in simp)
    ultimately show ?thesis using heap_relD(8) [OF h i(1)] i(2) z by (simp add: word_le_nat_alt)
  qed
  then have "find (\<lambda>c. z \<le> sc_size c) (slab_caches h) = None" by (auto simp: find_None_iff)
  then show ?thesis by (simp add: kmalloc_def)
qed

definition kmalloc_total :: "u64 \<Rightarrow> heap \<Rightarrow> (u64 \<times> heap) kres" where
  "kmalloc_total z h = (case kmalloc z h of Some r \<Rightarrow> r | None \<Rightarrow> Inl (Panic ''no return''))"

lemma kmalloc_slabs:
  assumes h: "heap_rel (hpmm h) (slab_caches h) S F" and len: "length (slab_caches h) = 6" and z: "unat z \<le> 1024"
    and m: "kmalloc z h = Some (Inr (a, h'))"
  obtains S' F' where "heap_rel (hpmm h') (slab_caches h) S' F'" "slab_caches h' = slab_caches h" "only_slabs (slab_caches h) S (hpmm h) S' (hpmm h')"
proof -
  obtain c i where c: "find (\<lambda>c. z \<le> sc_size c) (slab_caches h) = Some c"
    and took: "allocate_with_slab (sc_slabs c) (hpmm h) = Some (Inl (Panic ''PMM: out of memory'')) \<and> avail (hpmm h) = 0
      \<or> heap_took 1 (hpmm h) (slab_caches h) S F i (allocate_with_slab (sc_slabs c) (hpmm h))"
    by (rule kmalloc_took [OF h len z])
  then obtain s' S' F' p where "allocate_with_slab (sc_slabs c) (hpmm h) = Some (Inr (p, s'))" "heap_rel s' (slab_caches h) S' F'"
      "only_slabs (slab_caches h) S (hpmm h) S' s'"
    using m by (auto simp: kmalloc_def heap_took_def)
  then show thesis using that [of S' F'] m c by (auto simp: kmalloc_def)
qed


lemma kfree_live:
  assumes inv: "heap_inv h" and a: "a \<in> heap_live h"
  shows "heap_inv (kfree a h) \<and> heap_live (kfree a h) = heap_live h - {a}"
proof -
  let ?cs = "slab_caches h"
  obtain S F where h: "heap_rel (hpmm h) ?cs S F" and len: "length ?cs = 6" using inv by (auto simp: heap_inv_def)
  obtain i p k where x: "(i, p, k) \<in> live_objs ?cs S F" "a = objaddr p (wid i) k"
    using a unfolding heap_live_eq [OF h] by (auto simp: obj_at_def)
  then have o: "i < length ?cs" "p \<in> set (S i)" "k < slab_n (wid i)" "k \<notin> set (F p)"
    by (auto simp: live_objs_def heap_objects_def)
  obtain s' where s': "kfree a h = h\<lparr>hpmm := s'\<rparr>" "heap_rel s' ?cs S (F(p := k # F p))"
    using kfree_ok [OF h o] x(2) by blast
  have h': "heap_rel (hpmm (kfree a h)) (slab_caches (kfree a h)) S (F(p := k # F p))" using s' by simp
  from live_pop [OF s'(2) o(1,2), of k "F p"]
  have eq: "(i, p, k) \<notin> live_objs ?cs S (F(p := k # F p))"
    "live_objs ?cs S F = insert (i, p, k) (live_objs ?cs S (F(p := k # F p)))" by simp_all
  then have "live_objs ?cs S (F(p := k # F p)) = live_objs ?cs S F - {(i, p, k)}" by blast
  moreover have "live_objs ?cs S F \<subseteq> heap_objects ?cs S" by (auto simp: live_objs_def)
  ultimately have "obj_at ` live_objs ?cs S (F(p := k # F p)) = obj_at ` live_objs ?cs S F - obj_at ` {(i, p, k)}"
    using inj_on_image_set_diff [OF obj_at_inj [OF h], of "live_objs ?cs S F" "{(i, p, k)}"] x(1) by auto
  moreover have "slab_caches (kfree a h) = ?cs" using s'(1) by simp
  ultimately have "heap_live (kfree a h) = heap_live h - {a}"
    unfolding heap_live_eq [OF h'] heap_live_eq [OF h] by (simp add: x(2) obj_at_def)
  moreover have "heap_inv (kfree a h)" using h' len s'(1) unfolding heap_inv_def by auto
  ultimately show ?thesis by blast
qed

text \<open>Freeing a block leaves the others in use, with their contents.\<close>

lemma kfree_others:
  assumes inv: "heap_inv h" and a: "a \<in> heap_live h" and b: "heap_block h b m" and ne: "b \<noteq> a"
  shows "heap_block (kfree a h) b m" and "block_kept (hpmm h) (hpmm (kfree a h)) b m"
proof -
  let ?cs = "slab_caches h"
  obtain S F where h: "heap_rel (hpmm h) ?cs S F" using inv by (auto simp: heap_inv_def)
  obtain i p k where x: "(i, p, k) \<in> live_objs ?cs S F" "a = objaddr p (wid i) k"
    using a unfolding heap_live_eq [OF h] by (auto simp: obj_at_def)
  then have o: "i < length ?cs" "p \<in> set (S i)" "k < slab_n (wid i)" "k \<notin> set (F p)"
    by (auto simp: live_objs_def heap_objects_def)
  obtain s' where s': "kfree a h = h\<lparr>hpmm := s'\<rparr>" "heap_rel s' ?cs S (F(p := k # F p))" "page_upd (hpmm h) p s'"
      "\<And>n c. n < slab_n (wid i) \<Longrightarrow> n \<noteq> k \<Longrightarrow> c < wid i \<Longrightarrow>
        pte s' p (of_nat (4 + n * wid i + c)) = pte (hpmm h) p (of_nat (4 + n * wid i + c))"
    using kfree_ok [OF h o] x(2) by blast
  have h': "heap_rel (hpmm (kfree a h)) (slab_caches (kfree a h)) S (F(p := k # F p))" using s' by simp
  obtain j q n where y: "(j, q, n) \<in> live_objs ?cs S F" "b = objaddr q (wid j) n" "m = 8 * wid j"
    using b unfolding heap_block_rel [OF h] by blast
  then have oy: "j < length ?cs" "q \<in> set (S j)" "n < slab_n (wid j)" "n \<notin> set (F q)"
    by (auto simp: live_objs_def heap_objects_def)
  have same: "j = i" if "q = p" using h o(1,2) oy(1,2) that unfolding heap_rel_def by blast
  then have nk: "n \<noteq> k" if "q = p" using ne y(2) x(2) that by auto
  have "(j, q, n) \<in> live_objs ?cs S (F(p := k # F p))" using y(1) nk by (auto simp: live_objs_def)
  then show "heap_block (kfree a h) b m" using y s'(1) unfolding heap_block_rel [OF h'] by auto
  have u: "used_table (hpmm h) q" by (rule heap_relD(4) [OF h oy(1,2)])
  note w = heap_relD(2) [OF h oy(1)]
  have "pte s' q (of_nat (4 + n * wid j + c)) = pte (hpmm h) q (of_nat (4 + n * wid j + c))" if "c < wid j" for c
  proof (cases "q = p")
    case True
    then show ?thesis using s'(4) [OF _ nk [OF True]] same [OF True] oy(3) that by simp
  next
    case False
    then show ?thesis using s'(3) u block_cell_bound [OF oy(3) w that] by (simp add: page_upd_def)
  qed
  then show "block_kept (hpmm h) (hpmm (kfree a h)) b m"
    using s'(1) unfolding y(2,3) by (simp add: block_cells [OF oy(3) w])
qed

interpretation ka: address_allocator "kmalloc_total z" "\<lambda>a h. Inr (kfree a h)" heap_inv heap_live for z
proof
  fix h a h' assume inv: "heap_inv h" and al: "kmalloc_total z h = Inr (a, h')"
  have "unat z \<le> 1024"
  proof (rule ccontr)
    assume "\<not> unat z \<le> 1024"
    then show False using kmalloc_too_big [OF inv, of z] al by (simp add: kmalloc_total_def)
  qed
  from kmalloc_ok [OF inv this] al
  show "heap_inv h' \<and> a \<notin> heap_live h \<and> heap_live h' = insert a (heap_live h)"
    by (auto simp: kmalloc_total_def)
next
  fix h a assume "heap_inv h" "a \<in> heap_live h"
  from kfree_live [OF this]
  show "\<exists>h'. Inr (kfree a h) = (Inr h' :: heap kres) \<and> heap_inv h' \<and> heap_live h' = heap_live h - {a}" by simp
qed

section \<open>Setting up\<close>

lemma heap_rel_new_cache:
  assumes h: "heap_rel s cs S F" and len: "length cs < 6"
    and nw: "page_new s n s1" and z: "pte s1 n 0 = 0" and ok: "slab_ok s1 n (wid (length cs)) ks"
    and c: "c = \<lparr>sc_size = of_nat (8 * wid (length cs)), sc_slabs = n\<rparr>"
  shows "heap_rel s1 (cs @ [c]) (S(length cs := [n])) (F(n := ks))"
proof -
  let ?S = "S(length cs := [n])"
  have inv1: "pmm_inv s1" and nu: "\<not> used_table s n"
    and us: "\<And>t. used_table s1 t \<longleftrightarrow> t = n \<or> used_table s t"
    and keep: "\<And>t j. used_table s t \<Longrightarrow> unat j < 512 \<Longrightarrow> pte s1 t j = pte s t j"
    using nw by (auto simp: page_new_def)
  have n0: "n \<noteq> 0"
  proof -
    have "used_table s1 n" using us by blast
    then obtain l where l: "l \<in> pages_in PAGE_USED s1" "n = page_node s1 l" unfolding used_table_def by blast
    show ?thesis using page_node_props(4) [OF pmm_inv_wf [OF inv1] pages_in_locs [OF l(1)]] l(2) by simp
  qed
  have notin: "n \<notin> set (S j)" if "j < length cs" for j using heap_relD(4) [OF h that] nu by blast
  have body: "sc_size ((cs @ [c]) ! j) = of_nat (8 * wid j) \<and> ?S j \<noteq> [] \<and> distinct (?S j)
      \<and> bm.chain (kmem s1) (sc_slabs ((cs @ [c]) ! j)) (?S j) 0
      \<and> (\<forall>p \<in> set (?S j). used_table s1 p \<and> slab_ok s1 p (wid j) ((F(n := ks)) p))"
    if j: "j < length (cs @ [c])" for j
  proof (cases "j = length cs")
    case True
    then show ?thesis using c z n0 ok us by (simp add: pte_def)
  next
    case False
    then have jl: "j < length cs" using j by simp
    have "bm.chain (kmem s1) (sc_slabs (cs ! j)) (S j) 0"
      using slab_chain_cong [of "S j" s1 s] keep heap_relD(3,4) [OF h jl] by simp
    moreover have "slab_ok s1 p (wid j) (F p)" if p: "p \<in> set (S j)" for p
      by (rule slab_ok_cong [OF heap_relD(2) [OF h jl] _ heap_relD(5) [OF h jl p]])
        (use keep heap_relD(4) [OF h jl p] in auto)
    moreover have "p \<noteq> n" if "p \<in> set (S j)" for p using notin [OF jl] that by auto
    ultimately show ?thesis
      using False heap_relD(7-9) [OF h jl] heap_relD(4) [OF h jl] us by (simp add: nth_append jl)
  qed
  have "set (?S a) \<inter> set (?S b) = {}" if ab: "a < length (cs @ [c])" "b < length (cs @ [c])" "a \<noteq> b" for a b
  proof -
    consider "a < length cs" "b < length cs" | "a = length cs" "b < length cs" | "a < length cs" "b = length cs"
      using ab by fastforce
    then show ?thesis
    proof cases
      case 1
      then have "set (S a) \<inter> set (S b) = {}" using h ab(3) by (simp add: heap_rel_def)
      then show ?thesis using 1 by simp
    qed (use notin in auto)
  qed
  then show ?thesis unfolding heap_rel_def using inv1 len body by simp
qed

lemma init_slabcaches_ok:
  assumes "heap_rel (hpmm h) (slab_caches h) S F" and "live_objs (slab_caches h) S F = {}"
    and "length (slab_caches h) + n = 6"
    and "zs = map (\<lambda>i. of_nat (8 * wid i)) [length (slab_caches h) ..< 6]"
  shows "init_slabcaches zs h = Inl (Panic ''PMM: out of memory'') \<and> avail (hpmm h) < n
    \<or> (\<exists>h'. init_slabcaches zs h = Inr h' \<and> heap_inv h' \<and> heap_live h' = {}
        \<and> pmm_layout (hpmm h') = pmm_layout (hpmm h) \<and> avail (hpmm h) = n + avail (hpmm h'))"
  using assms
proof (induction n arbitrary: h zs S F)
  case 0
  have "init_slabcaches zs h = Inr h" using 0(3,4) by simp
  moreover have "heap_inv h" using 0(1,3) unfolding heap_inv_def by simp blast
  moreover have "heap_live h = {}" using heap_live_eq [OF 0(1)] 0(2) by simp
  ultimately show ?case by simp
next
  case (Suc n)
  let ?m = "length (slab_caches h)"
  have m: "?m < 6" using Suc.prems(3) by simp
  have zs: "zs = of_nat (8 * wid ?m) # map (\<lambda>i. of_nat (8 * wid i)) [Suc ?m ..< 6]"
    using Suc.prems(4) m by (simp add: upt_conv_Cons)
  have inv: "pmm_inv (hpmm h)" using Suc.prems(1) by (simp add: heap_rel_def)
  from new_slab_ok [OF inv wid_ok [OF m]]
  consider (oom) "new_slab (of_nat (8 * wid ?m)) (hpmm h) = Inl (Panic ''PMM: out of memory'')" "avail (hpmm h) = 0"
    | (ok) p s1 where "new_slab (of_nat (8 * wid ?m)) (hpmm h) = Inr (p, s1)" "page_new (hpmm h) p s1" "pte s1 p 0 = 0"
        "slab_ok s1 p (wid ?m) (rev [0 ..< slab_n (wid ?m)])" by auto
  then show ?case
  proof cases
    case oom
    then show ?thesis using zs by (simp add: init_slabcache_def del: of_nat_mult)
  next
    case (ok p s1)
    let ?c = "\<lparr>sc_size = of_nat (8 * wid ?m), sc_slabs = p\<rparr>"
    let ?h = "h\<lparr>hpmm := s1, slab_caches := slab_caches h @ [?c]\<rparr>"
    let ?S = "S(?m := [p])" and ?F = "F(p := rev [0 ..< slab_n (wid ?m)])"
    have step: "init_slabcaches zs h = init_slabcaches (map (\<lambda>i. of_nat (8 * wid i)) [Suc ?m ..< 6]) ?h"
      unfolding zs using ok(1) by (simp add: init_slabcache_def del: of_nat_mult)
    have h': "heap_rel (hpmm ?h) (slab_caches ?h) ?S ?F"
      using heap_rel_new_cache [OF Suc.prems(1) m ok(2-4) refl] by simp
    have notin: "p \<notin> set (S j)" if "j < ?m" for j
      using heap_relD(4) [OF Suc.prems(1) that] ok(2) by (auto simp: page_new_def)
    have live: "live_objs (slab_caches ?h) ?S ?F = {}"
    proof -
      have "(j, q, k) \<notin> live_objs (slab_caches ?h) ?S ?F" for j q k
      proof
        assume x: "(j, q, k) \<in> live_objs (slab_caches ?h) ?S ?F"
        show False
        proof (cases "j = ?m")
          case True
          then show ?thesis using x by (auto simp: live_objs_def heap_objects_def)
        next
          case False
          then have "(j, q, k) \<in> live_objs (slab_caches h) S F"
            using x notin [of j] by (auto simp: live_objs_def heap_objects_def split: if_splits)
          then show ?thesis using Suc.prems(2) by simp
        qed
      qed
      then show ?thesis by auto
    qed
    have "avail (hpmm h) = Suc (avail s1)" "pmm_layout s1 = pmm_layout (hpmm h)" using ok(2) by (simp_all add: page_new_def)
    moreover have "init_slabcaches (map (\<lambda>i. of_nat (8 * wid i)) [Suc ?m ..< 6]) ?h = Inl (Panic ''PMM: out of memory'')
        \<and> avail (hpmm ?h) < n
      \<or> (\<exists>h'. init_slabcaches (map (\<lambda>i. of_nat (8 * wid i)) [Suc ?m ..< 6]) ?h = Inr h' \<and> heap_inv h' \<and> heap_live h' = {}
          \<and> pmm_layout (hpmm h') = pmm_layout (hpmm ?h) \<and> avail (hpmm ?h) = n + avail (hpmm h'))"
      by (rule Suc.IH [OF h' live]) (use Suc.prems(3) in simp_all)
    ultimately show ?thesis using step by simp
  qed
qed

lemma setup_heap_ok:
  assumes "pmm_inv s"
  shows "setup_heap s = Inl (Panic ''PMM: out of memory'') \<and> avail s < 6
    \<or> (\<exists>h. setup_heap s = Inr h \<and> heap_inv h \<and> heap_live h = {}
        \<and> pmm_layout (hpmm h) = pmm_layout s \<and> avail s = 6 + avail (hpmm h))"
proof -
  let ?h = "\<lparr>hpmm = s, slab_caches = []\<rparr>"
  have "[32, 64, 128, 256, 512, 1024] = map (\<lambda>i. of_nat (8 * wid i) :: u64) [0 ..< 6]"
    by (simp add: wid_def upt_conv_Cons)
  moreover have "heap_rel (hpmm ?h) (slab_caches ?h) (\<lambda>_. []) (\<lambda>_. [])" using assms by (simp add: heap_rel_def)
  ultimately show ?thesis
    using init_slabcaches_ok [of ?h "\<lambda>_. []" "\<lambda>_. []" 6 "[32, 64, 128, 256, 512, 1024]"]
    by (simp add: setup_heap_def live_objs_def heap_objects_def)
qed

section \<open>Properties\<close>

lemma demo_heap:
  obtains h where "setup_heap demo_vm = Inr h" "heap_inv h" "heap_live h = {}"
    "pmm_layout (hpmm h) = pmm_layout demo_vm" "avail (hpmm h) = 9"
  using setup_heap_ok [OF pt_invD(1) [OF demo_pt_inv]] demo_vm_avail by auto

text \<open>
  C10: In every state of the heap, \<open>kmalloc\<close> of at most 1024 bytes returns (its walk over the
  slabs ends): an object of at least the requested size that was not in use and overlaps no
  object in use, all of which stay in use with the words they hold; or the panic of the frame allocator, when no
  frame is left. A larger request panics.
\<close>

theorem kmalloc_correct:
  assumes inv: "heap_inv h"
  shows "(unat z \<le> 1024 \<longrightarrow>
      kmalloc z h = Some (Inl (Panic ''PMM: out of memory'')) \<and> avail (hpmm h) = 0
      \<or> (\<exists>a h' n. kmalloc z h = Some (Inr (a, h')) \<and> heap_inv h' \<and> heap_block h' a n \<and> unat z \<le> n
          \<and> heap_live h' = insert a (heap_live h) \<and> a \<notin> heap_live h
          \<and> (\<forall>b m. heap_block h b m \<longrightarrow> heap_block h' b m
               \<and> {unat a ..< unat a + n} \<inter> {unat b ..< unat b + m} = {} \<and> block_kept (hpmm h) (hpmm h') b m)))
    \<and> (1024 < unat z \<longrightarrow> kmalloc z h = Some (Inl (Panic ''no mem'')))"
proof (intro conjI impI)
  assume "unat z \<le> 1024"
  from kmalloc_ok [OF inv this]
  show "kmalloc z h = Some (Inl (Panic ''PMM: out of memory'')) \<and> avail (hpmm h) = 0
      \<or> (\<exists>a h' n. kmalloc z h = Some (Inr (a, h')) \<and> heap_inv h' \<and> heap_block h' a n \<and> unat z \<le> n
          \<and> heap_live h' = insert a (heap_live h) \<and> a \<notin> heap_live h
          \<and> (\<forall>b m. heap_block h b m \<longrightarrow> heap_block h' b m
               \<and> {unat a ..< unat a + n} \<inter> {unat b ..< unat b + m} = {} \<and> block_kept (hpmm h) (hpmm h') b m))" by meson
qed (rule kmalloc_too_big [OF inv])

theorem kmalloc_correct_witness:
  "\<exists>h. heap_inv h \<and> kmalloc 2000 h = Some (Inl (Panic ''no mem''))
     \<and> (\<exists>r. kmalloc 100 h = Some r)"
proof -
  obtain h where h: "heap_inv h" using demo_heap by blast
  from kmalloc_correct [OF h, of 2000] kmalloc_correct [OF h, of 100] h show ?thesis by auto
qed

text \<open>
  Objects handed out by a run of \<open>kmalloc\<close> calls of one size are pairwise different and
  were not in use; freeing them in any order leaves exactly the objects in use before.
\<close>

theorem kmalloc_many_kfree_many:
  assumes "heap_inv h" and "ka.alloc_many z n h = Inr (as, h1)" and "distinct bs" and "set bs = set as"
  shows "length as = n \<and> distinct as \<and> set as \<inter> heap_live h = {}
    \<and> (\<exists>h2. ka.free_many bs h1 = Inr h2 \<and> heap_inv h2 \<and> heap_live h2 = heap_live h)"
  using ka.alloc_many_ok [OF assms(1,2)] ka.alloc_free_any_order [OF assms] by auto

theorem kmalloc_many_kfree_many_witness:
  "\<exists>h h1. heap_inv h \<and> ka.alloc_many 100 0 h = Inr ([], h1)
     \<and> (\<exists>h2. ka.free_many [] h1 = Inr h2 \<and> heap_inv h2 \<and> heap_live h2 = heap_live h)"
proof -
  obtain h where h: "heap_inv h" using demo_heap by blast
  have "ka.alloc_many 100 0 h = Inr ([], h)" by simp
  from kmalloc_many_kfree_many [OF h this, of "[]"] h show ?thesis by auto
qed

text \<open>
  C11: Freeing an object in use gives back exactly that object: the heap stays well-formed, and
  every other object in use stays so, with the words it holds.
\<close>

theorem kfree_correct:
  assumes "heap_inv h" and "a \<in> heap_live h"
  shows "heap_inv (kfree a h) \<and> heap_live (kfree a h) = heap_live h - {a}
    \<and> (\<forall>b m. heap_block h b m \<longrightarrow> b \<noteq> a \<longrightarrow> heap_block (kfree a h) b m \<and> block_kept (hpmm h) (hpmm (kfree a h)) b m)"
  using kfree_live [OF assms] kfree_others [OF assms] by blast

theorem kfree_correct_witness: "\<exists>h a. a \<in> heap_live h \<and> heap_inv (kfree a h) \<and> a \<notin> heap_live (kfree a h)"
proof -
  obtain h where h: "heap_inv h" "avail (hpmm h) = 9" using demo_heap by blast
  then obtain a h' where "heap_inv h'" "a \<in> heap_live h'" using kmalloc_ok [OF h(1), of 100] by auto
  from kfree_correct [OF this] \<open>a \<in> heap_live h'\<close> show ?thesis by (intro exI [of _ h'] exI [of _ a]) simp
qed

text \<open>
  With six frames to spare, setting the heap up succeeds, with no object in use.
\<close>

theorem setup_heap_correct:
  assumes "pmm_inv s" and "6 \<le> avail s"
  shows "\<exists>h. setup_heap s = Inr h \<and> heap_inv h \<and> heap_live h = {}"
  using setup_heap_ok [OF assms(1)] assms(2) by auto

theorem setup_heap_correct_witness:
  "pmm_inv demo_vm \<and> 6 \<le> avail demo_vm \<and> (\<exists>h. setup_heap demo_vm = Inr h \<and> heap_inv h)"
  using setup_heap_correct [OF pt_invD(1) [OF demo_pt_inv]] pt_invD(1) [OF demo_pt_inv] demo_vm_avail by auto

end
