(* ===== verification/Libc_Stdlib.thy ===== *)
theory Libc_Stdlib
  imports Heap
begin

text \<open>
  The kernel's \<open>libc/stdlib.c\<close>: \<open>malloc\<close> and its companions over the slab heap and the virtual
  address allocator, and the number parsers; and \<open>int_to_hex\<close> of \<open>memory/debug.c\<close>. Small
  blocks are shown to be given back by \<open>free\<close>, the sizes for which \<open>malloc\<close> panics are
  characterised, and the parsers are shown to read back what the digits mean.
\<close>

section \<open>\<open>malloc\<close> and \<open>free\<close>\<close>

record kmemory =
  kheap :: heap
  kernel_pagemap :: pagemap

text \<open>
  An address of the \<open>valloc\<close> window is reached through the kernel's page tables, any other
  kernel address directly.
\<close>

definition kresolve :: "kmemory \<Rightarrow> u64 \<Rightarrow> u64" where
  "kresolve k va =
     (if VALLOC_RANGE_START \<le> va \<and> va < VALLOC_RANGE_END
      then vmm_get_phys (top_level (kernel_pagemap k)) va (hpmm (kheap k)) + hhdmOffset (hpmm (kheap k))
           + (va AND 0xFFF)
      else va)"

definition set_kpmm :: "pmm \<Rightarrow> kmemory \<Rightarrow> kmemory" where
  "set_kpmm s k = k\<lparr>kheap := (kheap k)\<lparr>hpmm := s\<rparr>\<rparr>"

definition kload64 :: "kmemory \<Rightarrow> u64 \<Rightarrow> u64" where
  "kload64 k va = peek64 (hpmm (kheap k)) (kresolve k va)"

definition kstore64 :: "u64 \<Rightarrow> u64 \<Rightarrow> kmemory \<Rightarrow> kmemory" where
  "kstore64 va v k = set_kpmm (poke64 (kresolve k va) v (hpmm (kheap k))) k"

text \<open>\<open>memset\<close> on kernel addresses, byte by byte through the same resolution.\<close>

primrec kfill :: "u64 \<Rightarrow> nat \<Rightarrow> kmemory \<Rightarrow> kmemory" where
  "kfill va 0 k = k"
| "kfill va (Suc n) k =
     kfill (va + 1) n
       (set_kpmm ((hpmm (kheap k))\<lparr>kmem := (kmem (hpmm (kheap k)))(kresolve k va := 0)\<rparr>) k)"

text \<open>The loops over the pages of a large block; \<open>n\<close> is the number of pages left.\<close>

primrec malloc_pages :: "u64 \<Rightarrow> u64 \<Rightarrow> nat \<Rightarrow> kmemory \<Rightarrow> kmemory kres" where
  "malloc_pages block off 0 k = Inr k"
| "malloc_pages block off (Suc n) k =
     kbind (allocate_page (hpmm (kheap k))) (\<lambda>(pa, s1).
       kbind (vmm_map_page (top_level (kernel_pagemap k)) (block + off) pa (PTE_WRITABLE OR PTE_NX) PAGE_SIZE s1)
         (\<lambda>s2. malloc_pages block (off + PAGE_SIZE) n (set_kpmm s2 k)))"

definition malloc :: "u64 \<Rightarrow> kmemory \<Rightarrow> (u64 \<times> kmemory) kres option" where
  "malloc sz k =
     (if sz \<le> 1024 then
        (case kmalloc (sz + 16) (kheap k) of
           None \<Rightarrow> None
         | Some (Inl e) \<Rightarrow> Some (Inl e)
         | Some (Inr (block, h1)) \<Rightarrow> Some (Inr (block + 16, kstore64 block sz (k\<lparr>kheap := h1\<rparr>))))
      else
        (case valloc (kernel_pagemap k) (sz + 16) of
           (block, pm1) \<Rightarrow>
             (let aligned_size = ALIGN_UP (sz + 16) PAGE_SIZE
              in Some (kbind (malloc_pages block 0 (unat (aligned_size div PAGE_SIZE)) (k\<lparr>kernel_pagemap := pm1\<rparr>))
                   (\<lambda>k1. Inr (block + 16, kstore64 block sz k1))))))"

primrec free_pages :: "u64 \<Rightarrow> u64 \<Rightarrow> nat \<Rightarrow> kmemory \<Rightarrow> kmemory kres" where
  "free_pages block off 0 k = Inr k"
| "free_pages block off (Suc n) k =
     (let va = block + off;
          phys = vmm_get_phys (top_level (kernel_pagemap k)) va (hpmm (kheap k));
          s1 = vmm_unmap_page (top_level (kernel_pagemap k)) va (hpmm (kheap k))
      in kbind (if phys \<noteq> 0 then free_page phys s1 else Inr s1)
           (\<lambda>s2. free_pages block (off + PAGE_SIZE) n (set_kpmm s2 k)))"

definition free :: "u64 \<Rightarrow> kmemory \<Rightarrow> kmemory kres" where
  "free ptr k =
     (let block = ptr - 16;
          sz = kload64 k block
      in if sz \<le> 1024 then Inr (k\<lparr>kheap := kfree (ptr - 16) (kheap k)\<rparr>)
         else
           (let total_size = ALIGN_UP (sz + 16) PAGE_SIZE
            in kbind (free_pages block 0 (unat (total_size div PAGE_SIZE)) k)
                 (\<lambda>k1. Inr (k1\<lparr>kernel_pagemap := snd (vfree (kernel_pagemap k1) block (sz + 16))\<rparr>))))"

definition zalloc :: "u64 \<Rightarrow> kmemory \<Rightarrow> (u64 \<times> kmemory) kres option" where
  "zalloc sz k =
     (case malloc sz k of
        None \<Rightarrow> None
      | Some r \<Rightarrow> Some (kbind r (\<lambda>(ptr, k1). Inr (ptr, kfill ptr (unat sz) k1))))"

definition calloc :: "u64 \<Rightarrow> u64 \<Rightarrow> kmemory \<Rightarrow> (u64 \<times> kmemory) kres option" where
  "calloc nmemb sz k =
     (if nmemb = 0 \<or> sz = 0 then malloc 0 k
      else if - 1 div sz < nmemb then Some (Inr (0, k))
      else
        (case malloc (nmemb * sz) k of
           None \<Rightarrow> None
         | Some r \<Rightarrow> Some (kbind r (\<lambda>(ptr, k1). Inr (ptr, kfill ptr (unat (nmemb * sz)) k1)))))"

section \<open>Parsing and printing numbers\<close>

text \<open>
  Strings are the bytes before the terminating zero; reading at or past the end gives it.
\<close>

definition char_at :: "u8 list \<Rightarrow> nat \<Rightarrow> u8" where
  "char_at str i = (if i < length str then str ! i else 0)"

definition digit_of :: "u8 \<Rightarrow> int option" where
  "digit_of c =
     (if 48 \<le> c \<and> c \<le> 57 then Some (uint c - 48)
      else if 97 \<le> c \<and> c \<le> 122 then Some (uint c - 97 + 10)
      else if 65 \<le> c \<and> c \<le> 90 then Some (uint c - 65 + 10)
      else None)"

text \<open>The prefix that selects the base when it is given as zero.\<close>

definition detect_base :: "u8 list \<Rightarrow> int \<Rightarrow> int \<times> u8 list" where
  "detect_base str base =
     (if base = 0 then
        (if char_at str 0 = 48 \<and> (char_at str 1 = 120 \<or> char_at str 1 = 88) then (16, drop 2 str)
         else if char_at str 0 = 48 \<and> char_at str 1 = 111 then (8, drop 2 str)
         else if char_at str 0 = 48 \<and> char_at str 1 = 98 then (2, drop 2 str)
         else (10, str))
      else (base, str))"

fun strto_loop :: "u8 list \<Rightarrow> int \<Rightarrow> u64 \<Rightarrow> u64" where
  "strto_loop [] base v = v"
| "strto_loop (c # cs) base v =
     (if c = 0 then v
      else case digit_of c of
             None \<Rightarrow> v
           | Some digit \<Rightarrow>
               if base \<le> digit then v
               else strto_loop cs base (v * word_of_int base + word_of_int digit))"

definition strtoull :: "u8 list \<Rightarrow> int \<Rightarrow> u64" where
  "strtoull str base = (case detect_base str base of (b, str') \<Rightarrow> strto_loop str' b 0)"

text \<open>The result is the two's complement reading of the word.\<close>

definition strtoll :: "u8 list \<Rightarrow> int \<Rightarrow> u64" where
  "strtoll str base =
     (let neg = (char_at str 0 = 45);
          str1 = (if char_at str 0 = 45 \<or> char_at str 0 = 43 then drop 1 str else str)
      in case detect_base str1 base of
           (b, str2) \<Rightarrow> let v = strto_loop str2 b 0 in if neg then - v else v)"

definition hex_char :: "u64 \<Rightarrow> u8" where
  "hex_char d = (if d < 10 then 48 + ucast d else 55 + ucast d)"

fun int_to_hex_loop :: "nat \<Rightarrow> u64 \<Rightarrow> u8 list \<Rightarrow> u8 list" where
  "int_to_hex_loop i num out =
     (if num \<noteq> 0 \<and> 0 < i
      then int_to_hex_loop (i - 1) (drop_bit 4 num) (hex_char (num AND 0xF) # out)
      else out)"

declare int_to_hex_loop.simps [simp del]

definition int_to_hex :: "u64 \<Rightarrow> u8 list" where
  "int_to_hex num = (if num = 0 then [48] else int_to_hex_loop 16 num [])"

section \<open>Reading back what was printed\<close>

lemma digit_of_hex_char:
  assumes "unat d < 16"
  shows "digit_of (hex_char d) = Some (int (unat d))" and "hex_char d \<noteq> 0"
proof -
  define n where "n = unat d"
  have d: "d = of_nat n" by (simp add: n_def)
  have "n < 16" using assms by (simp add: n_def)
  then have "n \<in> {0, 1, 2, 3, 4, 5, 6, 7, 8, 9, 10, 11, 12, 13, 14, 15}"
    by (simp only: insert_iff empty_iff) presburger
  then show "digit_of (hex_char d) = Some (int (unat d))" and "hex_char d \<noteq> 0"
    unfolding d by (elim insertE emptyE; simp add: hex_char_def digit_of_def)+
qed

lemma strto_loop_hex:
  assumes "unat n < 16 ^ i" and "i \<le> 16"
  shows "strto_loop (int_to_hex_loop i n out) 16 0 = strto_loop out 16 n"
  using assms
proof (induction i arbitrary: n out)
  case 0
  then have "n = 0" by (simp add: unat_eq_0)
  then show ?case by (simp add: int_to_hex_loop.simps)
next
  case (Suc i)
  show ?case
  proof (cases "n = 0")
    case True
    then show ?thesis by (simp add: int_to_hex_loop.simps)
  next
    case False
    let ?d = "n AND 0xF"
    have ud: "unat ?d = unat n mod 16"
      using unat_and_mask [of n 4] by (simp add: mask_eq_exp_minus_1)
    have us: "unat (drop_bit 4 n) = unat n div 16" by (simp add: drop_bit_eq_div unat_div)
    have bound: "unat (drop_bit 4 n) < 16 ^ i" unfolding us using Suc.prems(1) by (simp add: less_mult_imp_div_less mult.commute)
    have join: "drop_bit 4 n * 16 + ?d = n"
    proof (rule word_eq_unatI)
      have "unat (drop_bit 4 n) * 16 + unat ?d = unat n" unfolding ud us by simp
      then have "unat (of_nat (unat (drop_bit 4 n) * 16 + unat ?d) :: u64) = unat n" by simp
      then show "unat (drop_bit 4 n * 16 + ?d) = unat n" by (simp only: of_nat_add of_nat_mult of_nat_unat) simp
    qed
    have dig: "digit_of (hex_char ?d) = Some (int (unat ?d))" "hex_char ?d \<noteq> 0" "int (unat ?d) < 16"
      using digit_of_hex_char [of ?d] ud by simp_all
    have "strto_loop (int_to_hex_loop (Suc i) n out) 16 0
        = strto_loop (int_to_hex_loop i (drop_bit 4 n) (hex_char ?d # out)) 16 0"
      using False by (simp add: int_to_hex_loop.simps [of "Suc i"])
    also have "\<dots> = strto_loop (hex_char ?d # out) 16 (drop_bit 4 n)"
      using Suc.IH [OF bound] Suc.prems(2) by simp
    also have "\<dots> = strto_loop out 16 (drop_bit 4 n * 16 + ?d)"
      using dig by (simp add: of_nat_unat)
    finally show ?thesis unfolding join .
  qed
qed

text \<open>
  Printing a 64-bit number with \<open>int_to_hex\<close> and parsing it with \<open>strtoull\<close> in base 16
  gives the number back.
\<close>

theorem strtoull_int_to_hex: "strtoull (int_to_hex n) 16 = n"
proof (cases "n = 0")
  case True
  then show ?thesis by (simp add: strtoull_def detect_base_def int_to_hex_def digit_of_def)
next
  case False
  have "unat n < 16 ^ 16" using unat_lt_64 [of n] by simp
  then show ?thesis
    using strto_loop_hex [of n 16 "[]"] False
    by (simp add: strtoull_def detect_base_def int_to_hex_def)
qed

section \<open>Blocks of the heap\<close>

text \<open>The owner of an object may write it.\<close>

lemma poke_object:
  assumes h: "heap_rel s cs S F" and o: "i < length cs" "p \<in> set (S i)" "k < slab_n (wid i)" "k \<notin> set (F p)"
  shows "heap_rel (poke64 (objaddr p (wid i) k) v s) cs S F" and "page_upd s p (poke64 (objaddr p (wid i) k) v s)"
proof -
  note w = heap_relD(2) [OF h o(1)] and ok = heap_relD(5) [OF h o(1,2)] and al = heap_relD(6) [OF h o(1,2)]
  note u = heap_relD(4) [OF h o(1,2)] and pinv = heap_relD(1) [OF h o(1)] and b = unat_ix [OF o(3) w]
  let ?s' = "set_pte p (ix (wid i) k) v s"
  have eq: "poke64 (objaddr p (wid i) k) v s = ?s'" by (simp add: objaddr_def poke_cell)
  have up: "page_upd s p ?s'" by (rule page_upd_set_pte [OF pinv u b(2)])
  then show "page_upd s p (poke64 (objaddr p (wid i) k) v s)" unfolding eq .
  have pt: "pte ?s' p j = (if j = ix (wid i) k then v else pte s p j)" if "unat j < 512" for j
    using pte_set_pte [OF al al b(2) that] by auto
  have "read64 (kmem ?s') y = read64 (kmem s) y" if "y \<in> set (map (objaddr p (wid i)) (F p))" for y
  proof -
    obtain n where n: "y = objaddr p (wid i) n" "n \<in> set (F p)" using \<open>y \<in> _\<close> by auto
    then have n': "n < slab_n (wid i)" "n \<noteq> k" using ok o(4) by (auto simp: slab_ok_def)
    then have "ix (wid i) n \<noteq> ix (wid i) k" using ix_inj [OF w n'(1) o(3)] by blast
    then show ?thesis using pt [OF unat_ix(2) [OF n'(1) w]] n(1) by (simp add: pte_def objaddr_def)
  qed
  then have "bm.chain (kmem ?s') (pte s p 3) (map (objaddr p (wid i)) (F p)) 0
      = bm.chain (kmem s) (pte s p 3) (map (objaddr p (wid i)) (F p)) 0" by (rule bm.chain_cong)
  moreover have hd: "pte ?s' p j = pte s p j" if "unat j < 4" for j
    using pt [of j] ix_not_header [OF w o(3) that] that by auto
  ultimately have "slab_ok ?s' p (wid i) (F p)" using ok hd [of 1] hd [of 2] hd [of 3] by (simp add: slab_ok_def)
  from heap_rel_upd [OF h o(1,2) up _ this] show "heap_rel (poke64 (objaddr p (wid i) k) v s) cs S F"
    unfolding eq using hd [of 0] by simp
qed

lemma heap_poke_live:
  assumes inv: "heap_inv h" and a: "a \<in> heap_live h" and h': "h' = h\<lparr>hpmm := poke64 a v (hpmm h)\<rparr>"
  shows "heap_inv h'" and "heap_live h' = heap_live h" and "peek64 (hpmm h') a = v"
    and "\<exists>l \<in> page_locs (hpmm h). unat (a - page_node (hpmm h) l) < 4096 \<and> page_node (hpmm h) l \<le> a"
proof -
  let ?cs = "slab_caches h" and ?s = "hpmm h"
  obtain S F where h: "heap_rel ?s ?cs S F" and len: "length ?cs = 6" using inv by (auto simp: heap_inv_def)
  obtain i p k where x: "(i, p, k) \<in> live_objs ?cs S F" "a = objaddr p (wid i) k"
    using a unfolding heap_live_eq [OF h] by (auto simp: obj_at_def)
  then have o: "i < length ?cs" "p \<in> set (S i)" "k < slab_n (wid i)" "k \<notin> set (F p)"
    by (auto simp: live_objs_def heap_objects_def)
  note w = heap_relD(2) [OF h o(1)] and al = heap_relD(6) [OF h o(1,2)]
  note u = heap_relD(4) [OF h o(1,2)] and b = unat_ix [OF o(3) w]
  have rel': "heap_rel (hpmm h') (slab_caches h') S F" using poke_object(1) [OF h o] x(2) h' by simp
  then show "heap_inv h'" using len h' unfolding heap_inv_def by auto
  show "heap_live h' = heap_live h" unfolding heap_live_eq [OF rel'] heap_live_eq [OF h] by (simp add: h')
  show "peek64 (hpmm h') a = v" by (simp add: h' peek64_def poke64_def bm.rd_wr_same)
  obtain l where l: "l \<in> page_locs ?s" "p = page_node ?s l" using u pages_in_locs unfolding used_table_def by blast
  have "unat (a - p) < 4096"
    using b by (simp add: x(2) objaddr_def unat_word_ariths)
  moreover have "p \<le> a" using objaddr_props(1) [OF al w o(3)] by (simp add: x(2) word_le_nat_alt)
  ultimately show "\<exists>l \<in> page_locs (hpmm h). unat (a - page_node (hpmm h) l) < 4096 \<and> page_node (hpmm h) l \<le> a"
    using l by blast
qed

text \<open>The frames of the direct map lie below the \<open>valloc\<close> window.\<close>

definition hhdm_below :: "pmm \<Rightarrow> bool" where
  "hhdm_below s \<longleftrightarrow> (\<forall>l \<in> page_locs s. unat (page_node s l) + 4096 \<le> unat VALLOC_RANGE_START)"

lemma kresolve_live:
  assumes inv: "heap_inv (kheap k)" and a: "a \<in> heap_live (kheap k)" and b: "hhdm_below (hpmm (kheap k))"
  shows "kresolve k a = a"
proof -
  obtain l where l: "l \<in> page_locs (hpmm (kheap k))" "unat (a - page_node (hpmm (kheap k)) l) < 4096"
      "page_node (hpmm (kheap k)) l \<le> a"
    using heap_poke_live(4) [OF inv a refl] by blast
  then have "unat a < unat VALLOC_RANGE_START"
    using b by (fastforce simp: hhdm_below_def unat_sub word_le_nat_alt)
  then show ?thesis by (simp add: kresolve_def word_le_nat_alt)
qed

lemma hhdm_below_layout: "pmm_layout s' = pmm_layout s \<Longrightarrow> hhdm_below s' = hhdm_below s"
  using layout_cong(1,3) [of s' s] unfolding hhdm_below_def by simp

lemma live_block:
  assumes "heap_inv h" "b \<in> heap_live h"
  shows "cell_aligned b" and "\<exists>m > 0. heap_block h b m"
proof -
  let ?cs = "slab_caches h"
  obtain S F where h: "heap_rel (hpmm h) ?cs S F" using assms(1) by (auto simp: heap_inv_def)
  obtain i p k where x: "(i, p, k) \<in> live_objs ?cs S F" "b = objaddr p (wid i) k"
    using assms(2) unfolding heap_live_eq [OF h] by (auto simp: obj_at_def)
  then have o: "i < length ?cs" "p \<in> set (S i)" "k < slab_n (wid i)" by (auto simp: live_objs_def heap_objects_def)
  show "cell_aligned b" using objaddr_props(2) [OF heap_relD(6) [OF h o(1,2)] heap_relD(2) [OF h o(1)] o(3)] x(2) by simp
  show "\<exists>m > 0. heap_block h b m" using x heap_relD(2) [OF h o(1)] 
    unfolding heap_block_rel [OF h] by (intro exI [of _ "8 * wid i"]) (auto simp: width_ok_def)
qed

lemma malloc_small_ok:
  assumes inv: "heap_inv (kheap k)" and b: "hhdm_below (hpmm (kheap k))" and z: "unat sz \<le> 1008"
    and m: "malloc sz k = Some (Inr (ptr, k1))"
  shows "heap_inv (kheap k1) \<and> ptr - 16 \<notin> heap_live (kheap k)
    \<and> heap_live (kheap k1) = insert (ptr - 16) (heap_live (kheap k)) \<and> kload64 k1 (ptr - 16) = sz
    \<and> (\<forall>b \<in> heap_live (kheap k). kload64 k1 b = kload64 k b) \<and> avail (hpmm (kheap k)) \<le> avail (hpmm (kheap k1)) + 1"
proof -
  have u: "unat (sz + 16) = unat sz + 16" using z by (simp add: unat_word_ariths)
  have le: "sz \<le> 1024" using z by (simp add: word_le_nat_alt)
  from kmalloc_ok [OF inv, of "sz + 16"] u z m le
  obtain a h1 where a: "kmalloc (sz + 16) (kheap k) = Some (Inr (a, h1))" "heap_inv h1" "a \<notin> heap_live (kheap k)"
      "heap_live h1 = insert a (heap_live (kheap k))" "pmm_layout (hpmm h1) = pmm_layout (hpmm (kheap k))"
      "avail (hpmm (kheap k)) \<le> avail (hpmm h1) + 1"
      and kept: "\<And>b m. heap_block (kheap k) b m \<Longrightarrow> block_kept (hpmm (kheap k)) (hpmm h1) b m"
    by (auto simp: malloc_def)
  let ?k = "k\<lparr>kheap := h1\<rparr>"
  have b1: "hhdm_below (hpmm (kheap ?k))" using hhdm_below_layout [OF a(5)] b by simp
  have live: "a \<in> heap_live h1" using a(4) by simp
  have res: "kresolve ?k a = a" using kresolve_live [of ?k a] a(2) live b1 by simp
  have k1: "ptr = a + 16" "k1 = kstore64 a sz ?k" using m a(1) le by (simp_all add: malloc_def)
  define h2 where "h2 = h1\<lparr>hpmm := poke64 a sz (hpmm h1)\<rparr>"
  have kh: "kheap k1 = h2" using k1(2) res by (simp add: kstore64_def set_kpmm_def h2_def)
  note p = heap_poke_live [OF a(2) live h2_def]
  have b2: "hhdm_below (hpmm h2)"
    using b1 hhdm_below_layout [of "hpmm h2" "hpmm h1"] by (simp add: h2_def poke64_def pmm_layout_def)
  then have "kresolve k1 a = a" using kresolve_live [of k1 a] kh p(1,2) live by simp
  then have "kload64 k1 a = sz" using p(3) kh by (simp add: kload64_def)
  moreover have "kload64 k1 c = kload64 k c" if c: "c \<in> heap_live (kheap k)" for c
  proof -
    have r: "kresolve k1 c = c" "kresolve k c = c"
      using kresolve_live [of k1 c] kresolve_live [of k c] kh p(1,2) a(4) b2 c inv b by auto
    obtain m where m: "0 < m" "heap_block (kheap k) c m" using live_block(2) [OF inv c] by blast
    have "peek64 (hpmm h1) c = peek64 (hpmm (kheap k)) c" 
      using kept [OF m(2)] m(1) unfolding block_kept_def by (auto dest: spec [of _ 0])
    moreover have "peek64 (hpmm h2) c = peek64 (hpmm h1) c"
    proof -
      have "c \<noteq> a" "cell_aligned c" "cell_aligned a" using a(2-4) c live live_block(1) by auto
      then show ?thesis by (simp add: h2_def peek64_def poke64_def read64_write64_other)
    qed
    ultimately show ?thesis using r kh by (simp add: kload64_def)
  qed
  moreover have "avail (hpmm h2) = avail (hpmm h1)" by (simp add: h2_def poke64_def avail_def pages_in_def page_locs_def page_st_def)
  ultimately show ?thesis using p(1,2) kh a(3,4,6) k1(1) by simp
qed

text \<open>
  A block of at most 1008 bytes from \<open>malloc\<close> carries its size in front; the object behind
  it was not in use; and \<open>free\<close> of the block gives exactly that object back.
\<close>

theorem malloc_free_small:
  assumes inv: "heap_inv (kheap k)" and b: "hhdm_below (hpmm (kheap k))" and z: "unat sz \<le> 1008"
    and m: "malloc sz k = Some (Inr (ptr, k1))"
  shows "heap_inv (kheap k1) \<and> kload64 k1 (ptr - 16) = sz \<and> ptr - 16 \<notin> heap_live (kheap k)
    \<and> heap_live (kheap k1) = insert (ptr - 16) (heap_live (kheap k))
    \<and> (\<exists>k2. free ptr k1 = Inr k2 \<and> heap_inv (kheap k2) \<and> heap_live (kheap k2) = heap_live (kheap k))"
proof -
  note o = malloc_small_ok [OF assms]
  have "free ptr k1 = Inr (k1\<lparr>kheap := kfree (ptr - 16) (kheap k1)\<rparr>)"
    using o z by (simp add: free_def Let_def word_le_nat_alt)
  moreover have "heap_inv (kfree (ptr - 16) (kheap k1))
      \<and> heap_live (kfree (ptr - 16) (kheap k1)) = heap_live (kheap k)"
    using kfree_live [of "kheap k1" "ptr - 16"] o by auto
  ultimately show ?thesis using o by auto
qed

lemma demo_below: "hhdm_below demo_vm"
proof -
  have wf: "pmm_wf demo_vm" using pt_invD(1) [OF demo_pt_inv] pmm_inv_wf by blast
  have "unat (page_node demo_vm (0, n)) + 4096 \<le> unat VALLOC_RANGE_START" if "n < 16" for n
    using unat_page_addr [OF wf, of 0 n] that unfolding demo_vm_pages
    by (simp add: demo_vm_def VALLOC_RANGE_START_def)
  then show ?thesis unfolding hhdm_below_def demo_vm_pages by auto
qed

lemma demo_kmemory:
  obtains k :: kmemory where "heap_inv (kheap k)" "hhdm_below (hpmm (kheap k))" "avail (hpmm (kheap k)) = 9"
    "pmm_layout (hpmm (kheap k)) = pmm_layout demo_vm"
proof -
  obtain h where h: "heap_inv h" "pmm_layout (hpmm h) = pmm_layout demo_vm" "avail (hpmm h) = 9"
    using demo_heap by blast
  have "hhdm_below (hpmm h)" using hhdm_below_layout [OF h(2)] demo_below by simp
  then show thesis using that [of "\<lparr>kheap = h, kernel_pagemap = demo_pagemap\<rparr>"] h by simp
qed

theorem malloc_free_small_witness:
  "\<exists>k ptr k1 k2. malloc 100 k = Some (Inr (ptr, k1)) \<and> kload64 k1 (ptr - 16) = 100
     \<and> free ptr k1 = Inr k2 \<and> heap_live (kheap k2) = heap_live (kheap k)"
proof -
  obtain k :: kmemory where k: "heap_inv (kheap k)" "hhdm_below (hpmm (kheap k))" "avail (hpmm (kheap k)) = 9"
    using demo_kmemory by blast
  obtain ptr k1 where m: "malloc 100 k = Some (Inr (ptr, k1))"
    using kmalloc_ok [OF k(1), of 116] k(3) by (auto simp: malloc_def)
  from malloc_free_small [OF k(1,2) _ m] m show ?thesis by auto
qed

text \<open>
  The sizes from 1009 to 1024 are sent to the slab heap, whose largest object is 1024 bytes,
  with the 16 bytes of the block header added: \<open>malloc\<close> panics for every one of them.
\<close>

theorem malloc_gap:
  assumes "heap_inv (kheap k)" and "1008 < unat sz" and "unat sz \<le> 1024"
  shows "malloc sz k = Some (Inl (Panic ''no mem''))"
proof -
  have "1024 < unat (sz + 16)" using assms by (simp add: unat_word_ariths)
  then show ?thesis
    using kmalloc_too_big [OF assms(1)] assms(3) by (simp add: malloc_def word_le_nat_alt)
qed

theorem malloc_gap_witness: "\<exists>k :: kmemory. heap_inv (kheap k) \<and> malloc 1010 k = Some (Inl (Panic ''no mem''))"
proof -
  obtain k :: kmemory where k: "heap_inv (kheap k)" using demo_kmemory by blast
  from malloc_gap [OF k, of 1010] k show ?thesis by auto
qed

text \<open>
  \<open>calloc\<close> of a product that does not fit 64 bits returns a null pointer; otherwise it is
  \<open>zalloc\<close> of the true product.
\<close>

theorem calloc_overflow:
  assumes nz: "nmemb \<noteq> 0" "sz \<noteq> 0"
  shows "if 2 ^ 64 \<le> unat nmemb * unat sz then calloc nmemb sz k = Some (Inr (0, k))
    else calloc nmemb sz k = zalloc (nmemb * sz) k \<and> unat (nmemb * sz) = unat nmemb * unat sz"
proof -
  have u: "unat (- 1 :: u64) = 2 ^ 64 - 1" by (simp add: unsigned_minus_1_eq_mask mask_eq_exp_minus_1)
  have pos: "0 < unat sz" using nz(2) by (simp add: unat_gt_0)
  have "- 1 div sz < nmemb \<longleftrightarrow> (2 ^ 64 - 1) div unat sz < unat nmemb"
    by (simp only: word_less_nat_alt unat_div u)
  also have "\<dots> \<longleftrightarrow> 2 ^ 64 \<le> unat nmemb * unat sz"
    using pos by (auto simp: div_less_iff_less_mult)
  finally have g: "- 1 div sz < nmemb \<longleftrightarrow> 2 ^ 64 \<le> unat nmemb * unat sz" .
  show ?thesis
  proof (cases "2 ^ 64 \<le> unat nmemb * unat sz")
    case True
    then have "- 1 div sz < nmemb" using g by blast
    then show ?thesis using True nz by (simp add: calloc_def)
  next
    case False
    then have "\<not> - 1 div sz < nmemb" using g by blast
    then show ?thesis
      using False nz by (simp add: calloc_def zalloc_def unat_word_ariths split: option.splits)
  qed
qed

definition demo_kmem :: kmemory where
  "demo_kmem = \<lparr>kheap = \<lparr>hpmm = demo_vm, slab_caches = []\<rparr>, kernel_pagemap = demo_pagemap\<rparr>"

theorem calloc_overflow_witness:
  "calloc 0x100000000 0x100000000 demo_kmem = Some (Inr (0, demo_kmem))
   \<and> calloc 3 8 demo_kmem = zalloc 24 demo_kmem"
  using calloc_overflow [of "0x100000000" "0x100000000" demo_kmem] calloc_overflow [of 3 8 demo_kmem] by simp

end
