(* ===== verification/Hardware.thy ===== *)
theory Hardware
  imports Libc_Stdlib
begin

text \<open>
  The primitives through which the drivers reach the machine: port input and output
  (\<open>drivers/x86_64/ports.h\<close>), memory-mapped registers (\<open>utils/mmio.h\<close>), model-specific registers
  (\<open>drivers/x86_64/msr.c\<close>), the time-stamp counter, \<open>cpuid\<close> (\<open>drivers/x86_64/cpuid.c\<close>) and the bit
  fields of \<open>utils/bits.h\<close>. The machine is the sequence of accesses made so far and a device
  function that answers each read from that history, so that every behaviour of the hardware
  is covered; a driver is specified by the accesses it makes.
\<close>

section \<open>The machine\<close>

datatype hw_event =
    OutB u16 u8 | InB u16 u8 | InL u16 u32
  | MmioW nat u64 u64 | MmioR nat u64 u64
  | WrMsr u32 u64 | RdMsr u32 u64 | RdTsc u64
  | Cli | Sti

datatype hw_query = QInB u16 | QInL u16 | QMmio nat u64 | QMsr u32 | QTsc

record cpuid_regs =
  eax :: u32
  ebx :: u32
  ecx :: u32
  edx :: u32

record hw =
  trace :: "hw_event list"
  dev :: "hw_event list \<Rightarrow> hw_query \<Rightarrow> u64"
  cpuid_of :: "u32 \<Rightarrow> u32 \<Rightarrow> cpuid_regs"

definition emit :: "hw_event \<Rightarrow> 'a hw_scheme \<Rightarrow> 'a hw_scheme" where
  "emit e h = h\<lparr>trace := trace h @ [e]\<rparr>"

definition answer :: "hw_query \<Rightarrow> 'a hw_scheme \<Rightarrow> u64" where
  "answer q h = dev h (trace h) q"

named_theorems hw_simps \<open>accesses as extensions of the trace\<close>

lemma emit_sel [hw_simps]: "trace (emit e h) = trace h @ [e]" "dev (emit e h) = dev h" "cpuid_of (emit e h) = cpuid_of h"
  by (simp_all add: emit_def)

section \<open>Ports\<close>

definition outb :: "u16 \<Rightarrow> u8 \<Rightarrow> 'a hw_scheme \<Rightarrow> 'a hw_scheme" where
  "outb port val h = emit (OutB port val) h"

definition inb :: "u16 \<Rightarrow> 'a hw_scheme \<Rightarrow> u8 \<times> 'a hw_scheme" where
  "inb port h = (let v = ucast (answer (QInB port) h) in (v, emit (InB port v) h))"

definition io_wait :: "'a hw_scheme \<Rightarrow> 'a hw_scheme" where
  "io_wait h = outb 0x80 0 h"

definition outbd :: "u16 \<Rightarrow> u8 \<Rightarrow> 'a hw_scheme \<Rightarrow> 'a hw_scheme" where
  "outbd port val h = io_wait (outb port val (io_wait h))"

definition inbd :: "u16 \<Rightarrow> 'a hw_scheme \<Rightarrow> u8 \<times> 'a hw_scheme" where
  "inbd port h = (case inb port (io_wait h) of (ret, h1) \<Rightarrow> (ret, io_wait h1))"

definition inl :: "u16 \<Rightarrow> 'a hw_scheme \<Rightarrow> u32 \<times> 'a hw_scheme" where
  "inl port h = (let v = ucast (answer (QInL port) h) in (v, emit (InL port v) h))"

section \<open>Memory-mapped registers\<close>

definition mmio_write_64 :: "u64 \<Rightarrow> u64 \<Rightarrow> 'a hw_scheme \<Rightarrow> 'a hw_scheme" where
  "mmio_write_64 addr value h = emit (MmioW 64 addr value) h"

definition mmio_read_64 :: "u64 \<Rightarrow> 'a hw_scheme \<Rightarrow> u64 \<times> 'a hw_scheme" where
  "mmio_read_64 addr h = (let v = answer (QMmio 64 addr) h in (v, emit (MmioR 64 addr v) h))"

definition mmio_write_32 :: "u64 \<Rightarrow> u32 \<Rightarrow> 'a hw_scheme \<Rightarrow> 'a hw_scheme" where
  "mmio_write_32 addr value h = emit (MmioW 32 addr (ucast value)) h"

definition mmio_read_32 :: "u64 \<Rightarrow> 'a hw_scheme \<Rightarrow> u32 \<times> 'a hw_scheme" where
  "mmio_read_32 addr h =
     (let v = ucast (answer (QMmio 32 addr) h) :: u32 in (v, emit (MmioR 32 addr (ucast v)) h))"

definition mmio_write_8 :: "u64 \<Rightarrow> u8 \<Rightarrow> 'a hw_scheme \<Rightarrow> 'a hw_scheme" where
  "mmio_write_8 addr value h = emit (MmioW 8 addr (ucast value)) h"

definition mmio_read_8 :: "u64 \<Rightarrow> 'a hw_scheme \<Rightarrow> u8 \<times> 'a hw_scheme" where
  "mmio_read_8 addr h =
     (let v = ucast (answer (QMmio 8 addr) h) :: u8 in (v, emit (MmioR 8 addr (ucast v)) h))"

definition mmio_write_offset_64 :: "u64 \<Rightarrow> u64 \<Rightarrow> u64 \<Rightarrow> 'a hw_scheme \<Rightarrow> 'a hw_scheme" where
  "mmio_write_offset_64 base_addr offset value h = mmio_write_64 (base_addr + offset) value h"

definition mmio_read_offset_64 :: "u64 \<Rightarrow> u64 \<Rightarrow> 'a hw_scheme \<Rightarrow> u64 \<times> 'a hw_scheme" where
  "mmio_read_offset_64 base_addr offset h = mmio_read_64 (base_addr + offset) h"

definition mmio_write_offset_32 :: "u64 \<Rightarrow> u64 \<Rightarrow> u32 \<Rightarrow> 'a hw_scheme \<Rightarrow> 'a hw_scheme" where
  "mmio_write_offset_32 base_addr offset value h = mmio_write_32 (base_addr + offset) value h"

definition mmio_read_offset_32 :: "u64 \<Rightarrow> u64 \<Rightarrow> 'a hw_scheme \<Rightarrow> u32 \<times> 'a hw_scheme" where
  "mmio_read_offset_32 base_addr offset h = mmio_read_32 (base_addr + offset) h"

definition mmio_write_offset_8 :: "u64 \<Rightarrow> u64 \<Rightarrow> u8 \<Rightarrow> 'a hw_scheme \<Rightarrow> 'a hw_scheme" where
  "mmio_write_offset_8 base_addr offset value h = mmio_write_8 (base_addr + offset) value h"

definition mmio_read_offset_8 :: "u64 \<Rightarrow> u64 \<Rightarrow> 'a hw_scheme \<Rightarrow> u8 \<times> 'a hw_scheme" where
  "mmio_read_offset_8 base_addr offset h = mmio_read_8 (base_addr + offset) h"

section \<open>Model-specific registers and the time-stamp counter\<close>

definition rdmsr :: "u32 \<Rightarrow> 'a hw_scheme \<Rightarrow> u64 \<times> 'a hw_scheme" where
  "rdmsr msr h =
     (let v = answer (QMsr msr) h;
          low = (ucast v :: u32);
          high = (ucast (drop_bit 32 v) :: u32)
      in (ucast low + push_bit 32 (ucast high), emit (RdMsr msr v) h))"

definition wrmsr :: "u32 \<Rightarrow> u64 \<Rightarrow> 'a hw_scheme \<Rightarrow> 'a hw_scheme" where
  "wrmsr msr value h =
     (let low = (ucast (value AND 0xFFFFFFFF) :: u32);
          high = (ucast (drop_bit 32 value) :: u32)
      in emit (WrMsr msr (ucast low OR push_bit 32 (ucast high))) h)"

definition read_tsc :: "'a hw_scheme \<Rightarrow> u64 \<times> 'a hw_scheme" where
  "read_tsc h =
     (let v = answer QTsc h;
          lo = (ucast v :: u32);
          hi = (ucast (drop_bit 32 v) :: u32)
      in (push_bit 32 (ucast hi) OR ucast lo, emit (RdTsc v) h))"

text \<open>The halves the instructions work on make up the whole register again.\<close>

lemma word_halves: "ucast (ucast v :: u32) OR push_bit 32 (ucast (ucast (drop_bit 32 v) :: u32)) = (v :: u64)"
  by (rule bit_word_eqI) (auto simp: bit_simps)

lemma word_halves_add: "ucast (ucast v :: u32) + push_bit 32 (ucast (ucast (drop_bit 32 v) :: u32)) = (v :: u64)"
proof -
  have "ucast (ucast v :: u32) AND push_bit 32 (ucast (ucast (drop_bit 32 v) :: u32)) = (0 :: u64)"
    by (rule bit_word_eqI) (auto simp: bit_simps)
  then show ?thesis using word_halves [of v] by (simp add: disjunctive_add_eq_or)
qed

lemma rdmsr_eq [hw_simps]: "rdmsr msr h = (answer (QMsr msr) h, emit (RdMsr msr (answer (QMsr msr) h)) h)"
  by (simp add: rdmsr_def Let_def word_halves_add)

lemma wrmsr_eq [hw_simps]: "wrmsr msr v h = emit (WrMsr msr v) h"
proof -
  have "(0xFFFFFFFF :: u64) = mask 32" by (simp add: mask_eq_exp_minus_1)
  moreover have "(ucast (v AND mask 32) :: u32) = ucast v"
    by (rule bit_word_eqI) (simp add: bit_simps)
  ultimately have "(ucast (v AND 0xFFFFFFFF) :: u32) = ucast v" by (simp only:)
  then show ?thesis by (simp add: wrmsr_def Let_def word_halves)
qed

lemma read_tsc_eq [hw_simps]: "read_tsc h = (answer QTsc h, emit (RdTsc (answer QTsc h)) h)"
  using word_halves [of "answer QTsc h"] by (simp add: read_tsc_def Let_def or.commute)

section \<open>Processor identification\<close>

definition cpuid :: "u32 \<Rightarrow> u32 \<Rightarrow> 'a hw_scheme \<Rightarrow> cpuid_regs" where
  "cpuid leaf subleaf h = cpuid_of h leaf subleaf"

definition cpuid_standard_supported :: "u32 \<Rightarrow> 'a hw_scheme \<Rightarrow> bool" where
  "cpuid_standard_supported leaf h = (if eax (cpuid 0 0 h) < leaf then False else True)"

definition cpuid_extended_supported :: "u32 \<Rightarrow> 'a hw_scheme \<Rightarrow> bool" where
  "cpuid_extended_supported leaf h = (if eax (cpuid 0x80000000 0 h) < leaf then False else True)"

definition cpu_feature_bit :: "u32 \<Rightarrow> u32 \<Rightarrow> char \<Rightarrow> int \<Rightarrow> 'a hw_scheme \<Rightarrow> bool" where
  "cpu_feature_bit leaf subleaf reg b h =
     (if b < 0 \<or> b > 31 then False
      else
        (let r = cpuid leaf subleaf h
         in case (if reg = CHR ''a'' then Some (eax r) else if reg = CHR ''b'' then Some (ebx r)
                  else if reg = CHR ''c'' then Some (ecx r) else if reg = CHR ''d'' then Some (edx r) else None) of
              None \<Rightarrow> False
            | Some value \<Rightarrow> drop_bit (nat b) value AND 1 \<noteq> 0))"

lemma cpu_feature_bit_iff:
  assumes "0 \<le> b" and "b \<le> 31"
  shows "cpu_feature_bit leaf subleaf CHR ''a'' b h \<longleftrightarrow> bit (eax (cpuid leaf subleaf h)) (nat b)"
    and "cpu_feature_bit leaf subleaf CHR ''b'' b h \<longleftrightarrow> bit (ebx (cpuid leaf subleaf h)) (nat b)"
    and "cpu_feature_bit leaf subleaf CHR ''c'' b h \<longleftrightarrow> bit (ecx (cpuid leaf subleaf h)) (nat b)"
    and "cpu_feature_bit leaf subleaf CHR ''d'' b h \<longleftrightarrow> bit (edx (cpuid leaf subleaf h)) (nat b)"
  using assms by (simp_all add: cpu_feature_bit_def Let_def and_one_eq bit_iff_odd_drop_bit odd_iff_mod_2_eq_one)

text \<open>Four bytes of a register, low byte first, as \<open>memcpy\<close> leaves them.\<close>

definition reg_bytes :: "u32 \<Rightarrow> u8 list" where
  "reg_bytes r = map (\<lambda>i. ucast (drop_bit (8 * i) r)) [0..<4]"

definition get_cpu_vendor :: "'a hw_scheme \<Rightarrow> u8 list" where
  "get_cpu_vendor h = (let r = cpuid 0 0 h in reg_bytes (ebx r) @ reg_bytes (edx r) @ reg_bytes (ecx r) @ [0])"

definition get_hypervisor_id :: "'a hw_scheme \<Rightarrow> u8 list" where
  "get_hypervisor_id h =
     (if cpu_feature_bit 1 0 CHR ''c'' 31 h
      then (let r = cpuid 0x40000000 0 h in reg_bytes (ebx r) @ reg_bytes (ecx r) @ reg_bytes (edx r) @ [0])
      else bytes_of ''REALHARDWARE'' @ [0])"

definition get_cpu_name :: "'a hw_scheme \<Rightarrow> u8 list" where
  "get_cpu_name h =
     (if eax (cpuid 0x80000000 0 h) < 0x80000004 then bytes_of ''NO CPU NAME'' @ [0]
      else concat (map (\<lambda>i. let r = cpuid i 0 h in reg_bytes (eax r) @ reg_bytes (ebx r) @ reg_bytes (ecx r) @ reg_bytes (edx r))
             [0x80000002, 0x80000003, 0x80000004]) @ [0])"

text \<open>The strings fit the buffers they are built in: 13 and 49 bytes.\<close>

lemma length_reg_bytes [simp]: "length (reg_bytes r) = 4"
  by (simp add: reg_bytes_def)

lemma cpu_string_lengths:
  "length (get_cpu_vendor h) = 13" "length (get_hypervisor_id h) = 13" "length (get_cpu_name h) \<le> 49"
  by (simp_all add: get_cpu_vendor_def get_hypervisor_id_def get_cpu_name_def Let_def bytes_of_def)

section \<open>Bit fields\<close>

definition extract_bits :: "u64 \<Rightarrow> u8 \<Rightarrow> u8 \<Rightarrow> u64" where
  "extract_bits number lo hi =
     (let width = hi - lo + 1; msk = push_bit (unat width) 1 - 1
      in drop_bit (unat lo) number AND msk)"

definition insert_bits :: "u64 \<Rightarrow> u64 \<Rightarrow> u8 \<Rightarrow> u8 \<Rightarrow> u64" where
  "insert_bits target bits lo hi =
     (let width = hi - lo + 1; msk = push_bit (unat lo) (push_bit (unat width) 1 - 1)
      in (target AND NOT msk) OR (push_bit (unat lo) bits AND msk))"

definition insert_bit :: "u64 \<Rightarrow> u8 \<Rightarrow> u8 \<Rightarrow> u8 \<Rightarrow> u64" where
  "insert_bit target b lo hi =
     (let width = hi - lo + 1; msk = push_bit (unat lo) (push_bit (unat width) 1 - 1)
      in if b \<noteq> 0 then target OR msk else target AND NOT msk)"

lemma field_mask:
  assumes "lo \<le> hi" and "hi < 64"
  shows "unat (hi - lo + 1 :: u8) = Suc (unat hi - unat lo)"
proof -
  have "unat (hi - lo) = unat hi - unat lo" using assms(1) by (simp add: unat_sub)
  moreover have "unat hi < 64" using assms(2) by (simp add: word_less_nat_alt)
  ultimately show ?thesis by (subst unat_add_no_wrap) simp_all
qed

lemma bits_insert:
  assumes "lo \<le> hi" and "hi < 64"
  shows "bit (insert_bits t b lo hi) n =
    (if unat lo \<le> n \<and> n \<le> unat hi then bit b (n - unat lo) else bit t n)"
proof -
  have h: "unat lo \<le> unat hi" "unat hi < 64" using assms by (simp_all add: word_le_nat_alt word_less_nat_alt)
  have m: "push_bit (unat (hi - lo + 1)) 1 - 1 = (mask (Suc (unat hi - unat lo)) :: u64)"
    using field_mask [OF assms] by (simp add: mask_eq_exp_minus_1 push_bit_eq_mult)
  have t: "bit t n \<Longrightarrow> n < 64" using bit_imp_le_length [of t n] by simp
  show ?thesis
    unfolding insert_bits_def Let_def m using h t by (auto simp: bit_simps)
qed

text \<open>
  Bit fields behave as fields: what was inserted is what is extracted, cut to the width of
  the field, and the bits outside the field are those of the target.
\<close>

theorem extract_insert_bits:
  assumes "lo \<le> hi" and "hi < 64"
  shows "extract_bits (insert_bits t b lo hi) lo hi = b AND mask (unat hi - unat lo + 1)
    \<and> (\<forall>n. n < unat lo \<or> unat hi < n \<longrightarrow> bit (insert_bits t b lo hi) n = bit t n)"
proof
  have h: "unat lo \<le> unat hi" "unat hi < 64" using assms by (simp_all add: word_le_nat_alt word_less_nat_alt)
  have m: "push_bit (unat (hi - lo + 1)) 1 - 1 = (mask (Suc (unat hi - unat lo)) :: u64)"
    using field_mask [OF assms] by (simp add: mask_eq_exp_minus_1 push_bit_eq_mult)
  show "extract_bits (insert_bits t b lo hi) lo hi = b AND mask (unat hi - unat lo + 1)"
    unfolding extract_bits_def Let_def m
    by (rule bit_word_eqI) (use h in \<open>auto simp: bit_simps bits_insert [OF assms]\<close>)
qed (use bits_insert [OF assms] in auto)

theorem extract_insert_bits_witness: "extract_bits (insert_bits 0xFF00 0x1FA 4 11) 4 11 = 0xFA"
proof -
  have "(0x1FA :: u64) AND mask 8 = 0xFA" by (simp add: mask_eq_exp_minus_1)
  then show ?thesis using extract_insert_bits [of 4 11 "0xFF00" "0x1FA"] by simp
qed

end
