(* ===== verification/Cpu_Tables.thy ===== *)
theory Cpu_Tables
  imports Hardware
begin

text \<open>
  The tables and registers the processor is given at boot: segment descriptors and task state
  (\<open>drivers/x86_64/gdt.c\<close>, \<open>gdt.h\<close>), interrupt gates (\<open>drivers/x86_64/idt.c\<close>), control registers
  (\<open>drivers/x86_64/crX.c\<close>) and the set-up half of \<open>drivers/x86_64/fred/fred.c\<close>. Descriptors are built from
  the fields of the packed structures; the theorems read them back the way the processor
  does.
\<close>

section \<open>Segment descriptors\<close>

record GDTGDTEntry =
  limit_low :: u16
  base_low :: u16
  base_mid :: u8
  g_access :: u8
  limit_high :: u8
  g_flags :: u8
  base_high :: u8

text \<open>The eight bytes of the packed structure; the two bit fields share the seventh.\<close>

definition gdt_entry_bits :: "GDTGDTEntry \<Rightarrow> u64" where
  "gdt_entry_bits e = ucast (limit_low e) OR push_bit 16 (ucast (base_low e)) OR push_bit 32 (ucast (base_mid e))
     OR push_bit 40 (ucast (g_access e)) OR push_bit 48 (take_bit 4 (ucast (limit_high e)))
     OR push_bit 52 (take_bit 4 (ucast (g_flags e))) OR push_bit 56 (ucast (base_high e))"

record GDTR =
  gdtr_limit :: u16
  gdtr_base :: u64

record TSS =
  tss_reserved0 :: u32
  rsp0 :: u64
  rsp1 :: u64
  rsp2 :: u64
  tss_reserved1 :: u64
  ist :: "u64 list"
  tss_reserved2 :: u64
  tss_reserved3 :: u16
  io_map_base :: u16

definition sizeof_TSS :: u64 where "sizeof_TSS = 104"

text \<open>Addresses chosen by the linker.\<close>

record cpu_syms =
  sym_gdt :: u64
  sym_tss :: u64
  sym_idt :: u64
  sym_df_stack :: u64
  sym_nmi_stack :: u64
  sym_dbg_stack :: u64
  sym_isr :: "nat \<Rightarrow> u64"
  sym_fred_entry :: u64
  sym_fred_kernel_stack :: u64
  sym_fred_df_stack :: u64
  sym_fred_nmi_stack :: u64

record IDTEntry =
  offset_low :: u16
  selector :: u16
  i_ist :: u8
  type_attr :: u8
  offset_mid :: u16
  offset_high :: u32
  i_zero :: u32

record IDTR =
  idtr_limit :: u16
  idtr_base :: u64

text \<open>
  The registers loaded and the tables in memory. A descriptor is the union of both views, so
  the table holds 64-bit words.
\<close>

record cpu_state =
  csyms :: cpu_syms
  gdt :: "u64 list"
  gdtr :: GDTR
  tss :: TSS
  task_register :: u16
  idt :: "IDTEntry list"
  idtr :: IDTR
  cr0 :: u64
  cr4 :: u64
  smap_enabled :: bool
  fred_on :: bool
  cpu_hw :: hw

definition gdt_fill_entry :: "nat \<Rightarrow> u8 \<Rightarrow> u8 \<Rightarrow> cpu_state \<Rightarrow> cpu_state" where
  "gdt_fill_entry num access flags c = c\<lparr>gdt := (gdt c)[num := gdt_entry_bits
     \<lparr>limit_low = 0, base_low = 0, base_mid = 0, g_access = access, limit_high = 0, g_flags = flags, base_high = 0\<rparr>]\<rparr>"

definition gdt_set_tss :: "nat \<Rightarrow> cpu_state \<Rightarrow> cpu_state" where
  "gdt_set_tss num c =
     (let tss_base = sym_tss (csyms c);
          lo = \<lparr>limit_low = ucast (sizeof_TSS - 1), base_low = ucast (tss_base AND 0xffff),
                base_mid = ucast (drop_bit 16 tss_base AND 0xff), g_access = 0x89,
                limit_high = ucast (drop_bit 16 (sizeof_TSS - 1) AND 0x0F), g_flags = 0,
                base_high = ucast (drop_bit 24 tss_base AND 0xff)\<rparr>
      in c\<lparr>gdt := (gdt c)[num := gdt_entry_bits lo, num + 1 := drop_bit 32 tss_base]\<rparr>)"

definition setup_gdt :: "cpu_state \<Rightarrow> cpu_state" where
  "setup_gdt c =
     (let c1 = gdt_set_tss 6 (gdt_fill_entry 5 0xFA 0xA (gdt_fill_entry 4 0xF2 0xC (gdt_fill_entry 3 0xFA 0xC
                 (gdt_fill_entry 2 0x92 0xC (gdt_fill_entry 1 0x9A 0xA (gdt_fill_entry 0 0 0 c))))));
          y = csyms c1;
          c2 = c1\<lparr>tss := (tss c1)\<lparr>ist := (ist (tss c1))[0 := sym_df_stack y + 4096, 1 := sym_nmi_stack y + 4096,
                                                      2 := sym_dbg_stack y + 8192]\<rparr>\<rparr>;
          c3 = c2\<lparr>gdtr := \<lparr>gdtr_limit = 63, gdtr_base = sym_gdt y\<rparr>, task_register := 0x30\<rparr>
      in c3\<lparr>cpu_hw := wrmsr 0xC0000102 0 (wrmsr 0xC0000101 0 (cpu_hw c3))\<rparr>)"

section \<open>Interrupt gates\<close>

definition set_idt_entry :: "nat \<Rightarrow> u8 \<Rightarrow> u8 \<Rightarrow> u64 \<Rightarrow> cpu_state \<Rightarrow> cpu_state" where
  "set_idt_entry index isti attr addr c = c\<lparr>idt := (idt c)[index :=
     \<lparr>offset_low = ucast (addr AND 0xFFFF), selector = 0x08, i_ist = isti, type_attr = attr,
      offset_mid = ucast (drop_bit 16 addr AND 0xFFFF), offset_high = ucast (drop_bit 32 addr), i_zero = 0\<rparr>]\<rparr>"

text \<open>The gates that differ from the generic one: vector, stack, stub.\<close>

definition idt_gates :: "(nat \<times> u8 \<times> nat) list" where
  "idt_gates = [(0x01, 3, 0x01), (0x03, 3, 0x03), (0x08, 1, 0x08), (0x0D, 0, 0x0D), (0x0E, 0, 0x0E),
     (0x20, 0, 0x20), (0x21, 0, 0x21), (0x2C, 0, 0x21), (0x24, 0, 0x24),
     (0x27, 0, 0x27), (0x2F, 0, 0x2F), (0xFF, 0, 0xFF), (0xF0, 0, 0xF0)]"

definition setup_idt :: "cpu_state \<Rightarrow> cpu_state" where
  "setup_idt c =
     (let isr = sym_isr (csyms c);
          c1 = fold (\<lambda>i. set_idt_entry i 0 0x8E (isr 0x16)) [0..<256] c;
          c2 = fold (\<lambda>(v, isti, stub). set_idt_entry v isti 0x8E (isr stub)) idt_gates c1
      in c2\<lparr>idtr := \<lparr>idtr_limit = 4095, idtr_base = sym_idt (csyms c2)\<rparr>\<rparr>)"

section \<open>Control registers\<close>

definition setup_cr0 :: "cpu_state \<Rightarrow> cpu_state" where
  "setup_cr0 c = c\<lparr>cr0 := set_bit 5 (set_bit 1 (unset_bit 3 (unset_bit 2 (cr0 c))))\<rparr>"

definition setup_cr4 :: "cpu_state \<Rightarrow> cpu_state" where
  "setup_cr4 c =
     (let c1 = c\<lparr>cr4 := set_bit 10 (set_bit 9 (set_bit 4 (cr4 c)))\<rparr>
      in if cpuid_standard_supported 7 (cpu_hw c1)
         then (let c2 = (if cpu_feature_bit 7 0 CHR ''b'' 7 (cpu_hw c1) then c1\<lparr>cr4 := set_bit 20 (cr4 c1)\<rparr> else c1)
               in if cpu_feature_bit 7 0 CHR ''b'' 20 (cpu_hw c2)
                  then c2\<lparr>cr4 := set_bit 21 (cr4 c2), smap_enabled := True\<rparr> else c2\<lparr>smap_enabled := False\<rparr>)
         else c1)"

definition setup_control_registers :: "cpu_state \<Rightarrow> cpu_state" where
  "setup_control_registers c = setup_cr4 (setup_cr0 c)"

text \<open>The feature test of FRED, whose comparison of the highest subleaf is the wrong way round.\<close>

definition setup_fred :: "cpu_state \<Rightarrow> bool \<times> cpu_state" where
  "setup_fred c =
     (if eax (cpuid 7 0 (cpu_hw c)) \<le> 1 \<and> cpu_feature_bit 7 1 CHR ''a'' 17 (cpu_hw c)
      then
        (let y = csyms c;
             c1 = c\<lparr>cr4 := set_bit 32 (cr4 c)\<rparr>;
             star = push_bit 48 (0x18 OR 3) OR push_bit 32 0x08;
             h = wrmsr 0x1D0 0 (wrmsr 0x1CF (sym_fred_nmi_stack y + 4096) (wrmsr 0x1CE (sym_fred_df_stack y + 4096)
                   (wrmsr 0x1CC (sym_fred_kernel_stack y + 4096) (wrmsr 0x1D4 (sym_fred_entry y) (wrmsr 0xC0000081 star (cpu_hw c1))))))
         in (True, c1\<lparr>cpu_hw := h, fred_on := True\<rparr>))
      else (False, c))"

section \<open>What the processor reads\<close>

definition seg_base :: "u64 \<Rightarrow> u64" where
  "seg_base d = take_bit 24 (drop_bit 16 d) OR push_bit 24 (take_bit 8 (drop_bit 56 d))"

definition seg_limit :: "u64 \<Rightarrow> u64" where
  "seg_limit d = take_bit 16 d OR push_bit 16 (take_bit 4 (drop_bit 48 d))"

definition seg_access :: "u64 \<Rightarrow> u64" where
  "seg_access d = take_bit 8 (drop_bit 40 d)"

definition gate_target :: "IDTEntry \<Rightarrow> u64" where
  "gate_target e = ucast (offset_low e) OR push_bit 16 (ucast (offset_mid e)) OR push_bit 32 (ucast (offset_high e))"

lemma bits_beyond: "8 \<le> n \<Longrightarrow> \<not> bit (x :: u8) n" "16 \<le> n \<Longrightarrow> \<not> bit (y :: u16) n"
  by (auto dest: bit_imp_le_length)

lemma seg_base_entry:
  "seg_base (gdt_entry_bits e) = ucast (base_low e) OR push_bit 16 (ucast (base_mid e)) OR push_bit 24 (ucast (base_high e))"
proof (rule bit_word_eqI)
  fix n assume "n < LENGTH(64)"
  then consider "n < 16" | "16 \<le> n" "n < 24" | "24 \<le> n" "n < 32" | "32 \<le> n" "n < 64" by fastforce
  then show "bit (seg_base (gdt_entry_bits e)) n
      = bit (ucast (base_low e) OR push_bit 16 (ucast (base_mid e)) OR push_bit 24 (ucast (base_high e)) :: u64) n"
    by cases (auto simp: seg_base_def gdt_entry_bits_def bit_simps bits_beyond)
qed

lemma seg_limit_entry:
  "seg_limit (gdt_entry_bits e) = ucast (limit_low e) OR push_bit 16 (take_bit 4 (ucast (limit_high e)))"
proof (rule bit_word_eqI)
  fix n assume "n < LENGTH(64)"
  then consider "n < 16" | "16 \<le> n" "n < 20" | "20 \<le> n" "n < 64" by fastforce
  then show "bit (seg_limit (gdt_entry_bits e)) n
      = bit (ucast (limit_low e) OR push_bit 16 (take_bit 4 (ucast (limit_high e))) :: u64) n"
    by cases (auto simp: seg_limit_def gdt_entry_bits_def bit_simps bits_beyond)
qed

lemma seg_access_entry: "seg_access (gdt_entry_bits e) = ucast (g_access e)"
proof (rule bit_word_eqI)
  fix n assume "n < LENGTH(64)"
  then consider "n < 8" | "8 \<le> n" "n < 64" by fastforce
  then show "bit (seg_access (gdt_entry_bits e)) n = bit (ucast (g_access e) :: u64) n"
    by cases (simp_all add: seg_access_def gdt_entry_bits_def bit_simps bits_beyond)
qed

lemmas gdt_entry_reads = seg_base_entry seg_limit_entry seg_access_entry

lemma low_bits: "x AND 0xffff = take_bit 16 x" "x AND 0xff = take_bit 8 x" "x AND 0xf = take_bit 4 x" for x :: u64
  by (simp_all add: take_bit_eq_mask mask_eq_exp_minus_1)

lemma split_base:
  "push_bit 32 (drop_bit 32 b) OR (ucast (ucast (b AND 0xffff) :: u16) OR push_bit 16 (ucast (ucast (drop_bit 16 b AND 0xff) :: u8))
     OR push_bit 24 (ucast (ucast (drop_bit 24 b AND 0xff) :: u8))) = b" for b :: u64
  unfolding low_bits
proof (rule bit_word_eqI)
  fix n assume "n < LENGTH(64)"
  then consider "n < 16" | "16 \<le> n" "n < 24" | "24 \<le> n" "n < 32" | "32 \<le> n" "n < 64" by fastforce
  then show "bit (push_bit 32 (drop_bit 32 b) OR (ucast (ucast (take_bit 16 b) :: u16)
      OR push_bit 16 (ucast (ucast (take_bit 8 (drop_bit 16 b)) :: u8))
      OR push_bit 24 (ucast (ucast (take_bit 8 (drop_bit 24 b)) :: u8)))) n = bit b n"
    by cases (auto simp: bit_simps)
qed

lemma split_offset:
  "(ucast (ucast (b AND 0xFFFF) :: u16) :: u64) OR push_bit 16 (ucast (ucast (drop_bit 16 b AND 0xFFFF) :: u16))
     OR push_bit 32 (ucast (ucast (drop_bit 32 b) :: u32)) = b" for b :: u64
  unfolding low_bits
proof (rule bit_word_eqI)
  fix n assume "n < LENGTH(64)"
  then consider "n < 16" | "16 \<le> n" "n < 32" | "32 \<le> n" "n < 64" by fastforce
  then show "bit ((ucast (ucast (take_bit 16 b) :: u16) :: u64) OR push_bit 16 (ucast (ucast (take_bit 16 (drop_bit 16 b)) :: u16))
      OR push_bit 32 (ucast (ucast (drop_bit 32 b) :: u32))) n = bit b n"
    by cases (auto simp: bit_simps)
qed

text \<open>
  The two words of the task state descriptor, read the way the processor reads a system
  descriptor, give the address and the size of the task state structure and its type; no other
  descriptor changes.
\<close>

theorem gdt_set_tss_correct:
  assumes "num + 1 < length (gdt c)" and "g = gdt (gdt_set_tss num c)"
  shows "push_bit 32 (g ! (num + 1)) OR seg_base (g ! num) = sym_tss (csyms c)
    \<and> seg_limit (g ! num) = sizeof_TSS - 1 \<and> seg_access (g ! num) = 0x89
    \<and> (\<forall>i. i \<noteq> num \<and> i \<noteq> num + 1 \<longrightarrow> g ! i = gdt c ! i)"
  using assms by (simp add: gdt_set_tss_def Let_def gdt_entry_reads split_base sizeof_TSS_def)

text \<open>A gate as the code fills it in, and a table filled from a list; later entries win.\<close>

definition gate :: "u8 \<Rightarrow> u64 \<Rightarrow> IDTEntry" where
  "gate isti addr = \<lparr>offset_low = ucast (addr AND 0xFFFF), selector = 0x08, i_ist = isti, type_attr = 0x8E,
      offset_mid = ucast (drop_bit 16 addr AND 0xFFFF), offset_high = ucast (drop_bit 32 addr), i_zero = 0\<rparr>"

lemma gate_target_gate [simp]: "gate_target (gate isti addr) = addr"
  by (simp add: gate_def gate_target_def split_offset)

lemma set_idt_entry_gate: "set_idt_entry i isti 0x8E addr c = c\<lparr>idt := (idt c)[i := gate isti addr]\<rparr>"
  by (simp add: set_idt_entry_def gate_def)

lemma fold_gates:
  assumes "i < length (idt c)"
  shows "idt (fold (\<lambda>(v, isti, stub). set_idt_entry v isti 0x8E (isr stub)) gs c) ! i
    = (case map_of (rev gs) i of None \<Rightarrow> idt c ! i | Some (isti, stub) \<Rightarrow> gate isti (isr stub))
    \<and> length (idt (fold (\<lambda>(v, isti, stub). set_idt_entry v isti 0x8E (isr stub)) gs c)) = length (idt c)
    \<and> csyms (fold (\<lambda>(v, isti, stub). set_idt_entry v isti 0x8E (isr stub)) gs c) = csyms c"
  using assms
  by (induction gs rule: rev_induct) (auto simp: set_idt_entry_gate nth_list_update split: option.split)

lemma idt_gates_distinct: "map_of (rev idt_gates) = map_of idt_gates"
proof -
  have "distinct (map fst idt_gates)" by (simp add: idt_gates_def)
  then show ?thesis by (subst map_of_inject_set) (simp_all flip: rev_map)
qed

text \<open>
  After \<open>setup_idt\<close> every one of the 256 gates leads to the stub the kernel means for that vector,
  on the stack it means, and every vector without one to the generic stub.
\<close>

theorem setup_idt_correct:
  assumes "length (idt c) = 256" and "v < 256"
  shows "idt (setup_idt c) ! v = (case map_of idt_gates v of
      None \<Rightarrow> gate 0 (sym_isr (csyms c) 0x16) | Some (isti, stub) \<Rightarrow> gate isti (sym_isr (csyms c) stub))
    \<and> (\<forall>isti addr. gate_target (gate isti addr) = addr)
    \<and> idtr_base (idtr (setup_idt c)) = sym_idt (csyms c)"
proof -
  define c1 where "c1 = fold (\<lambda>i. set_idt_entry i 0 0x8E (sym_isr (csyms c) 0x16)) [0..<256] c"
  have "c1 = fold (\<lambda>(v, isti, stub). set_idt_entry v isti 0x8E (sym_isr (csyms c) stub)) (map (\<lambda>i. (i, 0, 0x16)) [0..<256]) c"
    by (simp add: c1_def fold_map comp_def)
  moreover have "map_of (rev (map (\<lambda>i. (i, 0, 0x16)) [0..<256])) v = Some (0 :: u8, 0x16 :: nat)"
    using assms(2) by (simp add: rev_map map_of_map_restrict)
  ultimately have c1: "idt c1 ! v = gate 0 (sym_isr (csyms c) 0x16)" "length (idt c1) = 256" "csyms c1 = csyms c"
    using fold_gates [of v c "sym_isr (csyms c)" "map (\<lambda>i. (i, 0, 0x16)) [0..<256]"] assms by simp_all
  show ?thesis
    using fold_gates [of v c1 "sym_isr (csyms c)" idt_gates] c1 assms(2)
    by (simp add: setup_idt_def Let_def c1_def [symmetric] idt_gates_distinct split: option.split)
qed

section \<open>Control registers\<close>

text \<open>SMAP is recorded as enabled exactly when it has been.\<close>

lemma setup_cr4_smap:
  "cpuid_standard_supported 7 (cpu_hw c) \<Longrightarrow>
    smap_enabled (setup_cr4 c) = cpu_feature_bit 7 0 CHR ''b'' 20 (cpu_hw c)
    \<and> (smap_enabled (setup_cr4 c) \<longrightarrow> bit (cr4 (setup_cr4 c)) 21)"
  by (auto simp: setup_cr4_def Let_def bit_set_bit_iff)

text \<open>
  The subleaf that announces FRED is only looked at when it need not exist: a processor that
  reports more than one subleaf is refused whatever it announces.
\<close>

lemma setup_fred_refuses: "1 < eax (cpuid 7 0 (cpu_hw c)) \<Longrightarrow> setup_fred c = (False, c)"
  by (auto simp: setup_fred_def)

section \<open>Witnesses\<close>

definition demo_cpu :: cpu_state where
  "demo_cpu = \<lparr>csyms = \<lparr>sym_gdt = 0x1000, sym_tss = 0xFFFFFFFF80123456, sym_idt = 0x3000, sym_df_stack = 0x4000, sym_nmi_stack = 0x5000,
     sym_dbg_stack = 0x6000, sym_isr = (\<lambda>v. 0xFFFFFFFF80000000 + of_nat v), sym_fred_entry = 0, sym_fred_kernel_stack = 0,
     sym_fred_df_stack = 0, sym_fred_nmi_stack = 0\<rparr>, gdt = replicate 8 0, gdtr = \<lparr>gdtr_limit = 0, gdtr_base = 0\<rparr>,
     tss = \<lparr>tss_reserved0 = 0, rsp0 = 0, rsp1 = 0, rsp2 = 0, tss_reserved1 = 0, ist = replicate 7 0, tss_reserved2 = 0,
       tss_reserved3 = 0, io_map_base = 0\<rparr>,
     task_register = 0, idt = replicate 256 (gate 0 0), idtr = \<lparr>idtr_limit = 0, idtr_base = 0\<rparr>, cr0 = 0, cr4 = 0,
     smap_enabled = False, fred_on = False,
     cpu_hw = \<lparr>trace = [], dev = (\<lambda>_ _. 0), cpuid_of = (\<lambda>_ _. \<lparr>eax = 0, ebx = 0, ecx = 0, edx = 0\<rparr>)\<rparr>\<rparr>"

theorem gdt_set_tss_correct_witness:
  "push_bit 32 (gdt (gdt_set_tss 6 demo_cpu) ! 7) OR seg_base (gdt (gdt_set_tss 6 demo_cpu) ! 6) = 0xFFFFFFFF80123456"
  using gdt_set_tss_correct [where num = 6 and c = demo_cpu, OF _ refl] by (simp add: demo_cpu_def)

theorem setup_idt_correct_witness:
  "idt (setup_idt demo_cpu) ! 0x2C = gate 0 0xFFFFFFFF80000021"
  using setup_idt_correct [where c = demo_cpu and v = "0x2C"] by (simp add: demo_cpu_def idt_gates_def)

end
