(* ===== verification/Spinlock.thy ===== *)
theory Spinlock
  imports Kernel_Prelude
begin

text \<open>
  Interrupt request levels (\<open>drivers/x86_64/irq.h\<close>) and the spinlock built on them
  (\<open>utils/spinlock.h\<close>). The lock is modelled twice: as the function a caller sees when no other
  processor touches the flag (not returning is \<open>None\<close>), and as the atomic steps any number of
  processors take on one flag, as an inductive step relation. The reachable states of the
  latter are shown to satisfy mutual exclusion at \<open>IRQL_DISPATCH\<close>, and no step panics.
\<close>

section \<open>Interrupt request level\<close>

text \<open>The level lives in \<open>CR8\<close>; \<open>int\<close> holds the values the callers use.\<close>

definition IRQL_PASSIVE :: int where "IRQL_PASSIVE = 0"
definition IRQL_DISPATCH :: int where "IRQL_DISPATCH = 2"

text \<open>Both operations take the wanted level and \<open>CR8\<close>, and give the old level and the new \<open>CR8\<close>.\<close>

definition irql_raise :: "int \<Rightarrow> int \<Rightarrow> (int \<times> int) kres" where
  "irql_raise irql cr8 =
     (let old_irql = cr8
      in if irql < old_irql then Inl (Panic ''irql raise to lower irql'')
         else if irql = old_irql then Inr (old_irql, cr8)
         else Inr (old_irql, irql))"

definition irql_lower :: "int \<Rightarrow> int \<Rightarrow> (int \<times> int) kres" where
  "irql_lower irql cr8 =
     (let old_irql = cr8
      in if irql > old_irql then Inl (Panic ''irql lower to higher irql'')
         else if irql = old_irql then Inr (old_irql, cr8)
         else Inr (old_irql, irql))"

lemma irql_raise_eq:
  "irql_raise l c = (if l < c then Inl (Panic ''irql raise to lower irql'') else Inr (c, l))"
  by (simp add: irql_raise_def Let_def)

lemma irql_lower_eq:
  "irql_lower l c = (if l > c then Inl (Panic ''irql lower to higher irql'') else Inr (c, l))"
  by (simp add: irql_lower_def Let_def)

section \<open>The lock as its caller sees it\<close>

record spinlock_t =
  lock_flag :: u32

definition spinlock_init :: spinlock_t where
  "spinlock_init = \<lparr>lock_flag = 0\<rparr>"

text \<open>
  The two nested loops: reload while the flag is set, then exchange it with 1 and leave when
  the old value was 0.
\<close>

partial_function (option) spinlock_spin :: "spinlock_t \<Rightarrow> spinlock_t option" where
  "spinlock_spin l =
     (if lock_flag l \<noteq> 0 then spinlock_spin l
      else
        (let old = lock_flag l; l1 = l\<lparr>lock_flag := 1\<rparr>
         in if old = 0 then Some l1 else spinlock_spin l1))"

definition spinlock_lock :: "spinlock_t \<Rightarrow> int \<Rightarrow> (int \<times> spinlock_t \<times> int) kres option" where
  "spinlock_lock l cr8 =
     (case irql_raise IRQL_DISPATCH cr8 of
        Inl e \<Rightarrow> Some (Inl e)
      | Inr (irqs, cr8') \<Rightarrow>
          (case spinlock_spin l of
             None \<Rightarrow> None
           | Some l1 \<Rightarrow> Some (Inr (irqs, l1, cr8'))))"

definition spinlock_unlock :: "spinlock_t \<Rightarrow> int \<Rightarrow> int \<Rightarrow> (spinlock_t \<times> int) kres" where
  "spinlock_unlock l irqs cr8 =
     kbind (irql_lower irqs cr8) (\<lambda>(_, cr8'). Inr (l\<lparr>lock_flag := 0\<rparr>, cr8'))"

text \<open>The out-of-line copy that the context switch calls.\<close>

definition spinlock_unlock_nil :: "spinlock_t \<Rightarrow> int \<Rightarrow> int \<Rightarrow> (spinlock_t \<times> int) kres" where
  "spinlock_unlock_nil l irqs cr8 =
     kbind (irql_lower irqs cr8) (\<lambda>(_, cr8'). Inr (l\<lparr>lock_flag := 0\<rparr>, cr8'))"

lemma spinlock_spin_free: "lock_flag l = 0 \<Longrightarrow> spinlock_spin l = Some (l\<lparr>lock_flag := 1\<rparr>)"
  by (subst spinlock_spin.simps) simp

text \<open>A processor that finds the flag set, with nobody else to clear it, spins forever.\<close>

lemma spinlock_spin_returns:
  "spinlock_spin l = Some l1 \<Longrightarrow> lock_flag l = 0 \<and> l1 = l\<lparr>lock_flag := 1\<rparr>"
  by (erule spinlock_spin.raw_induct [rotated]) (auto simp: Let_def split: if_splits)

lemma spinlock_spin_held: "lock_flag l \<noteq> 0 \<Longrightarrow> spinlock_spin l = None"
  using spinlock_spin_returns [of l] by (cases "spinlock_spin l") auto

lemma spinlock_lock_free:
  "lock_flag l = 0 \<Longrightarrow> c \<le> 2
    \<Longrightarrow> spinlock_lock l c = Some (Inr (c, l\<lparr>lock_flag := 1\<rparr>, 2))"
  by (simp add: spinlock_lock_def irql_raise_eq IRQL_DISPATCH_def spinlock_spin_free)

lemma spinlock_unlock_ok:
  "irqs \<le> c \<Longrightarrow> spinlock_unlock l irqs c = Inr (l\<lparr>lock_flag := 0\<rparr>, irqs)"
  "irqs \<le> c \<Longrightarrow> spinlock_unlock_nil l irqs c = Inr (l\<lparr>lock_flag := 0\<rparr>, irqs)"
  by (simp_all add: spinlock_unlock_def spinlock_unlock_nil_def irql_lower_eq)

text \<open>
  Seen from one processor at level at most \<open>IRQL_DISPATCH\<close>: taking a free lock returns, raises
  the level to \<open>IRQL_DISPATCH\<close> and sets the flag; unlocking with the returned level gives back both
  the flag and the level of before; and taking the lock a second time never returns.
\<close>

theorem spinlock_lock_unlock:
  assumes "lock_flag l = 0" and "cr8 \<le> IRQL_DISPATCH"
  shows "\<exists>l1. spinlock_lock l cr8 = Some (Inr (cr8, l1, IRQL_DISPATCH)) \<and> lock_flag l1 = 1
    \<and> spinlock_unlock l1 cr8 IRQL_DISPATCH = Inr (l, cr8)
    \<and> spinlock_lock l1 IRQL_DISPATCH = None"
proof -
  have "spinlock_lock (l\<lparr>lock_flag := 1\<rparr>) IRQL_DISPATCH = None"
    using spinlock_spin_held [of "l\<lparr>lock_flag := 1\<rparr>"] by (simp add: spinlock_lock_def irql_raise_eq)
  then show ?thesis
    using assms by (simp add: spinlock_lock_free spinlock_unlock_ok IRQL_DISPATCH_def)
qed

theorem spinlock_lock_unlock_witness:
  "\<exists>l1. spinlock_lock spinlock_init IRQL_PASSIVE = Some (Inr (IRQL_PASSIVE, l1, IRQL_DISPATCH))
    \<and> lock_flag l1 = 1 \<and> spinlock_unlock l1 IRQL_PASSIVE IRQL_DISPATCH = Inr (spinlock_init, IRQL_PASSIVE)
    \<and> spinlock_lock l1 IRQL_DISPATCH = None"
  using spinlock_lock_unlock [of spinlock_init IRQL_PASSIVE]
  by (simp add: spinlock_init_def IRQL_PASSIVE_def IRQL_DISPATCH_def)

section \<open>The lock between processors\<close>

text \<open>
  Where a processor stands in \<open>spinlock_lock\<close> and \<open>spinlock_unlock\<close>: outside; in the inner loop;
  about to exchange; inside the critical section; after the releasing store, about to lower
  the level. The level to return to is kept from \<open>irql_raise\<close> on.
\<close>

datatype lock_pc = Outside | Spinning int | Exchanging int | Holding int | Releasing int | Panicked

record lock_sys =
  sys_flag :: u32
  pc_of :: "nat \<Rightarrow> lock_pc"
  irql_of :: "nat \<Rightarrow> int"

inductive lock_step :: "lock_sys \<Rightarrow> nat \<Rightarrow> lock_sys \<Rightarrow> bool" where
  raise: "pc_of s i = Outside \<Longrightarrow> irql_raise IRQL_DISPATCH (irql_of s i) = Inr (old, new)
    \<Longrightarrow> lock_step s i (s\<lparr>pc_of := (pc_of s)(i := Spinning old), irql_of := (irql_of s)(i := new)\<rparr>)"
| raise_panic: "pc_of s i = Outside \<Longrightarrow> irql_raise IRQL_DISPATCH (irql_of s i) = Inl e
    \<Longrightarrow> lock_step s i (s\<lparr>pc_of := (pc_of s)(i := Panicked)\<rparr>)"
| load_set: "pc_of s i = Spinning old \<Longrightarrow> sys_flag s \<noteq> 0 \<Longrightarrow> lock_step s i s"
| load_clear: "pc_of s i = Spinning old \<Longrightarrow> sys_flag s = 0
    \<Longrightarrow> lock_step s i (s\<lparr>pc_of := (pc_of s)(i := Exchanging old)\<rparr>)"
| exchange_won: "pc_of s i = Exchanging old \<Longrightarrow> sys_flag s = 0
    \<Longrightarrow> lock_step s i (s\<lparr>sys_flag := 1, pc_of := (pc_of s)(i := Holding old)\<rparr>)"
| exchange_lost: "pc_of s i = Exchanging old \<Longrightarrow> sys_flag s \<noteq> 0
    \<Longrightarrow> lock_step s i (s\<lparr>sys_flag := 1, pc_of := (pc_of s)(i := Spinning old)\<rparr>)"
| store_release: "pc_of s i = Holding old
    \<Longrightarrow> lock_step s i (s\<lparr>sys_flag := 0, pc_of := (pc_of s)(i := Releasing old)\<rparr>)"
| lower: "pc_of s i = Releasing old \<Longrightarrow> irql_lower old (irql_of s i) = Inr (cur, new)
    \<Longrightarrow> lock_step s i (s\<lparr>pc_of := (pc_of s)(i := Outside), irql_of := (irql_of s)(i := new)\<rparr>)"
| lower_panic: "pc_of s i = Releasing old \<Longrightarrow> irql_lower old (irql_of s i) = Inl e
    \<Longrightarrow> lock_step s i (s\<lparr>pc_of := (pc_of s)(i := Panicked)\<rparr>)"

text \<open>All processors start outside, each at a level a caller may have.\<close>

definition lock_start :: "lock_sys \<Rightarrow> bool" where
  "lock_start s \<longleftrightarrow> sys_flag s = 0 \<and> (\<forall>i. pc_of s i = Outside \<and> irql_of s i \<le> IRQL_DISPATCH)"

inductive lock_reach :: "lock_sys \<Rightarrow> lock_sys \<Rightarrow> bool" for s0 where
  start: "lock_reach s0 s0"
| more: "lock_reach s0 s \<Longrightarrow> lock_step s i s' \<Longrightarrow> lock_reach s0 s'"

text \<open>What a processor's place says about its level, and which level it will go back to.\<close>

definition level_ok :: "int \<Rightarrow> lock_pc \<Rightarrow> int \<Rightarrow> bool" where
  "level_ok l0 pc l = (case pc of
       Outside \<Rightarrow> l = l0
     | Spinning old \<Rightarrow> old = l0 \<and> l = IRQL_DISPATCH
     | Exchanging old \<Rightarrow> old = l0 \<and> l = IRQL_DISPATCH
     | Holding old \<Rightarrow> old = l0 \<and> l = IRQL_DISPATCH
     | Releasing old \<Rightarrow> old = l0 \<and> l = IRQL_DISPATCH
     | Panicked \<Rightarrow> False)"

definition holds :: "lock_sys \<Rightarrow> nat \<Rightarrow> bool" where
  "holds s i \<longleftrightarrow> (\<exists>old. pc_of s i = Holding old)"

definition lock_inv :: "lock_sys \<Rightarrow> lock_sys \<Rightarrow> bool" where
  "lock_inv s0 s \<longleftrightarrow>
     (\<forall>i. level_ok (irql_of s0 i) (pc_of s i) (irql_of s i))
     \<and> (\<forall>i j. holds s i \<longrightarrow> holds s j \<longrightarrow> i = j)
     \<and> (sys_flag s \<noteq> 0 \<longleftrightarrow> (\<exists>i. holds s i))"

lemma lock_inv_start: "lock_start s0 \<Longrightarrow> lock_inv s0 s0"
  by (auto simp: lock_start_def lock_inv_def level_ok_def holds_def)

lemma lock_inv_level: "lock_inv s0 s \<Longrightarrow> pc_of s i = pc \<Longrightarrow> level_ok (irql_of s0 i) pc (irql_of s i)"
  by (auto simp: lock_inv_def)

lemma lock_inv_owner: "lock_inv s0 s \<Longrightarrow> pc_of s i = Holding old \<Longrightarrow> holds s j \<Longrightarrow> j = i"
  by (auto simp: lock_inv_def holds_def)

text \<open>A step keeps the invariant when the set of holders and the flag change together.\<close>

lemma lock_inv_update:
  assumes inv: "lock_inv s0 s" and lev: "level_ok (irql_of s0 i) pc l"
    and s': "sys_flag s' = f" "pc_of s' = (pc_of s)(i := pc)" "\<And>j. irql_of s' j = (if j = i then l else irql_of s j)"
    and own: "\<And>j. holds s' j \<Longrightarrow> if f = 0 then False else holds s j \<or> (sys_flag s = 0 \<and> j = i)"
    and set: "f \<noteq> 0 \<Longrightarrow> \<exists>j. holds s' j"
  shows "lock_inv s0 s'"
proof -
  have "level_ok (irql_of s0 j) (pc_of s' j) (irql_of s' j)" for j
    using lev lock_inv_level [OF inv refl, of j] by (simp add: s')
  moreover have "j = k" if "holds s' j" "holds s' k" for j k
    using own [OF that(1)] own [OF that(2)] inv unfolding lock_inv_def by (metis (full_types))
  moreover have "sys_flag s' \<noteq> 0 \<longleftrightarrow> (\<exists>j. holds s' j)"
    using own set by (auto simp: s' split: if_splits)
  ultimately show ?thesis by (simp add: lock_inv_def)
qed

lemma lock_inv_move:
  assumes inv: "lock_inv s0 s" and lev: "level_ok (irql_of s0 i) pc l"
    and s': "sys_flag s' = f" "pc_of s' = (pc_of s)(i := pc)" "\<And>j. irql_of s' j = (if j = i then l else irql_of s j)"
    and "\<not> holds s i" and "\<nexists>old. pc = Holding old" and f: "f = 0 \<longleftrightarrow> sys_flag s = 0"
  shows "lock_inv s0 s'"
proof (rule lock_inv_update [OF inv lev s'])
  have h: "holds s' j = holds s j" for j using assms by (auto simp: holds_def)
  have "sys_flag s \<noteq> 0 \<longleftrightarrow> (\<exists>j. holds s j)" using inv by (simp add: lock_inv_def)
  then show "if f = 0 then False else holds s j \<or> (sys_flag s = 0 \<and> j = i)" if "holds s' j" for j
    using that h f by auto
  show "\<exists>j. holds s' j" if "f \<noteq> 0" using that h f \<open>sys_flag s \<noteq> 0 \<longleftrightarrow> _\<close> by auto
qed

lemma lock_inv_step:
  assumes "lock_step s i s'" and inv: "lock_inv s0 s" and low: "irql_of s0 i \<le> IRQL_DISPATCH"
  shows "lock_inv s0 s'"
  using assms(1)
proof cases
  case (raise old new)
  then show ?thesis using lock_inv_level [OF inv raise(2)]
    by (intro lock_inv_move [OF inv, of i "Spinning old" new _ "sys_flag s"])
      (auto simp: level_ok_def irql_raise_eq holds_def split: if_splits)
next
  case (raise_panic e)
  then show ?thesis using lock_inv_level [OF inv raise_panic(2)] low
    by (auto simp: level_ok_def irql_raise_eq split: if_splits)
next
  case (load_clear old)
  then show ?thesis using lock_inv_level [OF inv load_clear(2)]
    by (intro lock_inv_move [OF inv, of i "Exchanging old" "irql_of s i" _ "sys_flag s"])
      (auto simp: level_ok_def holds_def)
next
  case (exchange_won old)
  then show ?thesis using lock_inv_level [OF inv exchange_won(2)]
    by (intro lock_inv_update [OF inv, of i "Holding old" "irql_of s i" _ 1])
      (auto simp: level_ok_def holds_def split: if_splits)
next
  case (exchange_lost old)
  then show ?thesis using lock_inv_level [OF inv exchange_lost(2)]
    by (intro lock_inv_move [OF inv, of i "Spinning old" "irql_of s i" _ 1])
      (auto simp: level_ok_def holds_def)
next
  case (store_release old)
  then show ?thesis using lock_inv_level [OF inv store_release(2)] lock_inv_owner [OF inv store_release(2)]
    by (intro lock_inv_update [OF inv, of i "Releasing old" "irql_of s i" _ 0])
      (auto simp: level_ok_def holds_def split: if_splits)
next
  case (lower old cur new)
  then show ?thesis using lock_inv_level [OF inv lower(2)]
    by (intro lock_inv_move [OF inv, of i Outside new _ "sys_flag s"])
      (auto simp: level_ok_def irql_lower_eq holds_def split: if_splits)
next
  case (lower_panic old e)
  then show ?thesis using lock_inv_level [OF inv lower_panic(2)] low
    by (auto simp: level_ok_def irql_lower_eq split: if_splits)
qed (use inv in simp)

lemma lock_reach_inv: "lock_reach s0 s \<Longrightarrow> lock_start s0 \<Longrightarrow> lock_inv s0 s"
proof (induction rule: lock_reach.induct)
  case start then show ?case by (rule lock_inv_start)
next
  case (more s i s')
  then show ?case using lock_inv_step by (auto simp: lock_start_def)
qed

text \<open>
  C12: Any number of processors, taking the steps of \<open>spinlock_lock\<close> and \<open>spinlock_unlock\<close> in any
  order, never are two in the critical section; the one inside runs at \<open>IRQL_DISPATCH\<close>; no
  level change panics; and a processor outside is at the level it came with.
\<close>

theorem spinlock_mutual_exclusion:
  assumes "lock_start s0" and "lock_reach s0 s"
  shows "(\<forall>i j old old'. pc_of s i = Holding old \<and> pc_of s j = Holding old' \<longrightarrow> i = j)
    \<and> (\<forall>i old. pc_of s i = Holding old \<longrightarrow> irql_of s i = IRQL_DISPATCH)
    \<and> (\<forall>i. pc_of s i \<noteq> Panicked) \<and> (\<forall>i. pc_of s i = Outside \<longrightarrow> irql_of s i = irql_of s0 i)"
proof -
  note inv = lock_reach_inv [OF assms(2,1), unfolded lock_inv_def]
  have lev: "level_ok (irql_of s0 i) (pc_of s i) (irql_of s i)" for i using inv by simp
  have "pc_of s i = Holding old \<Longrightarrow> irql_of s i = IRQL_DISPATCH" for i old
    using lev [of i] by (simp add: level_ok_def)
  moreover have "pc_of s i \<noteq> Panicked" for i using lev [of i] by (auto simp: level_ok_def)
  moreover have "pc_of s i = Outside \<Longrightarrow> irql_of s i = irql_of s0 i" for i
    using lev [of i] by (simp add: level_ok_def)
  moreover have "pc_of s i = Holding old \<Longrightarrow> pc_of s j = Holding old' \<Longrightarrow> i = j" for i j old old'
    using inv unfolding holds_def by blast
  ultimately show ?thesis by blast
qed

text \<open>Two processors, the first inside the critical section, the second spinning.\<close>

definition demo_lock :: lock_sys where
  "demo_lock = \<lparr>sys_flag = 0, pc_of = (\<lambda>_. Outside), irql_of = (\<lambda>_. 0)\<rparr>"

theorem spinlock_mutual_exclusion_witness:
  "\<exists>s. lock_start demo_lock \<and> lock_reach demo_lock s \<and> pc_of s 0 = Holding 0 \<and> pc_of s 1 = Spinning 0
     \<and> irql_of s 0 = IRQL_DISPATCH"
proof -
  let ?s1 = "demo_lock\<lparr>pc_of := (pc_of demo_lock)(0 := Spinning 0), irql_of := (irql_of demo_lock)(0 := 2)\<rparr>"
  let ?s2 = "?s1\<lparr>pc_of := (pc_of ?s1)(0 := Exchanging 0)\<rparr>"
  let ?s3 = "?s2\<lparr>sys_flag := 1, pc_of := (pc_of ?s2)(0 := Holding 0)\<rparr>"
  let ?s4 = "?s3\<lparr>pc_of := (pc_of ?s3)(1 := Spinning 0), irql_of := (irql_of ?s3)(1 := 2)\<rparr>"
  have st: "lock_start demo_lock" by (simp add: lock_start_def demo_lock_def IRQL_DISPATCH_def)
  have 1: "lock_reach demo_lock ?s1"
    by (rule lock_reach.more [OF lock_reach.start], rule lock_step.raise)
      (simp_all add: demo_lock_def irql_raise_eq IRQL_DISPATCH_def)
  have 2: "lock_reach demo_lock ?s2"
    by (rule lock_reach.more [OF 1], rule lock_step.load_clear) (simp_all add: demo_lock_def)
  have 3: "lock_reach demo_lock ?s3"
    by (rule lock_reach.more [OF 2], rule lock_step.exchange_won) (simp_all add: demo_lock_def)
  have 4: "lock_reach demo_lock ?s4"
    by (rule lock_reach.more [OF 3], rule lock_step.raise)
      (simp_all add: demo_lock_def irql_raise_eq IRQL_DISPATCH_def)
  have "pc_of ?s4 0 = Holding 0" "pc_of ?s4 1 = Spinning 0" by simp_all
  then show ?thesis using st 4 spinlock_mutual_exclusion [OF st 4] by blast
qed

end
