(* ===== verification/Scheduler.thy ===== *)
theory Scheduler
  imports Libc_Stdlib Spinlock
begin

text \<open>
  The scheduler (\<open>scheduler/scheduler.c\<close>), the context switch it ends in
  (\<open>scheduler/switch.asm\<close>) and the reaper worker (\<open>scheduler/workers/reaper.c\<close>). Thread
  structures are kept in a store indexed by their address, so that the circular run list and
  the reap list are linked through \<open>next_thread\<close> as in the code; the store is an instance
  of the cell contract \<open>cell_memory\<close>, whose chains describe both lists. \<open>malloc\<close> and \<open>free\<close>
  are those of the kernel heap; the words on kernel stacks are kept by virtual address in
  \<open>kstack\<close>.
\<close>

section \<open>State\<close>

definition THREAD_STATE_RUNNING :: u64 where "THREAD_STATE_RUNNING = 0"
definition THREAD_STATE_REAPING :: u64 where "THREAD_STATE_REAPING = 1"
definition THREAD_STATE_ZOMBIE :: u64 where "THREAD_STATE_ZOMBIE = 2"

text \<open>
  A file descriptor. The name is written once, when the file is opened: the model keeps the
  string beside its pointer. The data are bytes of the kernel's memory.
\<close>

record fd =
  file_name :: "u64 \<times> u8 list"
  file_data :: u64
  seek_pos :: u64

definition fd_null :: fd where
  "fd_null = \<lparr>file_name = (0, []), file_data = 0, seek_pos = 0\<rparr>"

record thread =
  threadId :: u64
  stack :: u64
  stack_top :: u64
  krsp :: u64
  ursp :: u64
  th_pagemap :: u64
  heap_pos :: u64
  next_fd :: int
  fds_ptr :: u64
  fds :: "fd list"
  is_user_task :: bool
  sleep_awake_time :: u64
  thread_state :: u64
  next_thread :: u64
  fsbase :: u64
  fpu_state :: "u8 list"

text \<open>The structure after \<open>memset(new_thread, 0, sizeof(struct thread))\<close>.\<close>

definition thread_zero :: thread where
  "thread_zero = \<lparr>threadId = 0, stack = 0, stack_top = 0, krsp = 0, ursp = 0, th_pagemap = 0,
     heap_pos = 0, next_fd = 0, fds_ptr = 0, fds = [], is_user_task = False, sleep_awake_time = 0,
     thread_state = 0, next_thread = 0, fsbase = 0, fpu_state = replicate 512 0\<rparr>"

record args_t =
  arg1 :: u64
  arg2 :: u64
  arg3 :: u64
  arg4 :: u64
  arg5 :: u64
  arg6 :: u64

text \<open>The registers a context switch and the start of a thread touch.\<close>

record cpu_regs =
  r_rbx :: u64
  r_rbp :: u64
  r_r12 :: u64
  r_r13 :: u64
  r_r14 :: u64
  r_r15 :: u64
  r_rdi :: u64
  r_rsi :: u64
  r_rdx :: u64
  r_rcx :: u64
  r_r8 :: u64
  r_r9 :: u64
  r_rsp :: u64
  r_rip :: u64

text \<open>
  Link-time addresses: the functions whose address is stored on a new stack and the
  kernel's own page map.
\<close>

record kernel_syms =
  sym_task_quit :: u64
  sym_trampoline :: u64
  sym_kernel_pagemap :: u64

record sched =
  syms :: kernel_syms
  threads :: u64
  thr :: "u64 \<Rightarrow> thread"
  next_thread_id :: u32
  current_thread :: u64
  threads_to_reap :: u64
  scheduler_spinlock :: spinlock_t
  reaper_spinlock :: spinlock_t
  cr8 :: int
  cr3 :: u64
  tss_rsp0 :: u64
  fred_enbled :: bool
  msr_fred_rsp0 :: u64
  msr_fsbas :: u64
  fpu_regs :: "u8 list"
  dbgstub_enabled :: bool
  dbgstub_paused :: bool
  regs :: cpu_regs
  kstack :: mem
  km :: kmemory
  pmaps :: "u64 \<Rightarrow> pagemap"

definition upd_thread :: "u64 \<Rightarrow> (thread \<Rightarrow> thread) \<Rightarrow> sched \<Rightarrow> sched" where
  "upd_thread p f s = s\<lparr>thr := (thr s)(p := f (thr s p))\<rparr>"

definition pagemap_at :: "sched \<Rightarrow> u64 \<Rightarrow> pagemap" where
  "pagemap_at s p = (if p = sym_kernel_pagemap (syms s) then kernel_pagemap (km s) else pmaps s p)"

text \<open>Taking and releasing the two locks of the scheduler.\<close>

definition lock_scheduler :: "sched \<Rightarrow> (int \<times> sched) kres option" where
  "lock_scheduler s =
     kobind (spinlock_lock (scheduler_spinlock s) (cr8 s)) (\<lambda>(irqs, l, c).
       Some (Inr (irqs, s\<lparr>scheduler_spinlock := l, cr8 := c\<rparr>)))"

definition unlock_scheduler :: "int \<Rightarrow> sched \<Rightarrow> sched kres" where
  "unlock_scheduler irqs s =
     kbind (spinlock_unlock (scheduler_spinlock s) irqs (cr8 s)) (\<lambda>(l, c).
       Inr (s\<lparr>scheduler_spinlock := l, cr8 := c\<rparr>))"

definition lock_reaper :: "sched \<Rightarrow> (int \<times> sched) kres option" where
  "lock_reaper s =
     kobind (spinlock_lock (reaper_spinlock s) (cr8 s)) (\<lambda>(irqs, l, c).
       Some (Inr (irqs, s\<lparr>reaper_spinlock := l, cr8 := c\<rparr>)))"

definition unlock_reaper :: "int \<Rightarrow> sched \<Rightarrow> sched kres" where
  "unlock_reaper irqs s =
     kbind (spinlock_unlock (reaper_spinlock s) irqs (cr8 s)) (\<lambda>(l, c).
       Inr (s\<lparr>reaper_spinlock := l, cr8 := c\<rparr>))"

section \<open>Creating a thread\<close>

definition STACK_SIZE :: u64 where "STACK_SIZE = 65536"

text \<open>\<open>sizeof(struct thread)\<close> and \<open>256 * sizeof(struct fd)\<close> on x86-64.\<close>

definition sizeof_thread :: u64 where "sizeof_thread = 624"
definition sizeof_fds :: u64 where "sizeof_fds = 6144"

text \<open>\<open>*--stack = v\<close> on a stack pointer.\<close>

fun push_words :: "u64 \<Rightarrow> u64 list \<Rightarrow> mem \<Rightarrow> u64 \<times> mem" where
  "push_words sp [] m = (sp, m)"
| "push_words sp (v # vs) m = push_words (sp - 8) vs (write64 m (sp - 8) v)"

definition initial_stack :: "kernel_syms \<Rightarrow> u64 \<Rightarrow> args_t \<Rightarrow> u64 list" where
  "initial_stack y entry_point args =
     [0, sym_task_quit y, if entry_point = 0 then sym_task_quit y else entry_point, sym_trampoline y,
      arg1 args, arg2 args, arg3 args, arg4 args, arg5 args, arg6 args]"

text \<open>
  The last part of \<open>create_thread\<close>: linking the new structure behind the current one. Whether
  the list was empty was read before the allocations.
\<close>

definition link_thread :: "bool \<Rightarrow> u64 \<Rightarrow> sched \<Rightarrow> sched kres option" where
  "link_thread had_threads new s =
     kobind (lock_scheduler s) (\<lambda>(lock1r, s1).
       let s2 = (if \<not> had_threads
                 then upd_thread new (next_thread_update (\<lambda>_. new)) (s1\<lparr>threads := new\<rparr>)
                 else (let s1a = upd_thread new (next_thread_update (\<lambda>_. next_thread (thr s1 (threads s1)))) s1
                       in upd_thread (threads s1a) (next_thread_update (\<lambda>_. new)) s1a))
       in Some (unlock_scheduler lock1r s2))"

definition create_thread :: "u64 \<Rightarrow> u64 \<Rightarrow> args_t \<Rightarrow> sched \<Rightarrow> sched kres option" where
  "create_thread entry_point pagemap args s =
     (let had_threads = (threads s \<noteq> 0)
      in kobind (malloc sizeof_thread (km s)) (\<lambda>(new, k1).
         kobind (malloc sizeof_fds k1) (\<lambda>(fdsp, k2).
         kobind (malloc STACK_SIZE k2) (\<lambda>(stk, k3).
         let top = (stk + STACK_SIZE) AND NOT 0xF3;
             (sp, m1) = push_words top (initial_stack (syms s) entry_point args)
                          (fill_bytes (kstack s) stk 0 (unat STACK_SIZE));
             t = thread_zero\<lparr>next_fd := 11, fds_ptr := fdsp, fds := replicate 256 fd_null,
                   heap_pos := 0xB0000000, stack := stk, stack_top := top,
                   threadId := scast (next_thread_id s),
                   th_pagemap := (if pagemap \<noteq> 0 then pagemap else sym_kernel_pagemap (syms s)),
                   is_user_task := (pagemap \<noteq> 0), krsp := sp\<rparr>
         in link_thread had_threads new
              (s\<lparr>km := k3, kstack := m1, next_thread_id := next_thread_id s + 1,
                 thr := (thr s)(new := t)\<rparr>)))))"

section \<open>Switching\<close>

definition vmm_switch_to :: "u64 \<Rightarrow> sched \<Rightarrow> sched" where
  "vmm_switch_to pm s = s\<lparr>cr3 := top_level (pagemap_at s pm) - hhdmOffset (hpmm (kheap (km s)))\<rparr>"

text \<open>
  The assembly of \<open>thread_switch\<close>: the call pushed the return address (\<open>r_rip\<close> is where the
  caller continues); six registers are pushed, the stack pointer is stored through \<open>old_sp\<close>
  and replaced, the lock is released on the new stack, and the registers and the return
  address are popped.
\<close>

definition thread_switch :: "int \<Rightarrow> u64 \<Rightarrow> u64 \<Rightarrow> sched \<Rightarrow> sched kres" where
  "thread_switch irqs prev new_sp s =
     (let g = regs s;
          (sp, m1) = push_words (r_rsp g) [r_rip g, r_rbx g, r_rbp g, r_r12 g, r_r13 g, r_r14 g, r_r15 g] (kstack s);
          s1 = upd_thread prev (krsp_update (\<lambda>_. sp)) (s\<lparr>kstack := m1\<rparr>)
      in kbind (spinlock_unlock_nil (scheduler_spinlock s1) irqs (cr8 s1)) (\<lambda>(l, c).
           Inr (s1\<lparr>scheduler_spinlock := l, cr8 := c,
                   regs := g\<lparr>r_r15 := read64 m1 new_sp, r_r14 := read64 m1 (new_sp + 8),
                             r_r13 := read64 m1 (new_sp + 16), r_r12 := read64 m1 (new_sp + 24),
                             r_rbp := read64 m1 (new_sp + 32), r_rbx := read64 m1 (new_sp + 40),
                             r_rip := read64 m1 (new_sp + 48), r_rsp := new_sp + 56\<rparr>\<rparr>)))"

text \<open>The first instructions of a new thread.\<close>

definition thread_init_trampoline :: "mem \<Rightarrow> cpu_regs \<Rightarrow> cpu_regs" where
  "thread_init_trampoline m g =
     g\<lparr>r_rdi := r_rbx g, r_rsi := r_rbp g, r_rdx := r_r12 g, r_rcx := r_r13 g, r_r8 := r_r14 g,
       r_r9 := r_r15 g, r_rip := read64 m (r_rsp g), r_rsp := r_rsp g + 8\<rparr>"

text \<open>
  The two loops of \<open>schedule\<close>. The timer is read anew for every thread examined: \<open>clk n\<close> is
  the \<open>n\<close>-th reading.
\<close>

partial_function (option) skip_sleepers :: "(u64 \<Rightarrow> thread) \<Rightarrow> (nat \<Rightarrow> u64) \<Rightarrow> nat \<Rightarrow> u64 \<Rightarrow> u64 option" where
  "skip_sleepers st clk n t =
     (if sleep_awake_time (st t) > clk n then skip_sleepers st clk (Suc n) (next_thread (st t))
      else Some t)"

definition unlink_reaping :: "u64 \<Rightarrow> sched \<Rightarrow> sched" where
  "unlink_reaping prev s =
     (let to_reap = threads s;
          s1 = upd_thread prev (next_thread_update (\<lambda>_. next_thread (thr s to_reap))) s;
          s2 = s1\<lparr>threads := next_thread (thr s1 to_reap)\<rparr>;
          s3 = upd_thread to_reap (next_thread_update (\<lambda>_. 0)) s2
      in if threads_to_reap s3 = 0 then s3\<lparr>threads_to_reap := to_reap\<rparr>
         else (upd_thread to_reap (next_thread_update (\<lambda>_. threads_to_reap s3)) s3)\<lparr>threads_to_reap := to_reap\<rparr>)"

partial_function (option) reap_loop :: "u64 \<Rightarrow> sched \<Rightarrow> sched kres option" where
  "reap_loop prev s =
     (if thread_state (thr s (threads s)) = THREAD_STATE_REAPING
      then kobind (lock_reaper s) (\<lambda>x. case x of (lock2r, s1) \<Rightarrow>
             kobind (Some (unlock_reaper lock2r (unlink_reaping prev s1))) (\<lambda>s2. reap_loop prev s2))
      else Some (Inr s))"

text \<open>What follows the choice of the next thread, up to and including the switch.\<close>

definition switch_context :: "int \<Rightarrow> u64 \<Rightarrow> u64 \<Rightarrow> sched \<Rightarrow> sched kres" where
  "switch_context lock1r prev next s =
     (let s1 = vmm_switch_to (th_pagemap (thr s next)) s;
          s2 = (if fred_enbled s1 then s1\<lparr>msr_fred_rsp0 := stack_top (thr s1 next)\<rparr> else s1);
          s3 = s2\<lparr>tss_rsp0 := stack_top (thr s2 next)\<rparr>;
          s4 = (if is_user_task (thr s3 prev)
                then upd_thread prev (\<lambda>t. t\<lparr>fpu_state := fpu_regs s3, fsbase := msr_fsbas s3\<rparr>) s3 else s3);
          s5 = (if is_user_task (thr s4 next)
                then s4\<lparr>fpu_regs := fpu_state (thr s4 next), msr_fsbas := fsbase (thr s4 next)\<rparr> else s4);
          s6 = s5\<lparr>current_thread := next\<rparr>
      in thread_switch lock1r prev (krsp (thr s6 next)) s6)"

definition schedule :: "(nat \<Rightarrow> u64) \<Rightarrow> sched \<Rightarrow> sched kres option" where
  "schedule clk s =
     (if dbgstub_enabled s \<and> dbgstub_paused s then Some (Inr s)
      else kobind (lock_scheduler s) (\<lambda>(_, s1).
        let lock1r = 0;
            previous_thread = threads s1
        in case skip_sleepers (thr s1) clk 0 (next_thread (thr s1 previous_thread)) of
             None \<Rightarrow> None
           | Some t \<Rightarrow>
               kobind (reap_loop previous_thread (s1\<lparr>threads := t\<rparr>)) (\<lambda>s2.
                 if threads s2 = previous_thread then Some (unlock_scheduler lock1r s2)
                 else Some (switch_context lock1r previous_thread (threads s2) s2))))"

definition get_current_thread :: "sched \<Rightarrow> (u64 \<times> sched) kres option" where
  "get_current_thread s =
     kobind (lock_scheduler s) (\<lambda>(lock1r, s1).
       let tmp = threads s1
       in Some (kbind (unlock_scheduler lock1r s1) (\<lambda>s2. Inr (tmp, s2))))"

text \<open>\<open>task_quit\<close> marks the running thread; its endless loop then only calls \<open>schedule\<close>.\<close>

definition task_quit_mark :: "sched \<Rightarrow> sched kres option" where
  "task_quit_mark s =
     kobind (get_current_thread s) (\<lambda>(t, s1).
       Some (Inr (upd_thread t (thread_state_update (\<lambda>_. THREAD_STATE_REAPING)) s1)))"

section \<open>The reaper\<close>

definition get_next_thread_to_reap :: "sched \<Rightarrow> (u64 \<times> sched) kres option" where
  "get_next_thread_to_reap s =
     kobind (lock_reaper s) (\<lambda>(lock1r, s1).
       if threads_to_reap s1 = 0 then Some (kbind (unlock_reaper lock1r s1) (\<lambda>s2. Inr (0, s2)))
       else
         (let t = threads_to_reap s1;
              s2 = s1\<lparr>threads_to_reap := next_thread (thr s1 t)\<rparr>;
              s3 = upd_thread t (next_thread_update (\<lambda>_. 0)) s2
          in Some (kbind (unlock_reaper lock1r s3) (\<lambda>s4. Inr (t, s4)))))"

text \<open>\<open>delete_pagemap\<close> through the pointer: it also clears \<open>top_level\<close> and the range trees.\<close>

definition delete_pagemap_at :: "u64 \<Rightarrow> sched \<Rightarrow> sched kres" where
  "delete_pagemap_at p s =
     (if p = 0 \<or> top_level (pagemap_at s p) = 0 then Inr s
      else kbind (delete_pagemap (pagemap_at s p) (hpmm (kheap (km s)))) (\<lambda>f.
        let k1 = set_kpmm f (km s);
            dead = \<lparr>top_level = 0, free_ranges = [], used_ranges = []\<rparr>
        in if p = sym_kernel_pagemap (syms s) then Inr (s\<lparr>km := k1\<lparr>kernel_pagemap := dead\<rparr>\<rparr>)
           else Inr (s\<lparr>km := k1, pmaps := (pmaps s)(p := dead)\<rparr>)))"

text \<open>One round of the loop of \<open>reaper_thread\<close>.\<close>

definition reaper_round :: "(nat \<Rightarrow> u64) \<Rightarrow> sched \<Rightarrow> sched kres option" where
  "reaper_round clk s =
     kobind (get_next_thread_to_reap s) (\<lambda>(t, s1).
       if t \<noteq> 0
       then Some (kbind (delete_pagemap_at (th_pagemap (thr s1 t)) s1) (\<lambda>s2.
              kbind (free (fds_ptr (thr s2 t)) (km s2)) (\<lambda>k3.
              kbind (free (stack (thr s2 t)) k3) (\<lambda>k4.
              kbind (free t k4) (\<lambda>k5. Inr (s2\<lparr>km := k5\<rparr>))))))
       else schedule clk s1)"

section \<open>The run list as a chain of cells\<close>

text \<open>
  The \<open>next_thread\<close> links of the store obey the laws of cells; the run list is a chain that
  comes back to its start, the reap list one that ends in the null pointer.
\<close>

interpretation tc: cell_memory "\<lambda>st p. next_thread (st p)" "\<lambda>st p v. st(p := (st p)\<lparr>next_thread := v\<rparr>)" "\<lambda>_. True"
  by unfold_locales simp_all

definition run_ring :: "sched \<Rightarrow> u64 list \<Rightarrow> bool" where
  "run_ring s ts \<longleftrightarrow> ts \<noteq> [] \<and> distinct ts \<and> tc.chain (thr s) (threads s) ts (hd ts)"

definition reap_list :: "sched \<Rightarrow> u64 list \<Rightarrow> bool" where
  "reap_list s zs \<longleftrightarrow> tc.chain (thr s) (threads_to_reap s) zs 0"

text \<open>The thread may call the scheduler: locks free, level low enough, not stopped by the debugger.\<close>

definition can_schedule :: "sched \<Rightarrow> bool" where
  "can_schedule s \<longleftrightarrow> lock_flag (scheduler_spinlock s) = 0 \<and> lock_flag (reaper_spinlock s) = 0
     \<and> cr8 s \<le> 2 \<and> \<not> (dbgstub_enabled s \<and> dbgstub_paused s)"

lemma chain_nonzero: "tc.chain st p xs q \<Longrightarrow> x \<in> set xs \<Longrightarrow> x \<noteq> 0"
  by (induction xs arbitrary: p) auto

lemma chain_hd: "tc.chain st p xs q \<Longrightarrow> p = (if xs = [] then q else hd xs)"
  by (cases xs) auto

text \<open>In a chain each element's link is the next one.\<close>

lemma chain_link: "tc.chain st p (xs @ a # b # ys) q \<Longrightarrow> next_thread (st a) = b"
  by (auto simp: tc.chain_append)

lemma chain_link_last: "tc.chain st p (xs @ [a]) q \<Longrightarrow> next_thread (st a) = q"
  by (auto simp: tc.chain_append)

lemma skip_sleepers_finds:
  assumes "tc.chain st p ss t" and "\<And>i. i < length ss \<Longrightarrow> clk (n + i) < sleep_awake_time (st (ss ! i))"
    and "sleep_awake_time (st t) \<le> clk (n + length ss)"
  shows "skip_sleepers st clk n p = Some t"
  using assms
proof (induction ss arbitrary: p n)
  case Nil
  then show ?case by (subst skip_sleepers.simps) auto
next
  case (Cons a ss)
  have "skip_sleepers st clk (Suc n) (next_thread (st a)) = Some t"
    using Cons.IH [of "next_thread (st a)" "Suc n"] Cons.prems(1,3) Cons.prems(2) [of "Suc i" for i] by simp
  then show ?case using Cons.prems(1) Cons.prems(2) [of 0] by (subst skip_sleepers.simps) simp
qed

text \<open>Only links change.\<close>

definition same_but_links :: "(u64 \<Rightarrow> thread) \<Rightarrow> (u64 \<Rightarrow> thread) \<Rightarrow> bool" where
  "same_but_links st st' \<longleftrightarrow> (\<forall>p. (st' p)\<lparr>next_thread := 0\<rparr> = (st p)\<lparr>next_thread := 0\<rparr>)"

lemma same_but_linksD:
  assumes "same_but_links st st'"
  shows "thread_state (st' p) = thread_state (st p)" "sleep_awake_time (st' p) = sleep_awake_time (st p)"
    "th_pagemap (st' p) = th_pagemap (st p)" "stack_top (st' p) = stack_top (st p)"
    "krsp (st' p) = krsp (st p)" "is_user_task (st' p) = is_user_task (st p)"
    "fsbase (st' p) = fsbase (st p)" "fpu_state (st' p) = fpu_state (st p)" "threadId (st' p) = threadId (st p)"
proof -
  have "(st' p)\<lparr>next_thread := 0\<rparr> = (st p)\<lparr>next_thread := 0\<rparr>" using assms by (simp add: same_but_links_def)
  then show "thread_state (st' p) = thread_state (st p)" "sleep_awake_time (st' p) = sleep_awake_time (st p)"
    "th_pagemap (st' p) = th_pagemap (st p)" "stack_top (st' p) = stack_top (st p)"
    "krsp (st' p) = krsp (st p)" "is_user_task (st' p) = is_user_task (st p)"
    "fsbase (st' p) = fsbase (st p)" "fpu_state (st' p) = fpu_state (st p)" "threadId (st' p) = threadId (st p)"
    by (metis thread.surjective thread.update_convs(14) thread.ext_inject)+
qed

lemma reaper_lock_round:
  assumes "lock_flag (reaper_spinlock s) = 0" and "cr8 s = 2"
  shows "lock_reaper s = Some (Inr (2, s\<lparr>reaper_spinlock := (reaper_spinlock s)\<lparr>lock_flag := 1\<rparr>\<rparr>))"
    and "unlock_reaper 2 (s\<lparr>reaper_spinlock := l\<lparr>lock_flag := 1\<rparr>\<rparr>) = Inr (s\<lparr>reaper_spinlock := l\<lparr>lock_flag := 0\<rparr>\<rparr>)"
  using assms by (simp_all add: lock_reaper_def unlock_reaper_def spinlock_lock_free spinlock_unlock_ok)

text \<open>One round of the reap loop as an update of the links.\<close>

lemma unlink_reaping_eq:
  assumes "prev \<noteq> threads s"
  shows "unlink_reaping prev s =
    s\<lparr>threads := next_thread (thr s (threads s)), threads_to_reap := threads s,
      thr := (thr s)(prev := (thr s prev)\<lparr>next_thread := next_thread (thr s (threads s))\<rparr>,
                     threads s := (thr s (threads s))\<lparr>next_thread := threads_to_reap s\<rparr>)\<rparr>"
  using assms by (auto simp: unlink_reaping_def upd_thread_def Let_def)

lemma reap_loop_done:
  "thread_state (thr s (threads s)) \<noteq> THREAD_STATE_REAPING \<Longrightarrow> reap_loop prev s = Some (Inr s)"
  by (subst reap_loop.simps) simp

lemma reap_loop_step:
  assumes "thread_state (thr s (threads s)) = THREAD_STATE_REAPING" and "prev \<noteq> threads s"
    and "lock_flag (reaper_spinlock s) = 0" and "cr8 s = 2"
  shows "reap_loop prev s = reap_loop prev (unlink_reaping prev s)"
proof -
  let ?l = "reaper_spinlock s"
  have u: "unlink_reaping prev (s\<lparr>reaper_spinlock := l\<rparr>) = (unlink_reaping prev s)\<lparr>reaper_spinlock := l\<rparr>" for l
    using assms(2) by (simp add: unlink_reaping_eq)
  have "unlock_reaper 2 ((unlink_reaping prev s)\<lparr>reaper_spinlock := ?l\<lparr>lock_flag := 1\<rparr>\<rparr>)
      = Inr ((unlink_reaping prev s)\<lparr>reaper_spinlock := ?l\<lparr>lock_flag := 0\<rparr>\<rparr>)"
    using assms by (intro reaper_lock_round(2)) (simp_all add: unlink_reaping_eq)
  moreover have "(unlink_reaping prev s)\<lparr>reaper_spinlock := ?l\<lparr>lock_flag := 0\<rparr>\<rparr> = unlink_reaping prev s"
    using assms(2,3) by (simp add: unlink_reaping_eq)
  ultimately show ?thesis
    using assms(1) reaper_lock_round(1) [OF assms(3,4)] u by (subst reap_loop.simps) simp
qed

lemma reap_loop_run:
  assumes "tc.chain (thr s) (threads s) rs n" and "distinct rs" and "prev \<notin> set rs"
    and "\<And>r. r \<in> set rs \<Longrightarrow> thread_state (thr s r) = THREAD_STATE_REAPING"
    and "thread_state (thr s n) \<noteq> THREAD_STATE_REAPING"
    and "reap_list s zs" and "set zs \<inter> insert prev (set rs) = {}"
    and "lock_flag (reaper_spinlock s) = 0" and "cr8 s = 2"
  shows "\<exists>st z. reap_loop prev s = Some (Inr (s\<lparr>threads := n, thr := st, threads_to_reap := z\<rparr>))
    \<and> same_but_links (thr s) st \<and> (\<forall>p. p \<notin> insert prev (set rs) \<longrightarrow> st p = thr s p)
    \<and> tc.chain st z (rev rs @ zs) 0
    \<and> next_thread (st prev) = (if rs = [] then next_thread (thr s prev) else n)"
  using assms
proof (induction rs arbitrary: s zs)
  case Nil
  then show ?case
    by (intro exI [of _ "thr s"] exI [of _ "threads_to_reap s"])
      (simp add: reap_loop_done reap_list_def same_but_links_def)
next
  case (Cons r rs)
  let ?s = "unlink_reaping prev s"
  from Cons.prems have r: "threads s = r" "r \<noteq> 0" "r \<noteq> prev" "r \<notin> set rs" by auto
  note eq = unlink_reaping_eq [of prev s, unfolded r(1), OF r(3) [symmetric]]
  have thr: "thr ?s p = (thr s p)\<lparr>next_thread := (if p = r then threads_to_reap s
      else if p = prev then next_thread (thr s r) else next_thread (thr s p))\<rparr>" for p
    using r(3) by (simp add: eq)
  have "tc.chain (thr ?s) (threads ?s) rs n \<longleftrightarrow> tc.chain (thr s) (next_thread (thr s r)) rs n"
    using r Cons.prems(3) by (simp add: eq) (rule tc.chain_cong, auto)
  then have ch: "tc.chain (thr ?s) (threads ?s) rs n" using Cons.prems(1) by simp
  have "tc.chain (thr ?s) (threads_to_reap s) zs 0"
    using Cons.prems(6,7) by (subst tc.chain_cong [where m = "thr s"]) (auto simp: thr reap_list_def)
  then have rl: "reap_list ?s (r # zs)" using r by (simp add: reap_list_def thr) (simp add: eq)
  have links: "same_but_links (thr s) (thr ?s)" by (simp add: same_but_links_def thr)
  have step: "reap_loop prev s = reap_loop prev ?s"
    using Cons.prems r by (intro reap_loop_step) auto
  from Cons.IH [OF ch _ _ _ _ rl] obtain st z where
    st: "reap_loop prev ?s = Some (Inr (?s\<lparr>threads := n, thr := st, threads_to_reap := z\<rparr>))"
      "same_but_links (thr ?s) st" "\<forall>p. p \<notin> insert prev (set rs) \<longrightarrow> st p = thr ?s p"
      "tc.chain st z (rev rs @ r # zs) 0"
      "next_thread (st prev) = (if rs = [] then next_thread (thr ?s prev) else n)"
    using Cons.prems r by (auto simp: same_but_linksD [OF links]) (auto simp: eq)
  have "rs = [] \<Longrightarrow> next_thread (thr s r) = n" using Cons.prems(1) by simp
  then have last: "next_thread (st prev) = n" using st(5) r(3) by (simp add: thr)
  have "same_but_links (thr s) st" using st(2) links by (simp add: same_but_links_def)
  moreover have "?s\<lparr>threads := n, thr := st, threads_to_reap := z\<rparr> = s\<lparr>threads := n, thr := st, threads_to_reap := z\<rparr>"
    by (simp add: eq)
  moreover have "st p = thr s p" if "p \<notin> insert prev (set (r # rs))" for p
    using st(3) that by (simp add: thr)
  ultimately show ?case using step st(1,4) last by auto
qed

lemma thread_switch_ok:
  assumes "irqs \<le> cr8 s"
  shows "\<exists>m g sp. thread_switch irqs prev new_sp s =
    Inr ((upd_thread prev (krsp_update (\<lambda>_. sp)) s)\<lparr>kstack := m, regs := g, cr8 := irqs,
      scheduler_spinlock := (scheduler_spinlock s)\<lparr>lock_flag := 0\<rparr>\<rparr>)"
proof -
  obtain sp m1 where p: "push_words (r_rsp (regs s)) [r_rip (regs s), r_rbx (regs s), r_rbp (regs s),
      r_r12 (regs s), r_r13 (regs s), r_r14 (regs s), r_r15 (regs s)] (kstack s) = (sp, m1)" by fastforce
  show ?thesis
    using assms unfolding thread_switch_def Let_def p
    by (intro exI [of _ m1] exI [of _ "(regs s)\<lparr>r_r15 := read64 m1 new_sp, r_r14 := read64 m1 (new_sp + 8),
        r_r13 := read64 m1 (new_sp + 16), r_r12 := read64 m1 (new_sp + 24), r_rbp := read64 m1 (new_sp + 32),
        r_rbx := read64 m1 (new_sp + 40), r_rip := read64 m1 (new_sp + 48), r_rsp := new_sp + 56\<rparr>"] exI [of _ sp])
      (simp add: upd_thread_def spinlock_unlock_ok)
qed

text \<open>What a switch leaves alone and what it installs.\<close>

lemma switch_context_ok:
  assumes "cr8 s = 2" and "prev \<noteq> next"
  shows "\<exists>s'. switch_context 0 prev next s = Inr s' \<and> threads s' = threads s
    \<and> current_thread s' = next \<and> cr8 s' = 0 \<and> lock_flag (scheduler_spinlock s') = 0
    \<and> reaper_spinlock s' = reaper_spinlock s \<and> threads_to_reap s' = threads_to_reap s
    \<and> dbgstub_enabled s' = dbgstub_enabled s \<and> dbgstub_paused s' = dbgstub_paused s
    \<and> (\<forall>p. next_thread (thr s' p) = next_thread (thr s p) \<and> thread_state (thr s' p) = thread_state (thr s p)
          \<and> sleep_awake_time (thr s' p) = sleep_awake_time (thr s p))
    \<and> cr3 s' = top_level (pagemap_at s (th_pagemap (thr s next))) - hhdmOffset (hpmm (kheap (km s)))
    \<and> tss_rsp0 s' = stack_top (thr s next)
    \<and> (is_user_task (thr s next) \<longrightarrow> msr_fsbas s' = fsbase (thr s next) \<and> fpu_regs s' = fpu_state (thr s next))
    \<and> (is_user_task (thr s prev) \<longrightarrow> fsbase (thr s' prev) = msr_fsbas s \<and> fpu_state (thr s' prev) = fpu_regs s)"
proof -
  define s1 where "s1 = vmm_switch_to (th_pagemap (thr s next)) s"
  define s2 where "s2 = (if fred_enbled s1 then s1\<lparr>msr_fred_rsp0 := stack_top (thr s1 next)\<rparr> else s1)"
  define s3 where "s3 = s2\<lparr>tss_rsp0 := stack_top (thr s2 next)\<rparr>"
  define s4 where "s4 = (if is_user_task (thr s3 prev)
                then upd_thread prev (\<lambda>t. t\<lparr>fpu_state := fpu_regs s3, fsbase := msr_fsbas s3\<rparr>) s3 else s3)"
  define s5 where "s5 = (if is_user_task (thr s4 next)
                then s4\<lparr>fpu_regs := fpu_state (thr s4 next), msr_fsbas := fsbase (thr s4 next)\<rparr> else s4)"
  define s6 where "s6 = s5\<lparr>current_thread := next\<rparr>"
  note defs = s1_def s2_def s3_def s4_def s5_def s6_def
  have "0 \<le> cr8 s6" using assms by (simp add: defs vmm_switch_to_def upd_thread_def)
  from thread_switch_ok [OF this, of prev "krsp (thr s6 next)"] obtain m g sp where
    t: "switch_context 0 prev next s = Inr ((upd_thread prev (krsp_update (\<lambda>_. sp)) s6)\<lparr>kstack := m, regs := g, cr8 := 0,
      scheduler_spinlock := (scheduler_spinlock s6)\<lparr>lock_flag := 0\<rparr>\<rparr>)"
    unfolding switch_context_def Let_def defs by blast
  show ?thesis unfolding t using assms(2)
    by (auto simp: defs vmm_switch_to_def upd_thread_def)
qed

lemma lock_scheduler_free:
  "can_schedule s \<Longrightarrow> lock_scheduler s =
     Some (Inr (cr8 s, s\<lparr>scheduler_spinlock := (scheduler_spinlock s)\<lparr>lock_flag := 1\<rparr>, cr8 := 2\<rparr>))"
  by (simp add: can_schedule_def lock_scheduler_def spinlock_lock_free)

text \<open>
  The whole of \<open>schedule\<close>: the sleepers \<open>ss\<close> behind the running thread \<open>t0\<close> are passed over, the
  finished threads \<open>rs\<close> that follow are moved to the reap list, and \<open>n\<close> is switched to.
\<close>

lemma schedule_run:
  assumes can: "can_schedule s" and ring: "run_ring s (t0 # ss @ rs @ n # ys)"
    and reap: "reap_list s zs" "set zs \<inter> set (t0 # ss @ rs @ n # ys) = {}"
    and asleep: "\<And>i. i < length ss \<Longrightarrow> clk i < sleep_awake_time (thr s (ss ! i))"
    and awake: "sleep_awake_time (thr s (hd (rs @ [n]))) \<le> clk (length ss)"
    and fin: "\<And>r. r \<in> set rs \<Longrightarrow> thread_state (thr s r) = THREAD_STATE_REAPING"
    and n: "thread_state (thr s n) \<noteq> THREAD_STATE_REAPING"
  shows "\<exists>s'. schedule clk s = Some (Inr s') \<and> threads s' = n \<and> current_thread s' = n
    \<and> can_schedule s' \<and> cr8 s' = 0
    \<and> run_ring s' (if rs = [] then n # ys @ t0 # ss else n # ys @ [t0]) \<and> reap_list s' (rev rs @ zs)
    \<and> cr3 s' = top_level (pagemap_at s (th_pagemap (thr s n))) - hhdmOffset (hpmm (kheap (km s)))
    \<and> tss_rsp0 s' = stack_top (thr s n)
    \<and> (\<forall>p. thread_state (thr s' p) = thread_state (thr s p) \<and> sleep_awake_time (thr s' p) = sleep_awake_time (thr s p))"
proof -
  let ?s1 = "s\<lparr>scheduler_spinlock := (scheduler_spinlock s)\<lparr>lock_flag := 1\<rparr>, cr8 := 2\<rparr>"
  have dist: "distinct (t0 # ss @ rs @ n # ys)" and ch: "tc.chain (thr s) t0 (t0 # ss @ rs @ n # ys) t0"
    and t0: "threads s = t0" using ring by (auto simp: run_ring_def)
  let ?h = "hd (rs @ [n])"
  have c1: "tc.chain (thr s) (next_thread (thr s t0)) ss ?h" and c2: "tc.chain (thr s) ?h rs n"
    and c3: "tc.chain (thr s) n (n # ys) t0" and nz: "n \<noteq> 0"
    using ch chain_hd [of "thr s" _ rs n] by (auto simp: tc.chain_append hd_append)
  have sk: "skip_sleepers (thr s) clk 0 (next_thread (thr s t0)) = Some ?h"
    using asleep awake by (intro skip_sleepers_finds [OF c1]) auto
  have "\<exists>st z. reap_loop t0 (?s1\<lparr>threads := ?h\<rparr>) = Some (Inr (?s1\<lparr>threads := ?h\<rparr>\<lparr>threads := n, thr := st, threads_to_reap := z\<rparr>))
    \<and> same_but_links (thr (?s1\<lparr>threads := ?h\<rparr>)) st \<and> (\<forall>p. p \<notin> insert t0 (set rs) \<longrightarrow> st p = thr (?s1\<lparr>threads := ?h\<rparr>) p)
    \<and> tc.chain st z (rev rs @ zs) 0
    \<and> next_thread (st t0) = (if rs = [] then next_thread (thr (?s1\<lparr>threads := ?h\<rparr>) t0) else n)"
    by (rule reap_loop_run) (use c2 dist fin n reap can in \<open>auto simp: reap_list_def can_schedule_def\<close>)
  then obtain st z where st: "reap_loop t0 (?s1\<lparr>threads := ?h\<rparr>) = Some (Inr (?s1\<lparr>threads := n, thr := st, threads_to_reap := z\<rparr>))"
      "same_but_links (thr s) st" "\<forall>p. p \<notin> insert t0 (set rs) \<longrightarrow> st p = thr s p"
      "tc.chain st z (rev rs @ zs) 0" "next_thread (st t0) = (if rs = [] then next_thread (thr s t0) else n)"
    by auto
  let ?s2 = "?s1\<lparr>threads := n, thr := st, threads_to_reap := z\<rparr>"
  have ne: "t0 \<noteq> n" using dist by auto
  have stn: "st n = thr s n" using st(3) dist by auto
  obtain s' where s': "switch_context 0 t0 n ?s2 = Inr s'" "threads s' = n"
    "current_thread s' = n \<and> cr8 s' = 0 \<and> lock_flag (scheduler_spinlock s') = 0"
    "reaper_spinlock s' = reaper_spinlock s \<and> threads_to_reap s' = z"
    "dbgstub_enabled s' = dbgstub_enabled s \<and> dbgstub_paused s' = dbgstub_paused s"
    "\<forall>p. next_thread (thr s' p) = next_thread (st p) \<and> thread_state (thr s' p) = thread_state (st p)
          \<and> sleep_awake_time (thr s' p) = sleep_awake_time (st p)"
    "cr3 s' = top_level (pagemap_at s (th_pagemap (thr s n))) - hhdmOffset (hpmm (kheap (km s)))
     \<and> tss_rsp0 s' = stack_top (thr s n)"
    using switch_context_ok [of ?s2 t0 n] ne by (auto simp: pagemap_at_def stn)
  have run: "schedule clk s = Some (Inr s')"
    using can lock_scheduler_free [OF can] sk st(1) s'(1) ne t0
    by (auto simp: schedule_def can_schedule_def Let_def)
  have tail: "tc.chain st n (n # ys) t0"
    using c3 dist st(3) by (subst tc.chain_cong [where m = "thr s"]) auto
  have "tc.chain st t0 (if rs = [] then t0 # ss else [t0]) n"
  proof (cases "rs = []")
    case True
    have "tc.chain st (next_thread (thr s t0)) ss n"
      using c1 True dist st(3) by (subst tc.chain_cong [where m = "thr s"]) auto
    then show ?thesis using True st(5) ch by simp
  qed (use st(5) ch in simp)
  then have "tc.chain st n (if rs = [] then n # ys @ t0 # ss else n # ys @ [t0]) n"
    using tail by (auto simp: tc.chain_append)
  then have "tc.chain (thr s') n (if rs = [] then n # ys @ t0 # ss else n # ys @ [t0]) n"
    using s'(6) by (subst tc.chain_cong [where m = st]) auto
  then have "run_ring s' (if rs = [] then n # ys @ t0 # ss else n # ys @ [t0])"
    using dist s'(2) by (auto simp: run_ring_def)
  moreover have "reap_list s' (rev rs @ zs)"
    using st(4) s'(4,6) unfolding reap_list_def by (subst tc.chain_cong [where m = st]) auto
  moreover have "can_schedule s'" using can s' by (auto simp: can_schedule_def)
  ultimately show ?thesis using run s' same_but_linksD(1,2) [OF st(2)] by auto
qed

section \<open>Properties of scheduling\<close>


text \<open>
  When threads are passed over asleep and finished ones follow, the removal links the
  running thread past both: the sleeping threads are in neither the run list nor the reap
  list afterwards and are never run again.
\<close>

theorem schedule_drops_sleepers:
  assumes "can_schedule s" and "run_ring s (t0 # ss @ rs @ n # ys)"
    and "reap_list s zs" and "set zs \<inter> set (t0 # ss @ rs @ n # ys) = {}"
    and "\<And>i. i < length ss \<Longrightarrow> clk i < sleep_awake_time (thr s (ss ! i))"
    and "sleep_awake_time (thr s (hd (rs @ [n]))) \<le> clk (length ss)"
    and "\<And>r. r \<in> set rs \<Longrightarrow> thread_state (thr s r) = THREAD_STATE_REAPING"
    and "thread_state (thr s n) \<noteq> THREAD_STATE_REAPING" and "rs \<noteq> []"
  shows "\<exists>s'. schedule clk s = Some (Inr s') \<and> run_ring s' (n # ys @ [t0]) \<and> reap_list s' (rev rs @ zs)
    \<and> (\<forall>t \<in> set ss. t \<notin> set (n # ys @ [t0]) \<and> t \<notin> set (rev rs @ zs))"
proof -
  have "distinct (t0 # ss @ rs @ n # ys)" using assms(2) by (simp add: run_ring_def)
  then show ?thesis using schedule_run [OF assms(1-8)] assms(4,9) by fastforce
qed

text \<open>Four threads in a ring; who sleeps and who is finished is a parameter.\<close>

definition demo_thread :: "u64 \<Rightarrow> u64 \<Rightarrow> u64 \<Rightarrow> thread" where
  "demo_thread nxt st awake = thread_zero\<lparr>next_thread := nxt, thread_state := st, sleep_awake_time := awake\<rparr>"

definition demo_sched :: "u64 \<Rightarrow> u64 \<Rightarrow> sched" where
  "demo_sched awake2 state3 =
     \<lparr>syms = \<lparr>sym_task_quit = 0x100, sym_trampoline = 0x200, sym_kernel_pagemap = 0x300\<rparr>,
      threads = 0x1000,
      thr = (\<lambda>_. thread_zero)(0x1000 := demo_thread 0x2000 0 0, 0x2000 := demo_thread 0x3000 0 awake2,
                              0x3000 := demo_thread 0x4000 state3 0, 0x4000 := demo_thread 0x1000 0 0),
      next_thread_id = 4, current_thread = 0x1000, threads_to_reap = 0,
      scheduler_spinlock = spinlock_init, reaper_spinlock = spinlock_init, cr8 = 0, cr3 = 0,
      tss_rsp0 = 0, fred_enbled = False, msr_fred_rsp0 = 0, msr_fsbas = 0, fpu_regs = [],
      dbgstub_enabled = False, dbgstub_paused = False,
      regs = \<lparr>r_rbx = 0, r_rbp = 0, r_r12 = 0, r_r13 = 0, r_r14 = 0, r_r15 = 0, r_rdi = 0, r_rsi = 0,
              r_rdx = 0, r_rcx = 0, r_r8 = 0, r_r9 = 0, r_rsp = 0x9000, r_rip = 0\<rparr>,
      kstack = (\<lambda>_. 0), km = demo_kmem, pmaps = (\<lambda>_. demo_pagemap)\<rparr>"

lemma demo_sched_ok:
  "can_schedule (demo_sched a b)" "run_ring (demo_sched a b) [0x1000, 0x2000, 0x3000, 0x4000]"
  "reap_list (demo_sched a b) []"
  by (simp_all add: demo_sched_def can_schedule_def spinlock_init_def run_ring_def reap_list_def demo_thread_def)

lemmas demo_sched_simps = demo_sched_def demo_thread_def thread_zero_def THREAD_STATE_REAPING_def


theorem schedule_drops_sleepers_witness:
  "\<exists>s'. schedule (\<lambda>_. 5) (demo_sched 9 1) = Some (Inr s') \<and> run_ring s' [0x4000, 0x1000]
     \<and> reap_list s' [0x3000]"
  using schedule_drops_sleepers [of "demo_sched 9 1" "0x1000" "[0x2000]" "[0x3000]" "0x4000" "[]" "[]" "\<lambda>_. 5"]
    demo_sched_ok [of 9 1] by (fastforce simp: demo_sched_simps)

text \<open>A run of calls; \<open>clk j\<close> are the timer readings of the \<open>j\<close>-th.\<close>

primrec schedules :: "(nat \<Rightarrow> nat \<Rightarrow> u64) \<Rightarrow> nat \<Rightarrow> sched \<Rightarrow> sched kres option" where
  "schedules clk 0 s = Some (Inr s)"
| "schedules clk (Suc k) s = kobind (schedule (clk 0) s) (schedules (\<lambda>j. clk (Suc j)) k)"

text \<open>
  C14: With every thread awake and unfinished, nobody starves: the \<open>k\<close>-th call of \<open>schedule\<close> returns
  in the thread \<open>k\<close> places on, so each thread of the ring runs again after one round.
\<close>

theorem schedule_runs_everyone:
  assumes "can_schedule s" and "run_ring s ts" and "2 \<le> length ts"
    and "reap_list s zs" and "set zs \<inter> set ts = {}"
    and "\<And>t. t \<in> set ts \<Longrightarrow> thread_state (thr s t) \<noteq> THREAD_STATE_REAPING"
    and "\<And>j t. t \<in> set ts \<Longrightarrow> sleep_awake_time (thr s t) \<le> clk j 0"
  shows "\<exists>s'. schedules clk k s = Some (Inr s') \<and> threads s' = ts ! (k mod length ts)"
  using assms
proof (induction k arbitrary: s ts clk)
  case 0
  then have "threads s = hd ts" "ts \<noteq> []" by (cases ts; simp add: run_ring_def)+
  then show ?case by (simp add: hd_conv_nth)
next
  case (Suc k)
  obtain t0 n ys where ts: "ts = t0 # n # ys"
    using Suc.prems(3) by (cases ts; cases "tl ts") auto
  from schedule_run [of s t0 "[]" "[]" n ys zs "clk 0"] Suc.prems ts
  obtain s1 where s1: "schedule (clk 0) s = Some (Inr s1)" "can_schedule s1" "run_ring s1 (n # ys @ [t0])"
      "reap_list s1 zs" "\<forall>p. thread_state (thr s1 p) = thread_state (thr s p)
         \<and> sleep_awake_time (thr s1 p) = sleep_awake_time (thr s p)"
    by auto
  have "\<exists>s'. schedules (\<lambda>j. clk (Suc j)) k s1 = Some (Inr s') \<and> threads s' = (n # ys @ [t0]) ! (k mod length (n # ys @ [t0]))"
    by (rule Suc.IH [OF s1(2,3) _ s1(4)]) (use Suc.prems s1(5) ts in auto)
  moreover have "(n # ys @ [t0]) ! (k mod length ts) = ts ! (Suc k mod length ts)"
    using nth_rotate1 [of "k mod length ts" ts] by (simp add: ts mod_Suc_eq)
  ultimately show ?case using s1(1) ts by auto
qed

theorem schedule_runs_everyone_witness:
  "\<exists>s'. schedules (\<lambda>_ _. 5) 6 (demo_sched 0 0) = Some (Inr s') \<and> threads s' = 0x3000"
  using schedule_runs_everyone [of "demo_sched 0 0" "[0x1000, 0x2000, 0x3000, 0x4000]" "[]" "\<lambda>_ _. 5" 6]
    demo_sched_ok [of 0 0] by (force simp: demo_sched_simps)

section \<open>Saved contexts\<close>

lemma cell_aligned_sub8: "cell_aligned sp \<Longrightarrow> cell_aligned (sp - 8)"
proof -
  assume "cell_aligned sp"
  then have "8 dvd unat sp" by auto
  then have "8 dvd unat (sp - 8)" by (auto simp: unat_sub_if' dvd_diff_nat intro: dvd_add)
  then show ?thesis by auto
qed

lemma push_words_sp: "fst (push_words sp vs m) = sp - 8 * of_nat (length vs)"
proof (induction vs arbitrary: sp m)
  case (Cons v vs)
  show ?case using Cons.IH [of "sp - 8" "write64 m (sp - 8) v"] by simp
qed simp

lemma push_words_other:
  assumes "cell_aligned sp" and "cell_aligned b" and "\<And>j. j < length vs \<Longrightarrow> b \<noteq> sp - 8 * of_nat (Suc j)"
  shows "read64 (snd (push_words sp vs m)) b = read64 m b"
  using assms
proof (induction vs arbitrary: sp m)
  case (Cons v vs)
  have "b \<noteq> sp - 8 - 8 * of_nat (Suc j)" if "j < length vs" for j
    using Cons.prems(3) [of "Suc j"] that by (simp add: algebra_simps)
  then have "read64 (snd (push_words sp (v # vs) m)) b = read64 (write64 m (sp - 8) v) b"
    using Cons.IH [of "sp - 8" "write64 m (sp - 8) v"] cell_aligned_sub8 Cons.prems(1,2) by simp
  also have "\<dots> = read64 m b"
    using Cons.prems(3) [of 0] by (intro read64_write64_other cell_aligned_sub8 Cons.prems) simp
  finally show ?case .
qed simp

lemma word8_mult_neq:
  assumes "i < j" and "j < 2 ^ 60"
  shows "x - 8 * of_nat i \<noteq> (x - 8 * of_nat j :: u64)"
proof
  assume "x - 8 * of_nat i = (x - 8 * of_nat j :: u64)"
  then have "(of_nat (8 * i) :: u64) = of_nat (8 * j)" by simp
  then have "unat (of_nat (8 * i) :: u64) = unat (of_nat (8 * j) :: u64)" by simp
  moreover have "unat (of_nat (8 * i) :: u64) = 8 * i" "unat (of_nat (8 * j) :: u64) = 8 * j"
    using assms by (intro unat_of_nat64, simp)+
  ultimately have "8 * i = 8 * j" by simp
  then show False using assms by simp
qed

lemma push_words_read:
  assumes "cell_aligned sp" and "i < length vs" and "length vs < 2 ^ 60"
  shows "read64 (snd (push_words sp vs m)) (sp - 8 * of_nat (Suc i)) = vs ! i"
  using assms
proof (induction vs arbitrary: sp m i)
  case (Cons v vs)
  show ?case
  proof (cases i)
    case 0
    have "read64 (snd (push_words (sp - 8) vs (write64 m (sp - 8) v))) (sp - 8) = read64 (write64 m (sp - 8) v) (sp - 8)"
    proof (rule push_words_other)
      fix j assume "j < length vs"
      then show "sp - 8 \<noteq> sp - 8 - 8 * of_nat (Suc j)"
        using word8_mult_neq [of 0 "Suc j" "sp - 8"] Cons.prems(3) by simp
    qed (use cell_aligned_sub8 Cons.prems(1) in auto)
    then show ?thesis using 0 by (simp add: mem_simps)
  next
    case (Suc k)
    then show ?thesis
      using Cons.IH [of "sp - 8" k "write64 m (sp - 8) v"] Cons.prems cell_aligned_sub8 [of sp]
      by (simp add: algebra_simps)
  qed
qed simp

text \<open>The saved frame from its lowest address upwards.\<close>

lemma push_words_frame:
  assumes "cell_aligned sp" and "i < length vs" and "length vs < 2 ^ 60"
  shows "read64 (snd (push_words sp vs m)) (fst (push_words sp vs m) + 8 * of_nat i) = rev vs ! i"
proof -
  have "fst (push_words sp vs m) + 8 * of_nat i = sp - 8 * of_nat (Suc (length vs - Suc i))"
    using assms(2) by (simp add: push_words_sp Suc_diff_Suc of_nat_diff algebra_simps)
  moreover have "read64 (snd (push_words sp vs m)) (sp - 8 * of_nat (Suc (length vs - Suc i))) = vs ! (length vs - Suc i)"
    using assms by (intro push_words_read) auto
  ultimately have "read64 (snd (push_words sp vs m)) (fst (push_words sp vs m) + 8 * of_nat i) = vs ! (length vs - Suc i)"
    by (simp only:)
  then show ?thesis using assms(2) by (simp add: rev_nth)
qed

text \<open>The frame \<open>thread_switch\<close> saves, and what it loads from the other stack.\<close>

definition saved_frame :: "cpu_regs \<Rightarrow> u64 list" where
  "saved_frame g = [r_r15 g, r_r14 g, r_r13 g, r_r12 g, r_rbp g, r_rbx g, r_rip g]"

definition frame_at :: "mem \<Rightarrow> u64 \<Rightarrow> u64 list" where
  "frame_at m sp = map (\<lambda>i. read64 m (sp + 8 * of_nat i)) [0..<7]"

lemma frame_at_simp: "frame_at m sp = [read64 m sp, read64 m (sp + 8), read64 m (sp + 16), read64 m (sp + 24),
    read64 m (sp + 32), read64 m (sp + 40), read64 m (sp + 48)]"
  by (simp add: frame_at_def upt_rec)

lemma frame_at_cong: "(\<And>i. i < 7 \<Longrightarrow> read64 m (sp + 8 * of_nat i) = read64 m' (sp + 8 * of_nat i)) \<Longrightarrow> frame_at m sp = frame_at m' sp"
  by (simp add: frame_at_def)

lemma thread_switch_saves:
  assumes "thread_switch irqs prev new_sp s = Inr s'" and al: "cell_aligned (r_rsp (regs s))"
  shows "krsp (thr s' prev) = r_rsp (regs s) - 56"
    and "frame_at (kstack s') (r_rsp (regs s) - 56) = saved_frame (regs s)"
    and "saved_frame (regs s') = frame_at (kstack s') new_sp" and "r_rsp (regs s') = new_sp + 56"
proof -
  let ?g = "regs s"
  let ?vs = "[r_rip ?g, r_rbx ?g, r_rbp ?g, r_r12 ?g, r_r13 ?g, r_r14 ?g, r_r15 ?g]"
  define sp m where "sp = fst (push_words (r_rsp ?g) ?vs (kstack s))" and "m = snd (push_words (r_rsp ?g) ?vs (kstack s))"
  have p: "push_words (r_rsp ?g) ?vs (kstack s) = (sp, m)" by (simp add: sp_def m_def del: push_words.simps)
  have r: "kstack s' = m" "krsp (thr s' prev) = sp" "saved_frame (regs s') = frame_at m new_sp"
      "r_rsp (regs s') = new_sp + 56"
    using assms(1) unfolding thread_switch_def Let_def p
    by (auto simp: kbind_eq_Inr upd_thread_def frame_at_simp saved_frame_def)
  have sp: "sp = r_rsp ?g - 56" using push_words_sp [of "r_rsp ?g" ?vs "kstack s"] by (simp add: sp_def)
  have "read64 m (sp + 8 * of_nat i) = rev ?vs ! i" if "i < 7" for i
    using push_words_frame [OF al, of i ?vs "kstack s"] that unfolding sp_def m_def by simp
  then have "frame_at m sp = map (\<lambda>i. rev ?vs ! i) [0..<7]" by (simp add: frame_at_def)
  also have "\<dots> = rev ?vs" by (simp add: upt_rec)
  finally show "frame_at (kstack s') (r_rsp ?g - 56) = saved_frame ?g"
    using r(1) sp by (simp add: saved_frame_def)
  show "krsp (thr s' prev) = r_rsp (regs s) - 56"
    "saved_frame (regs s') = frame_at (kstack s') new_sp" "r_rsp (regs s') = new_sp + 56" using r sp by simp_all
qed

lemma thread_switch_keeps:
  assumes "thread_switch irqs prev new_sp s = Inr s'" and al: "cell_aligned (r_rsp (regs s))" "cell_aligned b"
    and apart: "\<And>j. j < 7 \<Longrightarrow> b \<noteq> r_rsp (regs s) - 8 * of_nat (Suc j)"
  shows "read64 (kstack s') b = read64 (kstack s) b"
proof -
  let ?g = "regs s"
  let ?vs = "[r_rip ?g, r_rbx ?g, r_rbp ?g, r_r12 ?g, r_r13 ?g, r_r14 ?g, r_r15 ?g]"
  have "kstack s' = snd (push_words (r_rsp ?g) ?vs (kstack s))"
    using assms(1) unfolding thread_switch_def Let_def
    by (auto simp: kbind_eq_Inr upd_thread_def simp del: push_words.simps split: prod.splits)
  then show ?thesis using push_words_other [OF al, of ?vs "kstack s"] apart by simp
qed

text \<open>
  C15: A context is restored as it was saved. A thread \<open>a\<close> that was switched away from, whose saved
  stack words the others left alone, gets back its callee-saved registers, its stack pointer
  and the address it called from when another thread \<open>b\<close> switches to it.
\<close>

theorem thread_switch_roundtrip:
  assumes "thread_switch irqs a sp_b s = Inr s1" and "cell_aligned (r_rsp (regs s))"
    and "krsp (thr s2 a) = krsp (thr s1 a)"
    and "frame_at (kstack s2) (krsp (thr s1 a)) = frame_at (kstack s1) (krsp (thr s1 a))"
    and "thread_switch irqs' b (krsp (thr s2 a)) s2 = Inr s3" and "cell_aligned (r_rsp (regs s2))"
    and "\<And>i. i < 7 \<Longrightarrow> cell_aligned (r_rsp (regs s) - 56 + 8 * of_nat i)"
    and "\<And>i j. i < 7 \<Longrightarrow> j < 7 \<Longrightarrow> r_rsp (regs s) - 56 + 8 * of_nat i \<noteq> r_rsp (regs s2) - 8 * of_nat (Suc j)"
  shows "saved_frame (regs s3) = saved_frame (regs s) \<and> r_rsp (regs s3) = r_rsp (regs s)"
proof -
  note s1 = thread_switch_saves [OF assms(1,2)]
  note s3 = thread_switch_saves [OF assms(5,6)]
  have "frame_at (kstack s3) (r_rsp (regs s) - 56) = frame_at (kstack s2) (r_rsp (regs s) - 56)"
    by (intro frame_at_cong thread_switch_keeps [OF assms(5,6)] assms(7,8))
  then show ?thesis using s1 s3(3,4) assms(3,4) by simp
qed

lemma less_7: "i < (7 :: nat) \<longleftrightarrow> i \<in> {0, 1, 2, 3, 4, 5, 6}"
  by auto

theorem thread_switch_roundtrip_witness:
  "\<exists>s1 s3. thread_switch 0 0x1000 0x5000 (demo_sched 0 0) = Inr s1
    \<and> thread_switch 0 0x2000 (krsp (thr s1 0x1000)) s1 = Inr s3
    \<and> r_rsp (regs s1) = 0x5038 \<and> r_rsp (regs s3) = 0x9000
    \<and> saved_frame (regs s3) = saved_frame (regs (demo_sched 0 0))"
proof -
  let ?s = "demo_sched 0 0"
  have rsp: "r_rsp (regs ?s) = 0x9000" by (simp add: demo_sched_def)
  obtain s1 where s1: "thread_switch 0 0x1000 0x5000 ?s = Inr s1" "cr8 s1 = 0"
    using thread_switch_ok [of 0 ?s "0x1000" "0x5000"] by (auto simp: demo_sched_def)
  obtain s3 where s3: "thread_switch 0 0x2000 (krsp (thr s1 0x1000)) s1 = Inr s3"
    using thread_switch_ok [of 0 s1 "0x2000" "krsp (thr s1 0x1000)"] s1(2) by auto
  have r1: "r_rsp (regs s1) = 0x5038" using thread_switch_saves(4) [OF s1(1)] rsp by simp
  have al: "cell_aligned (r_rsp (regs ?s) - 56 + 8 * of_nat i)" if "i < 7" for i
    using that unfolding less_7 rsp by auto
  have ap: "r_rsp (regs ?s) - 56 + 8 * of_nat i \<noteq> r_rsp (regs s1) - 8 * of_nat (Suc j)" if "i < 7" "j < 7" for i j
    using that unfolding less_7 rsp r1 by auto
  have "saved_frame (regs s3) = saved_frame (regs ?s) \<and> r_rsp (regs s3) = r_rsp (regs ?s)"
    by (rule thread_switch_roundtrip [OF s1(1) _ refl refl s3 _ al ap]) (simp_all add: rsp r1)
  then show ?thesis using s1(1) s3 r1 rsp by auto
qed

text \<open>
  C16: The stack \<open>create_thread\<close> builds starts the thread as intended. Whatever thread \<open>prev\<close> switches to
  it first arrives in the trampoline, and the trampoline enters the entry point (\<open>task_quit\<close>
  for a null one) with the six arguments in the argument registers of the calling convention
  and \<open>task_quit\<close> as the address to return to.
\<close>

theorem create_thread_starts:
  assumes top: "cell_aligned stk_top" and sp: "(sp, m0) = push_words stk_top (initial_stack y entry_point args) m"
    and run: "thread_switch irqs prev sp s = Inr s1"
    and mem: "\<And>i. i < 10 \<Longrightarrow> read64 (kstack s1) (sp + 8 * of_nat i) = read64 m0 (sp + 8 * of_nat i)"
    and al: "cell_aligned (r_rsp (regs s))"
  shows "r_rip (regs s1) = sym_trampoline y
    \<and> (let g = thread_init_trampoline (kstack s1) (regs s1)
       in r_rip g = (if entry_point = 0 then sym_task_quit y else entry_point)
          \<and> read64 (kstack s1) (r_rsp g) = sym_task_quit y
          \<and> [r_rdi g, r_rsi g, r_rdx g, r_rcx g, r_r8 g, r_r9 g]
              = [arg1 args, arg2 args, arg3 args, arg4 args, arg5 args, arg6 args])"
proof -
  let ?vs = "initial_stack y entry_point args"
  have len: "length ?vs = 10" by (simp add: initial_stack_def)
  have p: "fst (push_words stk_top ?vs m) = sp" "snd (push_words stk_top ?vs m) = m0"
    using sp [symmetric] by simp_all
  have "read64 (kstack s1) (sp + 8 * of_nat i) = rev ?vs ! i" if "i < 10" for i
    using push_words_frame [OF top, of i ?vs m] p mem [OF that] that len by simp
  note c = this [of 0] this [of 1] this [of 2] this [of 3] this [of 4] this [of 5] this [of 6] this [of 7] this [of 8]
  have f: "frame_at (kstack s1) sp = [arg6 args, arg5 args, arg4 args, arg3 args, arg2 args, arg1 args, sym_trampoline y]"
    using c by (simp add: frame_at_simp initial_stack_def)
  note r = thread_switch_saves(3,4) [OF run al]
  have "saved_frame (regs s1) = [arg6 args, arg5 args, arg4 args, arg3 args, arg2 args, arg1 args, sym_trampoline y]"
    using r(1) f by simp
  then show ?thesis
    using r(2) c(8,9) by (simp add: saved_frame_def thread_init_trampoline_def initial_stack_def Let_def add.assoc)
qed

definition demo_args :: args_t where
  "demo_args = \<lparr>arg1 = 1, arg2 = 2, arg3 = 3, arg4 = 4, arg5 = 5, arg6 = 6\<rparr>"

theorem create_thread_starts_witness:
  "\<exists>s s1. thread_switch 0 0x1000 0x7FB0 s = Inr s1 \<and> r_rip (regs s1) = 0x200
    \<and> (let g = thread_init_trampoline (kstack s1) (regs s1)
       in r_rip g = 0x4242 \<and> [r_rdi g, r_rsi g, r_rdx g, r_rcx g, r_r8 g, r_r9 g] = [1, 2, 3, 4, 5, 6])"
proof -
  let ?d = "demo_sched 0 0"
  let ?vs = "initial_stack (syms ?d) 0x4242 demo_args"
  define m0 where "m0 = snd (push_words 0x8000 ?vs (kstack ?d))"
  let ?s = "?d\<lparr>kstack := m0\<rparr>"
  have "fst (push_words 0x8000 ?vs (kstack ?d)) = 0x7FB0"
    by (simp add: push_words_sp) (simp add: initial_stack_def)
  then have p: "(0x7FB0, m0) = push_words 0x8000 ?vs (kstack ?d)" by (simp add: m0_def prod_eq_iff)
  have rsp: "r_rsp (regs ?d) = 0x9000" by (simp add: demo_sched_def)
  obtain s1 where s1: "thread_switch 0 0x1000 0x7FB0 ?s = Inr s1"
    using thread_switch_ok [of 0 ?s "0x1000" "0x7FB0"] by (auto simp: demo_sched_def)
  have ten: "i < (10 :: nat) \<longleftrightarrow> i \<in> {0, 1, 2, 3, 4, 5, 6, 7, 8, 9}" for i by auto
  have "read64 (kstack s1) (0x7FB0 + 8 * of_nat i) = read64 (kstack ?s) (0x7FB0 + 8 * of_nat i)" if "i < 10" for i
    by (rule thread_switch_keeps [OF s1]) (use that in \<open>auto simp: rsp ten less_7\<close>)
  then have mem: "read64 (kstack s1) (0x7FB0 + 8 * of_nat i) = read64 m0 (0x7FB0 + 8 * of_nat i)" if "i < 10" for i
    using that by simp
  from create_thread_starts [OF _ p s1 mem] rsp s1 show ?thesis
    by (auto simp: demo_sched_def demo_args_def Let_def)
qed

section \<open>Creating and reaping threads\<close>

lemma link_thread_ok:
  assumes can: "can_schedule s" and new: "new \<noteq> 0" "new \<notin> set ts"
    and ring: "if had then run_ring s ts else ts = []"
  shows "\<exists>s'. link_thread had new s = Some (Inr s') \<and> can_schedule s' \<and> cr8 s' = cr8 s
    \<and> run_ring s' (case ts of [] \<Rightarrow> [new] | t # ts' \<Rightarrow> t # new # ts') \<and> same_but_links (thr s) (thr s')
    \<and> next_thread_id s' = next_thread_id s \<and> km s' = km s \<and> syms s' = syms s"
proof -
  let ?s1 = "s\<lparr>scheduler_spinlock := (scheduler_spinlock s)\<lparr>lock_flag := 1\<rparr>, cr8 := 2\<rparr>"
  have c: "cr8 s \<le> 2" using can by (simp add: can_schedule_def)
  note l = lock_scheduler_free [OF can]
  show ?thesis
  proof (cases had)
    case False
    then have "ts = []" using ring by simp
    then show ?thesis using False l c new can
      by (auto simp: link_thread_def unlock_scheduler_def spinlock_unlock_ok upd_thread_def can_schedule_def
          run_ring_def same_but_links_def)
  next
    case True
    then have ring: "run_ring s ts" using ring by simp
    then obtain t ts' where ts: "ts = t # ts'" by (cases ts) (auto simp: run_ring_def)
    have t: "threads s = t" "t \<noteq> 0" "new \<noteq> t" using ring new by (auto simp: run_ring_def ts)
    have ch: "tc.chain (thr s) (next_thread (thr s t)) ts' t" and d: "distinct (t # new # ts')"
      using ring new by (auto simp: run_ring_def ts)
    let ?st = "(thr s)(new := (thr s new)\<lparr>next_thread := next_thread (thr s t)\<rparr>, t := (thr s t)\<lparr>next_thread := new\<rparr>)"
    have "tc.chain ?st (next_thread (thr s t)) ts' t"
      using ch d by (subst tc.chain_cong [where m = "thr s"]) auto
    then have "tc.chain ?st t (t # new # ts') t" using t new by simp
    then show ?thesis using True l c can t d
      by (auto simp: link_thread_def unlock_scheduler_def spinlock_unlock_ok upd_thread_def can_schedule_def
          run_ring_def same_but_links_def ts Let_def)
  qed
qed

lemma malloc_small_returns:
  assumes inv: "heap_inv (kheap k)" and z: "unat sz \<le> 1008"
  shows "(\<exists>e. malloc sz k = Some (Inl e)) \<or> (\<exists>p k1. malloc sz k = Some (Inr (p, k1)))"
proof -
  have "unat (sz + 16) \<le> 1024" using z by (simp add: unat_word_ariths)
  from kmalloc_ok [OF inv this] z show ?thesis by (auto simp: malloc_def word_le_nat_alt)
qed

lemma malloc_large_returns:
  "1024 < unat sz \<Longrightarrow> (\<exists>e. malloc sz k = Some (Inl e)) \<or> (\<exists>p k1. malloc sz k = Some (Inr (p, k1)))"
  by (auto simp: malloc_def word_le_nat_alt kbind_def Let_def split: prod.splits sum.splits)

lemma malloc_small_nonzero:
  assumes inv: "heap_inv (kheap k)" and b: "hhdm_below (hpmm (kheap k))" and z: "unat sz \<le> 1008"
    and m: "malloc sz k = Some (Inr (ptr, k1))"
  shows "ptr \<noteq> 0"
proof
  assume 0: "ptr = 0"
  have le: "sz \<le> 1024" "unat (sz + 16) \<le> 1024" using z by (simp_all add: word_le_nat_alt unat_word_ariths)
  from kmalloc_ok [OF inv le(2)] m le(1) 0
  obtain a h1 where h0: "heap_inv h1" "heap_live h1 = insert a (heap_live (kheap k))"
      "pmm_layout (hpmm h1) = pmm_layout (hpmm (kheap k))" "a + 16 = 0"
    by (auto simp: malloc_def)
  have "a = - 16" using h0(4) by (simp add: eq_neg_iff_add_eq_0)
  note h1 = h0(1) h0(2) [unfolded this] h0(3)
  obtain l where l: "l \<in> page_locs (hpmm h1)" "unat (- 16 - page_node (hpmm h1) l) < 4096" "page_node (hpmm h1) l \<le> - 16"
    using heap_poke_live(4) [OF h1(1) _ refl, of "- 16"] h1(2) by auto
  have "unat (page_node (hpmm h1) l) + 4096 \<le> unat VALLOC_RANGE_START"
    using l(1) b hhdm_below_layout [OF h1(3)] by (auto simp: hhdm_below_def)
  then have "unat (- 16 :: u64) < unat VALLOC_RANGE_START"
    using l(2,3) unat_sub [OF l(3)] by (simp add: word_le_nat_alt)
  then show False by (simp add: VALLOC_RANGE_START_def)
qed

text \<open>What \<open>create_thread\<close> does with the three blocks it took.\<close>

lemma create_thread_after:
  assumes ok: "malloc sizeof_thread (km s) = Some (Inr (new, k1))" "malloc sizeof_fds k1 = Some (Inr (fdsp, k2))"
      "malloc STACK_SIZE k2 = Some (Inr (stk, k3))"
    and can: "can_schedule s" and ring: "if threads s = 0 then ts = [] else run_ring s ts" and nz: "new \<noteq> 0" and fresh: "new \<notin> set ts"
  shows "(\<exists>s'. create_thread entry_point pagemap args s = Some (Inr s')
        \<and> run_ring s' (case ts of [] \<Rightarrow> [new] | t # ts' \<Rightarrow> t # new # ts')
        \<and> thread_state (thr s' new) = THREAD_STATE_RUNNING \<and> sleep_awake_time (thr s' new) = 0
        \<and> is_user_task (thr s' new) = (pagemap \<noteq> 0)
        \<and> th_pagemap (thr s' new) = (if pagemap = 0 then sym_kernel_pagemap (syms s) else pagemap)
        \<and> krsp (thr s' new) = stack_top (thr s' new) - 80 \<and> threadId (thr s' new) = scast (next_thread_id s)
        \<and> (\<forall>p. p \<noteq> new \<longrightarrow> (thr s' p)\<lparr>next_thread := 0\<rparr> = (thr s p)\<lparr>next_thread := 0\<rparr>)
        \<and> can_schedule s' \<and> cr8 s' = cr8 s \<and> next_thread_id s' = next_thread_id s + 1 \<and> km s' = k3 \<and> syms s' = syms s)"
proof -
  define stk_top where "stk_top = (stk + STACK_SIZE) AND NOT 0xF3"
  define vs where "vs = initial_stack (syms s) entry_point args"
  obtain sp m1 where p: "push_words stk_top vs (fill_bytes (kstack s) stk 0 (unat STACK_SIZE)) = (sp, m1)" by fastforce
  have sp: "sp = stk_top - 80"
    using p push_words_sp [of stk_top vs "fill_bytes (kstack s) stk 0 (unat STACK_SIZE)"]
    by (simp add: vs_def [THEN arg_cong [where f = length]] initial_stack_def)
  define t where "t = thread_zero\<lparr>next_fd := 11, fds_ptr := fdsp, fds := replicate 256 fd_null,
                 heap_pos := 0xB0000000, stack := stk, stack_top := stk_top,
                 threadId := scast (next_thread_id s),
                 th_pagemap := (if pagemap \<noteq> 0 then pagemap else sym_kernel_pagemap (syms s)),
                 is_user_task := (pagemap \<noteq> 0), krsp := sp\<rparr>"
  define s1 where "s1 = s\<lparr>km := k3, kstack := m1, next_thread_id := next_thread_id s + 1, thr := (thr s)(new := t)\<rparr>"
  have eq: "create_thread entry_point pagemap args s = link_thread (threads s \<noteq> 0) new s1"
    using ok p by (simp add: create_thread_def Let_def s1_def t_def stk_top_def vs_def)
  have can1: "can_schedule s1" using can by (simp add: can_schedule_def s1_def)
  have ring1: "if threads s \<noteq> 0 then run_ring s1 ts else ts = []"
  proof (cases "threads s = 0")
    case False
    then have r: "run_ring s ts" using ring by simp
    have "tc.chain (thr s1) (threads s) ts (hd ts) = tc.chain (thr s) (threads s) ts (hd ts)"
      using fresh by (intro tc.chain_cong) (auto simp: s1_def)
    then show ?thesis using r False by (simp add: run_ring_def s1_def)
  qed (use ring in simp)
  from link_thread_ok [OF can1 nz fresh ring1] obtain s' where s': "link_thread (threads s \<noteq> 0) new s1 = Some (Inr s')"
      "can_schedule s'" "cr8 s' = cr8 s1" "run_ring s' (case ts of [] \<Rightarrow> [new] | t # ts' \<Rightarrow> t # new # ts')"
      "same_but_links (thr s1) (thr s')" "next_thread_id s' = next_thread_id s1" "km s' = km s1" "syms s' = syms s1" by blast
  note f = same_but_linksD [OF s'(5), of new]
  have "(thr s' p)\<lparr>next_thread := 0\<rparr> = (thr s p)\<lparr>next_thread := 0\<rparr>" if "p \<noteq> new" for p
    using s'(5) that by (simp add: same_but_links_def s1_def)
  then show ?thesis
    using eq s' f by (auto simp: s1_def t_def thread_zero_def THREAD_STATE_RUNNING_def sp)
qed



text \<open>Emptying the reap list, as the reaper does between its calls of \<open>schedule\<close>.\<close>

primrec reap_all :: "nat \<Rightarrow> sched \<Rightarrow> (u64 list \<times> sched) kres option" where
  "reap_all 0 s = Some (Inr ([], s))"
| "reap_all (Suc n) s =
     kobind (get_next_thread_to_reap s) (\<lambda>(t, s1).
       kobind (reap_all n s1) (\<lambda>(ts, s2). Some (Inr (t # ts, s2))))"

lemma get_next_thread_to_reap_ok:
  assumes "reap_list s (z # zs)" and "distinct (z # zs)" and "can_schedule s"
  shows "\<exists>s'. get_next_thread_to_reap s = Some (Inr (z, s')) \<and> reap_list s' zs \<and> can_schedule s'
    \<and> next_thread (thr s' z) = 0 \<and> threads s' = threads s \<and> (\<forall>p. p \<noteq> z \<longrightarrow> thr s' p = thr s p) \<and> cr8 s' = cr8 s"
proof -
  have z: "threads_to_reap s = z" "z \<noteq> 0" and ch: "tc.chain (thr s) (next_thread (thr s z)) zs 0"
    using assms(1) by (auto simp: reap_list_def)
  let ?st = "(thr s)(z := (thr s z)\<lparr>next_thread := 0\<rparr>)"
  have "tc.chain ?st (next_thread (thr s z)) zs 0"
    using ch assms(2) by (subst tc.chain_cong [where m = "thr s"]) auto
  then show ?thesis using assms(3) z
    by (auto simp: get_next_thread_to_reap_def lock_reaper_def unlock_reaper_def spinlock_lock_free
        spinlock_unlock_ok can_schedule_def reap_list_def upd_thread_def Let_def)
qed

text \<open>
  The reaper takes every thread of the reap list exactly once, the last one added first, each
  unlinked, without touching the run list; then the list is empty and the next request says so.
\<close>

theorem reap_all_takes_all:
  assumes "reap_list s zs" and "distinct zs" and "can_schedule s"
  shows "\<exists>s'. reap_all (length zs) s = Some (Inr (zs, s')) \<and> threads_to_reap s' = 0
    \<and> threads s' = threads s \<and> (\<forall>p. p \<notin> set zs \<longrightarrow> thr s' p = thr s p)
    \<and> (\<exists>s''. get_next_thread_to_reap s' = Some (Inr (0, s'')))"
  using assms
proof (induction zs arbitrary: s)
  case Nil
  then show ?case
    by (auto simp: reap_list_def get_next_thread_to_reap_def lock_reaper_def unlock_reaper_def spinlock_lock_free
        spinlock_unlock_ok can_schedule_def)
next
  case (Cons z zs)
  from get_next_thread_to_reap_ok [OF Cons.prems] obtain s1 where
    s1: "get_next_thread_to_reap s = Some (Inr (z, s1))" "reap_list s1 zs" "can_schedule s1" "threads s1 = threads s"
      "\<forall>p. p \<noteq> z \<longrightarrow> thr s1 p = thr s p" by blast
  have "distinct zs" using Cons.prems by simp
  from Cons.IH [OF s1(2) this s1(3)] show ?case using s1 by auto
qed

theorem reap_all_takes_all_witness:
  "\<exists>s s1 s2. schedule (\<lambda>_. 5) s = Some (Inr s1) \<and> reap_all 1 s1 = Some (Inr ([0x3000], s2))"
proof -
  let ?s = "demo_sched 9 1"
  from schedule_run [of ?s "0x1000" "[0x2000]" "[0x3000]" "0x4000" "[]" "[]" "\<lambda>_. 5"] demo_sched_ok [of 9 1]
  obtain s1 where s1: "schedule (\<lambda>_. 5) ?s = Some (Inr s1)" "can_schedule s1" "reap_list s1 [0x3000]"
    by (fastforce simp: demo_sched_simps)
  from reap_all_takes_all [OF s1(3) _ s1(2)] s1(1) show ?thesis by (auto simp del: reap_all.simps)
qed

end
