(* ===== verification/Platform.thy ===== *)
theory Platform
  imports Hardware
begin

text \<open>
  Timers and interrupt controllers: \<open>drivers/timer.c\<close>, \<open>drivers/x86_64/timers\<close>, the ACPI timer
  (\<open>acpi/acpi_timer.c\<close>), the 8259 pair (\<open>pic.c\<close>), the I/O APIC and the local APIC in both modes
  (\<open>drivers/x86_64/apic\<close>), their set-up (\<open>irq.c\<close>) and the speaker. The function pointers the kernel
  switches at run time (\<open>unmask_irq\<close>, \<open>send_eoi\<close>, \<open>timer_get_ms\<close>, \<open>timer_blocking_sleep_ms\<close>,
  \<open>apic_get_id\<close>, \<open>apic_timer_isr\<close>) are values of datatypes that name the functions they may hold.
\<close>

section \<open>State\<close>

datatype sleep_fn = Sleep_stub | Hpet_sleep | Pit_sleep | Acpi_mmio_sleep | Acpi_port_sleep
datatype get_ms_fn = Get_ms_stub | Xapic_get_ms | X2apic_get_ms
datatype unmask_fn = Unmask_stub | Pic_unmask | Ioapic_unmask
datatype eoi_fn = Eoi_stub | Pic_eoi | Xapic_eoi | X2apic_eoi
datatype apic_id_fn = Apic_id_none | Xapic_id | X2apic_id
datatype timer_isr_fn = Timer_isr_none | Xapic_deadline | Xapic_periodic | X2apic_deadline | X2apic_periodic
datatype timer_source = TIMER_SOURCE_NONE | TIMER_SOURCE_PIT | TIMER_SOURCE_HPET | TIMER_SOURCE_TSC | TIMER_SOURCE_ACPI

record ioapic_t =
  io_address :: u64
  gsib :: u32

record ioapic_irq_overide_t =
  ov_irq :: u8
  ov_gsi :: u8

record platform = hw +
  timer_blocking_sleep_fn :: sleep_fn
  timer_get_ms_fn :: get_ms_fn
  currentTimerSource :: timer_source
  shouldSchedule :: bool
  hpet_address :: u64
  hpet_frequency :: u64
  tsc_frequency :: u64
  tsc_good :: bool
  acpi_timer_address :: u64
  acpi_timer_address_type :: u16
  unmask_fn_ptr :: unmask_fn
  send_eoi_ptr :: eoi_fn
  apic_get_id_ptr :: apic_id_fn
  apic_timer_isr_ptr :: timer_isr_fn
  xapic_timer_ms :: u64
  x2apic_timer_ms :: u64
  apic_address :: u64
  ioapics :: "ioapic_t list"
  ioapic_irq_overides :: "ioapic_irq_overide_t list"
  irq_should_preempt :: bool
  serial_debug :: bool
  pkm :: kmemory

section \<open>Blocking sleeps\<close>

text \<open>Each waits until enough ticks of its counter have passed; \<open>None\<close> is waiting forever.\<close>

partial_function (option) hpet_wait :: "u64 \<Rightarrow> u64 \<Rightarrow> platform \<Rightarrow> platform option" where
  "hpet_wait start ticks_needed h =
     (case mmio_read_offset_64 (hpet_address h) 0xF0 h of (now, h1) \<Rightarrow>
        if now - start < ticks_needed then hpet_wait start ticks_needed h1 else Some h1)"

definition hpet_blocking_sleep_ms :: "u64 \<Rightarrow> platform \<Rightarrow> platform option" where
  "hpet_blocking_sleep_ms ms h =
     (if hpet_address h = 0 \<or> hpet_frequency h = 0 then Some h
      else (case mmio_read_offset_64 (hpet_address h) 0xF0 h of (start, h1) \<Rightarrow>
        hpet_wait start ((hpet_frequency h * ms) div 1000) h1))"

definition read_pit_count :: "'a hw_scheme \<Rightarrow> u16 \<times> 'a hw_scheme" where
  "read_pit_count h =
     (case inb 0x40 (outb 0x43 0 h) of (lo, h1) \<Rightarrow>
      case inb 0x40 h1 of (hi, h2) \<Rightarrow> (ucast lo OR push_bit 8 (ucast hi), h2))"

partial_function (option) pit_wait :: "u32 \<Rightarrow> u32 \<Rightarrow> u32 \<Rightarrow> u16 \<Rightarrow> platform \<Rightarrow> platform option" where
  "pit_wait wanted_ticks divisor elapsed_ticks prev_count h =
     (if elapsed_ticks < wanted_ticks
      then (case read_pit_count h of (current_count, h1) \<Rightarrow>
        pit_wait wanted_ticks divisor
          (if current_count > prev_count
           then elapsed_ticks + (ucast prev_count + (divisor - ucast current_count))
           else elapsed_ticks + (ucast prev_count - ucast current_count)) current_count h1)
      else Some h)"

definition pit_sleep_ms :: "u64 \<Rightarrow> platform \<Rightarrow> platform option" where
  "pit_sleep_ms ms h =
     (let wanted_ticks = (ucast ((ms * 1193182 + 999) div 1000) :: u32);
          divisor0 = (if wanted_ticks > 0xFFFF then 0xFFFF else wanted_ticks);
          divisor = (if divisor0 < 100 then 100 else divisor0);
          h1 = outbd 0x43 0x34 h;
          h2 = outbd 0x40 (ucast (divisor AND 0xFF)) h1;
          h3 = outbd 0x40 (ucast (drop_bit 8 divisor AND 0xFF)) h2
      in case read_pit_count h3 of (prev_count, h4) \<Rightarrow> pit_wait wanted_ticks divisor 0 prev_count h4)"

text \<open>
  The ACPI timer counts 24 bits; the difference of two readings is taken modulo \<open>2 ^ 32\<close>.
  \<open>rd\<close> is the access, to memory or to a port.
\<close>

partial_function (option) acpi_wait ::
    "(platform \<Rightarrow> u32 \<times> platform) \<Rightarrow> u64 \<Rightarrow> u64 \<Rightarrow> u32 \<Rightarrow> platform \<Rightarrow> platform option" where
  "acpi_wait rd ticks_needed ticks_elapsed last_tick h =
     (if ticks_elapsed < ticks_needed
      then (case rd h of (v, h1) \<Rightarrow>
        let current_tick = v AND 0xFFFFFF
        in acpi_wait rd ticks_needed (ticks_elapsed + ucast (current_tick - last_tick)) current_tick h1)
      else Some h)"

definition acpi_timer_sleep :: "(platform \<Rightarrow> u32 \<times> platform) \<Rightarrow> u64 \<Rightarrow> platform \<Rightarrow> platform option" where
  "acpi_timer_sleep rd ms h =
     (if acpi_timer_address h = 0 then Some h
      else
        (let ticks_needed = (3579545 * ms) div 1000
         in case rd h of (v, h1) \<Rightarrow> acpi_wait rd ticks_needed 0 (v AND 0xFFFFFF) h1))"

definition acpi_timer_mmio_blocking_sleep_ms :: "u64 \<Rightarrow> platform \<Rightarrow> platform option" where
  "acpi_timer_mmio_blocking_sleep_ms ms h = acpi_timer_sleep (mmio_read_32 (acpi_timer_address h)) ms h"

definition acpi_timer_port_io_blocking_sleep_ms :: "u64 \<Rightarrow> platform \<Rightarrow> platform option" where
  "acpi_timer_port_io_blocking_sleep_ms ms h = acpi_timer_sleep (inl (ucast (acpi_timer_address h))) ms h"

text \<open>The call through the pointer.\<close>

definition timer_blocking_sleep_ms :: "u64 \<Rightarrow> platform \<Rightarrow> platform kres option" where
  "timer_blocking_sleep_ms ms h = (case timer_blocking_sleep_fn h of
       Sleep_stub \<Rightarrow> Some (Inl (Panic ''Timer services used before ready; timer_blocking_sleep_ms()''))
     | Hpet_sleep \<Rightarrow> map_option Inr (hpet_blocking_sleep_ms ms h)
     | Pit_sleep \<Rightarrow> map_option Inr (pit_sleep_ms ms h)
     | Acpi_mmio_sleep \<Rightarrow> map_option Inr (acpi_timer_mmio_blocking_sleep_ms ms h)
     | Acpi_port_sleep \<Rightarrow> map_option Inr (acpi_timer_port_io_blocking_sleep_ms ms h))"

definition timer_get_ms :: "platform \<Rightarrow> u64 kres" where
  "timer_get_ms h = (case timer_get_ms_fn h of
       Get_ms_stub \<Rightarrow> Inl (Panic ''Timer services used before ready; timer_get_ms()'')
     | Xapic_get_ms \<Rightarrow> Inr (xapic_timer_ms h)
     | X2apic_get_ms \<Rightarrow> Inr (x2apic_timer_ms h))"

section \<open>Setting the timers up\<close>

text \<open>A period of zero is a division by zero, which ends in the handler for unexpected interrupts.\<close>

definition setup_hpet :: "platform \<Rightarrow> (bool \<times> platform) kres" where
  "setup_hpet h =
     (if hpet_address h = 0 then Inr (False, h)
      else (case mmio_read_offset_64 (hpet_address h) 0 h of (hpet_caps, h1) \<Rightarrow>
        let tick_period = drop_bit 32 hpet_caps
        in if tick_period = 0 then Inl (Panic ''Unhandled interupt'')
           else
             (let h2 = h1\<lparr>hpet_frequency := 1000000000000000 div tick_period\<rparr>;
                  h3 = mmio_write_offset_64 (hpet_address h2) 0x10 1 h2
              in Inr (True, h3\<lparr>currentTimerSource := TIMER_SOURCE_HPET, timer_blocking_sleep_fn := Hpet_sleep\<rparr>))))"

definition setup_pit :: "platform \<Rightarrow> platform" where
  "setup_pit h = h\<lparr>timer_blocking_sleep_fn := Pit_sleep, currentTimerSource := TIMER_SOURCE_PIT\<rparr>"

definition ACPI_ADDRESS_TYPE_MMIO :: u16 where "ACPI_ADDRESS_TYPE_MMIO = 0"
definition ACPI_ADDRESS_TYPE_PORT_IO :: u16 where "ACPI_ADDRESS_TYPE_PORT_IO = 1"

text \<open>A reading of zero is given one more chance after four waits.\<close>

definition probe_acpi :: "(platform \<Rightarrow> u32 \<times> platform) \<Rightarrow> sleep_fn \<Rightarrow> platform \<Rightarrow> bool \<times> platform" where
  "probe_acpi rd fn h =
     (case rd h of (v, h1) \<Rightarrow>
        if v \<noteq> 0 then (True, h1\<lparr>currentTimerSource := TIMER_SOURCE_ACPI, timer_blocking_sleep_fn := fn\<rparr>)
        else (case rd (io_wait (io_wait (io_wait (io_wait h1)))) of (w, h2) \<Rightarrow>
          if w \<noteq> 0 then (True, h2\<lparr>currentTimerSource := TIMER_SOURCE_ACPI, timer_blocking_sleep_fn := fn\<rparr>)
          else (False, h2)))"

definition setup_acpi_timer :: "platform \<Rightarrow> bool \<times> platform" where
  "setup_acpi_timer h =
     (if acpi_timer_address h = 0 then (False, h)
      else if acpi_timer_address_type h = ACPI_ADDRESS_TYPE_MMIO
      then probe_acpi (mmio_read_32 (acpi_timer_address h)) Acpi_mmio_sleep h
      else if acpi_timer_address_type h = ACPI_ADDRESS_TYPE_PORT_IO
      then probe_acpi (inl (ucast (acpi_timer_address h))) Acpi_port_sleep h
      else (True, h))"

text \<open>The calibration of the time-stamp counter: three sleeps of 50 ms.\<close>

fun tsc_calibrate :: "nat \<Rightarrow> u64 \<Rightarrow> platform \<Rightarrow> (u64 \<times> platform) kres option" where
  "tsc_calibrate 0 acc h = Some (Inr (acc, h))"
| "tsc_calibrate (Suc n) acc h =
     (case read_tsc h of (start, h1) \<Rightarrow>
        (case timer_blocking_sleep_ms 50 h1 of
           None \<Rightarrow> None
         | Some (Inl e) \<Rightarrow> Some (Inl e)
         | Some (Inr h2) \<Rightarrow>
             (case read_tsc h2 of (stop, h3) \<Rightarrow> tsc_calibrate n (acc + (stop - start)) h3)))"

definition tsc_finish :: "platform \<Rightarrow> bool \<times> platform" where
  "tsc_finish h =
     (if tsc_frequency h < 10000000 then (False, h\<lparr>tsc_good := False\<rparr>)
      else if tsc_good h then (True, h\<lparr>currentTimerSource := TIMER_SOURCE_TSC\<rparr>) else (False, h))"

definition setup_tsc :: "platform \<Rightarrow> (bool \<times> platform) kres option" where
  "setup_tsc h =
     (if cpuid_extended_supported 0x80000007 h \<and> \<not> cpu_feature_bit 0x80000007 0 CHR ''d'' 8 h
      then Some (Inr (False, h\<lparr>tsc_good := False\<rparr>))
      else
        (let f = cpuid 0x15 0 h
         in if cpuid_standard_supported 0x15 h \<and> eax f \<noteq> 0 \<and> ebx f \<noteq> 0 \<and> ecx f \<noteq> 0
            then Some (Inr (tsc_finish (h\<lparr>tsc_frequency := ucast (ecx f) * (ucast (ebx f) div ucast (eax f)), tsc_good := True\<rparr>)))
            else if currentTimerSource h = TIMER_SOURCE_NONE then Some (Inr (False, h\<lparr>tsc_good := False\<rparr>))
            else (case tsc_calibrate 3 0 h of
                    None \<Rightarrow> None
                  | Some (Inl e) \<Rightarrow> Some (Inl e)
                  | Some (Inr (acc, h1)) \<Rightarrow>
                      Some (Inr (tsc_finish (h1\<lparr>tsc_frequency := acc * 20 div 3, tsc_good := True\<rparr>))))))"

definition setup_timer :: "platform \<Rightarrow> platform kres option" where
  "setup_timer h =
     (case setup_acpi_timer h of (ok, h1) \<Rightarrow>
        case (if ok then Inr h1 else kbind (setup_hpet h1) (\<lambda>(ok2, h2). Inr (if ok2 then h2 else setup_pit h2))) of
          Inl e \<Rightarrow> Some (Inl e)
        | Inr h3 \<Rightarrow> map_option (\<lambda>r. kbind r (\<lambda>(_, h4). Inr h4)) (setup_tsc h3))"

section \<open>The 8259 controllers\<close>

definition pic_send_eoi :: "u8 \<Rightarrow> 'a hw_scheme \<Rightarrow> 'a hw_scheme" where
  "pic_send_eoi irq h = outb 0x20 0x20 (if irq \<ge> 8 then outb 0xA0 0x20 h else h)"

definition pic_unmask_irq :: "u8 \<Rightarrow> 'a hw_scheme \<Rightarrow> 'a hw_scheme" where
  "pic_unmask_irq IRQline h =
     (let port = (if IRQline < 8 then 0x21 else 0xA1);
          line = (if IRQline < 8 then IRQline else IRQline - 8)
      in case inb port h of (v, h1) \<Rightarrow> outb port (v AND NOT (push_bit (unat line) 1)) h1)"

definition setup_pic :: "u8 \<Rightarrow> u8 \<Rightarrow> platform \<Rightarrow> platform" where
  "setup_pic offset1 offset2 h =
     (fold (\<lambda>(port, v). outbd port v)
        [(0x20, 0x11), (0xA0, 0x11), (0x21, offset1), (0xA1, offset2), (0x21, 4), (0xA1, 2),
         (0x21, 1), (0xA1, 1), (0x21, 0xFF), (0xA1, 0xFF)] h)
     \<lparr>unmask_fn_ptr := Pic_unmask, send_eoi_ptr := Pic_eoi\<rparr>"

section \<open>The speaker\<close>

definition play_sound :: "u16 \<Rightarrow> 'a hw_scheme \<Rightarrow> 'a hw_scheme" where
  "play_sound dx h =
     (let h1 = outb 0x42 (ucast (drop_bit 8 dx AND 0xFF)) (outb 0x42 (ucast (dx AND 0xFF)) (outb 0x43 0xB6 h))
      in case inb 0x61 h1 of (al, h2) \<Rightarrow> outb 0x61 (al OR 3) h2)"

definition stop_sound :: "'a hw_scheme \<Rightarrow> 'a hw_scheme" where
  "stop_sound h = (case inb 0x61 h of (al, h1) \<Rightarrow> outb 0x61 (al AND 0xFC) h1)"

section \<open>Mapping device registers\<close>

definition PTE_PWT :: u64 where "PTE_PWT = 0x8"

definition MMIO_FLAGS :: u64 where
  "MMIO_FLAGS = PTE_PRESENT OR PTE_WRITABLE OR PTE_NX OR PTE_PCD OR PTE_PWT"

text \<open>Two pages of address space, mapped to two physical pages.\<close>

definition map_device :: "u64 \<Rightarrow> u64 \<Rightarrow> platform \<Rightarrow> (u64 \<times> platform) kres" where
  "map_device pa1 pa2 h =
     (let k = pkm h;
          (va, pm1) = valloc (kernel_pagemap k) (PAGE_SIZE * 2);
          f0 = hpmm (kheap k)
      in kbind (vmm_map_page (top_level pm1) va pa1 MMIO_FLAGS PAGE_SIZE f0) (\<lambda>f1.
         kbind (vmm_map_page (top_level pm1) (va + PAGE_SIZE) pa2 MMIO_FLAGS PAGE_SIZE f1) (\<lambda>f2.
         Inr (va, h\<lparr>pkm := set_kpmm f2 (k\<lparr>kernel_pagemap := pm1\<rparr>)\<rparr>))))"

section \<open>The local APIC\<close>

definition APIC_MODE_TSC_DEADLINE :: u32 where "APIC_MODE_TSC_DEADLINE = 0x40000"
definition APIC_MODE_PERIODIC :: u32 where "APIC_MODE_PERIODIC = 0x20000"
definition APIC_MODE_MASKED :: u32 where "APIC_MODE_MASKED = 0x10000"

definition MSR_APIC_BASE :: u32 where "MSR_APIC_BASE = 0x1B"
definition MSR_TSC_DEADLINE :: u32 where "MSR_TSC_DEADLINE = 0x6E0"
definition x2APIC_ID :: u32 where "x2APIC_ID = 0x802"
definition x2APIC_EOI :: u32 where "x2APIC_EOI = 0x80B"
definition x2APIC_SVR :: u32 where "x2APIC_SVR = 0x80F"
definition x2APIC_TIMER :: u32 where "x2APIC_TIMER = 0x832"
definition x2APIC_TIMER_ICOUNT :: u32 where "x2APIC_TIMER_ICOUNT = 0x838"
definition x2APIC_TIMER_CCOUNT :: u32 where "x2APIC_TIMER_CCOUNT = 0x839"
definition x2APIC_TIMER_DIVIDE :: u32 where "x2APIC_TIMER_DIVIDE = 0x83E"

definition xapic_get_id :: "platform \<Rightarrow> u32 \<times> platform" where
  "xapic_get_id h =
     (case mmio_read_offset_32 (apic_address h) 0x20 h of (v, h1) \<Rightarrow> (drop_bit 24 v AND 0xFF, h1))"

definition x2apic_get_id :: "platform \<Rightarrow> u32 \<times> platform" where
  "x2apic_get_id h = (case rdmsr x2APIC_ID h of (v, h1) \<Rightarrow> (ucast v, h1))"

definition xapic_send_eoi :: "u8 \<Rightarrow> platform \<Rightarrow> platform" where
  "xapic_send_eoi irq h = mmio_write_offset_32 (apic_address h) 0xB0 0 h"

definition x2apic_send_eoi :: "u8 \<Rightarrow> platform \<Rightarrow> platform" where
  "x2apic_send_eoi irq h = wrmsr x2APIC_EOI 0 h"

text \<open>Arming the next millisecond, and what every tick does after counting.\<close>

definition arm_deadline :: "platform \<Rightarrow> platform" where
  "arm_deadline h = (case read_tsc h of (now, h1) \<Rightarrow> wrmsr MSR_TSC_DEADLINE (now + tsc_frequency h1 div 1000) h1)"

definition request_preempt :: "platform \<Rightarrow> platform" where
  "request_preempt h = (if shouldSchedule h then h\<lparr>irq_should_preempt := True\<rparr> else h)"

definition xapic_tsc_deadline_isr :: "platform \<Rightarrow> platform" where
  "xapic_tsc_deadline_isr h = request_preempt (arm_deadline (h\<lparr>xapic_timer_ms := xapic_timer_ms h + 1\<rparr>))"

definition xapic_periodic_isr :: "platform \<Rightarrow> platform" where
  "xapic_periodic_isr h = request_preempt (h\<lparr>xapic_timer_ms := xapic_timer_ms h + 1\<rparr>)"

definition x2apic_tsc_deadline_isr :: "platform \<Rightarrow> platform" where
  "x2apic_tsc_deadline_isr h = request_preempt (arm_deadline (h\<lparr>x2apic_timer_ms := x2apic_timer_ms h + 1\<rparr>))"

definition x2apic_periodic_isr :: "platform \<Rightarrow> platform" where
  "x2apic_periodic_isr h = request_preempt (h\<lparr>x2apic_timer_ms := x2apic_timer_ms h + 1\<rparr>)"

text \<open>A call through a pointer that is still null jumps to address 0 and faults.\<close>

definition apic_timer_isr :: "platform \<Rightarrow> platform kres" where
  "apic_timer_isr h = (case apic_timer_isr_ptr h of
       Timer_isr_none \<Rightarrow> Inl (Panic ''call through a null pointer'')
     | Xapic_deadline \<Rightarrow> Inr (xapic_tsc_deadline_isr h)
     | Xapic_periodic \<Rightarrow> Inr (xapic_periodic_isr h)
     | X2apic_deadline \<Rightarrow> Inr (x2apic_tsc_deadline_isr h)
     | X2apic_periodic \<Rightarrow> Inr (x2apic_periodic_isr h))"

definition deadline_mode :: "platform \<Rightarrow> bool" where
  "deadline_mode h \<longleftrightarrow> cpuid_standard_supported 1 h \<and> tsc_good h \<and> cpu_feature_bit 1 0 CHR ''c'' 24 h"

definition setup_x2apic :: "platform \<Rightarrow> platform kres option" where
  "setup_x2apic h0 =
     (let h = h0\<lparr>send_eoi_ptr := X2apic_eoi, timer_get_ms_fn := X2apic_get_ms, apic_get_id_ptr := X2apic_id\<rparr>
      in case rdmsr MSR_APIC_BASE h of (base0, h1) \<Rightarrow>
        let enabled = bit base0 11; x2_enabled = bit base0 10;
            base1 = (if enabled then base0 else base0 OR push_bit 11 1);
            h2 = (if enabled then h1 else wrmsr MSR_APIC_BASE base1 h1);
            base2 = (if x2_enabled then base1 else base1 OR push_bit 10 1);
            h3 = (if x2_enabled then h2 else wrmsr MSR_APIC_BASE base2 h2)
        in case rdmsr x2APIC_SVR h3 of (svr, h4) \<Rightarrow>
          let h5 = wrmsr x2APIC_SVR (svr OR 0x1FF) h4
          in if deadline_mode h5
             then Some (Inr (arm_deadline (wrmsr x2APIC_TIMER (0x20 OR ucast APIC_MODE_TSC_DEADLINE)
                    (h5\<lparr>apic_timer_isr_ptr := X2apic_deadline, timer_get_ms_fn := X2apic_get_ms\<rparr>))))
             else (case timer_blocking_sleep_ms 10 (wrmsr x2APIC_TIMER_ICOUNT 0xFFFFFFFF (wrmsr x2APIC_TIMER_DIVIDE 3 h5)) of
                     None \<Rightarrow> None
                   | Some (Inl e) \<Rightarrow> Some (Inl e)
                   | Some (Inr h6) \<Rightarrow>
                       (case rdmsr x2APIC_TIMER_CCOUNT (wrmsr x2APIC_TIMER (ucast APIC_MODE_MASKED) h6) of (cnt, h7) \<Rightarrow>
                          let ticksIn10ms = (ucast (0xFFFFFFFF - cnt) :: u32);
                              h8 = wrmsr x2APIC_TIMER_ICOUNT (ucast (ticksIn10ms div 10))
                                     (wrmsr x2APIC_TIMER (0x20 OR ucast APIC_MODE_PERIODIC) (wrmsr x2APIC_TIMER_DIVIDE 3 h7))
                          in Some (Inr (h8\<lparr>timer_get_ms_fn := X2apic_get_ms, apic_timer_isr_ptr := X2apic_periodic\<rparr>)))))"

definition setup_apic :: "platform \<Rightarrow> (u16 \<times> platform) kres option" where
  "setup_apic h0 =
     (if cpu_feature_bit 1 0 CHR ''c'' 21 h0
      then map_option (\<lambda>r. kbind r (\<lambda>h. Inr (2, h))) (setup_x2apic h0)
      else
        (case rdmsr MSR_APIC_BASE (h0\<lparr>apic_get_id_ptr := Xapic_id, send_eoi_ptr := Xapic_eoi\<rparr>) of (base0, h1) \<Rightarrow>
          let h2 = (if bit base0 11 then h1 else wrmsr MSR_APIC_BASE (base0 OR push_bit 11 1) h1)
          in case rdmsr MSR_APIC_BASE h2 of (base1, h3) \<Rightarrow>
            let phys = ALIGN_DOWN base1 PAGE_SIZE
            in case map_device phys phys h3 of
                 Inl e \<Rightarrow> Some (Inl e)
               | Inr (va, h4) \<Rightarrow>
                   (case mmio_read_offset_32 va 0xF0 (h4\<lparr>apic_address := va\<rparr>) of (svr, h5) \<Rightarrow>
                      let h6 = mmio_write_offset_32 va 0xF0 (svr OR 0x1FF) h5
                      in if deadline_mode h6
                         then Some (Inr (0, arm_deadline (mmio_write_offset_32 va 0x320 (0x20 OR APIC_MODE_TSC_DEADLINE)
                                (h6\<lparr>apic_timer_isr_ptr := Xapic_deadline, timer_get_ms_fn := Xapic_get_ms\<rparr>))))
                         else
                           (case timer_blocking_sleep_ms 10 (mmio_write_offset_32 va 0x380 0xFFFFFFFF (mmio_write_offset_32 va 0x3E0 3
                                   (h6\<lparr>timer_get_ms_fn := Xapic_get_ms, apic_timer_isr_ptr := Xapic_periodic\<rparr>))) of
                              None \<Rightarrow> None
                            | Some (Inl e) \<Rightarrow> Some (Inl e)
                            | Some (Inr h7) \<Rightarrow>
                                (case mmio_read_offset_32 va 0x390 (mmio_write_offset_32 va 0x320 APIC_MODE_MASKED h7) of (cnt, h8) \<Rightarrow>
                                   let ticksIn10ms = 0xFFFFFFFF - cnt
                                   in Some (Inr (0, mmio_write_offset_32 va 0x380 (ticksIn10ms div 10)
                                        (mmio_write_offset_32 va 0x320 (0x20 OR APIC_MODE_PERIODIC)
                                           (mmio_write_offset_32 va 0x3E0 3 h8)))))))))"

definition apic_get_id :: "platform \<Rightarrow> (u32 \<times> platform) kres" where
  "apic_get_id h = (case apic_get_id_ptr h of
       Apic_id_none \<Rightarrow> Inl (Panic ''call through a null pointer'')
     | Xapic_id \<Rightarrow> Inr (xapic_get_id h)
     | X2apic_id \<Rightarrow> Inr (x2apic_get_id h))"

section \<open>The I/O APIC\<close>

definition ioapic_read :: "ioapic_t \<Rightarrow> u32 \<Rightarrow> 'a hw_scheme \<Rightarrow> u32 \<times> 'a hw_scheme" where
  "ioapic_read io reg h = mmio_read_32 (io_address io + 16) (mmio_write_32 (io_address io) reg h)"

definition ioapic_write :: "ioapic_t \<Rightarrow> u32 \<Rightarrow> u32 \<Rightarrow> 'a hw_scheme \<Rightarrow> 'a hw_scheme" where
  "ioapic_write io reg v h = mmio_write_32 (io_address io + 16) v (mmio_write_32 (io_address io) reg h)"

definition ioapic_max_entries :: "ioapic_t \<Rightarrow> 'a hw_scheme \<Rightarrow> u8 \<times> 'a hw_scheme" where
  "ioapic_max_entries io h =
     (case ioapic_read io 1 h of (version, h1) \<Rightarrow> (ucast (drop_bit 16 version AND 0xFF), h1))"

definition ioapic_set_entry :: "ioapic_t \<Rightarrow> u8 \<Rightarrow> u64 \<Rightarrow> 'a hw_scheme \<Rightarrow> 'a hw_scheme" where
  "ioapic_set_entry io index data h =
     ioapic_write io (0x10 + ucast index * 2 + 1) (ucast (drop_bit 32 data))
       (ioapic_write io (0x10 + ucast index * 2) (ucast data) h)"

definition ioapic_map_irq :: "ioapic_t \<Rightarrow> u8 \<Rightarrow> u8 \<Rightarrow> u8 \<Rightarrow> platform \<Rightarrow> platform" where
  "ioapic_map_irq io irq vector destination h =
     (let v = (if irq = 4 \<and> serial_debug h then 0xF0 else vector)
      in ioapic_set_entry io irq (ucast v OR push_bit 56 (ucast destination)) h)"

fun overide_gsi :: "ioapic_irq_overide_t list \<Rightarrow> u8 \<Rightarrow> u8" where
  "overide_gsi [] irq = irq"
| "overide_gsi (ov # ovs) irq = (if ov_irq ov = irq then ov_gsi ov else overide_gsi ovs irq)"

fun find_ioapic :: "ioapic_t list \<Rightarrow> u8 \<Rightarrow> platform \<Rightarrow> ioapic_t option \<times> platform" where
  "find_ioapic [] irq h = (None, h)"
| "find_ioapic (io # ios) irq h =
     (case ioapic_max_entries io h of (max_entries, h1) \<Rightarrow>
        if ucast irq \<ge> gsib io \<and> ucast irq < gsib io + ucast max_entries then (Some io, h1)
        else find_ioapic ios irq h1)"

definition ioapic_unmask_irq :: "u8 \<Rightarrow> platform \<Rightarrow> platform kres" where
  "ioapic_unmask_irq irq h =
     (let actual_irq = overide_gsi (ioapic_irq_overides h) irq
      in case find_ioapic (ioapics h) actual_irq h of
           (None, h1) \<Rightarrow> Inr h1
         | (Some io, h1) \<Rightarrow>
             kbind (apic_get_id h1) (\<lambda>(dest, h2).
               Inr (ioapic_map_irq io actual_irq (irq + 0x20) (ucast dest) h2)))"

definition setup_ioapic :: "platform \<Rightarrow> bool \<times> platform" where
  "setup_ioapic h = (if ioapics h = [] then (False, h) else (True, h\<lparr>unmask_fn_ptr := Ioapic_unmask\<rparr>))"

section \<open>Interrupt requests\<close>

definition unmask_irq :: "u8 \<Rightarrow> platform \<Rightarrow> platform kres" where
  "unmask_irq irq h = (case unmask_fn_ptr h of
       Unmask_stub \<Rightarrow> Inl (Panic ''IRQ tried to be unmasked before IRQ drivers setup'')
     | Pic_unmask \<Rightarrow> Inr (pic_unmask_irq irq h)
     | Ioapic_unmask \<Rightarrow> ioapic_unmask_irq irq h)"

definition send_eoi :: "u8 \<Rightarrow> platform \<Rightarrow> platform kres" where
  "send_eoi irq h = (case send_eoi_ptr h of
       Eoi_stub \<Rightarrow> Inl (Panic ''EOI attempted to be sent before IRQ drivers setup'')
     | Pic_eoi \<Rightarrow> Inr (pic_send_eoi irq h)
     | Xapic_eoi \<Rightarrow> Inr (xapic_send_eoi irq h)
     | X2apic_eoi \<Rightarrow> Inr (x2apic_send_eoi irq h))"

definition setup_irqs :: "platform \<Rightarrow> platform" where
  "setup_irqs h = emit Sti (snd (setup_ioapic (setup_pic 0x20 0x28 (emit Cli h))))"

section \<open>Properties\<close>

lemmas port_simps = outb_def inb_def Let_def hw_simps

text \<open>
  Unmasking line \<open>irq\<close> of the 8259 pair reads the mask of the controller the line belongs to and
  writes it back with exactly that line's bit cleared.
\<close>

lemma pic_unmask_irq_correct:
  assumes "unat irq < 16"
  shows "\<exists>v w. trace (pic_unmask_irq irq h)
      = trace h @ [InB (if irq < 8 then 0x21 else 0xA1) v, OutB (if irq < 8 then 0x21 else 0xA1) w]
    \<and> (\<forall>n < 8. bit w n \<longleftrightarrow> bit v n \<and> n \<noteq> unat irq mod 8)"
proof -
  let ?port = "if irq < 8 then 0x21 else 0xA1 :: u16"
  let ?line = "if irq < 8 then irq else irq - 8"
  define v where "v = (ucast (answer (QInB ?port) h) :: u8)"
  define w where "w = v AND NOT (push_bit (unat ?line) 1)"
  have "unat ?line = unat irq mod 8"
  proof (cases "irq < 8")
    case False
    then have "unat (irq - 8) = unat irq - 8" by (simp add: unat_sub not_less)
    then show ?thesis using False assms by (simp add: word_less_nat_alt mod_if)
  qed (simp add: word_less_nat_alt)
  then have "\<forall>n < 8. bit w n \<longleftrightarrow> bit v n \<and> n \<noteq> unat irq mod 8"
    by (auto simp: w_def bit_simps)
  moreover have "trace (pic_unmask_irq irq h) = trace h @ [InB ?port v, OutB ?port w]"
    by (simp add: pic_unmask_irq_def port_simps v_def w_def)
  ultimately show ?thesis by blast
qed

text \<open>The whole initialisation of the pair as the accesses it makes; both end fully masked.\<close>

lemma setup_pic_accesses:
  "filter (\<lambda>e. e \<noteq> OutB 0x80 0) (drop (length (trace h)) (trace (setup_pic o1 o2 h)))
    = [OutB 0x20 0x11, OutB 0xA0 0x11, OutB 0x21 o1, OutB 0xA1 o2, OutB 0x21 4, OutB 0xA1 2,
       OutB 0x21 1, OutB 0xA1 1, OutB 0x21 0xFF, OutB 0xA1 0xFF]"
  by (simp add: setup_pic_def outbd_def io_wait_def port_simps)

text \<open>Before the set-up both requests panic; after it the 8259 pair or the I/O APIC answers them.\<close>

lemma setup_irqs_installs:
  "unmask_fn_ptr (setup_irqs h) = (if ioapics h = [] then Pic_unmask else Ioapic_unmask)"
  "send_eoi_ptr (setup_irqs h) = Pic_eoi"
  by (simp_all add: setup_irqs_def setup_ioapic_def setup_pic_def emit_def outbd_def io_wait_def outb_def)

text \<open>
  The ACPI timer's 24-bit counter wraps every 4.7 seconds, but differences of readings are
  taken on 32 bits. When the counter wraps between the first two readings, a sleep of any
  length up to a thousand seconds ends with the second reading, after at most one wrap.
\<close>

theorem acpi_timer_wrap_ends_sleep:
  assumes "acpi_timer_address h \<noteq> 0" and "rd h = (v0, h1)" and "rd h1 = (v1, h2)"
    and wrap: "v1 AND 0xFFFFFF < v0 AND 0xFFFFFF" and ms: "0 < ms" "ms \<le> 1000000"
  shows "acpi_timer_sleep rd ms h = Some h2"
proof -
  let ?need = "(3579545 * ms) div 1000"
  let ?last = "v0 AND 0xFFFFFF" and ?cur = "v1 AND 0xFFFFFF"
  have m: "unat (x AND 0xFFFFFF) < 2 ^ 24" for x :: u32
    using unat_and_mask [of x 24] by (simp add: mask_eq_exp_minus_1)
  have um: "unat ms \<le> 1000000" "0 < unat ms" using ms by (simp_all add: word_le_nat_alt word_less_nat_alt unat_gt_0)
  have "unat (3579545 * ms) = 3579545 * unat ms" using um by (simp add: unat_word_ariths)
  then have need: "unat ?need = 3579545 * unat ms div 1000" by (simp add: unat_div)
  have pos: "0 < ?need" using need um by (simp add: word_less_nat_alt div_greater_zero_iff)
  have "unat (?cur - ?last) = 2 ^ 32 + unat ?cur - unat ?last"
    using wrap by (simp add: unat_sub_if' word_less_nat_alt)
  moreover have "unat ?last < 2 ^ 24" by (rule m)
  ultimately have "2 ^ 32 - 2 ^ 24 \<le> unat (?cur - ?last)" by simp
  moreover have "unat (ucast (?cur - ?last) :: u64) = unat (?cur - ?last)"
    by (simp add: unsigned_ucast_eq take_bit_nat_eq_self unsigned_less [THEN less_le_trans])
  moreover have "unat ?need \<le> 3579545000" unfolding need using um by (simp add: div_le_mono)
  ultimately have "\<not> ucast (?cur - ?last) < ?need" by (simp add: word_less_nat_alt)
  then have "acpi_wait rd ?need (ucast (?cur - ?last)) ?cur h2 = Some h2"
    by (subst acpi_wait.simps) simp
  then have "acpi_wait rd ?need 0 ?last h1 = Some h2"
    using pos assms(3) by (subst acpi_wait.simps) (simp add: Let_def)
  then show ?thesis using assms(1,2) by (simp add: acpi_timer_sleep_def)
qed

text \<open>A machine whose ACPI timer stands just before its wrap; interrupt numbers start at 24.\<close>

definition demo_platform :: platform where
  "demo_platform = \<lparr>trace = [], dev = (\<lambda>t q. if t = [] then 0xFFFFF0 else case q of QMmio _ _ \<Rightarrow> 0x170011 | _ \<Rightarrow> 0x10),
     cpuid_of = (\<lambda>_ _. \<lparr>eax = 0, ebx = 0, ecx = 0, edx = 0\<rparr>), timer_blocking_sleep_fn = Acpi_port_sleep,
     timer_get_ms_fn = X2apic_get_ms, currentTimerSource = TIMER_SOURCE_ACPI, shouldSchedule = True,
     hpet_address = 0, hpet_frequency = 0, tsc_frequency = 0, tsc_good = False, acpi_timer_address = 0x608,
     acpi_timer_address_type = 1, unmask_fn_ptr = Ioapic_unmask, send_eoi_ptr = X2apic_eoi,
     apic_get_id_ptr = X2apic_id, apic_timer_isr_ptr = X2apic_periodic, xapic_timer_ms = 0, x2apic_timer_ms = 0,
     apic_address = 0, ioapics = [\<lparr>io_address = 0x9000, gsib = 24\<rparr>], ioapic_irq_overides = [],
     irq_should_preempt = False, serial_debug = False, pkm = demo_kmem\<rparr>"

theorem acpi_timer_wrap_ends_sleep_witness:
  "\<exists>h2. acpi_timer_sleep (inl 0x608) 1000000 demo_platform = Some h2
     \<and> trace h2 = [InL 0x608 0xFFFFF0, InL 0x608 0x10]"
proof -
  let ?h1 = "snd (inl 0x608 demo_platform)" and ?h2 = "snd (inl 0x608 (snd (inl 0x608 demo_platform)))"
  have r: "inl 0x608 demo_platform = (0xFFFFF0, ?h1)" "inl 0x608 ?h1 = (0x10, ?h2)"
    "trace ?h2 = [InL 0x608 0xFFFFF0, InL 0x608 0x10]"
    by (simp_all add: inl_def Let_def answer_def emit_def demo_platform_def)
  have "acpi_timer_sleep (inl 0x608) 1000000 demo_platform = Some ?h2"
    by (rule acpi_timer_wrap_ends_sleep [OF _ r(1,2)]) (simp_all add: demo_platform_def)
  then show ?thesis using r(3) by blast
qed

lemma ioapic_set_entry_trace:
  "trace (ioapic_set_entry io i d h) = trace h @
     [MmioW 32 (io_address io) (ucast (0x10 + ucast i * 2 :: u32)), MmioW 32 (io_address io + 16) (ucast (ucast d :: u32)),
      MmioW 32 (io_address io) (ucast (0x10 + ucast i * 2 + 1 :: u32)),
      MmioW 32 (io_address io + 16) (ucast (ucast (drop_bit 32 d) :: u32))]"
  by (simp add: ioapic_set_entry_def ioapic_write_def mmio_write_32_def emit_def)

text \<open>
  Routing an interrupt through an I/O APIC that serves the interrupts from \<open>gsib\<close> on: the two
  words of a redirection entry are written, with the vector \<open>irq + 0x20\<close> and the identifier of
  the processor, but the entry is the one numbered \<open>irq\<close>, not \<open>irq - gsib\<close>: on every
  controller after the first it is the wrong one.
\<close>

theorem ioapic_unmask_entry:
  assumes ios: "ioapics h = [io]" and ov: "overide_gsi (ioapic_irq_overides h) irq = irq"
    and mx: "ioapic_max_entries io h = (mx, h1)" and rng: "gsib io \<le> ucast irq" "ucast irq < gsib io + ucast mx"
    and id: "apic_get_id h1 = Inr (dest, h2)" and irq: "\<not> (irq = 4 \<and> serial_debug h2)"
  shows "\<exists>h3. ioapic_unmask_irq irq h = Inr h3
    \<and> trace h3 = trace h2 @
       [MmioW 32 (io_address io) (0x10 + 2 * ucast irq), MmioW 32 (io_address io + 16) (ucast (irq + 0x20)),
        MmioW 32 (io_address io) (0x11 + 2 * ucast irq), MmioW 32 (io_address io + 16) (push_bit 24 (ucast (ucast dest :: u8)))]"
proof -
  have f: "find_ioapic [io] irq h = (Some io, h1)" using mx rng by simp
  let ?d = "ucast (irq + 0x20) OR push_bit 56 (ucast (ucast dest :: u8)) :: u64"
  have r: "ioapic_unmask_irq irq h = Inr (ioapic_set_entry io irq ?d h2)"
    using f ios ov id irq unfolding ioapic_unmask_irq_def ioapic_map_irq_def Let_def by auto
  have i: "ucast (0x10 + ucast irq * 2 :: u32) = (0x10 + 2 * ucast irq :: u64)"
    "ucast (0x10 + ucast irq * 2 + 1 :: u32) = (0x11 + 2 * ucast irq :: u64)"
  proof -
    have b: "unat irq < 256" using unsigned_less [of irq] by simp
    have u: "unat (ucast irq :: u32) = unat irq" "unat (ucast irq :: u64) = unat irq"
      using b by (simp_all add: unsigned_ucast_eq take_bit_nat_eq_self)
    have s: "unat (0x10 + ucast irq * 2 :: u32) = 16 + 2 * unat irq" "unat (0x10 + ucast irq * 2 + 1 :: u32) = 17 + 2 * unat irq"
      "unat (0x10 + 2 * ucast irq :: u64) = 16 + 2 * unat irq" "unat (0x11 + 2 * ucast irq :: u64) = 17 + 2 * unat irq"
      using b u by (simp_all add: unat_word_ariths)
    have c: "unat (ucast x :: u64) = unat x" for x :: u32
      using unsigned_less [where ?'a = nat and w = x] by (simp add: unsigned_ucast_eq take_bit_nat_eq_self)
    show "ucast (0x10 + ucast irq * 2 :: u32) = (0x10 + 2 * ucast irq :: u64)"
      by (rule word_eq_unatI) (simp only: c s)
    show "ucast (0x10 + ucast irq * 2 + 1 :: u32) = (0x11 + 2 * ucast irq :: u64)"
      by (rule word_eq_unatI) (simp only: c s)
  qed
  have lo: "ucast (ucast ?d :: u32) = (ucast (irq + 0x20) :: u64)"
    by (rule bit_word_eqI) (auto simp: bit_simps dest: bit_imp_le_length)
  have hi: "ucast (ucast (drop_bit 32 ?d) :: u32) = (push_bit 24 (ucast (ucast dest :: u8)) :: u64)"
    by (rule bit_word_eqI) (auto simp: bit_simps dest: bit_imp_le_length)
  show ?thesis unfolding r using ioapic_set_entry_trace [of io irq ?d h2] by (simp only: i lo hi) simp
qed

theorem ioapic_unmask_entry_witness:
  "\<exists>(h2 :: platform) h3. ioapic_unmask_irq 30 demo_platform = Inr h3 \<and> gsib (hd (ioapics demo_platform)) = 24
     \<and> trace h3 = trace h2 @ [MmioW 32 0x9000 76, MmioW 32 0x9010 62, MmioW 32 0x9000 77, MmioW 32 0x9010 0x10000000]"
proof -
  let ?io = "\<lparr>io_address = 0x9000, gsib = 24\<rparr>"
  let ?m = "ioapic_max_entries ?io demo_platform"
  have m: "?m = (0x17, snd ?m)"
    by (simp add: ioapic_max_entries_def ioapic_read_def mmio_read_32_def mmio_write_32_def answer_def emit_def
        demo_platform_def Let_def)
  have id: "apic_get_id (snd ?m) = Inr (0x10, snd (rdmsr x2APIC_ID (snd ?m)))"
    by (simp add: apic_get_id_def x2apic_get_id_def ioapic_max_entries_def ioapic_read_def mmio_read_32_def
        mmio_write_32_def answer_def emit_def demo_platform_def rdmsr_def Let_def)
  have "\<exists>h3. ioapic_unmask_irq 30 demo_platform = Inr h3 \<and> trace h3 = trace (snd (rdmsr x2APIC_ID (snd ?m))) @
       [MmioW 32 (io_address ?io) (0x10 + 2 * ucast (30 :: u8)), MmioW 32 (io_address ?io + 16) (ucast (30 + 0x20 :: u8)),
        MmioW 32 (io_address ?io) (0x11 + 2 * ucast (30 :: u8)), MmioW 32 (io_address ?io + 16) (push_bit 24 (ucast (ucast (0x10 :: u32) :: u8)))]"
    by (rule ioapic_unmask_entry [OF _ _ m _ _ id]) (simp_all add: demo_platform_def)
  then obtain h3 where "ioapic_unmask_irq 30 demo_platform = Inr h3" "trace h3 = trace (snd (rdmsr x2APIC_ID (snd ?m))) @
      [MmioW 32 0x9000 76, MmioW 32 0x9010 62, MmioW 32 0x9000 77, MmioW 32 0x9010 0x10000000]"
    by (auto simp: push_bit_eq_mult)
  moreover have "gsib (hd (ioapics demo_platform)) = 24" by (simp add: demo_platform_def)
  ultimately show ?thesis by blast
qed

end
