(* ===== verification/Elf.thy ===== *)
theory Elf
  imports Vmm
begin

text \<open>
  The ELF checker (\<open>elf/elf_checker.c\<close>) and loader (\<open>elf/elf_loader.c\<close>) over the structures of
  \<open>elf/elf_structs.h\<close>. The file is read where it lies in memory; a segment is loaded page by
  page into fresh frames that are mapped into the process's page map. The checker is
  characterised exactly, and every page of a segment is shown to hold the bytes the program
  header asks for.
\<close>

section \<open>The file format\<close>

definition read16 :: "mem \<Rightarrow> u64 \<Rightarrow> u16" where
  "read16 m a = ucast (m a) OR push_bit 8 (ucast (m (a + 1)))"

definition read32 :: "mem \<Rightarrow> u64 \<Rightarrow> u32" where
  "read32 m a = ucast (m a) OR push_bit 8 (ucast (m (a + 1))) OR push_bit 16 (ucast (m (a + 2)))
     OR push_bit 24 (ucast (m (a + 3)))"

definition ELF_32_BIT :: u8 where "ELF_32_BIT = 1"
definition ELF_64_BIT :: u8 where "ELF_64_BIT = 2"
definition ELF_LITTLE_ENDIAN :: u8 where "ELF_LITTLE_ENDIAN = 1"
definition ELF_BIG_ENDIAN :: u8 where "ELF_BIG_ENDIAN = 2"
definition ELF_HEADER_VER :: u8 where "ELF_HEADER_VER = 1"
definition ELF_VER :: u32 where "ELF_VER = 1"
definition ELF_SYSV_ABI :: u8 where "ELF_SYSV_ABI = 0"
definition ELF_EXECUTABLE_TYPE :: u16 where "ELF_EXECUTABLE_TYPE = 2"
definition ELF_X86_64_ARCH :: u16 where "ELF_X86_64_ARCH = 0x3E"
definition ELF_PROG_PT_LOAD_TYPE :: u32 where "ELF_PROG_PT_LOAD_TYPE = 1"
definition ELF_PROG_EXEC_FLAG :: u32 where "ELF_PROG_EXEC_FLAG = 1"
definition ELF_PROG_WRITE :: u32 where "ELF_PROG_WRITE = 2"

record elf_header_64 =
  e_magic :: "u8 list"
  e_bits :: u8
  e_endianness :: u8
  e_header_version :: u8
  e_abi :: u8
  e_abi_extra :: u8
  e_padding1 :: u32
  e_padding2 :: u16
  e_padding3 :: u8
  e_type :: u16
  e_arch :: u16
  e_elf_version :: u32
  e_entry_point :: u64
  e_program_header_table :: u64
  e_section_header_table :: u64
  e_arch_flags :: u32
  e_elf_header_size :: u16
  e_program_header_size :: u16
  e_program_header_entries :: u16
  e_section_header_size :: u16
  e_section_header_entries :: u16
  e_section_name_index :: u16

text \<open>The packed structure at the start of the file.\<close>

definition elf_header_at :: "mem \<Rightarrow> u64 \<Rightarrow> elf_header_64" where
  "elf_header_at m f =
     \<lparr>e_magic = [m f, m (f + 1), m (f + 2), m (f + 3)], e_bits = m (f + 4), e_endianness = m (f + 5),
      e_header_version = m (f + 6), e_abi = m (f + 7), e_abi_extra = m (f + 8), e_padding1 = read32 m (f + 9),
      e_padding2 = read16 m (f + 13), e_padding3 = m (f + 15), e_type = read16 m (f + 16), e_arch = read16 m (f + 18),
      e_elf_version = read32 m (f + 20), e_entry_point = read64 m (f + 24),
      e_program_header_table = read64 m (f + 32), e_section_header_table = read64 m (f + 40),
      e_arch_flags = read32 m (f + 48), e_elf_header_size = read16 m (f + 52),
      e_program_header_size = read16 m (f + 54), e_program_header_entries = read16 m (f + 56),
      e_section_header_size = read16 m (f + 58), e_section_header_entries = read16 m (f + 60),
      e_section_name_index = read16 m (f + 62)\<rparr>"

record elf_program_header_64 =
  p_type :: u32
  p_flags :: u32
  p_offset :: u64
  p_virt_addr :: u64
  p_phys_addr :: u64
  p_file_size :: u64
  p_mem_size :: u64
  p_alignment :: u64

definition elf_program_header_at :: "mem \<Rightarrow> u64 \<Rightarrow> elf_program_header_64" where
  "elf_program_header_at m a =
     \<lparr>p_type = read32 m a, p_flags = read32 m (a + 4), p_offset = read64 m (a + 8), p_virt_addr = read64 m (a + 16),
      p_phys_addr = read64 m (a + 24), p_file_size = read64 m (a + 32), p_mem_size = read64 m (a + 40),
      p_alignment = read64 m (a + 48)\<rparr>"

record elf_info =
  entry_point :: u64
  phdr :: u64
  phentsize :: u64
  phnum :: u64

section \<open>The checker\<close>

definition verify_elf_magic :: "elf_header_64 \<Rightarrow> bool" where
  "verify_elf_magic h \<longleftrightarrow>
     e_magic h ! 0 = 0x7F \<and> e_magic h ! 1 = 0x45 \<and> e_magic h ! 2 = 0x4C \<and> e_magic h ! 3 = 0x46"

definition verify_elf_64 :: "elf_header_64 \<Rightarrow> bool" where
  "verify_elf_64 h =
     (if \<not> verify_elf_magic h then False
      else if e_header_version h \<noteq> ELF_HEADER_VER then False
      else if e_elf_version h \<noteq> ELF_VER then False
      else if e_bits h \<noteq> ELF_64_BIT \<and> e_bits h \<noteq> ELF_32_BIT then False
      else if e_endianness h \<noteq> ELF_LITTLE_ENDIAN then False
      else if e_arch h \<noteq> ELF_X86_64_ARCH then False
      else if e_abi h \<noteq> ELF_SYSV_ABI then False
      else if e_type h \<noteq> ELF_EXECUTABLE_TYPE then False
      else True)"

section \<open>The loader\<close>

text \<open>The three writes that fill one page through the direct map.\<close>

definition load_page_bytes :: "u64 \<Rightarrow> u64 \<Rightarrow> u64 \<Rightarrow> u64 \<Rightarrow> mem \<Rightarrow> mem" where
  "load_page_bytes vpage offset src toCopy m =
     (let space = PAGE_SIZE - offset;
          m1 = (if offset \<noteq> 0 then fst (memset m vpage 0 offset) else m);
          m2 = (if toCopy \<noteq> 0 then fst (memcpy m1 (vpage + offset) src toCopy) else m1)
      in if space > toCopy then fst (memset m2 (vpage + offset + toCopy) 0 (space - toCopy)) else m2)"

text \<open>
  The loop over the pages of a segment: \<open>n\<close> pages are left, \<open>p\<close> is the number of the next one. The
  local \<open>ALIGN_UP\<close> of the file adds before it subtracts, which is the same on words.
\<close>

primrec load_pages :: "u64 \<Rightarrow> u64 \<Rightarrow> u64 \<Rightarrow> nat \<Rightarrow> nat \<Rightarrow> u64 \<Rightarrow> u64 \<Rightarrow> u64 \<Rightarrow> pmm \<Rightarrow> pmm kres" where
  "load_pages pml4 pte_flags vaddr_offset 0 p currentVirtAddr src fileRemaining s = Inr s"
| "load_pages pml4 pte_flags vaddr_offset (Suc n) p currentVirtAddr src fileRemaining s =
     kbind (allocate_page s) (\<lambda>(ppage, s1).
       let vpage = ppage + hhdmOffset s1
       in kbind (vmm_map_page pml4 currentVirtAddr ppage pte_flags PAGE_SIZE s1) (\<lambda>s2.
            let offset = (if p = 0 then vaddr_offset else 0);
                space = PAGE_SIZE - offset;
                toCopy = (if fileRemaining < space then fileRemaining else space)
            in load_pages pml4 pte_flags vaddr_offset n (Suc p) (currentVirtAddr + PAGE_SIZE)
                 (src + toCopy) (fileRemaining - toCopy)
                 (s2\<lparr>kmem := load_page_bytes vpage offset src toCopy (kmem s2)\<rparr>)))"

definition segment_flags :: "elf_program_header_64 \<Rightarrow> u64" where
  "segment_flags ph =
     PTE_PRESENT OR PTE_USER OR (if p_flags ph AND ELF_PROG_WRITE \<noteq> 0 then PTE_WRITABLE else 0)
     OR (if p_flags ph AND ELF_PROG_EXEC_FLAG = 0 then PTE_NX else 0)"

definition load_segment :: "u64 \<Rightarrow> elf_program_header_64 \<Rightarrow> pagemap \<times> pmm \<Rightarrow> (pagemap \<times> pmm) kres" where
  "load_segment f ph st =
     (case st of (pm, s) \<Rightarrow>
        if p_type ph \<noteq> ELF_PROG_PT_LOAD_TYPE then Inr (pm, s)
        else
          (let start = p_virt_addr ph;
               end_addr = start + p_mem_size ph;
               aligned_start = start AND NOT (PAGE_SIZE - 1);
               aligned_end = ALIGN_UP end_addr PAGE_SIZE;
               pagesToMap = (aligned_end - aligned_start) div PAGE_SIZE;
               currentVirtAddr = (if p_alignment ph > 1 then p_virt_addr ph AND NOT (p_alignment ph - 1) else p_virt_addr ph);
               vaddr_offset = p_virt_addr ph - currentVirtAddr;
               pm1 = snd (valloc_fixed pm (p_mem_size ph + vaddr_offset) currentVirtAddr False)
           in kbind (load_pages (top_level pm1) (segment_flags ph) vaddr_offset (unat pagesToMap) 0 currentVirtAddr
                       (f + p_offset ph) (p_file_size ph) s)
                (\<lambda>s1. Inr (pm1, s1))))"

fun load_base_of :: "elf_program_header_64 list \<Rightarrow> u64" where
  "load_base_of [] = 0"
| "load_base_of (ph # phs) =
     (if p_type ph = ELF_PROG_PT_LOAD_TYPE then p_virt_addr ph - p_offset ph else load_base_of phs)"

text \<open>
  The headers are read from the file again for every segment; loading writes only frames it
  has just allocated.
\<close>

fun load_segments :: "u64 \<Rightarrow> u64 \<Rightarrow> nat \<Rightarrow> pagemap \<times> pmm \<Rightarrow> (pagemap \<times> pmm) kres" where
  "load_segments f table 0 st = Inr st"
| "load_segments f table (Suc n) st =
     kbind (load_segment f (elf_program_header_at (kmem (snd st)) table) st)
       (load_segments f (table + 56) n)"

definition load_elf :: "u64 \<Rightarrow> pagemap \<Rightarrow> pmm \<Rightarrow> (elf_info \<times> pagemap \<times> pmm) kres" where
  "load_elf f pm s =
     (let h = elf_header_at (kmem s) f
      in if \<not> verify_elf_64 h then Inr (\<lparr>entry_point = 0, phdr = 0, phentsize = 0, phnum = 0\<rparr>, pm, s)
         else
           (let table = f + e_program_header_table h;
                entries = unat (e_program_header_entries h);
                load_base = load_base_of (map (\<lambda>i. elf_program_header_at (kmem s) (table + 56 * of_nat i)) [0..<entries])
            in kbind (load_segments f table entries (pm, s)) (\<lambda>(pm1, s1).
                 Inr (\<lparr>entry_point = e_entry_point h, phdr = load_base + e_program_header_table h,
                       phentsize = ucast (e_program_header_size h), phnum = ucast (e_program_header_entries h)\<rparr>,
                      pm1, s1))))"

section \<open>What the checker accepts\<close>

text \<open>
  The checker accepts exactly the little-endian System V executables for x86-64 with the
  right versions, whether their class byte says 64 bit or 32 bit; a 32-bit file is reported
  as unsupported and accepted all the same.
\<close>

theorem verify_elf_64_iff:
  "verify_elf_64 h \<longleftrightarrow> verify_elf_magic h \<and> e_header_version h = 1 \<and> e_elf_version h = 1
     \<and> e_bits h \<in> {ELF_64_BIT, ELF_32_BIT} \<and> e_endianness h = ELF_LITTLE_ENDIAN \<and> e_arch h = ELF_X86_64_ARCH
     \<and> e_abi h = ELF_SYSV_ABI \<and> e_type h = ELF_EXECUTABLE_TYPE"
  by (auto simp: verify_elf_64_def ELF_HEADER_VER_def ELF_VER_def)

section \<open>What a page of a segment holds\<close>

text \<open>The source and what is left to copy when the loop reaches page \<open>p\<close>, as the loop computes them.\<close>

primrec page_vars :: "u64 \<Rightarrow> u64 \<Rightarrow> u64 \<Rightarrow> nat \<Rightarrow> u64 \<times> u64" where
  "page_vars vaddr_offset src fileRemaining 0 = (src, fileRemaining)"
| "page_vars vaddr_offset src fileRemaining (Suc p) =
     (case page_vars vaddr_offset src fileRemaining p of (s, r) \<Rightarrow>
        let space = PAGE_SIZE - (if p = 0 then vaddr_offset else 0);
            toCopy = (if r < space then r else space)
        in (s + toCopy, r - toCopy))"

text \<open>These are the variables with which the loop goes on after its first pages.\<close>

lemma kbind_assoc: "kbind (kbind r f) g = kbind r (\<lambda>x. kbind (f x) g)"
  by (simp add: kbind_def split: sum.splits)

lemma load_pages_split:
  "page_vars voff src fs p = (c, r) \<Longrightarrow>
   load_pages pml4 fl voff (n + k) p v c r s =
     kbind (load_pages pml4 fl voff n p v c r s) (\<lambda>s'.
       load_pages pml4 fl voff k (p + n) (v + of_nat n * PAGE_SIZE)
         (fst (page_vars voff src fs (p + n))) (snd (page_vars voff src fs (p + n))) s')"
proof (induction n arbitrary: p v c r s)
  case (Suc n)
  define t where "t = (let space = PAGE_SIZE - (if p = 0 then voff else 0) in if r < space then r else space)"
  have pv: "page_vars voff src fs (Suc p) = (c + t, r - t)" using Suc.prems by (simp add: t_def Let_def)
  have v: "v + PAGE_SIZE + of_nat n * PAGE_SIZE = v + of_nat (Suc n) * PAGE_SIZE" by (simp add: algebra_simps)
  define G where "G = kbind (allocate_page s) (\<lambda>(ppage, s1).
      kbind (vmm_map_page pml4 v ppage fl PAGE_SIZE s1) (\<lambda>s2.
        Inr (s2\<lparr>kmem := load_page_bytes (ppage + hhdmOffset s1) (if p = 0 then voff else 0) c t (kmem s2)\<rparr>)))"
  have step: "load_pages pml4 fl voff (Suc n') p v c r s
      = kbind G (load_pages pml4 fl voff n' (Suc p) (v + PAGE_SIZE) (c + t) (r - t))" for n'
    by (simp add: G_def kbind_assoc t_def Let_def case_prod_unfold)
  have "load_pages pml4 fl voff (Suc n + k) p v c r s = kbind G (load_pages pml4 fl voff (n + k) (Suc p) (v + PAGE_SIZE) (c + t) (r - t))"
    using step [of "n + k"] by simp
  also have "\<dots> = kbind G (\<lambda>s1. kbind (load_pages pml4 fl voff n (Suc p) (v + PAGE_SIZE) (c + t) (r - t) s1)
      (load_pages pml4 fl voff k (Suc p + n) (v + of_nat (Suc n) * PAGE_SIZE)
         (fst (page_vars voff src fs (Suc p + n))) (snd (page_vars voff src fs (Suc p + n)))))"
    using Suc.IH [OF pv, of "v + PAGE_SIZE"] v by presburger
  finally show ?case unfolding step kbind_assoc by (simp del: page_vars.simps load_pages.simps)
qed simp

text \<open>The byte a segment has at distance \<open>k\<close> from its first page: zero, file, zero.\<close>

definition segment_byte :: "mem \<Rightarrow> u64 \<Rightarrow> nat \<Rightarrow> nat \<Rightarrow> nat \<Rightarrow> u8" where
  "segment_byte m src voff fsize k =
     (if voff \<le> k \<and> k < voff + fsize then m (src + of_nat (k - voff)) else 0)"

lemma page_vars_eq:
  assumes "unat voff \<le> 4096"
  shows "page_vars voff src fs p = (src + of_nat (min (unat fs) (4096 * p - unat voff)),
    of_nat (unat fs - min (unat fs) (4096 * p - unat voff)))"
proof (induction p)
  case (Suc p)
  define c where "c = min (unat fs) (4096 * p - unat voff)"
  let ?off = "if p = 0 then voff else 0"
  have sp: "unat (PAGE_SIZE - ?off) = 4096 - unat ?off"
    using assms by (auto simp: unat_sub word_le_nat_alt)
  have c: "unat (of_nat (unat fs - c) :: u64) = unat fs - c"
    using unat_lt_64 [of fs] by (simp add: unat_of_nat64)
  define t where "t = (if of_nat (unat fs - c) < PAGE_SIZE - ?off then of_nat (unat fs - c) else PAGE_SIZE - ?off)"
  have t: "unat t = min (unat fs - c) (4096 - unat ?off)" using sp c by (simp add: word_less_nat_alt t_def)
  have c': "min (unat fs) (4096 * Suc p - unat voff) = c + unat t"
    unfolding t using assms by (auto simp: c_def)
  have le: "c \<le> unat fs" "unat t \<le> unat fs - c" using t by (simp_all add: c_def)
  have "of_nat (unat fs - c) - t = (of_nat (unat fs - (c + unat t)) :: u64)"
  proof (rule word_eq_unatI)
    have "unat (of_nat (unat fs - c) - t) = unat fs - c - unat t"
      using le(2) c by (simp add: unat_sub word_le_nat_alt del: of_nat_diff)
    also have "\<dots> = unat (of_nat (unat fs - (c + unat t)) :: u64)"
      using unat_lt_64 [of fs] by (subst unat_of_nat64) simp_all
    finally show "unat (of_nat (unat fs - c) - t) = unat (of_nat (unat fs - (c + unat t)) :: u64)" .
  qed
  moreover have "src + of_nat c + t = src + of_nat (c + unat t)" by (simp add: add.assoc)
  moreover have "page_vars voff src fs (Suc p) = (src + of_nat c + t, of_nat (unat fs - c) - t)"
    using Suc by (simp add: c_def [symmetric] t_def Let_def)
  ultimately show ?case unfolding c' by simp
qed (use assms in simp)

lemma load_page_bytes_eq:
  assumes o: "unat off + unat t \<le> 4096" and v: "unat vpage + 4096 < 2 ^ 64"
    and sr: "unat src + unat t < 2 ^ 64" and dis: "unat src + unat t \<le> unat vpage \<or> unat vpage + 4096 \<le> unat src"
  shows "load_page_bytes vpage off src t m = (\<lambda>x. let j = unat (x - vpage) in
     if 4096 \<le> j then m x else if unat off \<le> j \<and> j < unat off + unat t then m (src + of_nat (j - unat off)) else 0)"
proof
  fix x
  define j where "j = unat (x - vpage)"
  have x: "x = vpage + of_nat j" by (simp add: j_def)
  have vo: "unat (vpage + off) = unat vpage + unat off" using o v by (intro unat_add_no_wrap) simp
  have vot: "unat (vpage + off + t) = unat vpage + unat off + unat t"
    using o v vo by (subst unat_add_no_wrap) simp_all
  have sp: "unat (PAGE_SIZE - off) = 4096 - unat off" using o by (simp add: unat_sub word_le_nat_alt)
  have sp2: "unat (PAGE_SIZE - off - t) = 4096 - unat off - unat t"
    using o sp by (subst unat_sub) (simp_all add: word_le_nat_alt)
  have d: "unat (y - b) < n \<longleftrightarrow> unat b \<le> unat y \<and> unat y < unat b + n" if "unat b + n < 2 ^ 64" for y b :: u64 and n
    using that unat_lt_64 [of y] unat_lt_64 [of b] by (auto simp: unat_sub_if')
  have jl: "j < 4096 \<longleftrightarrow> unat vpage \<le> unat x \<and> unat x < unat vpage + 4096" unfolding j_def using v by (intro d)
  have jx: "j = unat x - unat vpage" if "j < 4096" using that jl by (simp add: j_def unat_sub word_le_nat_alt)
  define m1 where "m1 = fill_bytes m vpage 0 (unat off)"
  have m1: "(if off \<noteq> 0 then fst (memset m vpage 0 off) else m) = m1"
    by (auto simp: m1_def memset_eq fill_bytes_def)
  define m2 where "m2 = copied m1 (vpage + off) src (unat t)"
  have m2: "(if t \<noteq> 0 then fst (memcpy m1 (vpage + off) src t) else m1) = m2"
    using rep_movsb_eq [of src "unat t" "vpage + off" m1] sr vo o v dis
    by (auto simp: m2_def memcpy_def copied_def)
  have m3: "load_page_bytes vpage off src t m = fill_bytes m2 (vpage + off + t) 0 (4096 - unat off - unat t)"
    using sp sp2 o unfolding load_page_bytes_def Let_def m1 m2
    by (auto simp: memset_eq word_less_nat_alt fill_bytes_def)
  have f3: "unat (x - (vpage + off + t)) < 4096 - unat off - unat t
      \<longleftrightarrow> unat vpage + unat off + unat t \<le> unat x \<and> unat x < unat vpage + 4096"
    using d [of "vpage + off + t" "4096 - unat off - unat t" x] vot v o by auto
  have f2: "unat (x - (vpage + off)) < unat t \<longleftrightarrow> unat vpage + unat off \<le> unat x \<and> unat x < unat vpage + unat off + unat t"
    using d [of "vpage + off" "unat t" x] vo v o by auto
  have f1: "unat (y - vpage) < unat off \<longleftrightarrow> unat vpage \<le> unat y \<and> unat y < unat vpage + unat off" for y
    using d [of vpage "unat off" y] v o by auto
  have src_out: "m1 (src + (x - (vpage + off))) = m (src + of_nat (j - unat off))"
    if "unat (x - (vpage + off)) < unat t"
  proof -
    have ju: "unat (x - (vpage + off)) = j - unat off"
      using that f2 vo jx jl o by (simp add: unat_sub word_le_nat_alt)
    have eq: "src + (x - (vpage + off)) = src + of_nat (j - unat off)" by (simp flip: ju)
    have "unat (src + (x - (vpage + off))) = unat src + unat (x - (vpage + off))"
      using that sr by (intro unat_add_no_wrap) simp
    then have "\<not> unat (src + (x - (vpage + off)) - vpage) < unat off"
      unfolding f1 using that dis o by auto
    then show ?thesis unfolding m1_def fill_bytes_def eq by simp
  qed
  show "load_page_bytes vpage off src t m x = (let j = unat (x - vpage) in
     if 4096 \<le> j then m x else if unat off \<le> j \<and> j < unat off + unat t then m (src + of_nat (j - unat off)) else 0)"
  proof (cases "j < 4096")
    case True
    then have ux: "unat x = unat vpage + j" using jl jx by simp
    consider "j < unat off" | "unat off \<le> j" "j < unat off + unat t" | "unat off + unat t \<le> j" by linarith
    then show ?thesis
    proof cases
      case 1
      then have "\<not> unat (x - (vpage + off)) < unat t" "unat (x - vpage) < unat off" unfolding f1 f2 ux by simp_all
      then have "m2 x = 0" by (simp add: m2_def copied_def m1_def fill_bytes_def)
      moreover have "\<not> unat (x - (vpage + off + t)) < 4096 - unat off - unat t" unfolding f3 ux using 1 by simp
      ultimately show ?thesis unfolding m3 Let_def j_def [symmetric] using True 1 by (simp add: fill_bytes_def)
    next
      case 2
      then have "unat (x - (vpage + off)) < unat t" unfolding f2 ux by simp
      then have "m2 x = m (src + of_nat (j - unat off))" using src_out by (simp add: m2_def copied_def)
      moreover have "\<not> unat (x - (vpage + off + t)) < 4096 - unat off - unat t" unfolding f3 ux using 2 by simp
      ultimately show ?thesis unfolding m3 Let_def j_def [symmetric] using True 2 by (simp add: fill_bytes_def)
    next
      case 3
      then have "unat (x - (vpage + off + t)) < 4096 - unat off - unat t" unfolding f3 ux using True by simp
      then show ?thesis unfolding m3 Let_def j_def [symmetric] using True 3 by (simp add: fill_bytes_def)
    qed
  next
    case False
    then have n: "\<not> (unat vpage \<le> unat x \<and> unat x < unat vpage + 4096)" using jl by simp
    have "\<not> unat (x - (vpage + off + t)) < 4096 - unat off - unat t" unfolding f3 using n by auto
    moreover have "\<not> unat (x - (vpage + off)) < unat t" unfolding f2 using n o by auto
    moreover have "\<not> unat (x - vpage) < unat off" unfolding f1 using n o by auto
    ultimately have "load_page_bytes vpage off src t m x = m x"
      unfolding m3 by (simp add: fill_bytes_def m2_def copied_def m1_def)
    then show ?thesis unfolding Let_def j_def [symmetric] using False by simp
  qed
qed

text \<open>
  Every byte of every page of a loaded segment is right. With a first-page offset inside one
  page, page \<open>p\<close> is filled so that the byte at distance \<open>k\<close> from the start of the segment's first
  page is zero before the segment begins, the file's byte inside the file part and zero after
  it, and nothing outside the page is written.
\<close>

theorem load_page_holds_segment:
  assumes "unat voff < 4096" and "unat src + unat fs < 2 ^ 64" and "unat vpage + 4096 < 2 ^ 64"
    and "unat src + unat fs \<le> unat vpage \<or> unat vpage + 4096 \<le> unat src"
    and "page_vars voff src fs p = (cur, rem)" and "off = (if p = 0 then voff else 0)"
    and "toCopy = (if rem < PAGE_SIZE - off then rem else PAGE_SIZE - off)"
  shows "(\<forall>j < 4096. load_page_bytes vpage off cur toCopy m (vpage + of_nat j)
        = segment_byte m src (unat voff) (unat fs) (4096 * p + j))
    \<and> (\<forall>x. 4096 \<le> unat (x - vpage) \<longrightarrow> load_page_bytes vpage off cur toCopy m x = m x)"
proof -
  define c where "c = min (unat fs) (4096 * p - unat voff)"
  have cr: "cur = src + of_nat c" "rem = of_nat (unat fs - c)"
    using page_vars_eq [of voff src fs p] assms(1,5) by (simp_all add: c_def del: of_nat_diff)
  have cle: "c \<le> unat fs" by (simp add: c_def)
  have rem: "unat rem = unat fs - c" unfolding cr using unat_lt_64 [of fs] by (simp add: unat_of_nat64 del: of_nat_diff)
  have cur: "unat cur = unat src + c"
    unfolding cr using cle assms(2) by (subst unat_add_no_wrap) (simp_all add: unat_of_nat64)
  have off: "unat off \<le> 4095" "unat (PAGE_SIZE - off) = 4096 - unat off"
    using assms(1,6) by (auto simp: unat_sub word_le_nat_alt)
  have t: "unat toCopy = min (unat fs - c) (4096 - unat off)"
    using off rem by (simp add: assms(7) word_less_nat_alt)
  have "load_page_bytes vpage off cur toCopy m = (\<lambda>x. let j = unat (x - vpage) in
     if 4096 \<le> j then m x else if unat off \<le> j \<and> j < unat off + unat toCopy then m (cur + of_nat (j - unat off)) else 0)"
    by (rule load_page_bytes_eq) (use t off assms(2,3,4) cur cle in auto)
  moreover have "(if unat off \<le> j \<and> j < unat off + unat toCopy then m (cur + of_nat (j - unat off)) else 0)
      = segment_byte m src (unat voff) (unat fs) (4096 * p + j)" if "j < 4096" for j
  proof (cases "p = 0")
    case True
    then show ?thesis using t that cr(1) assms(1,6) by (auto simp: segment_byte_def c_def)
  next
    case False
    then have p: "unat off = 0" "4096 * p + j - unat voff = (4096 * p - unat voff) + j"
      using assms(1,6) by (auto simp: mult_le_mono)
    show ?thesis
      using t that cr(1) p False assms(1) by (auto simp: segment_byte_def c_def add.assoc) (simp_all add: algebra_simps)
  qed
  ultimately show ?thesis by (auto simp: unat_of_nat64)
qed

theorem load_page_holds_segment_witness:
  "load_page_bytes 0x5000 0x10 0x100 2 (\<lambda>x. ucast x) (0x5000 + of_nat 0x11) = 1
   \<and> load_page_bytes 0x5000 0x10 0x100 2 (\<lambda>x. ucast x) (0x5000 + of_nat 0x12) = 0"
proof -
  have "\<forall>j < 4096. load_page_bytes 0x5000 0x10 0x100 2 (\<lambda>x. ucast x) (0x5000 + of_nat j)
        = segment_byte (\<lambda>x. ucast x) 0x100 0x10 2 j"
    using load_page_holds_segment [of "0x10" "0x100" 2 "0x5000" 0 "0x100" 2 "0x10" 2 "\<lambda>x. ucast x"]
    by (simp add: PAGE_SIZE_def)
  note this [rule_format, of "0x11"] this [rule_format, of "0x12"]
  then show ?thesis by (simp add: segment_byte_def)
qed

end
