(* ===== verification/Acpi_Tables.thy ===== *)
theory Acpi_Tables
  imports Elf
begin

text \<open>
  The packed structures of \<open>acpi/acpi_tables.h\<close>, read field by field from the bytes the firmware
  left in memory (\<open><struct>_at m a\<close> is the structure at address \<open>a\<close>), and their sizes. Fields carry a
  prefix that tells the structures apart; bit fields are counted from the low end.
\<close>

definition bytes_at :: "mem \<Rightarrow> u64 \<Rightarrow> nat \<Rightarrow> u8 list" where
  "bytes_at m a n = map (\<lambda>i. m (a + of_nat i)) [0..<n]"

section \<open>Structures\<close>

record RSDP =
  rsdp_signature :: "u8 list"
  rsdp_checksum :: u8
  rsdp_oemiID :: "u8 list"
  rsdp_revision :: u8
  rsdp_rsdtAddress :: u32

definition RSDP_at :: "mem \<Rightarrow> u64 \<Rightarrow> RSDP" where
  "RSDP_at m a =
     \<lparr>rsdp_signature = bytes_at m a 8,
      rsdp_checksum = m (a + 8),
      rsdp_oemiID = bytes_at m (a + 9) 6,
      rsdp_revision = m (a + 15),
      rsdp_rsdtAddress = read32 m (a + 16)\<rparr>"

definition sizeof_RSDP :: nat where "sizeof_RSDP = 20"

record XSDP =
  xsdp_signature :: "u8 list"
  xsdp_checksum :: u8
  xsdp_oemiID :: "u8 list"
  xsdp_revision :: u8
  xsdp_rsdtAddress :: u32
  xsdp_length :: u32
  xsdp_xsdtAddress :: u64
  xsdp_extendedChecksum :: u8
  xsdp_reserved :: "u8 list"

definition XSDP_at :: "mem \<Rightarrow> u64 \<Rightarrow> XSDP" where
  "XSDP_at m a =
     \<lparr>xsdp_signature = bytes_at m a 8,
      xsdp_checksum = m (a + 8),
      xsdp_oemiID = bytes_at m (a + 9) 6,
      xsdp_revision = m (a + 15),
      xsdp_rsdtAddress = read32 m (a + 16),
      xsdp_length = read32 m (a + 20),
      xsdp_xsdtAddress = read64 m (a + 24),
      xsdp_extendedChecksum = m (a + 32),
      xsdp_reserved = bytes_at m (a + 33) 3\<rparr>"

definition sizeof_XSDP :: nat where "sizeof_XSDP = 36"

record ACPISDTHeader =
  sdt_signature :: "u8 list"
  sdt_length :: u32
  sdt_revision :: u8
  sdt_Checksum :: u8
  sdt_oemID :: "u8 list"
  sdt_oemTableID :: "u8 list"
  sdt_oemRevision :: u32
  sdt_creatorID :: u32
  sdt_creatorRevision :: u32

definition ACPISDTHeader_at :: "mem \<Rightarrow> u64 \<Rightarrow> ACPISDTHeader" where
  "ACPISDTHeader_at m a =
     \<lparr>sdt_signature = bytes_at m a 4,
      sdt_length = read32 m (a + 4),
      sdt_revision = m (a + 8),
      sdt_Checksum = m (a + 9),
      sdt_oemID = bytes_at m (a + 10) 6,
      sdt_oemTableID = bytes_at m (a + 16) 8,
      sdt_oemRevision = read32 m (a + 24),
      sdt_creatorID = read32 m (a + 28),
      sdt_creatorRevision = read32 m (a + 32)\<rparr>"

definition sizeof_ACPISDTHeader :: nat where "sizeof_ACPISDTHeader = 36"

record ACPI_addr =
  ga_address_space_id :: u8
  ga_register_bit_width :: u8
  ga_register_bit_offset :: u8
  ga_reserved :: u8
  ga_address :: u64

definition ACPI_addr_at :: "mem \<Rightarrow> u64 \<Rightarrow> ACPI_addr" where
  "ACPI_addr_at m a =
     \<lparr>ga_address_space_id = m a,
      ga_register_bit_width = m (a + 1),
      ga_register_bit_offset = m (a + 2),
      ga_reserved = m (a + 3),
      ga_address = read64 m (a + 4)\<rparr>"

record FADT =
  fadt_h :: ACPISDTHeader
  fadt_firmwareCtrl :: u32
  fadt_fsdt :: u32
  fadt_reserved :: u8
  fadt_preferredPowerManagementProfile :: u8
  fadt_sciInterrupt :: u16
  fadt_smiCommandPort :: u32
  fadt_acpiEnable :: u8
  fadt_acpiDisable :: u8
  fadt_s4viosRequest :: u8
  fadt_pstateControl :: u8
  fadt_pm1aEventBlock :: u32
  fadt_pm1bEventBlock :: u32
  fadt_pm1aControlBlock :: u32
  fadt_pm1bControlBlock :: u32
  fadt_pm2ControlBlock :: u32
  fadt_pmTimerBlock :: u32
  fadt_gpe0Block :: u32
  fadt_gpe1Block :: u32
  fadt_pm1EventLength :: u8
  fadt_pm1ControlLength :: u8
  fadt_pm2ControlLength :: u8
  fadt_pmTimerLength :: u8
  fadt_gpe0Length :: u8
  fadt_gpe1Length :: u8
  fadt_gpe1Base :: u8
  fadt_cStateControl :: u8
  fadt_worstC2Latency :: u16
  fadt_worstC3Latency :: u16
  fadt_flushSize :: u16
  fadt_flushStride :: u16
  fadt_dutyOffset :: u8
  fadt_dutyWidth :: u8
  fadt_dayAlarm :: u8
  fadt_monthAlarm :: u8
  fadt_century :: u8
  fadt_bootArchitectureFlags :: u16
  fadt_reserved2 :: u8
  fadt_flags :: u32
  fadt_resetReg :: ACPI_addr
  fadt_resetValue :: u8
  fadt_reserved3 :: "u8 list"
  fadt_xFirmwareControl :: u64
  fadt_xDsdt :: u64
  fadt_xPM1aEventBlock :: ACPI_addr
  fadt_xPM1bEventBlock :: ACPI_addr
  fadt_xPM1aControlBlock :: ACPI_addr
  fadt_xPM1bControlBlock :: ACPI_addr
  fadt_xPM2ControlBlock :: ACPI_addr
  fadt_xPMTimerBlock :: ACPI_addr
  fadt_xGPE0Block :: ACPI_addr
  fadt_xGPE1Block :: ACPI_addr

definition FADT_at :: "mem \<Rightarrow> u64 \<Rightarrow> FADT" where
  "FADT_at m a =
     \<lparr>fadt_h = ACPISDTHeader_at m a,
      fadt_firmwareCtrl = read32 m (a + 36),
      fadt_fsdt = read32 m (a + 40),
      fadt_reserved = m (a + 44),
      fadt_preferredPowerManagementProfile = m (a + 45),
      fadt_sciInterrupt = read16 m (a + 46),
      fadt_smiCommandPort = read32 m (a + 48),
      fadt_acpiEnable = m (a + 52),
      fadt_acpiDisable = m (a + 53),
      fadt_s4viosRequest = m (a + 54),
      fadt_pstateControl = m (a + 55),
      fadt_pm1aEventBlock = read32 m (a + 56),
      fadt_pm1bEventBlock = read32 m (a + 60),
      fadt_pm1aControlBlock = read32 m (a + 64),
      fadt_pm1bControlBlock = read32 m (a + 68),
      fadt_pm2ControlBlock = read32 m (a + 72),
      fadt_pmTimerBlock = read32 m (a + 76),
      fadt_gpe0Block = read32 m (a + 80),
      fadt_gpe1Block = read32 m (a + 84),
      fadt_pm1EventLength = m (a + 88),
      fadt_pm1ControlLength = m (a + 89),
      fadt_pm2ControlLength = m (a + 90),
      fadt_pmTimerLength = m (a + 91),
      fadt_gpe0Length = m (a + 92),
      fadt_gpe1Length = m (a + 93),
      fadt_gpe1Base = m (a + 94),
      fadt_cStateControl = m (a + 95),
      fadt_worstC2Latency = read16 m (a + 96),
      fadt_worstC3Latency = read16 m (a + 98),
      fadt_flushSize = read16 m (a + 100),
      fadt_flushStride = read16 m (a + 102),
      fadt_dutyOffset = m (a + 104),
      fadt_dutyWidth = m (a + 105),
      fadt_dayAlarm = m (a + 106),
      fadt_monthAlarm = m (a + 107),
      fadt_century = m (a + 108),
      fadt_bootArchitectureFlags = read16 m (a + 109),
      fadt_reserved2 = m (a + 111),
      fadt_flags = read32 m (a + 112),
      fadt_resetReg = ACPI_addr_at m (a + 116),
      fadt_resetValue = m (a + 128),
      fadt_reserved3 = bytes_at m (a + 129) 3,
      fadt_xFirmwareControl = read64 m (a + 132),
      fadt_xDsdt = read64 m (a + 140),
      fadt_xPM1aEventBlock = ACPI_addr_at m (a + 148),
      fadt_xPM1bEventBlock = ACPI_addr_at m (a + 160),
      fadt_xPM1aControlBlock = ACPI_addr_at m (a + 172),
      fadt_xPM1bControlBlock = ACPI_addr_at m (a + 184),
      fadt_xPM2ControlBlock = ACPI_addr_at m (a + 196),
      fadt_xPMTimerBlock = ACPI_addr_at m (a + 208),
      fadt_xGPE0Block = ACPI_addr_at m (a + 220),
      fadt_xGPE1Block = ACPI_addr_at m (a + 232)\<rparr>"

record HPET =
  hpt_header :: ACPISDTHeader
  hpt_hardware_rev_id :: u8
  hpt_comparator_count :: u8
  hpt_counter_size :: u8
  hpt_reserved :: u8
  hpt_legacy_replacement :: u8
  hpt_pci_vendor_id :: u16
  hpt_address :: ACPI_addr
  hpt_hpet_number :: u8
  hpt_minimum_tick :: u16
  hpt_page_protection :: u8

definition HPET_at :: "mem \<Rightarrow> u64 \<Rightarrow> HPET" where
  "HPET_at m a =
     \<lparr>hpt_header = ACPISDTHeader_at m a,
      hpt_hardware_rev_id = m (a + 36),
      hpt_comparator_count = take_bit 5 (m (a + 37)),
      hpt_counter_size = take_bit 1 (drop_bit 5 (m (a + 37))),
      hpt_reserved = take_bit 1 (drop_bit 6 (m (a + 37))),
      hpt_legacy_replacement = take_bit 1 (drop_bit 7 (m (a + 37))),
      hpt_pci_vendor_id = read16 m (a + 38),
      hpt_address = ACPI_addr_at m (a + 40),
      hpt_hpet_number = m (a + 52),
      hpt_minimum_tick = read16 m (a + 53),
      hpt_page_protection = m (a + 55)\<rparr>"

section \<open>The interrupt table\<close>

definition MADT_TYPE_LAPIC :: u8 where "MADT_TYPE_LAPIC = 0"
definition MADT_TYPE_IOAPIC :: u8 where "MADT_TYPE_IOAPIC = 1"
definition MADT_TYPE_ISR_OVERRIDE :: u8 where "MADT_TYPE_ISR_OVERRIDE = 2"
definition MADT_TYPE_IOAPIC_NMI :: u8 where "MADT_TYPE_IOAPIC_NMI = 3"
definition MADT_TYPE_LAPIC_NMI :: u8 where "MADT_TYPE_LAPIC_NMI = 4"
definition MADT_TYPE_LAPIC_ADDR_OVR :: u8 where "MADT_TYPE_LAPIC_ADDR_OVR = 5"
definition MADT_TYPE_PLX2APIC :: u8 where "MADT_TYPE_PLX2APIC = 9"

record MADT =
  madt_header :: ACPISDTHeader
  madt_lapic_address :: u32
  madt_flags :: u32

definition MADT_at :: "mem \<Rightarrow> u64 \<Rightarrow> MADT" where
  "MADT_at m a =
     \<lparr>madt_header = ACPISDTHeader_at m a,
      madt_lapic_address = read32 m (a + 36),
      madt_flags = read32 m (a + 40)\<rparr>"

definition sizeof_MADT :: nat where "sizeof_MADT = 44"

record MADTEntryHeader =
  meh_type :: u8
  meh_length :: u8

definition MADTEntryHeader_at :: "mem \<Rightarrow> u64 \<Rightarrow> MADTEntryHeader" where
  "MADTEntryHeader_at m a =
     \<lparr>meh_type = m a,
      meh_length = m (a + 1)\<rparr>"

definition sizeof_MADTEntryHeader :: nat where "sizeof_MADTEntryHeader = 2"

record MADT_plapic =
  mpl_type :: u8
  mpl_length :: u8
  mpl_cpu_id :: u8
  mpl_apic_id :: u8
  mpl_flags :: u32

definition MADT_plapic_at :: "mem \<Rightarrow> u64 \<Rightarrow> MADT_plapic" where
  "MADT_plapic_at m a =
     \<lparr>mpl_type = m a,
      mpl_length = m (a + 1),
      mpl_cpu_id = m (a + 2),
      mpl_apic_id = m (a + 3),
      mpl_flags = read32 m (a + 4)\<rparr>"

record MADT_ioapic =
  mio_type :: u8
  mio_length :: u8
  mio_ioapic_id :: u8
  mio_reserved :: u8
  mio_ioapic_address :: u32
  mio_gsib :: u32

definition MADT_ioapic_at :: "mem \<Rightarrow> u64 \<Rightarrow> MADT_ioapic" where
  "MADT_ioapic_at m a =
     \<lparr>mio_type = m a,
      mio_length = m (a + 1),
      mio_ioapic_id = m (a + 2),
      mio_reserved = m (a + 3),
      mio_ioapic_address = read32 m (a + 4),
      mio_gsib = read32 m (a + 8)\<rparr>"

record MADT_isr_override =
  miso_type :: u8
  miso_length :: u8
  miso_bus_source :: u8
  miso_irq_source :: u8
  miso_gsi :: u32
  miso_flags :: u16

definition MADT_isr_override_at :: "mem \<Rightarrow> u64 \<Rightarrow> MADT_isr_override" where
  "MADT_isr_override_at m a =
     \<lparr>miso_type = m a,
      miso_length = m (a + 1),
      miso_bus_source = m (a + 2),
      miso_irq_source = m (a + 3),
      miso_gsi = read32 m (a + 4),
      miso_flags = read16 m (a + 8)\<rparr>"

record MADT_ioapic_nmi =
  mion_type :: u8
  mion_length :: u8
  mion_nmi_source :: u8
  mion_reserved :: u8
  mion_flags :: u16
  mion_gsi :: u32

definition MADT_ioapic_nmi_at :: "mem \<Rightarrow> u64 \<Rightarrow> MADT_ioapic_nmi" where
  "MADT_ioapic_nmi_at m a =
     \<lparr>mion_type = m a,
      mion_length = m (a + 1),
      mion_nmi_source = m (a + 2),
      mion_reserved = m (a + 3),
      mion_flags = read16 m (a + 4),
      mion_gsi = read32 m (a + 6)\<rparr>"

record MADT_lapic_nmi =
  mlan_type :: u8
  mlan_length :: u8
  mlan_cpu_id :: u8
  mlan_flags :: u16
  mlan_lint :: u8

definition MADT_lapic_nmi_at :: "mem \<Rightarrow> u64 \<Rightarrow> MADT_lapic_nmi" where
  "MADT_lapic_nmi_at m a =
     \<lparr>mlan_type = m a,
      mlan_length = m (a + 1),
      mlan_cpu_id = m (a + 2),
      mlan_flags = read16 m (a + 3),
      mlan_lint = m (a + 5)\<rparr>"

record MADT_lapic_addr_override =
  mlao_type :: u8
  mlao_length :: u8
  mlao_reserved :: u16
  mlao_lapic_addr :: u64

definition MADT_lapic_addr_override_at :: "mem \<Rightarrow> u64 \<Rightarrow> MADT_lapic_addr_override" where
  "MADT_lapic_addr_override_at m a =
     \<lparr>mlao_type = m a,
      mlao_length = m (a + 1),
      mlao_reserved = read16 m (a + 2),
      mlao_lapic_addr = read64 m (a + 4)\<rparr>"

record MADT_plx2apic =
  mx2_type :: u8
  mx2_length :: u8
  mx2_reserved :: u16
  mx2_x2apic_id :: u32
  mx2_flags :: u32
  mx2_acpi_id :: u32

definition MADT_plx2apic_at :: "mem \<Rightarrow> u64 \<Rightarrow> MADT_plx2apic" where
  "MADT_plx2apic_at m a =
     \<lparr>mx2_type = m a,
      mx2_length = m (a + 1),
      mx2_reserved = read16 m (a + 2),
      mx2_x2apic_id = read32 m (a + 4),
      mx2_flags = read32 m (a + 8),
      mx2_acpi_id = read32 m (a + 12)\<rparr>"

end
