(* ===== verification/Acpi.thy ===== *)
theory Acpi
  imports Platform Acpi_Tables
begin

text \<open>
  The ACPI tables (\<open>acpi/acpi_tables.c\<close>, \<open>acpi/acpi.c\<close>) read where the firmware left them: the
  root pointer and its checksums, the search for a table by signature, and the three tables
  the kernel uses. The loop over the entries of the interrupt table is partial: an entry of
  length zero makes it run forever. On a table that stores a list of entries it is shown to
  register exactly the I/O APICs and overrides listed, in order.
\<close>

section \<open>Finding a table\<close>

primrec sum_bytes :: "mem \<Rightarrow> u64 \<Rightarrow> nat \<Rightarrow> u64" where
  "sum_bytes m a 0 = 0"
| "sum_bytes m a (Suc n) = sum_bytes m a n + ucast (m (a + of_nat n))"

text \<open>The result and the complaints printed on the way.\<close>

datatype acpi_msg = No_RSDP | Bad_ChecksumV1 | Bad_ChecksumV2

definition acpi_verify_rsdp :: "mem \<Rightarrow> u64 \<Rightarrow> bool \<times> acpi_msg list" where
  "acpi_verify_rsdp m rsdp =
     (if rsdp = 0 then (False, [No_RSDP])
      else
        (let c1 = (if (ucast (sum_bytes m rsdp sizeof_RSDP) :: u8) \<noteq> 0 then [Bad_ChecksumV1] else [])
         in if rsdp_revision (RSDP_at m rsdp) \<noteq> 2 then (True, c1)
            else (True, c1 @ (if (ucast (sum_bytes m rsdp sizeof_XSDP) :: u8) \<noteq> 0 then [Bad_ChecksumV2] else []))))"

definition sig_is :: "mem \<Rightarrow> u64 \<Rightarrow> u8 list \<Rightarrow> bool" where
  "sig_is m header signature \<longleftrightarrow> sdt_signature (ACPISDTHeader_at m header) = signature"

primrec sdt_search :: "(nat \<Rightarrow> u64) \<Rightarrow> mem \<Rightarrow> u8 list \<Rightarrow> nat \<Rightarrow> nat \<Rightarrow> u64" where
  "sdt_search entry m signature i 0 = 0"
| "sdt_search entry m signature i (Suc n) =
     (if sig_is m (entry i) signature then entry i else sdt_search entry m signature (Suc i) n)"

text \<open>The number of entries, computed on 64 bits and stored in an \<open>int\<close>; a negative one is no entry.\<close>

definition sdt_entries :: "u32 \<Rightarrow> u64 \<Rightarrow> nat" where
  "sdt_entries len width = nat (sint (ucast ((ucast len - of_nat sizeof_ACPISDTHeader) div width) :: u32))"

definition acpi_find_sdt_rsdt :: "mem \<Rightarrow> u64 \<Rightarrow> u64 \<Rightarrow> u8 list \<Rightarrow> u64" where
  "acpi_find_sdt_rsdt m hhdm rsdp signature =
     (let rsdt = ucast (rsdp_rsdtAddress (RSDP_at m rsdp)) + hhdm;
          entries = sdt_entries (sdt_length (ACPISDTHeader_at m rsdt)) 4
      in sdt_search (\<lambda>i. ucast (read32 m (rsdt + 36 + 4 * of_nat i)) + hhdm) m signature 0 entries)"

definition acpi_find_sdt_xsdt :: "mem \<Rightarrow> u64 \<Rightarrow> u64 \<Rightarrow> u8 list \<Rightarrow> u64" where
  "acpi_find_sdt_xsdt m hhdm rsdp signature =
     (let xsdt = xsdp_xsdtAddress (XSDP_at m rsdp) + hhdm;
          entries = sdt_entries (sdt_length (ACPISDTHeader_at m xsdt)) 8
      in sdt_search (\<lambda>i. read64 m (xsdt + 36 + 8 * of_nat i) + hhdm) m signature 0 entries)"

definition acpi_find_sdt :: "mem \<Rightarrow> u64 \<Rightarrow> u64 \<Rightarrow> u8 list \<Rightarrow> u64" where
  "acpi_find_sdt m hhdm rsdp signature =
     (if rsdp_revision (RSDP_at m rsdp) < 2 then acpi_find_sdt_rsdt m hhdm rsdp signature
      else acpi_find_sdt_xsdt m hhdm rsdp signature)"

section \<open>The tables\<close>

definition acpi_parse_fadt :: "mem \<Rightarrow> u64 \<Rightarrow> platform \<Rightarrow> platform kres" where
  "acpi_parse_fadt m fadt h =
     (if fadt = 0 then Inr h
      else
        (let f = FADT_at m fadt; x = fadt_xPMTimerBlock f
         in if ga_address x \<noteq> 0
            then (if ga_address_space_id x = 0
                  then kbind (map_device (ga_address x) (ga_address x + PAGE_SIZE) h) (\<lambda>(va, h1).
                         Inr (h1\<lparr>acpi_timer_address := va, acpi_timer_address_type := ACPI_ADDRESS_TYPE_MMIO\<rparr>))
                  else if ga_address_space_id x = 1
                  then Inr (h\<lparr>acpi_timer_address := ga_address x, acpi_timer_address_type := ACPI_ADDRESS_TYPE_PORT_IO\<rparr>)
                  else Inr h)
            else Inr (h\<lparr>acpi_timer_address := ucast (fadt_pmTimerBlock f), acpi_timer_address_type := ACPI_ADDRESS_TYPE_PORT_IO\<rparr>)))"

definition acpi_parse_hpet :: "mem \<Rightarrow> u64 \<Rightarrow> platform \<Rightarrow> platform kres" where
  "acpi_parse_hpet m hpet h =
     (if hpet = 0 then Inr h
      else
        (let a = ga_address (hpt_address (HPET_at m hpet))
         in kbind (map_device a (a + PAGE_SIZE) h) (\<lambda>(va, h1). Inr (h1\<lparr>hpet_address := va\<rparr>))))"

text \<open>
  One entry of the interrupt table. Only two types have an effect; the list nodes they
  allocate are kept as list elements. The other known types are cast and dropped, the
  unknown ones are printed.
\<close>

definition madt_entry :: "mem \<Rightarrow> u64 \<Rightarrow> platform \<Rightarrow> platform kres" where
  "madt_entry m ptr h =
     (let ty = meh_type (MADTEntryHeader_at m ptr)
      in if ty = MADT_TYPE_LAPIC then Inr h
         else if ty = MADT_TYPE_IOAPIC
         then (let e = MADT_ioapic_at m ptr
               in kbind (map_device (ucast (mio_ioapic_address e)) (ucast (mio_ioapic_address e + 0x1000)) h) (\<lambda>(va, h1).
                    Inr (h1\<lparr>ioapics := ioapics h1 @ [\<lparr>io_address = va, gsib = mio_gsib e\<rparr>]\<rparr>)))
         else if ty = MADT_TYPE_ISR_OVERRIDE
         then (let e = MADT_isr_override_at m ptr
               in if ucast (miso_irq_source e) \<noteq> miso_gsi e
                  then Inr (h\<lparr>ioapic_irq_overides := ioapic_irq_overides h
                         @ [\<lparr>ov_irq = miso_irq_source e, ov_gsi = ucast (miso_gsi e)\<rparr>]\<rparr>)
                  else Inr h)
         else Inr h)"

partial_function (option) madt_loop :: "mem \<Rightarrow> u64 \<Rightarrow> u64 \<Rightarrow> platform \<Rightarrow> platform kres option" where
  "madt_loop m ptr end_ptr h =
     (if ptr + of_nat sizeof_MADTEntryHeader \<le> end_ptr \<and> \<not> ptr + ucast (meh_length (MADTEntryHeader_at m ptr)) > end_ptr
      then (case madt_entry m ptr h of
              Inl e \<Rightarrow> Some (Inl e)
            | Inr h1 \<Rightarrow> madt_loop m (ptr + ucast (meh_length (MADTEntryHeader_at m ptr))) end_ptr h1)
      else Some (Inr h))"

definition acpi_parse_madt :: "mem \<Rightarrow> u64 \<Rightarrow> platform \<Rightarrow> platform kres option" where
  "acpi_parse_madt m madt h =
     (if madt = 0 then Some (Inr h)
      else madt_loop m (madt + of_nat sizeof_MADT) (madt + ucast (sdt_length (madt_header (MADT_at m madt)))) h)"

definition acpi_parse_tables :: "mem \<Rightarrow> u64 \<Rightarrow> u64 \<Rightarrow> platform \<Rightarrow> platform kres option" where
  "acpi_parse_tables m hhdm rsdp h =
     (case acpi_parse_fadt m (acpi_find_sdt m hhdm rsdp (bytes_of ''FACP'')) h of
        Inl e \<Rightarrow> Some (Inl e)
      | Inr h1 \<Rightarrow>
          (case acpi_parse_madt m (acpi_find_sdt m hhdm rsdp (bytes_of ''APIC'')) h1 of
             None \<Rightarrow> None
           | Some r \<Rightarrow> Some (kbind r (acpi_parse_hpet m (acpi_find_sdt m hhdm rsdp (bytes_of ''HPET''))))))"

definition setup_acpi :: "mem \<Rightarrow> u64 \<Rightarrow> u64 \<Rightarrow> platform \<Rightarrow> (bool \<times> platform) kres option" where
  "setup_acpi m hhdm rsdp h =
     (if \<not> fst (acpi_verify_rsdp m rsdp) then Some (Inr (False, h))
      else map_option (\<lambda>r. kbind r (\<lambda>h1. Inr (True, h1))) (acpi_parse_tables m hhdm rsdp h))"

section \<open>Properties\<close>

lemma entry_header [simp]: "meh_length (MADTEntryHeader_at m p) = m (p + 1)" "meh_type (MADTEntryHeader_at m p) = m p"
  by (simp_all add: MADTEntryHeader_at_def)

lemma table_length [simp]: "sdt_length (madt_header (MADT_at m p)) = read32 m (p + 4)"
  by (simp add: MADT_at_def ACPISDTHeader_at_def)

lemmas acpi_sizes [simp] = sizeof_MADT_def sizeof_MADTEntryHeader_def

text \<open>The search returns the first table with the signature, or null.\<close>

lemma sdt_search_first:
  "sdt_search entry m signature i n =
     (case filter (\<lambda>j. sig_is m (entry j) signature) [i..<i + n] of [] \<Rightarrow> 0 | j # _ \<Rightarrow> entry j)"
proof (induction n arbitrary: i)
  case (Suc n)
  have "[i..<i + Suc n] = i # [Suc i..<Suc i + n]" by (simp add: upt_conv_Cons)
  then show ?case using Suc [of "Suc i"] by simp
qed simp

text \<open>A table as a list of entries: each says its own length, and the last ends at the end.\<close>

fun madt_at :: "mem \<Rightarrow> u64 \<Rightarrow> u64 \<Rightarrow> u64 list \<Rightarrow> bool" where
  "madt_at m ptr end_ptr [] \<longleftrightarrow> ptr = end_ptr"
| "madt_at m ptr end_ptr (p # ps) \<longleftrightarrow>
     p = ptr \<and> 2 \<le> m (ptr + 1) \<and> unat ptr + unat (m (ptr + 1)) \<le> unat end_ptr
     \<and> madt_at m (ptr + ucast (m (ptr + 1))) end_ptr ps"

fun madt_entries :: "mem \<Rightarrow> u64 list \<Rightarrow> platform \<Rightarrow> platform kres" where
  "madt_entries m [] h = Inr h"
| "madt_entries m (p # ps) h = kbind (madt_entry m p h) (madt_entries m ps)"

text \<open>
  C21: On a well-formed interrupt table the parser ends, and it has processed exactly the table's
  entries, each once and in order.
\<close>

theorem acpi_parse_madt_ends:
  assumes "madt \<noteq> 0" and "madt_at m (madt + 44) (madt + ucast (read32 m (madt + 4))) ps"
    and "unat (madt + ucast (read32 m (madt + 4))) + 2 < 2 ^ 64"
  shows "acpi_parse_madt m madt h = Some (madt_entries m ps h)"
proof -
  have "madt_loop m ptr e h = Some (madt_entries m ps h)" if "madt_at m ptr e ps" "unat e + 2 < 2 ^ 64" for ptr e
    using that
  proof (induction ps arbitrary: ptr h)
    case Nil
    then have "\<not> ptr + 2 \<le> e" by (simp add: word_le_nat_alt unat_word_ariths)
    then show ?case by (subst madt_loop.simps) simp
  next
    case (Cons p ps)
    have u: "unat (ucast (m (ptr + 1)) :: u64) = unat (m (ptr + 1))"
      using unsigned_less [where ?'a = nat and w = "m (ptr + 1)"]
      by (simp add: unsigned_ucast_eq take_bit_nat_eq_self)
    have le: "2 \<le> unat (m (ptr + 1))" "unat ptr + unat (m (ptr + 1)) \<le> unat e"
      using Cons.prems(1) by (simp_all add: word_le_nat_alt)
    have "ptr + 2 \<le> e" "\<not> ptr + ucast (m (ptr + 1)) > e"
      using le u unat_lt_64 [of e] by (simp_all add: word_le_nat_alt word_less_nat_alt unat_word_ariths)
    moreover have "madt_loop m (ptr + ucast (m (ptr + 1))) e h1 = Some (madt_entries m ps h1)" for h1
      using Cons.IH [of "ptr + ucast (m (ptr + 1))" h1] Cons.prems by simp
    ultimately show ?case
      using Cons.prems(1) by (subst madt_loop.simps) (simp add: kbind_def split: sum.split)
  qed
  from this [OF assms(2,3)] assms(1) show ?thesis by (simp add: acpi_parse_madt_def)
qed

text \<open>
  A checksum that does not match is reported and otherwise ignored: the only root pointer that
  is refused is a null one.
\<close>

lemma acpi_verify_rsdp_iff: "fst (acpi_verify_rsdp m rsdp) \<longleftrightarrow> rsdp \<noteq> 0"
  by (simp add: acpi_verify_rsdp_def Let_def)

text \<open>
  An entry that says it is empty is processed again and again: the parser never returns.
\<close>

theorem acpi_parse_madt_diverges:
  assumes "madt \<noteq> 0" and "m (madt + 45) = 0" and "m (madt + 44) \<noteq> MADT_TYPE_IOAPIC"
    and "madt + 46 \<le> madt + ucast (read32 m (madt + 4))" and "madt + 44 \<le> madt + 46"
    and "m (madt + 44) \<noteq> MADT_TYPE_ISR_OVERRIDE"
  shows "acpi_parse_madt m madt h = None"
proof -
  let ?p = "madt + 44" and ?e = "madt + ucast (read32 m (madt + 4))"
  have len: "m (?p + 1) = 0" using assms(2) by (simp add: add.assoc)
  have ent: "madt_entry m ?p h = Inr h" for h using assms(3,6) by (simp add: madt_entry_def Let_def)
  have cond: "?p + 2 \<le> ?e" "\<not> ?p > ?e" using assms(4,5) by (simp_all add: add.assoc)
  have False if "madt_loop m ?p ?e h = Some r" for r
  proof -
    have "p = ?p \<Longrightarrow> e = ?e \<Longrightarrow> False" if "madt_loop m' p e h' = Some r'" "m' = m" for m' p e h' r'
      using that
    proof (induction rule: madt_loop.raw_induct [rotated 1, consumes 1])
      case (1 loop m'' ptr e2 h2 r2)
      then show ?case using len ent cond by (auto split: if_splits)
    qed
    then show False using that by blast
  qed
  then show ?thesis using assms(1) by (cases "madt_loop m ?p ?e h") (auto simp: acpi_parse_madt_def)
qed

text \<open>A table with one override of interrupt 0 to line 2, and one with an empty entry.\<close>

definition demo_madt :: "u8 \<Rightarrow> mem" where
  "demo_madt len = (\<lambda>x. if x = 0x1004 then 54 else if x = 0x102C then (if len = 0 then 0 else 2)
     else if x = 0x102D then len else if x = 0x1030 then 2 else 0)"

lemma demo_madt_length: "read32 (demo_madt len) 0x1004 = 54"
  by (simp add: read32_def demo_madt_def)

theorem acpi_parse_madt_ends_witness:
  "acpi_parse_madt (demo_madt 10) 0x1000 demo_platform
    = Some (Inr (demo_platform\<lparr>ioapic_irq_overides := [\<lparr>ov_irq = 0, ov_gsi = 2\<rparr>]\<rparr>))"
proof -
  have w: "madt_at (demo_madt 10) (0x1000 + 44) (0x1000 + ucast (read32 (demo_madt 10) (0x1000 + 4))) [0x102C]"
    by (simp add: demo_madt_length) (simp add: demo_madt_def)
  have "acpi_parse_madt (demo_madt 10) 0x1000 demo_platform = Some (madt_entries (demo_madt 10) [0x102C] demo_platform)"
    by (rule acpi_parse_madt_ends [OF _ w]) (simp_all add: demo_madt_length)
  moreover have "madt_entry (demo_madt 10) 0x102C demo_platform
      = Inr (demo_platform\<lparr>ioapic_irq_overides := [\<lparr>ov_irq = 0, ov_gsi = 2\<rparr>]\<rparr>)"
    by (simp add: madt_entry_def MADT_isr_override_at_def read32_def demo_madt_def MADT_TYPE_LAPIC_def
        MADT_TYPE_IOAPIC_def MADT_TYPE_ISR_OVERRIDE_def demo_platform_def)
  ultimately show ?thesis by simp
qed

theorem acpi_parse_madt_diverges_witness: "acpi_parse_madt (demo_madt 0) 0x1000 demo_platform = None"
  by (rule acpi_parse_madt_diverges)
    (simp_all add: demo_madt_length, simp_all add: demo_madt_def MADT_TYPE_IOAPIC_def MADT_TYPE_ISR_OVERRIDE_def)

end
