(* ===== verification/Framebuffer.thy ===== *)
theory Framebuffer
  imports Kernel_Prelude
begin

text \<open>
  Drawing: the pixel, character and image routines of \<open>drivers/fb_renderer.c\<close>, the font of
  \<open>misc/font8x8_basic.h\<close>, and the mouse cursor of \<open>drivers/mouse.c\<close>. The frame buffer is a map from
  32-bit cells to colours, addressed as the code computes the address. Shown: what is drawn,
  pixel by pixel, with everything else left alone, and that the cursor stays on the screen.
\<close>

section \<open>The frame buffer\<close>

record framebuffer =
  fb_cells :: "u64 \<Rightarrow> u32"
  fb_pitch :: u64
  FB_WIDTH :: int
  FB_HEIGHT :: int

definition cell_index :: "u64 \<Rightarrow> int \<Rightarrow> int \<Rightarrow> u64" where
  "cell_index pitch x y = of_int y * drop_bit 2 pitch + of_int x"

definition plotPixel :: "int \<Rightarrow> int \<Rightarrow> u32 \<Rightarrow> framebuffer \<Rightarrow> framebuffer" where
  "plotPixel x y color f =
     (if x \<ge> FB_WIDTH f \<or> y \<ge> FB_HEIGHT f \<or> x < 0 \<or> y < 0 then f
      else f\<lparr>fb_cells := (fb_cells f)(cell_index (fb_pitch f) x y := color)\<rparr>)"

section \<open>Characters\<close>

definition FONT_WIDTH :: int where "FONT_WIDTH = 8"
definition FONT_HEIGHT :: int where "FONT_HEIGHT = 8"

definition font8x8_basic :: "u8 list list" where
  "font8x8_basic =
  [[0, 0, 0, 0, 0, 0, 0, 0],
   [0, 0, 0, 0, 0, 0, 0, 0],
   [0, 0, 0, 0, 0, 0, 0, 0],
   [0, 0, 0, 0, 0, 0, 0, 0],
   [0, 0, 0, 0, 0, 0, 0, 0],
   [0, 0, 0, 0, 0, 0, 0, 0],
   [0, 0, 0, 0, 0, 0, 0, 0],
   [0, 0, 0, 0, 0, 0, 0, 0],
   [0, 0, 0, 0, 0, 0, 0, 0],
   [0, 0, 0, 0, 0, 0, 0, 0],
   [0, 0, 0, 0, 0, 0, 0, 0],
   [0, 0, 0, 0, 0, 0, 0, 0],
   [0, 0, 0, 0, 0, 0, 0, 0],
   [0, 0, 0, 0, 0, 0, 0, 0],
   [0, 0, 0, 0, 0, 0, 0, 0],
   [0, 0, 0, 0, 0, 0, 0, 0],
   [0, 0, 0, 0, 0, 0, 0, 0],
   [0, 0, 0, 0, 0, 0, 0, 0],
   [0, 0, 0, 0, 0, 0, 0, 0],
   [0, 0, 0, 0, 0, 0, 0, 0],
   [0, 0, 0, 0, 0, 0, 0, 0],
   [0, 0, 0, 0, 0, 0, 0, 0],
   [0, 0, 0, 0, 0, 0, 0, 0],
   [0, 0, 0, 0, 0, 0, 0, 0],
   [0, 0, 0, 0, 0, 0, 0, 0],
   [0, 0, 0, 0, 0, 0, 0, 0],
   [0, 0, 0, 0, 0, 0, 0, 0],
   [0, 0, 0, 0, 0, 0, 0, 0],
   [0, 0, 0, 0, 0, 0, 0, 0],
   [0, 0, 0, 0, 0, 0, 0, 0],
   [0, 0, 0, 0, 0, 0, 0, 0],
   [0, 0, 0, 0, 0, 0, 0, 0],
   [0, 0, 0, 0, 0, 0, 0, 0],
   [0x18, 0x3C, 0x3C, 0x18, 0x18, 0, 0x18, 0],
   [0x36, 0x36, 0, 0, 0, 0, 0, 0],
   [0x36, 0x36, 0x7F, 0x36, 0x7F, 0x36, 0x36, 0],
   [0x0C, 0x3E, 0x03, 0x1E, 0x30, 0x1F, 0x0C, 0],
   [0, 0x63, 0x33, 0x18, 0x0C, 0x66, 0x63, 0],
   [0x1C, 0x36, 0x1C, 0x6E, 0x3B, 0x33, 0x6E, 0],
   [0x06, 0x06, 0x03, 0, 0, 0, 0, 0],
   [0x18, 0x0C, 0x06, 0x06, 0x06, 0x0C, 0x18, 0],
   [0x06, 0x0C, 0x18, 0x18, 0x18, 0x0C, 0x06, 0],
   [0, 0x66, 0x3C, 0xFF, 0x3C, 0x66, 0, 0],
   [0, 0x0C, 0x0C, 0x3F, 0x0C, 0x0C, 0, 0],
   [0, 0, 0, 0, 0, 0x0C, 0x0C, 0x06],
   [0, 0, 0, 0x3F, 0, 0, 0, 0],
   [0, 0, 0, 0, 0, 0x0C, 0x0C, 0],
   [0x60, 0x30, 0x18, 0x0C, 0x06, 0x03, 0x01, 0],
   [0x3E, 0x63, 0x73, 0x7B, 0x6F, 0x67, 0x3E, 0],
   [0x0C, 0x0E, 0x0C, 0x0C, 0x0C, 0x0C, 0x3F, 0],
   [0x1E, 0x33, 0x30, 0x1C, 0x06, 0x33, 0x3F, 0],
   [0x1E, 0x33, 0x30, 0x1C, 0x30, 0x33, 0x1E, 0],
   [0x38, 0x3C, 0x36, 0x33, 0x7F, 0x30, 0x78, 0],
   [0x3F, 0x03, 0x1F, 0x30, 0x30, 0x33, 0x1E, 0],
   [0x1C, 0x06, 0x03, 0x1F, 0x33, 0x33, 0x1E, 0],
   [0x3F, 0x33, 0x30, 0x18, 0x0C, 0x0C, 0x0C, 0],
   [0x1E, 0x33, 0x33, 0x1E, 0x33, 0x33, 0x1E, 0],
   [0x1E, 0x33, 0x33, 0x3E, 0x30, 0x18, 0x0E, 0],
   [0, 0x0C, 0x0C, 0, 0, 0x0C, 0x0C, 0],
   [0, 0x0C, 0x0C, 0, 0, 0x0C, 0x0C, 0x06],
   [0x18, 0x0C, 0x06, 0x03, 0x06, 0x0C, 0x18, 0],
   [0, 0, 0x3F, 0, 0, 0x3F, 0, 0],
   [0x06, 0x0C, 0x18, 0x30, 0x18, 0x0C, 0x06, 0],
   [0x1E, 0x33, 0x30, 0x18, 0x0C, 0, 0x0C, 0],
   [0x3E, 0x63, 0x7B, 0x7B, 0x7B, 0x03, 0x1E, 0],
   [0x0C, 0x1E, 0x33, 0x33, 0x3F, 0x33, 0x33, 0],
   [0x3F, 0x66, 0x66, 0x3E, 0x66, 0x66, 0x3F, 0],
   [0x3C, 0x66, 0x03, 0x03, 0x03, 0x66, 0x3C, 0],
   [0x1F, 0x36, 0x66, 0x66, 0x66, 0x36, 0x1F, 0],
   [0x7F, 0x46, 0x16, 0x1E, 0x16, 0x46, 0x7F, 0],
   [0x7F, 0x46, 0x16, 0x1E, 0x16, 0x06, 0x0F, 0],
   [0x3C, 0x66, 0x03, 0x03, 0x73, 0x66, 0x7C, 0],
   [0x33, 0x33, 0x33, 0x3F, 0x33, 0x33, 0x33, 0],
   [0x1E, 0x0C, 0x0C, 0x0C, 0x0C, 0x0C, 0x1E, 0],
   [0x78, 0x30, 0x30, 0x30, 0x33, 0x33, 0x1E, 0],
   [0x67, 0x66, 0x36, 0x1E, 0x36, 0x66, 0x67, 0],
   [0x0F, 0x06, 0x06, 0x06, 0x46, 0x66, 0x7F, 0],
   [0x63, 0x77, 0x7F, 0x7F, 0x6B, 0x63, 0x63, 0],
   [0x63, 0x67, 0x6F, 0x7B, 0x73, 0x63, 0x63, 0],
   [0x1C, 0x36, 0x63, 0x63, 0x63, 0x36, 0x1C, 0],
   [0x3F, 0x66, 0x66, 0x3E, 0x06, 0x06, 0x0F, 0],
   [0x1E, 0x33, 0x33, 0x33, 0x3B, 0x1E, 0x38, 0],
   [0x3F, 0x66, 0x66, 0x3E, 0x36, 0x66, 0x67, 0],
   [0x1E, 0x33, 0x07, 0x0E, 0x38, 0x33, 0x1E, 0],
   [0x3F, 0x2D, 0x0C, 0x0C, 0x0C, 0x0C, 0x1E, 0],
   [0x33, 0x33, 0x33, 0x33, 0x33, 0x33, 0x3F, 0],
   [0x33, 0x33, 0x33, 0x33, 0x33, 0x1E, 0x0C, 0],
   [0x63, 0x63, 0x63, 0x6B, 0x7F, 0x77, 0x63, 0],
   [0x63, 0x63, 0x36, 0x1C, 0x1C, 0x36, 0x63, 0],
   [0x33, 0x33, 0x33, 0x1E, 0x0C, 0x0C, 0x1E, 0],
   [0x7F, 0x63, 0x31, 0x18, 0x4C, 0x66, 0x7F, 0],
   [0x1E, 0x06, 0x06, 0x06, 0x06, 0x06, 0x1E, 0],
   [0x03, 0x06, 0x0C, 0x18, 0x30, 0x60, 0x40, 0],
   [0x1E, 0x18, 0x18, 0x18, 0x18, 0x18, 0x1E, 0],
   [0x08, 0x1C, 0x36, 0x63, 0, 0, 0, 0],
   [0, 0, 0, 0, 0, 0, 0, 0xFF],
   [0x0C, 0x0C, 0x18, 0, 0, 0, 0, 0],
   [0, 0, 0x1E, 0x30, 0x3E, 0x33, 0x6E, 0],
   [0x07, 0x06, 0x06, 0x3E, 0x66, 0x66, 0x3B, 0],
   [0, 0, 0x1E, 0x33, 0x03, 0x33, 0x1E, 0],
   [0x38, 0x30, 0x30, 0x3e, 0x33, 0x33, 0x6E, 0],
   [0, 0, 0x1E, 0x33, 0x3f, 0x03, 0x1E, 0],
   [0x1C, 0x36, 0x06, 0x0f, 0x06, 0x06, 0x0F, 0],
   [0, 0, 0x6E, 0x33, 0x33, 0x3E, 0x30, 0x1F],
   [0x07, 0x06, 0x36, 0x6E, 0x66, 0x66, 0x67, 0],
   [0x0C, 0, 0x0E, 0x0C, 0x0C, 0x0C, 0x1E, 0],
   [0x30, 0, 0x30, 0x30, 0x30, 0x33, 0x33, 0x1E],
   [0x07, 0x06, 0x66, 0x36, 0x1E, 0x36, 0x67, 0],
   [0x0E, 0x0C, 0x0C, 0x0C, 0x0C, 0x0C, 0x1E, 0],
   [0, 0, 0x33, 0x7F, 0x7F, 0x6B, 0x63, 0],
   [0, 0, 0x1F, 0x33, 0x33, 0x33, 0x33, 0],
   [0, 0, 0x1E, 0x33, 0x33, 0x33, 0x1E, 0],
   [0, 0, 0x3B, 0x66, 0x66, 0x3E, 0x06, 0x0F],
   [0, 0, 0x6E, 0x33, 0x33, 0x3E, 0x30, 0x78],
   [0, 0, 0x3B, 0x6E, 0x66, 0x06, 0x0F, 0],
   [0, 0, 0x3E, 0x03, 0x1E, 0x30, 0x1F, 0],
   [0x08, 0x0C, 0x3E, 0x0C, 0x0C, 0x2C, 0x18, 0],
   [0, 0, 0x33, 0x33, 0x33, 0x33, 0x6E, 0],
   [0, 0, 0x33, 0x33, 0x33, 0x1E, 0x0C, 0],
   [0, 0, 0x63, 0x6B, 0x7F, 0x7F, 0x36, 0],
   [0, 0, 0x63, 0x36, 0x1C, 0x36, 0x63, 0],
   [0, 0, 0x33, 0x33, 0x33, 0x3E, 0x30, 0x1F],
   [0, 0, 0x3F, 0x19, 0x0C, 0x26, 0x3F, 0],
   [0x38, 0x0C, 0x0C, 0x07, 0x0C, 0x0C, 0x38, 0],
   [0x18, 0x18, 0x18, 0, 0x18, 0x18, 0x18, 0],
   [0x07, 0x0C, 0x0C, 0x38, 0x0C, 0x0C, 0x07, 0],
   [0x6E, 0x3B, 0, 0, 0, 0, 0, 0],
   [0, 0, 0, 0, 0, 0, 0, 0]]"

text \<open>The loops of \<open>printChar\<close>: the columns of a row, and the rows.\<close>

definition print_row :: "u8 \<Rightarrow> int \<Rightarrow> int \<Rightarrow> framebuffer \<Rightarrow> framebuffer" where
  "print_row bits x y f =
     fold (\<lambda>col. plotPixel (x + int col) y (if bit bits col then 0xFFFFFFFF else 0)) [0..<nat FONT_WIDTH] f"

text \<open>
  A character is a signed byte: from 128 on the index is negative and the font is read outside
  its bounds, which is \<open>None\<close>.
\<close>

definition printChar :: "u8 \<Rightarrow> int \<Rightarrow> int \<Rightarrow> framebuffer \<Rightarrow> framebuffer option" where
  "printChar c x y f =
     (if unat c < length font8x8_basic
      then Some (fold (\<lambda>row. print_row (font8x8_basic ! unat c ! row) x (y + int row)) [0..<nat FONT_HEIGHT] f)
      else None)"

primrec printString :: "u8 list \<Rightarrow> int \<Rightarrow> int \<Rightarrow> framebuffer \<Rightarrow> framebuffer option" where
  "printString [] x y f = Some f"
| "printString (c # cs) x y f = Option.bind (printChar c x y f) (printString cs (x + 8) y)"

section \<open>Images\<close>

definition draw_block :: "u32 \<Rightarrow> int \<Rightarrow> int \<Rightarrow> int \<Rightarrow> int \<Rightarrow> framebuffer \<Rightarrow> framebuffer" where
  "draw_block color x y scaleX scaleY f =
     fold (\<lambda>dy. fold (\<lambda>dx. plotPixel (x + int dx) (y + int dy) color) [0..<nat scaleX]) [0..<nat scaleY] f"

definition drawImage :: "u32 list \<Rightarrow> int \<Rightarrow> int \<Rightarrow> int \<Rightarrow> int \<Rightarrow> int \<Rightarrow> int \<Rightarrow> framebuffer \<Rightarrow> framebuffer" where
  "drawImage img width height x0 y0 scaleX scaleY f =
     (let sx = (if scaleX \<le> 0 then 1 else scaleX); sy = (if scaleY \<le> 0 then 1 else scaleY)
      in fold (\<lambda>y. fold (\<lambda>x. draw_block (img ! nat (int y * width + int x)) (x0 + int x * sx) (y0 + int y * sy) sx sy)
           [0..<nat width]) [0..<nat height] f)"

section \<open>The mouse cursor\<close>

text \<open>The position and the screen.\<close>

record mouse =
  is_mouse_test :: bool
  cursor_x :: int
  cursor_y :: int
  screen :: framebuffer

record mouse_ev_t =
  buttons :: u8
  ev_x :: u8
  ev_y :: u8
  ev_z :: u8

definition upto_ints :: "int \<Rightarrow> int list" where
  "upto_ints n = map (\<lambda>i. int i - n) [0..<nat (2 * n + 1)]"

definition draw_cursor :: "mouse \<Rightarrow> mouse" where
  "draw_cursor s =
     (let x = cursor_x s; y = cursor_y s;
          f1 = fold (\<lambda>i. if i \<noteq> 0 then plotPixel x (y + i) 0xFFFFFF else (\<lambda>f. f)) (upto_ints 5) (screen s);
          f2 = fold (\<lambda>i. if i \<noteq> 0 then plotPixel (x + i) y 0xFFFFFF else (\<lambda>f. f)) (upto_ints 5) f1
      in s\<lparr>screen := plotPixel x y 0xFF0000 f2\<rparr>)"

definition clear_cursor_area :: "mouse \<Rightarrow> mouse" where
  "clear_cursor_area s =
     s\<lparr>screen := fold (\<lambda>i. fold (\<lambda>j. plotPixel (cursor_x s + i) (cursor_y s + j) 0) (upto_ints 10)) (upto_ints 10) (screen s)\<rparr>"

definition clamp_cursor :: "mouse \<Rightarrow> mouse" where
  "clamp_cursor s =
     (let s1 = (if cursor_x s < 0 then s\<lparr>cursor_x := 0\<rparr> else s);
          s2 = (if cursor_x s1 \<ge> FB_WIDTH (screen s1) then s1\<lparr>cursor_x := FB_WIDTH (screen s1) - 1\<rparr> else s1);
          s3 = (if cursor_y s2 < 0 then s2\<lparr>cursor_y := 0\<rparr> else s2)
      in if cursor_y s3 \<ge> FB_HEIGHT (screen s3) then s3\<lparr>cursor_y := FB_HEIGHT (screen s3) - 1\<rparr> else s3)"

definition update_cursor :: "int \<Rightarrow> int \<Rightarrow> mouse \<Rightarrow> mouse" where
  "update_cursor dx dy s =
     (let s1 = clear_cursor_area s
      in draw_cursor (clamp_cursor (s1\<lparr>cursor_x := cursor_x s1 + dx, cursor_y := cursor_y s1 + dy\<rparr>)))"

definition enable_mouse_test :: "mouse \<Rightarrow> mouse" where
  "enable_mouse_test s = update_cursor 0 0 (s\<lparr>is_mouse_test := True\<rparr>)"

definition handle_mouse_event :: "mouse_ev_t \<Rightarrow> mouse \<Rightarrow> mouse" where
  "handle_mouse_event event s =
     (if is_mouse_test s then update_cursor (sint (ev_x event)) (sint (ev_y event)) s else s)"

section \<open>Pixels\<close>

named_theorems fb_simps \<open>what drawing keeps\<close>

definition pixel :: "framebuffer \<Rightarrow> int \<Rightarrow> int \<Rightarrow> u32" where
  "pixel f x y = fb_cells f (cell_index (fb_pitch f) x y)"

definition on_screen :: "framebuffer \<Rightarrow> int \<Rightarrow> int \<Rightarrow> bool" where
  "on_screen f x y \<longleftrightarrow> 0 \<le> x \<and> x < FB_WIDTH f \<and> 0 \<le> y \<and> y < FB_HEIGHT f"

text \<open>Rows are at least as long as the screen is wide, and the last cell has an address.\<close>

definition fb_ok :: "framebuffer \<Rightarrow> bool" where
  "fb_ok f \<longleftrightarrow> FB_WIDTH f \<le> uint (drop_bit 2 (fb_pitch f))
    \<and> FB_HEIGHT f * uint (drop_bit 2 (fb_pitch f)) < 2 ^ 64"

lemma plotPixel_geometry [fb_simps]:
  "fb_pitch (plotPixel x y c f) = fb_pitch f" "FB_WIDTH (plotPixel x y c f) = FB_WIDTH f"
  "FB_HEIGHT (plotPixel x y c f) = FB_HEIGHT f"
  by (simp_all add: plotPixel_def)

lemma cell_index_inj:
  assumes "fb_ok f" "on_screen f x y" "on_screen f x' y'"
  shows "cell_index (fb_pitch f) x y = cell_index (fb_pitch f) x' y' \<longleftrightarrow> x = x' \<and> y = y'"
proof -
  let ?p = "uint (drop_bit 2 (fb_pitch f))"
  have ix: "uint (cell_index (fb_pitch f) u v) = v * ?p + u" if "on_screen f u v" for u v
  proof -
    have b: "0 \<le> u" "u < ?p" "0 \<le> v" "v < FB_HEIGHT f" using that assms(1) by (auto simp: on_screen_def fb_ok_def)
    have "(v + 1) * ?p \<le> FB_HEIGHT f * ?p" using b(4) by (intro mult_right_mono) auto
    then have lt: "v * ?p + u < 2 ^ 64" using b(2) assms(1) by (simp add: fb_ok_def algebra_simps)
    have "cell_index (fb_pitch f) u v = word_of_int (v * ?p + u)"
      by (simp add: cell_index_def)
    then show ?thesis using lt b by (simp only: uint_word_of_int_eq) (rule take_bit_int_eq_self, simp_all)
  qed
  have "x = x' \<and> y = y'" if "y * ?p + x = y' * ?p + x'"
  proof -
    have b: "0 \<le> x" "x < ?p" "0 \<le> x'" "x' < ?p" using assms by (auto simp: on_screen_def fb_ok_def)
    have "(y * ?p + x) div ?p = y" "(y' * ?p + x') div ?p = y'" using b by simp_all
    then have "y = y'" using that by metis
    then show ?thesis using that by simp
  qed
  then show ?thesis using ix [OF assms(2)] ix [OF assms(3)] by (metis)
qed

lemma pixel_plotPixel:
  assumes "fb_ok f" "on_screen f px py"
  shows "pixel (plotPixel x y c f) px py = (if (px, py) = (x, y) then c else pixel f px py)"
proof (cases "on_screen f x y")
  case True
  then show ?thesis using cell_index_inj [OF assms True] by (auto simp: plotPixel_def pixel_def on_screen_def)
next
  case False
  then show ?thesis using assms(2) by (auto simp: plotPixel_def on_screen_def)
qed

text \<open>
  A drawing that plots a list of points with colours; the last plot of a point counts. Every
  routine here is one, up to the order of points.
\<close>

definition plots :: "(framebuffer \<Rightarrow> framebuffer) \<Rightarrow> (int \<Rightarrow> int \<Rightarrow> u32 option) \<Rightarrow> bool" where
  "plots d p \<longleftrightarrow> (\<forall>f. fb_pitch (d f) = fb_pitch f \<and> FB_WIDTH (d f) = FB_WIDTH f \<and> FB_HEIGHT (d f) = FB_HEIGHT f
     \<and> (fb_ok f \<longrightarrow> (\<forall>x y. on_screen f x y \<longrightarrow> pixel (d f) x y = (case p x y of Some c \<Rightarrow> c | None \<Rightarrow> pixel f x y))))"

lemma plotsD:
  assumes "plots d p"
  shows "fb_pitch (d f) = fb_pitch f" "FB_WIDTH (d f) = FB_WIDTH f" "FB_HEIGHT (d f) = FB_HEIGHT f"
    and "fb_ok f \<Longrightarrow> on_screen f x y \<Longrightarrow> pixel (d f) x y = (case p x y of Some c \<Rightarrow> c | None \<Rightarrow> pixel f x y)"
  using assms by (auto simp: plots_def)

lemma plots_pixel: "plots (plotPixel x y c) (\<lambda>px py. if (px, py) = (x, y) then Some c else None)"
  by (auto simp: plots_def fb_simps pixel_plotPixel)

lemma plots_id: "plots (\<lambda>f. f) (\<lambda>_ _. None)"
  by (simp add: plots_def)

lemma plots_comp:
  assumes "plots d p" "plots e q"
  shows "plots (\<lambda>f. e (d f)) (\<lambda>x y. case q x y of Some c \<Rightarrow> Some c | None \<Rightarrow> p x y)"
proof -
  have "fb_ok (d f) = fb_ok f" "on_screen (d f) x y = on_screen f x y" for f x y
    using plotsD [OF assms(1)] by (simp_all add: fb_ok_def on_screen_def)
  then show ?thesis using plotsD [OF assms(1)] plotsD [OF assms(2)]
    by (auto simp: plots_def split: option.split)
qed

text \<open>A fold of drawings shows what the last of them that touches a point puts there.\<close>

lemma plots_fold:
  assumes "\<And>i. i \<in> set xs \<Longrightarrow> plots (d i) (p i)"
  shows "plots (fold d xs) (\<lambda>x y. fold (\<lambda>i r. case p i x y of Some c \<Rightarrow> Some c | None \<Rightarrow> r) xs None)"
  using assms
proof (induction xs rule: rev_induct)
  case Nil
  then show ?case using plots_id by (simp add: id_def)
next
  case (snoc i xs)
  have "plots (\<lambda>f. d i (fold d xs f))
     (\<lambda>x y. case p i x y of Some c \<Rightarrow> Some c | None \<Rightarrow> fold (\<lambda>i r. case p i x y of Some c \<Rightarrow> Some c | None \<Rightarrow> r) xs None)"
    by (rule plots_comp) (use snoc in auto)
  then show ?case by (simp add: comp_def)
qed

text \<open>With at most one drawing touching a point the order does not matter.\<close>

lemma fold_none:
  assumes "\<And>i. i \<in> set xs \<Longrightarrow> q i = None"
  shows "fold (\<lambda>i r. case q i of Some c \<Rightarrow> Some c | None \<Rightarrow> r) xs r0 = r0"
  using assms by (induction xs arbitrary: r0) simp_all

lemma fold_one:
  assumes "distinct xs" "\<And>i. i \<in> set xs \<Longrightarrow> i \<noteq> k \<Longrightarrow> q i = None"
  shows "fold (\<lambda>i r. case q i of Some c \<Rightarrow> Some c | None \<Rightarrow> r) xs r0
    = (if k \<in> set xs then (case q k of Some c \<Rightarrow> Some c | None \<Rightarrow> r0) else r0)"
  using assms
proof (induction xs arbitrary: r0)
  case (Cons a xs)
  show ?case
  proof (cases "a = k")
    case True
    then have "fold (\<lambda>i r. case q i of Some c \<Rightarrow> Some c | None \<Rightarrow> r) xs r = r" for r
      using Cons.prems by (intro fold_none) auto
    then show ?thesis using True by simp
  next
    case False
    then show ?thesis using Cons.IH [of r0] Cons.prems by simp
  qed
qed simp

section \<open>What the routines draw\<close>

lemma plots_row:
  "plots (print_row bits x y) (\<lambda>px py. if py = y \<and> x \<le> px \<and> px < x + 8
     then Some (if bit bits (nat (px - x)) then 0xFFFFFFFF else 0) else None)"
proof -
  let ?p = "\<lambda>col px py. if (px, py) = (x + int col, y) then Some (if bit bits col then 0xFFFFFFFF else (0 :: u32)) else None"
  have "plots (print_row bits x y) (\<lambda>px py. fold (\<lambda>i r. case ?p i px py of Some c \<Rightarrow> Some c | None \<Rightarrow> r) [0..<8] None)"
    unfolding print_row_def FONT_WIDTH_def using plots_fold [OF plots_pixel] by simp
  moreover have "fold (\<lambda>i r. case ?p i px py of Some c \<Rightarrow> Some c | None \<Rightarrow> r) [0..<8] None
    = (if py = y \<and> x \<le> px \<and> px < x + 8 then Some (if bit bits (nat (px - x)) then 0xFFFFFFFF else 0) else None)" for px py
    by (subst fold_one [where k = "nat (px - x)"]) auto
  ultimately show ?thesis by simp
qed

lemma plots_char:
  "plots (fold (\<lambda>row. print_row (rows ! row) x (y + int row)) [0..<8])
    (\<lambda>px py. if x \<le> px \<and> px < x + 8 \<and> y \<le> py \<and> py < y + 8
     then Some (if bit (rows ! nat (py - y)) (nat (px - x)) then 0xFFFFFFFF else 0) else None)"
proof -
  let ?p = "\<lambda>row px py. if py = y + int row \<and> x \<le> px \<and> px < x + 8
     then Some (if bit (rows ! row :: u8) (nat (px - x)) then 0xFFFFFFFF else (0 :: u32)) else None"
  have "plots (fold (\<lambda>row. print_row (rows ! row) x (y + int row)) [0..<8])
    (\<lambda>px py. fold (\<lambda>i r. case ?p i px py of Some c \<Rightarrow> Some c | None \<Rightarrow> r) [0..<8] None)"
    by (rule plots_fold [OF plots_row])
  moreover have "fold (\<lambda>i r. case ?p i px py of Some c \<Rightarrow> Some c | None \<Rightarrow> r) [0..<8] None
    = (if x \<le> px \<and> px < x + 8 \<and> y \<le> py \<and> py < y + 8
       then Some (if bit (rows ! nat (py - y)) (nat (px - x)) then 0xFFFFFFFF else 0) else None)" for px py
    by (subst fold_one [where k = "nat (py - y)"]) auto
  ultimately show ?thesis by simp
qed

lemma font_length: "length font8x8_basic = 128"
  by (simp add: font8x8_basic_def)

text \<open>
  A character of the font is drawn exactly: inside its eight by eight cells each visible pixel is
  white or black as the font says, every other visible pixel keeps its colour.
\<close>

theorem printChar_correct:
  assumes "unat c < 128" and "fb_ok f" and "on_screen f px py"
  shows "\<exists>f'. printChar c x y f = Some f' \<and> pixel f' px py =
    (if x \<le> px \<and> px < x + 8 \<and> y \<le> py \<and> py < y + 8
     then (if bit (font8x8_basic ! unat c ! nat (py - y)) (nat (px - x)) then 0xFFFFFFFF else 0)
     else pixel f px py)"
  using plotsD(4) [OF plots_char [of "font8x8_basic ! unat c" x y] assms(2,3)] assms(1)
  by (simp add: printChar_def FONT_HEIGHT_def font_length)

section \<open>The cursor\<close>

lemma plots_keep: "plots d p \<Longrightarrow> FB_WIDTH (d f) = FB_WIDTH f \<and> FB_HEIGHT (d f) = FB_HEIGHT f"
  by (simp add: plotsD)

lemma fold_keep:
  assumes "\<And>i f. FB_WIDTH (d i f) = FB_WIDTH f \<and> FB_HEIGHT (d i f) = FB_HEIGHT f"
  shows "FB_WIDTH (fold d xs f) = FB_WIDTH f \<and> FB_HEIGHT (fold d xs f) = FB_HEIGHT f"
  using assms by (induction xs arbitrary: f) simp_all

lemma draw_cursor_keeps:
  "cursor_x (draw_cursor s) = cursor_x s \<and> cursor_y (draw_cursor s) = cursor_y s
   \<and> FB_WIDTH (screen (draw_cursor s)) = FB_WIDTH (screen s) \<and> FB_HEIGHT (screen (draw_cursor s)) = FB_HEIGHT (screen s)"
  by (simp add: draw_cursor_def Let_def fb_simps fold_keep)

lemma clear_cursor_area_keeps:
  "cursor_x (clear_cursor_area s) = cursor_x s \<and> cursor_y (clear_cursor_area s) = cursor_y s
   \<and> FB_WIDTH (screen (clear_cursor_area s)) = FB_WIDTH (screen s)
   \<and> FB_HEIGHT (screen (clear_cursor_area s)) = FB_HEIGHT (screen s)"
  by (simp add: clear_cursor_area_def fb_simps fold_keep)

lemma clamp_cursor_on_screen:
  assumes "0 < FB_WIDTH (screen s)" "0 < FB_HEIGHT (screen s)"
  shows "on_screen (screen (clamp_cursor s)) (cursor_x (clamp_cursor s)) (cursor_y (clamp_cursor s))
    \<and> screen (clamp_cursor s) = screen s"
  using assms by (simp add: clamp_cursor_def on_screen_def Let_def)

text \<open>Whatever the mouse reports, the cursor stays on the screen.\<close>

lemma update_cursor_on_screen:
  assumes "0 < FB_WIDTH (screen s)" "0 < FB_HEIGHT (screen s)"
  shows "on_screen (screen (update_cursor dx dy s)) (cursor_x (update_cursor dx dy s)) (cursor_y (update_cursor dx dy s))"
proof -
  define t where "t = (clear_cursor_area s)\<lparr>cursor_x := cursor_x (clear_cursor_area s) + dx, cursor_y := cursor_y (clear_cursor_area s) + dy\<rparr>"
  have "0 < FB_WIDTH (screen t)" "0 < FB_HEIGHT (screen t)" using assms by (simp_all add: t_def clear_cursor_area_keeps)
  moreover have "update_cursor dx dy s = draw_cursor (clamp_cursor t)" by (simp add: update_cursor_def Let_def t_def)
  ultimately show ?thesis using clamp_cursor_on_screen [of t] by (auto simp: on_screen_def draw_cursor_keeps)
qed

section \<open>Witness\<close>

definition demo_fb :: framebuffer where
  "demo_fb = \<lparr>fb_cells = \<lambda>_. 7, fb_pitch = 128, FB_WIDTH = 32, FB_HEIGHT = 16\<rparr>"

theorem printChar_correct_witness:
  "\<exists>f'. printChar 0x41 8 0 demo_fb = Some f' \<and> pixel f' 10 0 = 0xFFFFFFFF"
proof -
  have ok: "fb_ok demo_fb" "on_screen demo_fb 10 0" by (simp_all add: fb_ok_def on_screen_def demo_fb_def)
  have "font8x8_basic ! 65 ! 0 = 0x0C" by (simp add: font8x8_basic_def)
  then show ?thesis
    using printChar_correct [OF _ ok, of "0x41" 8 0] by simp
qed

end
