(* ===== verification/Ring_Buffer.thy ===== *)
theory Ring_Buffer
  imports Libc_String
begin

text \<open>
  The two keyboard ring buffers: the decoded characters of \<open>drivers/keyboard.c\<close> and the raw
  scancodes of \<open>drivers/x86_64/ps2.c\<close> (filled by \<open>interupts/ps2.c\<close>). Both keep 256 slots
  and two \<open>uint8_t\<close> indices that wrap by themselves. The locale \<open>bounded_queue\<close> is the
  contract of such a buffer (a first-in first-out queue of at most 255 bytes that drops
  what does not fit); it is interpreted on both buffers, and the device reads are shown
  to drain it.
\<close>

section \<open>The bounded queue contract\<close>

locale bounded_queue =
  fixes push :: "u8 \<Rightarrow> 's \<Rightarrow> 's"
    and is_empty :: "'s \<Rightarrow> bool"
    and pop :: "'s \<Rightarrow> u8 \<times> 's"
    and contents :: "'s \<Rightarrow> u8 list"
    and inv :: "'s \<Rightarrow> bool"
  assumes contents_bound: "inv s \<Longrightarrow> length (contents s) \<le> 255"
    and contents_push: "inv s \<Longrightarrow>
      contents (push c s) = (if length (contents s) < 255 then contents s @ [c] else contents s)"
    and is_empty_iff: "inv s \<Longrightarrow> is_empty s \<longleftrightarrow> contents s = []"
    and pop_contents: "inv s \<Longrightarrow> \<not> is_empty s \<Longrightarrow>
      contents s = fst (pop s) # contents (snd (pop s))"
    and inv_push: "inv s \<Longrightarrow> inv (push c s)"
    and inv_pop: "inv s \<Longrightarrow> \<not> is_empty s \<Longrightarrow> inv (snd (pop s))"
begin

lemma inv_fold_push: "inv s \<Longrightarrow> inv (fold push cs s)"
  by (induction cs arbitrary: s) (simp_all add: inv_push)

text \<open>Pushing a sequence keeps exactly what fits, in order.\<close>

lemma contents_fold_push:
  "inv s \<Longrightarrow> contents (fold push cs s) = contents s @ take (255 - length (contents s)) cs"
proof (induction cs arbitrary: s)
  case Nil
  then show ?case by simp
next
  case (Cons c cs)
  from Cons.IH [OF inv_push [OF Cons.prems]] contents_bound [OF Cons.prems] show ?case
    by (cases "length (contents s)" "255 :: nat" rule: linorder_cases)
       (auto simp: contents_push [OF Cons.prems] take_Cons' Suc_diff_Suc)
qed

text \<open>Draining at most \<open>n\<close> bytes takes them from the front.\<close>

primrec drain :: "nat \<Rightarrow> 's \<Rightarrow> u8 list \<times> 's" where
  "drain 0 s = ([], s)"
| "drain (Suc n) s =
     (if is_empty s then ([], s)
      else let (c, s') = pop s; (cs, s'') = drain n s' in (c # cs, s''))"

lemma drain_spec:
  "inv s \<Longrightarrow> fst (drain n s) = take n (contents s) \<and>
    contents (snd (drain n s)) = drop n (contents s) \<and> inv (snd (drain n s))"
proof (induction n arbitrary: s)
  case 0
  then show ?case by simp
next
  case (Suc n)
  show ?case
  proof (cases "is_empty s")
    case True
    with Suc.prems show ?thesis by (simp add: is_empty_iff)
  next
    case False
    with Suc.IH [OF inv_pop [OF Suc.prems False]] pop_contents [OF Suc.prems False]
    show ?thesis by (auto simp: case_prod_beta Let_def)
  qed
qed

end

section \<open>The shared index arithmetic\<close>

text \<open>Contents of a ring with read index \<open>r\<close> and write index \<open>w\<close>, oldest first.\<close>

definition ring_contents :: "u8 \<Rightarrow> u8 \<Rightarrow> u8 list \<Rightarrow> u8 list" where
  "ring_contents r w buf = map (\<lambda>i. buf ! unat (r + of_nat i)) [0..<unat (w - r)]"

lemma length_ring_contents [simp]: "length (ring_contents r w buf) = unat (w - r)"
  by (simp add: ring_contents_def)

lemma unat_u8_lt: "unat (x :: u8) < 256"
  using unsigned_less [of x] by simp

lemma ring_full_iff: "w + 1 = r \<longleftrightarrow> unat (w - r) = 255" for r w :: u8
proof -
  have "unat (- 1 :: u8) = 255" by (simp add: unsigned_minus_1_eq_mask mask_eq_exp_minus_1)
  moreover have "w + 1 = r \<longleftrightarrow> w - r = - 1" by (auto simp: diff_eq_eq)
  ultimately show ?thesis by (metis word_unat_eq_iff)
qed

lemma ring_contents_push:
  assumes "w + 1 \<noteq> r" and "length buf = 256"
  shows "ring_contents r (w + 1) (buf[unat w := c]) = ring_contents r w buf @ [c]"
proof -
  have n: "unat (w - r) \<noteq> 255" using assms(1) ring_full_iff by blast
  then have "unat (w - r) + 1 < 256" using unat_u8_lt [of "w - r"] by linarith
  then have step: "unat (w + 1 - r) = Suc (unat (w - r))"
    by (simp add: diff_add_eq [symmetric] unat_add_no_wrap)
  have last: "buf[unat w := c] ! unat w = c"
    using assms(2) unat_u8_lt [of w] by simp
  have other: "buf[unat w := c] ! unat (r + of_nat i) = buf ! unat (r + of_nat i)"
    if "i < unat (w - r)" for i
  proof -
    have "unat (of_nat i :: u8) = i"
      using that unat_u8_lt [of "w - r"] by (simp add: unat_of_nat)
    with that have "r + of_nat i \<noteq> w" by auto
    then show ?thesis by (simp add: word_unat_eq_iff)
  qed
  show ?thesis by (simp add: ring_contents_def step last other)
qed

lemma ring_contents_empty: "r = w \<longleftrightarrow> ring_contents r w buf = []" for r w :: u8
proof -
  have "ring_contents r w buf = [] \<longleftrightarrow> unat (w - r) = 0"
    by (simp flip: length_0_conv)
  then show ?thesis by (auto simp: unat_eq_0)
qed

lemma ring_contents_pop:
  assumes "r \<noteq> w"
  shows "ring_contents r w buf = buf ! unat r # ring_contents (r + 1) w buf"
proof -
  have "w - r \<noteq> 0" using assms by auto
  then have n: "unat (w - r) = Suc (unat (w - (r + 1)))"
    by (metis Suc_pred' diff_diff_eq unat_gt_0 unat_minus_one)
  show ?thesis unfolding ring_contents_def n
    by (simp add: map_upt_Suc add.assoc del: upt_Suc)
qed

section \<open>The keyboard character buffer\<close>

record kbd =
  keyboard_buffer_write :: u8
  keyboard_buffer_read :: u8
  keyboard_buffer :: "u8 list"

definition kbd_init :: kbd where
  "kbd_init = \<lparr>keyboard_buffer_write = 0, keyboard_buffer_read = 0,
     keyboard_buffer = replicate 256 0\<rparr>"

text \<open>Each operation runs under \<open>keyboard_buffer_lock\<close>, so it is one step of the model.\<close>

definition kbdDevicePush :: "u8 \<Rightarrow> kbd \<Rightarrow> kbd" where
  "kbdDevicePush c s =
     (let nxt = keyboard_buffer_write s + 1
      in if nxt = keyboard_buffer_read s then s
         else s\<lparr>keyboard_buffer := (keyboard_buffer s)[unat (keyboard_buffer_write s) := c],
                keyboard_buffer_write := nxt\<rparr>)"

text \<open>
  \<open>kbdDeviceRead\<close> fills the caller's buffer from its start and returns the number of bytes
  read. \<open>int\<close> arguments are signed: a length that is not positive reads nothing.
\<close>

function kbdDeviceRead_loop :: "u8 list \<Rightarrow> int \<Rightarrow> int \<Rightarrow> kbd \<Rightarrow> int \<times> u8 list \<times> kbd" where
  "kbdDeviceRead_loop return_data read_length bytes_read s =
     (if bytes_read < read_length then
        if keyboard_buffer_read s = keyboard_buffer_write s then (bytes_read, return_data, s)
        else kbdDeviceRead_loop
          (return_data[nat bytes_read := keyboard_buffer s ! unat (keyboard_buffer_read s)])
          read_length (bytes_read + 1)
          (s\<lparr>keyboard_buffer_read := keyboard_buffer_read s + 1\<rparr>)
      else (bytes_read, return_data, s))"
  by pat_completeness auto
termination
  by (relation "measure (\<lambda>(d, n, i, s). nat (n - i))") auto

declare kbdDeviceRead_loop.simps [simp del]

definition kbdDeviceRead :: "u8 list \<Rightarrow> int \<Rightarrow> kbd \<Rightarrow> int \<times> u8 list \<times> kbd" where
  "kbdDeviceRead return_data read_length s = kbdDeviceRead_loop return_data read_length 0 s"

definition kbdDeviceWrite :: "u8 list \<Rightarrow> int \<Rightarrow> int" where
  "kbdDeviceWrite write_data write_length = -1"

definition kbd_inv :: "kbd \<Rightarrow> bool" where
  "kbd_inv s \<longleftrightarrow> length (keyboard_buffer s) = 256"

definition kbd_contents :: "kbd \<Rightarrow> u8 list" where
  "kbd_contents s = ring_contents (keyboard_buffer_read s) (keyboard_buffer_write s) (keyboard_buffer s)"

definition kbd_pop :: "kbd \<Rightarrow> u8 \<times> kbd" where
  "kbd_pop s = (keyboard_buffer s ! unat (keyboard_buffer_read s),
     s\<lparr>keyboard_buffer_read := keyboard_buffer_read s + 1\<rparr>)"

interpretation kq: bounded_queue kbdDevicePush
  "\<lambda>s. keyboard_buffer_read s = keyboard_buffer_write s" kbd_pop kbd_contents kbd_inv
proof unfold_locales
  fix s c assume inv: "kbd_inv s"
  show "length (kbd_contents s) \<le> 255"
    using unat_u8_lt [of "keyboard_buffer_write s - keyboard_buffer_read s"]
    by (simp add: kbd_contents_def)
  show "kbd_contents (kbdDevicePush c s) =
      (if length (kbd_contents s) < 255 then kbd_contents s @ [c] else kbd_contents s)"
    using inv unat_u8_lt [of "keyboard_buffer_write s - keyboard_buffer_read s"]
      ring_full_iff [of "keyboard_buffer_write s" "keyboard_buffer_read s"]
    by (auto simp: kbd_contents_def kbdDevicePush_def Let_def kbd_inv_def ring_contents_push)
  show "keyboard_buffer_read s = keyboard_buffer_write s \<longleftrightarrow> kbd_contents s = []"
    by (simp add: kbd_contents_def ring_contents_empty)
  show "kbd_inv (kbdDevicePush c s)"
    using inv by (simp add: kbd_inv_def kbdDevicePush_def Let_def)
  assume "keyboard_buffer_read s \<noteq> keyboard_buffer_write s"
  then show "kbd_contents s = fst (kbd_pop s) # kbd_contents (snd (kbd_pop s))"
    by (simp add: kbd_contents_def kbd_pop_def ring_contents_pop)
  show "kbd_inv (snd (kbd_pop s))" using inv by (simp add: kbd_inv_def kbd_pop_def)
qed

section \<open>The raw scancode buffer\<close>

record ps2kbd =
  ps2Kbd_buffer_head :: u8
  ps2Kbd_buffer_tail :: u8
  ps2Kbd_buffer :: "u8 list"

definition ps2kbd_init :: ps2kbd where
  "ps2kbd_init = \<lparr>ps2Kbd_buffer_head = 0, ps2Kbd_buffer_tail = 0,
     ps2Kbd_buffer = replicate 256 0\<rparr>"

text \<open>The part of \<open>ps2_isr\<close> that stores a raw scancode.\<close>

definition ps2_store_raw :: "u8 \<Rightarrow> ps2kbd \<Rightarrow> ps2kbd" where
  "ps2_store_raw scancode s =
     (let next_head = ps2Kbd_buffer_head s + 1
      in if next_head \<noteq> ps2Kbd_buffer_tail s
         then s\<lparr>ps2Kbd_buffer := (ps2Kbd_buffer s)[unat (ps2Kbd_buffer_head s) := scancode],
                ps2Kbd_buffer_head := next_head\<rparr>
         else s)"

function ps2KbdDeviceRead_loop :: "u8 list \<Rightarrow> int \<Rightarrow> int \<Rightarrow> int \<Rightarrow> ps2kbd \<Rightarrow> int \<times> u8 list \<times> ps2kbd"
where
  "ps2KbdDeviceRead_loop return_data read_length i bytes_read s =
     (if i < read_length then
        if ps2Kbd_buffer_head s = ps2Kbd_buffer_tail s then (bytes_read, return_data, s)
        else ps2KbdDeviceRead_loop
          (return_data[nat i := ps2Kbd_buffer s ! unat (ps2Kbd_buffer_tail s)])
          read_length (i + 1) (bytes_read + 1)
          (s\<lparr>ps2Kbd_buffer_tail := ps2Kbd_buffer_tail s + 1\<rparr>)
      else (bytes_read, return_data, s))"
  by pat_completeness auto
termination
  by (relation "measure (\<lambda>(d, n, i, b, s). nat (n - i))") auto

declare ps2KbdDeviceRead_loop.simps [simp del]

definition ps2KbdDeviceRead :: "u8 list \<Rightarrow> int \<Rightarrow> ps2kbd \<Rightarrow> int \<times> u8 list \<times> ps2kbd" where
  "ps2KbdDeviceRead return_data read_length s = ps2KbdDeviceRead_loop return_data read_length 0 0 s"

definition ps2KbdDeviceWrite :: "u8 list \<Rightarrow> int \<Rightarrow> int" where
  "ps2KbdDeviceWrite write_data write_length = -1"

definition ps2_inv :: "ps2kbd \<Rightarrow> bool" where
  "ps2_inv s \<longleftrightarrow> length (ps2Kbd_buffer s) = 256"

definition ps2_contents :: "ps2kbd \<Rightarrow> u8 list" where
  "ps2_contents s = ring_contents (ps2Kbd_buffer_tail s) (ps2Kbd_buffer_head s) (ps2Kbd_buffer s)"

definition ps2_pop :: "ps2kbd \<Rightarrow> u8 \<times> ps2kbd" where
  "ps2_pop s = (ps2Kbd_buffer s ! unat (ps2Kbd_buffer_tail s),
     s\<lparr>ps2Kbd_buffer_tail := ps2Kbd_buffer_tail s + 1\<rparr>)"

interpretation pq: bounded_queue ps2_store_raw
  "\<lambda>s. ps2Kbd_buffer_head s = ps2Kbd_buffer_tail s" ps2_pop ps2_contents ps2_inv
proof unfold_locales
  fix s c assume inv: "ps2_inv s"
  show "length (ps2_contents s) \<le> 255"
    using unat_u8_lt [of "ps2Kbd_buffer_head s - ps2Kbd_buffer_tail s"]
    by (simp add: ps2_contents_def)
  show "ps2_contents (ps2_store_raw c s) =
      (if length (ps2_contents s) < 255 then ps2_contents s @ [c] else ps2_contents s)"
    using inv unat_u8_lt [of "ps2Kbd_buffer_head s - ps2Kbd_buffer_tail s"]
      ring_full_iff [of "ps2Kbd_buffer_head s" "ps2Kbd_buffer_tail s"]
    by (auto simp: ps2_contents_def ps2_store_raw_def Let_def ps2_inv_def ring_contents_push)
  show "ps2Kbd_buffer_head s = ps2Kbd_buffer_tail s \<longleftrightarrow> ps2_contents s = []"
    by (metis ps2_contents_def ring_contents_empty)
  show "ps2_inv (ps2_store_raw c s)"
    using inv by (simp add: ps2_inv_def ps2_store_raw_def Let_def)
  assume "ps2Kbd_buffer_head s \<noteq> ps2Kbd_buffer_tail s"
  then show "ps2_contents s = fst (ps2_pop s) # ps2_contents (snd (ps2_pop s))"
    by (simp add: ps2_contents_def ps2_pop_def ring_contents_pop)
  show "ps2_inv (snd (ps2_pop s))" using inv by (simp add: ps2_inv_def ps2_pop_def)
qed

section \<open>Device reads drain the queues\<close>

text \<open>A list with the slots from \<open>i\<close> on overwritten by \<open>cs\<close>.\<close>

fun put_bytes :: "u8 list \<Rightarrow> nat \<Rightarrow> u8 list \<Rightarrow> u8 list" where
  "put_bytes d i [] = d"
| "put_bytes d i (c # cs) = put_bytes (d[i := c]) (Suc i) cs"

lemma put_bytes_eq: "i + length cs \<le> length d \<Longrightarrow>
    put_bytes d i cs = take i d @ cs @ drop (i + length cs) d"
proof (induction d i cs rule: put_bytes.induct)
  case (1 d i)
  show ?case by simp
next
  case (2 d i c cs)
  then have "put_bytes (d[i := c]) (Suc i) cs =
      take (Suc i) (d[i := c]) @ cs @ drop (Suc i + length cs) (d[i := c])" by simp
  also have "take (Suc i) (d[i := c]) = take i d @ [c]"
    using "2.prems" by (simp add: take_Suc_conv_app_nth)
  finally show ?case using "2.prems" by (simp add: drop_update_cancel)
qed

lemma kbdDeviceRead_loop_drain:
  assumes "0 \<le> i"
  shows "kbdDeviceRead_loop d n i s =
    (case kq.drain (nat (n - i)) s of (cs, s') \<Rightarrow> (i + int (length cs), put_bytes d (nat i) cs, s'))"
  using assms
proof (induction d n i s rule: kbdDeviceRead_loop.induct)
  case (1 d n i s)
  show ?case
  proof (cases "i < n")
    case False
    then show ?thesis by (simp add: kbdDeviceRead_loop.simps)
  next
    case True
    then have "nat (n - i) = Suc (nat (n - (i + 1)))" "nat (i + 1) = Suc (nat i)"
      using "1.prems" by auto
    with True "1.IH" "1.prems" show ?thesis
      by (auto simp: kbdDeviceRead_loop.simps [of d n i s] kbd_pop_def [of s] Let_def split: prod.splits)
  qed
qed

lemma ps2KbdDeviceRead_loop_drain:
  assumes "0 \<le> i"
  shows "ps2KbdDeviceRead_loop d n i b s =
    (case pq.drain (nat (n - i)) s of (cs, s') \<Rightarrow> (b + int (length cs), put_bytes d (nat i) cs, s'))"
  using assms
proof (induction d n i b s rule: ps2KbdDeviceRead_loop.induct)
  case (1 d n i b s)
  show ?case
  proof (cases "i < n")
    case False
    then show ?thesis by (simp add: ps2KbdDeviceRead_loop.simps)
  next
    case True
    then have "nat (n - i) = Suc (nat (n - (i + 1)))" "nat (i + 1) = Suc (nat i)"
      using "1.prems" by auto
    with True "1.IH" "1.prems" show ?thesis
      by (auto simp: ps2KbdDeviceRead_loop.simps [of d n i b s] ps2_pop_def [of s] Let_def split: prod.splits)
  qed
qed

lemma kbdDeviceRead_spec:
  assumes "kbd_inv s" and "0 \<le> n" and "nat n \<le> length d"
  defines "out \<equiv> take (nat n) (kbd_contents s)"
  shows "\<exists>s'. kbdDeviceRead d n s = (int (length out), out @ drop (length out) d, s') \<and>
    kbd_inv s' \<and> kbd_contents s' = drop (nat n) (kbd_contents s)"
proof -
  obtain cs s' where dr: "kq.drain (nat n) s = (cs, s')" by (cases "kq.drain (nat n) s")
  from kq.drain_spec [OF assms(1), of "nat n"] dr assms(3)
  have "cs = out" "kbd_contents s' = drop (nat n) (kbd_contents s)" "kbd_inv s'"
    "length out \<le> length d" by (auto simp: out_def)
  with dr show ?thesis
    by (auto simp: kbdDeviceRead_def kbdDeviceRead_loop_drain put_bytes_eq)
qed

lemma ps2KbdDeviceRead_spec:
  assumes "ps2_inv s" and "0 \<le> n" and "nat n \<le> length d"
  defines "out \<equiv> take (nat n) (ps2_contents s)"
  shows "\<exists>s'. ps2KbdDeviceRead d n s = (int (length out), out @ drop (length out) d, s') \<and>
    ps2_inv s' \<and> ps2_contents s' = drop (nat n) (ps2_contents s)"
proof -
  obtain cs s' where dr: "pq.drain (nat n) s = (cs, s')" by (cases "pq.drain (nat n) s")
  from pq.drain_spec [OF assms(1), of "nat n"] dr assms(3)
  have "cs = out" "ps2_contents s' = drop (nat n) (ps2_contents s)" "ps2_inv s'"
    "length out \<le> length d" by (auto simp: out_def)
  with dr show ?thesis
    by (auto simp: ps2KbdDeviceRead_def ps2KbdDeviceRead_loop_drain put_bytes_eq)
qed

lemma kbd_init_facts: "kbd_inv kbd_init" "kbd_contents kbd_init = []"
  by (simp_all add: kbd_inv_def kbd_init_def kbd_contents_def ring_contents_def)

lemma ps2kbd_init_facts: "ps2_inv ps2kbd_init" "ps2_contents ps2kbd_init = []"
  by (simp_all add: ps2_inv_def ps2kbd_init_def ps2_contents_def ring_contents_def)

text \<open>
  C1: the keyboard device is a first-in first-out queue of at most 255 characters. After any
  sequence of pushes, a read of \<open>n\<close> characters returns the oldest \<open>n\<close> of what was buffered
  and of the pushed characters that fitted, writes them to the start of the caller's buffer
  and nothing behind them, and leaves the rest queued in order.
\<close>

theorem kbd_push_read_fifo:
  assumes "kbd_inv s" and "0 \<le> n" and "nat n \<le> length d"
  shows "let q = kbd_contents s @ take (255 - length (kbd_contents s)) cs; out = take (nat n) q
    in \<exists>s'. kbdDeviceRead d n (fold kbdDevicePush cs s)
        = (int (length out), out @ drop (length out) d, s')
      \<and> kbd_inv s' \<and> kbd_contents s' = drop (nat n) q"
  using kbdDeviceRead_spec [OF kq.inv_fold_push [OF assms(1)] assms(2,3), of cs]
  by (simp only: kq.contents_fold_push [OF assms(1)] Let_def)

theorem kbd_push_read_fifo_witness:
  "\<exists>s'. kbdDeviceRead [0, 0, 0] 2 (fold kbdDevicePush [104, 105, 33] kbd_init)
      = (2, [104, 105, 0], s') \<and> kbd_inv s' \<and> kbd_contents s' = [33]"
  using kbd_push_read_fifo [OF kbd_init_facts(1), of 2 "[0, 0, 0]" "[104, 105, 33]"]
  by (simp add: kbd_init_facts(2) Let_def)

end
