(* ===== verification/Filesystem.thy ===== *)
theory Filesystem
  imports Libc_String
begin

text \<open>
  The file registry (\<open>filesystem/filesystem.c\<close>) and the read-only tar file system behind it
  (\<open>filesystem/tarfs/tarfs.c\<close>). The registry maps a path to a pair of operations; \<open>fs_read\<close> and
  \<open>fs_write\<close> call the first entry with the path, through a function that stands for the call
  through the pointer. The archive is the byte memory it was loaded to, walked header by
  header; an archive that stores a list of named files is shown to serve exactly those.
\<close>

section \<open>The registry\<close>

type_synonym path = "u8 list"

record 'ops vfile =
  fpath :: path
  ops :: 'ops

text \<open>The list \<open>files\<close>, newest first.\<close>

definition register_file :: "'ops vfile \<Rightarrow> 'ops vfile list \<Rightarrow> int \<times> 'ops vfile list" where
  "register_file f files = (1, f # files)"

fun fs_find :: "'ops vfile list \<Rightarrow> path \<Rightarrow> 'ops option" where
  "fs_find [] p = None"
| "fs_find (f # fs) p = (if strcmp_str (fpath f) p = 0 then Some (ops f) else fs_find fs p)"

text \<open>
  \<open>call\<close> performs the operation on the state \<open>s\<close>: the buffer and the wanted length in, the result
  and the buffer out.
\<close>

definition fs_read :: "('ops \<Rightarrow> path \<Rightarrow> u8 list \<Rightarrow> int \<Rightarrow> 's \<Rightarrow> int \<times> u8 list \<times> 's)
    \<Rightarrow> 'ops vfile list \<Rightarrow> path \<Rightarrow> u8 list \<Rightarrow> int \<Rightarrow> 's \<Rightarrow> int \<times> u8 list \<times> 's" where
  "fs_read call files p buf len s =
     (case fs_find files p of None \<Rightarrow> (-1, buf, s) | Some f \<Rightarrow> call f p buf len s)"

definition fs_write :: "('ops \<Rightarrow> path \<Rightarrow> u8 list \<Rightarrow> int \<Rightarrow> 's \<Rightarrow> int \<times> 's)
    \<Rightarrow> 'ops vfile list \<Rightarrow> path \<Rightarrow> u8 list \<Rightarrow> int \<Rightarrow> 's \<Rightarrow> int \<times> 's" where
  "fs_write call files p buf len s =
     (case fs_find files p of None \<Rightarrow> (-1, s) | Some f \<Rightarrow> call f p buf len s)"

lemma strcmp_str_0: "strcmp_str xs ys = 0 \<longleftrightarrow> xs = ys" if "0 \<notin> set xs" "0 \<notin> set ys"
  using that by (induction xs ys rule: strcmp_str.induct) (auto simp: word_uint_eq_iff)

lemma fs_find_map_of:
  assumes "0 \<notin> set p" and "\<And>f. f \<in> set files \<Longrightarrow> 0 \<notin> set (fpath f)"
  shows "fs_find files p = map_of (map (\<lambda>f. (fpath f, ops f)) files) p"
  using assms by (induction files) (auto simp: strcmp_str_0)

section \<open>The archive\<close>

definition ustar :: "u8 list" where "ustar = [0x75, 0x73, 0x74, 0x61, 0x72]"

definition slice :: "mem \<Rightarrow> u64 \<Rightarrow> nat \<Rightarrow> u8 list" where
  "slice m p n = map (\<lambda>i. m (p + of_nat i)) [0..<n]"

text \<open>\<open>!memcmp(p, bs, n)\<close> against a constant or a kernel string.\<close>

definition mem_is :: "mem \<Rightarrow> u64 \<Rightarrow> u8 list \<Rightarrow> bool" where
  "mem_is m p bs \<longleftrightarrow> slice m p (length bs) = bs"

fun oct2bin :: "u8 list \<Rightarrow> int \<Rightarrow> int" where
  "oct2bin [] n = n"
| "oct2bin (c # cs) n = oct2bin cs (n * 8 + (int (unat c) - 48))"

text \<open>C division truncates towards zero; the step to the next header is computed in \<open>int\<close>.\<close>

definition cdiv :: "int \<Rightarrow> int \<Rightarrow> int" where
  "cdiv a b = (if 0 \<le> a then a div b else - ((- a) div b))"

definition tar_size :: "mem \<Rightarrow> u64 \<Rightarrow> int" where
  "tar_size m p = oct2bin (slice m (p + 0x7c) 11) 0"

definition tar_step :: "int \<Rightarrow> u64" where
  "tar_step filesize = of_int ((cdiv (filesize + 511) 512 + 1) * 512)"

fun copy_out :: "mem \<Rightarrow> u64 \<Rightarrow> nat \<Rightarrow> u8 list \<Rightarrow> nat \<Rightarrow> u8 list" where
  "copy_out m src i buf 0 = buf"
| "copy_out m src i buf (Suc n) = copy_out m src (Suc i) (buf[i := m (src + of_nat i)]) n"

partial_function (option) tarfsRead_loop :: "mem \<Rightarrow> u64 \<Rightarrow> path \<Rightarrow> u8 list \<Rightarrow> int \<Rightarrow> (int \<times> u8 list) option" where
  "tarfsRead_loop m ptr p buf len =
     (if \<not> mem_is m (ptr + 257) ustar then Some (-1, buf)
      else
        (let filesize = tar_size m ptr
         in if mem_is m (ptr + 1) (p @ [0])
            then (let bytes_to_copy = (if filesize < len then filesize else len)
                  in Some (bytes_to_copy, copy_out m (ptr + 512) 0 buf (nat bytes_to_copy)))
            else tarfsRead_loop m (ptr + tar_step filesize) p buf len))"

definition tarfsRead :: "mem \<Rightarrow> u64 \<Rightarrow> path \<Rightarrow> u8 list \<Rightarrow> int \<Rightarrow> (int \<times> u8 list) option" where
  "tarfsRead m archive p buf len = tarfsRead_loop m archive p buf len"

partial_function (option) tarfsGetFize_loop :: "mem \<Rightarrow> u64 \<Rightarrow> path \<Rightarrow> int option" where
  "tarfsGetFize_loop m ptr tarPath =
     (if \<not> mem_is m (ptr + 257) ustar then Some (-1)
      else
        (let filesize = tar_size m ptr
         in if mem_is m ptr (tarPath @ [0]) then Some filesize
            else tarfsGetFize_loop m (ptr + tar_step filesize) tarPath))"

text \<open>
  The path is copied behind a dot (46) into a local buffer of 256 bytes, without a check: dot,
  path and terminator have to fit.
\<close>

definition tarfsGetFize :: "mem \<Rightarrow> u64 \<Rightarrow> path \<Rightarrow> int kres option" where
  "tarfsGetFize m archive p =
     (if 254 < length p then out_of_bounds else map_option Inr (tarfsGetFize_loop m archive (46 # p)))"

definition tarfsWrite :: "path \<Rightarrow> u8 list \<Rightarrow> int \<Rightarrow> int" where
  "tarfsWrite p data len = -1"

text \<open>The bytes of a C string in memory; a name field that is not terminated runs on.\<close>

partial_function (option) cstring :: "mem \<Rightarrow> u64 \<Rightarrow> u8 list option" where
  "cstring m p = (if m p = 0 then Some [] else Option.bind (cstring m (p + 1)) (\<lambda>s. Some (m p # s)))"

partial_function (option) init_tarfs_loop :: "mem \<Rightarrow> u64 \<Rightarrow> 'ops \<Rightarrow> 'ops vfile list \<Rightarrow> 'ops vfile list option" where
  "init_tarfs_loop m ptr tarops files =
     (if \<not> mem_is m (ptr + 257) ustar then Some files
      else
        (let filesize = tar_size m ptr
         in Option.bind (if filesize > 0
              then Option.bind (cstring m (ptr + 1)) (\<lambda>p. Some (snd (register_file \<lparr>fpath = p, ops = tarops\<rparr> files)))
              else Some files)
            (\<lambda>files1. init_tarfs_loop m (ptr + tar_step filesize) tarops files1)))"

text \<open>
  Finding the archive among the boot modules: first the one labelled \<open>initramfs\<close>, then the
  default paths, which win. Decompression is the vendored gzip code, a parameter.
\<close>

record boot_module =
  mod_string :: "u8 list option"
  mod_path :: "u8 list"
  mod_address :: u64
  mod_size :: u64

definition ends_gz :: "u8 list \<Rightarrow> bool" where
  "ends_gz p \<longleftrightarrow> 3 \<le> length p \<and> strcmp_str (drop (length p - 3) p) (bytes_of ''.gz'') = 0"

fun find_labelled :: "(u64 \<Rightarrow> u64 \<Rightarrow> u64) \<Rightarrow> boot_module list \<Rightarrow> u64 \<Rightarrow> u64" where
  "find_labelled gunzip [] archive = archive"
| "find_labelled gunzip (b # bs) archive =
     (case mod_string b of
        None \<Rightarrow> find_labelled gunzip bs archive
      | Some str \<Rightarrow>
          if strcmp_str str (bytes_of ''initramfs'') = 0
          then (if ends_gz (mod_path b) then gunzip (mod_address b) (mod_size b) else mod_address b)
          else find_labelled gunzip bs archive)"

fun find_default :: "(u64 \<Rightarrow> u64 \<Rightarrow> u64) \<Rightarrow> boot_module list \<Rightarrow> u64 \<Rightarrow> u64" where
  "find_default gunzip [] archive = archive"
| "find_default gunzip (b # bs) archive =
     (if strcmp_str (mod_path b) (bytes_of ''/initramfs.tar'') = 0 then mod_address b
      else if strcmp_str (mod_path b) (bytes_of ''/initramfs.tar.gz'') = 0 then gunzip (mod_address b) (mod_size b)
      else find_default gunzip bs archive)"

definition init_tarfs :: "(u64 \<Rightarrow> u64 \<Rightarrow> u64) \<Rightarrow> boot_module list \<Rightarrow> mem \<Rightarrow> 'ops \<Rightarrow> 'ops vfile list
    \<Rightarrow> (u64 \<times> 'ops vfile list) kres option" where
  "init_tarfs gunzip modules m tarops files =
     (let archive = find_default gunzip modules (find_labelled gunzip modules 0)
      in if archive = 0 then Some (Inl (Panic ''TARFS: Could not find initramfs.tar''))
         else map_option (\<lambda>fs. Inr (archive, fs)) (init_tarfs_loop m archive tarops files))"

section \<open>An archive that stores a list of files\<close>

text \<open>
  An entry of a well-formed archive: its name begins with a dot and ends in NUL inside the
  header, its size is written as eleven octal digits, its data follow the header.
\<close>

record tar_entry =
  te_name :: path
  te_data :: "u8 list"

definition entry_at :: "mem \<Rightarrow> u64 \<Rightarrow> tar_entry \<Rightarrow> bool" where
  "entry_at m p e \<longleftrightarrow>
     mem_is m (p + 257) ustar \<and> 0 \<notin> set (te_name e) \<and> m p = 46 \<and> mem_is m (p + 1) (te_name e @ [0])
     \<and> tar_size m p = int (length (te_data e)) \<and> length (te_data e) < 2 ^ 31 - 1024
     \<and> slice m (p + 512) (length (te_data e)) = te_data e"

definition entry_blocks :: "tar_entry \<Rightarrow> nat" where
  "entry_blocks e = Suc ((length (te_data e) + 511) div 512)"

fun archive_at :: "mem \<Rightarrow> u64 \<Rightarrow> tar_entry list \<Rightarrow> bool" where
  "archive_at m p [] \<longleftrightarrow> \<not> mem_is m (p + 257) ustar"
| "archive_at m p (e # es) \<longleftrightarrow> entry_at m p e \<and> archive_at m (p + of_nat (512 * entry_blocks e)) es"

definition tar_lookup :: "tar_entry list \<Rightarrow> path \<Rightarrow> u8 list option" where
  "tar_lookup es = map_of (map (\<lambda>e. (te_name e, te_data e)) es)"

lemma length_slice [simp]: "length (slice m p n) = n"
  by (simp add: slice_def)

lemma nth_slice [simp]: "i < n \<Longrightarrow> slice m p n ! i = m (p + of_nat i)"
  by (simp add: slice_def)

lemma mem_is_nth: "mem_is m p bs \<longleftrightarrow> (\<forall>i < length bs. m (p + of_nat i) = bs ! i)"
  by (auto simp: mem_is_def list_eq_iff_nth_eq)

lemma mem_is_Cons: "mem_is m p (b # bs) \<longleftrightarrow> m p = b \<and> mem_is m (p + 1) bs"
  by (auto simp: mem_is_nth less_Suc_eq_0_disj nth_Cons' add.assoc)

text \<open>Memory holds at most one NUL-terminated string at an address.\<close>

lemma mem_is_string_unique:
  assumes "mem_is m p (a @ [0])" and "mem_is m p (b @ [0])" and "0 \<notin> set a" and "0 \<notin> set b"
  shows "a = b"
  using assms
proof (induction a arbitrary: p b)
  case Nil
  then show ?case by (cases b) (auto simp: mem_is_Cons)
next
  case (Cons x a)
  then show ?case by (cases b) (auto simp: mem_is_Cons)
qed

lemma tar_step_entry: "tar_size m p = int (length (te_data e)) \<Longrightarrow> tar_step (tar_size m p) = of_nat (512 * entry_blocks e)"
proof -
  assume a: "tar_size m p = int (length (te_data e))"
  have "(cdiv (int (length (te_data e)) + 511) 512 + 1) * 512 = int (512 * entry_blocks e)"
    by (simp add: cdiv_def entry_blocks_def zdiv_int)
  then show ?thesis unfolding tar_step_def a by (metis of_int_of_nat_eq)
qed

lemma copy_out_eq:
  assumes "i + n \<le> length buf"
  shows "copy_out m src i buf n = take i buf @ slice m (src + of_nat i) n @ drop (i + n) buf"
  using assms
proof (induction n arbitrary: i buf)
  case (Suc n)
  have "slice m (src + of_nat i) (Suc n) = m (src + of_nat i) # slice m (src + of_nat (Suc i)) n"
    by (auto simp: list_eq_iff_nth_eq nth_Cons' add.assoc)
  moreover have "take (Suc i) (buf[i := b]) = take i buf @ [b]" for b
    using Suc.prems by (simp add: take_Suc_conv_app_nth)
  ultimately show ?case using Suc by simp
qed (simp add: slice_def)

lemma archive_step:
  assumes "archive_at m p (e # es)"
  shows "mem_is m (p + 257) ustar" "archive_at m (p + tar_step (tar_size m p)) es"
    "0 \<notin> set q \<Longrightarrow> mem_is m (p + 1) (q @ [0]) \<longleftrightarrow> q = te_name e"
    "tar_size m p = int (length (te_data e))" "m p = 46"
  using assms mem_is_string_unique [of m "p + 1" q "te_name e"] tar_step_entry [of m p e]
  by (auto simp: entry_at_def)

text \<open>
  The size of a file: on an archive that stores the files \<open>es\<close>, \<open>tarfsGetFize\<close> returns the
  length of the first file of that name, and -1 when there is none, provided the path fits
  into its buffer.
\<close>

theorem tarfsGetFize_correct:
  assumes "archive_at m archive es" and "0 \<notin> set p" and "length p \<le> 254"
  shows "tarfsGetFize m archive p
    = Some (Inr (case tar_lookup es p of None \<Rightarrow> -1 | Some data \<Rightarrow> int (length data)))"
  using assms
proof (induction es arbitrary: archive)
  case Nil
  then show ?case by (simp add: tarfsGetFize_def tar_lookup_def tarfsGetFize_loop.simps)
next
  case (Cons e es)
  note st = archive_step [OF Cons.prems(1)]
  have "mem_is m archive ((46 # p) @ [0]) \<longleftrightarrow> p = te_name e"
    using st(3) [OF Cons.prems(2)] st(5) by (simp add: mem_is_Cons)
  then show ?case
    using st(1,4) Cons.IH [OF st(2) Cons.prems(2,3)] Cons.prems(3)
    by (simp add: tarfsGetFize_def tarfsGetFize_loop.simps [of m archive] tar_lookup_def)
qed

lemma tarfsRead_archive:
  assumes "archive_at m archive es" and "0 \<notin> set p" and "0 \<le> len" and "len \<le> int (length buf)"
  shows "tarfsRead m archive p buf len
    = Some (case tar_lookup es p of None \<Rightarrow> (-1, buf)
        | Some data \<Rightarrow> let n = min (length data) (nat len) in (int n, take n data @ drop n buf))"
  using assms(1,2)
proof (induction es arbitrary: archive)
  case Nil
  then show ?case by (simp add: tarfsRead_def tar_lookup_def tarfsRead_loop.simps)
next
  case (Cons e es)
  note st = archive_step [OF Cons.prems(1)]
  show ?case
  proof (cases "p = te_name e")
    case True
    let ?d = "te_data e"
    define n where "n = min (length ?d) (nat len)"
    have n: "(if tar_size m archive < len then tar_size m archive else len) = int n"
      using assms(3) by (auto simp: st(4) n_def)
    have d: "slice m (archive + 512) (length ?d) = ?d" using Cons.prems(1) by (simp add: entry_at_def)
    then have "slice m (archive + 512) n = take n ?d"
      by (auto simp: list_eq_iff_nth_eq n_def)
    moreover have "copy_out m (archive + 512) 0 buf n = slice m (archive + 512) n @ drop n buf"
      using copy_out_eq [of 0 n buf m "archive + 512"] assms(4) by (simp add: n_def)
    ultimately show ?thesis
      using st(1) st(3) [OF Cons.prems(2)] True n
      by (simp add: tarfsRead_def tarfsRead_loop.simps [of m archive] tar_lookup_def Let_def n_def [symmetric])
  next
    case False
    then show ?thesis
      using st(1) st(3) [OF Cons.prems(2)] Cons.IH [OF st(2) Cons.prems(2)]
      by (simp add: tarfsRead_def tarfsRead_loop.simps [of m archive] tar_lookup_def)
  qed
qed

text \<open>
  C20: Reading: \<open>tarfsRead\<close> puts the first bytes of the first file of that name into the buffer, as
  many as fit and were asked for, and returns their number; the rest of the buffer is kept;
  an unknown name gives -1 and an untouched buffer.
\<close>

theorem tarfsRead_correct:
  assumes "archive_at m archive es" and "0 \<notin> set p" and "0 \<le> len" and "len \<le> int (length buf)"
  shows "tarfsRead m archive p buf len
    = Some (case tar_lookup es p of None \<Rightarrow> (-1, buf)
        | Some data \<Rightarrow> let n = min (length data) (nat len) in (int n, take n data @ drop n buf))"
  by (rule tarfsRead_archive [OF assms])

lemma archive_at_nul: "archive_at m p es \<Longrightarrow> e \<in> set es \<Longrightarrow> 0 \<notin> set (te_name e)"
  by (induction es arbitrary: p) (auto simp: entry_at_def)

lemma cstring_at: "mem_is m p (s @ [0]) \<Longrightarrow> 0 \<notin> set s \<Longrightarrow> cstring m p = Some s"
proof (induction s arbitrary: p)
  case Nil
  then show ?case by (simp add: mem_is_Cons cstring.simps)
next
  case (Cons x s)
  then show ?case by (subst cstring.simps) (auto simp: mem_is_Cons)
qed

lemma init_tarfs_loop_registers:
  assumes "archive_at m archive es"
  shows "init_tarfs_loop m archive tarops files
    = Some (rev (map (\<lambda>e. \<lparr>fpath = te_name e, ops = tarops\<rparr>) (filter (\<lambda>e. te_data e \<noteq> []) es)) @ files)"
  using assms
proof (induction es arbitrary: archive files)
  case Nil
  then show ?case by (simp add: init_tarfs_loop.simps)
next
  case (Cons e es)
  note st = archive_step [OF Cons.prems(1)]
  have "cstring m (archive + 1) = Some (te_name e)"
    using Cons.prems by (intro cstring_at) (auto simp: entry_at_def)
  then show ?case
    using st(1,4) Cons.IH [OF st(2)]
    by (subst init_tarfs_loop.simps) (cases "te_data e = []"; simp add: register_file_def)
qed

text \<open>
  Mounting registers exactly the non-empty files of the archive: afterwards a path leads to
  the tar operations if the archive holds a non-empty file of that name, and otherwise to
  what was registered before.
\<close>

theorem init_tarfs_registers:
  assumes "archive_at m (mod_address b) es" and "mod_path b = bytes_of ''/initramfs.tar''" and "mod_address b \<noteq> 0"
    and "0 \<notin> set p" and "\<And>f. f \<in> set files \<Longrightarrow> 0 \<notin> set (fpath f)"
  shows "\<exists>fs. init_tarfs gunzip [b] m tarops files = Some (Inr (mod_address b, fs))
    \<and> fs_find fs p = (if \<exists>e \<in> set es. te_name e = p \<and> te_data e \<noteq> [] then Some tarops else fs_find files p)"
proof -
  note nul = archive_at_nul [OF assms(1)]
  have "strcmp_str (mod_path b) (bytes_of ''/initramfs.tar'') = 0" using assms(2) by (simp add: bytes_of_def)
  then have a: "find_default gunzip [b] x = mod_address b" for x by simp
  let ?fs = "rev (map (\<lambda>e. \<lparr>fpath = te_name e, ops = tarops\<rparr>) (filter (\<lambda>e. te_data e \<noteq> []) es)) @ files"
  have "init_tarfs gunzip [b] m tarops files = Some (Inr (mod_address b, ?fs))"
    using init_tarfs_loop_registers [OF assms(1)] assms(3) a by (simp add: init_tarfs_def Let_def del: find_default.simps)
  moreover have "fs_find ?fs p = (if \<exists>e \<in> set es. te_name e = p \<and> te_data e \<noteq> [] then Some tarops else fs_find files p)"
  proof -
    have find: "fs_find (map (\<lambda>e. \<lparr>fpath = te_name e, ops = tarops\<rparr>) xs @ files) p
        = (if \<exists>e \<in> set xs. te_name e = p then Some tarops else fs_find files p)"
      if "\<And>e. e \<in> set xs \<Longrightarrow> 0 \<notin> set (te_name e)" for xs
      using that assms(4) by (induction xs) (auto simp: strcmp_str_0)
    show ?thesis using find [of "rev (filter (\<lambda>e. te_data e \<noteq> []) es)"] nul by (auto simp: rev_map)
  qed
  ultimately show ?thesis by blast
qed

text \<open>An archive with the one file \<open>./a\<close> that holds the byte 9.\<close>

definition demo_tar :: mem where
  "demo_tar = (\<lambda>x. if x = 0x1000 then 46 else if x = 0x1001 then 47 else if x = 0x1002 then 97
     else if 0x107c \<le> x \<and> x < 0x1086 then 48 else if x = 0x1086 then 49
     else if x = 0x1101 then 0x75 else if x = 0x1102 then 0x73 else if x = 0x1103 then 0x74
     else if x = 0x1104 then 0x61 else if x = 0x1105 then 0x72 else if x = 0x1200 then 9 else 0)"

lemma demo_tar_archive: "archive_at demo_tar 0x1000 [\<lparr>te_name = [47, 97], te_data = [9]\<rparr>]"
proof -
  have sz: "tar_size demo_tar 0x1000 = 1"
    by (simp add: tar_size_def slice_def upt_rec demo_tar_def)
  show ?thesis
    by (simp add: entry_at_def sz entry_blocks_def)
      (simp add: mem_is_def slice_def upt_rec ustar_def demo_tar_def)
qed

theorem tarfsGetFize_correct_witness:
  "tarfsGetFize demo_tar 0x1000 [47, 97] = Some (Inr 1) \<and> tarfsGetFize demo_tar 0x1000 [47, 98] = Some (Inr (-1))"
  using tarfsGetFize_correct [OF demo_tar_archive, of "[47, 97]"] tarfsGetFize_correct [OF demo_tar_archive, of "[47, 98]"]
  by (simp add: tar_lookup_def)

theorem tarfsRead_correct_witness: "tarfsRead demo_tar 0x1000 [47, 97] [0, 0] 2 = Some (1, [9, 0])"
  using tarfsRead_correct [OF demo_tar_archive, of "[47, 97]" 2 "[0, 0]"] by (simp add: tar_lookup_def Let_def)

theorem init_tarfs_registers_witness:
  "\<exists>fs. init_tarfs (\<lambda>_ _. 0) [\<lparr>mod_string = None, mod_path = bytes_of ''/initramfs.tar'', mod_address = 0x1000, mod_size = 0\<rparr>]
     demo_tar True [] = Some (Inr (0x1000, fs)) \<and> fs_find fs [47, 97] = Some True \<and> fs_find fs [47, 98] = None"
proof -
  let ?b = "\<lparr>mod_string = None, mod_path = bytes_of ''/initramfs.tar'', mod_address = 0x1000, mod_size = 0\<rparr>"
  have a: "archive_at demo_tar (mod_address ?b) [\<lparr>te_name = [47, 97], te_data = [9]\<rparr>]" using demo_tar_archive by simp
  from init_tarfs_registers [OF a, of "[47, 97]" "[]" "\<lambda>_ _. 0" True]
    init_tarfs_registers [OF a, of "[47, 98]" "[]" "\<lambda>_ _. 0" True]
  show ?thesis by auto
qed

end
