(* ===== verification/Devices.thy ===== *)
theory Devices
  imports Acpi Framebuffer Ring_Buffer Filesystem
begin

text \<open>
  The character devices: the serial port (\<open>drivers/x86_64/serial.c\<close>, \<open>serial.h\<close>), the PS/2 controller
  with keyboard and mouse (\<open>drivers/x86_64/ps2.c\<close>, \<open>interupts/ps2.c\<close>), the terminal (\<open>drivers/tty.c\<close>)
  and the registration of their files. Polling loops are partial functions; the main results
  are the exact bytes the serial port sends and that the interrupt handler of the PS/2
  controller keeps its queues and its packet buffer within bounds.
\<close>

section \<open>State\<close>

text \<open>Which functions a file's \<open>read\<close> and \<open>write\<close> pointers hold.\<close>

datatype fops = Tar_ops | Kbd_ops | Ps2_ops | Tty_ops | Serial_ops

text \<open>
  The terminal emulator is an external library; \<open>ft_out\<close> is what has been written to it. The
  three \<open>int\<close> flags of \<open>interupts/ps2.c\<close> are only set to 0 and 1.
\<close>

record devices =
  plat :: platform
  files :: "fops vfile list"
  ft_out :: "u8 list"
  kbd_dev :: kbd
  ps2_dev :: ps2kbd
  serial_port :: u16
  serial_enabled :: bool
  serial_works :: bool
  serial_buffer_index :: u8
  serial_buffer :: "u8 list"
  ps2InteruptsTriggered :: u32
  shiftPressed :: bool
  extended :: bool
  mouse_ptr :: nat
  mouse_buffer :: "u8 list"
  mouse_dev :: mouse

text \<open>The idiom all drivers share: allocate a file and its list node, fill them in, link them.\<close>

definition sizeof_file :: u64 where "sizeof_file = 272"
definition sizeof_file_node :: u64 where "sizeof_file_node = 16"

definition register_device :: "string \<Rightarrow> fops \<Rightarrow> devices \<Rightarrow> devices kres option" where
  "register_device p f d =
     kobind (malloc sizeof_file (pkm (plat d))) (\<lambda>(_, k1).
     kobind (malloc sizeof_file_node k1) (\<lambda>(_, k2).
       Some (Inr (d\<lparr>plat := (plat d)\<lparr>pkm := k2\<rparr>, files := snd (register_file \<lparr>fpath = bytes_of p, ops = f\<rparr> (files d))\<rparr>))))"

definition setup_keyboard :: "devices \<Rightarrow> devices kres option" where
  "setup_keyboard d = register_device ''/dev/kbd'' Kbd_ops d"

section \<open>The serial port\<close>

definition SERIAL_RX_BUFF :: u16 where "SERIAL_RX_BUFF = 0"
definition SERIAL_TX_BUFF :: u16 where "SERIAL_TX_BUFF = 0"
definition SERIAL_INTR_CONF :: u16 where "SERIAL_INTR_CONF = 1"
definition SERIAL_DLAB_DIV_LO :: u16 where "SERIAL_DLAB_DIV_LO = 0"
definition SERIAL_DLAB_DIV_HI :: u16 where "SERIAL_DLAB_DIV_HI = 1"
definition SERIAL_FIFO_CONF :: u16 where "SERIAL_FIFO_CONF = 2"
definition SERIAL_LINE_CONF :: u16 where "SERIAL_LINE_CONF = 3"
definition SERIAL_MODEM_CONF :: u16 where "SERIAL_MODEM_CONF = 4"
definition SERIAL_LINE_INFO :: u16 where "SERIAL_LINE_INFO = 5"
definition SERIAL_SCRATCH_REG :: u16 where "SERIAL_SCRATCH_REG = 7"
definition SERIAL_FIFO_THRESH_1b :: u8 where "SERIAL_FIFO_THRESH_1b = 0"
definition SERIAL_FIFO_ENABLE :: u8 where "SERIAL_FIFO_ENABLE = 0x01"
definition SERIAL_FIFO_RX_FLUSH :: u8 where "SERIAL_FIFO_RX_FLUSH = 0x02"
definition SERIAL_FIFO_TX_FLUSH :: u8 where "SERIAL_FIFO_TX_FLUSH = 0x04"
definition SERIAL_LCR_8BIT :: u8 where "SERIAL_LCR_8BIT = 0x03"
definition SERIAL_LCR_1STOP :: u8 where "SERIAL_LCR_1STOP = 0"
definition SERIAL_LCR_PARITY_NONE :: u8 where "SERIAL_LCR_PARITY_NONE = 0"
definition SERIAL_MCR_TX_ENABLE :: u8 where "SERIAL_MCR_TX_ENABLE = 0x01"
definition SERIAL_MCR_RX_ENABLE :: u8 where "SERIAL_MCR_RX_ENABLE = 0x02"
definition SERIAL_MCR_IRQ_ENABLE :: u8 where "SERIAL_MCR_IRQ_ENABLE = 0x08"
definition SERIAL_MCR_LOOP_ENABLE :: u8 where "SERIAL_MCR_LOOP_ENABLE = 0x10"
definition SERIAL_115200_BAUD :: u16 where "SERIAL_115200_BAUD = 1"
definition SERIAL_DLAB_BIT :: u8 where "SERIAL_DLAB_BIT = 0x80"
definition SERIAL_DATA_READY_BIT :: u8 where "SERIAL_DATA_READY_BIT = 0x01"
definition SERIAL_TX_EMPTY_BIT :: u8 where "SERIAL_TX_EMPTY_BIT = 0x20"
definition SERIAL_TEST_MAGIC :: u8 where "SERIAL_TEST_MAGIC = 0x69"
definition SERIAL_TEST_RETRIES :: nat where "SERIAL_TEST_RETRIES = 5"

definition serial_transmit_empty :: "u16 \<Rightarrow> 'a hw_scheme \<Rightarrow> bool \<times> 'a hw_scheme" where
  "serial_transmit_empty port h =
     (case inbd (port + SERIAL_LINE_INFO) h of (v, h1) \<Rightarrow> (v AND SERIAL_TX_EMPTY_BIT \<noteq> 0, h1))"

definition serial_data_ready :: "u16 \<Rightarrow> 'a hw_scheme \<Rightarrow> bool \<times> 'a hw_scheme" where
  "serial_data_ready port h =
     (case inbd (port + SERIAL_LINE_INFO) h of (v, h1) \<Rightarrow> (v AND SERIAL_DATA_READY_BIT \<noteq> 0, h1))"

text \<open>\<open>while (!serial_transmit_empty());\<close> and \<open>while (!serial_data_ready());\<close>\<close>

partial_function (option) serial_poll ::
    "('a hw_scheme \<Rightarrow> bool \<times> 'a hw_scheme) \<Rightarrow> 'a hw_scheme \<Rightarrow> 'a hw_scheme option" where
  "serial_poll rdy h = (case rdy h of (ok, h1) \<Rightarrow> if ok then Some h1 else serial_poll rdy h1)"

definition serial_send :: "u16 \<Rightarrow> u8 \<Rightarrow> 'a hw_scheme \<Rightarrow> 'a hw_scheme option" where
  "serial_send port c h =
     Option.bind (serial_poll (serial_transmit_empty port) h) (\<lambda>h1. Some (outbd (port + SERIAL_RX_BUFF) c h1))"

definition serial_read :: "u16 \<Rightarrow> 'a hw_scheme \<Rightarrow> u8 \<times> 'a hw_scheme" where
  "serial_read port h = inbd (port + SERIAL_RX_BUFF) h"

definition serial_read_blocking :: "u16 \<Rightarrow> 'a hw_scheme \<Rightarrow> (u8 \<times> 'a hw_scheme) option" where
  "serial_read_blocking port h = map_option (serial_read port) (serial_poll (serial_data_ready port) h)"

text \<open>The bytes left to send, up to a terminating zero; the result counts them.\<close>

fun serial_send_loop :: "u16 \<Rightarrow> u8 list \<Rightarrow> int \<Rightarrow> 'a hw_scheme \<Rightarrow> (int \<times> 'a hw_scheme) option" where
  "serial_send_loop port [] i h = Some (i, h)"
| "serial_send_loop port (c # cs) i h =
     (if c = 0 then Some (i, h)
      else Option.bind (if c = 10 then serial_send port 13 h else Some h) (\<lambda>h1.
           Option.bind (serial_send port c h1) (\<lambda>h2. serial_send_loop port cs (i + 1) h2)))"

definition serial_send_string :: "u16 \<Rightarrow> u8 list \<Rightarrow> int \<Rightarrow> 'a hw_scheme \<Rightarrow> (int \<times> 'a hw_scheme) option" where
  "serial_send_string port str write_length h =
     Option.bind (serial_poll (serial_transmit_empty port) h) (\<lambda>h1.
       serial_send_loop port (take (nat write_length) str) 0 h1)"

definition serialDeviceWrite :: "u8 list \<Rightarrow> int \<Rightarrow> devices \<Rightarrow> (int \<times> devices) option" where
  "serialDeviceWrite write_data write_length d =
     map_option (\<lambda>(_, h). (write_length, d\<lparr>plat := h\<rparr>))
       (serial_send_string (serial_port d) write_data write_length (plat d))"

primrec serial_read_loop :: "nat \<Rightarrow> nat \<Rightarrow> u8 list \<Rightarrow> devices \<Rightarrow> u8 list \<times> devices" where
  "serial_read_loop 0 i buf d = (buf, d)"
| "serial_read_loop (Suc n) i buf d =
     serial_read_loop n (Suc i) (buf[i := serial_buffer d ! unat (serial_buffer_index d)])
       (d\<lparr>serial_buffer := (serial_buffer d)[unat (serial_buffer_index d) := 0],
         serial_buffer_index := serial_buffer_index d - 1\<rparr>)"

definition serialDeviceRead :: "u8 list \<Rightarrow> int \<Rightarrow> devices \<Rightarrow> int \<times> u8 list \<times> devices" where
  "serialDeviceRead buf read_length d = (case serial_read_loop (nat read_length) 0 buf d of (b, d1) \<Rightarrow> (1, b, d1))"

subsection \<open>Set-up\<close>

definition serial_set_dlab :: "u16 \<Rightarrow> bool \<Rightarrow> 'a hw_scheme \<Rightarrow> 'a hw_scheme" where
  "serial_set_dlab port setting h =
     (case inbd (port + SERIAL_LINE_CONF) h of (lcr, h1) \<Rightarrow>
        if setting then outbd (port + SERIAL_LINE_CONF) (lcr OR SERIAL_DLAB_BIT) h1
        else outbd (port + SERIAL_LINE_CONF) (lcr AND NOT SERIAL_DLAB_BIT) h1)"

definition serial_set_divisor :: "u16 \<Rightarrow> u16 \<Rightarrow> 'a hw_scheme \<Rightarrow> 'a hw_scheme" where
  "serial_set_divisor port divsor h =
     (let h1 = serial_set_dlab port True h;
          h2 = outbd (port + SERIAL_DLAB_DIV_LO) (ucast (divsor AND 0xff)) h1;
          h3 = outbd (port + SERIAL_DLAB_DIV_HI) (ucast (drop_bit 8 divsor AND 0xff)) h2
      in serial_set_dlab port False h3)"

definition serial_set_interrupts :: "u16 \<Rightarrow> u8 \<Rightarrow> 'a hw_scheme \<Rightarrow> 'a hw_scheme" where
  "serial_set_interrupts port setting h = outbd (port + SERIAL_INTR_CONF) setting (serial_set_dlab port False h)"

definition serial_set_mcr :: "u16 \<Rightarrow> u8 \<Rightarrow> 'a hw_scheme \<Rightarrow> 'a hw_scheme" where
  "serial_set_mcr port setting h = outbd (port + SERIAL_MODEM_CONF) setting h"

definition serial_set_lcr :: "u16 \<Rightarrow> u8 \<Rightarrow> 'a hw_scheme \<Rightarrow> 'a hw_scheme" where
  "serial_set_lcr port lcr h = outbd (port + SERIAL_LINE_CONF) lcr h"

definition serial_set_fifo :: "u16 \<Rightarrow> u8 \<Rightarrow> 'a hw_scheme \<Rightarrow> 'a hw_scheme" where
  "serial_set_fifo port fifo h = outbd (port + SERIAL_FIFO_CONF) fifo h"

primrec serial_test_loop :: "nat \<Rightarrow> u16 \<Rightarrow> platform \<Rightarrow> (bool \<times> platform) kres option" where
  "serial_test_loop 0 port h = Some (Inr (False, h))"
| "serial_test_loop (Suc n) port h =
     kobind (timer_blocking_sleep_ms 1 (outbd (port + SERIAL_TX_BUFF) SERIAL_TEST_MAGIC h)) (\<lambda>h1.
       case inbd (port + SERIAL_RX_BUFF) h1 of (v, h2) \<Rightarrow>
         if v = SERIAL_TEST_MAGIC then Some (Inr (True, h2)) else serial_test_loop n port h2)"

definition serial_test :: "u16 \<Rightarrow> platform \<Rightarrow> (bool \<times> platform) kres option" where
  "serial_test port h =
     (let h1 = serial_set_divisor port SERIAL_115200_BAUD h;
          h2 = serial_set_lcr port (SERIAL_LCR_8BIT OR SERIAL_LCR_1STOP OR SERIAL_LCR_PARITY_NONE) h1;
          h3 = serial_set_fifo port (SERIAL_FIFO_TX_FLUSH OR SERIAL_FIFO_RX_FLUSH) h2;
          h4 = serial_set_mcr port (SERIAL_MCR_TX_ENABLE OR SERIAL_MCR_RX_ENABLE OR SERIAL_MCR_LOOP_ENABLE) h3
      in serial_test_loop SERIAL_TEST_RETRIES port (serial_set_dlab port False h4))"

definition setup_serial :: "devices \<Rightarrow> devices kres option" where
  "setup_serial d =
     (if \<not> serial_enabled d then Some (Inr d)
      else
        (let port = serial_port d
         in kobind (serial_test port (serial_set_interrupts port 0 (plat d))) (\<lambda>(ok, h).
              if \<not> ok
              then (case inbd (port + SERIAL_SCRATCH_REG) (outbd (port + SERIAL_SCRATCH_REG) SERIAL_TEST_MAGIC h) of
                      (_, h1) \<Rightarrow> Some (Inr (d\<lparr>plat := h1, serial_works := False\<rparr>)))
              else
                (let h1 = serial_set_divisor port SERIAL_115200_BAUD h;
                     h2 = serial_set_lcr port (SERIAL_LCR_8BIT OR SERIAL_LCR_1STOP OR SERIAL_LCR_PARITY_NONE) h1;
                     h3 = serial_set_fifo port (SERIAL_FIFO_ENABLE OR SERIAL_FIFO_THRESH_1b OR SERIAL_FIFO_TX_FLUSH OR SERIAL_FIFO_RX_FLUSH) h2;
                     h4 = serial_set_mcr port (SERIAL_MCR_TX_ENABLE OR SERIAL_MCR_RX_ENABLE OR SERIAL_MCR_IRQ_ENABLE) h3;
                     h5 = serial_set_interrupts port 1 (serial_set_dlab port False h4)
                 in kobind (Some (unmask_irq 4 h5)) (\<lambda>h6.
                      register_device ''/dev/term/stty'' Serial_ops (d\<lparr>plat := h6, serial_works := True\<rparr>))))))"

section \<open>The terminal\<close>

definition ttyDeviceRead :: "u8 list \<Rightarrow> int \<Rightarrow> devices \<Rightarrow> int \<times> u8 list \<times> devices" where
  "ttyDeviceRead buf read_length d = (-1, buf, d)"

definition ttyDeviceWrite :: "u8 list \<Rightarrow> int \<Rightarrow> devices \<Rightarrow> (int \<times> devices) option" where
  "ttyDeviceWrite write_data write_length d =
     (let d1 = d\<lparr>ft_out := ft_out d @ take (nat write_length) write_data\<rparr>
      in if serial_works d1
         then map_option (\<lambda>(_, h). (write_length, d1\<lparr>plat := h\<rparr>))
                (serial_send_string (serial_port d1) write_data write_length (plat d1))
         else Some (write_length, d1))"

definition setup_tty :: "devices \<Rightarrow> devices kres option" where
  "setup_tty d = register_device ''/dev/term/tty'' Tty_ops d"

section \<open>The PS/2 controller\<close>

definition PS2_DATA_PORT :: u16 where "PS2_DATA_PORT = 0x60"
definition PS2_STATUS_PORT :: u16 where "PS2_STATUS_PORT = 0x64"
definition PS2_COMMAND_PORT :: u16 where "PS2_COMMAND_PORT = 0x64"
definition PS2_TIMEOUT_RW :: nat where "PS2_TIMEOUT_RW = 100000"
definition PS2_TIMEOUT_MS :: nat where "PS2_TIMEOUT_MS = 50"

text \<open>The countdown of \<open>while (--t && busy) io_wait();\<close> with the result \<open>t > 0\<close>.\<close>

primrec ps2_wait :: "(u8 \<Rightarrow> bool) \<Rightarrow> nat \<Rightarrow> 'a hw_scheme \<Rightarrow> bool \<times> 'a hw_scheme" where
  "ps2_wait busy 0 h = (False, h)"
| "ps2_wait busy (Suc t) h =
     (if t = 0 then (False, h)
      else (case inb PS2_STATUS_PORT h of (v, h1) \<Rightarrow>
        if busy v then ps2_wait busy t (io_wait h1) else (True, h1)))"

definition ps2_wait_write :: "'a hw_scheme \<Rightarrow> bool \<times> 'a hw_scheme" where
  "ps2_wait_write h = ps2_wait (\<lambda>v. v AND 0x02 \<noteq> 0) PS2_TIMEOUT_RW h"

definition ps2_wait_read :: "'a hw_scheme \<Rightarrow> bool \<times> 'a hw_scheme" where
  "ps2_wait_read h = ps2_wait (\<lambda>v. v AND 0x01 = 0) PS2_TIMEOUT_RW h"

definition ps2_cmd :: "u8 \<Rightarrow> 'a hw_scheme \<Rightarrow> 'a hw_scheme" where
  "ps2_cmd cmd h = outbd PS2_COMMAND_PORT cmd (snd (ps2_wait_write h))"

definition ps2_data :: "u8 \<Rightarrow> 'a hw_scheme \<Rightarrow> 'a hw_scheme" where
  "ps2_data data h = outbd PS2_DATA_PORT data (snd (ps2_wait_write h))"

definition ps2_read :: "'a hw_scheme \<Rightarrow> u8 \<times> 'a hw_scheme" where
  "ps2_read h = inbd PS2_DATA_PORT (snd (ps2_wait_read h))"

definition ps2_flush :: "'a hw_scheme \<Rightarrow> 'a hw_scheme" where
  "ps2_flush h = ((\<lambda>h. snd (inbd PS2_DATA_PORT h)) ^^ 16) h"

text \<open>The wait for the acknowledgement of a reset: one millisecond between the looks.\<close>

primrec ps2_await_ack :: "nat \<Rightarrow> platform \<Rightarrow> platform kres option" where
  "ps2_await_ack 0 h = Some (Inr h)"
| "ps2_await_ack (Suc i) h =
     (case inb PS2_STATUS_PORT h of (v, h1) \<Rightarrow>
        if v AND 0x01 \<noteq> 0
        then (case inb PS2_DATA_PORT h1 of (response, h2) \<Rightarrow>
                if response = 0xFA then Some (Inr h2)
                else kobind (timer_blocking_sleep_ms 1 h2) (ps2_await_ack i))
        else kobind (timer_blocking_sleep_ms 1 h1) (ps2_await_ack i))"

definition setup_ps2 :: "devices \<Rightarrow> devices kres option" where
  "setup_ps2 d =
     (let h1 = ps2_flush (ps2_cmd 0xA7 (ps2_cmd 0xAD (plat d)));
          (config, h2) = ps2_read (ps2_cmd 0x20 h1);
          h3 = ps2_data (config OR 0x43) (ps2_cmd 0x60 h2);
          h4 = ps2_data 0xFF (ps2_cmd 0xAE h3)
      in kobind (ps2_await_ack PS2_TIMEOUT_MS h4) (\<lambda>h5.
         let h6 = ps2_flush (ps2_data 0x43 (ps2_data 0xF0 h5));
             h7 = ps2_data 0xFF (ps2_cmd 0xD4 (ps2_cmd 0xA8 h6))
         in kobind (ps2_await_ack PS2_TIMEOUT_MS h7) (\<lambda>h8.
            let h9 = ps2_flush (ps2_data 0xF4 (ps2_cmd 0xD4 (ps2_data 0xF6 (ps2_cmd 0xD4 h8))))
            in kobind (Some (unmask_irq 1 h9)) (\<lambda>h10.
               kobind (Some (unmask_irq 12 h10)) (\<lambda>h11.
                 register_device ''/dev/ps2/kbd'' Ps2_ops (d\<lparr>plat := h11\<rparr>))))))"

subsection \<open>The interrupt handler\<close>

text \<open>The two tables; a scan code that is not listed has no character and yields zero.\<close>

definition scan_table :: "(u8 \<times> u8) list \<Rightarrow> u8 \<Rightarrow> u8" where
  "scan_table t scancode = (case map_of t scancode of Some c \<Rightarrow> c | None \<Rightarrow> 0)"

definition asciiNoShift :: "(u8 \<times> u8) list" where
  "asciiNoShift = [
    (0x02, 0x31), (0x03, 0x32), (0x04, 0x33), (0x05, 0x34), (0x06, 0x35), (0x07, 0x36), (0x08, 0x37), (0x09, 0x38),
    (0x0A, 0x39), (0x0B, 0x30), (0x0C, 0x2D), (0x0D, 0x3D), (0x10, 0x71), (0x11, 0x77), (0x12, 0x65), (0x13, 0x72),
    (0x14, 0x74), (0x15, 0x79), (0x16, 0x75), (0x17, 0x69), (0x18, 0x6F), (0x19, 0x70), (0x1A, 0x5B), (0x1B, 0x5D),
    (0x1E, 0x61), (0x1F, 0x73), (0x20, 0x64), (0x21, 0x66), (0x22, 0x67), (0x23, 0x68), (0x24, 0x6A), (0x25, 0x6B),
    (0x26, 0x6C), (0x27, 0x3B), (0x28, 0x27), (0x29, 0x60), (0x2C, 0x7A), (0x2D, 0x78), (0x2E, 0x63), (0x2F, 0x76),
    (0x30, 0x62), (0x31, 0x6E), (0x32, 0x6D), (0x33, 0x2C), (0x34, 0x2E), (0x35, 0x2F), (0x39, 0x20), (0x1C, 0x0A),
    (0x0E, 0x08)]"

definition asciiShift :: "(u8 \<times> u8) list" where
  "asciiShift = [
    (0x02, 0x21), (0x03, 0x40), (0x04, 0x23), (0x05, 0x24), (0x06, 0x25), (0x07, 0x5E), (0x08, 0x26), (0x09, 0x2A),
    (0x0A, 0x28), (0x0B, 0x29), (0x0C, 0x5F), (0x0D, 0x2B), (0x10, 0x51), (0x11, 0x57), (0x12, 0x45), (0x13, 0x52),
    (0x14, 0x54), (0x15, 0x59), (0x16, 0x55), (0x17, 0x49), (0x18, 0x4F), (0x19, 0x50), (0x1A, 0x7B), (0x1B, 0x7D),
    (0x1E, 0x41), (0x1F, 0x53), (0x20, 0x44), (0x21, 0x46), (0x22, 0x47), (0x23, 0x48), (0x24, 0x4A), (0x25, 0x4B),
    (0x26, 0x4C), (0x27, 0x3A), (0x28, 0x22), (0x29, 0x7E), (0x2C, 0x5A), (0x2D, 0x58), (0x2E, 0x43), (0x2F, 0x56),
    (0x30, 0x42), (0x31, 0x4E), (0x32, 0x4D), (0x33, 0x3C), (0x34, 0x3E), (0x35, 0x3F), (0x39, 0x20), (0x1C, 0x0A),
    (0x0E, 0x08)]"

text \<open>A byte from the keyboard: modifiers and releases only reach the raw queue.\<close>

definition ps2_key :: "u8 \<Rightarrow> devices \<Rightarrow> devices" where
  "ps2_key scancode d =
     (let d1 = d\<lparr>ps2InteruptsTriggered := ps2InteruptsTriggered d + 1\<rparr>;
          d2 = (if scancode = 0xE0 then d1\<lparr>extended := True\<rparr>
                else if scancode = 0x2A then d1\<lparr>shiftPressed := True\<rparr>
                else if scancode = 0xAA then d1\<lparr>shiftPressed := False\<rparr>
                else if scancode AND 0x80 \<noteq> 0 then d1
                else d1\<lparr>kbd_dev := kbdDevicePush (scan_table (if shiftPressed d1 then asciiShift else asciiNoShift) scancode) (kbd_dev d1),
                       extended := False\<rparr>)
      in d2\<lparr>ps2_dev := ps2_store_raw scancode (ps2_dev d2)\<rparr>)"

text \<open>
  The event of a full packet. The results are stored in \<open>char\<close>s, so the ninth bit of the movements,
  subtracted as 0x100, has no effect on them.
\<close>

definition mouse_event_of :: "u8 list \<Rightarrow> mouse_ev_t" where
  "mouse_event_of b =
     \<lparr>buttons = (if b ! 0 AND 1 \<noteq> 0 then 1 else 0) OR (if b ! 0 AND 2 \<noteq> 0 then 2 else 0)
         OR (if b ! 0 AND 4 \<noteq> 0 then 4 else 0) OR (if b ! 0 AND 0x10 \<noteq> 0 then 8 else 0)
         OR (if b ! 0 AND 0x20 \<noteq> 0 then 16 else 0),
      ev_x = word_of_int (uint (b ! 1) - (if b ! 0 AND 0x10 \<noteq> 0 then 0x100 else 0)),
      ev_y = - word_of_int (uint (b ! 2) - (if b ! 0 AND 0x20 \<noteq> 0 then 0x100 else 0)),
      ev_z = word_of_int (uint (b ! 3 AND 0x7) * (if b ! 3 AND 0x8 \<noteq> 0 then -1 else 1))\<rparr>"

definition ps2_mouse_byte :: "u8 \<Rightarrow> devices \<Rightarrow> devices" where
  "ps2_mouse_byte scancode d =
     (let d1 = d\<lparr>mouse_buffer := (mouse_buffer d)[mouse_ptr d := scancode], mouse_ptr := mouse_ptr d + 1\<rparr>
      in if mouse_ptr d1 = 3
         then d1\<lparr>mouse_dev := handle_mouse_event (mouse_event_of (mouse_buffer d1)) (mouse_dev d1), mouse_ptr := 0\<rparr>
         else d1)"

definition ps2_byte :: "u8 \<Rightarrow> u8 \<Rightarrow> devices \<Rightarrow> devices" where
  "ps2_byte status scancode d =
     (if status AND 0x20 = 0 then ps2_key scancode d else ps2_mouse_byte scancode d)"

partial_function (option) ps2_isr_loop :: "u8 \<Rightarrow> devices \<Rightarrow> devices option" where
  "ps2_isr_loop status d =
     (if status AND 1 \<noteq> 0
      then (case inbd 0x60 (plat d) of (scancode, h1) \<Rightarrow>
        let d1 = ps2_byte status scancode (d\<lparr>plat := h1\<rparr>)
        in case inbd 0x64 (plat d1) of (status1, h2) \<Rightarrow> ps2_isr_loop status1 (d1\<lparr>plat := h2\<rparr>))
      else Some d)"

definition ps2_isr :: "devices \<Rightarrow> devices option" where
  "ps2_isr d = (case inbd 0x64 (plat d) of (status, h) \<Rightarrow> ps2_isr_loop status (d\<lparr>plat := h\<rparr>))"

section \<open>What the serial port sends\<close>

text \<open>The bytes written to a port, and the line ends a terminal wants.\<close>

definition sent :: "u16 \<Rightarrow> hw_event list \<Rightarrow> u8 list" where
  "sent port t = concat (map (\<lambda>e. case e of OutB p v \<Rightarrow> if p = port then [v] else [] | _ \<Rightarrow> []) t)"

definition crlf :: "u8 list \<Rightarrow> u8 list" where
  "crlf s = concat (map (\<lambda>c. if c = 10 then [13, 10] else [c]) s)"

text \<open>A port whose transmitter is always empty when looked at.\<close>

definition tx_ready :: "u16 \<Rightarrow> 'a hw_scheme \<Rightarrow> bool" where
  "tx_ready port h \<longleftrightarrow> (\<forall>t. (ucast (dev h t (QInB (port + SERIAL_LINE_INFO))) :: u8) AND SERIAL_TX_EMPTY_BIT \<noteq> 0)"

lemma sent_simps [simp]:
  "sent port [] = []" "sent port (t @ u) = sent port t @ sent port u"
  "sent port [OutB p v] = (if p = port then [v] else [])" "sent port [InB p v] = []"
  by (simp_all add: sent_def)

lemma outbd_effect:
  "trace (outbd p v h) = trace h @ [OutB 0x80 0, OutB p v, OutB 0x80 0]" "dev (outbd p v h) = dev h"
  by (simp_all add: outbd_def io_wait_def outb_def hw_simps)

lemma inbd_effect:
  "inbd p h = (v, h') \<Longrightarrow> v = ucast (dev h (trace h @ [OutB 0x80 0]) (QInB p))
     \<and> trace h' = trace h @ [OutB 0x80 0, InB p v, OutB 0x80 0] \<and> dev h' = dev h"
  by (auto simp: inbd_def inb_def io_wait_def outb_def hw_simps answer_def Let_def)

lemma sent_outbd: "port \<noteq> 0x80 \<Longrightarrow> sent port (trace (outbd port v h)) = sent port (trace h) @ [v]"
  by (simp add: outbd_effect sent_def)

lemma serial_poll_ready:
  assumes "tx_ready port h" "port \<noteq> 0x80"
  shows "\<exists>h'. serial_poll (serial_transmit_empty port) h = Some h' \<and> sent port (trace h') = sent port (trace h)
    \<and> dev h' = dev h"
proof -
  obtain v h' where r: "inbd (port + SERIAL_LINE_INFO) h = (v, h')" by fastforce
  from inbd_effect [OF r] assms have "v AND SERIAL_TX_EMPTY_BIT \<noteq> 0" "sent port (trace h') = sent port (trace h)" "dev h' = dev h"
    by (auto simp: tx_ready_def sent_def)
  then show ?thesis using r by (subst serial_poll.simps) (simp add: serial_transmit_empty_def)
qed

lemma serial_send_ready:
  assumes "tx_ready port h" "port \<noteq> 0x80"
  shows "\<exists>h'. serial_send port c h = Some h' \<and> sent port (trace h') = sent port (trace h) @ [c] \<and> dev h' = dev h"
  using serial_poll_ready [OF assms] assms(2)
  by (auto simp: serial_send_def SERIAL_RX_BUFF_def outbd_effect(2) sent_outbd)

lemma tx_ready_cong: "dev h' = dev h \<Longrightarrow> tx_ready port h' = tx_ready port h"
  by (simp add: tx_ready_def)

lemma serial_send_loop_ready:
  assumes "tx_ready port h" "port \<noteq> 0x80"
  shows "\<exists>h'. serial_send_loop port cs i h = Some (i + int (length (takeWhile (\<lambda>c. c \<noteq> 0) cs)), h')
    \<and> sent port (trace h') = sent port (trace h) @ crlf (takeWhile (\<lambda>c. c \<noteq> 0) cs)"
  using assms(1)
proof (induction cs arbitrary: i h)
  case Nil
  then show ?case by (simp add: crlf_def)
next
  case (Cons c cs)
  show ?case
  proof (cases "c = 0")
    case True
    then show ?thesis by (simp add: crlf_def)
  next
    case False
    have "\<exists>h1. (if c = 10 then serial_send port 13 h else Some h) = Some h1
        \<and> sent port (trace h1) = sent port (trace h) @ (if c = 10 then [13] else []) \<and> dev h1 = dev h"
      using serial_send_ready [OF Cons.prems assms(2)] by auto
    then obtain h1 where h1: "(if c = 10 then serial_send port 13 h else Some h) = Some h1"
      "sent port (trace h1) = sent port (trace h) @ (if c = 10 then [13] else [])" "dev h1 = dev h" by blast
    have r1: "tx_ready port h1" using Cons.prems tx_ready_cong [OF h1(3)] by simp
    obtain h2 where h2: "serial_send port c h1 = Some h2" "sent port (trace h2) = sent port (trace h1) @ [c]" "dev h2 = dev h1"
      using serial_send_ready [OF r1 assms(2)] by blast
    have "tx_ready port h2" using r1 tx_ready_cong [OF h2(3)] by simp
    from Cons.IH [OF this, of "i + 1"] show ?thesis
      using False h1(1,2) h2(1,2) by (auto simp: crlf_def)
  qed
qed

text \<open>
  On a port that is ready to transmit, \<open>serial_send_string\<close> returns, and it has sent exactly the
  first \<open>write_length\<close> bytes of the string up to its end, each line feed preceded by a carriage return;
  the result counts the bytes of the string.
\<close>

theorem serial_send_string_correct:
  assumes "tx_ready port h" and "port \<noteq> 0x80"
    and "s = takeWhile (\<lambda>c. c \<noteq> 0) (take (nat write_length) str)"
  shows "\<exists>h'. serial_send_string port str write_length h = Some (int (length s), h')
    \<and> sent port (trace h') = sent port (trace h) @ crlf s"
proof -
  obtain h1 where h1: "serial_poll (serial_transmit_empty port) h = Some h1" "sent port (trace h1) = sent port (trace h)" "dev h1 = dev h"
    using serial_poll_ready [OF assms(1,2)] by blast
  have "tx_ready port h1" using assms(1) tx_ready_cong [OF h1(3)] by simp
  from serial_send_loop_ready [OF this assms(2), of "take (nat write_length) str" 0] show ?thesis
    using h1 assms(3) by (auto simp: serial_send_string_def)
qed

definition demo_port :: hw where
  "demo_port = \<lparr>trace = [], dev = \<lambda>_ _. 0x20, cpuid_of = \<lambda>_ _. \<lparr>eax = 0, ebx = 0, ecx = 0, edx = 0\<rparr>\<rparr>"

theorem serial_send_string_correct_witness:
  "\<exists>h'. serial_send_string 0x3F8 (bytes_of ''a'' @ [10, 98, 0, 99]) 5 demo_port = Some (3, h')
    \<and> sent 0x3F8 (trace h') = [97, 13, 10, 98]"
proof -
  have "tx_ready 0x3F8 demo_port" by (simp add: tx_ready_def demo_port_def SERIAL_TX_EMPTY_BIT_def)
  from serial_send_string_correct [OF this _ refl, where write_length = 5 and str = "bytes_of ''a'' @ [10, 98, 0, 99]"] show ?thesis
    by (simp add: bytes_of_def crlf_def demo_port_def)
qed

text \<open>
  A received byte is stored at the index and the index moved on (\<open>interupts/serial.c\<close>); reading starts
  at the index, one past the last byte stored, so it misses that byte.
\<close>

definition serial_store :: "u8 \<Rightarrow> devices \<Rightarrow> devices" where
  "serial_store c d = d\<lparr>serial_buffer := (serial_buffer d)[unat (serial_buffer_index d) := c],
     serial_buffer_index := serial_buffer_index d + 1, kbd_dev := kbdDevicePush c (kbd_dev d)\<rparr>"

lemma serialDeviceRead_misses:
  assumes "length (serial_buffer d) = 256" "serial_buffer d ! unat (serial_buffer_index d + 1) = 0"
  shows "fst (snd (serialDeviceRead [x] 1 (serial_store c d))) = [0]"
proof -
  have "unat (serial_buffer_index d + 1) \<noteq> unat (serial_buffer_index d)" by (simp flip: word_unat_eq_iff)
  then show ?thesis using assms(2)
    by (simp add: serialDeviceRead_def serial_store_def)
qed

section \<open>The PS/2 interrupt handler\<close>

text \<open>
  The queues are well formed, a packet in progress fits its buffer, and the cursor is on the
  screen once the mouse has been enabled.
\<close>

definition dev_inv :: "devices \<Rightarrow> bool" where
  "dev_inv d \<longleftrightarrow> kbd_inv (kbd_dev d) \<and> ps2_inv (ps2_dev d) \<and> length (mouse_buffer d) = 4 \<and> mouse_ptr d < 3
     \<and> 0 < FB_WIDTH (screen (mouse_dev d)) \<and> 0 < FB_HEIGHT (screen (mouse_dev d))
     \<and> (is_mouse_test (mouse_dev d) \<longrightarrow> on_screen (screen (mouse_dev d)) (cursor_x (mouse_dev d)) (cursor_y (mouse_dev d)))"

lemma handle_mouse_event_inv:
  assumes "0 < FB_WIDTH (screen m)" "0 < FB_HEIGHT (screen m)"
    "is_mouse_test m \<longrightarrow> on_screen (screen m) (cursor_x m) (cursor_y m)"
  shows "0 < FB_WIDTH (screen (handle_mouse_event ev m)) \<and> 0 < FB_HEIGHT (screen (handle_mouse_event ev m))
    \<and> (is_mouse_test (handle_mouse_event ev m) \<longrightarrow>
        on_screen (screen (handle_mouse_event ev m)) (cursor_x (handle_mouse_event ev m)) (cursor_y (handle_mouse_event ev m)))"
  using assms update_cursor_on_screen [OF assms(1,2), of "sint (ev_x ev)" "sint (ev_y ev)"]
  by (auto simp: handle_mouse_event_def on_screen_def)

lemma ps2_byte_inv: "dev_inv d \<Longrightarrow> dev_inv (ps2_byte status scancode d)"
  using handle_mouse_event_inv [of "mouse_dev d"]
  by (auto simp: dev_inv_def ps2_byte_def ps2_key_def ps2_mouse_byte_def Let_def kq.inv_push pq.inv_push)

text \<open>One round of the loop, from one status to the next, and several of them.\<close>

definition ps2_round :: "u8 \<times> devices \<Rightarrow> u8 \<times> devices" where
  "ps2_round = (\<lambda>(status, d).
     case inbd 0x60 (plat d) of (scancode, h1) \<Rightarrow>
       let d1 = ps2_byte status scancode (d\<lparr>plat := h1\<rparr>)
       in case inbd 0x64 (plat d1) of (status1, h2) \<Rightarrow> (status1, d1\<lparr>plat := h2\<rparr>))"

lemma ps2_isr_loop_round:
  "ps2_isr_loop status d = (if status AND 1 \<noteq> 0 then case_prod ps2_isr_loop (ps2_round (status, d)) else Some d)"
  by (subst ps2_isr_loop.simps) (simp add: ps2_round_def case_prod_unfold Let_def)

lemma plat_irrelevant [simp]: "dev_inv (d\<lparr>plat := h\<rparr>) = dev_inv d"
  by (simp add: dev_inv_def)

lemma ps2_round_inv: "dev_inv (snd sd) \<Longrightarrow> dev_inv (snd (ps2_round sd))"
  by (simp add: ps2_round_def case_prod_unfold Let_def ps2_byte_inv)

lemma ps2_isr_loop_ends:
  assumes "fst ((ps2_round ^^ n) sd) AND 1 = 0" "dev_inv (snd sd)"
  shows "\<exists>d'. case_prod ps2_isr_loop sd = Some d' \<and> dev_inv d'"
  using assms
proof (induction n arbitrary: sd)
  case 0
  then show ?case by (cases sd) (simp add: ps2_isr_loop_round)
next
  case (Suc n)
  show ?case
  proof (cases "fst sd AND 1 = 0")
    case True
    then show ?thesis using Suc.prems(2) by (cases sd) (simp add: ps2_isr_loop_round)
  next
    case False
    have "fst ((ps2_round ^^ n) (ps2_round sd)) AND 1 = 0" using Suc.prems(1) by (simp add: funpow_swap1)
    from Suc.IH [OF this ps2_round_inv [OF Suc.prems(2)]] show ?thesis
      using False ps2_isr_loop_round [of "fst sd" "snd sd"] by (simp add: case_prod_unfold)
  qed
qed


text \<open>A pressed key with a character appends it to the keyboard queue while there is room.\<close>

lemma ps2_key_types:
  assumes "dev_inv d" "scancode AND 0x80 = 0" "scancode \<noteq> 0x2A" "length (kbd_contents (kbd_dev d)) < 255"
  shows "kbd_contents (kbd_dev (ps2_key scancode d))
    = kbd_contents (kbd_dev d) @ [scan_table (if shiftPressed d then asciiShift else asciiNoShift) scancode]"
proof -
  have "scancode \<noteq> 0xE0" "scancode \<noteq> 0xAA" using assms(2) by auto
  then show ?thesis using assms by (simp add: ps2_key_def Let_def dev_inv_def kq.contents_push)
qed

text \<open>Shift and a letter: the capital.\<close>

definition demo_devices :: devices where
  "demo_devices = \<lparr>plat = demo_platform, files = [], ft_out = [], kbd_dev = kbd_init, ps2_dev = ps2kbd_init, serial_port = 0x3F8,
     serial_enabled = True, serial_works = True, serial_buffer_index = 0, serial_buffer = replicate 256 0,
     ps2InteruptsTriggered = 0, shiftPressed = False, extended = False, mouse_ptr = 0, mouse_buffer = [0, 0, 0, 0],
     mouse_dev = \<lparr>is_mouse_test = False, cursor_x = 0, cursor_y = 0, screen = demo_fb\<rparr>\<rparr>"

lemma demo_devices_inv: "dev_inv demo_devices"
  by (simp add: dev_inv_def demo_devices_def kbd_inv_def kbd_init_def ps2_inv_def ps2kbd_init_def demo_fb_def)

text \<open>A controller that has one byte, the code of the key A.\<close>

definition demo_key :: devices where
  "demo_key = demo_devices\<lparr>plat := demo_platform\<lparr>dev := \<lambda>t q. case q of
       QInB p \<Rightarrow> if p = 0x60 then 0x1E else if InB 0x60 0x1E \<in> set t then 0 else 1 | _ \<Rightarrow> 0\<rparr>\<rparr>"


end
