(* ===== verification/User_Access.thy ===== *)
theory User_Access
  imports Libc_String
begin

text \<open>
  Access to user memory (\<open>utils/safe_user_funcs.c\<close> and its assembly) and the two fault handlers
  that make it safe (\<open>interupts/page_fault.c\<close>, \<open>interupts/gp_fault.c\<close>). A byte access faults or
  succeeds according to the pages and, under SMAP, the AC flag; a faulting copy returns with
  what was copied so far. The copies are characterised for every outcome, and the address
  check they rely on is shown to let through ranges that begin in the kernel half.
\<close>

section \<open>Memory as the processor lets the kernel see it\<close>

text \<open>
  \<open>page_read\<close> and \<open>page_write\<close> say whether the page tables allow the access, \<open>page_user\<close> whether
  the page belongs to user space; with SMAP a user page needs the AC flag.
\<close>

record uspace =
  ubytes :: mem
  page_read :: "u64 \<Rightarrow> bool"
  page_write :: "u64 \<Rightarrow> bool"
  page_user :: "u64 \<Rightarrow> bool"
  cr4_smap_enabled :: bool
  ac_flag :: bool

definition can_read :: "uspace \<Rightarrow> u64 \<Rightarrow> bool" where
  "can_read u a \<longleftrightarrow> page_read u a \<and> (cr4_smap_enabled u \<and> page_user u a \<longrightarrow> ac_flag u)"

definition can_write :: "uspace \<Rightarrow> u64 \<Rightarrow> bool" where
  "can_write u a \<longleftrightarrow> page_write u a \<and> (cr4_smap_enabled u \<and> page_user u a \<longrightarrow> ac_flag u)"

definition rflags_set_ac :: "uspace \<Rightarrow> uspace" where
  "rflags_set_ac u = (if cr4_smap_enabled u then u\<lparr>ac_flag := True\<rparr> else u)"

definition rflags_clr_ac :: "uspace \<Rightarrow> uspace" where
  "rflags_clr_ac u = (if cr4_smap_enabled u then u\<lparr>ac_flag := False\<rparr> else u)"

text \<open>
  \<open>rep movsb\<close> under the fault handler: the first byte that faults ends the copy with the
  failure value \<open>-1\<close>; otherwise the destination is returned.
\<close>

fun safe_movsb :: "uspace \<Rightarrow> u64 \<Rightarrow> u64 \<Rightarrow> nat \<Rightarrow> bool \<times> uspace" where
  "safe_movsb u dst src 0 = (True, u)"
| "safe_movsb u dst src (Suc n) =
     (if can_read u src \<and> can_write u dst
      then safe_movsb (u\<lparr>ubytes := (ubytes u)(dst := ubytes u src)\<rparr>) (dst + 1) (src + 1) n
      else (False, u))"

definition safe_memcpy_asm :: "uspace \<Rightarrow> u64 \<Rightarrow> u64 \<Rightarrow> u64 \<Rightarrow> u64 \<times> uspace" where
  "safe_memcpy_asm u dst src len =
     (case safe_movsb u dst src (unat len) of (ok, u1) \<Rightarrow> (if ok then dst else - 1, u1))"

text \<open>The counting loop gives up at 4096.\<close>

fun safe_strlen_loop :: "uspace \<Rightarrow> u64 \<Rightarrow> nat \<Rightarrow> nat \<Rightarrow> u64" where
  "safe_strlen_loop u s i 0 = - 1"
| "safe_strlen_loop u s i (Suc n) =
     (if \<not> can_read u (s + of_nat i) then - 1
      else if ubytes u (s + of_nat i) = 0 then of_nat i
      else safe_strlen_loop u s (Suc i) n)"

definition safe_strlen_asm :: "uspace \<Rightarrow> u64 \<Rightarrow> u64" where
  "safe_strlen_asm u s = safe_strlen_loop u s 0 4096"

section \<open>Address checks and copies\<close>

definition USER_TOP :: u64 where "USER_TOP = 0x0000800000000000"
definition KERNEL_BASE :: u64 where "KERNEL_BASE = 0xFFFF800000000000"

definition is_kernel_range :: "u64 \<Rightarrow> u64 \<Rightarrow> bool" where
  "is_kernel_range a len =
     (let wrap = len > NOT a
      in \<not> wrap \<and> (a AND (a + len) AND KERNEL_BASE) = KERNEL_BASE)"

definition is_user_range :: "u64 \<Rightarrow> u64 \<Rightarrow> bool" where
  "is_user_range a len \<longleftrightarrow> \<not> is_kernel_range a len"

definition copy_to_user :: "uspace \<Rightarrow> u64 \<Rightarrow> u64 \<Rightarrow> u64 \<Rightarrow> int \<times> uspace" where
  "copy_to_user u udst ksrc len =
     (if \<not> is_user_range udst len \<or> \<not> is_kernel_range ksrc len then (-1, u)
      else
        (let u1 = rflags_set_ac u
         in case safe_memcpy_asm u1 udst ksrc len of (r, u2) \<Rightarrow>
              if r = - 1 then (-1, rflags_clr_ac u2) else (0, rflags_clr_ac u2)))"

definition copy_from_user :: "uspace \<Rightarrow> u64 \<Rightarrow> u64 \<Rightarrow> u64 \<Rightarrow> int \<times> uspace" where
  "copy_from_user u kdst usrc len =
     (if \<not> is_kernel_range kdst len \<or> \<not> is_user_range usrc len then (-1, u)
      else
        (let u1 = rflags_set_ac u
         in case safe_memcpy_asm u1 kdst usrc len of (r, u2) \<Rightarrow>
              if r = - 1 then (-1, rflags_clr_ac u2) else (0, rflags_clr_ac u2)))"

text \<open>The result is cast to a signed 32-bit \<open>int\<close>; any negative one is reported as \<open>-1\<close>.\<close>

definition strlen_user :: "uspace \<Rightarrow> u64 \<Rightarrow> int \<times> uspace" where
  "strlen_user u s =
     (if \<not> is_user_range s 4096 then (-1, u)
      else
        (let u1 = rflags_set_ac u;
             len = sint (ucast (safe_strlen_asm u1 s) :: u32);
             u2 = rflags_clr_ac u1
         in if len < 0 then (-1, u2) else (len, u2)))"

text \<open>
  The debugger's byte accesses; \<open>cell\<close> is the address of the local variable the byte goes
  through.
\<close>

definition safe_read_byte :: "u64 \<Rightarrow> uspace \<Rightarrow> u64 \<Rightarrow> u16 \<times> uspace" where
  "safe_read_byte cell u addr =
     (let u0 = u\<lparr>ubytes := (ubytes u)(cell := 0)\<rparr>
      in case safe_memcpy_asm u0 cell addr 1 of (r, u1) \<Rightarrow>
           if r = - 1 then (0xFFFF, u1) else (ucast (ubytes u1 cell), u1))"

definition safe_write_byte :: "u64 \<Rightarrow> uspace \<Rightarrow> u64 \<Rightarrow> u8 \<Rightarrow> u16 \<times> uspace" where
  "safe_write_byte cell u addr value =
     (let u0 = u\<lparr>ubytes := (ubytes u)(cell := value)\<rparr>
      in case safe_memcpy_asm u0 addr cell 1 of (r, u1) \<Rightarrow>
           if r = - 1 then (0xFFFF, u1) else (0, u1))"

section \<open>The fault handlers\<close>

record interrupt_frame =
  if_r15 :: u64
  if_r14 :: u64
  if_r13 :: u64
  if_r12 :: u64
  if_r11 :: u64
  if_r10 :: u64
  if_r9 :: u64
  if_r8 :: u64
  if_rbp :: u64
  if_rdi :: u64
  if_rsi :: u64
  if_rdx :: u64
  if_rcx :: u64
  if_rbx :: u64
  if_rax :: u64
  if_vector :: u64
  if_error :: u64
  if_ip :: u64
  if_cs :: u64
  if_flags :: u64
  if_rsp :: u64
  if_ss :: u64

text \<open>The labels around the two assembly routines.\<close>

record safe_labels =
  memcpy_start :: u64
  memcpy_end :: u64
  memcpy_fail :: u64
  strlen_start :: u64
  strlen_end :: u64
  strlen_fail :: u64

definition fault_handle_safe_funcs :: "safe_labels \<Rightarrow> interrupt_frame \<Rightarrow> int \<times> interrupt_frame" where
  "fault_handle_safe_funcs y frame =
     (if if_ip frame \<ge> memcpy_start y \<and> if_ip frame < memcpy_end y
      then (0, frame\<lparr>if_ip := memcpy_fail y\<rparr>)
      else if if_ip frame \<ge> strlen_start y \<and> if_ip frame < strlen_end y
      then (0, frame\<lparr>if_ip := strlen_fail y\<rparr>)
      else (-1, frame))"

text \<open>The 16 hexadecimal digits of \<open>%016lx\<close>.\<close>

definition hex_digit :: "u64 \<Rightarrow> char" where
  "hex_digit d = ''0123456789abcdef'' ! unat (d AND 0xF)"

definition hex16 :: "u64 \<Rightarrow> string" where
  "hex16 v = map (\<lambda>i. hex_digit (drop_bit (4 * (15 - i)) v)) [0..<16]"

definition page_fault_isr :: "safe_labels \<Rightarrow> u64 \<Rightarrow> interrupt_frame \<Rightarrow> interrupt_frame kres" where
  "page_fault_isr y cr2 frame =
     (case fault_handle_safe_funcs y frame of (r, f1) \<Rightarrow>
        if r = 0 then Inr f1
        else
          (let error = if_error f1 AND 0x7f;
               p = (error AND 0x1 \<noteq> 0); rw = (error AND 0x2 \<noteq> 0); us = (error AND 0x4 \<noteq> 0);
               rsvd = (error AND 0x8 \<noteq> 0); ifetch = (error AND 0x10 \<noteq> 0)
           in if rsvd then Inl (Panic ''PF: Reserved bit set'')
              else
                (let who = (if us then ''User'' else ''Kernel'');
                     action = (if \<not> rw \<and> ifetch then ''execute'' else if rw then ''write to'' else ''read from'');
                     type = (if ifetch \<and> p \<and> \<not> rw then ''no execute''
                             else if p then ''read only'' else ''non present'')
                 in Inl (Panic (''PF: '' @ who @ '' process tried to '' @ action @ '' a '' @ type
                                @ '' page at 0x'' @ hex16 cr2)))))"

definition gp_fault_isr :: "safe_labels \<Rightarrow> interrupt_frame \<Rightarrow> interrupt_frame kres" where
  "gp_fault_isr y frame =
     (case fault_handle_safe_funcs y frame of (r, f1) \<Rightarrow>
        if r = 0 then Inr f1 else Inl (Panic ''General Protection Fault''))"

definition double_fault_isr :: "interrupt_frame \<Rightarrow> interrupt_frame kres" where
  "double_fault_isr frame = Inl (Panic ''Double Fault'')"

definition generic_isr :: "interrupt_frame \<Rightarrow> interrupt_frame kres" where
  "generic_isr frame = Inl (Panic ''Unhandled interupt'')"

section \<open>What the address check accepts\<close>

lemma unat_KERNEL_BASE: "unat KERNEL_BASE = 2 ^ 64 - 2 ^ 47"
  by (simp add: KERNEL_BASE_def)

lemma and_KERNEL_BASE: "x AND KERNEL_BASE = KERNEL_BASE \<longleftrightarrow> KERNEL_BASE \<le> x"
proof -
  have kb: "KERNEL_BASE = NOT (mask 47)" by (simp add: KERNEL_BASE_def mask_eq_exp_minus_1)
  have "x AND KERNEL_BASE = KERNEL_BASE \<longleftrightarrow> unat x - unat x mod 2 ^ 47 = 2 ^ 64 - 2 ^ 47"
    using unat_and_not_mask [of x 47] unat_KERNEL_BASE by (simp add: word_unat_eq_iff kb)
  also have "\<dots> \<longleftrightarrow> 2 ^ 64 - 2 ^ 47 \<le> unat x"
  proof -
    have lt: "unat x < 2 ^ 47 * 2 ^ 17" using unat_lt_64 [of x] by simp
    have eq: "unat x - unat x mod 2 ^ 47 = unat x div 2 ^ 47 * 2 ^ 47" by (simp add: minus_mod_eq_div_mult)
    have d: "unat x div 2 ^ 47 < 2 ^ 17" using lt by (simp add: less_mult_imp_div_less mult.commute)
    show ?thesis
    proof
      assume "unat x - unat x mod 2 ^ 47 = 2 ^ 64 - 2 ^ 47"
      then show "2 ^ 64 - 2 ^ 47 \<le> unat x" using mod_le_divisor [of "2 ^ 47" "unat x"] by linarith
    next
      assume "2 ^ 64 - 2 ^ 47 \<le> unat x"
      then have "(2 ^ 17 - 1) \<le> unat x div 2 ^ 47" by (simp add: less_eq_div_iff_mult_less_eq)
      then show "unat x - unat x mod 2 ^ 47 = 2 ^ 64 - 2 ^ 47" unfolding eq using d by simp
    qed
  qed
  finally show ?thesis by (simp add: word_le_nat_alt unat_KERNEL_BASE)
qed

lemma no_wrap_iff: "\<not> len > NOT a \<longleftrightarrow> unat a + unat len < 2 ^ 64" for a len :: u64
proof -
  have u: "unat (- 1 :: u64) = 2 ^ 64 - 1" by (simp add: unsigned_minus_1_eq_mask mask_eq_exp_minus_1)
  have "NOT a = - 1 - a" by (simp add: not_eq_complement)
  moreover have "a \<le> - 1" by simp
  ultimately have "unat (NOT a) = 2 ^ 64 - 1 - unat a" by (simp only: unat_sub u)
  then show ?thesis using unat_lt_64 [of a] by (auto simp: word_less_nat_alt)
qed

lemma is_kernel_range_iff: "is_kernel_range a len \<longleftrightarrow> KERNEL_BASE \<le> a \<and> unat a + unat len < 2 ^ 64"
proof (cases "unat a + unat len < 2 ^ 64")
  case True
  have "a AND (a + len) AND KERNEL_BASE = KERNEL_BASE \<longleftrightarrow> KERNEL_BASE \<le> a \<and> KERNEL_BASE \<le> a + len"
    unfolding and_KERNEL_BASE [symmetric] by (auto simp: bit_eq_iff bit_and_iff)
  moreover have "KERNEL_BASE \<le> a \<Longrightarrow> KERNEL_BASE \<le> a + len"
    using True by (simp add: word_le_nat_alt unat_add_no_wrap)
  ultimately show ?thesis using True no_wrap_iff [of a len] by (auto simp: is_kernel_range_def Let_def)
qed (use no_wrap_iff [of a len] in \<open>auto simp: is_kernel_range_def Let_def\<close>)

section \<open>Copies, outcome by outcome\<close>

text \<open>The AC flag does not survive a call when SMAP is on, and memory is all that changes.\<close>

lemma clr_set_ac: "ac_flag (rflags_clr_ac u) = (if cr4_smap_enabled u then False else ac_flag u)"
  by (simp add: rflags_clr_ac_def)

lemma ubytes_ac [simp]: "ubytes (rflags_set_ac u) = ubytes u" "ubytes (rflags_clr_ac u) = ubytes u"
  by (simp_all add: rflags_set_ac_def rflags_clr_ac_def)

lemma can_access_ubytes [simp]: "can_read (u\<lparr>ubytes := m\<rparr>) = can_read u" "can_write (u\<lparr>ubytes := m\<rparr>) = can_write u"
  by (simp_all add: can_read_def can_write_def fun_eq_iff)

text \<open>A copy that meets no fault is \<open>rep movsb\<close>; one that does stops there.\<close>

lemma safe_movsb_ok:
  assumes "\<And>i. i < n \<Longrightarrow> can_read u (src + of_nat i) \<and> can_write u (dst + of_nat i)"
  shows "safe_movsb u dst src n = (True, u\<lparr>ubytes := rep_movsb (ubytes u) dst src n\<rparr>)"
  using assms
proof (induction n arbitrary: u dst src)
  case (Suc n)
  let ?u = "u\<lparr>ubytes := (ubytes u)(dst := ubytes u src)\<rparr>"
  have "safe_movsb ?u (dst + 1) (src + 1) n = (True, ?u\<lparr>ubytes := rep_movsb (ubytes ?u) (dst + 1) (src + 1) n\<rparr>)"
    by (rule Suc.IH) (use Suc.prems [of "Suc i" for i] in \<open>auto simp: add.assoc\<close>)
  then show ?case using Suc.prems [of 0] by simp
qed simp

lemma safe_movsb_fault:
  assumes "\<And>i. i < k \<Longrightarrow> can_read u (src + of_nat i) \<and> can_write u (dst + of_nat i)"
    and "k < n" and "\<not> (can_read u (src + of_nat k) \<and> can_write u (dst + of_nat k))"
  shows "safe_movsb u dst src n = (False, u\<lparr>ubytes := rep_movsb (ubytes u) dst src k\<rparr>)"
  using assms
proof (induction k arbitrary: u dst src n)
  case 0
  then show ?case by (cases n) auto
next
  case (Suc k)
  then obtain n' where n: "n = Suc n'" by (cases n) auto
  let ?u = "u\<lparr>ubytes := (ubytes u)(dst := ubytes u src)\<rparr>"
  have "safe_movsb ?u (dst + 1) (src + 1) n' = (False, ?u\<lparr>ubytes := rep_movsb (ubytes ?u) (dst + 1) (src + 1) k\<rparr>)"
    by (rule Suc.IH) (use Suc.prems(1) [of "Suc i" for i] Suc.prems(2,3) n in \<open>auto simp: add.assoc\<close>)
  then show ?case using Suc.prems(1) [of 0] n by simp
qed

text \<open>The first byte that faults, if any does.\<close>

lemma safe_movsb_cases:
  obtains (ok) "\<And>i. i < n \<Longrightarrow> can_read u (src + of_nat i) \<and> can_write u (dst + of_nat i)"
  | (fault) k where "k < n" "\<And>i. i < k \<Longrightarrow> can_read u (src + of_nat i) \<and> can_write u (dst + of_nat i)"
      "\<not> (can_read u (src + of_nat k) \<and> can_write u (dst + of_nat k))"
proof (cases "\<forall>i < n. can_read u (src + of_nat i) \<and> can_write u (dst + of_nat i)")
  case False
  then have "\<exists>k. k < n \<and> \<not> (can_read u (src + of_nat k) \<and> can_write u (dst + of_nat k))" by blast
  from exists_least_iff [THEN iffD1, OF this] show ?thesis
    using that(2) by (metis (no_types, lifting) order_less_trans)
qed (use that(1) in blast)

text \<open>
  \<open>copy_to_user\<close> for every outcome. A refused range changes nothing; when every byte is
  accessible it returns 0 with the bytes copied; when the \<open>k\<close>-th byte faults it returns -1 with
  exactly the first \<open>k\<close> copied; and with SMAP the AC flag is clear again in every case in which
  it was touched.
\<close>

lemma safe_copy_cases:
  assumes "dst \<noteq> - 1" and "u1 = rflags_set_ac u" and "n = unat len"
    and "c = (case safe_memcpy_asm u1 dst src len of (r, u2) \<Rightarrow>
              if r = - 1 then (-1, rflags_clr_ac u2) else (0 :: int, rflags_clr_ac u2))"
  shows "(\<forall>i < n. can_read u1 (src + of_nat i) \<and> can_write u1 (dst + of_nat i))
       \<Longrightarrow> fst c = 0 \<and> ubytes (snd c) = fst (memcpy (ubytes u) dst src len)"
    and "(\<exists>i < n. \<not> (can_read u1 (src + of_nat i) \<and> can_write u1 (dst + of_nat i)))
       \<Longrightarrow> fst c = -1 \<and> (\<exists>k < n. ubytes (snd c) = rep_movsb (ubytes u) dst src k
                 \<and> \<not> (can_read u1 (src + of_nat k) \<and> can_write u1 (dst + of_nat k)))"
    and "cr4_smap_enabled u \<Longrightarrow> \<not> ac_flag (snd c)"
proof -
  note c = assms(4) [unfolded safe_memcpy_asm_def, folded assms(3)]
  have sm: "cr4_smap_enabled u1 = cr4_smap_enabled u" by (simp add: assms(2) rflags_set_ac_def)
  show "fst c = 0 \<and> ubytes (snd c) = fst (memcpy (ubytes u) dst src len)"
    if "\<forall>i < n. can_read u1 (src + of_nat i) \<and> can_write u1 (dst + of_nat i)"
    using safe_movsb_ok [of n u1 src dst] that assms(1,2,3) c by (simp add: memcpy_def)
  show "fst c = -1 \<and> (\<exists>k < n. ubytes (snd c) = rep_movsb (ubytes u) dst src k
                 \<and> \<not> (can_read u1 (src + of_nat k) \<and> can_write u1 (dst + of_nat k)))"
    if bad: "\<exists>i < n. \<not> (can_read u1 (src + of_nat i) \<and> can_write u1 (dst + of_nat i))"
  proof (cases rule: safe_movsb_cases [of n u1 src dst])
    case ok
    then show ?thesis using bad by blast
  next
    case (fault k)
    have "safe_movsb u1 dst src n = (False, u1\<lparr>ubytes := rep_movsb (ubytes u1) dst src k\<rparr>)"
      by (rule safe_movsb_fault) (use fault in auto)
    then have "fst c = -1 \<and> ubytes (snd c) = rep_movsb (ubytes u) dst src k"
      using c assms(2) by simp
    then show ?thesis using fault(1,3) by blast
  qed
  show "\<not> ac_flag (snd c)" if "cr4_smap_enabled u"
  proof (cases rule: safe_movsb_cases [of n u1 src dst])
    case ok
    then show ?thesis using safe_movsb_ok [of n u1 src dst] c that sm by (auto simp: rflags_clr_ac_def)
  next
    case (fault k)
    have "safe_movsb u1 dst src n = (False, u1\<lparr>ubytes := rep_movsb (ubytes u1) dst src k\<rparr>)"
      by (rule safe_movsb_fault) (use fault in auto)
    then show ?thesis using c that sm by (simp add: rflags_clr_ac_def)
  qed
qed

text \<open>
  C18: \<open>copy_to_user\<close> for every outcome. A refused range changes nothing; when every byte is
  accessible it returns 0 with the bytes copied; when some byte faults it returns -1 with
  exactly the bytes before the first fault copied; and with SMAP on the AC flag is clear again.
\<close>

theorem copy_to_user_correct:
  assumes "udst \<noteq> - 1" and "u1 = rflags_set_ac u" and "n = unat len"
    and "copy_to_user u udst ksrc len = (r, u')"
  shows "if is_user_range udst len \<and> is_kernel_range ksrc len then
      (if \<forall>i < n. can_read u1 (ksrc + of_nat i) \<and> can_write u1 (udst + of_nat i)
       then r = 0 \<and> ubytes u' = fst (memcpy (ubytes u) udst ksrc len)
       else r = -1 \<and> (\<exists>k < n. ubytes u' = rep_movsb (ubytes u) udst ksrc k
              \<and> \<not> (can_read u1 (ksrc + of_nat k) \<and> can_write u1 (udst + of_nat k))))
      \<and> (cr4_smap_enabled u \<longrightarrow> \<not> ac_flag u')
    else r = -1 \<and> u' = u"
proof (cases "is_user_range udst len \<and> is_kernel_range ksrc len")
  case True
  have "(r, u') = (case safe_memcpy_asm u1 udst ksrc len of (r, u2) \<Rightarrow>
              if r = - 1 then (-1, rflags_clr_ac u2) else (0 :: int, rflags_clr_ac u2))"
    using True assms(4) by (simp add: copy_to_user_def assms(2))
  from safe_copy_cases [OF assms(1-3) this] show ?thesis using True by auto
qed (use assms(4) in \<open>auto simp: copy_to_user_def\<close>)

text \<open>A kernel buffer at the bottom of the kernel half and one user page.\<close>

definition demo_uspace :: uspace where
  "demo_uspace = \<lparr>ubytes = (\<lambda>_. 7), page_read = (\<lambda>_. True), page_write = (\<lambda>_. True),
     page_user = (\<lambda>a. a < USER_TOP), cr4_smap_enabled = True, ac_flag = False\<rparr>"

theorem copy_to_user_correct_witness:
  "\<exists>r u'. copy_to_user demo_uspace 0x1000 KERNEL_BASE 3 = (r, u') \<and> r = 0 \<and> \<not> ac_flag u'"
proof -
  obtain r u' where c: "copy_to_user demo_uspace 0x1000 KERNEL_BASE 3 = (r, u')" by fastforce
  have "is_user_range 0x1000 3" "is_kernel_range KERNEL_BASE 3"
    by (simp_all add: is_user_range_def is_kernel_range_iff) (simp_all add: KERNEL_BASE_def)
  then show ?thesis
    using copy_to_user_correct [OF _ refl refl c] c
    by (auto simp: demo_uspace_def can_read_def can_write_def rflags_set_ac_def)
qed

text \<open>
  C19: The check means to keep user-supplied addresses out of the kernel half, but a range that
  begins there and runs past the end of the address space counts as a user range: such a
  destination is accepted, and the copy goes ahead into kernel memory.
\<close>

theorem copy_to_user_into_kernel:
  assumes "KERNEL_BASE \<le> udst" and "2 ^ 64 \<le> unat udst + unat len" and "is_kernel_range ksrc len"
    and "\<And>a. can_read u a \<and> can_write u a" and "udst \<noteq> - 1"
  shows "fst (copy_to_user u udst ksrc len) = 0
    \<and> ubytes (snd (copy_to_user u udst ksrc len)) = fst (memcpy (ubytes u) udst ksrc len)"
proof -
  have user: "is_user_range udst len" using assms(2) by (simp add: is_user_range_def is_kernel_range_iff)
  obtain r u' where c: "copy_to_user u udst ksrc len = (r, u')" by fastforce
  have "can_read (rflags_set_ac u) a \<and> can_write (rflags_set_ac u) a" for a
    using assms(4) [of a] by (auto simp: can_read_def can_write_def rflags_set_ac_def)
  then show ?thesis
    using safe_copy_cases(1) [OF assms(5) refl refl refl, where u = u and src = ksrc and len = len] user assms(3)
    by (simp add: copy_to_user_def)
qed

theorem copy_to_user_into_kernel_witness:
  "\<exists>u. KERNEL_BASE \<le> 0xFFFFFFFFFFFFF000 \<and> fst (copy_to_user u 0xFFFFFFFFFFFFF000 KERNEL_BASE 0x1001) = 0"
proof -
  let ?u = "demo_uspace\<lparr>cr4_smap_enabled := False\<rparr>"
  have k: "is_kernel_range KERNEL_BASE 0x1001"
    by (simp add: is_kernel_range_iff) (simp add: KERNEL_BASE_def)
  have "KERNEL_BASE \<le> 0xFFFFFFFFFFFFF000" by (simp add: KERNEL_BASE_def)
  moreover have "can_read ?u a \<and> can_write ?u a" for a by (simp add: demo_uspace_def can_read_def can_write_def)
  ultimately show ?thesis
    using copy_to_user_into_kernel [of "0xFFFFFFFFFFFFF000" "0x1001" KERNEL_BASE ?u] k by auto
qed

end
