(* ===== verification/Dbgstub.thy ===== *)
theory Dbgstub
  imports Devices User_Access Spinlock
begin

text \<open>
  The remote debugger stub (\<open>drivers/dbgstub/dbgstub.c\<close>) and the hardware breakpoints it sets
  (\<open>drivers/x86_64/drX.c\<close>, \<open>drX.h\<close>). The three packet buffers are byte lists of their allocated size;
  an access outside one is the outcome \<open>out_of_bounds\<close>. Shown: the packets the stub sends
  are accepted by its own check, registers survive being sent and written back, receiving
  never leaves the buffer, while resending a packet and long memory reads do.
\<close>

section \<open>Breakpoint registers\<close>

record drx =
  hbreakpoints :: "u64 list"
  dr_addr :: "u64 list"
  dr6 :: u64
  dr7 :: u64

definition drx_setbp :: "nat \<Rightarrow> u64 \<Rightarrow> drx \<Rightarrow> drx" where
  "drx_setbp reg v d = (if reg < 4 then d\<lparr>dr_addr := (dr_addr d)[reg := v]\<rparr> else d)"

definition drx_enablebp :: "nat \<Rightarrow> drx \<Rightarrow> drx" where
  "drx_enablebp reg d = d\<lparr>dr7 := dr7 d OR push_bit (reg * 2) 1\<rparr>"

definition drx_disablebp :: "nat \<Rightarrow> drx \<Rightarrow> drx" where
  "drx_disablebp reg d = d\<lparr>dr7 := dr7 d AND NOT (push_bit (reg * 2) 3)\<rparr>"

text \<open>
  The second statement of \<open>drx_cnc_bp\<close> has its operands the wrong way round: it reads \<open>dr6\<close> once
  more and clears nothing.
\<close>

definition drx_cnc_bp :: "drx \<Rightarrow> bool \<times> drx" where
  "drx_cnc_bp d = (dr6 d AND 0xF \<noteq> 0, d)"

fun drx_alloc_loop :: "nat \<Rightarrow> u64 \<Rightarrow> u64 list \<Rightarrow> drx \<Rightarrow> bool \<times> drx" where
  "drx_alloc_loop i addr [] d = (False, d)"
| "drx_alloc_loop i addr (b # bs) d =
     (if b = addr then (False, d)
      else if b = 0
      then (True, drx_enablebp i (drx_setbp i addr (d\<lparr>hbreakpoints := (hbreakpoints d)[i := addr]\<rparr>)))
      else drx_alloc_loop (Suc i) addr bs d)"

definition drx_alloc_bp :: "u64 \<Rightarrow> drx \<Rightarrow> bool \<times> drx" where
  "drx_alloc_bp addr d = (if addr = 0 then (False, d) else drx_alloc_loop 0 addr (hbreakpoints d) d)"

fun drx_free_loop :: "nat \<Rightarrow> u64 \<Rightarrow> u64 list \<Rightarrow> drx \<Rightarrow> bool \<times> drx" where
  "drx_free_loop i addr [] d = (False, d)"
| "drx_free_loop i addr (b # bs) d =
     (if b = addr
      then (True, drx_enablebp i (drx_setbp i 0 (d\<lparr>hbreakpoints := (hbreakpoints d)[i := 0]\<rparr>)))
      else drx_free_loop (Suc i) addr bs d)"

definition drx_free_bp :: "u64 \<Rightarrow> drx \<Rightarrow> bool \<times> drx" where
  "drx_free_bp addr d = (if addr = 0 then (False, d) else drx_free_loop 0 addr (hbreakpoints d) d)"

section \<open>The stub\<close>

definition DBGSTUB_PACKET_BUFFER_SIZE :: nat where "DBGSTUB_PACKET_BUFFER_SIZE = 4096"

record dbgstub =
  dbg_port :: u16
  dbg_hw :: hw
  dbg_mem :: uspace
  dbg_cell :: u64
  dbg_drx :: drx
  dbg_irql :: int
  dbgstub_send_buffer :: "u8 list"
  dbgstub_packet_send_buffer :: "u8 list"
  dbgstub_packet_recv_buffer :: "u8 list"
  dbgstub_packet_buffer_index :: nat
  last_frame :: interrupt_frame
  dbgstub_middle_of_packet :: bool
  dbgstub_end_of_packet :: bool
  dbgstub_end_of_packet_count :: u8
  dbg_paused :: bool
  dbg_continue :: bool

definition dbg_serial_send :: "u8 \<Rightarrow> dbgstub \<Rightarrow> dbgstub kres option" where
  "dbg_serial_send c s = map_option (\<lambda>h. Inr (s\<lparr>dbg_hw := h\<rparr>)) (serial_send (dbg_port s) c (dbg_hw s))"

definition put_packet :: "nat \<Rightarrow> u8 \<Rightarrow> dbgstub \<Rightarrow> dbgstub kres option" where
  "put_packet i c s =
     (if i < length (dbgstub_packet_send_buffer s)
      then Some (Inr (s\<lparr>dbgstub_packet_send_buffer := (dbgstub_packet_send_buffer s)[i := c]\<rparr>)) else out_of_bounds)"

definition put_send :: "nat \<Rightarrow> u8 \<Rightarrow> dbgstub \<Rightarrow> dbgstub kres option" where
  "put_send i c s =
     (if i < length (dbgstub_send_buffer s)
      then Some (Inr (s\<lparr>dbgstub_send_buffer := (dbgstub_send_buffer s)[i := c]\<rparr>)) else out_of_bounds)"

definition put_recv :: "nat \<Rightarrow> u8 \<Rightarrow> dbgstub \<Rightarrow> dbgstub kres option" where
  "put_recv i c s =
     (if i < length (dbgstub_packet_recv_buffer s)
      then Some (Inr (s\<lparr>dbgstub_packet_recv_buffer := (dbgstub_packet_recv_buffer s)[i := c]\<rparr>)) else out_of_bounds)"

text \<open>The digits of \<open>"0123456789abcdef"\<close>.\<close>

definition hex_low :: "u64 \<Rightarrow> u8" where
  "hex_low d = bytes_of ''0123456789abcdef'' ! unat (d AND 0xF)"

subsection \<open>Sending\<close>

text \<open>
  The argument of \<open>dbgstub_send\<close> is a string of its own or, for a resend, the packet buffer the
  function is writing; each byte is read when the loop reaches it. The state is the two
  indices and the checksum.
\<close>

datatype send_src = Own "u8 list" | Packet_buffer

definition src_at :: "send_src \<Rightarrow> dbgstub \<Rightarrow> nat \<Rightarrow> u8" where
  "src_at src s j = (case src of Own str \<Rightarrow> char_at str j | Packet_buffer \<Rightarrow> char_at (dbgstub_packet_send_buffer s) j)"

partial_function (option) dbgstub_send_loop ::
    "send_src \<Rightarrow> nat \<Rightarrow> nat \<Rightarrow> u8 \<Rightarrow> dbgstub \<Rightarrow> (nat \<times> u8 \<times> dbgstub) kres option" where
  "dbgstub_send_loop src j i checksum s =
     (let b = src_at src s j
      in if b = 0 then Some (Inr (i, checksum, s))
         else kobind (put_packet i b s) (\<lambda>s1.
              kobind (dbg_serial_send b s1) (\<lambda>s2. dbgstub_send_loop src (Suc j) (Suc i) (checksum + b) s2)))"

definition dbgstub_send :: "send_src \<Rightarrow> dbgstub \<Rightarrow> dbgstub kres option" where
  "dbgstub_send src s =
     kobind (put_packet 0 36 s) (\<lambda>s1.
     kobind (dbg_serial_send 36 s1) (\<lambda>s2.
     kobind (dbgstub_send_loop src 0 1 0 s2) (\<lambda>(i, checksum, s3).
     kobind (dbg_serial_send 35 s3) (\<lambda>s4.
     kobind (put_packet i 35 s4) (\<lambda>s5.
     let hi = hex_low (drop_bit 4 (ucast checksum)); lo = hex_low (ucast checksum)
     in kobind (put_packet (i + 1) hi s5) (\<lambda>s6.
        kobind (dbg_serial_send hi s6) (\<lambda>s7.
        kobind (put_packet (i + 2) lo s7) (\<lambda>s8.
        kobind (dbg_serial_send lo s8) (\<lambda>s9.
          put_packet (i + 3) 0 s9)))))))))"

definition dbg_reply :: "string \<Rightarrow> dbgstub \<Rightarrow> dbgstub kres option" where
  "dbg_reply str s = dbgstub_send (Own (bytes_of str)) s"

subsection \<open>Checking a packet\<close>

text \<open>The sum of the bytes in front of the \<open>#\<close>, and its position; a buffer without one is read to its end.\<close>

fun sum_to_hash :: "u8 list \<Rightarrow> u8 \<Rightarrow> nat \<Rightarrow> (u8 \<times> nat) option" where
  "sum_to_hash [] acc i = None"
| "sum_to_hash (c # cs) acc i = (if c = 35 then Some (acc, i) else sum_to_hash cs (acc + c) (Suc i))"

definition dbgstub_validate_packet :: "dbgstub \<Rightarrow> (bool \<times> dbgstub) kres option" where
  "dbgstub_validate_packet s =
     (let buf = dbgstub_packet_recv_buffer s
      in if char_at buf 0 \<noteq> 36 \<and> char_at buf 0 \<noteq> 37
         then kobind (dbg_serial_send 45 s) (\<lambda>s1. Some (Inr (False, s1)))
         else case sum_to_hash (drop 1 buf) 0 1 of
                None \<Rightarrow> out_of_bounds
              | Some (csum, i) \<Rightarrow>
                  if length buf \<le> i + 2 then out_of_bounds
                  else if ucast csum = strtoll [buf ! (i + 1), buf ! (i + 2)] 16
                  then kobind (dbg_serial_send 43 s) (\<lambda>s1. Some (Inr (True, s1)))
                  else kobind (dbg_serial_send 45 s) (\<lambda>s1. Some (Inr (False, s1))))"

subsection \<open>Registers\<close>

definition bswap64 :: "u64 \<Rightarrow> u64" where
  "bswap64 v = push_bit 56 (take_bit 8 v) OR push_bit 48 (take_bit 8 (drop_bit 8 v))
     OR push_bit 40 (take_bit 8 (drop_bit 16 v)) OR push_bit 32 (take_bit 8 (drop_bit 24 v))
     OR push_bit 24 (take_bit 8 (drop_bit 32 v)) OR push_bit 16 (take_bit 8 (drop_bit 40 v))
     OR push_bit 8 (take_bit 8 (drop_bit 48 v)) OR drop_bit 56 v"

text \<open>\<open>__builtin_bswap32\<close> of the low half, as a 64-bit number.\<close>

definition bswap32 :: "u64 \<Rightarrow> u64" where
  "bswap32 v = push_bit 24 (take_bit 8 v) OR push_bit 16 (take_bit 8 (drop_bit 8 v))
     OR push_bit 8 (take_bit 8 (drop_bit 16 v)) OR take_bit 8 (drop_bit 24 v)"

text \<open>\<open>PACK_REG\<close> and \<open>UNPACK_REG\<close>: the digits of the swapped value, highest first.\<close>

fun hex_field :: "nat \<Rightarrow> u64 \<Rightarrow> u8 list" where
  "hex_field 0 v = []"
| "hex_field (Suc n) v = hex_field n (drop_bit 4 v) @ [hex_low v]"

definition pack_reg :: "u64 \<Rightarrow> nat \<Rightarrow> u8 list" where
  "pack_reg v width = hex_field width (if width = 16 then bswap64 v else bswap32 v)"

definition unpack_reg :: "u8 list \<Rightarrow> nat \<Rightarrow> u64" where
  "unpack_reg cs width = (let v = strtoull (take width cs) 16 in if width = 16 then bswap64 v else bswap32 v)"

definition pack_frame :: "interrupt_frame \<Rightarrow> u8 list" where
  "pack_frame f = concat (map (\<lambda>v. pack_reg v 16)
       [if_rax f, if_rbx f, if_rcx f, if_rdx f, if_rsi f, if_rdi f, if_rbp f, if_rsp f,
        if_r8 f, if_r9 f, if_r10 f, if_r11 f, if_r12 f, if_r13 f, if_r14 f, if_r15 f, if_ip f])
     @ pack_reg (if_flags f) 8 @ pack_reg (if_cs f) 8 @ pack_reg (if_ss f) 8"

definition unpack_frame :: "u8 list \<Rightarrow> interrupt_frame \<Rightarrow> interrupt_frame" where
  "unpack_frame cs f =
     (let r = (\<lambda>i. unpack_reg (drop (16 * i) cs) 16); w = (\<lambda>i. unpack_reg (drop (272 + 8 * i) cs) 8)
      in f\<lparr>if_rax := r 0, if_rbx := r 1, if_rcx := r 2, if_rdx := r 3, if_rsi := r 4, if_rdi := r 5, if_rbp := r 6,
           if_rsp := r 7, if_r8 := r 8, if_r9 := r 9, if_r10 := r 10, if_r11 := r 11, if_r12 := r 12, if_r13 := r 13,
           if_r14 := r 14, if_r15 := r 15, if_ip := r 16, if_flags := w 0, if_cs := w 1, if_ss := w 2\<rparr>)"

subsection \<open>Commands\<close>

definition starts :: "string \<Rightarrow> dbgstub \<Rightarrow> bool" where
  "starts p s \<longleftrightarrow> take (length p) (dbgstub_packet_recv_buffer s) = bytes_of p"

text \<open>\<open>strchr\<close> on the rest of the buffer: the distance of the first occurrence in front of the terminating zero.\<close>

fun buf_chr :: "u8 \<Rightarrow> u8 list \<Rightarrow> nat \<Rightarrow> nat option" where
  "buf_chr c [] i = None"
| "buf_chr c (x # xs) i = (if x = 0 then None else if x = c then Some i else buf_chr c xs (Suc i))"

definition dbg_set_send_string :: "u8 list \<Rightarrow> dbgstub \<Rightarrow> dbgstub kres option" where
  "dbg_set_send_string str s =
     (if length str < length (dbgstub_send_buffer s)
      then Some (Inr (s\<lparr>dbgstub_send_buffer := str @ [0] @ drop (length str + 1) (dbgstub_send_buffer s)\<rparr>)) else out_of_bounds)"

text \<open>The two loops over memory; the result says whether every byte could be accessed.\<close>

fun read_memory :: "nat \<Rightarrow> u64 \<Rightarrow> nat \<Rightarrow> dbgstub \<Rightarrow> (bool \<times> dbgstub) kres option" where
  "read_memory 0 addr k s = Some (Inr (True, s))"
| "read_memory (Suc n) addr k s =
     (case safe_read_byte (dbg_cell s) (dbg_mem s) (addr + of_nat k) of (byte, u) \<Rightarrow>
        if byte = 0xFFFF then Some (Inr (False, s\<lparr>dbg_mem := u\<rparr>))
        else kobind (put_send (k * 2) (hex_low (drop_bit 4 (ucast byte))) (s\<lparr>dbg_mem := u\<rparr>)) (\<lambda>s1.
             kobind (put_send (k * 2 + 1) (hex_low (ucast byte)) s1) (read_memory n addr (Suc k))))"

fun write_memory :: "nat \<Rightarrow> u64 \<Rightarrow> nat \<Rightarrow> u8 list \<Rightarrow> dbgstub \<Rightarrow> bool \<times> dbgstub" where
  "write_memory 0 addr k data s = (True, s)"
| "write_memory (Suc n) addr k data s =
     (case safe_write_byte (dbg_cell s) (dbg_mem s) (addr + of_nat k)
             (ucast (strtoull [char_at data (k * 2), char_at data (k * 2 + 1)] 16)) of (res, u) \<Rightarrow>
        if res = 0xFFFF then (False, s\<lparr>dbg_mem := u\<rparr>) else write_memory n addr (Suc k) data (s\<lparr>dbg_mem := u\<rparr>))"

definition dbg_read_memory :: "dbgstub \<Rightarrow> dbgstub kres option" where
  "dbg_read_memory s =
     (let args = drop 2 (dbgstub_packet_recv_buffer s)
      in case buf_chr 44 args 0 of
           None \<Rightarrow> dbg_reply ''E00'' s
         | Some comma \<Rightarrow>
             let s1 = s\<lparr>dbgstub_packet_recv_buffer := (dbgstub_packet_recv_buffer s)[2 + comma := 0]\<rparr>;
                 addr = strtoull (take comma args) 16;
                 len = strtoull (drop (comma + 1) args) 16
             in if len = 0 then dbg_reply ''E01'' s1
                else kobind (read_memory (unat len) addr 0 s1) (\<lambda>(ok, s2).
                     if \<not> ok then dbg_reply ''E02'' s2
                     else kobind (put_send (unat (len * 2)) 0 s2) (\<lambda>s3.
                          dbgstub_send (Own (dbgstub_send_buffer s3)) s3)))"

definition dbg_write_memory :: "dbgstub \<Rightarrow> dbgstub kres option" where
  "dbg_write_memory s =
     (let args = drop 2 (dbgstub_packet_recv_buffer s)
      in case (buf_chr 44 args 0, buf_chr 58 args 0) of
           (Some comma, Some colon) \<Rightarrow>
             if comma > colon then dbg_reply ''E00'' s
             else
               (let s1 = s\<lparr>dbgstub_packet_recv_buffer := (dbgstub_packet_recv_buffer s)[2 + comma := 0, 2 + colon := 0]\<rparr>;
                    addr = strtoull (take comma args) 16;
                    len = strtoull (take (colon - comma - 1) (drop (comma + 1) args)) 16;
                    data = drop (colon + 1) args
                in if len = 0 \<or> of_nat (length (takeWhile (\<lambda>c. c \<noteq> 0) data)) < len * 2 then dbg_reply ''E01'' s1
                   else (case write_memory (unat len) addr 0 data s1 of (ok, s2) \<Rightarrow>
                     if ok then dbg_reply ''OK'' s2 else dbg_reply ''E03'' s2))
         | _ \<Rightarrow> dbg_reply ''E00'' s)"

definition dbg_resume :: "dbgstub \<Rightarrow> dbgstub" where
  "dbg_resume s = s\<lparr>last_frame := (last_frame s)\<lparr>if_flags := if_flags (last_frame s) AND NOT 0x100\<rparr>,
     dbg_paused := False, dbg_continue := True\<rparr>"

definition dbg_run_command :: "dbgstub \<Rightarrow> dbgstub kres option" where
  "dbg_run_command s =
     (if starts ''$qSupported'' s then dbg_reply ''PacketSize=4000;hwbreak+;swbreak-;multiprocess-;multi-wp-addr-'' s
      else if starts ''$qAttached'' s then dbg_reply ''1'' s
      else if starts ''$?'' s then dbg_reply ''S05'' s
      else if starts ''$g'' s
      then kobind (dbg_set_send_string (pack_frame (last_frame s)) s) (\<lambda>s1. dbgstub_send (Own (dbgstub_send_buffer s1)) s1)
      else if starts ''$G'' s
      then dbg_reply ''OK'' (s\<lparr>last_frame := unpack_frame (drop 2 (dbgstub_packet_recv_buffer s)) (last_frame s)\<rparr>)
      else if starts ''$m'' s then dbg_read_memory s
      else if starts ''$M'' s then dbg_write_memory s
      else if starts ''$z1'' s
      then (case drx_free_bp (strtoull (drop 4 (dbgstub_packet_recv_buffer s)) 16) (dbg_drx s) of (ok, d) \<Rightarrow>
              dbg_reply (if ok then ''OK'' else ''E.INVALID_BREAKPOINT'') (s\<lparr>dbg_drx := d\<rparr>))
      else if starts ''$Z1'' s
      then (case drx_alloc_bp (strtoull (drop 4 (dbgstub_packet_recv_buffer s)) 16) (dbg_drx s) of (ok, d) \<Rightarrow>
              dbg_reply (if ok then ''OK'' else ''E.OUT_OF_HARDWARE_BREAKPOINTS'') (s\<lparr>dbg_drx := d\<rparr>))
      else if starts ''$c'' s then Some (Inr (dbg_resume s))
      else if starts ''$C'' s then Some (Inr (dbg_resume s))
      else if starts ''$s'' s then Some (Inr (s\<lparr>dbg_paused := True, dbg_continue := True\<rparr>))
      else dbg_reply [] s)"

definition dbgstub_process_packet :: "dbgstub \<Rightarrow> dbgstub kres option" where
  "dbgstub_process_packet s =
     kobind (dbgstub_validate_packet s) (\<lambda>(status, s1). if \<not> status then Some (Inr s1) else dbg_run_command s1)"

subsection \<open>Receiving\<close>

definition dbg_store_byte :: "u8 \<Rightarrow> dbgstub \<Rightarrow> dbgstub kres option" where
  "dbg_store_byte c s =
     kobind (put_recv (dbgstub_packet_buffer_index s) c s) (\<lambda>s1.
       let s2 = s1\<lparr>dbgstub_packet_buffer_index := dbgstub_packet_buffer_index s1 + 1\<rparr>;
           s3 = (if dbgstub_end_of_packet s2
                 then s2\<lparr>dbgstub_end_of_packet_count := dbgstub_end_of_packet_count s2 + 1\<rparr> else s2)
       in if dbgstub_end_of_packet_count s3 = 3
          then kobind (put_recv (dbgstub_packet_buffer_index s3 + 1) 0 s3) (\<lambda>s4.
                 dbgstub_process_packet (s4\<lparr>dbgstub_end_of_packet_count := 0, dbgstub_packet_buffer_index := 0,
                   dbgstub_middle_of_packet := False, dbgstub_end_of_packet := False\<rparr>))
          else Some (Inr s3))"

definition dbg_start_packet :: "dbgstub \<Rightarrow> dbgstub" where
  "dbg_start_packet s = s\<lparr>dbgstub_end_of_packet := False, dbgstub_middle_of_packet := True, dbgstub_packet_buffer_index := 0\<rparr>"

definition dbgstub_rx :: "u8 \<Rightarrow> interrupt_frame \<Rightarrow> dbgstub \<Rightarrow> (interrupt_frame \<times> dbgstub) kres option" where
  "dbgstub_rx c frame s =
     (if dbgstub_packet_buffer_index s = DBGSTUB_PACKET_BUFFER_SIZE then Some (Inl (Panic ''DBGSTUB: Packet buffer overflow''))
      else if c = 3
      then Some (Inr (if \<not> dbgstub_middle_of_packet s
                 then (frame\<lparr>if_flags := if_flags frame OR 0x100\<rparr>, s\<lparr>dbg_paused := True, dbg_continue := False\<rparr>) else (frame, s)))
      else if c = 43 \<and> \<not> dbgstub_middle_of_packet s then Some (Inr (frame, s))
      else if c = 45 \<and> \<not> dbgstub_middle_of_packet s
      then kobind (dbgstub_send Packet_buffer s) (\<lambda>s1. Some (Inr (frame, s1)))
      else if c = 125 then Some (Inl (Panic ''DBGSTUB: unhandled escaped charater''))
      else
        (let s1 = (if c = 36 then dbg_start_packet s
                   else if c = 37 \<and> \<not> dbgstub_middle_of_packet s then dbg_start_packet s
                   else if c = 35 then s\<lparr>dbgstub_end_of_packet := True, dbgstub_middle_of_packet := False, dbgstub_end_of_packet_count := 0\<rparr>
                   else s)
         in kobind (dbg_store_byte c s1) (\<lambda>s2. Some (Inr (frame, s2)))))"

subsection \<open>Stopping\<close>

text \<open>
  The wait loop polls two flags that only the serial interrupt changes: \<open>env n\<close> is what
  interrupts do between two looks.
\<close>

partial_function (option) dbg_wait :: "(nat \<Rightarrow> dbgstub \<Rightarrow> dbgstub) \<Rightarrow> nat \<Rightarrow> dbgstub \<Rightarrow> dbgstub option" where
  "dbg_wait env n s =
     (if dbg_paused s
      then (if dbg_continue s then Some (s\<lparr>dbg_continue := False\<rparr>) else dbg_wait env (Suc n) (env n s))
      else Some s)"

definition dbgstub_exception ::
    "(nat \<Rightarrow> dbgstub \<Rightarrow> dbgstub) \<Rightarrow> interrupt_frame \<Rightarrow> dbgstub \<Rightarrow> (interrupt_frame \<times> dbgstub) kres option" where
  "dbgstub_exception env frame s =
     kobind (Some (irql_raise 14 (dbg_irql s))) (\<lambda>(irql, c).
       let (hit, d) = drx_cnc_bp (dbg_drx s);
           s1 = s\<lparr>dbg_irql := c, dbg_drx := d\<rparr>;
           (frame1, s2) = (if hit then (frame\<lparr>if_flags := if_flags frame OR 0x10000 OR 0x100\<rparr>, s1\<lparr>dbg_paused := True, dbg_continue := False\<rparr>)
                           else (frame, s1))
       in kobind (dbg_reply ''S05'' (s2\<lparr>last_frame := frame1\<rparr>)) (\<lambda>s3.
            case dbg_wait env 0 s3 of
              None \<Rightarrow> None
            | Some s4 \<Rightarrow> kobind (Some (irql_lower irql (dbg_irql s4))) (\<lambda>(_, c4).
                Some (Inr (last_frame s4, s4\<lparr>dbg_irql := c4\<rparr>)))))"

definition dbgstub_should_preempt :: "dbgstub \<Rightarrow> bool" where
  "dbgstub_should_preempt s \<longleftrightarrow> \<not> dbg_paused s"

definition dbgstub_init :: "kmemory \<Rightarrow> dbgstub \<Rightarrow> (kmemory \<times> dbgstub) kres option" where
  "dbgstub_init k s =
     kobind (zalloc 4112 k) (\<lambda>(_, k1).
     kobind (zalloc 4112 k1) (\<lambda>(_, k2).
     kobind (zalloc 4112 k2) (\<lambda>(_, k3).
     kobind (zalloc 176 k3) (\<lambda>(_, k4).
       Some (Inr (k4, s\<lparr>dbgstub_packet_recv_buffer := replicate 4112 0, dbgstub_packet_send_buffer := replicate 4112 0,
         dbgstub_send_buffer := replicate 4112 0,
         last_frame := \<lparr>if_r15 = 0, if_r14 = 0, if_r13 = 0, if_r12 = 0, if_r11 = 0, if_r10 = 0, if_r9 = 0, if_r8 = 0, if_rbp = 0,
           if_rdi = 0, if_rsi = 0, if_rdx = 0, if_rcx = 0, if_rbx = 0, if_rax = 0, if_vector = 0, if_error = 0, if_ip = 0,
           if_cs = 0, if_flags = 0, if_rsp = 0, if_ss = 0\<rparr>\<rparr>))))))"

section \<open>Breakpoints\<close>

text \<open>Releasing a breakpoint clears its address and leaves it enabled, at address zero.\<close>

lemma drx_free_loop_enabled:
  "drx_free_loop i addr bs d = (True, d') \<Longrightarrow> \<exists>k. i \<le> k \<and> k < i + length bs \<and> bit (dr7 d') (k * 2)" if "i + length bs \<le> 4"
  using that
proof (induction i addr bs d rule: drx_free_loop.induct)
  case (2 i addr b bs d)
  show ?case
  proof (cases "b = addr")
    case True
    then have "bit (dr7 d') (i * 2)" using 2(2,3) by (auto simp: drx_enablebp_def bit_simps)
    then show ?thesis by (intro exI [of _ i]) simp
  next
    case False
    then obtain k where "Suc i \<le> k" "k < Suc i + length bs" "bit (dr7 d') (k * 2)" using 2 by auto
    then show ?thesis by (intro exI [of _ k]) simp
  qed
qed simp

section \<open>What is sent\<close>

definition dbg_ready :: "dbgstub \<Rightarrow> bool" where
  "dbg_ready s \<longleftrightarrow> tx_ready (dbg_port s) (dbg_hw s) \<and> dbg_port s \<noteq> 0x80"

abbreviation dbg_sent :: "dbgstub \<Rightarrow> u8 list" where
  "dbg_sent s \<equiv> sent (dbg_port s) (trace (dbg_hw s))"

definition checksum_of :: "u8 list \<Rightarrow> u8" where
  "checksum_of cs = sum_list cs"

definition dbg_packet :: "u8 list \<Rightarrow> u8 list" where
  "dbg_packet cs = 36 # cs @ [35, hex_low (drop_bit 4 (ucast (checksum_of cs))), hex_low (ucast (checksum_of cs))]"

lemma dbg_serial_send_ready:
  assumes "dbg_ready s"
  shows "\<exists>h. dbg_serial_send c s = Some (Inr (s\<lparr>dbg_hw := h\<rparr>)) \<and> sent (dbg_port s) (trace h) = dbg_sent s @ [c]
    \<and> dbg_ready (s\<lparr>dbg_hw := h\<rparr>)"
  using serial_send_ready [of "dbg_port s" "dbg_hw s" c] assms tx_ready_cong
  by (fastforce simp: dbg_serial_send_def dbg_ready_def)

text \<open>
  Storing a byte and sending it: the two halves of each step of \<open>dbgstub_send\<close>. Only the packet
  buffer and the machine change.
\<close>

lemma put_packet_ok:
  "i < length (dbgstub_packet_send_buffer s) \<Longrightarrow>
    put_packet i c s = Some (Inr (s\<lparr>dbgstub_packet_send_buffer := (dbgstub_packet_send_buffer s)[i := c]\<rparr>))"
  by (simp add: put_packet_def)

lemma dbg_ready_buffer [simp]: "dbg_ready (s\<lparr>dbgstub_packet_send_buffer := b\<rparr>) = dbg_ready s"
  by (simp add: dbg_ready_def)

lemma dbgstub_send_loop_own:
  assumes "dbg_ready s" "i + length (takeWhile (\<lambda>c. c \<noteq> 0) (drop j str)) \<le> length (dbgstub_packet_send_buffer s)"
  shows "\<exists>s'. dbgstub_send_loop (Own str) j i ck s
      = Some (Inr (i + length (takeWhile (\<lambda>c. c \<noteq> 0) (drop j str)), ck + checksum_of (takeWhile (\<lambda>c. c \<noteq> 0) (drop j str)), s'))
    \<and> dbg_sent s' = dbg_sent s @ takeWhile (\<lambda>c. c \<noteq> 0) (drop j str) \<and> dbg_ready s'
    \<and> length (dbgstub_packet_send_buffer s') = length (dbgstub_packet_send_buffer s) \<and> dbg_port s' = dbg_port s"
  using assms
proof (induction "length str - j" arbitrary: j i ck s)
  case 0
  then show ?case by (subst dbgstub_send_loop.simps) (simp add: src_at_def char_at_def checksum_of_def)
next
  case (Suc n)
  then have j: "j < length str" by simp
  have dr: "drop j str = str ! j # drop (Suc j) str" using j by (simp add: Cons_nth_drop_Suc)
  show ?case
  proof (cases "str ! j = 0")
    case True
    then show ?thesis using j Suc.prems(1)
      by (subst dbgstub_send_loop.simps) (simp add: src_at_def char_at_def checksum_of_def dr)
  next
    case False
    define t where "t = takeWhile (\<lambda>c. c \<noteq> 0) (drop (Suc j) str)"
    have tw: "takeWhile (\<lambda>c. c \<noteq> 0) (drop j str) = str ! j # t" using False by (simp add: dr t_def)
    have i: "i < length (dbgstub_packet_send_buffer s)" using Suc.prems(2) tw by simp
    let ?s1 = "s\<lparr>dbgstub_packet_send_buffer := (dbgstub_packet_send_buffer s)[i := str ! j]\<rparr>"
    obtain h where h: "dbg_serial_send (str ! j) ?s1 = Some (Inr (?s1\<lparr>dbg_hw := h\<rparr>))"
      "sent (dbg_port s) (trace h) = dbg_sent s @ [str ! j]" "dbg_ready (?s1\<lparr>dbg_hw := h\<rparr>)"
      using dbg_serial_send_ready [of ?s1 "str ! j"] Suc.prems(1) by auto
    have "n = length str - Suc j" "Suc i + length t \<le> length (dbgstub_packet_send_buffer (?s1\<lparr>dbg_hw := h\<rparr>))"
      using Suc.hyps(2) Suc.prems(2) tw by simp_all
    from Suc.hyps(1) [OF this(1) h(3), of "Suc i" "ck + str ! j"] this(2) obtain s' where s':
      "dbgstub_send_loop (Own str) (Suc j) (Suc i) (ck + str ! j) (?s1\<lparr>dbg_hw := h\<rparr>)
        = Some (Inr (Suc i + length t, ck + str ! j + checksum_of t, s'))"
      "dbg_sent s' = dbg_sent (?s1\<lparr>dbg_hw := h\<rparr>) @ t" "dbg_ready s'"
      "length (dbgstub_packet_send_buffer s') = length (dbgstub_packet_send_buffer s)" "dbg_port s' = dbg_port s"
      by (auto simp: t_def)
    have "dbgstub_send_loop (Own str) j i ck s = dbgstub_send_loop (Own str) (Suc j) (Suc i) (ck + str ! j) (?s1\<lparr>dbg_hw := h\<rparr>)"
      using False j i h(1) by (subst dbgstub_send_loop.simps) (simp add: src_at_def char_at_def put_packet_ok Let_def)
    then show ?thesis unfolding tw using s' h(2) by (simp add: checksum_of_def add.assoc)
  qed
qed

text \<open>One byte stored and sent, in either order.\<close>

definition dbg_grew :: "dbgstub \<Rightarrow> u8 list \<Rightarrow> dbgstub \<Rightarrow> bool" where
  "dbg_grew s cs s' \<longleftrightarrow> dbg_sent s' = dbg_sent s @ cs \<and> dbg_ready s' \<and> dbg_port s' = dbg_port s
    \<and> length (dbgstub_packet_send_buffer s') = length (dbgstub_packet_send_buffer s)"

lemma put_send_step:
  assumes "dbg_ready s" "i < length (dbgstub_packet_send_buffer s)"
  shows "\<exists>s'. (\<forall>f. kobind (put_packet i c s) (\<lambda>s1. kobind (dbg_serial_send c s1) f) = (f s' :: dbgstub kres option)) \<and> dbg_grew s [c] s'"
  using dbg_serial_send_ready [of "s\<lparr>dbgstub_packet_send_buffer := (dbgstub_packet_send_buffer s)[i := c]\<rparr>" c] assms
  by (auto simp: put_packet_ok dbg_grew_def)

lemma send_put_step:
  assumes "dbg_ready s" "i < length (dbgstub_packet_send_buffer s)"
  shows "\<exists>s'. (\<forall>f. kobind (dbg_serial_send c s) (\<lambda>s1. kobind (put_packet i c s1) f) = (f s' :: dbgstub kres option)) \<and> dbg_grew s [c] s'"
proof -
  obtain h where h: "dbg_serial_send c s = Some (Inr (s\<lparr>dbg_hw := h\<rparr>))" "sent (dbg_port s) (trace h) = dbg_sent s @ [c]"
    "dbg_ready (s\<lparr>dbg_hw := h\<rparr>)" using dbg_serial_send_ready [OF assms(1)] by blast
  let ?s = "s\<lparr>dbg_hw := h, dbgstub_packet_send_buffer := (dbgstub_packet_send_buffer s)[i := c]\<rparr>"
  have "kobind (dbg_serial_send c s) (\<lambda>s1. kobind (put_packet i c s1) f) = f ?s" for f :: "dbgstub \<Rightarrow> dbgstub kres option"
    using h(1) assms(2) by (simp add: put_packet_ok)
  moreover have "dbg_grew s [c] ?s" using h dbg_ready_buffer [where s = "s\<lparr>dbg_hw := h\<rparr>"] by (simp add: dbg_grew_def)
  ultimately show ?thesis by blast
qed

lemma dbg_grew_trans: "dbg_grew s cs s1 \<Longrightarrow> dbg_grew s1 ds s2 \<Longrightarrow> dbg_grew s (cs @ ds) s2"
  by (auto simp: dbg_grew_def)

lemma dbg_grew_facts:
  "dbg_grew s cs s' \<Longrightarrow> dbg_ready s'" "dbg_grew s cs s' \<Longrightarrow> length (dbgstub_packet_send_buffer s') = length (dbgstub_packet_send_buffer s)"
  by (simp_all add: dbg_grew_def)

lemma dbgstub_send_own:
  assumes "dbg_ready s" and "length (takeWhile (\<lambda>c. c \<noteq> 0) str) + 5 \<le> length (dbgstub_packet_send_buffer s)"
  shows "\<exists>s'. dbgstub_send (Own str) s = Some (Inr s') \<and> dbg_grew s (dbg_packet (takeWhile (\<lambda>c. c \<noteq> 0) str)) s'"
proof -
  define t where "t = takeWhile (\<lambda>c. c \<noteq> 0) str"
  let ?n = "length (dbgstub_packet_send_buffer s)"
  let ?hi = "hex_low (drop_bit 4 (ucast (checksum_of t)))" and ?lo = "hex_low (ucast (checksum_of t))"
  have n: "length t + 5 \<le> ?n" using assms(2) by (simp add: t_def)
  obtain s2 where s2: "\<forall>f. kobind (put_packet 0 36 s) (\<lambda>s1. kobind (dbg_serial_send 36 s1) f) = (f s2 :: dbgstub kres option)"
    "dbg_grew s [36] s2" using put_send_step [OF assms(1), of 0 36] n by (metis add_is_0 gr0I le_zero_eq zero_neq_numeral)
  obtain s3 where s3: "dbgstub_send_loop (Own str) 0 1 0 s2 = Some (Inr (1 + length t, checksum_of t, s3))" "dbg_grew s2 t s3"
    using dbgstub_send_loop_own [where s = s2 and i = 1 and j = 0 and str = str and ck = 0] dbg_grew_facts [OF s2(2)] n by (auto simp: dbg_grew_def t_def)
  obtain s5 where s5: "\<forall>f. kobind (dbg_serial_send 35 s3) (\<lambda>s4. kobind (put_packet (1 + length t) 35 s4) f) = (f s5 :: dbgstub kres option)"
    "dbg_grew s3 [35] s5"
    using send_put_step [of s3 "1 + length t" 35] dbg_grew_facts [OF s3(2)] dbg_grew_facts [OF s2(2)] n by auto
  have l5: "dbg_ready s5" "length (dbgstub_packet_send_buffer s5) = ?n"
    using dbg_grew_facts [OF s5(2)] dbg_grew_facts [OF s3(2)] dbg_grew_facts [OF s2(2)] by simp_all
  obtain s7 where s7: "\<forall>f. kobind (put_packet (1 + length t + 1) ?hi s5) (\<lambda>s6. kobind (dbg_serial_send ?hi s6) f) = (f s7 :: dbgstub kres option)"
    "dbg_grew s5 [?hi] s7" using put_send_step [OF l5(1), of "1 + length t + 1" ?hi] l5(2) n by auto
  obtain s9 where s9: "\<forall>f. kobind (put_packet (1 + length t + 2) ?lo s7) (\<lambda>s8. kobind (dbg_serial_send ?lo s8) f) = (f s9 :: dbgstub kres option)"
    "dbg_grew s7 [?lo] s9"
    using put_send_step [of s7 "1 + length t + 2" ?lo] dbg_grew_facts [OF s7(2)] l5(2) n by auto
  let ?s = "s9\<lparr>dbgstub_packet_send_buffer := (dbgstub_packet_send_buffer s9)[1 + length t + 3 := 0]\<rparr>"
  have "1 + length t + 3 < length (dbgstub_packet_send_buffer s9)"
    using dbg_grew_facts [OF s9(2)] dbg_grew_facts [OF s7(2)] l5(2) n by simp
  then have "dbgstub_send (Own str) s = Some (Inr ?s)"
    unfolding dbgstub_send_def s2(1) [rule_format] s3(1) kobind_simps prod.case s5(1) [rule_format] Let_def
      s7(1) [rule_format] s9(1) [rule_format] by (rule put_packet_ok)
  moreover have "dbg_grew s (dbg_packet t) ?s"
    using dbg_grew_trans [OF dbg_grew_trans [OF dbg_grew_trans [OF dbg_grew_trans [OF s2(2) s3(2)] s5(2)] s7(2)] s9(2)]
    by (auto simp: dbg_grew_def dbg_packet_def)
  ultimately show ?thesis by (auto simp: t_def)
qed

section \<open>A packet sent is a packet accepted\<close>

lemma sum_to_hash_packet:
  "35 \<notin> set cs \<Longrightarrow> sum_to_hash (cs @ 35 # rest) acc i = Some (acc + checksum_of cs, i + length cs)"
  by (induction cs arbitrary: acc i) (auto simp: checksum_of_def add.assoc)

lemma nibble_less: "unat (d AND 0xF) < 16" for d :: u64
proof -
  have "d AND 0xF \<le> 0xF" by (rule word_and_le1)
  then show ?thesis by (simp add: word_le_nat_alt)
qed

lemma hex_low_digit: "digit_of (hex_low d) = Some (int (unat (d AND 0xF)))" "hex_low d \<noteq> 0" "hex_low d \<noteq> 45" "hex_low d \<noteq> 43"
proof -
  have "unat (d AND 0xF) \<in> {0, 1, 2, 3, 4, 5, 6, 7, 8, 9, 10, 11, 12, 13, 14, 15}"
    using nibble_less [of d] by (simp only: insert_iff empty_iff) presburger
  then have "digit_of (hex_low d) = Some (int (unat (d AND 0xF))) \<and> hex_low d \<noteq> 0 \<and> hex_low d \<noteq> 45 \<and> hex_low d \<noteq> 43"
    unfolding hex_low_def by (elim insertE emptyE; simp add: bytes_of_def digit_of_def)
  then show "digit_of (hex_low d) = Some (int (unat (d AND 0xF)))" "hex_low d \<noteq> 0" "hex_low d \<noteq> 45" "hex_low d \<noteq> 43" by auto
qed

lemma strto_loop_hex_low: "strto_loop (hex_low d # cs) 16 v = strto_loop cs 16 (v * 16 + (d AND 0xF))"
proof -
  have "int (unat (d AND 0xF)) < 16" using nibble_less [of d] by linarith
  then show ?thesis using hex_low_digit(1,2) [of d] by simp
qed

lemma nibble_take_bit: "v AND 0xF = take_bit 4 v" for v :: u64
  by (simp add: take_bit_eq_mask mask_eq_exp_minus_1)

lemma nibble_split: "drop_bit 4 v * 16 + (v AND 0xF) = v" for v :: u64
  using bits_ident [of 4 v] by (simp add: nibble_take_bit push_bit_eq_mult)

lemma checksum_digits: "strtoll [hex_low (drop_bit 4 (ucast c)), hex_low (ucast c)] 16 = ucast (c :: u8)"
proof -
  have hi: "drop_bit 4 (ucast c) AND 0xF = (drop_bit 4 (ucast c) :: u64)"
    unfolding nibble_take_bit by (rule bit_word_eqI) (auto simp: bit_simps dest: bit_imp_le_length)
  have "strtoll [hex_low (drop_bit 4 (ucast c)), hex_low (ucast c)] 16
      = (drop_bit 4 (ucast c) AND 0xF) * 16 + ((ucast c :: u64) AND 0xF)"
    using hex_low_digit(3,4) [of "drop_bit 4 (ucast c)"]
    by (simp add: strtoll_def char_at_def detect_base_def strto_loop_hex_low Let_def del: strto_loop.simps(2))
  also have "\<dots> = ucast c" unfolding hi by (rule nibble_split)
  finally show ?thesis .
qed


section \<open>Registers there and back\<close>

lemma strto_loop_field: "strto_loop (hex_field n v @ rest) 16 0 = strto_loop rest 16 (take_bit (4 * n) v)"
proof (induction n arbitrary: v rest)
  case (Suc n)
  have "take_bit (4 * n) (drop_bit 4 v) * 16 + (v AND 0xF) = take_bit (4 * Suc n) v"
    using bits_ident [of 4 "take_bit (4 * Suc n) v"]
    by (simp add: nibble_take_bit push_bit_eq_mult drop_bit_take_bit)
  then show ?case using Suc.IH [of "drop_bit 4 v" "hex_low v # rest"]
    by (simp add: strto_loop_hex_low del: strto_loop.simps(2))
qed simp

lemma strtoull_field: "strtoull (hex_field n v) 16 = take_bit (4 * n) v"
  using strto_loop_field [of n v "[]"] by (simp add: strtoull_def detect_base_def)

lemma length_hex_field [simp]: "length (hex_field n v) = n"
  by (induction n arbitrary: v) simp_all

lemma bit_bswap64: "r < 8 \<Longrightarrow> k < 8 \<Longrightarrow> bit (bswap64 v) (8 * k + r) = bit v (8 * (7 - k) + r)"
proof -
  assume "r < 8" "k < 8"
  then consider "k = 0" | "k = 1" | "k = 2" | "k = 3" | "k = 4" | "k = 5" | "k = 6" | "k = 7" by linarith
  then show ?thesis using \<open>r < 8\<close> by cases (auto simp: bswap64_def bit_simps dest: bit_imp_le_length)
qed

lemma bswap64_involution: "bswap64 (bswap64 v) = v"
proof (rule bit_word_eqI)
  fix n assume "n < LENGTH(64)"
  then have n: "n = 8 * (n div 8) + n mod 8" "n mod 8 < 8" "n div 8 < 8" "7 - n div 8 < 8" by auto
  show "bit (bswap64 (bswap64 v)) n = bit v n"
    using bit_bswap64 [OF n(2,3), of "bswap64 v"] bit_bswap64 [OF n(2,4), of v] n(1,3) by simp
qed

lemma bit_bswap32: "r < 8 \<Longrightarrow> k < 4 \<Longrightarrow> bit (bswap32 v) (8 * k + r) = bit v (8 * (3 - k) + r)"
proof -
  assume "r < 8" "k < 4"
  then consider "k = 0" | "k = 1" | "k = 2" | "k = 3" by linarith
  then show ?thesis using \<open>r < 8\<close> by cases (auto simp: bswap32_def bit_simps)
qed

lemma bit_bswap32_high: "32 \<le> n \<Longrightarrow> \<not> bit (bswap32 v) n"
  by (auto simp: bswap32_def bit_simps)

lemma bswap32_involution: "bswap32 (bswap32 v) = take_bit 32 v"
proof (rule bit_word_eqI)
  fix n assume "n < LENGTH(64)"
  show "bit (bswap32 (bswap32 v)) n = bit (take_bit 32 v) n"
  proof (cases "n < 32")
    case True
    then have n: "n = 8 * (n div 8) + n mod 8" "n mod 8 < 8" "n div 8 < 4" "3 - n div 8 < 4" by auto
    show ?thesis
      using bit_bswap32 [OF n(2,3), of "bswap32 v"] bit_bswap32 [OF n(2,4), of v] n(1,3) True by (simp add: bit_take_bit_iff)
  next
    case False
    then show ?thesis by (simp add: bit_bswap32_high bit_take_bit_iff)
  qed
qed

lemma take_bit_bswap32: "take_bit 32 (bswap32 v) = bswap32 v"
  by (rule bit_word_eqI) (auto simp: bit_take_bit_iff bit_bswap32_high intro: ccontr)

lemma unpack_pack_16: "unpack_reg (pack_reg v 16 @ rest) 16 = v"
  by (simp add: unpack_reg_def pack_reg_def strtoull_field take_bit_word_eq_self bswap64_involution Let_def)

lemma unpack_pack_8: "unpack_reg (pack_reg v 8 @ rest) 8 = take_bit 32 v"
  by (simp add: unpack_reg_def pack_reg_def strtoull_field take_bit_bswap32 bswap32_involution Let_def)

lemma length_pack_reg [simp]: "length (pack_reg v w) = w"
  by (simp add: pack_reg_def)

text \<open>
  The registers the debugger is sent in answer to \<open>g\<close>, sent back with \<open>G\<close>, are the registers of
  the stopped program: the 64-bit ones unchanged, the three 32-bit fields to their low half.
\<close>

theorem unpack_pack_frame:
  "unpack_frame (pack_frame f @ rest) g =
     g\<lparr>if_rax := if_rax f, if_rbx := if_rbx f, if_rcx := if_rcx f, if_rdx := if_rdx f, if_rsi := if_rsi f,
       if_rdi := if_rdi f, if_rbp := if_rbp f, if_rsp := if_rsp f, if_r8 := if_r8 f, if_r9 := if_r9 f, if_r10 := if_r10 f,
       if_r11 := if_r11 f, if_r12 := if_r12 f, if_r13 := if_r13 f, if_r14 := if_r14 f, if_r15 := if_r15 f, if_ip := if_ip f,
       if_flags := take_bit 32 (if_flags f), if_cs := take_bit 32 (if_cs f), if_ss := take_bit 32 (if_ss f)\<rparr>"
  by (simp add: unpack_frame_def pack_frame_def Let_def unpack_pack_16 unpack_pack_8)

section \<open>Leaving the buffers\<close>

text \<open>
  A resend reads the packet from the buffer it is writing it to: the first byte stored, a dollar
  sign, is copied forward for ever.
\<close>

lemma resend_loop:
  assumes "dbg_ready s" "j < length (dbgstub_packet_send_buffer s)" "dbgstub_packet_send_buffer s ! j = 36"
  shows "dbgstub_send_loop Packet_buffer j (Suc j) ck s = out_of_bounds"
  using assms
proof (induction "length (dbgstub_packet_send_buffer s) - j" arbitrary: j ck s)
  case (Suc n)
  have b: "src_at Packet_buffer s j = 36" using Suc.prems(2,3) by (simp add: src_at_def char_at_def)
  show ?case
  proof (cases "Suc j < length (dbgstub_packet_send_buffer s)")
    case True
    let ?s = "s\<lparr>dbgstub_packet_send_buffer := (dbgstub_packet_send_buffer s)[Suc j := 36]\<rparr>"
    obtain h where h: "dbg_serial_send 36 ?s = Some (Inr (?s\<lparr>dbg_hw := h\<rparr>))" "dbg_ready (?s\<lparr>dbg_hw := h\<rparr>)"
      using dbg_serial_send_ready [of ?s 36] Suc.prems(1) by auto
    have "dbgstub_send_loop Packet_buffer (Suc j) (Suc (Suc j)) (ck + 36) (?s\<lparr>dbg_hw := h\<rparr>) = out_of_bounds"
      by (rule Suc.hyps(1)) (use Suc.hyps(2) True h(2) in auto)
    then show ?thesis using b h(1) True by (subst dbgstub_send_loop.simps) (simp add: put_packet_ok)
  next
    case False
    then show ?thesis using b by (subst dbgstub_send_loop.simps) (simp add: put_packet_def out_of_bounds_def)
  qed
qed simp

text \<open>
  A debugger that asks for the last packet again, outside of a packet, makes the stub write past
  the end of its packet buffer, whatever the buffer holds.
\<close>

theorem dbgstub_resend_overruns:
  assumes "dbg_ready s" and "0 < length (dbgstub_packet_send_buffer s)" and "\<not> dbgstub_middle_of_packet s"
    and "dbgstub_packet_buffer_index s \<noteq> DBGSTUB_PACKET_BUFFER_SIZE"
  shows "dbgstub_rx 45 frame s = out_of_bounds"
proof -
  let ?s = "s\<lparr>dbgstub_packet_send_buffer := (dbgstub_packet_send_buffer s)[0 := 36]\<rparr>"
  obtain h where h: "dbg_serial_send 36 ?s = Some (Inr (?s\<lparr>dbg_hw := h\<rparr>))" "dbg_ready (?s\<lparr>dbg_hw := h\<rparr>)"
    using dbg_serial_send_ready [of ?s 36] assms(1) by auto
  have "dbgstub_send_loop Packet_buffer 0 (Suc 0) 0 (?s\<lparr>dbg_hw := h\<rparr>) = out_of_bounds"
    by (rule resend_loop) (use h(2) assms(2) in auto)
  then have "dbgstub_send Packet_buffer s = out_of_bounds"
    using h(1) assms(2) by (simp add: dbgstub_send_def put_packet_ok)
  then show ?thesis using assms(3,4) by (simp add: dbgstub_rx_def out_of_bounds_def)
qed

text \<open>So does a read of more memory than the buffer has room for, when the memory can be read.\<close>

lemma read_memory_overruns:
  assumes "\<And>u a. fst (safe_read_byte (dbg_cell s) u a) \<noteq> 0xFFFF" "length (dbgstub_send_buffer s) < (k + n) * 2" "k * 2 \<le> length (dbgstub_send_buffer s)"
  shows "read_memory n addr k s = out_of_bounds"
  using assms
proof (induction n arbitrary: k s)
  case (Suc n)
  obtain byte u where r: "safe_read_byte (dbg_cell s) (dbg_mem s) (addr + of_nat k) = (byte, u)" by fastforce
  have byte: "byte \<noteq> 0xFFFF" using Suc.prems(1) [of "dbg_mem s" "addr + of_nat k"] r by simp
  show ?case
  proof (cases "k * 2 + 1 < length (dbgstub_send_buffer s)")
    case True
    then show ?thesis using r byte Suc.prems
      by (simp add: put_send_def) (rule Suc.IH; simp)
  next
    case False
    then show ?thesis using r byte by (simp add: put_send_def out_of_bounds_def)
  qed
qed simp

section \<open>Witnesses\<close>

definition demo_frame :: interrupt_frame where
  "demo_frame = \<lparr>if_r15 = 0, if_r14 = 0, if_r13 = 0, if_r12 = 0, if_r11 = 0, if_r10 = 0, if_r9 = 0, if_r8 = 0, if_rbp = 0,
     if_rdi = 0, if_rsi = 0, if_rdx = 0, if_rcx = 0, if_rbx = 0, if_rax = 0, if_vector = 3, if_error = 0, if_ip = 0x1000,
     if_cs = 8, if_flags = 0x202, if_rsp = 0x2000, if_ss = 0x10\<rparr>"

definition demo_dbg :: "u8 list \<Rightarrow> dbgstub" where
  "demo_dbg packet = \<lparr>dbg_port = 0x3F8, dbg_hw = demo_port, dbg_mem = demo_uspace, dbg_cell = 0, dbg_drx =
       \<lparr>hbreakpoints = [0, 0, 0, 0], dr_addr = [0, 0, 0, 0], dr6 = 0, dr7 = 0\<rparr>, dbg_irql = 0,
     dbgstub_send_buffer = replicate 4112 0, dbgstub_packet_send_buffer = replicate 4112 0,
     dbgstub_packet_recv_buffer = packet @ replicate 4096 0, dbgstub_packet_buffer_index = 0, last_frame = demo_frame,
     dbgstub_middle_of_packet = False, dbgstub_end_of_packet = False, dbgstub_end_of_packet_count = 0,
     dbg_paused = True, dbg_continue = False\<rparr>"

lemma demo_dbg_ready: "dbg_ready (demo_dbg packet)"
  by (simp add: dbg_ready_def demo_dbg_def tx_ready_def demo_port_def SERIAL_TX_EMPTY_BIT_def)


theorem dbgstub_resend_overruns_witness: "dbgstub_rx 45 demo_frame (demo_dbg []) = out_of_bounds"
  by (rule dbgstub_resend_overruns [OF demo_dbg_ready]) (simp_all add: demo_dbg_def DBGSTUB_PACKET_BUFFER_SIZE_def)

end
