(* ===== verification/Interrupts.thy ===== *)
theory Interrupts
  imports Scheduler Dbgstub
begin

text \<open>
  The state of the whole kernel and its interrupt entry: \<open>dispatch_interupt\<close> of
  \<open>interupts/interupts.c\<close> with every handler it calls, the serial interrupt
  (\<open>interupts/serial.c\<close>), and the character output of \<open>libc/stdio.c\<close> the handlers use. The parts
  modelled before keep their own records; this theory joins them and hands the shared pieces
  (processor level, kernel memory, machine trace) from one to the other around each call.
\<close>

section \<open>The kernel\<close>

text \<open>The functions the system call table holds.\<close>

datatype sys_fn = Sys_get_thread_id | Sys_setfsbase | Sys_print | Sys_mmap | Sys_open | Sys_read | Sys_seek | Sys_sleep_ms
  | Sys_do_hacky_stdin | Sys_exit | Sys_get_ms | Sys_pcspkr_play | Sys_pcspkr_stop | Sys_fb_map | Sys_fb_get_pitch
  | Sys_ps2_get_scancode

text \<open>
  \<open>kusr\<close> is memory by virtual address, as the running thread sees it. It holds the contents of
  buffers (user memory, heap blocks, the archive at \<open>karchive\<close>, the static \<open>line_buffer\<close>), while the
  structures of the allocators and the page tables are in the kernel memory of the platform.
\<close>

record kernel =
  kdev :: devices
  ksched :: sched
  kdbg :: dbgstub
  kusr :: uspace
  klabels :: safe_labels
  kcr2 :: u64
  gs_swapped :: bool
  stdio_spinlock :: spinlock_t
  karchive :: u64
  fb_address :: u64
  syscalls :: "sys_fn option list"
  line_buffer :: u64
  line_len :: nat

abbreviation kcr8 :: "kernel \<Rightarrow> int" where "kcr8 k \<equiv> cr8 (ksched k)"

definition set_cr8 :: "int \<Rightarrow> kernel \<Rightarrow> kernel" where
  "set_cr8 c k = k\<lparr>ksched := (ksched k)\<lparr>cr8 := c\<rparr>\<rparr>"

definition set_plat :: "platform \<Rightarrow> kernel \<Rightarrow> kernel" where
  "set_plat h k = k\<lparr>kdev := (kdev k)\<lparr>plat := h\<rparr>\<rparr>"

text \<open>
  A call into the scheduler or the debugger stub: they see the machine and the kernel memory
  the devices left, and leave theirs.
\<close>

definition in_sched :: "(sched \<Rightarrow> sched kres option) \<Rightarrow> kernel \<Rightarrow> kernel kres option" where
  "in_sched f k = kobind (f ((ksched k)\<lparr>km := pkm (plat (kdev k))\<rparr>)) (\<lambda>s.
     Some (Inr (set_plat ((plat (kdev k))\<lparr>pkm := km s\<rparr>) (k\<lparr>ksched := s\<rparr>))))"

definition dbg_enter :: "kernel \<Rightarrow> dbgstub" where
  "dbg_enter k = (kdbg k)\<lparr>dbg_port := serial_port (kdev k), dbg_hw := hw.truncate (plat (kdev k)), dbg_mem := kusr k, dbg_irql := kcr8 k\<rparr>"

definition dbg_leave :: "dbgstub \<Rightarrow> kernel \<Rightarrow> kernel" where
  "dbg_leave s k = set_cr8 (dbg_irql s) (set_plat ((plat (kdev k))\<lparr>trace := trace (dbg_hw s)\<rparr>)
     (k\<lparr>kdbg := s, kusr := dbg_mem s, ksched := (ksched k)\<lparr>dbgstub_paused := dbg_paused s\<rparr>\<rparr>))"

section \<open>Character output\<close>

text \<open>\<open>internal_putc\<close>; a panic ends the model, so \<open>panic_count\<close> is zero whenever this runs.\<close>

definition internal_putc :: "u8 \<Rightarrow> kernel \<Rightarrow> kernel kres option" where
  "internal_putc ch k =
     kobind (spinlock_lock (stdio_spinlock k) (kcr8 k)) (\<lambda>(lock1r, l, c).
       let k1 = k\<lparr>kdev := (kdev k)\<lparr>ft_out := ft_out (kdev k) @ [ch]\<rparr>\<rparr>
       in kobind (Some (spinlock_unlock l lock1r c)) (\<lambda>(l2, c2).
          let k2 = set_cr8 c2 (k1\<lparr>stdio_spinlock := l2\<rparr>);
              h = plat (kdev k2);
              h1 = (if cpu_feature_bit 1 0 CHR ''c'' 31 h then outb 0xE9 ch h else h)
          in if serial_works (kdev k2)
             then (case Option.bind (if ch = 10 then serial_send (serial_port (kdev k2)) 13 h1 else Some h1)
                          (serial_send (serial_port (kdev k2)) ch) of
                     None \<Rightarrow> None | Some h2 \<Rightarrow> Some (Inr (set_plat h2 k2)))
             else Some (Inr (set_plat h1 k2))))"

text \<open>\<open>printf\<close> of a text that is already formatted.\<close>

fun kputs :: "u8 list \<Rightarrow> kernel \<Rightarrow> kernel kres option" where
  "kputs [] k = Some (Inr k)"
| "kputs (c # cs) k = kobind (internal_putc c k) (kputs cs)"

section \<open>Handlers\<close>

partial_function (option) serial_isr :: "interrupt_frame \<Rightarrow> kernel \<Rightarrow> (interrupt_frame \<times> kernel) kres option" where
  "serial_isr frame k =
     (case serial_data_ready (serial_port (kdev k)) (plat (kdev k)) of (ready, h1) \<Rightarrow>
        if \<not> ready then Some (Inr (frame, set_plat h1 k))
        else (case serial_read (serial_port (kdev k)) h1 of (c, h2) \<Rightarrow>
          let k1 = set_plat h2 k
          in if dbgstub_enabled (ksched k1)
             then kobind (dbgstub_rx c frame (dbg_enter k1)) (\<lambda>r. serial_isr (fst r) (dbg_leave (snd r) k1))
             else if c \<noteq> 0 then serial_isr frame (k1\<lparr>kdev := serial_store c (kdev k1)\<rparr>)
             else serial_isr frame k1))"

definition spurious_isr :: "kernel \<Rightarrow> kernel" where
  "spurious_isr k = k"

definition ps2_handler :: "kernel \<Rightarrow> kernel kres option" where
  "ps2_handler k = (case ps2_isr (kdev k) of None \<Rightarrow> None | Some d \<Rightarrow> Some (Inr (k\<lparr>kdev := d\<rparr>)))"

text \<open>The timer's own part; the case then falls through into the one of the PS/2 controller.\<close>

definition timer_handler :: "kernel \<Rightarrow> kernel kres option" where
  "timer_handler k =
     kobind (Some (apic_timer_isr (plat (kdev k)))) (\<lambda>h1.
     kobind (Some (timer_get_ms h1)) (\<lambda>ms.
       kputs (if ms mod 500 < 250 then [27, 91, 63, 50, 53, 104] else [27, 91, 63, 50, 53, 108]) (set_plat h1 k)))"

definition dispatch_case :: "(nat \<Rightarrow> dbgstub \<Rightarrow> dbgstub) \<Rightarrow> interrupt_frame \<Rightarrow> kernel \<Rightarrow> (interrupt_frame \<times> kernel) kres option" where
  "dispatch_case env frame k =
     (let v = if_vector frame
      in if v = 0x03 \<or> v = 0x01
         then (if dbgstub_enabled (ksched k)
               then kobind (dbgstub_exception env frame (dbg_enter k)) (\<lambda>(nframe, s). Some (Inr (nframe, dbg_leave s k)))
               else Some (Inr (frame, k)))
         else if v = 0x08 then kobind (Some (double_fault_isr frame)) (\<lambda>f. Some (Inr (f, k)))
         else if v = 0x0D then kobind (Some (gp_fault_isr (klabels k) frame)) (\<lambda>f. Some (Inr (f, k)))
         else if v = 0x0E then kobind (Some (page_fault_isr (klabels k) (kcr2 k) frame)) (\<lambda>f. Some (Inr (f, k)))
         else if v = 0x20 then kobind (timer_handler k) (\<lambda>k1. kobind (ps2_handler k1) (\<lambda>k2. Some (Inr (frame, k2))))
         else if v = 0x2C \<or> v = 0x21 then kobind (ps2_handler k) (\<lambda>k1. Some (Inr (frame, k1)))
         else if v = 0xF0 then serial_isr frame k
         else if v = 0x24 then serial_isr frame k
         else if v = 0x27 \<or> v = 0x2F \<or> v = 0xFF then Some (Inr (frame, spurious_isr k))
         else kobind (Some (generic_isr frame)) (\<lambda>f. Some (Inr (f, k))))"

section \<open>Dispatch\<close>

definition user_entry :: "interrupt_frame \<Rightarrow> kernel \<Rightarrow> kernel" where
  "user_entry frame k =
     (if if_cs frame AND 0x3 \<noteq> 0
      then (let k1 = k\<lparr>kusr := rflags_clr_ac (kusr k)\<rparr>
            in if \<not> fred_enbled (ksched k1) then k1\<lparr>gs_swapped := \<not> gs_swapped k1\<rparr> else k1)
      else k)"

definition user_exit :: "interrupt_frame \<Rightarrow> kernel \<Rightarrow> kernel" where
  "user_exit frame k =
     (if if_cs frame AND 0x3 \<noteq> 0 \<and> \<not> fred_enbled (ksched k) then k\<lparr>gs_swapped := \<not> gs_swapped k\<rparr> else k)"

definition vector_irql :: "interrupt_frame \<Rightarrow> int" where
  "vector_irql frame = uint (drop_bit 4 (if_vector frame) AND 0xf)"

text \<open>
  What the environment contributes: the interrupts during a debugger stop, the clock the
  scheduler reads, what other threads do between a switch away and the switch back (none when
  the thread is never switched to again), and the value the local \<open>old_irql\<close> happens to hold when nothing has been assigned to it.
\<close>

record dispatch_env =
  dbg_events :: "nat \<Rightarrow> dbgstub \<Rightarrow> dbgstub"
  sched_clock :: "nat \<Rightarrow> u64"
  elsewhere :: "kernel \<Rightarrow> kernel option"
  stack_garbage :: int

definition kschedule :: "dispatch_env \<Rightarrow> kernel \<Rightarrow> kernel kres option" where
  "kschedule e k = kobind (in_sched (schedule (sched_clock e)) k) (\<lambda>k1. map_option Inr (elsewhere e k1))"

definition dispatch_preempt :: "dispatch_env \<Rightarrow> kernel \<Rightarrow> kernel kres option" where
  "dispatch_preempt e k =
     (if irq_should_preempt (plat (kdev k))
      then kschedule e (set_plat ((plat (kdev k))\<lparr>irq_should_preempt := False\<rparr>) k)
      else Some (Inr k))"

definition dispatch_interupt :: "dispatch_env \<Rightarrow> interrupt_frame \<Rightarrow> kernel \<Rightarrow> (interrupt_frame \<times> kernel) kres option" where
  "dispatch_interupt e frame k =
     (let k1 = user_entry frame k;
          new_irql = vector_irql frame
      in kobind (Some (if new_irql \<ge> IRQL_DISPATCH
                       then kbind (irql_raise new_irql (kcr8 k1)) (\<lambda>(old_irql, c).
                              kbind (send_eoi (ucast (if_vector frame - 0x20)) (plat (kdev k1))) (\<lambda>h.
                                Inr (old_irql, set_plat h (set_cr8 c k1))))
                       else Inr (stack_garbage e, k1))) (\<lambda>(old_irql, k2).
         kobind (dispatch_case (dbg_events e) frame (set_plat (emit Sti (plat (kdev k2))) k2)) (\<lambda>(frame1, k3).
         kobind (if new_irql \<le> IRQL_DISPATCH
                 then kobind (dispatch_preempt e k3) (\<lambda>k4.
                      kobind (Some (irql_lower old_irql (kcr8 k4))) (\<lambda>(_, c). Some (Inr (set_cr8 c k4))))
                 else Some (Inr k3)) (\<lambda>k5.
           Some (Inr (frame1, user_exit frame1 (set_plat (emit Cli (plat (kdev k5))) k5)))))))"

section \<open>Levels\<close>

named_theorems kernel_simps \<open>what the accessors of the joint state see\<close>

lemma set_cr8_sel [kernel_simps]: "kcr8 (set_cr8 c k) = c" "kdev (set_cr8 c k) = kdev k"
    "dbgstub_enabled (ksched (set_cr8 c k)) = dbgstub_enabled (ksched k)" "fred_enbled (ksched (set_cr8 c k)) = fred_enbled (ksched k)"
  by (simp_all add: set_cr8_def)

lemma set_plat_sel [kernel_simps]: "ksched (set_plat h k) = ksched k" "plat (kdev (set_plat h k)) = h"
  by (simp_all add: set_plat_def)

lemma user_entry_sel [kernel_simps]: "ksched (user_entry frame k) = ksched k" "kdev (user_entry frame k) = kdev k"
    "klabels (user_entry frame k) = klabels k" "kcr2 (user_entry frame k) = kcr2 k"
  by (simp_all add: user_entry_def Let_def)

lemma user_exit_sel [kernel_simps]: "ksched (user_exit frame k) = ksched k"
  by (simp add: user_exit_def)

lemma set_sel [kernel_simps]: "klabels (set_plat h k) = klabels k" "kcr2 (set_plat h k) = kcr2 k"
  "klabels (set_cr8 c k) = klabels k" "kcr2 (set_cr8 c k) = kcr2 k"
  by (simp_all add: set_plat_def set_cr8_def)

text \<open>
  C24: An interrupt of the device class (vectors 0x20 to 0x2F) that returns does so at the level it
  came in at, whatever its handler did and whether or not another thread ran in between.
\<close>

theorem dispatch_restores_level:
  assumes "vector_irql frame = IRQL_DISPATCH" and "dispatch_interupt e frame k = Some (Inr (frame', k'))"
  shows "kcr8 k' = kcr8 k"
proof -
  from assms obtain old k2 frame1 k3 k4 c x where
    raise: "kbind (irql_raise IRQL_DISPATCH (kcr8 k)) (\<lambda>(old_irql, c).
       kbind (send_eoi (ucast (if_vector frame - 0x20)) (plat (kdev k))) (\<lambda>h. Inr (old_irql, set_plat h (set_cr8 c (user_entry frame k))))) = Inr (old, k2)"
    and low: "irql_lower old (kcr8 k4) = Inr (x, c)"
    and k': "k' = user_exit frame1 (set_plat (emit Cli (plat (kdev (set_cr8 c k4)))) (set_cr8 c k4))"
    by (auto simp: dispatch_interupt_def Let_def kobind_eq_Inr kernel_simps split: prod.splits)
  have "old = kcr8 k" using raise by (auto simp: kres_simps irql_raise_eq split: if_splits)
  moreover have "c = old" using low by (auto simp: irql_lower_eq split: if_splits)
  ultimately show ?thesis using k' by (simp add: kernel_simps)
qed

lemma serial_isr_level:
  assumes "serial_isr frame k = Some (Inr (frame', k'))" "\<not> dbgstub_enabled (ksched k)"
  shows "kcr8 k' = kcr8 k"
proof -
  have "r = Inr (frame', k') \<Longrightarrow> \<not> dbgstub_enabled (ksched k) \<Longrightarrow> kcr8 k' = kcr8 k" if "serial_isr frame k = Some r" for r frame k
    using that
  proof (induction rule: serial_isr.raw_induct [rotated 1, consumes 1])
    case (1 isr frame k r)
    then show ?case
      by (auto simp: kernel_simps Let_def split: prod.splits if_splits)
  qed
  then show ?thesis using assms by blast
qed

lemma dispatch_case_level:
  assumes "dispatch_case env frame k = Some (Inr (frame', k'))" "\<not> dbgstub_enabled (ksched k)"
    and "if_vector frame \<noteq> 0x20" "if_vector frame \<noteq> 0x2C" "if_vector frame \<noteq> 0x21"
  shows "kcr8 k' = kcr8 k"
  using assms serial_isr_level [of frame k frame' k']
  by (auto simp: dispatch_case_def Let_def kobind_eq_Inr spurious_isr_def split: if_splits)

text \<open>
  An interrupt above the device class that returns leaves the processor at its own level: with
  the debugger off, after a spurious local interrupt or one of the high-priority serial line
  every attempt to take a spinlock panics.
\<close>

theorem dispatch_high_level_stays:
  assumes "IRQL_DISPATCH < vector_irql frame" and "\<not> dbgstub_enabled (ksched k)"
    and "dispatch_interupt e frame k = Some (Inr (frame', k'))"
  shows "kcr8 k' = vector_irql frame \<and> spinlock_lock l (kcr8 k') = Some (Inl (Panic ''irql raise to lower irql''))"
proof -
  have v: "if_vector frame \<noteq> 0x20" "if_vector frame \<noteq> 0x2C" "if_vector frame \<noteq> 0x21"
    using assms(1) by (auto simp: vector_irql_def IRQL_DISPATCH_def)
  from assms(1,3) obtain old k2 frame1 k3 where
    raise: "kbind (irql_raise (vector_irql frame) (kcr8 k)) (\<lambda>(old_irql, c).
       kbind (send_eoi (ucast (if_vector frame - 0x20)) (plat (kdev k))) (\<lambda>h. Inr (old_irql, set_plat h (set_cr8 c (user_entry frame k))))) = Inr (old, k2)"
    and body: "dispatch_case (dbg_events e) frame (set_plat (emit Sti (plat (kdev k2))) k2) = Some (Inr (frame1, k3))"
    and k': "k' = user_exit frame1 (set_plat (emit Cli (plat (kdev k3))) k3)"
    by (auto simp: dispatch_interupt_def Let_def kobind_eq_Inr kernel_simps split: prod.splits)
  have k2: "kcr8 k2 = vector_irql frame" "\<not> dbgstub_enabled (ksched k2)"
    using raise assms(2) by (auto simp: kres_simps irql_raise_eq kernel_simps split: if_splits)
  have "kcr8 k3 = vector_irql frame"
    using dispatch_case_level [OF body] k2 v by (simp add: kernel_simps)
  then have "kcr8 k' = vector_irql frame" using k' by (simp add: kernel_simps)
  then show ?thesis using assms(1) by (simp add: spinlock_lock_def irql_raise_eq)
qed

text \<open>
  A page fault that the kernel recovers from (in a safe copy) has no saved level: on the way out
  the processor is lowered to whatever the uninitialised local holds, or the kernel panics
  when that is above the current level.
\<close>

theorem dispatch_fault_level:
  assumes "if_vector frame = 0x0E" and "memcpy_start (klabels k) \<le> if_ip frame" and "if_ip frame < memcpy_end (klabels k)"
    and "\<not> irq_should_preempt (plat (kdev k))" and "if_cs frame AND 0x3 = 0"
  shows "if stack_garbage e > kcr8 k
    then dispatch_interupt e frame k = Some (Inl (Panic ''irql lower to higher irql''))
    else \<exists>k'. dispatch_interupt e frame k = Some (Inr (frame\<lparr>if_ip := memcpy_fail (klabels k)\<rparr>, k')) \<and> kcr8 k' = stack_garbage e"
proof -
  let ?k = "set_plat (emit Sti (plat (kdev k))) k" and ?f = "frame\<lparr>if_ip := memcpy_fail (klabels k)\<rparr>"
  have irql: "vector_irql frame = 0" using assms(1) by (simp add: vector_irql_def)
  have entry: "user_entry frame k = k" using assms(5) by (simp add: user_entry_def)
  have fault: "page_fault_isr (klabels k) (kcr2 k) frame = Inr ?f"
    using assms(2,3) by (simp add: page_fault_isr_def fault_handle_safe_funcs_def)
  have body: "dispatch_case (dbg_events e) frame ?k = Some (Inr (?f, ?k))"
    using assms(1) fault by (simp add: dispatch_case_def kernel_simps)
  have pre: "dispatch_preempt e ?k = Some (Inr ?k)"
    using assms(4) by (simp add: dispatch_preempt_def kernel_simps emit_def)
  show ?thesis
    by (auto simp: dispatch_interupt_def Let_def irql entry body pre IRQL_DISPATCH_def irql_lower_eq kernel_simps)
qed

section \<open>Witnesses\<close>

definition demo_labels :: safe_labels where
  "demo_labels = \<lparr>memcpy_start = 0x100, memcpy_end = 0x110, memcpy_fail = 0x120, strlen_start = 0x200, strlen_end = 0x210, strlen_fail = 0x220\<rparr>"

definition demo_kernel :: kernel where
  "demo_kernel = \<lparr>kdev = demo_devices, ksched = demo_sched 0 0, kdbg = demo_dbg [], kusr = demo_uspace, klabels = demo_labels, kcr2 = 0,
     gs_swapped = False, stdio_spinlock = spinlock_init, karchive = 0, fb_address = 0xFFFF8000A0000000,
     syscalls = replicate 256 None, line_buffer = 0xFFFFFFFF80500000, line_len = 0\<rparr>"

definition demo_env :: dispatch_env where
  "demo_env = \<lparr>dbg_events = (\<lambda>_ s. s), sched_clock = (\<lambda>_. 0), elsewhere = Some, stack_garbage = 7\<rparr>"

lemma spurious_dispatch:
  assumes "v = 0x27 \<or> v = 0xFF"
  shows "\<exists>k'. dispatch_interupt demo_env (demo_frame\<lparr>if_vector := v\<rparr>) demo_kernel = Some (Inr (demo_frame\<lparr>if_vector := v\<rparr>, k'))"
  using assms
  by (elim disjE) (simp_all add: dispatch_interupt_def Let_def user_entry_def demo_frame_def vector_irql_def IRQL_DISPATCH_def
      irql_raise_eq irql_lower_eq demo_kernel_def demo_sched_def demo_devices_def demo_platform_def send_eoi_def
      x2apic_send_eoi_def wrmsr_def emit_def dispatch_case_def spurious_isr_def dispatch_preempt_def set_plat_def set_cr8_def)

theorem dispatch_restores_level_witness:
  "\<exists>k'. dispatch_interupt demo_env (demo_frame\<lparr>if_vector := 0x27\<rparr>) demo_kernel = Some (Inr (demo_frame\<lparr>if_vector := 0x27\<rparr>, k'))
     \<and> kcr8 k' = kcr8 demo_kernel"
proof -
  have "vector_irql (demo_frame\<lparr>if_vector := 0x27\<rparr>) = IRQL_DISPATCH" by (simp add: vector_irql_def IRQL_DISPATCH_def)
  then show ?thesis using spurious_dispatch [of "0x27"] dispatch_restores_level by blast
qed

theorem dispatch_high_level_stays_witness:
  "\<exists>k'. dispatch_interupt demo_env (demo_frame\<lparr>if_vector := 0xFF\<rparr>) demo_kernel = Some (Inr (demo_frame\<lparr>if_vector := 0xFF\<rparr>, k'))
     \<and> kcr8 k' = 15 \<and> spinlock_lock spinlock_init (kcr8 k') = Some (Inl (Panic ''irql raise to lower irql''))"
proof -
  have v: "vector_irql (demo_frame\<lparr>if_vector := 0xFF\<rparr>) = 15" by (simp add: vector_irql_def)
  then have "IRQL_DISPATCH < vector_irql (demo_frame\<lparr>if_vector := 0xFF\<rparr>)" by (simp add: IRQL_DISPATCH_def)
  moreover have "\<not> dbgstub_enabled (ksched demo_kernel)" by (simp add: demo_kernel_def demo_sched_def)
  ultimately show ?thesis using spurious_dispatch [of "0xFF"] dispatch_high_level_stays v by metis
qed

theorem dispatch_fault_level_witness:
  "dispatch_interupt demo_env (demo_frame\<lparr>if_vector := 0x0E, if_ip := 0x108\<rparr>) demo_kernel = Some (Inl (Panic ''irql lower to higher irql''))"
  using dispatch_fault_level [of "demo_frame\<lparr>if_vector := 0x0E, if_ip := 0x108\<rparr>" demo_kernel demo_env]
  by (simp add: demo_frame_def demo_kernel_def demo_labels_def demo_devices_def demo_platform_def demo_env_def demo_sched_def)

end
