(* ===== verification/Syscalls.thy ===== *)
theory Syscalls
  imports Interrupts
begin

text \<open>
  The system calls: the table and its dispatcher (\<open>syscalls/syscalls.c\<close>), every call behind it
  (\<open>syscalls/files\<close>, \<open>syscalls/memory\<close>, \<open>syscalls/misc\<close>, \<open>syscalls/arch86\<close>), and the entry that copies
  registers on processors with FRED (\<open>drivers/x86_64/fred/fred.c\<close>). A call that gives up the processor takes
  what happens meanwhile from the environment \<open>es\<close>, one for each time it does so. The
  theorems follow a file from its name in user memory to its bytes in the reader's buffer, and
  a line from the keyboard to the process; and they show how a long path leaves the kernel's
  stack buffer.
\<close>

section \<open>Frames and helpers\<close>

record syscall_frame =
  sf_r15 :: u64
  sf_r14 :: u64
  sf_r13 :: u64
  sf_r12 :: u64
  sf_r11 :: u64
  sf_r10 :: u64
  sf_r9 :: u64
  sf_r8 :: u64
  sf_rbp :: u64
  sf_rdi :: u64
  sf_rsi :: u64
  sf_rdx :: u64
  sf_rcx :: u64
  sf_rbx :: u64
  sf_rax :: u64

type_synonym sys_result = "(syscall_frame \<times> kernel) kres option"

definition sys_return :: "u64 \<Rightarrow> syscall_frame \<Rightarrow> kernel \<Rightarrow> sys_result" where
  "sys_return v frame k = Some (Inr (frame\<lparr>sf_rax := v\<rparr>, k))"

definition set_kmem :: "kmemory \<Rightarrow> kernel \<Rightarrow> kernel" where
  "set_kmem m k = set_plat ((plat (kdev k))\<lparr>pkm := m\<rparr>) k"

definition kalloc :: "u64 \<Rightarrow> kernel \<Rightarrow> (u64 \<times> kernel) kres option" where
  "kalloc sz k = kobind (malloc sz (pkm (plat (kdev k)))) (\<lambda>(p, m). Some (Inr (p, set_kmem m k)))"

definition krelease :: "u64 \<Rightarrow> kernel \<Rightarrow> kernel kres option" where
  "krelease p k = kobind (Some (free p (pkm (plat (kdev k))))) (\<lambda>m. Some (Inr (set_kmem m k)))"

text \<open>\<open>get_current_thread\<close>, through the scheduler's lock.\<close>

definition current :: "kernel \<Rightarrow> (u64 \<times> kernel) kres option" where
  "current k = kobind (get_current_thread (ksched k)) (\<lambda>(t, s). Some (Inr (t, k\<lparr>ksched := s\<rparr>)))"

definition set_thread :: "u64 \<Rightarrow> (thread \<Rightarrow> thread) \<Rightarrow> kernel \<Rightarrow> kernel" where
  "set_thread t f k = k\<lparr>ksched := upd_thread t f (ksched k)\<rparr>"

definition set_fd :: "u64 \<Rightarrow> nat \<Rightarrow> (fd \<Rightarrow> fd) \<Rightarrow> kernel \<Rightarrow> kernel" where
  "set_fd t i f = set_thread t (fds_update (\<lambda>xs. xs[i := f (xs ! i)]))"

text \<open>Storing bytes at an address, and the C string at one.\<close>

fun poke_bytes :: "mem \<Rightarrow> u64 \<Rightarrow> u8 list \<Rightarrow> mem" where
  "poke_bytes m p [] = m"
| "poke_bytes m p (b # bs) = poke_bytes (m(p := b)) (p + 1) bs"

definition kstring_at :: "u64 \<Rightarrow> kernel \<Rightarrow> u8 list kres option" where
  "kstring_at p k = map_option Inr (cstring (ubytes (kusr k)) p)"

definition user_strlen :: "u64 \<Rightarrow> kernel \<Rightarrow> int \<times> kernel" where
  "user_strlen p k = (case strlen_user (kusr k) p of (n, u) \<Rightarrow> (n, k\<lparr>kusr := u\<rparr>))"

definition from_user :: "u64 \<Rightarrow> u64 \<Rightarrow> u64 \<Rightarrow> kernel \<Rightarrow> int \<times> kernel" where
  "from_user dst src len k = (case copy_from_user (kusr k) dst src len of (r, u) \<Rightarrow> (r, k\<lparr>kusr := u\<rparr>))"

definition to_user :: "u64 \<Rightarrow> u64 \<Rightarrow> u64 \<Rightarrow> kernel \<Rightarrow> int \<times> kernel" where
  "to_user dst src len k = (case copy_to_user (kusr k) dst src len of (r, u) \<Rightarrow> (r, k\<lparr>kusr := u\<rparr>))"

text \<open>The call through a file's \<open>read\<close> pointer; \<open>None\<close> is a read that does not end.\<close>

definition call_read :: "fops \<Rightarrow> path \<Rightarrow> u8 list \<Rightarrow> int \<Rightarrow> kernel option \<Rightarrow> int \<times> u8 list \<times> kernel option" where
  "call_read f p buf len ko = (case ko of None \<Rightarrow> (0, buf, None) | Some k \<Rightarrow> (case f of
       Tar_ops \<Rightarrow> (case tarfsRead (ubytes (kusr k)) (karchive k) p buf len of None \<Rightarrow> (0, buf, None) | Some (r, b) \<Rightarrow> (r, b, Some k))
     | Kbd_ops \<Rightarrow> (case kbdDeviceRead buf len (kbd_dev (kdev k)) of (r, b, d) \<Rightarrow> (r, b, Some (k\<lparr>kdev := (kdev k)\<lparr>kbd_dev := d\<rparr>\<rparr>)))
     | Ps2_ops \<Rightarrow> (case ps2KbdDeviceRead buf len (ps2_dev (kdev k)) of (r, b, d) \<Rightarrow> (r, b, Some (k\<lparr>kdev := (kdev k)\<lparr>ps2_dev := d\<rparr>\<rparr>)))
     | Tty_ops \<Rightarrow> (case ttyDeviceRead buf len (kdev k) of (r, b, d) \<Rightarrow> (r, b, Some (k\<lparr>kdev := d\<rparr>)))
     | Serial_ops \<Rightarrow> (case serialDeviceRead buf len (kdev k) of (r, b, d) \<Rightarrow> (r, b, Some (k\<lparr>kdev := d\<rparr>)))))"

definition kfs_read :: "path \<Rightarrow> u8 list \<Rightarrow> int \<Rightarrow> kernel \<Rightarrow> (int \<times> u8 list \<times> kernel) kres option" where
  "kfs_read p buf len k =
     (case fs_read call_read (files (kdev k)) p buf len (Some k) of (r, b, ko) \<Rightarrow> map_option (\<lambda>k1. Inr (r, b, k1)) ko)"

text \<open>Reading a file into a heap block: the bytes of the block before, and after.\<close>

definition read_into :: "path \<Rightarrow> u64 \<Rightarrow> int \<Rightarrow> kernel \<Rightarrow> (int \<times> kernel) kres option" where
  "read_into p dst len k =
     kobind (kfs_read p (slice (ubytes (kusr k)) dst (nat len)) len k) (\<lambda>(r, b, k1).
       Some (Inr (r, k1\<lparr>kusr := (kusr k1)\<lparr>ubytes := poke_bytes (ubytes (kusr k1)) dst b\<rparr>\<rparr>)))"

section \<open>Processor, time and threads\<close>

definition sys_get_thread_id :: "syscall_frame \<Rightarrow> kernel \<Rightarrow> sys_result" where
  "sys_get_thread_id frame k = kobind (current k) (\<lambda>(t, k1). sys_return (threadId (thr (ksched k1) t)) frame k1)"

definition sys_setfsbase :: "syscall_frame \<Rightarrow> kernel \<Rightarrow> sys_result" where
  "sys_setfsbase frame k =
     (if sf_rbx frame \<le> 0x00007FFFFFFFFFFF
      then sys_return 0 frame (k\<lparr>ksched := (ksched k)\<lparr>msr_fsbas := sf_rbx frame\<rparr>\<rparr>)
      else sys_return (- 1) frame k)"

definition sys_pcspkr_play :: "syscall_frame \<Rightarrow> kernel \<Rightarrow> sys_result" where
  "sys_pcspkr_play frame k = sys_return 0 frame (set_plat (play_sound (ucast (sf_rbx frame)) (plat (kdev k))) k)"

definition sys_pcspkr_stop :: "syscall_frame \<Rightarrow> kernel \<Rightarrow> sys_result" where
  "sys_pcspkr_stop frame k = sys_return 0 frame (set_plat (stop_sound (plat (kdev k))) k)"

text \<open>The byte is a \<open>char\<close>, which is signed.\<close>

definition sys_ps2_get_scancode :: "syscall_frame \<Rightarrow> kernel \<Rightarrow> sys_result" where
  "sys_ps2_get_scancode frame k =
     kobind (kfs_read (bytes_of ''/dev/ps2/kbd'') [0] 1 k) (\<lambda>(r, keyPressed, k1).
       if r = 0 then sys_return 0 frame k1 else sys_return (scast (hd keyPressed)) frame k1)"

definition sys_get_ms :: "syscall_frame \<Rightarrow> kernel \<Rightarrow> sys_result" where
  "sys_get_ms frame k = kobind (Some (timer_get_ms (plat (kdev k)))) (\<lambda>ms. sys_return ms frame k)"

text \<open>Putting the running thread to sleep for some milliseconds.\<close>

definition sleep_for :: "dispatch_env \<Rightarrow> u64 \<Rightarrow> kernel \<Rightarrow> kernel kres option" where
  "sleep_for e ms k =
     kobind (current k) (\<lambda>(t, k1).
     kobind (Some (timer_get_ms (plat (kdev k1)))) (\<lambda>now.
       kschedule e (set_thread t (sleep_awake_time_update (\<lambda>_. now + ms)) k1)))"

definition sys_sleep_ms :: "dispatch_env \<Rightarrow> syscall_frame \<Rightarrow> kernel \<Rightarrow> sys_result" where
  "sys_sleep_ms e frame k = kobind (sleep_for e (sf_rbx frame) k) (\<lambda>k1. Some (Inr (frame, k1)))"

text \<open>\<open>%ld\<close>\<close>

fun dec_digits :: "nat \<Rightarrow> u8 list" where
  "dec_digits n = (if n < 10 then [48 + of_nat n] else dec_digits (n div 10) @ [48 + of_nat (n mod 10)])"

declare dec_digits.simps [simp del]

definition dec_of :: "u64 \<Rightarrow> u8 list" where
  "dec_of v = (if sint v < 0 then 45 # dec_digits (nat (- sint v)) else dec_digits (nat (sint v)))"

definition sys_exit :: "dispatch_env \<Rightarrow> syscall_frame \<Rightarrow> kernel \<Rightarrow> sys_result" where
  "sys_exit e frame k =
     kobind (current k) (\<lambda>(t, k1).
     kobind (kputs (bytes_of ''Process '' @ dec_of (threadId (thr (ksched k1) t)) @ bytes_of '' is exiting'' @ [10]) k1) (\<lambda>k2.
     kobind (current k2) (\<lambda>(t2, k3).
     kobind (kschedule e (set_thread t2 (thread_state_update (\<lambda>_. THREAD_STATE_REAPING)) k3)) (\<lambda>k4.
       Some (Inl (Panic ''Thread in reaping process ran''))))))"

section \<open>Console\<close>

definition sys_print :: "syscall_frame \<Rightarrow> kernel \<Rightarrow> sys_result" where
  "sys_print frame k =
     (case user_strlen (sf_rbx frame) k of (len, k1) \<Rightarrow>
        if len < 0 then sys_return (- 1) frame k1
        else kobind (kalloc (of_int (len + 1)) k1) (\<lambda>(kstring, k2).
          if kstring = 0 then sys_return (- 1) frame k2
          else case from_user kstring (sf_rbx frame) (of_int (len + 1)) k2 of (r, k3) \<Rightarrow>
            if r \<noteq> 0 then kobind (krelease kstring k3) (sys_return (- 1) frame)
            else
              (let k4 = k3\<lparr>kusr := (kusr k3)\<lparr>ubytes := (ubytes (kusr k3))(kstring + of_int len := 0)\<rparr>\<rparr>
               in kobind (kstring_at kstring k4) (\<lambda>str.
                  kobind (kputs str k4) (\<lambda>k5.
                  kobind (krelease kstring k5) (sys_return 0 frame))))))"

definition LINE_BUF_SIZE :: nat where "LINE_BUF_SIZE = 256"

text \<open>\<open>line_buffer[line_len++] = c\<close>\<close>

definition store_line :: "u8 \<Rightarrow> kernel \<Rightarrow> kernel kres option" where
  "store_line c k =
     (if line_len k < LINE_BUF_SIZE
      then Some (Inr (k\<lparr>kusr := (kusr k)\<lparr>ubytes := (ubytes (kusr k))(line_buffer k + of_nat (line_len k) := c)\<rparr>,
                        line_len := line_len k + 1\<rparr>))
      else out_of_bounds)"

partial_function (option) stdin_loop :: "(nat \<Rightarrow> dispatch_env) \<Rightarrow> nat \<Rightarrow> kernel \<Rightarrow> kernel kres option" where
  "stdin_loop es n k =
     kobind (kfs_read (bytes_of ''/dev/kbd'') [0] 1 k) (\<lambda>x. case x of (_, keyPressed, k1) \<Rightarrow>
       if hd keyPressed = 0 then kobind (sleep_for (es n) 1 k1) (\<lambda>k2. stdin_loop es (Suc n) k2)
       else
         (let c = (if hd keyPressed = 13 then 10 else hd keyPressed)
          in if c = 10 then kobind (kputs [10] k1) (store_line 10)
             else if c = 8 \<or> c = 0x7F
             then (if 0 < line_len k1
                   then kobind (kputs [8, 32, 8] (k1\<lparr>line_len := line_len k1 - 1\<rparr>)) (\<lambda>k2. stdin_loop es n k2)
                   else stdin_loop es n k1)
             else if c < 0x20 \<or> c > 0x7E then stdin_loop es n k1
             else kobind (kputs [c] k1) (\<lambda>k2. kobind (store_line c k2) (\<lambda>k3.
                    if LINE_BUF_SIZE - 1 \<le> line_len k3 then kobind (store_line 10 k3) (kputs [10])
                    else stdin_loop es n k3))))"

definition sys_do_hacky_stdin :: "(nat \<Rightarrow> dispatch_env) \<Rightarrow> syscall_frame \<Rightarrow> kernel \<Rightarrow> sys_result" where
  "sys_do_hacky_stdin es frame k =
     kobind (stdin_loop es 0 k) (\<lambda>k1.
       let to_copy = (if of_nat (line_len k1) < sf_rdx frame then of_nat (line_len k1) else sf_rdx frame)
       in case to_user (sf_rbx frame) (line_buffer k1) to_copy k1 of (_, k2) \<Rightarrow>
            sys_return to_copy frame (k2\<lparr>line_len := 0\<rparr>))"

section \<open>Files\<close>

text \<open>The part of \<open>sys_open\<close> after the size is known.\<close>

definition open_file :: "u8 list \<Rightarrow> u64 \<Rightarrow> int \<Rightarrow> syscall_frame \<Rightarrow> kernel \<Rightarrow> sys_result" where
  "open_file name fileName sz frame k =
     kobind (current k) (\<lambda>(t0, k0).
       let fd = next_fd (thr (ksched k0) t0)
       in if 256 \<le> fd then kobind (krelease fileName k0) (sys_return (- 1) frame)
          else kobind (current k0) (\<lambda>(t, k1).
               kobind (kalloc (of_int sz) k1) (\<lambda>(d, k2).
                 let k3 = set_fd t (nat fd) (file_data_update (\<lambda>_. d)) k2
                 in if d = 0 then kobind (krelease fileName k3) (sys_return (- 1) frame)
                    else kobind (read_into name d sz k3) (\<lambda>(r, k4).
                      if r < 0
                      then kobind (krelease d k4) (\<lambda>k5. kobind (krelease fileName k5) (sys_return (- 1) frame))
                      else kobind (kalloc (of_nat (length name) + 1) (set_fd t (nat fd) (seek_pos_update (\<lambda>_. 0)) k4)) (\<lambda>(np, k5).
                        if np = 0
                        then kobind (krelease d (set_fd t (nat fd) (file_name_update (\<lambda>_. (0, []))) k5)) (\<lambda>k6.
                             kobind (krelease fileName k6) (sys_return (- 1) frame))
                        else kobind (current (set_fd t (nat fd) (file_name_update (\<lambda>_. (np, name))) k5)) (\<lambda>(t1, k6).
                             kobind (krelease fileName (set_thread t1 (next_fd_update (\<lambda>n. n + 1)) k6))
                               (sys_return (of_int fd) frame)))))))"

definition sys_open :: "syscall_frame \<Rightarrow> kernel \<Rightarrow> sys_result" where
  "sys_open frame k =
     (case user_strlen (sf_rbx frame) k of (fileNameLength, k1) \<Rightarrow>
        if fileNameLength = -1 then sys_return (- 1) frame k1
        else kobind (kalloc (of_int (fileNameLength + 1)) k1) (\<lambda>(fileName, k2).
          case from_user fileName (sf_rbx frame) (of_int (fileNameLength + 1)) k2 of (r, k3) \<Rightarrow>
            if r \<noteq> 0 then kobind (krelease fileName k3) (sys_return (- 1) frame)
            else kobind (kstring_at fileName k3) (\<lambda>name.
                 kobind (tarfsGetFize (ubytes (kusr k3)) (karchive k3) name) (\<lambda>sz.
                   if sz < 0 then kobind (krelease fileName k3) (sys_return (- 1) frame)
                   else open_file name fileName sz frame k3))))"

text \<open>The descriptor number is an index that nothing checks.\<close>

definition sys_read :: "syscall_frame \<Rightarrow> kernel \<Rightarrow> sys_result" where
  "sys_read frame k =
     kobind (current k) (\<lambda>(t, k1).
       let i = unat (sf_rbx frame); file = fds (thr (ksched k1) t) ! i
       in if length (fds (thr (ksched k1) t)) \<le> i then out_of_bounds
          else if fst (file_name file) = 0 then sys_return (- 1) frame k1
          else kobind (tarfsGetFize (ubytes (kusr k1)) (karchive k1) (snd (file_name file))) (\<lambda>sz.
            let size = of_int sz
            in if file_data file = 0 then sys_return (- 1) frame k1
               else if size \<le> seek_pos file then sys_return 0 frame k1
               else
                 (let max_bytes = size - seek_pos file;
                      bytes = (if max_bytes < sf_rdx frame then max_bytes else sf_rdx frame)
                  in case to_user (sf_rsi frame) (file_data file + seek_pos file) bytes k1 of (_, k2) \<Rightarrow>
                       kobind (current k2) (\<lambda>(t2, k3).
                         sys_return bytes frame (set_fd t2 i (\<lambda>_. file\<lparr>seek_pos := seek_pos file + bytes\<rparr>) k3)))))"

definition SEEK_SET :: int where "SEEK_SET = 0"
definition SEEK_CUR :: int where "SEEK_CUR = 1"
definition SEEK_END :: int where "SEEK_END = 2"

text \<open>
  The position is a \<open>long\<close>. From the current position it is computed without sign and
  wraps around; from the end it is a sum of signed numbers, and one that does not fit
  is caught by the sanitizer the kernel is built with (\<open>utils/ubsan.c\<close>).
\<close>

definition new_pos :: "int \<Rightarrow> u64 \<Rightarrow> int \<Rightarrow> u64 \<Rightarrow> int kres option" where
  "new_pos whence pos sz offset =
     (if whence = SEEK_SET then Some (Inr (sint offset))
      else if whence = SEEK_CUR then Some (Inr (sint (pos + offset)))
      else if whence = SEEK_END then Some (ubsan_add sz (sint offset))
      else None)"

definition sys_seek :: "syscall_frame \<Rightarrow> kernel \<Rightarrow> sys_result" where
  "sys_seek frame k =
     kobind (current k) (\<lambda>(t, k1).
       let i = unat (sf_rbx frame); file = fds (thr (ksched k1) t) ! i
       in if length (fds (thr (ksched k1) t)) \<le> i then out_of_bounds
          else if fst (file_name file) = 0 then sys_return (- 1) frame k1
          else kobind (tarfsGetFize (ubytes (kusr k1)) (karchive k1) (snd (file_name file))) (\<lambda>size.
            case new_pos (sint (ucast (sf_rsi frame) :: u32)) (seek_pos file) size (sf_rdx frame) of
              None \<Rightarrow> sys_return (- 1) frame k1
            | Some r \<Rightarrow> kobind (Some r) (\<lambda>p0.
                 let p1 = (if p0 < 0 then 0 else p0);
                     p = (if p1 > size then size else p1)
                 in kobind (current k1) (\<lambda>(t2, k2).
                      sys_return (of_int p) frame (set_fd t2 i (\<lambda>_. file\<lparr>seek_pos := of_int p\<rparr>) k2)))))"

section \<open>Memory\<close>

definition ksync :: "kernel \<Rightarrow> sched" where
  "ksync k = (ksched k)\<lparr>km := pkm (plat (kdev k))\<rparr>"

definition set_pagemap :: "u64 \<Rightarrow> pagemap \<Rightarrow> kernel \<Rightarrow> kernel" where
  "set_pagemap p pm k =
     (if p = sym_kernel_pagemap (syms (ksched k)) then set_kmem ((pkm (plat (kdev k)))\<lparr>kernel_pagemap := pm\<rparr>) k
      else k\<lparr>ksched := (ksched k)\<lparr>pmaps := (pmaps (ksched k))(p := pm)\<rparr>\<rparr>)"

definition kmap_page :: "u64 \<Rightarrow> u64 \<Rightarrow> u64 \<Rightarrow> u64 \<Rightarrow> kernel \<Rightarrow> kernel kres option" where
  "kmap_page pm va pa flags k =
     kobind (Some (vmm_map_page (top_level (pagemap_at (ksync k) pm)) va pa flags PAGE_SIZE (hpmm (kheap (pkm (plat (kdev k))))))) (\<lambda>s.
       Some (Inr (set_kmem (set_kpmm s (pkm (plat (kdev k)))) k)))"

primrec mmap_loop :: "nat \<Rightarrow> u64 \<Rightarrow> kernel \<Rightarrow> kernel kres option" where
  "mmap_loop 0 allocPos k = Some (Inr k)"
| "mmap_loop (Suc n) allocPos k =
     kobind (current k) (\<lambda>(t, k1).
     kobind (Some (allocate_page (hpmm (kheap (pkm (plat (kdev k1))))))) (\<lambda>(pa, s).
     kobind (kmap_page (th_pagemap (thr (ksched k1) t)) allocPos pa (PTE_PRESENT OR PTE_USER OR PTE_WRITABLE OR PTE_NX)
              (set_kmem (set_kpmm s (pkm (plat (kdev k1)))) k1)) (\<lambda>k2.
       mmap_loop n (allocPos + PAGE_SIZE) k2)))"

definition sys_mmap :: "syscall_frame \<Rightarrow> kernel \<Rightarrow> sys_result" where
  "sys_mmap frame k =
     kobind (current k) (\<lambda>(t, k1).
       let pm = th_pagemap (thr (ksched k1) t)
       in case valloc (pagemap_at (ksync k1) pm) (sf_rbx frame) of (allocPos, m) \<Rightarrow>
            let heapPages = (ucast (ALIGN_UP (sf_rbx frame) PAGE_SIZE div PAGE_SIZE) :: u32)
            in kobind (mmap_loop (unat heapPages) allocPos (set_pagemap pm m k1)) (sys_return allocPos frame))"

primrec fb_loop :: "nat \<Rightarrow> u64 \<Rightarrow> u64 \<Rightarrow> kernel \<Rightarrow> kernel kres option" where
  "fb_loop 0 virt_addr phys_addr k = Some (Inr k)"
| "fb_loop (Suc n) virt_addr phys_addr k =
     (let flags = (if \<not> cpu_feature_bit 1 0 CHR ''c'' 31 (plat (kdev k))
                   then PTE_PRESENT OR PTE_USER OR PTE_WRITABLE OR PTE_PCD OR PTE_PAT
                   else PTE_PRESENT OR PTE_USER OR PTE_WRITABLE)
      in kobind (current k) (\<lambda>(t, k1).
         kobind (kmap_page (th_pagemap (thr (ksched k1) t)) virt_addr phys_addr flags k1) (\<lambda>k2.
           fb_loop n (virt_addr + 0x1000) (phys_addr + 0x1000) k2)))"

definition sys_fb_map :: "syscall_frame \<Rightarrow> kernel \<Rightarrow> sys_result" where
  "sys_fb_map frame k =
     (let f = screen (mouse_dev (kdev k));
          total_bytes = (ucast (fb_pitch f * of_int (FB_HEIGHT f)) :: u32);
          pages = (ucast ((total_bytes + 0x1000 - 1) div 0x1000) :: u16);
          phys_addr = fb_address k - hhdmOffset (hpmm (kheap (pkm (plat (kdev k)))))
      in kobind (fb_loop (unat pages) 0xA0000000 phys_addr k) (sys_return 0 frame))"

definition sys_fb_get_pitch :: "syscall_frame \<Rightarrow> kernel \<Rightarrow> sys_result" where
  "sys_fb_get_pitch frame k = sys_return (fb_pitch (screen (mouse_dev (kdev k)))) frame k"

section \<open>The table\<close>

definition SYSCALL_NUMBERS :: "(nat \<times> sys_fn) list" where
  "SYSCALL_NUMBERS = [(0, Sys_get_thread_id), (2, Sys_setfsbase), (1, Sys_print), (3, Sys_mmap), (4, Sys_open), (5, Sys_read),
     (6, Sys_seek), (7, Sys_sleep_ms), (9, Sys_do_hacky_stdin), (8, Sys_exit), (22, Sys_get_ms), (10, Sys_pcspkr_play),
     (11, Sys_pcspkr_stop), (30, Sys_fb_map), (31, Sys_fb_get_pitch), (40, Sys_ps2_get_scancode)]"

definition MAX_SYSCALLS :: u64 where "MAX_SYSCALLS = 256"

definition init_syscall :: "u64 \<Rightarrow> kernel \<Rightarrow> kernel kres option" where
  "init_syscall syscall_handler k =
     (case rdmsr 0xC0000080 (plat (kdev k)) of (efer, h) \<Rightarrow>
        let star = push_bit 48 (0x18 OR 3) OR push_bit 32 0x08;
            h1 = wrmsr 0xC0000084 0xED5 (wrmsr 0xC0000082 syscall_handler (wrmsr 0xC0000081 star (wrmsr 0xC0000080 (efer OR 1) h)));
            k1 = set_plat h1 k
        in kputs (bytes_of ''SYSCALL: Syscalls setup'' @ [10])
             (k1\<lparr>syscalls := fold (\<lambda>(i, f) xs. xs[i := Some f]) SYSCALL_NUMBERS (syscalls k1)\<rparr>))"

definition call_syscall :: "sys_fn \<Rightarrow> (nat \<Rightarrow> dispatch_env) \<Rightarrow> syscall_frame \<Rightarrow> kernel \<Rightarrow> sys_result" where
  "call_syscall f es = (case f of
       Sys_get_thread_id \<Rightarrow> sys_get_thread_id
     | Sys_setfsbase \<Rightarrow> sys_setfsbase
     | Sys_print \<Rightarrow> sys_print
     | Sys_mmap \<Rightarrow> sys_mmap
     | Sys_open \<Rightarrow> sys_open
     | Sys_read \<Rightarrow> sys_read
     | Sys_seek \<Rightarrow> sys_seek
     | Sys_sleep_ms \<Rightarrow> sys_sleep_ms (es 0)
     | Sys_do_hacky_stdin \<Rightarrow> sys_do_hacky_stdin es
     | Sys_exit \<Rightarrow> sys_exit (es 0)
     | Sys_get_ms \<Rightarrow> sys_get_ms
     | Sys_pcspkr_play \<Rightarrow> sys_pcspkr_play
     | Sys_pcspkr_stop \<Rightarrow> sys_pcspkr_stop
     | Sys_fb_map \<Rightarrow> sys_fb_map
     | Sys_fb_get_pitch \<Rightarrow> sys_fb_get_pitch
     | Sys_ps2_get_scancode \<Rightarrow> sys_ps2_get_scancode)"

definition execute_syscall :: "(nat \<Rightarrow> dispatch_env) \<Rightarrow> syscall_frame \<Rightarrow> kernel \<Rightarrow> sys_result" where
  "execute_syscall es frame k =
     (let k1 = k\<lparr>kusr := rflags_clr_ac (kusr k)\<rparr>
      in if sf_rax frame < MAX_SYSCALLS
         then (case syscalls k1 ! unat (sf_rax frame) of
                 None \<Rightarrow> sys_return (- 1) frame k1
               | Some f \<Rightarrow> call_syscall f es frame k1)
         else sys_return (- 1) frame k1)"

section \<open>FRED\<close>

record fred_frame =
  ff_r15 :: u64
  ff_r14 :: u64
  ff_r13 :: u64
  ff_r12 :: u64
  ff_r11 :: u64
  ff_r10 :: u64
  ff_r9 :: u64
  ff_r8 :: u64
  ff_rbp :: u64
  ff_rdi :: u64
  ff_rsi :: u64
  ff_rdx :: u64
  ff_rcx :: u64
  ff_rbx :: u64
  ff_rax :: u64
  ff_error :: u64
  ff_ip :: u64
  ff_cs :: u64
  ff_flags :: u64
  ff_rsp :: u64
  ff_ss :: u64
  fred_event_data :: u64
  fred_reserved :: u64

definition to_sysframe :: "fred_frame \<Rightarrow> syscall_frame" where
  "to_sysframe f = \<lparr>sf_r15 = ff_r15 f, sf_r14 = ff_r14 f, sf_r13 = ff_r13 f, sf_r12 = ff_r12 f, sf_r11 = ff_r11 f,
     sf_r10 = ff_r10 f, sf_r9 = ff_r9 f, sf_r8 = ff_r8 f, sf_rbp = ff_rbp f, sf_rdi = ff_rdi f, sf_rsi = ff_rsi f,
     sf_rdx = ff_rdx f, sf_rcx = ff_rcx f, sf_rbx = ff_rbx f, sf_rax = ff_rax f\<rparr>"

definition from_sysframe :: "syscall_frame \<Rightarrow> fred_frame \<Rightarrow> fred_frame" where
  "from_sysframe s f = f\<lparr>ff_r15 := sf_r15 s, ff_r14 := sf_r14 s, ff_r13 := sf_r13 s, ff_r12 := sf_r12 s, ff_r11 := sf_r11 s,
     ff_r10 := sf_r10 s, ff_r9 := sf_r9 s, ff_r8 := sf_r8 s, ff_rbp := sf_rbp s, ff_rdi := sf_rdi s, ff_rsi := sf_rsi s,
     ff_rdx := sf_rdx s, ff_rcx := sf_rcx s, ff_rbx := sf_rbx s, ff_rax := sf_rax s\<rparr>"

definition to_iframe :: "fred_frame \<Rightarrow> interrupt_frame" where
  "to_iframe f = \<lparr>if_r15 = ff_r15 f, if_r14 = ff_r14 f, if_r13 = ff_r13 f, if_r12 = ff_r12 f, if_r11 = ff_r11 f,
     if_r10 = ff_r10 f, if_r9 = ff_r9 f, if_r8 = ff_r8 f, if_rbp = ff_rbp f, if_rdi = ff_rdi f, if_rsi = ff_rsi f,
     if_rdx = ff_rdx f, if_rcx = ff_rcx f, if_rbx = ff_rbx f, if_rax = ff_rax f,
     if_vector = drop_bit 32 (ff_ss f) AND 0xFF, if_error = ff_error f, if_ip = ff_ip f, if_cs = ff_cs f,
     if_flags = ff_flags f, if_rsp = ff_rsp f, if_ss = ff_ss f\<rparr>"

definition from_iframe :: "interrupt_frame \<Rightarrow> fred_frame \<Rightarrow> fred_frame" where
  "from_iframe i f = f\<lparr>ff_r15 := if_r15 i, ff_r14 := if_r14 i, ff_r13 := if_r13 i, ff_r12 := if_r12 i, ff_r11 := if_r11 i,
     ff_r10 := if_r10 i, ff_r9 := if_r9 i, ff_r8 := if_r8 i, ff_rbp := if_rbp i, ff_rdi := if_rdi i, ff_rsi := if_rsi i,
     ff_rdx := if_rdx i, ff_rcx := if_rcx i, ff_rbx := if_rbx i, ff_rax := if_rax i,
     ff_error := if_error i, ff_ip := if_ip i, ff_cs := if_cs i, ff_flags := if_flags i, ff_rsp := if_rsp i, ff_ss := if_ss i\<rparr>"

definition fred_ring0_entry :: "(nat \<Rightarrow> dispatch_env) \<Rightarrow> fred_frame \<Rightarrow> kernel \<Rightarrow> (fred_frame \<times> kernel) kres option" where
  "fred_ring0_entry es frame k =
     kobind (dispatch_interupt (es 0) (to_iframe frame) k) (\<lambda>(iFrame, k1). Some (Inr (from_iframe iFrame frame, k1)))"

text \<open>Event type 7 is the system call instruction.\<close>

definition fred_ring3_entry :: "(nat \<Rightarrow> dispatch_env) \<Rightarrow> fred_frame \<Rightarrow> kernel \<Rightarrow> (fred_frame \<times> kernel) kres option" where
  "fred_ring3_entry es frame k =
     (if drop_bit 48 (ff_ss frame) AND 0xF = 7
      then kobind (execute_syscall es (to_sysframe frame) k) (\<lambda>(sysFrame, k1). Some (Inr (from_sysframe sysFrame frame, k1)))
      else kobind (dispatch_interupt (es 0) (to_iframe frame) k) (\<lambda>(iFrame, k1). Some (Inr (from_iframe iFrame frame, k1))))"

end
