(* ===== verification/Console_Calls.thy ===== *)
theory Console_Calls
  imports Syscalls
begin

text \<open>
  What the system calls that use the console do: printing a string of user memory and reading
  a line. First the facts all calls share (the running thread, strings in user memory, small
  heap blocks) and the console output, then the two calls. Printing a string of 1008 to 1023
  bytes is shown to stop the kernel.
\<close>

section \<open>Shared facts\<close>

definition calm :: "kernel \<Rightarrow> bool" where
  "calm k \<longleftrightarrow> lock_flag (scheduler_spinlock (ksched k)) = 0 \<and> kcr8 k \<le> 2"

lemma current_calm: "calm k \<Longrightarrow> current k = Some (Inr (threads (ksched k), k))"
  by (simp add: calm_def current_def get_current_thread_def lock_scheduler_def unlock_scheduler_def spinlock_lock_free
      spinlock_unlock_ok Let_def)

text \<open>The kernel half is mapped and not user memory; outside a copy user access is closed.\<close>

definition kernel_mapped :: "uspace \<Rightarrow> bool" where
  "kernel_mapped u \<longleftrightarrow> (\<forall>a \<ge> KERNEL_BASE. page_read u a \<and> page_write u a \<and> \<not> page_user u a)
     \<and> (cr4_smap_enabled u \<longrightarrow> \<not> ac_flag u)"

lemma clr_set_id: "kernel_mapped u \<Longrightarrow> rflags_clr_ac (rflags_set_ac u) = u"
  by (cases u) (auto simp: kernel_mapped_def rflags_clr_ac_def rflags_set_ac_def)

lemma clr_id: "kernel_mapped u \<Longrightarrow> rflags_clr_ac u = u"
  by (cases u) (auto simp: kernel_mapped_def rflags_clr_ac_def)

lemma kernel_access:
  assumes "kernel_mapped u" "KERNEL_BASE \<le> a"
  shows "can_read (rflags_set_ac u) a" "can_write (rflags_set_ac u) a"
  using assms by (auto simp: kernel_mapped_def can_read_def can_write_def rflags_set_ac_def)

lemma kernel_mapped_ubytes [simp]: "kernel_mapped (u\<lparr>ubytes := m\<rparr>) = kernel_mapped u"
  by (simp add: kernel_mapped_def)

text \<open>A string that the running thread can read at a user address.\<close>

definition user_string :: "uspace \<Rightarrow> u64 \<Rightarrow> u8 list \<Rightarrow> bool" where
  "user_string u p str \<longleftrightarrow> unat p + 4096 \<le> 2 ^ 47 \<and> length str < 4096 \<and> 0 \<notin> set str \<and> mem_is (ubytes u) p (str @ [0])
     \<and> (\<forall>i \<le> length str. can_read (rflags_set_ac u) (p + of_nat i))"

lemma low_is_user: "unat p + n \<le> 2 ^ 47 \<Longrightarrow> is_user_range p len"
  by (auto simp: is_user_range_def is_kernel_range_iff word_le_nat_alt unat_KERNEL_BASE)

lemma safe_strlen_loop_string:
  assumes "mem_is (ubytes u) p (str @ [0])" "0 \<notin> set str" "\<forall>i \<le> length str. can_read u (p + of_nat i)"
    and "i + j = length str" "j < n"
  shows "safe_strlen_loop u p i n = of_nat (length str)"
  using assms(4,5)
proof (induction j arbitrary: i n)
  case 0
  then obtain n' where "n = Suc n'" by (cases n) auto
  moreover have "ubytes u (p + of_nat i) = 0" using assms(1) 0 by (auto simp: mem_is_nth nth_append)
  ultimately show ?case using assms(3) 0 by simp
next
  case (Suc j)
  then obtain n' where n: "n = Suc n'" by (cases n) auto
  have "ubytes u (p + of_nat i) = str ! i" using assms(1) Suc.prems by (auto simp: mem_is_nth nth_append)
  then have "ubytes u (p + of_nat i) \<noteq> 0" using assms(2) Suc.prems nth_mem [of i str] by (metis add_Suc_right less_add_Suc1)
  then show ?case using Suc.IH [of "Suc i" n'] Suc.prems assms(3) n by simp
qed

lemma strlen_user_string:
  assumes "user_string u p str" "kernel_mapped u"
  shows "strlen_user u p = (int (length str), u)"
proof -
  let ?u = "rflags_set_ac u"
  have "safe_strlen_asm ?u p = of_nat (length str)"
    unfolding safe_strlen_asm_def
    by (rule safe_strlen_loop_string [where j = "length str"]) (use assms in \<open>auto simp: user_string_def\<close>)
  moreover have "sint (ucast (of_nat (length str) :: u64) :: u32) = int (length str)"
  proof -
    have "length str < 2 ^ 31" using assms by (simp add: user_string_def)
    then show ?thesis
      by (simp add: unsigned_of_nat take_bit_nat_eq_self signed_of_nat signed_take_bit_int_eq_self)
  qed
  moreover have "is_user_range p 4096" using assms(1) low_is_user [of p 4096] by (simp add: user_string_def)
  ultimately show ?thesis by (simp add: strlen_user_def Let_def clr_set_id [OF assms(2)])
qed

lemma copy_from_user_string:
  assumes "user_string u p str" "kernel_mapped u" "KERNEL_BASE \<le> dst" "unat dst + length str + 1 < 2 ^ 64" "dst \<noteq> - 1"
  shows "copy_from_user u dst p (of_nat (length str + 1)) = (0, u\<lparr>ubytes := copied (ubytes u) dst p (length str + 1)\<rparr>)"
    and "cstring (copied (ubytes u) dst p (length str + 1)) dst = Some str"
proof -
  let ?n = "length str + 1" and ?u = "rflags_set_ac u"
  have n: "unat (of_nat ?n :: u64) = ?n" using assms(1) by (intro unat_of_nat64) (simp add: user_string_def)
  have p: "unat p + ?n \<le> 2 ^ 47" using assms(1) by (simp add: user_string_def)
  have d: "2 ^ 64 - 2 ^ 47 \<le> unat dst" using assms(3) by (simp add: word_le_nat_alt unat_KERNEL_BASE)
  have acc: "can_read ?u (p + of_nat i) \<and> can_write ?u (dst + of_nat i)" if "i < ?n" for i
  proof -
    have "unat (dst + of_nat i) = unat dst + i" using assms(4) that by (simp add: unat_add_no_wrap unat_of_nat64)
    then have "KERNEL_BASE \<le> dst + of_nat i" using d by (simp add: word_le_nat_alt unat_KERNEL_BASE)
    then show ?thesis using kernel_access [OF assms(2)] assms(1) that by (auto simp: user_string_def)
  qed
  have "safe_movsb ?u dst p ?n = (True, ?u\<lparr>ubytes := rep_movsb (ubytes u) dst p ?n\<rparr>)"
    using safe_movsb_ok [of ?n ?u p dst] acc by simp
  moreover have "rep_movsb (ubytes u) dst p ?n = copied (ubytes u) dst p ?n"
    by (rule rep_movsb_eq) (use p d assms(4) in auto)
  moreover have "is_user_range p (of_nat ?n)" "is_kernel_range dst (of_nat ?n)"
    using low_is_user [OF p] assms(3,4) n by (simp_all add: is_kernel_range_iff)
  moreover have "rflags_clr_ac (?u\<lparr>ubytes := m\<rparr>) = u\<lparr>ubytes := m\<rparr>" for m
    using clr_set_id [OF assms(2)] by (cases u) (auto simp: rflags_clr_ac_def rflags_set_ac_def)
  ultimately show "copy_from_user u dst p (of_nat ?n) = (0, u\<lparr>ubytes := copied (ubytes u) dst p ?n\<rparr>)"
    using n assms(5) by (simp add: copy_from_user_def safe_memcpy_asm_def del: of_nat_add of_nat_Suc)
  have "mem_is (copied (ubytes u) dst p ?n) dst (str @ [0])"
    using assms(1) by (auto simp: mem_is_nth copied_def user_string_def unat_of_nat64)
  then show "cstring (copied (ubytes u) dst p ?n) dst = Some str"
    using assms(1) by (intro cstring_at) (auto simp: user_string_def)
qed

text \<open>Copying bytes of the kernel to a writable user buffer.\<close>

lemma copy_to_user_bytes:
  assumes "kernel_mapped u" "KERNEL_BASE \<le> src" "unat src + n < 2 ^ 64" "unat p + n \<le> 2 ^ 47"
    and "\<And>i. i < n \<Longrightarrow> can_write (rflags_set_ac u) (p + of_nat i)"
  shows "copy_to_user u p src (of_nat n) = (0, u\<lparr>ubytes := copied (ubytes u) p src n\<rparr>)"
    and "slice (copied (ubytes u) p src n) p n = slice (ubytes u) src n"
    and "\<And>a. KERNEL_BASE \<le> a \<Longrightarrow> copied (ubytes u) p src n a = ubytes u a"
proof -
  let ?u = "rflags_set_ac u"
  have n: "unat (of_nat n :: u64) = n" using assms(4) by (intro unat_of_nat64) simp
  have d: "2 ^ 64 - 2 ^ 47 \<le> unat src" using assms(2) by (simp add: word_le_nat_alt unat_KERNEL_BASE)
  have "can_read ?u (src + of_nat i)" if "i < n" for i
  proof -
    have "unat (src + of_nat i) = unat src + i" using assms(3) that by (simp add: unat_add_no_wrap unat_of_nat64)
    then have "KERNEL_BASE \<le> src + of_nat i" using d by (simp add: word_le_nat_alt unat_KERNEL_BASE)
    then show ?thesis using kernel_access [OF assms(1)] by auto
  qed
  then have "safe_movsb ?u p src n = (True, ?u\<lparr>ubytes := rep_movsb (ubytes u) p src n\<rparr>)"
    using safe_movsb_ok [of n ?u src p] assms(5) by simp
  moreover have "rep_movsb (ubytes u) p src n = copied (ubytes u) p src n"
    by (rule rep_movsb_eq) (use assms(3,4) d in auto)
  moreover have "is_user_range p (of_nat n)" "is_kernel_range src (of_nat n)"
    using low_is_user [OF assms(4)] assms(2,3) n by (simp_all add: is_kernel_range_iff)
  moreover have "rflags_clr_ac (?u\<lparr>ubytes := m\<rparr>) = u\<lparr>ubytes := m\<rparr>" for m
    using clr_set_id [OF assms(1)] by (cases u) (auto simp: rflags_clr_ac_def rflags_set_ac_def)
  moreover have "p \<noteq> - 1"
  proof
    assume "p = - 1"
    then have "unat p = 2 ^ 64 - 1" by (simp add: unsigned_minus_1_eq_mask mask_eq_exp_minus_1)
    then show False using assms(4) by simp
  qed
  ultimately show "copy_to_user u p src (of_nat n) = (0, u\<lparr>ubytes := copied (ubytes u) p src n\<rparr>)"
    using n by (simp add: copy_to_user_def safe_memcpy_asm_def)
  show "slice (copied (ubytes u) p src n) p n = slice (ubytes u) src n"
    using assms(4) by (auto simp: slice_def copied_def unat_of_nat64)
  show "copied (ubytes u) p src n a = ubytes u a" if "KERNEL_BASE \<le> a" for a
  proof -
    have "2 ^ 64 - 2 ^ 47 \<le> unat a" using that by (simp add: word_le_nat_alt unat_KERNEL_BASE)
    then have "unat (a - p) = unat a - unat p" using assms(4) by (simp add: unat_sub word_le_nat_alt)
    then have "\<not> unat (a - p) < n" using assms(4) \<open>2 ^ 64 - 2 ^ 47 \<le> unat a\<close> by simp
    then show ?thesis by (simp add: copied_def)
  qed
qed

text \<open>A heap in the kernel half, and the small blocks it hands out.\<close>

definition hhdm_high :: "pmm \<Rightarrow> bool" where
  "hhdm_high s \<longleftrightarrow> (\<forall>l \<in> page_locs s. KERNEL_BASE \<le> page_node s l)"

definition heap_ok :: "kmemory \<Rightarrow> bool" where
  "heap_ok m \<longleftrightarrow> heap_inv (kheap m) \<and> hhdm_below (hpmm (kheap m)) \<and> hhdm_high (hpmm (kheap m))"

lemma hhdm_high_layout: "pmm_layout s' = pmm_layout s \<Longrightarrow> hhdm_high s' = hhdm_high s"
  using layout_cong(1,3) [of s' s] unfolding hhdm_high_def by simp

lemma malloc_layout:
  assumes "heap_inv (kheap m)" "unat sz \<le> 1008" "malloc sz m = Some (Inr (ptr, m1))"
  shows "pmm_layout (hpmm (kheap m1)) = pmm_layout (hpmm (kheap m))"
proof -
  have u: "unat (sz + 16) \<le> 1024" "sz \<le> 1024" using assms(2) by (simp_all add: unat_word_ariths word_le_nat_alt)
  obtain a h1 where "kmalloc (sz + 16) (kheap m) = Some (Inr (a, h1))" "pmm_layout (hpmm h1) = pmm_layout (hpmm (kheap m))"
    using kmalloc_ok [OF assms(1) u(1)] assms(3) u(2) by (auto simp: malloc_def)
  then show ?thesis using assms(3) u(2) by (auto simp: malloc_def kstore64_def set_kpmm_def poke64_def pmm_layout_def)
qed

lemma kfree_layout: "pmm_layout (hpmm (kfree a h)) = pmm_layout (hpmm h)"
  by (simp add: kfree_def Let_def poke64_def pmm_layout_def)

lemma heap_block_page:
  assumes "heap_block h a n"
  shows "\<exists>l \<in> page_locs (hpmm h). unat (page_node (hpmm h) l) \<le> unat a \<and> unat a + n \<le> unat (page_node (hpmm h) l) + 4096"
proof -
  obtain S F i p k where h: "heap_rel (hpmm h) (slab_caches h) S F" and o: "i < length (slab_caches h)" "p \<in> set (S i)" "k < slab_n (wid i)"
    and a: "a = objaddr p (wid i) k" "n = 8 * wid i"
    using assms by (auto simp: heap_block_def live_objs_def heap_objects_def)
  note w = heap_relD(2) [OF h o(1)] and al = heap_relD(6) [OF h o(1,2)]
  obtain l where "l \<in> page_locs (hpmm h)" "p = page_node (hpmm h) l"
    using heap_relD(4) [OF h o(1,2)] pages_in_locs unfolding used_table_def by blast
  moreover have "unat a = unat p + 8 * (4 + k * wid i)" using objaddr_props(1) [OF al w o(3)] a by simp
  ultimately show ?thesis using object_bound [OF o(3) w] a(2) by (intro bexI [of _ l]) auto
qed

text \<open>Where a small block lies: inside one of the frames of the direct map.\<close>

definition in_frame :: "pmm \<Rightarrow> u64 \<Rightarrow> nat \<Rightarrow> bool" where
  "in_frame s p n \<longleftrightarrow> (\<exists>l \<in> page_locs s. unat (page_node s l) \<le> unat p \<and> unat p + n \<le> unat (page_node s l) + 4096)"

lemma in_frame_layout: "pmm_layout s' = pmm_layout s \<Longrightarrow> in_frame s' p n = in_frame s p n"
  using layout_cong(1,3) [of s' s] unfolding in_frame_def by simp

lemma in_frame_kernel:
  assumes "heap_ok m" "in_frame (hpmm (kheap m)) p n"
  shows "KERNEL_BASE \<le> p" "unat p + n < 2 ^ 64 - 1"
  using assms by (auto simp: heap_ok_def in_frame_def hhdm_below_def hhdm_high_def word_le_nat_alt VALLOC_RANGE_START_def)

lemma malloc_in_frame:
  assumes "heap_ok m" "unat sz \<le> 1008" "malloc sz m = Some (Inr (ptr, m1))"
  shows "in_frame (hpmm (kheap m)) ptr (unat sz)"
proof -
  have u: "unat (sz + 16) = unat sz + 16" "sz \<le> 1024" using assms(2) by (simp_all add: unat_word_ariths word_le_nat_alt)
  have inv: "heap_inv (kheap m)" using assms(1) by (simp add: heap_ok_def)
  obtain a h1 n where k: "kmalloc (sz + 16) (kheap m) = Some (Inr (a, h1))" "heap_block h1 a n" "unat sz + 16 \<le> n"
      "pmm_layout (hpmm h1) = pmm_layout (hpmm (kheap m))"
    using kmalloc_ok [OF inv, of "sz + 16"] u assms(2,3) by (auto simp: malloc_def)
  have ptr: "ptr = a + 16" using k(1) assms(3) u(2) by (simp add: malloc_def)
  have f: "in_frame (hpmm (kheap m)) a n" using heap_block_page [OF k(2)] in_frame_layout [OF k(4)] by (simp add: in_frame_def)
  then have "unat ptr = unat a + 16"
    using in_frame_kernel(2) [OF assms(1) f] k(3) unfolding ptr by (subst unat_add_no_wrap) simp_all
  then show ?thesis using f k(3) unfolding in_frame_def by (elim bexE) (rule bexI, auto)
qed

text \<open>A small block that has not been freed.\<close>

definition owned :: "kmemory \<Rightarrow> u64 \<Rightarrow> bool" where
  "owned m p \<longleftrightarrow> p - 16 \<in> heap_live (kheap m) \<and> kload64 m (p - 16) \<le> 1024"

lemma free_owned:
  assumes "heap_ok m" "owned m p"
  shows "\<exists>m'. free p m = Inr m' \<and> heap_ok m'"
proof -
  have "free p m = Inr (m\<lparr>kheap := kfree (p - 16) (kheap m)\<rparr>)" using assms(2) by (simp add: free_def Let_def owned_def)
  moreover have "heap_ok (m\<lparr>kheap := kfree (p - 16) (kheap m)\<rparr>)"
    using kfree_live [of "kheap m" "p - 16"] assms hhdm_high_layout [OF kfree_layout] hhdm_below_layout [OF kfree_layout]
    by (auto simp: heap_ok_def owned_def)
  ultimately show ?thesis by blast
qed

text \<open>A small block: where it lies, that it can be freed, and that the other blocks still can be.\<close>

lemma malloc_small:
  assumes "heap_ok m" "unat sz \<le> 1008"
  shows "malloc sz m = Some (Inl (Panic ''PMM: out of memory'')) \<and> avail (hpmm (kheap m)) = 0
    \<or> (\<exists>ptr m1. malloc sz m = Some (Inr (ptr, m1)) \<and> heap_ok m1 \<and> owned m1 ptr \<and> (\<forall>q. owned m q \<longrightarrow> owned m1 q)
        \<and> in_frame (hpmm (kheap m)) ptr (unat sz) \<and> pmm_layout (hpmm (kheap m1)) = pmm_layout (hpmm (kheap m))
        \<and> avail (hpmm (kheap m)) \<le> avail (hpmm (kheap m1)) + 1)"
proof -
  have u: "unat (sz + 16) \<le> 1024" "sz \<le> 1024" using assms(2) by (simp_all add: unat_word_ariths word_le_nat_alt)
  note ok = assms(1) [unfolded heap_ok_def]
  consider "malloc sz m = Some (Inl (Panic ''PMM: out of memory''))" "avail (hpmm (kheap m)) = 0" | ptr m1 where "malloc sz m = Some (Inr (ptr, m1))"
    using kmalloc_ok [of "kheap m" "sz + 16"] ok u by (auto simp: malloc_def)
  then show ?thesis
  proof cases
    case 2
    note s = malloc_small_ok [OF _ _ assms(2) 2]
    have lay: "pmm_layout (hpmm (kheap m1)) = pmm_layout (hpmm (kheap m))" using malloc_layout [OF _ assms(2) 2] ok by simp
    have "heap_ok m1" using ok s hhdm_high_layout [OF lay] hhdm_below_layout [OF lay] by (simp add: heap_ok_def)
    moreover have "owned m1 ptr" "\<And>q. owned m q \<Longrightarrow> owned m1 q" using s ok u(2) by (auto simp: owned_def)
    moreover have "avail (hpmm (kheap m)) \<le> avail (hpmm (kheap m1)) + 1" using s ok by simp
    ultimately show ?thesis using 2 lay malloc_in_frame [OF assms 2] by blast
  qed simp
qed

section \<open>Console output\<close>

lemma serial_send_trace:
  assumes "tx_ready port h" "port \<noteq> 0x80"
  shows "\<exists>t. serial_send port c h = Some (h\<lparr>trace := t\<rparr>) \<and> sent port t = sent port (trace h) @ [c]"
proof -
  obtain h' where h': "serial_send port c h = Some h'" "sent port (trace h') = sent port (trace h) @ [c]"
    using serial_send_ready [OF assms] by blast
  obtain v where v: "inbd (port + SERIAL_LINE_INFO) h = (v, h\<lparr>trace := trace h @ [OutB 0x80 0, InB (port + SERIAL_LINE_INFO) v, OutB 0x80 0]\<rparr>)"
    by (simp add: inbd_def inb_def io_wait_def outb_def emit_def Let_def)
  have "v AND SERIAL_TX_EMPTY_BIT \<noteq> 0" using assms(1) inbd_effect [OF v] by (auto simp: tx_ready_def)
  then have "\<exists>t. h' = h\<lparr>trace := t\<rparr>"
    using h'(1) v by (auto simp: serial_send_def serial_poll.simps [of "serial_transmit_empty port" h] serial_transmit_empty_def
        outbd_def io_wait_def outb_def emit_def)
  then show ?thesis using h' by auto
qed

definition console_ready :: "kernel \<Rightarrow> bool" where
  "console_ready k \<longleftrightarrow> lock_flag (stdio_spinlock k) = 0 \<and> kcr8 k \<le> 2
     \<and> (serial_works (kdev k) \<longrightarrow> tx_ready (serial_port (kdev k)) (plat (kdev k)) \<and> serial_port (kdev k) \<notin> {0x80, 0xE9})"

text \<open>The kernel after some bytes went to the console: the terminal has them, and so has a working serial line.\<close>

definition console_wrote :: "u8 list \<Rightarrow> kernel \<Rightarrow> kernel \<Rightarrow> bool" where
  "console_wrote cs k k' \<longleftrightarrow> (\<exists>t. k' = k\<lparr>kdev := (kdev k)\<lparr>ft_out := ft_out (kdev k) @ cs, plat := (plat (kdev k))\<lparr>trace := t\<rparr>\<rparr>\<rparr>
     \<and> (serial_works (kdev k) \<longrightarrow> sent (serial_port (kdev k)) t = sent (serial_port (kdev k)) (trace (plat (kdev k))) @ crlf cs))"

lemma console_wrote_ready: "console_wrote cs k k' \<Longrightarrow> console_ready k' = console_ready k"
  by (auto simp: console_wrote_def console_ready_def tx_ready_def)

lemma console_wrote_append: "console_wrote as k k1 \<Longrightarrow> console_wrote bs k1 k2 \<Longrightarrow> console_wrote (as @ bs) k k2"
  by (auto simp: console_wrote_def crlf_def)

lemma console_wrote_Nil: "console_wrote [] k k"
  by (auto simp: console_wrote_def crlf_def intro!: exI [of _ "trace (plat (kdev k))"])

lemma internal_putc_ready:
  assumes "console_ready k"
  shows "\<exists>k'. internal_putc c k = Some (Inr k') \<and> console_wrote [c] k k'"
proof -
  let ?d = "kdev k" and ?h = "plat (kdev k)"
  let ?h1 = "if cpu_feature_bit 1 0 CHR ''c'' 31 ?h then outb 0xE9 c ?h else ?h"
  let ?k = "k\<lparr>kdev := ?d\<lparr>ft_out := ft_out ?d @ [c]\<rparr>\<rparr>"
  have lock: "lock_flag (stdio_spinlock k) = 0" "kcr8 k \<le> 2" using assms by (simp_all add: console_ready_def)
  then have same: "(stdio_spinlock k)\<lparr>lock_flag := 0\<rparr> = stdio_spinlock k" by (cases "stdio_spinlock k") simp
  obtain t1 where t1: "?h1 = ?h\<lparr>trace := t1\<rparr>" "serial_port ?d \<noteq> 0xE9 \<Longrightarrow> sent (serial_port ?d) t1 = sent (serial_port ?d) (trace ?h)"
  proof (rule that [of "trace ?h1"])
    show "?h1 = ?h\<lparr>trace := trace ?h1\<rparr>" by (cases ?h) (simp add: outb_def emit_def)
  qed (simp add: outb_def emit_def)
  show ?thesis
  proof (cases "serial_works ?d")
    case False
    then have "internal_putc c k = Some (Inr (?k\<lparr>kdev := (kdev ?k)\<lparr>plat := ?h1\<rparr>\<rparr>))" using lock
      by (simp add: same internal_putc_def spinlock_lock_free spinlock_unlock_ok Let_def set_cr8_def set_plat_def)
    then show ?thesis unfolding t1(1) using False by (auto simp: console_wrote_def)
  next
    case True
    then have r: "tx_ready (serial_port ?d) ?h" "serial_port ?d \<noteq> 0x80" "serial_port ?d \<noteq> 0xE9" using assms by (auto simp: console_ready_def)
    have ready: "tx_ready (serial_port ?d) (?h\<lparr>trace := t\<rparr>)" for t using r(1) by (simp add: tx_ready_def)
    obtain t2 where t2: "(if c = 10 then serial_send (serial_port ?d) 13 ?h1 else Some ?h1) = Some (?h\<lparr>trace := t2\<rparr>)"
        "sent (serial_port ?d) t2 = sent (serial_port ?d) (trace ?h) @ (if c = 10 then [13] else [])"
      using serial_send_trace [OF ready [of t1] r(2), of 13] t1 r(3) by (cases "c = 10") auto
    obtain t3 where t3: "serial_send (serial_port ?d) c (?h\<lparr>trace := t2\<rparr>) = Some (?h\<lparr>trace := t3\<rparr>)"
        "sent (serial_port ?d) t3 = sent (serial_port ?d) t2 @ [c]"
      using serial_send_trace [OF ready [of t2] r(2), of c] by auto
    have "internal_putc c k = Some (Inr (?k\<lparr>kdev := (kdev ?k)\<lparr>plat := ?h\<lparr>trace := t3\<rparr>\<rparr>\<rparr>))"
      using lock True t2(1) t3(1)
      by (simp add: same internal_putc_def spinlock_lock_free spinlock_unlock_ok Let_def set_cr8_def set_plat_def cong: if_cong split del: if_split)
    then show ?thesis using t2(2) t3(2) by (auto simp: console_wrote_def crlf_def)
  qed
qed

lemma kputs_ready: "console_ready k \<Longrightarrow> \<exists>k'. kputs cs k = Some (Inr k') \<and> console_wrote cs k k'"
proof (induction cs arbitrary: k)
  case Nil
  then show ?case using console_wrote_Nil by simp
next
  case (Cons c cs)
  obtain k1 where k1: "internal_putc c k = Some (Inr k1)" "console_wrote [c] k k1" using internal_putc_ready [OF Cons.prems] by blast
  then obtain k2 where "kputs cs k1 = Some (Inr k2)" "console_wrote cs k1 k2"
    using Cons.IH [of k1] Cons.prems console_wrote_ready by blast
  then show ?case using k1 console_wrote_append [of "[c]" k k1 cs k2] by simp
qed

section \<open>Printing\<close>

lemma kalloc_kmem: "kalloc sz k = kobind (malloc sz (pkm (plat (kdev k)))) (\<lambda>(p, m). Some (Inr (p, set_kmem m k)))"
  by (simp add: kalloc_def)

lemma set_kmem_sel [kernel_simps]: "pkm (plat (kdev (set_kmem m k))) = m" "kusr (set_kmem m k) = kusr k" "ksched (set_kmem m k) = ksched k"
    "ft_out (kdev (set_kmem m k)) = ft_out (kdev k)" "trace (plat (kdev (set_kmem m k))) = trace (plat (kdev k))"
    "serial_port (kdev (set_kmem m k)) = serial_port (kdev k)" "serial_works (kdev (set_kmem m k)) = serial_works (kdev k)"
    "console_ready (set_kmem m k) = console_ready k" "karchive (set_kmem m k) = karchive k" "files (kdev (set_kmem m k)) = files (kdev k)"
  by (simp_all add: set_kmem_def set_plat_def console_ready_def tx_ready_def)

lemma fits_kernel:
  assumes "KERNEL_BASE \<le> p" "unat p + n < 2 ^ 64 - 1"
  shows "p \<noteq> 0" "p \<noteq> - 1"
proof -
  have "unat (- 1 :: u64) = 2 ^ 64 - 1" by (simp add: unsigned_minus_1_eq_mask mask_eq_exp_minus_1)
  then show "p \<noteq> - 1" using assms(2) by auto
  show "p \<noteq> 0" using assms(1) by (auto simp: KERNEL_BASE_def)
qed


text \<open>
  Any process can stop the kernel by printing a string of 1008 to 1023 bytes: with its
  terminator it has one of the sizes for which the allocator has no object.
\<close>

theorem sys_print_panics:
  assumes "kernel_mapped (kusr k)" and "heap_ok (pkm (plat (kdev k)))" and "user_string (kusr k) (sf_rbx frame) str"
    and "1008 \<le> length str" and "length str \<le> 1023"
  shows "sys_print frame k = Some (Inl (Panic ''no mem''))"
proof -
  let ?sz = "of_nat (length str + 1) :: u64" and ?m = "pkm (plat (kdev k))"
  have n: "unat ?sz = length str + 1" using assms(5) by (intro unat_of_nat64) simp
  then have "unat (?sz + 16) = length str + 17" using assms(5) by (subst unat_add_no_wrap) simp_all
  then have "1024 < unat (?sz + 16)" "?sz \<le> 1024" using n assms(4,5) by (simp_all add: word_le_nat_alt)
  then have "malloc ?sz ?m = Some (Inl (Panic ''no mem''))"
    using kmalloc_too_big [of "kheap ?m"] assms(2) by (simp add: malloc_def heap_ok_def)
  then show ?thesis
    using strlen_user_string [OF assms(3,1)] by (simp add: sys_print_def user_strlen_def kalloc_def add.commute)
qed

section \<open>Reading a line\<close>

text \<open>What a key does to the line being typed.\<close>

definition edit_key :: "u8 list \<Rightarrow> u8 \<Rightarrow> u8 list" where
  "edit_key l c = (if c = 8 \<or> c = 0x7F then butlast l else if c < 0x20 \<or> c > 0x7E then l else l @ [c])"

lemma kbd_read_one:
  "kbdDeviceRead [0] 1 s = (if keyboard_buffer_read s = keyboard_buffer_write s then (0, [0], s) else (1, [fst (kbd_pop s)], snd (kbd_pop s)))"
  by (simp add: kbdDeviceRead_def kbdDeviceRead_loop.simps [of _ _ 0] kbdDeviceRead_loop.simps [of _ _ 1] kbd_pop_def)

text \<open>A kernel whose console works and whose keyboard queue holds the keys \<open>ks\<close>.\<close>

definition kbd_at :: "u8 list \<Rightarrow> kernel \<Rightarrow> bool" where
  "kbd_at ks k \<longleftrightarrow> console_ready k \<and> fs_find (files (kdev k)) (bytes_of ''/dev/kbd'') = Some Kbd_ops
     \<and> kbd_inv (kbd_dev (kdev k)) \<and> kbd_contents (kbd_dev (kdev k)) = ks"

lemma kbd_next:
  assumes "kbd_at (c # ks) k"
  shows "\<exists>d. kfs_read (bytes_of ''/dev/kbd'') [0] 1 k = Some (Inr (1, [c], k\<lparr>kdev := (kdev k)\<lparr>kbd_dev := d\<rparr>\<rparr>))
    \<and> kbd_at ks (k\<lparr>kdev := (kdev k)\<lparr>kbd_dev := d\<rparr>\<rparr>)"
proof -
  let ?d = "kbd_dev (kdev k)"
  have d: "kbd_inv ?d" "kbd_contents ?d = c # ks" using assms by (simp_all add: kbd_at_def)
  then have ne: "keyboard_buffer_read ?d \<noteq> keyboard_buffer_write ?d" using kq.is_empty_iff [OF d(1)] by simp
  have pop: "kbd_contents ?d = fst (kbd_pop ?d) # kbd_contents (snd (kbd_pop ?d))" "kbd_inv (snd (kbd_pop ?d))"
    using kq.pop_contents [OF d(1) ne] kq.inv_pop [OF d(1) ne] by auto
  show ?thesis
    using assms ne pop d(2)
    by (intro exI [of _ "snd (kbd_pop ?d)"]) (simp add: kbd_at_def kfs_read_def fs_read_def call_read_def kbd_read_one console_ready_def)
qed

lemma kbd_echo:
  assumes "kbd_at ks k"
  shows "\<exists>k1. kputs cs k = Some (Inr k1) \<and> console_wrote cs k k1 \<and> kbd_at ks k1"
proof -
  obtain k1 where k1: "kputs cs k = Some (Inr k1)" "console_wrote cs k k1"
    using kputs_ready assms by (auto simp: kbd_at_def)
  then have "kbd_at ks k1" using assms console_wrote_ready [OF k1(2)] by (auto simp: kbd_at_def console_wrote_def)
  then show ?thesis using k1 by blast
qed

text \<open>A kernel in which the line \<open>l\<close> has been typed and the keys \<open>ks\<close> wait in the queue.\<close>

definition stdin_at :: "u8 list \<Rightarrow> u8 list \<Rightarrow> kernel \<Rightarrow> bool" where
  "stdin_at l ks k \<longleftrightarrow> kbd_at ks k \<and> line_len k = length l \<and> mem_is (ubytes (kusr k)) (line_buffer k) l"

text \<open>Typing touches the console, the keyboard queue and the line buffer only.\<close>

definition typed :: "kernel \<Rightarrow> kernel \<Rightarrow> bool" where
  "typed k k' \<longleftrightarrow> line_buffer k' = line_buffer k
     \<and> (\<exists>m. kusr k' = (kusr k)\<lparr>ubytes := m\<rparr> \<and> (\<forall>a. 256 \<le> unat (a - line_buffer k) \<longrightarrow> m a = ubytes (kusr k) a))"

lemma typed_refl: "typed k k"
  by (auto simp: typed_def intro!: exI [of _ "ubytes (kusr k)"])

lemma typed_trans: "typed k k1 \<Longrightarrow> typed k1 k2 \<Longrightarrow> typed k k2"
  by (auto simp: typed_def)

lemma next_key:
  assumes "stdin_at l (c # ks) k"
  shows "\<exists>k1. kfs_read (bytes_of ''/dev/kbd'') [0] 1 k = Some (Inr (1, [c], k1)) \<and> stdin_at l ks k1 \<and> typed k k1"
proof -
  obtain d where "kfs_read (bytes_of ''/dev/kbd'') [0] 1 k = Some (Inr (1, [c], k\<lparr>kdev := (kdev k)\<lparr>kbd_dev := d\<rparr>\<rparr>))"
      "kbd_at ks (k\<lparr>kdev := (kdev k)\<lparr>kbd_dev := d\<rparr>\<rparr>)"
    using kbd_next [of c ks k] assms by (auto simp: stdin_at_def)
  then show ?thesis using assms typed_refl [of k] by (auto simp: stdin_at_def typed_def)
qed

lemma echo:
  assumes "stdin_at l ks k"
  shows "\<exists>k1. kputs cs k = Some (Inr k1) \<and> stdin_at l ks k1 \<and> typed k k1"
proof -
  obtain k1 where k1: "kputs cs k = Some (Inr k1)" "console_wrote cs k k1" "kbd_at ks k1"
    using kbd_echo [of ks k cs] assms by (auto simp: stdin_at_def)
  then show ?thesis using assms typed_refl [of k] by (auto simp: stdin_at_def typed_def console_wrote_def)
qed

lemma store_line_at:
  assumes "stdin_at l ks k" "length l < 256"
  shows "\<exists>k1. store_line c k = Some (Inr k1) \<and> stdin_at (l @ [c]) ks k1 \<and> typed k k1"
proof -
  let ?a = "line_buffer k + of_nat (length l)"
  let ?k = "k\<lparr>kusr := (kusr k)\<lparr>ubytes := (ubytes (kusr k))(?a := c)\<rparr>, line_len := length l + 1\<rparr>"
  have "(of_nat i :: u64) \<noteq> of_nat (length l)" if "i < length l" for i
  proof -
    have "unat (of_nat i :: u64) = i" "unat (of_nat (length l) :: u64) = length l" using that assms(2) by (simp_all add: unat_of_nat64)
    then show ?thesis using that by auto
  qed
  then have "stdin_at (l @ [c]) ks ?k"
    using assms(1) by (auto simp: stdin_at_def kbd_at_def console_ready_def mem_is_nth nth_append less_Suc_eq)
  moreover have "typed k ?k" using assms(2) by (auto simp: typed_def unat_of_nat64 intro!: exI)
  ultimately show ?thesis using assms by (simp add: store_line_def LINE_BUF_SIZE_def stdin_at_def)
qed

lemma stdin_erase:
  assumes "stdin_at l ks k" "l \<noteq> []"
  shows "stdin_at (butlast l) ks (k\<lparr>line_len := line_len k - 1\<rparr>)" "typed k (k\<lparr>line_len := line_len k - 1\<rparr>)"
  using assms typed_refl [of k] by (auto simp: stdin_at_def kbd_at_def console_ready_def mem_is_nth nth_butlast typed_def)

text \<open>Typing the keys \<open>ks\<close> and then a newline, when the line never fills the buffer.\<close>

lemma stdin_loop_line:
  assumes "stdin_at l (ks @ c # rest) k" "c = 10 \<or> c = 13" "set ks \<inter> {0, 10, 13} = {}"
    and "\<And>j. j \<le> length ks \<Longrightarrow> length (foldl edit_key l (take j ks)) < 255"
  shows "\<exists>k'. stdin_loop es n k = Some (Inr k') \<and> stdin_at (foldl edit_key l ks @ [10]) rest k' \<and> typed k k'"
  using assms(1,3,4)
proof (induction ks arbitrary: l k)
  case Nil
  obtain k1 where k1: "kfs_read (bytes_of ''/dev/kbd'') [0] 1 k = Some (Inr (1, [c], k1))" "stdin_at l rest k1" "typed k k1"
    using next_key [of l c rest k] Nil(1) by auto
  obtain k2 where k2: "kputs [10] k1 = Some (Inr k2)" "stdin_at l rest k2" "typed k1 k2" using echo [OF k1(2)] by blast
  have "length l < 256" using Nil(3) [of 0] by simp
  from store_line_at [OF k2(2) this, of 10] obtain k3 where
    k3: "store_line 10 k2 = Some (Inr k3)" "stdin_at (l @ [10]) rest k3" "typed k2 k3" by blast
  have "stdin_loop es n k = Some (Inr k3)"
    using k1(1) k2(1) k3(1) assms(2) by (subst stdin_loop.simps) (auto simp: Let_def simp del: kputs.simps)
  then show ?case using k3(2) typed_trans [OF typed_trans [OF k1(3) k2(3)] k3(3)] by auto
next
  case (Cons x ks)
  have x: "x \<noteq> 0" "x \<noteq> 10" "x \<noteq> 13" using Cons.prems(2) by auto
  obtain k1 where k1: "kfs_read (bytes_of ''/dev/kbd'') [0] 1 k = Some (Inr (1, [x], k1))" "stdin_at l (ks @ c # rest) k1" "typed k k1"
    using next_key [of l x _ k] Cons.prems(1) by auto
  have "\<exists>k2. stdin_loop es n k = stdin_loop es n k2 \<and> stdin_at (edit_key l x) (ks @ c # rest) k2 \<and> typed k1 k2"
  proof -
    have ll: "line_len k1 = length l" using k1(2) by (simp add: stdin_at_def)
    consider (erase) "x = 8 \<or> x = 0x7F" "l \<noteq> []" | (at_start) "x = 8 \<or> x = 0x7F" "l = []"
      | (ignored) "x \<noteq> 8" "x \<noteq> 0x7F" "x < 0x20 \<or> x > 0x7E" | (char) "x \<noteq> 8" "x \<noteq> 0x7F" "\<not> (x < 0x20 \<or> x > 0x7E)" by blast
    then show ?thesis
    proof cases
      case erase
      note e = stdin_erase [OF k1(2) erase(2)]
      obtain k2 where "kputs [8, 32, 8] (k1\<lparr>line_len := line_len k1 - 1\<rparr>) = Some (Inr k2)" "stdin_at (butlast l) (ks @ c # rest) k2"
          "typed (k1\<lparr>line_len := line_len k1 - 1\<rparr>) k2" using echo [OF e(1)] by blast
      moreover have "stdin_loop es n k = stdin_loop es n k2"
        using calculation(1) k1(1) x erase ll by (subst stdin_loop.simps) (auto simp: Let_def simp del: kputs.simps)
      ultimately show ?thesis using erase(1) typed_trans [OF e(2)] by (auto simp: edit_key_def)
    next
      case at_start
      have "stdin_loop es n k = stdin_loop es n k1"
        using k1(1) x at_start ll by (subst stdin_loop.simps) (auto simp: Let_def)
      then show ?thesis using k1(2) at_start typed_refl by (auto simp: edit_key_def)
    next
      case ignored
      have "stdin_loop es n k = stdin_loop es n k1"
        using k1(1) x ignored by (subst stdin_loop.simps) (simp add: Let_def)
      then show ?thesis using k1(2) ignored typed_refl by (auto simp: edit_key_def)
    next
      case char
      obtain k2 where k2: "kputs [x] k1 = Some (Inr k2)" "stdin_at l (ks @ c # rest) k2" "typed k1 k2" using echo [OF k1(2)] by blast
      have "length l < 256" using Cons.prems(3) [of 0] by simp
      from store_line_at [OF k2(2) this, of x] obtain k3 where
        k3: "store_line x k2 = Some (Inr k3)" "stdin_at (l @ [x]) (ks @ c # rest) k3" "typed k2 k3" by blast
      have "length (l @ [x]) < 255" using Cons.prems(3) [of 1] char by (simp add: edit_key_def)
      then have "\<not> LINE_BUF_SIZE - 1 \<le> line_len k3" using k3(2) by (simp add: stdin_at_def LINE_BUF_SIZE_def)
      then have "stdin_loop es n k = stdin_loop es n k3"
        using k1(1) k2(1) k3(1) x char by (subst stdin_loop.simps) (simp add: Let_def del: kputs.simps)
      then show ?thesis using k3(2) char typed_trans [OF k2(3) k3(3)] by (auto simp: edit_key_def)
    qed
  qed
  then obtain k2 where k2: "stdin_loop es n k = stdin_loop es n k2" "stdin_at (edit_key l x) (ks @ c # rest) k2" "typed k1 k2" by blast
  have "\<exists>k'. stdin_loop es n k2 = Some (Inr k') \<and> stdin_at (foldl edit_key (edit_key l x) ks @ [10]) rest k' \<and> typed k2 k'"
    by (rule Cons.IH [OF k2(2)]) (use Cons.prems(2) Cons.prems(3) [of "Suc j" for j] in auto)
  then obtain k' where "stdin_loop es n k2 = Some (Inr k')" "stdin_at (foldl edit_key (edit_key l x) ks @ [10]) rest k'" "typed k2 k'" by blast
  then show ?case using k2(1) typed_trans [OF typed_trans [OF k1(3) k2(3)]] by auto
qed

text \<open>
  C26: Reading a line: with the keys of a line and a newline waiting, the call returns without giving
  up the processor; the user's buffer holds the line as edited by its backspaces, with a line
  feed at its end, cut to the buffer's size; the result is the number of bytes; the keys
  behind the newline stay in the queue and the line buffer is empty again.
\<close>

theorem sys_do_hacky_stdin_line:
  assumes "stdin_at [] (ks @ c # rest) k" and "c = 10 \<or> c = 13" and "set ks \<inter> {0, 10, 13} = {}"
    and "\<And>j. j \<le> length ks \<Longrightarrow> length (foldl edit_key [] (take j ks)) < 255"
    and "line = foldl edit_key [] ks @ [10]" and "n = min (length line) (unat (sf_rdx frame))"
    and "kernel_mapped (kusr k)" and "KERNEL_BASE \<le> line_buffer k" and "unat (line_buffer k) + 256 < 2 ^ 64"
    and "unat (sf_rbx frame) + n \<le> 2 ^ 47" and "\<And>i. i < n \<Longrightarrow> can_write (rflags_set_ac (kusr k)) (sf_rbx frame + of_nat i)"
  shows "\<exists>k'. sys_do_hacky_stdin es frame k = Some (Inr (frame\<lparr>sf_rax := of_nat n\<rparr>, k'))
    \<and> slice (ubytes (kusr k')) (sf_rbx frame) n = take n line \<and> line_len k' = 0 \<and> kbd_contents (kbd_dev (kdev k')) = rest"
proof -
  obtain k1 where k1: "stdin_loop es 0 k = Some (Inr k1)" "stdin_at line rest k1" "typed k k1"
    using stdin_loop_line [OF assms(1-4)] assms(5) by blast
  obtain m where m: "kusr k1 = (kusr k)\<lparr>ubytes := m\<rparr>" "line_buffer k1 = line_buffer k" using k1(3) by (auto simp: typed_def)
  have l: "line_len k1 = length line" "mem_is m (line_buffer k) line" using k1(2) m by (auto simp: stdin_at_def)
  have len: "length line \<le> 255" using assms(4) [of "length ks"] assms(5) by simp
  then have "unat (of_nat (length line) :: u64) = length line" by (intro unat_of_nat64) simp
  then have copy: "(if of_nat (line_len k1) < sf_rdx frame then of_nat (line_len k1) else sf_rdx frame) = of_nat n"
    using l(1) assms(6) by (auto simp: word_less_nat_alt min_def)
  have ac: "rflags_set_ac (kusr k1) = (rflags_set_ac (kusr k))\<lparr>ubytes := m\<rparr>" by (simp add: m(1) rflags_set_ac_def)
  have "kernel_mapped (kusr k1)" "KERNEL_BASE \<le> line_buffer k1" "unat (line_buffer k1) + n < 2 ^ 64"
    "\<And>i. i < n \<Longrightarrow> can_write (rflags_set_ac (kusr k1)) (sf_rbx frame + of_nat i)"
    using assms(6-9,11) len m ac by auto
  note c = copy_to_user_bytes [OF this(1-3) assms(10) this(4), simplified m(2)]
  have "slice m (line_buffer k) n = take n line"
    using l(2) assms(6) by (auto simp: list_eq_iff_nth_eq mem_is_nth)
  moreover have "kbd_contents (kbd_dev (kdev k1)) = rest" using k1(2) by (simp add: stdin_at_def kbd_at_def)
  ultimately show ?thesis
    using k1(1) c(1,2) m unfolding sys_do_hacky_stdin_def by (simp add: copy to_user_def sys_return_def)
qed

section \<open>Witnesses\<close>

text \<open>A process whose memory holds a string of \<open>n\<close> letters at 0x1000, and four keys in the queue.\<close>

definition demo_user :: "nat \<Rightarrow> uspace" where
  "demo_user n = \<lparr>ubytes = (\<lambda>a. if unat (a - 0x1000) < n then 97 else 0), page_read = (\<lambda>_. True), page_write = (\<lambda>_. True),
     page_user = (\<lambda>a. a < KERNEL_BASE), cr4_smap_enabled = True, ac_flag = False\<rparr>"

definition demo_keys :: kbd where
  "demo_keys = kbdDevicePush 13 (kbdDevicePush 105 (kbdDevicePush 8 (kbdDevicePush 104 kbd_init)))"

definition demo_call :: "nat \<Rightarrow> kmemory \<Rightarrow> kernel" where
  "demo_call n m = demo_kernel\<lparr>kusr := demo_user n, kdev := demo_devices\<lparr>serial_works := False, kbd_dev := demo_keys,
     files := [\<lparr>fpath = bytes_of ''/dev/kbd'', ops = Kbd_ops\<rparr>], plat := demo_platform\<lparr>pkm := m\<rparr>\<rparr>\<rparr>"

definition demo_sysframe :: "u64 \<Rightarrow> syscall_frame" where
  "demo_sysframe rdx = \<lparr>sf_r15 = 0, sf_r14 = 0, sf_r13 = 0, sf_r12 = 0, sf_r11 = 0, sf_r10 = 0, sf_r9 = 0, sf_r8 = 0,
     sf_rbp = 0, sf_rdi = 0, sf_rsi = 0, sf_rdx = rdx, sf_rcx = 0, sf_rbx = 0x1000, sf_rax = 1\<rparr>"

lemma demo_user_string: "n < 4096 \<Longrightarrow> user_string (demo_user n) 0x1000 (replicate n 97)"
  by (auto simp: user_string_def demo_user_def mem_is_nth nth_append unat_of_nat64 can_read_def rflags_set_ac_def)

lemma demo_call_ok: "kernel_mapped (demo_user n)" "console_ready (demo_call n m)" "kusr (demo_call n m) = demo_user n"
  "pkm (plat (kdev (demo_call n m))) = m" "calm (demo_call n m)"
  by (simp_all add: kernel_mapped_def demo_user_def console_ready_def demo_call_def demo_kernel_def demo_devices_def
      demo_sched_def spinlock_init_def calm_def not_less)

lemma demo_heap_ok: obtains m where "heap_ok m" "avail (hpmm (kheap m)) = 9"
proof -
  obtain m :: kmemory where m: "heap_inv (kheap m)" "hhdm_below (hpmm (kheap m))" "pmm_layout (hpmm (kheap m)) = pmm_layout demo_vm"
      "avail (hpmm (kheap m)) = 9"
    using demo_kmemory by blast
  have wf: "pmm_wf demo_vm" using pt_invD(1) [OF demo_pt_inv] pmm_inv_wf by blast
  have "unat KERNEL_BASE \<le> unat (page_node demo_vm (0, n))" if "n < 16" for n
    using unat_page_addr [OF wf, of 0 n] that unfolding demo_vm_pages
    by (simp add: demo_vm_def unat_KERNEL_BASE)
  then have "hhdm_high demo_vm" unfolding hhdm_high_def demo_vm_pages by (auto simp: word_le_nat_alt)
  then have "heap_ok m" using m hhdm_high_layout [OF m(3)] by (simp add: heap_ok_def)
  then show thesis using m(4) by (rule that)
qed


theorem sys_print_panics_witness: "\<exists>k. sys_print (demo_sysframe 0) k = Some (Inl (Panic ''no mem''))"
proof -
  obtain m where "heap_ok m" using demo_heap_ok .
  then have "sys_print (demo_sysframe 0) (demo_call 1008 m) = Some (Inl (Panic ''no mem''))"
    using demo_user_string [of 1008] demo_call_ok
    by (intro sys_print_panics [where str = "replicate 1008 97"]) (simp_all add: demo_sysframe_def)
  then show ?thesis by blast
qed

lemma demo_keys_contents: "kbd_inv demo_keys" "kbd_contents demo_keys = [104, 8, 105, 13]"
  by (simp_all add: demo_keys_def kbd_inv_def kbdDevicePush_def kbd_init_def Let_def kbd_contents_def ring_contents_def upt_rec)

theorem sys_do_hacky_stdin_line_witness:
  "\<exists>k k'. sys_do_hacky_stdin (\<lambda>_. demo_env) (demo_sysframe 10) k = Some (Inr ((demo_sysframe 10)\<lparr>sf_rax := 2\<rparr>, k'))
     \<and> slice (ubytes (kusr k')) 0x1000 2 = [105, 10]"
proof -
  let ?k = "demo_call 0 demo_kmem"
  have at: "stdin_at [] ([104, 8, 105] @ 13 # []) ?k"
    using demo_call_ok(2) [of 0 demo_kmem] demo_keys_contents
    by (simp add: stdin_at_def kbd_at_def) (simp add: demo_call_def demo_kernel_def mem_is_def slice_def strcmp_str_0 bytes_of_def)
  have small: "length (foldl edit_key [] (take j [104, 8, 105])) < 255" if "j \<le> length [104, 8, 105 :: u8]" for j
  proof -
    have "j \<in> {0, 1, 2, 3}" using that by auto
    then show ?thesis by (auto simp: edit_key_def numeral_2_eq_2 numeral_3_eq_3)
  qed
  have lb: "KERNEL_BASE \<le> line_buffer ?k" "unat (line_buffer ?k) + 256 < 2 ^ 64"
    by (simp_all add: demo_call_def demo_kernel_def KERNEL_BASE_def)
  have "\<exists>k'. sys_do_hacky_stdin (\<lambda>_. demo_env) (demo_sysframe 10) ?k = Some (Inr ((demo_sysframe 10)\<lparr>sf_rax := of_nat 2\<rparr>, k'))
      \<and> slice (ubytes (kusr k')) (sf_rbx (demo_sysframe 10)) 2 = take 2 [105, 10] \<and> line_len k' = 0 \<and> kbd_contents (kbd_dev (kdev k')) = []"
    by (rule sys_do_hacky_stdin_line [OF at _ _ small]) (use lb in \<open>simp_all add: demo_call_ok edit_key_def demo_sysframe_def can_write_def
      demo_user_def rflags_set_ac_def kernel_mapped_def not_less\<close>)
  then show ?thesis by (auto simp: demo_sysframe_def)
qed

end
