(* ===== verification/Open_Files.thy ===== *)
theory Open_Files
  imports Console_Calls
begin

text \<open>
  Files as a process sees them. An open descriptor stands for the contents of a file and a
  position in it; opening establishes this, and reading and seeking act on it as they would
  on the abstract pair. A sequence of such calls is therefore a run of the abstract file. A
  path longer than 254 bytes is shown to leave the stack buffer of the archive code.
\<close>

section \<open>The archive stays in place\<close>

definition archive_size :: "tar_entry list \<Rightarrow> nat" where
  "archive_size es = sum_list (map (\<lambda>e. 512 * entry_blocks e) es)"

text \<open>The archive with the header that ends it occupies the bytes from \<open>p\<close> on, without wrapping.\<close>

definition archive_fits :: "u64 \<Rightarrow> tar_entry list \<Rightarrow> bool" where
  "archive_fits p es \<longleftrightarrow> unat p + archive_size es + 512 < 2 ^ 64 \<and> (\<forall>e \<in> set es. length (te_name e) < 511)"

lemma slice_cong:
  assumes "unat q + n < 2 ^ 64" "\<And>a. unat q \<le> unat a \<Longrightarrow> unat a < unat q + n \<Longrightarrow> m' a = m a"
  shows "slice m' q n = slice m q n"
proof -
  have "unat (q + of_nat i) = unat q + i" if "i < n" for i
    using assms(1) that by (simp add: unat_add_no_wrap unat_of_nat64)
  then show ?thesis using assms(2) by (auto simp: slice_def)
qed

lemma mem_is_ustar: "mem_is m p ustar \<longleftrightarrow> slice m p 5 = ustar"
proof -
  have "length ustar = 5" by (simp add: ustar_def)
  then show ?thesis by (simp only: mem_is_def)
qed

lemma archive_at_cong:
  assumes "archive_at m p es" "archive_fits p es"
    and "\<And>a. unat p \<le> unat a \<Longrightarrow> unat a < unat p + archive_size es + 512 \<Longrightarrow> m' a = m a"
  shows "archive_at m' p es"
  using assms
proof (induction es arbitrary: p)
  case Nil
  have "unat (p + 257) = unat p + 257" using Nil.prems(2) by (simp add: archive_fits_def unat_add_no_wrap)
  then have "slice m' (p + 257) 5 = slice m (p + 257) 5"
    using Nil.prems(2,3) by (intro slice_cong) (auto simp: archive_fits_def archive_size_def)
  then show ?case using Nil.prems(1) by (simp add: mem_is_ustar)
next
  case (Cons e es)
  let ?b = "512 * entry_blocks e"
  have fits: "unat p + ?b + archive_size es + 512 < 2 ^ 64" "length (te_name e) < 511"
    using Cons.prems(2) by (auto simp: archive_fits_def archive_size_def)
  have big: "512 + length (te_data e) \<le> ?b" by (simp add: entry_blocks_def)
  have off: "unat (p + of_nat i) = unat p + i" if "i \<le> ?b" for i
    using fits(1) that by (simp add: unat_add_no_wrap unat_of_nat64)
  have same: "slice m' (p + of_nat i) n = slice m (p + of_nat i) n" if "i + n \<le> ?b" for i n
    using Cons.prems(3) fits(1) that off [of i] by (intro slice_cong) (auto simp: archive_size_def)
  have "entry_at m' p e"
  proof -
    have "slice m' (p + 257) 5 = slice m (p + 257) 5" "slice m' (p + 0x7c) 11 = slice m (p + 0x7c) 11"
      "slice m' (p + 512) (length (te_data e)) = slice m (p + 512) (length (te_data e))"
      "slice m' (p + 1) (length (te_name e) + 1) = slice m (p + 1) (length (te_name e) + 1)"
      "slice m' p 1 = slice m p 1"
      using same [of 257 5] same [of "0x7c" 11] same [of 512 "length (te_data e)"] same [of 1 "length (te_name e) + 1"]
        same [of 0 1] big fits(2) by simp_all
    then show ?thesis using Cons.prems(1) by (simp add: entry_at_def mem_is_ustar mem_is_def [of _ _ "te_name e @ [0]"] tar_size_def) (simp add: slice_def)
  qed
  moreover have "archive_at m' (p + of_nat ?b) es"
  proof (rule Cons.IH)
    show "archive_at m (p + of_nat ?b) es" using Cons.prems(1) by simp
    show "archive_fits (p + of_nat ?b) es" using fits Cons.prems(2) off [of ?b] by (simp add: archive_fits_def)
    show "m' a = m a" if "unat (p + of_nat ?b) \<le> unat a" "unat a < unat (p + of_nat ?b) + archive_size es + 512" for a
      using Cons.prems(3) [of a] that off [of ?b] by (simp add: archive_size_def)
  qed
  ultimately show ?case by simp
qed

section \<open>Open files\<close>

definition archive_ok :: "tar_entry list \<Rightarrow> kernel \<Rightarrow> bool" where
  "archive_ok es k \<longleftrightarrow> archive_at (ubytes (kusr k)) (karchive k) es \<and> archive_fits (karchive k) es \<and> KERNEL_BASE \<le> karchive k"

definition cur_fds :: "kernel \<Rightarrow> fd list" where
  "cur_fds k = fds (thr (ksched k) (threads (ksched k)))"

text \<open>Descriptor \<open>f\<close> names a file of the archive, its block holds the contents, the position is within.\<close>

definition fd_holds :: "tar_entry list \<Rightarrow> mem \<Rightarrow> fd \<Rightarrow> u8 list \<Rightarrow> nat \<Rightarrow> bool" where
  "fd_holds es m f data pos \<longleftrightarrow> fst (file_name f) \<noteq> 0 \<and> 0 \<notin> set (snd (file_name f)) \<and> length (snd (file_name f)) \<le> 254
     \<and> tar_lookup es (snd (file_name f)) = Some data \<and> KERNEL_BASE \<le> file_data f \<and> unat (file_data f) + length data < 2 ^ 64
     \<and> slice m (file_data f) (length data) = data \<and> seek_pos f = of_nat pos \<and> pos \<le> length data"

definition file_open :: "tar_entry list \<Rightarrow> kernel \<Rightarrow> nat \<Rightarrow> u8 list \<Rightarrow> nat \<Rightarrow> bool" where
  "file_open es k i data pos \<longleftrightarrow> i < length (cur_fds k) \<and> fd_holds es (ubytes (kusr k)) (cur_fds k ! i) data pos"

text \<open>What a call on a descriptor leaves as it was.\<close>

definition file_kept :: "kernel \<Rightarrow> kernel \<Rightarrow> bool" where
  "file_kept k k' \<longleftrightarrow> calm k' = calm k \<and> karchive k' = karchive k \<and> syscalls k' = syscalls k \<and> (\<exists>m. kusr k' = (kusr k)\<lparr>ubytes := m\<rparr>)"

lemma set_fd_sel [kernel_simps]: "kusr (set_fd t i f k) = kusr k" "karchive (set_fd t i f k) = karchive k" "calm (set_fd t i f k) = calm k"
    "cur_fds (set_fd (threads (ksched k)) i f k) = (cur_fds k)[i := f (cur_fds k ! i)]" "syscalls (set_fd t i f k) = syscalls k"
    "threads (ksched (set_fd t i f k)) = threads (ksched k)"
  by (simp_all add: set_fd_def set_thread_def upd_thread_def calm_def cur_fds_def)

lemma kusr_sel [kernel_simps]: "calm (k\<lparr>kusr := u\<rparr>) = calm k" "cur_fds (k\<lparr>kusr := u\<rparr>) = cur_fds k"
  by (simp_all add: calm_def cur_fds_def)

lemma lookup_length:
  assumes "archive_at m p es" "tar_lookup es n = Some data"
  shows "length data < 2 ^ 31"
  using assms by (induction es arbitrary: p) (auto simp: tar_lookup_def entry_at_def split: if_splits)

lemma open_file_size:
  assumes "archive_ok es k" "file_open es k i data pos"
  shows "tarfsGetFize (ubytes (kusr k)) (karchive k) (snd (file_name (cur_fds k ! i))) = Some (Inr (int (length data)))"
    and "unat (of_nat (length data) :: u64) = length data" and "unat (of_nat pos :: u64) = pos"
proof -
  have h: "fd_holds es (ubytes (kusr k)) (cur_fds k ! i) data pos" using assms(2) by (simp add: file_open_def)
  then show "tarfsGetFize (ubytes (kusr k)) (karchive k) (snd (file_name (cur_fds k ! i))) = Some (Inr (int (length data)))"
    using tarfsGetFize_correct [of "ubytes (kusr k)" "karchive k" es "snd (file_name (cur_fds k ! i))"] assms(1)
    by (simp add: fd_holds_def archive_ok_def)
  have "length data < 2 ^ 31" using lookup_length [of "ubytes (kusr k)" "karchive k" es] assms(1) h by (auto simp: archive_ok_def fd_holds_def)
  then show "unat (of_nat (length data) :: u64) = length data" "unat (of_nat pos :: u64) = pos"
    using h by (simp_all add: fd_holds_def unat_of_nat64)
qed

text \<open>Seeking: the position asked for, moved into the file.\<close>

definition seek_target :: "u64 \<Rightarrow> u64 \<Rightarrow> nat \<Rightarrow> nat \<Rightarrow> nat option" where
  "seek_target whence offset pos len = (case new_pos (sint (ucast whence :: u32)) (of_nat pos) (int len) offset of
     Some (Inr p) \<Rightarrow> Some (nat (max 0 (min p (int len)))) | _ \<Rightarrow> None)"

definition seek_fits :: "u64 \<Rightarrow> u64 \<Rightarrow> nat \<Rightarrow> bool" where
  "seek_fits whence offset len \<longleftrightarrow> (sint (ucast whence :: u32) = SEEK_END \<longrightarrow> fits_long (int len + sint offset))"

lemma new_pos_fits: "seek_fits whence offset len \<Longrightarrow> new_pos (sint (ucast whence :: u32)) pos (int len) offset \<noteq> Some (Inl e)"
  by (auto simp: new_pos_def seek_fits_def ubsan_add_def)

lemma sys_seek_ok:
  assumes "calm k" "archive_ok es k" "file_open es k i data pos" "i = unat (sf_rbx frame)"
    and "seek_fits (sf_rsi frame) (sf_rdx frame) (length data)"
  shows "case seek_target (sf_rsi frame) (sf_rdx frame) pos (length data) of
      None \<Rightarrow> sys_seek frame k = Some (Inr (frame\<lparr>sf_rax := - 1\<rparr>, k))
    | Some q \<Rightarrow> \<exists>k'. sys_seek frame k = Some (Inr (frame\<lparr>sf_rax := of_nat q\<rparr>, k')) \<and> archive_ok es k'
        \<and> file_open es k' i data q \<and> file_kept k k'"
proof -
  let ?f = "cur_fds k ! i"
  have f: "i < length (cur_fds k)" "fd_holds es (ubytes (kusr k)) ?f data pos" using assms(3) by (simp_all add: file_open_def)
  have fe: "fds (thr (ksched k) (threads (ksched k))) = cur_fds k" by (simp add: cur_fds_def)
  have nz: "fst (file_name ?f) \<noteq> 0" "seek_pos ?f = of_nat pos" using f(2) by (simp_all add: fd_holds_def)
  note sz = open_file_size [OF assms(2,3)]
  note cur = current_calm [OF assms(1)]
  show ?thesis
  proof (cases "new_pos (sint (ucast (sf_rsi frame) :: u32)) (of_nat pos) (int (length data)) (sf_rdx frame)")
    case None
    then show ?thesis using f(1) nz sz(1) assms(4)
      by (simp add: seek_target_def sys_seek_def cur fe Let_def sys_return_def)
  next
    case (Some r)
    then obtain p0 where p0: "r = Inr p0" using new_pos_fits [OF assms(5)] by (cases r) auto
    define q where "q = nat (max 0 (min p0 (int (length data))))"
    have q: "q \<le> length data" by (simp add: q_def)
    have p: "(if (if p0 < 0 then 0 else p0) > int (length data) then int (length data) else (if p0 < 0 then 0 else p0)) = int q"
      by (simp add: q_def)
    let ?k = "set_fd (threads (ksched k)) i (\<lambda>_. ?f\<lparr>seek_pos := of_nat q\<rparr>) k"
    have "sys_seek frame k = Some (Inr (frame\<lparr>sf_rax := of_nat q\<rparr>, ?k))"
      using f(1) nz sz(1) assms(4) Some p0 p by (simp add: sys_seek_def cur fe Let_def sys_return_def)
    moreover have "file_open es ?k i data q" using f q by (simp add: file_open_def kernel_simps fd_holds_def)
    moreover have "archive_ok es ?k" using assms(2) by (simp add: archive_ok_def kernel_simps)
    moreover have "file_kept k ?k" by (auto simp: file_kept_def kernel_simps intro!: exI [of _ "ubytes (kusr k)"])
    ultimately show ?thesis using Some p0 by (auto simp: seek_target_def q_def [symmetric])
  qed
qed

text \<open>Reading: the bytes at the position, as many as there are and were asked for.\<close>

lemma sys_read_ok:
  assumes "calm k" "archive_ok es k" "file_open es k i data pos" "i = unat (sf_rbx frame)" "kernel_mapped (kusr k)"
    and "n = min (unat (sf_rdx frame)) (length data - pos)" "unat (sf_rsi frame) + n \<le> 2 ^ 47"
    and "\<And>j. j < n \<Longrightarrow> can_write (rflags_set_ac (kusr k)) (sf_rsi frame + of_nat j)"
  shows "\<exists>k'. sys_read frame k = Some (Inr (frame\<lparr>sf_rax := of_nat n\<rparr>, k')) \<and> archive_ok es k'
    \<and> slice (ubytes (kusr k')) (sf_rsi frame) n = take n (drop pos data) \<and> file_open es k' i data (pos + n) \<and> file_kept k k'"
proof -
  let ?f = "cur_fds k ! i" and ?u = "kusr k"
  have f: "i < length (cur_fds k)" "fd_holds es (ubytes ?u) ?f data pos" using assms(3) by (simp_all add: file_open_def)
  have fe: "fds (thr (ksched k) (threads (ksched k))) = cur_fds k" by (simp add: cur_fds_def)
  have nz: "fst (file_name ?f) \<noteq> 0" "seek_pos ?f = of_nat pos" "pos \<le> length data" "KERNEL_BASE \<le> file_data ?f"
      "unat (file_data ?f) + length data < 2 ^ 64" "slice (ubytes ?u) (file_data ?f) (length data) = data"
    using f(2) by (simp_all add: fd_holds_def)
  have fd0: "file_data ?f \<noteq> 0" using nz(4) by (auto simp: KERNEL_BASE_def)
  note sz = open_file_size [OF assms(2,3)]
  note cur = current_calm [OF assms(1)]
  show ?thesis
  proof (cases "pos = length data")
    case True
    then have "sys_read frame k = Some (Inr (frame\<lparr>sf_rax := 0\<rparr>, k))"
      using f(1) nz(1,2) fd0 sz assms(4) by (simp add: sys_read_def cur fe Let_def sys_return_def)
    moreover have "n = 0" using True assms(6) by simp
    moreover have "file_kept k k" by (auto simp: file_kept_def intro!: exI [of _ "ubytes ?u"])
    ultimately show ?thesis using assms(2,3) True by (simp add: slice_def)
  next
    case False
    let ?src = "file_data ?f + of_nat pos"
    have lt: "pos < length data" using False nz(3) by simp
    have src: "unat ?src = unat (file_data ?f) + pos" using nz(3,5) sz(3) by (simp add: unat_add_no_wrap)
    have "KERNEL_BASE \<le> ?src" "unat ?src + n < 2 ^ 64" using src nz(4,5) assms(6) lt by (simp_all add: word_le_nat_alt)
    note c = copy_to_user_bytes [OF assms(5) this assms(7,8)]
    define m where "m = copied (ubytes ?u) (sf_rsi frame) ?src n"
    have copy: "copy_to_user ?u (sf_rsi frame) ?src (of_nat n) = (0, ?u\<lparr>ubytes := m\<rparr>)" unfolding m_def by (rule c(1))
    have len: "unat (of_nat (length data) - of_nat pos :: u64) = length data - pos"
      using lt sz(2,3) by (simp add: unat_sub word_le_nat_alt)
    have bytes: "(if of_nat (length data) - of_nat pos < sf_rdx frame then of_nat (length data) - of_nat pos else sf_rdx frame) = of_nat n"
    proof -
      have "of_nat (length data) - of_nat pos = (of_nat (length data - pos) :: u64)" using lt by (simp add: of_nat_diff)
      then show ?thesis using assms(6) len by (auto simp: word_less_nat_alt min_def)
    qed
    have not_end: "\<not> of_nat (length data) \<le> (of_nat pos :: u64)" using lt sz(2,3) by (simp add: word_le_nat_alt)
    let ?k1 = "k\<lparr>kusr := ?u\<lparr>ubytes := m\<rparr>\<rparr>"
    let ?k = "set_fd (threads (ksched k)) i (\<lambda>_. ?f\<lparr>seek_pos := of_nat (pos + n)\<rparr>) ?k1"
    have calm1: "current ?k1 = Some (Inr (threads (ksched k), ?k1))" using current_calm [of ?k1] assms(1) by (simp add: calm_def)
    have "sys_read frame k = Some (Inr (frame\<lparr>sf_rax := of_nat n\<rparr>, ?k))"
      using f(1) nz(1,2) fd0 sz(1) not_end bytes copy calm1
      by (simp add: sys_read_def cur fe Let_def sys_return_def to_user_def assms(4) [symmetric])
    moreover have keep: "slice m (file_data ?f) (length data) = slice (ubytes ?u) (file_data ?f) (length data)"
    proof (rule slice_cong)
      show "m a = ubytes ?u a" if "unat (file_data ?f) \<le> unat a" for a
        using c(3) [of a] that nz(4) by (simp add: m_def word_le_nat_alt)
    qed (rule nz(5))
    moreover have "archive_at m (karchive k) es"
    proof (rule archive_at_cong)
      show "m a = ubytes ?u a" if "unat (karchive k) \<le> unat a" for a
        using c(3) [of a] that assms(2) by (simp add: m_def archive_ok_def word_le_nat_alt)
    qed (use assms(2) in \<open>simp_all add: archive_ok_def\<close>)
    moreover have "slice m (sf_rsi frame) n = take n (drop pos data)"
    proof -
      have "slice (ubytes ?u) ?src n = take n (drop pos (slice (ubytes ?u) (file_data ?f) (length data)))"
        using assms(6) by (auto simp: list_eq_iff_nth_eq add.assoc)
      then show ?thesis using c(2) nz(6) by (simp add: m_def)
    qed
    moreover have "pos + n \<le> length data" using assms(6) lt by simp
    moreover have "file_kept k ?k" by (auto simp: file_kept_def kernel_simps intro!: exI [of _ m])
    ultimately show ?thesis
      using f assms(2) set_fd_sel(4) [of ?k1 i] by (auto simp: file_open_def archive_ok_def fd_holds_def kernel_simps)
  qed
qed

text \<open>
  Any process with an open file that is not empty stops the kernel by seeking from the end by
  an offset close to the largest one: the sum overflows, and the sanitizer panics.
\<close>

theorem sys_seek_panics:
  assumes "calm k" and "archive_ok es k" and "file_open es k (unat (sf_rbx frame)) data pos"
    and "sf_rsi frame = 2" and "2 ^ 63 \<le> int (length data) + sint (sf_rdx frame)"
  shows "sys_seek frame k = Some (Inl (Panic ''UBSAN: Add overflow''))"
proof -
  have f: "unat (sf_rbx frame) < length (cur_fds k)" "fst (file_name (cur_fds k ! unat (sf_rbx frame))) \<noteq> 0"
    using assms(3) by (simp_all add: file_open_def fd_holds_def)
  have fe: "fds (thr (ksched k) (threads (ksched k))) = cur_fds k" by (simp add: cur_fds_def)
  have "new_pos (sint (ucast (sf_rsi frame) :: u32)) p (int (length data)) (sf_rdx frame) = Some (Inl (Panic ''UBSAN: Add overflow''))" for p
    using assms(4,5) by (simp add: new_pos_def SEEK_SET_def SEEK_CUR_def SEEK_END_def ubsan_add_def fits_long_def)
  then show ?thesis
    using f open_file_size(1) [OF assms(2,3)] by (simp add: sys_seek_def current_calm [OF assms(1)] fe Let_def)
qed

section \<open>Sessions on one descriptor\<close>

text \<open>The calls a process makes on an open file, and what each of them returns to it.\<close>

datatype file_call = Call_read u64 u64 | Call_seek u64 u64

fun call_frame :: "nat \<Rightarrow> syscall_frame \<Rightarrow> file_call \<Rightarrow> syscall_frame" where
  "call_frame i frame (Call_read buf cnt) = frame\<lparr>sf_rax := 5, sf_rbx := of_nat i, sf_rsi := buf, sf_rdx := cnt\<rparr>"
| "call_frame i frame (Call_seek whence offset) = frame\<lparr>sf_rax := 6, sf_rbx := of_nat i, sf_rsi := whence, sf_rdx := offset\<rparr>"

fun call_result :: "file_call \<Rightarrow> u64 \<Rightarrow> kernel \<Rightarrow> u64 \<times> u8 list" where
  "call_result (Call_read buf cnt) r k = (r, slice (ubytes (kusr k)) buf (unat r))"
| "call_result (Call_seek whence offset) r k = (r, [])"

fun run_calls :: "(nat \<Rightarrow> dispatch_env) \<Rightarrow> nat \<Rightarrow> syscall_frame \<Rightarrow> file_call list \<Rightarrow> kernel \<Rightarrow> ((u64 \<times> u8 list) list \<times> kernel) kres option" where
  "run_calls env i frame [] k = Some (Inr ([], k))"
| "run_calls env i frame (c # cs) k =
     kobind (execute_syscall env (call_frame i frame c) k) (\<lambda>(f, k1).
     kobind (run_calls env i frame cs k1) (\<lambda>(rs, k2). Some (Inr (call_result c (sf_rax f) k1 # rs, k2))))"

text \<open>The abstract file: contents and a position.\<close>

fun file_step :: "u8 list \<Rightarrow> nat \<Rightarrow> file_call \<Rightarrow> (u64 \<times> u8 list) \<times> nat" where
  "file_step data pos (Call_read buf cnt) =
     (let n = min (unat cnt) (length data - pos) in ((of_nat n, take n (drop pos data)), pos + n))"
| "file_step data pos (Call_seek whence offset) =
     (case seek_target whence offset pos (length data) of None \<Rightarrow> ((- 1, []), pos) | Some q \<Rightarrow> ((of_nat q, []), q))"

fun file_run :: "u8 list \<Rightarrow> nat \<Rightarrow> file_call list \<Rightarrow> (u64 \<times> u8 list) list \<times> nat" where
  "file_run data pos [] = ([], pos)"
| "file_run data pos (c # cs) = (case file_step data pos c of (r, pos1) \<Rightarrow> case file_run data pos1 cs of (rs, pos2) \<Rightarrow> (r # rs, pos2))"

text \<open>The arguments of a session: buffers are user memory that can be written, and positions from the end can be computed.\<close>

definition buffers_ok :: "uspace \<Rightarrow> u8 list \<Rightarrow> file_call list \<Rightarrow> bool" where
  "buffers_ok u data cs \<longleftrightarrow> (\<forall>c \<in> set cs. case c of Call_read buf cnt \<Rightarrow>
       unat buf + min (unat cnt) (length data) \<le> 2 ^ 47
       \<and> (\<forall>j < min (unat cnt) (length data). can_write (rflags_set_ac u) (buf + of_nat j))
     | Call_seek whence offset \<Rightarrow> seek_fits whence offset (length data))"

lemma buffers_ok_ubytes [simp]: "buffers_ok (u\<lparr>ubytes := m\<rparr>) data cs = buffers_ok u data cs"
proof -
  have "rflags_set_ac (u\<lparr>ubytes := m\<rparr>) = (rflags_set_ac u)\<lparr>ubytes := m\<rparr>" by (simp add: rflags_set_ac_def)
  then have "can_write (rflags_set_ac (u\<lparr>ubytes := m\<rparr>)) a = can_write (rflags_set_ac u) a" for a by simp
  then show ?thesis unfolding buffers_ok_def by (intro ball_cong refl) (auto split: file_call.splits)
qed

text \<open>One call of a session, through the dispatcher.\<close>

lemma session_step:
  assumes "calm k" "archive_ok es k" "file_open es k i data pos" "i < 2 ^ 64" "kernel_mapped (kusr k)"
    and "syscalls k ! 5 = Some Sys_read" "syscalls k ! 6 = Some Sys_seek" "buffers_ok (kusr k) data [c]"
  shows "\<exists>f k'. execute_syscall env (call_frame i frame c) k = Some (Inr (f, k')) \<and> call_result c (sf_rax f) k' = fst (file_step data pos c)
    \<and> archive_ok es k' \<and> file_open es k' i data (snd (file_step data pos c)) \<and> file_kept k k'"
proof -
  have u: "k\<lparr>kusr := rflags_clr_ac (kusr k)\<rparr> = k" using clr_id [OF assms(5)] by simp
  have i: "unat (of_nat i :: u64) = i" using assms(4) by (simp add: unat_of_nat64)
  have same: "file_kept k k" by (auto simp: file_kept_def intro!: exI [of _ "ubytes (kusr k)"])
  show ?thesis
  proof (cases c)
    case (Call_read buf cnt)
    let ?frame = "call_frame i frame c" and ?n = "min (unat cnt) (length data - pos)"
    have ex: "execute_syscall env ?frame k = sys_read ?frame k"
      by (simp add: execute_syscall_def Let_def u MAX_SYSCALLS_def Call_read assms(6) call_syscall_def)
    have "unat (of_nat ?n :: u64) = ?n"
    proof -
      have "?n \<le> unat cnt" by simp
      also have "\<dots> < 2 ^ 64" using unat_lt_64 [of cnt] by simp
      finally have "?n < 2 ^ 64" .
      then show ?thesis by (intro unat_of_nat64) simp
    qed
    moreover obtain k' where "sys_read ?frame k = Some (Inr (?frame\<lparr>sf_rax := of_nat ?n\<rparr>, k'))" "archive_ok es k'"
        "slice (ubytes (kusr k')) buf ?n = take ?n (drop pos data)" "file_open es k' i data (pos + ?n)" "file_kept k k'"
    proof -
      have f: "sf_rsi ?frame = buf" "i = unat (sf_rbx ?frame)" "?n = min (unat (sf_rdx ?frame)) (length data - pos)"
        using Call_read i by simp_all
      have buf: "unat (sf_rsi ?frame) + ?n \<le> 2 ^ 47"
          "\<And>j. j < ?n \<Longrightarrow> can_write (rflags_set_ac (kusr k)) (sf_rsi ?frame + of_nat j)"
        using assms(8) Call_read by (auto simp: buffers_ok_def)
      show ?thesis using that sys_read_ok [OF assms(1-3) f(2) assms(5) f(3) buf] unfolding f(1) by blast
    qed
    ultimately show ?thesis using ex Call_read by (auto simp: Let_def)
  next
    case (Call_seek whence offset)
    let ?frame = "call_frame i frame c"
    have ex: "execute_syscall env ?frame k = sys_seek ?frame k"
      by (simp add: execute_syscall_def Let_def u MAX_SYSCALLS_def Call_seek assms(7) call_syscall_def)
    show ?thesis
      using sys_seek_ok [OF assms(1-3), of ?frame] ex i Call_seek same assms(2,3,8) by (auto simp: buffers_ok_def split: option.splits)
  qed
qed


section \<open>Opening\<close>

text \<open>
  The first half of \<open>sys_open\<close>: the path is copied into a heap block and read back, whatever
  its length up to 1007 bytes, unless memory runs out.
\<close>

lemma sys_open_path:
  assumes "kernel_mapped (kusr k)" "heap_ok (pkm (plat (kdev k)))" "user_string (kusr k) (sf_rbx frame) str" "length str \<le> 1007"
  shows "sys_open frame k = Some (Inl (Panic ''PMM: out of memory'')) \<and> avail (hpmm (kheap (pkm (plat (kdev k))))) = 0
    \<or> (\<exists>q m1 k3. malloc (of_nat (length str + 1)) (pkm (plat (kdev k))) = Some (Inr (q, m1))
        \<and> k3 = (set_kmem m1 k)\<lparr>kusr := (kusr k)\<lparr>ubytes := copied (ubytes (kusr k)) q (sf_rbx frame) (length str + 1)\<rparr>\<rparr>
        \<and> in_frame (hpmm (kheap (pkm (plat (kdev k))))) q (length str + 1) \<and> heap_ok m1 \<and> owned m1 q
        \<and> pmm_layout (hpmm (kheap m1)) = pmm_layout (hpmm (kheap (pkm (plat (kdev k)))))
        \<and> avail (hpmm (kheap (pkm (plat (kdev k))))) \<le> avail (hpmm (kheap m1)) + 1
        \<and> sys_open frame k = kobind (tarfsGetFize (ubytes (kusr k3)) (karchive k) str) (\<lambda>sz.
             if sz < 0 then kobind (krelease q k3) (sys_return (- 1) frame) else open_file str q sz frame k3))"
proof -
  let ?n = "length str + 1" and ?u = "kusr k" and ?p = "sf_rbx frame"
  have n: "unat (of_nat ?n :: u64) = ?n" using assms(4) by (intro unat_of_nat64) simp
  have len: "user_strlen ?p k = (int (length str), k)" using strlen_user_string [OF assms(3,1)] by (simp add: user_strlen_def)
  have "unat (of_nat ?n :: u64) \<le> 1008" using n assms(4) by simp
  from malloc_small [OF assms(2) this] show ?thesis
  proof (elim disjE exE conjE)
    assume "malloc (of_nat ?n) (pkm (plat (kdev k))) = Some (Inl (Panic ''PMM: out of memory''))"
      "avail (hpmm (kheap (pkm (plat (kdev k))))) = 0"
    then show ?thesis using len by (simp add: sys_open_def kalloc_def add.commute)
  next
    fix q m1
    assume m: "malloc (of_nat ?n) (pkm (plat (kdev k))) = Some (Inr (q, m1))" "heap_ok m1" "owned m1 q"
        "pmm_layout (hpmm (kheap m1)) = pmm_layout (hpmm (kheap (pkm (plat (kdev k)))))"
        "avail (hpmm (kheap (pkm (plat (kdev k))))) \<le> avail (hpmm (kheap m1)) + 1"
      and f: "in_frame (hpmm (kheap (pkm (plat (kdev k))))) q (unat (of_nat ?n :: u64))"
    note q = in_frame_kernel [OF assms(2) f]
    note nz = fits_kernel [OF q(1) q(2)]
    define c where "c = copied (ubytes ?u) q ?p ?n"
    let ?k = "(set_kmem m1 k)\<lparr>kusr := ?u\<lparr>ubytes := c\<rparr>\<rparr>"
    have cp: "copy_from_user ?u q ?p (of_nat ?n) = (0, ?u\<lparr>ubytes := c\<rparr>)" "cstring c q = Some str"
      using copy_from_user_string [OF assms(3,1) q(1) _ nz(2)] q(2) n by (simp_all add: c_def)
    have "sys_open frame k = kobind (tarfsGetFize (ubytes (kusr ?k)) (karchive k) str) (\<lambda>sz.
             if sz < 0 then kobind (krelease q ?k) (sys_return (- 1) frame) else open_file str q sz frame ?k)"
      using len m(1) cp by (simp add: sys_open_def kalloc_def from_user_def kstring_at_def kernel_simps add.commute)
    then show ?thesis using m f [unfolded n] unfolding c_def by blast
  qed
qed

text \<open>
  Opening a path of 255 to 1007 bytes overruns the kernel's stack: nothing on the way to
  \<open>strcpy\<close> into the 256 bytes of \<open>tarfsGetFize\<close> bounds what the process passes.
\<close>

theorem sys_open_overruns:
  assumes "kernel_mapped (kusr k)" and "heap_ok (pkm (plat (kdev k)))" and "user_string (kusr k) (sf_rbx frame) str"
    and "255 \<le> length str" and "length str \<le> 1007" and "avail (hpmm (kheap (pkm (plat (kdev k))))) \<noteq> 0"
  shows "sys_open frame k = out_of_bounds"
  using sys_open_path [OF assms(1-3,5)] assms(4,6) by (auto simp: tarfsGetFize_def)

text \<open>Writes that stay inside the frames of the direct map leave an archive outside them alone.\<close>

definition frames_only :: "pmm \<Rightarrow> mem \<Rightarrow> mem \<Rightarrow> bool" where
  "frames_only s m m' \<longleftrightarrow> (\<forall>a. m' a \<noteq> m a \<longrightarrow> in_frame s a 1)"

definition archive_apart :: "tar_entry list \<Rightarrow> kernel \<Rightarrow> bool" where
  "archive_apart es k \<longleftrightarrow> (\<forall>a. in_frame (hpmm (kheap (pkm (plat (kdev k))))) a 1 \<longrightarrow>
     unat a < unat (karchive k) \<or> unat (karchive k) + archive_size es + 512 \<le> unat a)"

lemma frames_only_block:
  assumes "in_frame s q n" "unat q + n < 2 ^ 64" "\<And>a. n \<le> unat (a - q) \<Longrightarrow> m' a = m a"
  shows "frames_only s m m'"
  unfolding frames_only_def
proof (intro allI impI)
  fix a assume "m' a \<noteq> m a"
  then have d: "unat (a - q) < n" using assms(3) by force
  have "unat a = unat (q + (a - q))" by simp
  also have "\<dots> = unat q + unat (a - q)" using d assms(2) by (intro unat_add_no_wrap) simp
  finally show "in_frame s a 1" using assms(1) d unfolding in_frame_def by (elim bexE) (rule bexI, auto)
qed

lemma archive_ok_frames:
  assumes "archive_ok es k" "archive_apart es k" "frames_only (hpmm (kheap (pkm (plat (kdev k))))) (ubytes (kusr k)) (ubytes (kusr k'))"
    and "karchive k' = karchive k"
  shows "archive_ok es k'"
proof -
  have "archive_at (ubytes (kusr k')) (karchive k) es"
  proof (rule archive_at_cong)
    fix a :: u64 assume a: "unat (karchive k) \<le> unat a" "unat a < unat (karchive k) + archive_size es + 512"
    show "ubytes (kusr k') a = ubytes (kusr k) a"
    proof (rule ccontr)
      assume "ubytes (kusr k') a \<noteq> ubytes (kusr k) a"
      then show False using assms(2,3) a by (auto simp: frames_only_def archive_apart_def)
    qed
  qed (use assms(1) in \<open>simp_all add: archive_ok_def\<close>)
  then show ?thesis using assms(1,4) by (simp add: archive_ok_def)
qed

lemma poke_bytes_outside:
  assumes "length bs \<le> unat (a - p)"
  shows "poke_bytes m p bs a = m a"
  using assms
proof (induction bs arbitrary: m p)
  case (Cons b bs)
  have "p \<noteq> a" using Cons.prems by auto
  then have "unat (a - (p + 1)) = unat (a - p) - 1" using unat_minus_one [of "a - p"] by (simp add: diff_diff_eq)
  then show ?case using Cons \<open>p \<noteq> a\<close> by simp
qed simp

lemma slice_poke_bytes:
  assumes "length bs < 2 ^ 64"
  shows "slice (poke_bytes m p bs) p (length bs) = bs"
  using assms
proof (induction bs arbitrary: m p)
  case (Cons b bs)
  have "p - (p + 1) = (- 1 :: u64)" by simp
  then have "length bs \<le> unat (p - (p + 1))" using Cons.prems by (simp only: unsigned_minus_1_eq_mask) (simp add: mask_eq_exp_minus_1)
  then have "poke_bytes (m(p := b)) (p + 1) bs p = b" by (simp add: poke_bytes_outside)
  then show ?case using Cons.IH [of "m(p := b)" "p + 1"] Cons.prems
    by (simp add: slice_def upt_conv_Cons map_Suc_upt [symmetric] comp_def add.assoc fun_upd_def del: upt_Suc)
qed (simp add: slice_def)

text \<open>The second half of \<open>sys_open\<close>: the file is read into a block of its own and a descriptor set up.\<close>

lemma fd_update_sel [kernel_simps]: "pkm (plat (kdev (set_fd t i f k))) = pkm (plat (kdev k))" "files (kdev (set_fd t i f k)) = files (kdev k)"
    "pkm (plat (kdev (set_thread t g k))) = pkm (plat (kdev k))" "kusr (set_thread t g k) = kusr k" "karchive (set_thread t g k) = karchive k"
    "calm (set_kmem m k) = calm k" "calm (set_thread t g k) = calm k" "cur_fds (set_kmem m k) = cur_fds k"
    "cur_fds (set_thread t (next_fd_update h) k) = cur_fds k" "threads (ksched (set_thread t g k)) = threads (ksched k)"
    "next_fd (thr (ksched (set_fd t i f k)) t') = next_fd (thr (ksched k) t')"
  by (simp_all add: set_fd_def set_thread_def upd_thread_def set_kmem_def set_plat_def calm_def cur_fds_def)

lemma cur_fds_set_fd:
  "t = threads (ksched k) \<Longrightarrow> cur_fds (set_fd t i f k) = (cur_fds k)[i := f (cur_fds k ! i)]"
  by (simp add: set_fd_sel)

lemma read_into_file:
  assumes "archive_ok es k" "fs_find (files (kdev k)) name = Some Tar_ops" "0 \<notin> set name" "tar_lookup es name = Some data"
  shows "read_into name d (int (length data)) k
    = Some (Inr (int (length data), k\<lparr>kusr := (kusr k)\<lparr>ubytes := poke_bytes (ubytes (kusr k)) d data\<rparr>\<rparr>))"
  using tarfsRead_archive [of "ubytes (kusr k)" "karchive k" es name "int (length data)" "slice (ubytes (kusr k)) d (length data)"] assms
  by (simp add: read_into_def kfs_read_def fs_read_def call_read_def archive_ok_def Let_def)

lemma open_file_ok:
  fixes k :: kernel
  defines "M \<equiv> pkm (plat (kdev k))"
  assumes "calm k" "heap_ok M" "2 \<le> avail (hpmm (kheap M))" "owned M q" "archive_ok es k" "archive_apart es k"
    and "0 \<notin> set name" "length name \<le> 254" "fs_find (files (kdev k)) name = Some Tar_ops" "tar_lookup es name = Some data"
    and "length data \<le> 1008" "next_fd (thr (ksched k) (threads (ksched k))) = int i" "i < 256" "i < length (cur_fds k)"
  shows "\<exists>k'. open_file name q (int (length data)) frame k = Some (Inr (frame\<lparr>sf_rax := of_nat i\<rparr>, k'))
    \<and> archive_ok es k' \<and> file_open es k' i data 0 \<and> heap_ok (pkm (plat (kdev k')))"
proof -
  let ?t = "threads (ksched k)"
  have sz: "unat (of_nat (length data) :: u64) = length data" using assms(12) by (simp add: unat_of_nat64)
  from malloc_small [OF assms(3), of "of_nat (length data)"] obtain d m2 where
      d: "malloc (of_nat (length data)) M = Some (Inr (d, m2))" "heap_ok m2" "owned m2 q" "in_frame (hpmm (kheap M)) d (length data)"
        "avail (hpmm (kheap M)) \<le> avail (hpmm (kheap m2)) + 1"
    using assms(4,5,12) sz by auto
  note dk = in_frame_kernel [OF assms(3) d(4)]
  note dz = fits_kernel [OF dk]
  define k2 where "k2 = set_fd ?t i (file_data_update (\<lambda>_. d)) (set_kmem m2 k)"
  define m where "m = poke_bytes (ubytes (kusr k)) d data"
  define k4 where "k4 = set_fd ?t i (seek_pos_update (\<lambda>_. 0)) (k2\<lparr>kusr := (kusr k)\<lparr>ubytes := m\<rparr>\<rparr>)"
  have n: "unat (of_nat (length name) + 1 :: u64) = length name + 1"
    using assms(9) unat_of_nat64 [of "length name + 1"] by (simp add: add.commute)
  from malloc_small [OF d(2), of "of_nat (length name) + 1"] obtain np m3 where
      np: "malloc (of_nat (length name) + 1) m2 = Some (Inr (np, m3))" "heap_ok m3" "owned m3 q" "in_frame (hpmm (kheap m2)) np (length name + 1)"
    using assms(4,9) d(3,5) n by auto
  have npz: "np \<noteq> 0" using fits_kernel [OF in_frame_kernel [OF d(2) np(4)]] by simp
  obtain m4 where m4: "free q m3 = Inr m4" "heap_ok m4" using free_owned [OF np(2,3)] by blast
  define k7 where "k7 = set_thread ?t (next_fd_update (\<lambda>n. n + 1)) (set_fd ?t i (file_name_update (\<lambda>_. (np, name))) (set_kmem m3 k4))"
  have read: "read_into name d (int (length data)) k2 = Some (Inr (int (length data), k2\<lparr>kusr := (kusr k)\<lparr>ubytes := m\<rparr>\<rparr>))"
    using read_into_file [of es k2 name data d] assms(6,8,10,11) by (simp add: k2_def m_def archive_ok_def kernel_simps)
  have cur: "current k = Some (Inr (?t, k))" using current_calm [OF assms(2)] .
  have cur6: "current (set_fd ?t i (file_name_update (\<lambda>_. (np, name))) (set_kmem m3 k4))
      = Some (Inr (?t, set_fd ?t i (file_name_update (\<lambda>_. (np, name))) (set_kmem m3 k4)))"
    using current_calm [of "set_fd ?t i (file_name_update (\<lambda>_. (np, name))) (set_kmem m3 k4)"] assms(2)
    by (simp add: k4_def k2_def kernel_simps)
  have M: "pkm (plat (kdev k4)) = m2" "pkm (plat (kdev k7)) = m3" by (simp_all add: k7_def k4_def k2_def kernel_simps)
  have "open_file name q (int (length data)) frame k = Some (Inr (frame\<lparr>sf_rax := of_nat i\<rparr>, set_kmem m4 k7))"
    using cur assms(13,14) d(1) dz(1) read np(1) npz cur6 m4(1) M
    by (simp add: open_file_def Let_def kalloc_def krelease_def sys_return_def M_def k2_def [symmetric] k4_def [symmetric] k7_def [symmetric])
  moreover have "archive_ok es (set_kmem m4 k7)"
    by (rule archive_ok_frames [OF assms(6,7)])
      (use frames_only_block [OF d(4), of m "ubytes (kusr k)"] dk poke_bytes_outside in
        \<open>simp_all add: k7_def k4_def k2_def kernel_simps M_def m_def\<close>)
  moreover have "file_open es (set_kmem m4 k7) i data 0"
    using assms(8,9,11,12,15) dk npz slice_poke_bytes [of data "ubytes (kusr k)" d]
    by (simp add: file_open_def fd_holds_def k7_def k4_def k2_def kernel_simps cur_fds_set_fd m_def)
  moreover have "heap_ok (pkm (plat (kdev (set_kmem m4 k7))))" using m4(2) by (simp add: kernel_simps)
  ultimately show ?thesis by blast
qed

text \<open>
  C28: Opening a file of at most 1008 bytes by its name in user memory: as long as three pages are
  free the call returns the next descriptor, which then stands for the contents of that file
  in the archive, at its beginning; the heap and the archive are intact.
\<close>

theorem sys_open_correct:
  assumes "calm k" and "kernel_mapped (kusr k)" and "heap_ok (pkm (plat (kdev k)))" and "3 \<le> avail (hpmm (kheap (pkm (plat (kdev k)))))"
    and "archive_ok es k" and "archive_apart es k" and "user_string (kusr k) (sf_rbx frame) name" and "length name \<le> 254"
    and "fs_find (files (kdev k)) name = Some Tar_ops" and "tar_lookup es name = Some data" and "length data \<le> 1008"
    and "next_fd (thr (ksched k) (threads (ksched k))) = int i" and "i < 256" and "i < length (cur_fds k)"
  shows "\<exists>k'. sys_open frame k = Some (Inr (frame\<lparr>sf_rax := of_nat i\<rparr>, k'))
    \<and> archive_ok es k' \<and> file_open es k' i data 0 \<and> heap_ok (pkm (plat (kdev k')))"
proof -
  let ?M = "pkm (plat (kdev k))"
  have nz: "0 \<notin> set name" using assms(7) by (simp add: user_string_def)
  obtain q m1 k3 where q: "k3 = (set_kmem m1 k)\<lparr>kusr := (kusr k)\<lparr>ubytes := copied (ubytes (kusr k)) q (sf_rbx frame) (length name + 1)\<rparr>\<rparr>"
      "in_frame (hpmm (kheap ?M)) q (length name + 1)" "heap_ok m1" "owned m1 q" "pmm_layout (hpmm (kheap m1)) = pmm_layout (hpmm (kheap ?M))"
      "avail (hpmm (kheap ?M)) \<le> avail (hpmm (kheap m1)) + 1"
      "sys_open frame k = kobind (tarfsGetFize (ubytes (kusr k3)) (karchive k) name) (\<lambda>sz.
             if sz < 0 then kobind (krelease q k3) (sys_return (- 1) frame) else open_file name q sz frame k3)"
    using sys_open_path [OF assms(2,3,7)] assms(4,8) by auto
  have ok3: "archive_ok es k3"
    by (rule archive_ok_frames [OF assms(5,6)])
      (use frames_only_block [OF q(2), of "copied (ubytes (kusr k)) q (sf_rbx frame) (length name + 1)"] in_frame_kernel [OF assms(3) q(2)] in
        \<open>simp_all add: q(1) kernel_simps copied_def\<close>)
  have "archive_apart es k3" using assms(6) in_frame_layout [OF q(5)] by (simp add: archive_apart_def q(1) kernel_simps)
  moreover have "calm k3" "heap_ok (pkm (plat (kdev k3)))" "owned (pkm (plat (kdev k3))) q" "2 \<le> avail (hpmm (kheap (pkm (plat (kdev k3)))))"
      "files (kdev k3) = files (kdev k)" "ksched k3 = ksched k" "cur_fds k3 = cur_fds k" "karchive k3 = karchive k"
    using assms(1,4) q(3,4,6) by (simp_all add: q(1) kernel_simps)
  moreover have "tarfsGetFize (ubytes (kusr k3)) (karchive k) name = Some (Inr (int (length data)))"
    using tarfsGetFize_correct [of "ubytes (kusr k3)" "karchive k" es name] ok3 nz assms(8,10) by (simp add: archive_ok_def q(1) kernel_simps)
  ultimately show ?thesis
    using open_file_ok [of k3 q es name data i frame] ok3 nz assms(8-14) q(7) by simp
qed

section \<open>A session on a small archive\<close>

text \<open>
  The archive with the one file \<open>./a\<close>, placed in the kernel half, its name at a user address;
  descriptor 3 has it open and is also the next one to be given out.
\<close>

definition demo_session :: "kmemory \<Rightarrow> kernel" where
  "demo_session m = demo_kernel\<lparr>kusr := (demo_user 0)\<lparr>ubytes := (\<lambda>x. if x = 0xFFFF800000009000 then 9
       else if x = 0x1000 then 47 else if x = 0x1001 then 97 else if x = 0x1002 then 0 else demo_tar (x - 0xFFFFF00000000000))\<rparr>,
     karchive := 0xFFFFF00000001000, syscalls := replicate 5 None @ [Some Sys_read, Some Sys_seek] @ replicate 249 None,
     kdev := demo_devices\<lparr>files := [\<lparr>fpath = [47, 97], ops = Tar_ops\<rparr>], plat := demo_platform\<lparr>pkm := m\<rparr>\<rparr>,
     ksched := (ksched demo_kernel)\<lparr>thr := (\<lambda>_. (demo_thread 1 0 0)\<lparr>next_fd := 3, fds := replicate 256
       \<lparr>file_name = (KERNEL_BASE, [47, 97]), file_data = 0xFFFF800000009000, seek_pos = 0\<rparr>\<rparr>)\<rparr>\<rparr>"

abbreviation demo_entry :: tar_entry where
  "demo_entry \<equiv> \<lparr>te_name = [47, 97], te_data = [9]\<rparr>"

lemma demo_session_archive: "archive_ok [demo_entry] (demo_session m)"
proof -
  let ?m = "ubytes (kusr (demo_session m))" and ?p = "0xFFFFF00000001000"
  have sz: "tar_size ?m ?p = 1"
    by (simp add: tar_size_def slice_def upt_rec demo_tar_def demo_session_def)
  have "archive_at ?m ?p [demo_entry]"
    by (simp add: entry_at_def sz entry_blocks_def)
      (simp add: mem_is_def slice_def upt_rec ustar_def demo_tar_def demo_session_def)
  then show ?thesis
    by (simp add: archive_ok_def archive_fits_def archive_size_def entry_blocks_def)
      (simp add: demo_session_def KERNEL_BASE_def)
qed

lemma demo_session_ok: "calm (demo_session m)" "kernel_mapped (kusr (demo_session m))"
    "syscalls (demo_session m) ! 5 = Some Sys_read" "syscalls (demo_session m) ! 6 = Some Sys_seek" "pkm (plat (kdev (demo_session m))) = m"
  by (simp_all add: demo_session_def calm_def demo_kernel_def demo_sched_def spinlock_init_def kernel_mapped_def demo_user_def not_less nth_append)

lemma demo_session_open: "file_open [demo_entry] (demo_session m) 3 [9] 0"
  by (simp add: file_open_def cur_fds_def fd_holds_def tar_lookup_def)
    (simp add: demo_session_def KERNEL_BASE_def slice_def upt_rec)

theorem sys_seek_panics_witness:
  "sys_seek ((demo_sysframe 0x7FFFFFFFFFFFFFFF)\<lparr>sf_rbx := 3, sf_rsi := 2\<rparr>) (demo_session demo_kmem) = Some (Inl (Panic ''UBSAN: Add overflow''))"
  using demo_session_open [of demo_kmem]
  by (intro sys_seek_panics [OF demo_session_ok(1) demo_session_archive, where data = "[9]" and pos = 0]) (simp_all add: demo_sysframe_def)


theorem sys_open_correct_witness:
  "\<exists>k k'. sys_open (demo_sysframe 0) k = Some (Inr ((demo_sysframe 0)\<lparr>sf_rax := 3\<rparr>, k')) \<and> file_open [demo_entry] k' 3 [9] 0"
proof -
  obtain m where m: "heap_ok m" "avail (hpmm (kheap m)) = 9" using demo_heap_ok .
  let ?k = "demo_session m"
  have "unat a < 0xFFFFF00000001000" if "in_frame (hpmm (kheap m)) a 1" for a
  proof -
    have "unat a < unat VALLOC_RANGE_START" using m(1) that by (auto simp: heap_ok_def hhdm_below_def in_frame_def)
    then show ?thesis by (simp add: VALLOC_RANGE_START_def)
  qed
  then have "archive_apart [demo_entry] ?k"
    unfolding archive_apart_def demo_session_ok by (simp add: demo_session_def)
  moreover have "user_string (kusr ?k) (sf_rbx (demo_sysframe 0)) [47, 97]"
    by (simp add: user_string_def demo_session_def demo_sysframe_def mem_is_def slice_def upt_rec can_read_def rflags_set_ac_def demo_user_def)
  moreover have "fs_find (files (kdev ?k)) [47, 97] = Some Tar_ops" by (simp add: demo_session_def strcmp_str_0)
  ultimately have "\<exists>k'. sys_open (demo_sysframe 0) ?k = Some (Inr ((demo_sysframe 0)\<lparr>sf_rax := of_nat 3\<rparr>, k')) \<and> archive_ok [demo_entry] k'
      \<and> file_open [demo_entry] k' 3 [9] 0 \<and> heap_ok (pkm (plat (kdev k')))"
    using m demo_session_ok [of m]
    by (intro sys_open_correct [OF _ _ _ _ demo_session_archive, where name = "[47, 97]"])
      (simp_all add: tar_lookup_def cur_fds_def, simp_all add: demo_session_def)
  then show ?thesis by (auto simp: numeral_3_eq_3)
qed

theorem sys_open_overruns_witness: "\<exists>k. sys_open (demo_sysframe 0) k = out_of_bounds"
proof -
  obtain m where "heap_ok m" "avail (hpmm (kheap m)) = 9" using demo_heap_ok .
  then have "sys_open (demo_sysframe 0) (demo_call 300 m) = out_of_bounds"
    using demo_user_string [of 300] demo_call_ok
    by (intro sys_open_overruns [where str = "replicate 300 97"]) (simp_all add: demo_sysframe_def)
  then show ?thesis by blast
qed

end
