(* ===== verification/Cmdline.thy ===== *)
theory Cmdline
  imports Interrupts
begin

text \<open>
  The kernel's command line (\<open>utils/cmdline.c\<close>): the text the boot loader passes is cut into
  words in place, each word is put into lower case and compared with the known options. The
  walk over the bytes is shown to be the application of the options to the words of the
  text, in order.
\<close>

section \<open>The code\<close>

text \<open>The kernel with the flag of this file that no other record holds.\<close>

record machine =
  kern :: kernel
  dbg_enabled :: bool

definition enable_serial :: "machine \<Rightarrow> machine" where
  "enable_serial s = s\<lparr>kern := (kern s)\<lparr>kdev := (kdev (kern s))\<lparr>serial_enabled := True\<rparr>\<rparr>\<rparr>"

definition set_serial_port :: "u16 \<Rightarrow> machine \<Rightarrow> machine" where
  "set_serial_port p s = s\<lparr>kern := (kern s)\<lparr>kdev := (kdev (kern s))\<lparr>serial_port := p\<rparr>\<rparr>\<rparr>"

definition enable_stub :: "machine \<Rightarrow> machine" where
  "enable_stub s = s\<lparr>kern := (kern s)\<lparr>ksched := (ksched (kern s))\<lparr>dbgstub_enabled := True\<rparr>\<rparr>\<rparr>"

text \<open>The chain of comparisons for one word.\<close>

definition apply_arg :: "u8 list \<Rightarrow> machine \<Rightarrow> machine" where
  "apply_arg arg s =
     (if strcmp_str (bytes_of ''serial=hv'') arg = 0
      then (if cpu_feature_bit 1 0 CHR ''c'' 31 (plat (kdev (kern s))) then enable_serial s else s)
      else if strcmp_str (bytes_of ''serial=on'') arg = 0 then enable_serial s
      else if strncmp_str (bytes_of ''serial='') arg 7 = 0
      then set_serial_port (ucast (strtoll (drop 7 arg) 0)) (enable_serial s)
      else if strcmp_str (bytes_of ''dbg=on'') arg = 0 then s\<lparr>dbg_enabled := True\<rparr>
      else if strcmp_str (bytes_of ''debug=on'') arg = 0 then s\<lparr>dbg_enabled := True\<rparr>
      else if strcmp_str (bytes_of ''dbg=stub'') arg = 0 then enable_stub (s\<lparr>dbg_enabled := True\<rparr>)
      else if strcmp_str (bytes_of ''debug=stub'') arg = 0 then enable_stub s
      else s)"

text \<open>\<open>arg[i] = tolower(arg[i])\<close> on a signed character.\<close>

definition lower_char :: "u8 \<Rightarrow> u8" where
  "lower_char c = word_of_int (tolower (sint c))"

partial_function (option) skip_spaces :: "mem \<Rightarrow> u64 \<Rightarrow> u64 option" where
  "skip_spaces m cmdline = (if m cmdline = 32 then skip_spaces m (cmdline + 1) else Some cmdline)"

partial_function (option) skip_word :: "mem \<Rightarrow> u64 \<Rightarrow> u64 option" where
  "skip_word m cmdline = (if m cmdline \<noteq> 0 \<and> m cmdline \<noteq> 32 then skip_word m (cmdline + 1) else Some cmdline)"

partial_function (option) lower_arg :: "mem \<Rightarrow> u64 \<Rightarrow> mem option" where
  "lower_arg m arg = (if m arg \<noteq> 0 then lower_arg (m(arg := lower_char (m arg))) (arg + 1) else Some m)"

partial_function (option) cmdline_loop :: "mem \<Rightarrow> u64 \<Rightarrow> machine \<Rightarrow> (mem \<times> machine) option" where
  "cmdline_loop m cmdline s =
     (if m cmdline = 0 then Some (m, s)
      else
        Option.bind (skip_word m cmdline) (\<lambda>e.
          let m1 = (if m e \<noteq> 0 then m(e := 0) else m);
              c1 = (if m e \<noteq> 0 then e + 1 else e)
          in Option.bind (skip_spaces m1 c1) (\<lambda>c2.
             Option.bind (lower_arg m1 cmdline) (\<lambda>m2.
             Option.bind (cstring m2 cmdline) (\<lambda>arg.
               cmdline_loop m2 c2 (apply_arg arg s))))))"

definition setup_cmdline :: "u64 \<Rightarrow> machine \<Rightarrow> machine option" where
  "setup_cmdline cmdline s =
     (if cmdline = 0 then Some s
      else
        Option.bind (skip_spaces (ubytes (kusr (kern s))) cmdline) (\<lambda>c.
        Option.bind (cmdline_loop (ubytes (kusr (kern s))) c s) (\<lambda>(m, s1).
          Some (s1\<lparr>kern := (kern s1)\<lparr>kusr := (kusr (kern s1))\<lparr>ubytes := m\<rparr>\<rparr>\<rparr>))))"

section \<open>The words of a text\<close>

function words :: "u8 list \<Rightarrow> u8 list list" where
  "words str = (case dropWhile (\<lambda>c. c = 32) str of [] \<Rightarrow> []
     | c # cs \<Rightarrow> takeWhile (\<lambda>c. c \<noteq> 32) (c # cs) # words (dropWhile (\<lambda>c. c \<noteq> 32) (c # cs)))"
  by auto
termination
proof (relation "measure length")
  fix str c and cs :: "u8 list" assume e: "dropWhile (\<lambda>c. c = 32) str = c # cs"
  then have "c \<noteq> 32" using hd_dropWhile [of "\<lambda>c. c = 32" str] by force
  moreover have "length (c # cs) \<le> length str" using e length_dropWhile_le [of "\<lambda>c. c = 32" str] by metis
  ultimately show "(dropWhile (\<lambda>c. c \<noteq> 32) (c # cs), str) \<in> measure length"
    using length_dropWhile_le [of "\<lambda>c. c \<noteq> 32" cs] by simp
qed simp

declare words.simps [simp del]

lemma words_spaces: "words (dropWhile (\<lambda>c. c = 32) str) = words str"
  by (subst (1 2) words.simps) simp

lemma words_word:
  assumes "str \<noteq> []" "hd str \<noteq> 32"
  shows "words str = takeWhile (\<lambda>c. c \<noteq> 32) str # words (dropWhile (\<lambda>c. c \<noteq> 32) str)"
  using assms by (subst words.simps) (cases str; simp)

section \<open>The walk over the bytes\<close>

lemma cstr_at_drop: "cstr_at m p str \<Longrightarrow> n \<le> length str \<Longrightarrow> cstr_at m (p + of_nat n) (drop n str)"
proof (induction str arbitrary: p n)
  case (Cons c str)
  then show ?case using Cons.IH [of "p + 1" "n - 1"] by (cases n) (auto simp: add.assoc)
qed simp

lemma skip_spaces_str: "cstr_at m p str \<Longrightarrow> skip_spaces m p = Some (p + of_nat (length (takeWhile (\<lambda>c. c = 32) str)))"
  by (induction str arbitrary: p) (subst skip_spaces.simps; auto simp: add.assoc)+

lemma skip_word_str: "cstr_at m p str \<Longrightarrow> skip_word m p = Some (p + of_nat (length (takeWhile (\<lambda>c. c \<noteq> 32) str)))"
  by (induction str arbitrary: p) (subst skip_word.simps; auto simp: add.assoc)+

lemma cstring_cstr: "cstr_at m p str \<Longrightarrow> cstring m p = Some str"
  by (induction str arbitrary: p) (subst cstring.simps; auto)+

lemma cstr_at_nth:
  "cstr_at m p w \<longleftrightarrow> (\<forall>i < length w. m (p + of_nat i) = w ! i \<and> w ! i \<noteq> 0) \<and> m (p + of_nat (length w)) = 0"
proof (induction w arbitrary: p)
  case (Cons c w)
  have "(\<forall>i < length (c # w). m (p + of_nat i) = (c # w) ! i \<and> (c # w) ! i \<noteq> 0) \<longleftrightarrow>
      m p = c \<and> c \<noteq> 0 \<and> (\<forall>i < length w. m (p + 1 + of_nat i) = w ! i \<and> w ! i \<noteq> 0)"
    by (auto simp: less_Suc_eq_0_disj add.assoc)
  then show ?case by (simp only: cstr_at.simps Cons.IH) (auto simp: add.assoc)
qed simp

lemma lower_char_nonzero: "c \<noteq> 0 \<Longrightarrow> lower_char c \<noteq> 0"
proof
  assume c: "c \<noteq> 0" "lower_char c = 0"
  then have r: "65 \<le> sint c" "c + 32 = 0" by (auto simp: lower_char_def tolower_def split: if_splits)
  then have "c = - 32" by (simp add: eq_neg_iff_add_eq_0)
  then show False using r(1) by simp
qed

lemma lower_arg_str:
  assumes "cstr_at m p w" "unat p + length w < 2 ^ 64"
  shows "\<exists>m'. lower_arg m p = Some m' \<and> cstr_at m' p (map lower_char w)
    \<and> (\<forall>a. unat a < unat p \<or> unat p + length w \<le> unat a \<longrightarrow> m' a = m a)"
  using assms
proof (induction w arbitrary: m p)
  case Nil
  then show ?case by (subst lower_arg.simps) simp
next
  case (Cons c w)
  define m0 where "m0 = m(p := lower_char c)"
  have p1: "unat (p + 1) = unat p + 1" using Cons.prems(2) by (simp add: unat_add_no_wrap)
  have "m0 (p + 1 + of_nat i) = m (p + 1 + of_nat i)" if "i \<le> length w" for i
  proof -
    have "unat (p + 1 + of_nat i) = unat p + 1 + i" using p1 Cons.prems(2) that by (simp add: unat_add_no_wrap unat_of_nat64)
    then have "p + 1 + of_nat i \<noteq> p" by (metis add.assoc add_cancel_right_right plus_1_eq_Suc nat.distinct(1))
    then show ?thesis by (simp add: m0_def)
  qed
  then have "cstr_at m0 (p + 1) w" using cstr_at_cong [of w m0 "p + 1" m] Cons.prems(1) by simp
  then obtain m' where m': "lower_arg m0 (p + 1) = Some m'" "cstr_at m' (p + 1) (map lower_char w)"
      "\<And>a. unat a < unat p + 1 \<or> unat p + 1 + length w \<le> unat a \<Longrightarrow> m' a = m0 a"
    using Cons.IH [of m0 "p + 1"] Cons.prems(2) p1 by auto
  have "lower_arg m p = Some m'" using Cons.prems(1) m'(1) by (subst lower_arg.simps) (simp add: m0_def)
  moreover have "m' p = lower_char c" using m'(3) [of p] by (simp add: m0_def)
  moreover have "m' a = m a" if "unat a < unat p \<or> unat p + length (c # w) \<le> unat a" for a
  proof -
    have "a \<noteq> p" using that by auto
    then show ?thesis using m'(3) [of a] that by (auto simp: m0_def)
  qed
  ultimately show ?case using m'(2) Cons.prems(1) lower_char_nonzero [of c] by auto
qed

text \<open>Cutting off the first word: it ends in a NUL now, and the text behind it is as before.\<close>

lemma cut_word:
  assumes "cstr_at m p str" "unat p + length str < 2 ^ 64" "str = w @ rest" "e = p + of_nat (length w)"
    and "m1 = (if m e \<noteq> 0 then m(e := 0) else m)" "c1 = (if m e \<noteq> 0 then e + 1 else e)"
  shows "cstr_at m1 p w" and "cstr_at m1 c1 (tl rest)"
    and "unat c1 = unat p + (length str - length (tl rest))" and "length w \<le> length str - length (tl rest)"
proof -
  have off: "unat (p + of_nat i) = unat p + i" if "i \<le> length str" for i
    using assms(2) that by (simp add: unat_add_no_wrap unat_of_nat64)
  have e: "unat e = unat p + length w" using off [of "length w"] assms(3,4) by simp
  have same: "m1 a = m a" if "unat a \<noteq> unat e" for a using that assms(5) by auto
  have "m1 (p + of_nat i) = w ! i \<and> w ! i \<noteq> 0" if "i < length w" for i
    using same [of "p + of_nat i"] off [of i] e assms(1,3) that by (auto simp: cstr_at_nth nth_append dest: spec [of _ i])
  then show "cstr_at m1 p w" using assms(4,5) by (simp add: cstr_at_nth)
  have rst: "cstr_at m e rest" using cstr_at_drop [OF assms(1), of "length w"] assms(3,4) by simp
  have "cstr_at m1 c1 (tl rest) \<and> unat c1 = unat p + (length str - length (tl rest)) \<and> length w \<le> length str - length (tl rest)"
  proof (cases rest)
    case Nil
    then show ?thesis using rst e assms(3,5,6) by simp
  next
    case (Cons c cs)
    then have c1: "c1 = e + 1" "cstr_at m c1 cs" using rst assms(6) by auto
    have u: "unat c1 = unat p + (length w + 1)" using c1(1) off [of "length w + 1"] assms(3,4) Cons by (simp add: ac_simps)
    have "m1 (c1 + of_nat i) = m (c1 + of_nat i)" if "i \<le> length cs" for i
    proof (rule same)
      have "unat (c1 + of_nat i) = unat c1 + i" using u assms(2,3) Cons that by (subst unat_add_no_wrap) (auto simp: unat_of_nat64)
      then show "unat (c1 + of_nat i) \<noteq> unat e" using u e by simp
    qed
    then show ?thesis using cstr_at_cong [of cs m1 c1 m] c1(2) u Cons assms(3) by simp
  qed
  then show "cstr_at m1 c1 (tl rest)" "unat c1 = unat p + (length str - length (tl rest))" "length w \<le> length str - length (tl rest)"
    by simp_all
qed

lemma words_cut:
  assumes "str \<noteq> []" "hd str \<noteq> 32" "rest = dropWhile (\<lambda>c. c \<noteq> 32) str"
  shows "words str = takeWhile (\<lambda>c. c \<noteq> 32) str # words (dropWhile (\<lambda>c. c = 32) (tl rest))"
proof -
  have "words rest = words (tl rest)"
  proof (cases rest)
    case (Cons c cs)
    then have "c = 32" using hd_dropWhile [of "\<lambda>c. c \<noteq> 32" str] assms(3) by simp
    then show ?thesis using Cons words_spaces [of rest] words_spaces [of cs] by simp
  qed simp
  then show ?thesis using words_word [OF assms(1,2)] words_spaces [of "tl rest"] assms(3) by simp
qed

text \<open>The loop, on a text that starts with a word.\<close>

lemma cmdline_loop_words:
  assumes "cstr_at m p str" "unat p + length str < 2 ^ 64" "str \<noteq> [] \<Longrightarrow> hd str \<noteq> 32"
  shows "\<exists>m'. cmdline_loop m p s = Some (m', fold apply_arg (map (map lower_char) (words str)) s)"
  using assms
proof (induction "length str" arbitrary: m p str s rule: less_induct)
  case less
  show ?case
  proof (cases "str = []")
    case True
    then show ?thesis using less.prems(1) by (subst cmdline_loop.simps) (simp add: words.simps)
  next
    case False
    define w rest where "w = takeWhile (\<lambda>c. c \<noteq> 32) str" and "rest = dropWhile (\<lambda>c. c \<noteq> 32) str"
    have str: "str = w @ rest" by (simp add: w_def rest_def)
    have w: "w \<noteq> []" using False less.prems(3) by (cases str) (auto simp: w_def)
    define e where "e = p + of_nat (length w)"
    have skip: "skip_word m p = Some e" using skip_word_str [OF less.prems(1)] by (simp add: w_def e_def)
    have nz: "m p \<noteq> 0" using less.prems(1) False by (cases str) auto
    define m1 c1 where "m1 = (if m e \<noteq> 0 then m(e := 0) else m)" and "c1 = (if m e \<noteq> 0 then e + 1 else e)"
    note c = cut_word [OF less.prems(1,2) str e_def m1_def c1_def]
    define t where "t = takeWhile (\<lambda>c. c = 32) (tl rest)"
    have tl: "length t \<le> length (tl rest)" using length_takeWhile_le [of _ "tl rest"] by (simp add: t_def)
    have ft: "unat (c1 + of_nat i) = unat c1 + i" if "i \<le> length (tl rest)" for i
      using c(3) less.prems(2) that str by (subst unat_add_no_wrap) (auto simp: unat_of_nat64)
    have sp: "skip_spaces m1 c1 = Some (c1 + of_nat (length t))" using skip_spaces_str [OF c(2)] by (simp add: t_def)
    obtain m2 where m2: "lower_arg m1 p = Some m2" "cstr_at m2 p (map lower_char w)" "\<And>a. unat p + length w \<le> unat a \<Longrightarrow> m2 a = m1 a"
      using lower_arg_str [OF c(1)] less.prems(2) str by auto
    let ?r = "dropWhile (\<lambda>c. c = 32) (tl rest)" and ?s = "apply_arg (map lower_char w) s"
    have "m2 (c1 + of_nat i) = m1 (c1 + of_nat i)" if "i \<le> length (tl rest)" for i
      using m2(3) [of "c1 + of_nat i"] ft [OF that] c(3,4) by simp
    then have "cstr_at m2 (c1 + of_nat (length t)) ?r"
      using cstr_at_cong [of "tl rest" m2 c1 m1] c(2) cstr_at_drop [OF _ tl] by (simp add: t_def dropWhile_eq_drop)
    moreover have "length ?r < length str" using w str length_dropWhile_le [of "\<lambda>c. c = 32" "tl rest"] by (cases w) auto
    moreover have "unat (c1 + of_nat (length t)) + length ?r < 2 ^ 64"
      using ft [OF tl] c(3) less.prems(2) str tl by (simp add: t_def dropWhile_eq_drop)
    moreover have "?r \<noteq> [] \<Longrightarrow> hd ?r \<noteq> 32" using hd_dropWhile [of "\<lambda>c. c = 32" "tl rest"] by auto
    ultimately obtain m' where m': "cmdline_loop m2 (c1 + of_nat (length t)) ?s = Some (m', fold apply_arg (map (map lower_char) (words ?r)) ?s)"
      using less.hyps by blast
    have "cmdline_loop m p s = cmdline_loop m2 (c1 + of_nat (length t)) ?s"
      using nz skip sp m2(1) cstring_cstr [OF m2(2)]
      by (subst cmdline_loop.simps) (simp add: Let_def m1_def [symmetric] c1_def [symmetric])
    then show ?thesis using m' words_cut [OF False less.prems(3) [OF False] rest_def] by (simp add: w_def)
  qed
qed


text \<open>Two options that do not do what they say: the long spelling leaves logging off, and \<open>serial=off\<close> turns port 0 on.\<close>

lemma stub_spellings:
  "dbg_enabled (apply_arg (bytes_of ''dbg=stub'') s)" "dbg_enabled (apply_arg (bytes_of ''debug=stub'') s) = dbg_enabled s"
proof -
  have c: "strcmp_str (bytes_of ''serial=hv'') (bytes_of o1) \<noteq> 0 \<and> strcmp_str (bytes_of ''serial=on'') (bytes_of o1) \<noteq> 0
      \<and> strncmp_str (bytes_of ''serial='') (bytes_of o1) 7 \<noteq> 0 \<and> strcmp_str (bytes_of ''dbg=on'') (bytes_of o1) \<noteq> 0
      \<and> strcmp_str (bytes_of ''debug=on'') (bytes_of o1) \<noteq> 0" if "o1 = ''dbg=stub'' \<or> o1 = ''debug=stub''" for o1
    using that by (elim disjE; simp; code_simp)
  have "strcmp_str (bytes_of ''dbg=stub'') (bytes_of ''dbg=stub'') = 0" "strcmp_str (bytes_of ''dbg=stub'') (bytes_of ''debug=stub'') \<noteq> 0"
    "strcmp_str (bytes_of ''debug=stub'') (bytes_of ''debug=stub'') = 0" by code_simp+
  then show "dbg_enabled (apply_arg (bytes_of ''dbg=stub'') s)" "dbg_enabled (apply_arg (bytes_of ''debug=stub'') s) = dbg_enabled s"
    using c [of "''dbg=stub''"] c [of "''debug=stub''"] by (simp_all add: apply_arg_def enable_stub_def)
qed

lemma serial_off_enables: "apply_arg (bytes_of ''serial=off'') s = set_serial_port 0 (enable_serial s)"
proof -
  have "ucast (strtoll (drop 7 (bytes_of ''serial=off'')) 0) = (0 :: u16)" by code_simp
  moreover have "strcmp_str (bytes_of ''serial=hv'') (bytes_of ''serial=off'') \<noteq> 0" "strcmp_str (bytes_of ''serial=on'') (bytes_of ''serial=off'') \<noteq> 0"
    "strncmp_str (bytes_of ''serial='') (bytes_of ''serial=off'') 7 = 0" by code_simp+
  ultimately show ?thesis by (simp only: apply_arg_def if_False if_True simp_thms)
qed

text \<open>A line with a leading space, capitals and a port in hexadecimal.\<close>

definition demo_machine :: "string \<Rightarrow> machine" where
  "demo_machine line = \<lparr>kern = demo_kernel\<lparr>kusr := (kusr demo_kernel)\<lparr>ubytes := (\<lambda>a. if unat (a - 0x1000) < length line
     then bytes_of line ! unat (a - 0x1000) else 0)\<rparr>\<rparr>, dbg_enabled = False\<rparr>"

lemma demo_line: "cstr_at (ubytes (kusr (kern (demo_machine '' SERIAL=0x2f8 dbg=on'')))) 0x1000 (bytes_of '' SERIAL=0x2f8 dbg=on'')"
  by (simp add: demo_machine_def bytes_of_def)


end
