(* ===== verification/Shell.thy ===== *)
theory Shell
  imports Console_Calls
begin

text \<open>
  The kernel's command line interpreter (\<open>apps/shell.c\<close>): the line editor with its 64-byte
  buffer, the commands, and the start of user programs. The editor is shown to hand the
  line as typed and corrected to \<open>execute_commands\<close>, never to leave its buffer, and the
  commands to be recognised in any case of letters.
\<close>

section \<open>Starting programs\<close>

text \<open>
  What the shell takes from outside: the address of \<open>spawn_app_kthread\<close>, the memory map of the
  boot loader, and what other threads do each time the shell gives up the processor.
\<close>

record shell_env =
  app_entry :: u64
  memmap :: "limine_memmap_entry list"
  turns :: "nat \<Rightarrow> dispatch_env"

definition sizeof_pagemap :: u64 where "sizeof_pagemap = 24"
definition sizeof_page_range :: u64 where "sizeof_page_range = 56"

text \<open>\<open>new_pagemap\<close> with the two heap blocks it takes; the page map lives at the address of the first.\<close>

definition knew_pagemap :: "kernel \<Rightarrow> (u64 \<times> kernel) kres option" where
  "knew_pagemap k =
     kobind (Some (new_pagemap (kernel_pagemap (pkm (plat (kdev k)))) (hpmm (kheap (pkm (plat (kdev k))))))) (\<lambda>(pm, s).
     kobind (zalloc sizeof_pagemap (set_kpmm s (pkm (plat (kdev k))))) (\<lambda>(p, m1).
     kobind (zalloc sizeof_page_range m1) (\<lambda>(_, m2).
       Some (Inr (p, set_pagemap p pm (set_kmem m2 k))))))"

definition kstrdup :: "u8 list \<Rightarrow> kernel \<Rightarrow> (u64 \<times> kernel) kres option" where
  "kstrdup str k =
     kobind (kalloc (of_nat (length str) + 1) k) (\<lambda>(copy, k1).
       if copy = 0 then Some (Inr (0, k1))
       else Some (Inr (copy, k1\<lparr>kusr := (kusr k1)\<lparr>ubytes := poke_bytes (ubytes (kusr k1)) copy (str @ [0])\<rparr>\<rparr>)))"

definition start_app :: "shell_env \<Rightarrow> string \<Rightarrow> kernel \<Rightarrow> kernel kres option" where
  "start_app e name k =
     kobind (knew_pagemap k) (\<lambda>(pagemap, k1).
     kobind (kstrdup (bytes_of name) k1) (\<lambda>(pth, k2).
       in_sched (create_thread (app_entry e) pagemap \<lparr>arg1 = pth, arg2 = 0, arg3 = 0, arg4 = 0, arg5 = 0, arg6 = 0\<rparr>) k2))"

section \<open>Commands\<close>

definition upper_char :: "u8 \<Rightarrow> u8" where
  "upper_char c = (if 97 \<le> sint c \<and> sint c \<le> 122 then c - 32 else c)"

text \<open>The result is the static buffer of 256 bytes; \<open>n\<close> is the room left in it.\<close>

fun to_upper_loop :: "u8 list \<Rightarrow> nat \<Rightarrow> u8 list" where
  "to_upper_loop [] n = []"
| "to_upper_loop (c # s) 0 = []"
| "to_upper_loop (c # s) (Suc n) = (if c = 0 then [] else upper_char c # to_upper_loop s n)"

definition to_upper :: "u8 list \<Rightarrow> u8 list" where
  "to_upper s = to_upper_loop s 255"

text \<open>Terminal sequences: clear the line, clear the screen.\<close>

definition clear_line :: "u8 list" where "clear_line = 27 # bytes_of ''[2K'' @ [13]"
definition clear_screen :: "u8 list" where "clear_screen = 27 # bytes_of ''[2J'' @ [27] @ bytes_of ''[H''"

text \<open>\<open>%016llx\<close> and \<open>%-12s\<close>\<close>

definition hex16_bytes :: "u64 \<Rightarrow> u8 list" where
  "hex16_bytes v = bytes_of (hex16 v)"

definition pad_right :: "nat \<Rightarrow> u8 list \<Rightarrow> u8 list" where
  "pad_right n s = s @ replicate (n - length s) 32"

definition memmap_type_name :: "limine_memmap_type \<Rightarrow> string" where
  "memmap_type_name t = (case t of
       LIMINE_MEMMAP_USABLE \<Rightarrow> ''Usable''
     | LIMINE_MEMMAP_RESERVED \<Rightarrow> ''Reserved''
     | LIMINE_MEMMAP_ACPI_RECLAIMABLE \<Rightarrow> ''ACPI Reclaimable''
     | LIMINE_MEMMAP_ACPI_NVS \<Rightarrow> ''ACPI NVS''
     | LIMINE_MEMMAP_BAD_MEMORY \<Rightarrow> ''Bad Memory''
     | LIMINE_MEMMAP_BOOTLOADER_RECLAIMABLE \<Rightarrow> ''Bootloader Reclaimable''
     | LIMINE_MEMMAP_EXECUTABLE_AND_MODULES \<Rightarrow> ''Executable and Modules''
     | LIMINE_MEMMAP_FRAMEBUFFER \<Rightarrow> ''Framebuffer''
     | LIMINE_MEMMAP_OTHER _ \<Rightarrow> ''Unknown'')"

primrec print_entries :: "limine_memmap_entry list \<Rightarrow> kernel \<Rightarrow> kernel kres option" where
  "print_entries [] k = Some (Inr k)"
| "print_entries (e # es) k =
     kobind (kputs (bytes_of ''0x'' @ hex16_bytes (me_base e + hhdmOffset (hpmm (kheap (pkm (plat (kdev k))))))
         @ bytes_of ''   0x'' @ hex16_bytes (me_length e) @ bytes_of ''   '' @ pad_right 12 (bytes_of (memmap_type_name (me_type e))) @ [10]) k)
       (print_entries es)"

definition printMemoryMap :: "limine_memmap_entry list \<Rightarrow> kernel \<Rightarrow> kernel kres option" where
  "printMemoryMap es k =
     kobind (kputs (bytes_of ''Memory Map:'' @ [10]) k) (\<lambda>k1.
     kobind (kputs (bytes_of ''VIRTUAL ADDRESS      LENGTH IN BYTES      MEMORY TYPE'' @ [10]) k1) (print_entries es))"

text \<open>The pager of \<open>CREDITS\<close>: the wait for a key, then the walk over the text.\<close>

partial_function (option) await_key :: "shell_env \<Rightarrow> nat \<Rightarrow> bool \<Rightarrow> kernel \<Rightarrow> (nat \<times> kernel) kres option" where
  "await_key e n printed k =
     kobind (if printed then Some (Inr k) else kputs (bytes_of ''Press any key to continute'') k) (\<lambda>k1.
     kobind (kschedule (turns e n) k1) (\<lambda>k2.
     kobind (kfs_read (bytes_of ''/dev/kbd'') [0] 1 k2) (\<lambda>x. case x of (_, key, k3) \<Rightarrow>
       if hd key = 0 then await_key e (Suc n) True k3 else Some (Inr (Suc n, k3)))))"

partial_function (option) credits_loop ::
  "shell_env \<Rightarrow> nat \<Rightarrow> u64 \<Rightarrow> u64 \<Rightarrow> nat \<Rightarrow> bool \<Rightarrow> kernel \<Rightarrow> (nat \<times> u64 \<times> kernel) kres option" where
  "credits_loop e n ptr lineStart lineCount printed k =
     (if ubytes (kusr k) ptr = 0 then Some (Inr (n, lineStart, k))
      else
        kobind (if printed then kputs clear_line k else Some (Inr k)) (\<lambda>k1.
        kobind (if ubytes (kusr k1) ptr = 10
                then
                  (let k2 = k1\<lparr>kusr := (kusr k1)\<lparr>ubytes := (ubytes (kusr k1))(ptr := 0)\<rparr>\<rparr>
                   in kobind (kstring_at lineStart k2) (\<lambda>line.
                      kobind (kputs (line @ [10]) k2) (\<lambda>k3. Some (Inr (ptr + 1, Suc lineCount, k3)))))
                else Some (Inr (lineStart, lineCount, k1))) (\<lambda>x. case x of (start, count, k4) \<Rightarrow>
          if count = 20
          then kobind (await_key e n False k4) (\<lambda>y. case y of (n1, k5) \<Rightarrow> credits_loop e n1 (ptr + 1) start 0 True k5)
          else credits_loop e n (ptr + 1) start count False k4)))"

definition cmd_credits :: "shell_env \<Rightarrow> nat \<Rightarrow> kernel \<Rightarrow> (nat \<times> kernel) kres option" where
  "cmd_credits e n k =
     kobind (kalloc (16 * 1024) k) (\<lambda>(data, k1).
     kobind (read_into (bytes_of ''/credits.txt'') data (16 * 1024) k1) (\<lambda>(_, k2).
     kobind (credits_loop e n data data 0 False k2) (\<lambda>(n1, lineStart, k3).
     kobind (if ubytes (kusr k3) lineStart \<noteq> 0
             then kobind (kstring_at lineStart k3) (\<lambda>line. kputs (line @ [10]) k3) else Some (Inr k3)) (\<lambda>k4.
     kobind (krelease data k4) (\<lambda>k5. Some (Inr (n1, k5)))))))"

text \<open>The loop of \<open>FIREWORKS\<close> with \<open>i\<close> rounds behind it and \<open>r\<close> ahead.\<close>

fun fireworks_loop :: "shell_env \<Rightarrow> nat \<Rightarrow> nat \<Rightarrow> nat \<Rightarrow> kernel \<Rightarrow> (nat \<times> kernel) kres option" where
  "fireworks_loop e n i 0 k = Some (Inr (n, k))"
| "fireworks_loop e n i (Suc r) k =
     kobind (if i mod 100 = 0 then kputs (bytes_of ''FIREWORKS: Spawning #'' @ dec_digits i @ [10]) k else Some (Inr k)) (\<lambda>k1.
       case read_tsc (plat (kdev k1)) of (tsc, h) \<Rightarrow>
     kobind (start_app e ''/hello_world.elf'' (set_plat h k1)) (\<lambda>k2.
     kobind (timer_blocking_sleep_ms ((tsc mod 1) + 1) (plat (kdev k2))) (\<lambda>h2.
     kobind (if i mod 10 = 0 then kschedule (turns e n) (set_plat h2 k2) else Some (Inr (set_plat h2 k2))) (\<lambda>k3.
       fireworks_loop e (if i mod 10 = 0 then Suc n else n) (Suc i) r k3))))"

text \<open>
  The arithmetic of \<open>TEST\<close> on the global \<open>sink\<close>, with the checks the sanitizer adds; the result
  is the new \<open>sink\<close>. The square overflows for most values.
\<close>

definition int_checked :: "string \<Rightarrow> int \<Rightarrow> int kres" where
  "int_checked op v = (if - (2 ^ 31) \<le> v \<and> v < 2 ^ 31 then Inr v else Inl (Panic (''UBSAN: '' @ op @ '' overflow'')))"

definition cmd_test :: "int \<Rightarrow> int kres" where
  "cmd_test sink =
     kbind (int_checked ''Add'' (sint (10 XOR (word_of_int sink) :: u32) + 1)) (\<lambda>v1.
     kbind (int_checked ''Multiply'' (v1 * 2)) (\<lambda>v2.
     kbind (int_checked ''Subtraction'' (v2 - 3)) (\<lambda>v3.
     let v4 = sint ((word_of_int v3 XOR 0x55) :: u32)
     in kbind (int_checked ''Multiply'' (v4 * v4)) (\<lambda>v5. int_checked ''Add'' (v5 + 42)))))"

text \<open>
  \<open>smash_stack\<close> stores 256 bytes into an array of 16; the sanitizer knows the size and stops it at
  the first store outside, before the stack check of \<open>utils/ssp.c\<close> could see anything.
\<close>

fun smash_loop :: "nat \<Rightarrow> nat \<Rightarrow> u8 list \<Rightarrow> u8 list kres" where
  "smash_loop i 0 buf = Inr buf"
| "smash_loop i (Suc n) buf =
     (if i < length buf then smash_loop (Suc i) n (buf[i := of_nat i]) else Inl (Panic ''UBSAN: Out of bounds''))"

definition smash_stack :: "unit kres" where
  "smash_stack = kbind (smash_loop 0 256 (replicate 16 0)) (\<lambda>_. Inr ())"

text \<open>
  The store of \<open>FAULT\<close>, through a pointer to \<open>uint64_t\<close>: the sanitizer panics on a pointer that is not
  aligned, as this one is; an aligned store to a page that is not there would end in the page fault handler.
\<close>

definition fault_store :: "u64 \<Rightarrow> kernel \<Rightarrow> kernel kres option" where
  "fault_store a k =
     (if a AND 7 \<noteq> 0 then Some (Inl (Panic ''UBSAN: Type missmatch''))
      else if page_write (kusr k) a
      then Some (Inr (k\<lparr>kusr := (kusr k)\<lparr>ubytes := poke_bytes (ubytes (kusr k)) a [0xEF, 0xBE, 0xAD, 0xDE, 0, 0, 0, 0]\<rparr>\<rparr>))
      else Some (Inl (Panic (''PF: Kernel process tried to write to a non present page at 0x'' @ hex16 a))))"

text \<open>The state of the interpreter: the kernel, the turns given to other threads so far, and \<open>sink\<close>.\<close>

record shell_state =
  sh_kernel :: kernel
  sh_turn :: nat
  sink :: int

definition sh_do :: "(kernel \<Rightarrow> kernel kres option) \<Rightarrow> shell_state \<Rightarrow> shell_state kres option" where
  "sh_do f s = kobind (f (sh_kernel s)) (\<lambda>k. Some (Inr (s\<lparr>sh_kernel := k\<rparr>)))"

definition sh_turns :: "(nat \<Rightarrow> kernel \<Rightarrow> (nat \<times> kernel) kres option) \<Rightarrow> shell_state \<Rightarrow> shell_state kres option" where
  "sh_turns f s = kobind (f (sh_turn s) (sh_kernel s)) (\<lambda>(n, k). Some (Inr (s\<lparr>sh_kernel := k, sh_turn := n\<rparr>)))"

definition sh_puts :: "string \<Rightarrow> kernel \<Rightarrow> kernel kres option" where
  "sh_puts msg k = kputs (bytes_of msg @ [10]) k"

definition start_and_say :: "shell_env \<Rightarrow> string \<Rightarrow> string \<Rightarrow> kernel \<Rightarrow> kernel kres option" where
  "start_and_say e name msg k = kobind (start_app e name k) (sh_puts msg)"

definition cmd_bash :: "shell_env \<Rightarrow> nat \<Rightarrow> kernel \<Rightarrow> (nat \<times> kernel) kres option" where
  "cmd_bash e n k =
     kobind (start_and_say e ''/bash.elf'' ''Replacing shell with bash'' k) (\<lambda>k1.
     kobind (current k1) (\<lambda>(t, k2).
     kobind (kschedule (turns e n) (set_thread t (sleep_awake_time_update (\<lambda>_. 999999999999999)) k2)) (\<lambda>k3.
       Some (Inr (Suc n, k3)))))"

definition cmd_fireworks :: "shell_env \<Rightarrow> nat \<Rightarrow> kernel \<Rightarrow> (nat \<times> kernel) kres option" where
  "cmd_fireworks e n k =
     kobind (sh_puts ''Started fireworks test with HELLO.elf {64k Iterations; 1ms delay}'' k) (\<lambda>k1.
       fireworks_loop e n 0 (64 * 1024) k1)"

definition is_cmd :: "string \<Rightarrow> u8 list \<Rightarrow> bool" where
  "is_cmd name cmd \<longleftrightarrow> strcmp_str (bytes_of name) (to_upper cmd) = 0"

definition execute_commands :: "shell_env \<Rightarrow> u8 list \<Rightarrow> shell_state \<Rightarrow> shell_state kres option" where
  "execute_commands e cmd s =
     (if is_cmd ''TEST'' cmd
      then kobind (Some (cmd_test (sink s))) (\<lambda>v. sh_do (sh_puts ''Test Command Executed'') (s\<lparr>sink := v\<rparr>))
      else if is_cmd ''CREDITS'' cmd then sh_turns (cmd_credits e) s
      else if is_cmd ''MMAP'' cmd then sh_do (printMemoryMap (memmap e)) s
      else if is_cmd ''BADAPPLE'' cmd then sh_do (start_and_say e ''/badapple.elf'' ''Started playing BAD APPLE in userspace'') s
      else if is_cmd ''HELLO'' cmd then sh_do (start_and_say e ''/hello_world.elf'' ''Started playing HELLO in userspace'') s
      else if is_cmd ''FIREWORKS'' cmd then sh_turns (cmd_fireworks e) s
      else if is_cmd ''DOOM'' cmd then sh_do (start_and_say e ''/doomgeneric.elf'' ''Started playing DOOM in userspace'') s
      else if is_cmd ''BASH'' cmd then sh_turns (cmd_bash e) s
      else if is_cmd ''CLEAR'' cmd \<or> is_cmd ''CLS'' cmd then sh_do (kputs clear_screen) s
      else if is_cmd ''SMASH'' cmd then kobind (Some smash_stack) (\<lambda>_. Some (Inr s))
      else if is_cmd ''PANIC'' cmd then Some (Inl (Panic ''You asked for this lmao''))
      else if is_cmd ''FAULT'' cmd then sh_do (fault_store 0xDEADBEEF) s
      else if is_cmd ''MOUSE_TEST'' cmd
      then Some (Inr (s\<lparr>sh_kernel := (sh_kernel s)\<lparr>kdev := (kdev (sh_kernel s))\<lparr>mouse_dev := enable_mouse_test (mouse_dev (kdev (sh_kernel s)))\<rparr>\<rparr>\<rparr>))
      else if \<not> is_cmd [] cmd then sh_do (kputs (bytes_of ''Invalid Command: '' @ cmd @ [10])) s
      else Some (Inr s))"

section \<open>The line editor\<close>

record editor =
  typingBuffer :: "u8 list"
  typingBufferIndex :: int
  newLineStarted :: bool
  noKeysLeft :: bool

definition editor_init :: editor where
  "editor_init = \<lparr>typingBuffer = replicate 64 0, typingBufferIndex = 0, newLineStarted = True, noKeysLeft = False\<rparr>"

definition store_char :: "int \<Rightarrow> u8 \<Rightarrow> u8 list \<Rightarrow> u8 list kres option" where
  "store_char i c buf = (if 0 \<le> i \<and> i < int (length buf) then Some (Inr (buf[nat i := c])) else out_of_bounds)"

text \<open>The string in the buffer: up to the first NUL, which has to be inside.\<close>

definition buffer_string :: "u8 list \<Rightarrow> u8 list kres option" where
  "buffer_string buf = (if 0 \<in> set buf then Some (Inr (takeWhile (\<lambda>c. c \<noteq> 0) buf)) else out_of_bounds)"

definition shell_backspace :: "editor \<times> shell_state \<Rightarrow> (editor \<times> shell_state) kres option" where
  "shell_backspace = (\<lambda>(ed, s).
     if typingBufferIndex ed - 1 > -1
     then kobind (store_char (typingBufferIndex ed - 1) 0 (typingBuffer ed)) (\<lambda>buf.
          kobind (sh_do (kputs [8, 32, 8]) s) (\<lambda>s1.
            Some (Inr (ed\<lparr>typingBuffer := buf, typingBufferIndex := typingBufferIndex ed - 1\<rparr>, s1))))
     else Some (Inr (ed, s)))"

definition shell_enter :: "shell_env \<Rightarrow> editor \<times> shell_state \<Rightarrow> (editor \<times> shell_state) kres option" where
  "shell_enter e = (\<lambda>(ed, s).
     kobind (sh_do (kputs [10]) s) (\<lambda>s1.
     kobind (buffer_string (typingBuffer ed)) (\<lambda>cmd.
     kobind (execute_commands e cmd s1) (\<lambda>s2.
       Some (Inr (ed\<lparr>typingBufferIndex := 0, typingBuffer := replicate 64 0, newLineStarted := True\<rparr>, s2))))))"

definition shell_insert :: "u8 \<Rightarrow> editor \<times> shell_state \<Rightarrow> (editor \<times> shell_state) kres option" where
  "shell_insert c = (\<lambda>(ed, s).
     if c \<noteq> 0 \<and> typingBufferIndex ed + 1 \<le> 63
     then kobind (store_char (typingBufferIndex ed) c (typingBuffer ed)) (\<lambda>buf.
          kobind (sh_do (kputs [c]) s) (\<lambda>s1.
            Some (Inr (ed\<lparr>typingBuffer := buf, typingBufferIndex := typingBufferIndex ed + 1\<rparr>, s1))))
     else Some (Inr (ed, s)))"

text \<open>One round of the endless loop of \<open>start_shell\<close>, and the first rounds it makes.\<close>

definition shell_round :: "shell_env \<Rightarrow> editor \<times> shell_state \<Rightarrow> (editor \<times> shell_state) kres option" where
  "shell_round e = (\<lambda>(ed, s).
     kobind (if noKeysLeft ed then sh_turns (\<lambda>n k. kobind (kschedule (turns e n) k) (\<lambda>k1. Some (Inr (Suc n, k1)))) s else Some (Inr s)) (\<lambda>s1.
     kobind (if newLineStarted ed
             then kobind (sh_do (kputs clear_line) s1) (sh_do (kputs (bytes_of ''Kernel Shell> '')))
             else Some (Inr s1)) (\<lambda>s2.
     kobind (kfs_read (bytes_of ''/dev/kbd'') [0] 1 (sh_kernel s2)) (\<lambda>(_, keyPressed, k).
       let c = hd keyPressed; s3 = s2\<lparr>sh_kernel := k\<rparr>; ed1 = ed\<lparr>newLineStarted := False, noKeysLeft := (c = 0)\<rparr>
       in if c = 8 \<or> c = 0x7F then shell_backspace (ed1, s3)
          else if c = 10 \<or> c = 13 then shell_enter e (ed1, s3)
          else shell_insert c (ed1, s3)))))"

fun shell_rounds :: "shell_env \<Rightarrow> nat \<Rightarrow> editor \<times> shell_state \<Rightarrow> (editor \<times> shell_state) kres option" where
  "shell_rounds e 0 x = Some (Inr x)"
| "shell_rounds e (Suc n) x = kobind (shell_round e x) (shell_rounds e n)"

definition start_shell :: "shell_env \<Rightarrow> nat \<Rightarrow> shell_state \<Rightarrow> (editor \<times> shell_state) kres option" where
  "start_shell e n s = shell_rounds e n (editor_init, s)"

section \<open>The buffer stays in bounds\<close>

text \<open>The buffer holds a line of at most 63 bytes and zeros behind it; the index is its length.\<close>

definition editor_ok :: "u8 list \<Rightarrow> editor \<Rightarrow> bool" where
  "editor_ok line ed \<longleftrightarrow> typingBuffer ed = line @ replicate (64 - length line) 0 \<and> typingBufferIndex ed = int (length line)
     \<and> length line \<le> 63 \<and> 0 \<notin> set line"

text \<open>What a key does to the line, and what it puts on the screen.\<close>

definition shell_key :: "u8 list \<Rightarrow> u8 \<Rightarrow> u8 list" where
  "shell_key line c = (if c = 8 \<or> c = 0x7F then butlast line else if c \<noteq> 0 \<and> length line < 63 then line @ [c] else line)"

definition key_echo :: "u8 list \<Rightarrow> u8 \<Rightarrow> u8 list" where
  "key_echo line c = (if c = 8 \<or> c = 0x7F then (if line = [] then [] else [8, 32, 8])
     else if c \<noteq> 0 \<and> length line < 63 then [c] else [])"

lemma editor_init_ok: "editor_ok [] editor_init"
  by (simp add: editor_ok_def editor_init_def)

lemma editor_ok_string: "editor_ok line ed \<Longrightarrow> buffer_string (typingBuffer ed) = Some (Inr line)"
proof -
  assume "editor_ok line ed"
  then have b: "typingBuffer ed = line @ 0 # replicate (63 - length line) 0" "0 \<notin> set line"
    by (auto simp: editor_ok_def Suc_diff_le simp flip: replicate_Suc)
  have "takeWhile (\<lambda>c. c \<noteq> 0) line = line" using b(2) by (auto simp: takeWhile_eq_all_conv)
  then have "takeWhile (\<lambda>c. c \<noteq> 0) (line @ 0 # replicate (63 - length line) 0) = line" by (simp add: takeWhile_append)
  then show ?thesis using b by (simp add: buffer_string_def)
qed

lemma editor_ok_flags [simp]: "editor_ok line (ed\<lparr>newLineStarted := a, noKeysLeft := b\<rparr>) = editor_ok line ed"
  by (simp add: editor_ok_def)

lemma editor_erase:
  assumes "editor_ok line ed" "line \<noteq> []"
  shows "\<exists>buf. store_char (typingBufferIndex ed - 1) 0 (typingBuffer ed) = Some (Inr buf)
    \<and> editor_ok (butlast line) (ed\<lparr>typingBuffer := buf, typingBufferIndex := typingBufferIndex ed - 1\<rparr>)"
proof -
  obtain l c where l: "line = l @ [c]" using assms(2) by (cases line rule: rev_cases) auto
  have z: "replicate (64 - length l) (0 :: u8) = 0 # replicate (63 - length l) 0"
  proof -
    have "64 - length l = Suc (63 - length l)" using assms(1) l unfolding editor_ok_def by auto
    then show ?thesis by simp
  qed
  have "(l @ c # replicate (63 - length l) 0)[length l := 0] = l @ replicate (64 - length l) 0" by (simp add: z)
  then show ?thesis using assms(1) l by (simp add: editor_ok_def store_char_def nat_diff_distrib)
qed

lemma editor_insert:
  assumes "editor_ok line ed" "length line < 63" "c \<noteq> 0"
  shows "\<exists>buf. store_char (typingBufferIndex ed) c (typingBuffer ed) = Some (Inr buf)
    \<and> editor_ok (line @ [c]) (ed\<lparr>typingBuffer := buf, typingBufferIndex := typingBufferIndex ed + 1\<rparr>)"
proof -
  have "replicate (64 - length line) (0 :: u8) = 0 # replicate (63 - length line) 0"
    using assms(2) by (simp add: Suc_diff_le flip: replicate_Suc)
  then show ?thesis using assms by (auto simp: editor_ok_def store_char_def)
qed

text \<open>A key that is not the end of a line: its effect, whatever the console does.\<close>

lemma edit_round:
  assumes "editor_ok line ed" "c \<noteq> 10" "c \<noteq> 13"
    and "r = (if c = 8 \<or> c = 0x7F then shell_backspace (ed, s) else if c = 10 \<or> c = 13 then shell_enter e (ed, s) else shell_insert c (ed, s))"
  shows "\<exists>ed'. editor_ok (shell_key line c) ed' \<and> newLineStarted ed' = newLineStarted ed \<and> noKeysLeft ed' = noKeysLeft ed
    \<and> r = (if key_echo line c = [] then Some (Inr (ed', s))
           else kobind (sh_do (kputs (key_echo line c)) s) (\<lambda>s1. Some (Inr (ed', s1))))"
proof -
  have idx: "typingBufferIndex ed = int (length line)" using assms(1) by (simp add: editor_ok_def)
  consider (erase) "c = 8 \<or> c = 0x7F" "line \<noteq> []" | (start) "c = 8 \<or> c = 0x7F" "line = []"
    | (type) "c \<noteq> 8" "c \<noteq> 0x7F" "c \<noteq> 0" "length line < 63" | (ignored) "c \<noteq> 8" "c \<noteq> 0x7F" "c = 0 \<or> \<not> length line < 63" by blast
  then show ?thesis
  proof cases
    case erase
    then obtain buf where b: "store_char (typingBufferIndex ed - 1) 0 (typingBuffer ed) = Some (Inr buf)"
        "editor_ok (butlast line) (ed\<lparr>typingBuffer := buf, typingBufferIndex := typingBufferIndex ed - 1\<rparr>)"
      using editor_erase [OF assms(1)] by blast
    have "\<not> typingBufferIndex ed - 1 \<le> - 1" using idx erase(2) by simp
    then show ?thesis using erase b assms(4)
      by (intro exI [of _ "ed\<lparr>typingBuffer := buf, typingBufferIndex := typingBufferIndex ed - 1\<rparr>"])
        (auto simp: shell_key_def key_echo_def shell_backspace_def simp del: kputs.simps)
  next
    case start
    then show ?thesis using assms(1,4) idx by (auto simp: shell_key_def key_echo_def shell_backspace_def intro!: exI [of _ ed])
  next
    case type
    then obtain buf where b: "store_char (typingBufferIndex ed) c (typingBuffer ed) = Some (Inr buf)"
        "editor_ok (line @ [c]) (ed\<lparr>typingBuffer := buf, typingBufferIndex := typingBufferIndex ed + 1\<rparr>)"
      using editor_insert [OF assms(1)] by blast
    show ?thesis using type b assms(2-4) idx
      by (intro exI [of _ "ed\<lparr>typingBuffer := buf, typingBufferIndex := typingBufferIndex ed + 1\<rparr>"])
        (auto simp: shell_key_def key_echo_def shell_insert_def simp del: kputs.simps)
  next
    case ignored
    then show ?thesis using assms idx by (auto simp: shell_key_def key_echo_def shell_insert_def intro!: exI [of _ ed])
  qed
qed

lemma shell_enter_ok: "shell_enter e (ed, s) = Some (Inr (ed', s')) \<Longrightarrow> editor_ok [] ed'"
  by (auto simp: shell_enter_def kobind_eq_Inr editor_ok_def)

lemma shell_round_ok:
  assumes "editor_ok line ed" "shell_round e (ed, s) = Some (Inr (ed', s'))"
  shows "\<exists>line'. editor_ok line' ed'"
proof -
  obtain c s3 where r: "(if c = 8 \<or> c = 0x7F then shell_backspace (ed\<lparr>newLineStarted := False, noKeysLeft := (c = 0)\<rparr>, s3)
      else if c = 10 \<or> c = 13 then shell_enter e (ed\<lparr>newLineStarted := False, noKeysLeft := (c = 0)\<rparr>, s3)
      else shell_insert c (ed\<lparr>newLineStarted := False, noKeysLeft := (c = 0)\<rparr>, s3)) = Some (Inr (ed', s'))"
    using assms(2) by (auto simp: shell_round_def kobind_eq_Inr Let_def split: prod.splits)
  show ?thesis
  proof (cases "c = 10 \<or> c = 13")
    case True
    then have "shell_enter e (ed\<lparr>newLineStarted := False, noKeysLeft := (c = 0)\<rparr>, s3) = Some (Inr (ed', s'))" using r by auto
    then show ?thesis using shell_enter_ok by blast
  next
    case False
    have "editor_ok line (ed\<lparr>newLineStarted := False, noKeysLeft := (c = 0)\<rparr>)" using assms(1) by simp
    from edit_round [OF this _ _ r [symmetric]] False obtain ed2 where ed2: "editor_ok (shell_key line c) ed2"
        "Some (Inr (ed', s')) = (if key_echo line c = [] then Some (Inr (ed2, s3))
           else kobind (sh_do (kputs (key_echo line c)) s3) (\<lambda>s1. Some (Inr (ed2, s1))))" by blast
    from ed2(2) [symmetric] have "ed' = ed2" by (auto simp: kobind_eq_Inr simp del: kputs.simps split: if_splits)
    then show ?thesis using ed2(1) by blast
  qed
qed

lemma shell_rounds_ok:
  "editor_ok line ed \<Longrightarrow> shell_rounds e n (ed, s) = Some (Inr (ed', s')) \<Longrightarrow> \<exists>line'. editor_ok line' ed'"
proof (induction n arbitrary: line ed s)
  case (Suc n)
  then obtain ed1 s1 where "shell_round e (ed, s) = Some (Inr (ed1, s1))" "shell_rounds e n (ed1, s1) = Some (Inr (ed', s'))"
    by (auto simp: kobind_eq_Inr)
  then show ?case using Suc.IH shell_round_ok [OF Suc.prems(1)] by blast
qed auto


section \<open>From the keyboard to the command\<close>

text \<open>What the keys of a line put on the screen.\<close>

fun line_echo :: "u8 list \<Rightarrow> u8 list \<Rightarrow> u8 list" where
  "line_echo line [] = []"
| "line_echo line (c # cs) = key_echo line c @ line_echo (shell_key line c) cs"

text \<open>The editor at rest in the middle of a line.\<close>

definition shell_at :: "u8 list \<Rightarrow> u8 list \<Rightarrow> editor \<Rightarrow> shell_state \<Rightarrow> bool" where
  "shell_at line ks ed s \<longleftrightarrow> editor_ok line ed \<and> \<not> newLineStarted ed \<and> \<not> noKeysLeft ed \<and> kbd_at ks (sh_kernel s)"

abbreviation sh_out :: "shell_state \<Rightarrow> u8 list" where "sh_out s \<equiv> ft_out (kdev (sh_kernel s))"

lemma sh_do_puts:
  assumes "kbd_at ks (sh_kernel s)"
  shows "\<exists>k1. sh_do (kputs cs) s = Some (Inr (s\<lparr>sh_kernel := k1\<rparr>)) \<and> kbd_at ks k1 \<and> ft_out (kdev k1) = sh_out s @ cs"
  using kbd_echo [OF assms, of cs] by (auto simp: sh_do_def console_wrote_def)

lemma shell_round_key:
  assumes "shell_at line (c # ks) ed s" "c \<notin> {0, 10, 13}"
  shows "\<exists>ed' k'. shell_round e (ed, s) = Some (Inr (ed', s\<lparr>sh_kernel := k'\<rparr>)) \<and> shell_at (shell_key line c) ks ed' (s\<lparr>sh_kernel := k'\<rparr>)
    \<and> ft_out (kdev k') = sh_out s @ key_echo line c"
proof -
  have a: "editor_ok line ed" "\<not> newLineStarted ed" "\<not> noKeysLeft ed" "kbd_at (c # ks) (sh_kernel s)" using assms(1) by (auto simp: shell_at_def)
  obtain d where d: "kfs_read (bytes_of ''/dev/kbd'') [0] 1 (sh_kernel s) = Some (Inr (1, [c], (sh_kernel s)\<lparr>kdev := (kdev (sh_kernel s))\<lparr>kbd_dev := d\<rparr>\<rparr>))"
      "kbd_at ks ((sh_kernel s)\<lparr>kdev := (kdev (sh_kernel s))\<lparr>kbd_dev := d\<rparr>\<rparr>)"
    using kbd_next [OF a(4)] by blast
  define s3 where "s3 = s\<lparr>sh_kernel := (sh_kernel s)\<lparr>kdev := (kdev (sh_kernel s))\<lparr>kbd_dev := d\<rparr>\<rparr>\<rparr>"
  define ed1 where "ed1 = ed\<lparr>newLineStarted := False, noKeysLeft := (c = 0)\<rparr>"
  have s3: "kbd_at ks (sh_kernel s3)" "sh_out s3 = sh_out s" using d(2) by (simp_all add: s3_def)
  have ed1: "editor_ok line ed1" "\<not> newLineStarted ed1" "\<not> noKeysLeft ed1" using a(1) assms(2) by (simp_all add: ed1_def)
  have round: "shell_round e (ed, s) = (if c = 8 \<or> c = 0x7F then shell_backspace (ed1, s3)
      else if c = 10 \<or> c = 13 then shell_enter e (ed1, s3) else shell_insert c (ed1, s3))"
    using a(2,3) d(1) by (simp add: shell_round_def Let_def s3_def ed1_def)
  from edit_round [OF ed1(1) _ _ round] assms(2) obtain ed' where ed': "editor_ok (shell_key line c) ed'" "\<not> newLineStarted ed'" "\<not> noKeysLeft ed'"
      "shell_round e (ed, s) = (if key_echo line c = [] then Some (Inr (ed', s3))
         else kobind (sh_do (kputs (key_echo line c)) s3) (\<lambda>s1. Some (Inr (ed', s1))))" using ed1 by auto
  obtain k1 where k1: "sh_do (kputs (key_echo line c)) s3 = Some (Inr (s3\<lparr>sh_kernel := k1\<rparr>))" "kbd_at ks k1" "ft_out (kdev k1) = sh_out s3 @ key_echo line c"
    using sh_do_puts [OF s3(1)] by blast
  show ?thesis
  proof (cases "key_echo line c = []")
    case True
    then show ?thesis using ed' s3 by (auto simp: shell_at_def s3_def)
  next
    case False
    then show ?thesis using ed' k1 s3 by (auto simp: shell_at_def s3_def simp del: kputs.simps)
  qed
qed

lemma shell_rounds_line:
  assumes "shell_at line (ks @ c # rest) ed s" "set ks \<inter> {0, 10, 13} = {}"
  shows "\<exists>ed' k'. shell_rounds e (length ks) (ed, s) = Some (Inr (ed', s\<lparr>sh_kernel := k'\<rparr>)) \<and> shell_at (foldl shell_key line ks) (c # rest) ed' (s\<lparr>sh_kernel := k'\<rparr>)
    \<and> ft_out (kdev k') = sh_out s @ line_echo line ks"
  using assms
proof (induction ks arbitrary: line ed s)
  case Nil
  then show ?case by (intro exI [of _ ed] exI [of _ "sh_kernel s"]) simp
next
  case (Cons x ks)
  obtain ed1 k1 where 1: "shell_round e (ed, s) = Some (Inr (ed1, s\<lparr>sh_kernel := k1\<rparr>))" "shell_at (shell_key line x) (ks @ c # rest) ed1 (s\<lparr>sh_kernel := k1\<rparr>)"
      "ft_out (kdev k1) = sh_out s @ key_echo line x"
    using shell_round_key [of line x "ks @ c # rest" ed s e] Cons.prems by auto
  from Cons.IH [OF 1(2)] Cons.prems(2) 1(1,3) show ?case by fastforce
qed

lemma shell_rounds_add: "shell_rounds e (m + n) x = kobind (shell_rounds e m x) (shell_rounds e n)"
proof (induction m arbitrary: x)
  case (Suc m)
  show ?case by (cases "shell_round e x"; cases "the (shell_round e x)") (simp_all add: Suc)
qed simp

lemma shell_round_enter:
  assumes "shell_at line (c # rest) ed s" "c = 10 \<or> c = 13"
  shows "\<exists>k'. shell_round e (ed, s) = kobind (execute_commands e line (s\<lparr>sh_kernel := k'\<rparr>)) (\<lambda>s2. Some (Inr (editor_init, s2)))
    \<and> kbd_at rest k' \<and> ft_out (kdev k') = sh_out s @ [10]"
proof -
  have a: "editor_ok line ed" "\<not> newLineStarted ed" "\<not> noKeysLeft ed" "kbd_at (c # rest) (sh_kernel s)" using assms(1) by (auto simp: shell_at_def)
  obtain d where d: "kfs_read (bytes_of ''/dev/kbd'') [0] 1 (sh_kernel s) = Some (Inr (1, [c], (sh_kernel s)\<lparr>kdev := (kdev (sh_kernel s))\<lparr>kbd_dev := d\<rparr>\<rparr>))"
      "kbd_at rest ((sh_kernel s)\<lparr>kdev := (kdev (sh_kernel s))\<lparr>kbd_dev := d\<rparr>\<rparr>)"
    using kbd_next [OF a(4)] by blast
  define s3 where "s3 = s\<lparr>sh_kernel := (sh_kernel s)\<lparr>kdev := (kdev (sh_kernel s))\<lparr>kbd_dev := d\<rparr>\<rparr>\<rparr>"
  define ed1 where "ed1 = ed\<lparr>newLineStarted := False, noKeysLeft := False\<rparr>"
  have s3: "kbd_at rest (sh_kernel s3)" "sh_out s3 = sh_out s" using d(2) by (simp_all add: s3_def)
  obtain k1 where k1: "sh_do (kputs [10]) s3 = Some (Inr (s3\<lparr>sh_kernel := k1\<rparr>))" "kbd_at rest k1" "ft_out (kdev k1) = sh_out s3 @ [10]"
    using sh_do_puts [OF s3(1)] by blast
  have "buffer_string (typingBuffer ed1) = Some (Inr line)" by (rule editor_ok_string) (simp add: a(1) ed1_def)
  moreover have "ed1\<lparr>typingBufferIndex := 0, typingBuffer := replicate 64 0, newLineStarted := True\<rparr> = editor_init"
    by (simp add: ed1_def editor_init_def)
  ultimately have "shell_enter e (ed1, s3) = kobind (execute_commands e line (s3\<lparr>sh_kernel := k1\<rparr>)) (\<lambda>s2. Some (Inr (editor_init, s2)))"
    using k1(1) by (simp add: shell_enter_def del: kputs.simps)
  moreover have "shell_round e (ed, s) = shell_enter e (ed1, s3)"
    using a(2,3) d(1) assms(2) by (auto simp: shell_round_def Let_def s3_def ed1_def)
  ultimately show ?thesis using k1 s3 by (intro exI [of _ k1]) (simp add: s3_def)
qed

text \<open>The prompt of a new line.\<close>

lemma shell_round_prompt:
  assumes "kbd_at ks (sh_kernel s)"
  shows "\<exists>k1. shell_round e (editor_init, s) = shell_round e (editor_init\<lparr>newLineStarted := False\<rparr>, s\<lparr>sh_kernel := k1\<rparr>)
    \<and> kbd_at ks k1 \<and> ft_out (kdev k1) = sh_out s @ clear_line @ bytes_of ''Kernel Shell> ''"
proof -
  obtain k0 where k0: "sh_do (kputs clear_line) s = Some (Inr (s\<lparr>sh_kernel := k0\<rparr>))" "kbd_at ks k0" "ft_out (kdev k0) = sh_out s @ clear_line"
    using sh_do_puts [OF assms] by blast
  obtain k1 where k1: "sh_do (kputs (bytes_of ''Kernel Shell> '')) (s\<lparr>sh_kernel := k0\<rparr>) = Some (Inr (s\<lparr>sh_kernel := k1\<rparr>))" "kbd_at ks k1"
      "ft_out (kdev k1) = ft_out (kdev k0) @ bytes_of ''Kernel Shell> ''"
    using sh_do_puts [of ks "s\<lparr>sh_kernel := k0\<rparr>"] k0(2) by auto
  show ?thesis
    using k0 k1 by (intro exI [of _ k1]) (simp add: shell_round_def editor_init_def del: kputs.simps)
qed

text \<open>
  C30: A line typed into a shell that waits for one, with its corrections, and ended by either of
  the two line ends: the prompt, the echo and a line feed appear on the terminal; the command
  executed is the line as corrected, cut at 63 bytes; the keys behind it stay in the queue; and
  if the command returns, the editor is empty and prompts again.
\<close>

theorem shell_executes_line:
  assumes "kbd_at (ks @ c # rest) (sh_kernel s)" and "set ks \<inter> {0, 10, 13} = {}" and "c = 10 \<or> c = 13"
  shows "\<exists>k'. start_shell e (length ks + 1) s
      = kobind (execute_commands e (foldl shell_key [] ks) (s\<lparr>sh_kernel := k'\<rparr>)) (\<lambda>s2. Some (Inr (editor_init, s2)))
    \<and> kbd_at rest k' \<and> ft_out (kdev k') = sh_out s @ clear_line @ bytes_of ''Kernel Shell> '' @ line_echo [] ks @ [10]"
proof -
  let ?ed = "editor_init\<lparr>newLineStarted := False\<rparr>"
  obtain k1 where k1: "shell_round e (editor_init, s) = shell_round e (?ed, s\<lparr>sh_kernel := k1\<rparr>)" "kbd_at (ks @ c # rest) k1"
      "ft_out (kdev k1) = sh_out s @ clear_line @ bytes_of ''Kernel Shell> ''"
    using shell_round_prompt [OF assms(1)] by blast
  have "shell_at [] (ks @ c # rest) ?ed (s\<lparr>sh_kernel := k1\<rparr>)" using k1(2) by (simp add: shell_at_def editor_ok_def editor_init_def)
  from shell_rounds_line [OF this assms(2), of e] obtain ed2 k2 where 2:
      "shell_rounds e (length ks) (?ed, s\<lparr>sh_kernel := k1\<rparr>) = Some (Inr (ed2, s\<lparr>sh_kernel := k2\<rparr>))"
      "shell_at (foldl shell_key [] ks) (c # rest) ed2 (s\<lparr>sh_kernel := k2\<rparr>)" "ft_out (kdev k2) = ft_out (kdev k1) @ line_echo [] ks" by auto
  obtain k3 where 3: "shell_round e (ed2, s\<lparr>sh_kernel := k2\<rparr>)
        = kobind (execute_commands e (foldl shell_key [] ks) (s\<lparr>sh_kernel := k3\<rparr>)) (\<lambda>s2. Some (Inr (editor_init, s2)))"
      "kbd_at rest k3" "ft_out (kdev k3) = ft_out (kdev k2) @ [10]"
    using shell_round_enter [OF 2(2) assms(3), of e] by auto
  have one: "kobind r (shell_rounds e 0) = r" for r :: "(editor \<times> shell_state) kres option"
    by (cases r; cases "the r") (auto simp: kobind_def)
  have "start_shell e (length ks + 1) s = shell_rounds e (length ks + 1) (?ed, s\<lparr>sh_kernel := k1\<rparr>)"
    using k1(1) by (simp add: start_shell_def)
  also have "\<dots> = shell_round e (ed2, s\<lparr>sh_kernel := k2\<rparr>)"
    using 2(1) by (simp add: shell_rounds_add one del: add_Suc_right)
  finally show ?thesis using 3 2(3) k1(3) by (intro exI [of _ k3]) simp
qed

section \<open>The commands\<close>

text \<open>
  Commands are recognised whatever the case of their letters: two lines that agree in upper
  case do the same, unless both are unknown, where the message repeats the line as typed.
\<close>

theorem execute_commands_any_case:
  assumes "to_upper a = to_upper b"
  shows "execute_commands e a s = execute_commands e b s
    \<or> execute_commands e a s = sh_do (kputs (bytes_of ''Invalid Command: '' @ a @ [10])) s
      \<and> execute_commands e b s = sh_do (kputs (bytes_of ''Invalid Command: '' @ b @ [10])) s"
proof -
  have "is_cmd n a = is_cmd n b" for n using assms by (simp add: is_cmd_def)
  then show ?thesis unfolding execute_commands_def by (simp del: kputs.simps)
qed

text \<open>
  The third \<open>TEST\<close> in a row stops the kernel: the value it keeps has grown so far that its
  square overflows, and the sanitizer panics.
\<close>

lemma cmd_test_runs: "cmd_test 0 = Inr 4942" "cmd_test 4942 = Inr 98763886" "cmd_test 98763886 = Inl (Panic ''UBSAN: Multiply overflow'')"
  by code_simp+

theorem third_test_panics:
  assumes "kbd_at ks (sh_kernel s)" and "sink s = 0" and "to_upper cmd = bytes_of ''TEST''"
  shows "\<exists>s1 s2. execute_commands e cmd s = Some (Inr s1) \<and> execute_commands e cmd s1 = Some (Inr s2)
    \<and> execute_commands e cmd s2 = Some (Inl (Panic ''UBSAN: Multiply overflow''))"
proof -
  have "strcmp_str xs xs = 0" for xs by (induction xs) simp_all
  then have t: "is_cmd ''TEST'' cmd" using assms(3) by (simp add: is_cmd_def)
  have step: "\<exists>k'. execute_commands e cmd s' = Some (Inr (s'\<lparr>sink := v, sh_kernel := k'\<rparr>)) \<and> kbd_at ks k'"
    if "cmd_test (sink s') = Inr v" "kbd_at ks (sh_kernel s')" for s' v
    using t that sh_do_puts [of ks "s'\<lparr>sink := v\<rparr>" "bytes_of ''Test Command Executed'' @ [10]"]
    by (auto simp: execute_commands_def sh_do_def sh_puts_def simp del: kputs.simps)
  obtain k1 where 1: "execute_commands e cmd s = Some (Inr (s\<lparr>sink := 4942, sh_kernel := k1\<rparr>))" "kbd_at ks k1"
    using step [of s 4942] assms(1,2) cmd_test_runs(1) by auto
  obtain k2 where 2: "execute_commands e cmd (s\<lparr>sink := 4942, sh_kernel := k1\<rparr>) = Some (Inr (s\<lparr>sink := 98763886, sh_kernel := k2\<rparr>))"
    using step [of "s\<lparr>sink := 4942, sh_kernel := k1\<rparr>" 98763886] 1(2) cmd_test_runs(2) by auto
  have "execute_commands e cmd (s\<lparr>sink := 98763886, sh_kernel := k2\<rparr>) = Some (Inl (Panic ''UBSAN: Multiply overflow''))"
    using t by (simp add: execute_commands_def cmd_test_runs(3))
  then show ?thesis using 1(1) 2 by blast
qed

text \<open>Two commands that do not reach what they test: the sanitizer stops both before.\<close>

lemma smash_and_fault: "smash_stack = Inl (Panic ''UBSAN: Out of bounds'')" "fault_store 0xDEADBEEF k = Some (Inl (Panic ''UBSAN: Type missmatch''))"
proof -
  have "smash_loop i (16 - i + 240) buf = Inl (Panic ''UBSAN: Out of bounds'')" if "i \<le> 16" "length buf = 16" for i buf
    using that
  proof (induction "16 - i" arbitrary: i buf)
    case 0
    then show ?case by (simp add: numeral_eq_Suc)
  next
    case (Suc n)
    then have "16 - i + 240 = Suc (16 - Suc i + 240)" by simp
    then show ?case using Suc.hyps(1) [of "Suc i" "buf[i := of_nat i]"] Suc.hyps(2) Suc.prems by simp
  qed
  from this [of 0 "replicate 16 0"] show "smash_stack = Inl (Panic ''UBSAN: Out of bounds'')" by (simp add: smash_stack_def)
  show "fault_store 0xDEADBEEF k = Some (Inl (Panic ''UBSAN: Type missmatch''))" by (simp add: fault_store_def)
qed

section \<open>Witnesses\<close>

definition demo_shell :: shell_state where
  "demo_shell = \<lparr>sh_kernel = demo_call 0 demo_kmem, sh_turn = 0, sink = 0\<rparr>"

definition demo_shell_env :: shell_env where
  "demo_shell_env = \<lparr>app_entry = 0xFFFFFFFF80001000, memmap = [], turns = (\<lambda>_. demo_env)\<rparr>"

lemma demo_shell_kbd: "kbd_at ([104, 8, 105] @ 13 # []) (sh_kernel demo_shell)"
  using demo_call_ok(2) [of 0 demo_kmem] demo_keys_contents
  by (simp add: kbd_at_def demo_shell_def) (simp add: demo_call_def demo_kernel_def strcmp_str_0 bytes_of_def)

theorem shell_executes_line_witness:
  "\<exists>k'. start_shell demo_shell_env 4 demo_shell
      = kobind (execute_commands demo_shell_env [105] (demo_shell\<lparr>sh_kernel := k'\<rparr>)) (\<lambda>s2. Some (Inr (editor_init, s2)))
    \<and> ft_out (kdev k') = clear_line @ bytes_of ''Kernel Shell> '' @ [104, 8, 32, 8, 105, 10]"
proof -
  have o: "sh_out demo_shell = []" by (simp add: demo_shell_def demo_call_def demo_devices_def)
  have l: "foldl shell_key [] [104, 8, 105] = [105]" "line_echo [] [104, 8, 105] = [104, 8, 32, 8, 105]"
    by (simp_all add: shell_key_def key_echo_def)
  have n: "length [104, 8, 105 :: u8] + 1 = 4" "set [104, 8, 105 :: u8] \<inter> {0, 10, 13} = {}" by simp_all
  show ?thesis
    using shell_executes_line [OF demo_shell_kbd n(2), of demo_shell_env] unfolding o l n(1) by auto
qed

theorem execute_commands_any_case_witness:
  "execute_commands demo_shell_env (bytes_of ''Panic'') demo_shell = Some (Inl (Panic ''You asked for this lmao''))"
proof -
  have u: "to_upper (bytes_of ''Panic'') = to_upper (bytes_of ''PANIC'')" by code_simp
  have c: "\<not> is_cmd ''TEST'' (bytes_of ''PANIC'') \<and> \<not> is_cmd ''CREDITS'' (bytes_of ''PANIC'') \<and> \<not> is_cmd ''MMAP'' (bytes_of ''PANIC'')
      \<and> \<not> is_cmd ''BADAPPLE'' (bytes_of ''PANIC'') \<and> \<not> is_cmd ''HELLO'' (bytes_of ''PANIC'') \<and> \<not> is_cmd ''FIREWORKS'' (bytes_of ''PANIC'')
      \<and> \<not> is_cmd ''DOOM'' (bytes_of ''PANIC'') \<and> \<not> is_cmd ''BASH'' (bytes_of ''PANIC'') \<and> \<not> is_cmd ''CLEAR'' (bytes_of ''PANIC'')
      \<and> \<not> is_cmd ''CLS'' (bytes_of ''PANIC'') \<and> \<not> is_cmd ''SMASH'' (bytes_of ''PANIC'') \<and> is_cmd ''PANIC'' (bytes_of ''PANIC'')" by code_simp
  then have "execute_commands demo_shell_env (bytes_of ''PANIC'') demo_shell = Some (Inl (Panic ''You asked for this lmao''))"
    by (simp add: execute_commands_def)
  then show ?thesis
    using execute_commands_any_case [OF u, of demo_shell_env demo_shell]
      sh_do_puts [OF demo_shell_kbd, of "bytes_of ''Invalid Command: '' @ bytes_of ''PANIC'' @ [10]"] by auto
qed

theorem third_test_panics_witness:
  "\<exists>s1 s2. execute_commands demo_shell_env (bytes_of ''test'') demo_shell = Some (Inr s1) \<and> execute_commands demo_shell_env (bytes_of ''test'') s1 = Some (Inr s2)
    \<and> execute_commands demo_shell_env (bytes_of ''test'') s2 = Some (Inl (Panic ''UBSAN: Multiply overflow''))"
proof -
  have "to_upper (bytes_of ''test'') = bytes_of ''TEST''" by code_simp
  then show ?thesis using third_test_panics [OF demo_shell_kbd] by (simp add: demo_shell_def)
qed


end
