(* ===== verification/Apps.thy ===== *)
theory Apps
  imports Console_Calls Elf
begin

text \<open>
  The start of a user program (\<open>spawn_app_kthread\<close> of \<open>apps/shell.c\<close>): the file is read into a
  block of the kernel, loaded into the page map of the thread, and given a stack with the
  vector of values a program expects there. The layout of that stack is what is shown.
\<close>

section \<open>The code\<close>

text \<open>
  The loader reads the file through kernel memory: the bytes of the block are laid over the
  frames while it runs, and taken away afterwards.
\<close>

definition file_view :: "u64 \<Rightarrow> nat \<Rightarrow> mem \<Rightarrow> pmm \<Rightarrow> pmm" where
  "file_view f n m s = s\<lparr>kmem := (\<lambda>a. if unat (a - f) < n then m a else kmem s a)\<rparr>"

definition APP_FILE_SIZE :: int where "APP_FILE_SIZE = 24 * 1024 * 1024"
definition APP_STACK_SIZE :: u64 where "APP_STACK_SIZE = 64 * 1024"

definition kload_elf :: "u64 \<Rightarrow> u64 \<Rightarrow> kernel \<Rightarrow> (elf_info \<times> kernel) kres option" where
  "kload_elf f pm k =
     (let s = hpmm (kheap (pkm (plat (kdev k)))); n = nat APP_FILE_SIZE
      in kobind (Some (load_elf f (pagemap_at (ksync k) pm) (file_view f n (ubytes (kusr k)) s))) (\<lambda>(info, p, s1).
           Some (Inr (info, set_pagemap pm p (set_kmem (set_kpmm (file_view f n (kmem s) s1) (pkm (plat (kdev k)))) k)))))"

text \<open>Mapping the stack, from its last page down.\<close>

primrec stack_loop :: "nat \<Rightarrow> u64 \<Rightarrow> kernel \<Rightarrow> kernel kres option" where
  "stack_loop 0 va k = Some (Inr k)"
| "stack_loop (Suc n) va k =
     kobind (Some (allocate_page (hpmm (kheap (pkm (plat (kdev k))))))) (\<lambda>(pa, s).
     kobind (current (set_kmem (set_kpmm s (pkm (plat (kdev k)))) k)) (\<lambda>(t, k1).
     kobind (kmap_page (th_pagemap (thr (ksched k1) t)) va pa (PTE_PRESENT OR PTE_USER OR PTE_WRITABLE) k1) (\<lambda>k2.
       stack_loop n (va - PAGE_SIZE) k2)))"

text \<open>The words pushed on the stack, in the order of the code.\<close>

definition app_stack :: "elf_info \<Rightarrow> u64 list" where
  "app_stack info = [0, 0, 0, entry_point info, 9, phdr info, 3, phentsize info, 4, phnum info, 5, 0, 0, 0]"

datatype app_start = Enter_user u64 u64 | App_returns

text \<open>Reserving and mapping the stack; the result is its top.\<close>

definition app_map_stack :: "kernel \<Rightarrow> (u64 \<times> kernel) kres option" where
  "app_map_stack k =
     kobind (current k) (\<lambda>(t, k1).
       let pm = th_pagemap (thr (ksched k1) t); v = valloc (pagemap_at (ksync k1) pm) APP_STACK_SIZE; app_top = fst v + APP_STACK_SIZE
       in kobind (stack_loop (unat (APP_STACK_SIZE div PAGE_SIZE)) (app_top - PAGE_SIZE) (set_pagemap pm (snd v) k1)) (\<lambda>k2.
            Some (Inr (app_top, k2))))"

text \<open>Filling it, with access to user memory open meanwhile, and the way into the program.\<close>

definition app_enter :: "elf_info \<Rightarrow> u64 \<Rightarrow> kernel \<Rightarrow> app_start \<times> kernel" where
  "app_enter info app_top k =
     (let p = push_words (app_top AND NOT 0xF) (app_stack info) (ubytes (kusr k));
          k1 = k\<lparr>kusr := rflags_clr_ac ((rflags_set_ac (kusr k))\<lparr>ubytes := snd p\<rparr>)\<rparr>
      in (if entry_point info \<noteq> 0 then Enter_user (entry_point info) (fst p) else App_returns, k1))"

definition spawn_app_kthread :: "u64 \<Rightarrow> kernel \<Rightarrow> (app_start \<times> kernel) kres option" where
  "spawn_app_kthread pth k =
     kobind (kalloc (of_int APP_FILE_SIZE) k) (\<lambda>(elf_file, k1).
     kobind (kstring_at pth k1) (\<lambda>name.
     kobind (read_into name elf_file APP_FILE_SIZE k1) (\<lambda>(_, k2).
     kobind (current k2) (\<lambda>(t, k3).
     kobind (kload_elf elf_file (th_pagemap (thr (ksched k3) t)) k3) (\<lambda>(info, k4).
     kobind (krelease elf_file k4) (\<lambda>k5.
     kobind (krelease pth k5) (\<lambda>k6.
     kobind (app_map_stack k6) (\<lambda>(app_top, k7). Some (Inr (app_enter info app_top k7))))))))))"

section \<open>The stack a program starts with\<close>

text \<open>What lies at the stack pointer: argument count, argument and environment lists, both empty, then the auxiliary vector.\<close>

definition start_words :: "elf_info \<Rightarrow> u64 list" where
  "start_words info = [0, 0, 0] @ [5, phnum info, 4, phentsize info, 3, phdr info, 9, entry_point info, 0, 0] @ [0]"

lemma pushed_stack:
  fixes top :: u64
  assumes "push_words (top AND NOT 0xF) (app_stack info) m = (sp, m')"
  shows "16 dvd unat sp" and "i < 14 \<Longrightarrow> read64 m' (sp + 8 * of_nat i) = start_words info ! i"
proof -
  let ?t = "top AND NOT 0xF"
  have "?t = top AND NOT (mask 4)" by (simp add: mask_eq_exp_minus_1)
  then have "unat ?t = unat top - unat top mod 16" using unat_and_not_mask [of top 4] by simp
  then have t: "16 dvd unat ?t" by (simp add: dvd_minus_mod)
  have sp: "m' = snd (push_words ?t (app_stack info) m)" "sp = fst (push_words ?t (app_stack info) m)" by (simp_all only: assms fst_conv snd_conv)
  have "sp = ?t - 112" using push_words_sp [of ?t "app_stack info" m] unfolding sp(2) [symmetric] by (simp add: app_stack_def)
  then show "16 dvd unat sp" using t by (simp only: unat_sub_if') (auto simp: dvd_diff_nat)
  have "cell_aligned ?t" using dvd_trans [of 8 16 "unat ?t"] t by (simp only: mod_eq_0_iff_dvd) simp
  then show "read64 m' (sp + 8 * of_nat i) = start_words info ! i" if "i < 14"
    using push_words_frame [of ?t i "app_stack info" m] that unfolding sp by (simp only: app_stack_def start_words_def) simp
qed


text \<open>It is the last step of \<open>spawn_app_kthread\<close>, with the headers the loader returned.\<close>

lemma spawn_app_enters:
  assumes "spawn_app_kthread pth k = Some (Inr r)"
  shows "\<exists>f pm k1 info k2 top k8. kload_elf f pm k1 = Some (Inr (info, k2)) \<and> r = app_enter info top k8"
proof -
  obtain f pm k1 info k2 top k8 where "kload_elf f pm k1 = Some (Inr (info, k2))" "app_enter info top k8 = r"
    using assms by (auto simp: spawn_app_kthread_def kobind_eq_Inr)
  then show ?thesis by blast
qed

end
