(* ===== verification/Vm_Setup.thy ===== *)
theory Vm_Setup
  imports Console_Calls Elf
begin

text \<open>
  The kernel's own page tables (\<open>setup_vmm\<close> of \<open>memory/vmm.c\<close>): a table for every entry of the
  upper half, the segments of the kernel's file in 4 KiB pages, and all of memory in large
  pages at the offset of the direct map. Shown here: the set-up either runs out of frames or
  leaves well-formed tables in which the kernel's segments and every byte of the memory map
  translate as they should; and what is mapped later in the upper half of the kernel's page
  map is seen in the page map of every process.
\<close>

section \<open>The code\<close>

text \<open>What the boot loader tells: where the kernel lies in memory, where its file is, and the memory map.\<close>

record boot_info =
  executable_base :: u64
  executable_file :: u64
  boot_memmap :: "limine_memmap_entry list"

abbreviation kpmm :: "kernel \<Rightarrow> pmm" where "kpmm k \<equiv> hpmm (kheap (pkm (plat (kdev k))))"

definition put_pmm :: "pmm \<Rightarrow> kernel \<Rightarrow> kernel" where
  "put_pmm s k = set_kmem (set_kpmm s (pkm (plat (kdev k)))) k"

primrec kernel_half_loop :: "nat \<Rightarrow> u64 \<Rightarrow> u64 \<Rightarrow> pmm \<Rightarrow> pmm kres" where
  "kernel_half_loop 0 pml4 i s = Inr s"
| "kernel_half_loop (Suc n) pml4 i s =
     kbind (allocate_page s) (\<lambda>(pg, s1).
       let s2 = set_pte pml4 i pg s1
       in kernel_half_loop n pml4 (i + 1)
            (set_pte pml4 i (pte s2 pml4 i OR (PTE_PRESENT OR PTE_WRITABLE OR PTE_LOCKED)) s2))"

definition kernel_segment_flags :: "bool \<Rightarrow> elf_program_header_64 \<Rightarrow> u64" where
  "kernel_segment_flags stub ph =
     (let f1 = PTE_PRESENT OR PTE_GLOBAL;
          f2 = (if p_flags ph AND ELF_PROG_WRITE \<noteq> 0 then f1 OR PTE_WRITABLE else f1);
          f3 = (if stub then f2 OR PTE_WRITABLE else f2)
      in if p_flags ph AND ELF_PROG_EXEC_FLAG = 0 then f3 OR PTE_NX else f3)"

definition seg_count :: "elf_program_header_64 \<Rightarrow> u64" where
  "seg_count ph = ALIGN_UP (p_mem_size ph) PAGE_SIZE div PAGE_SIZE"

definition map_segment :: "bool \<Rightarrow> u64 \<Rightarrow> u64 \<Rightarrow> elf_program_header_64 \<Rightarrow> pmm \<Rightarrow> pmm kres" where
  "map_segment stub physical_base pml4 ph s =
     (if p_type ph \<noteq> ELF_PROG_PT_LOAD_TYPE then Inr s
      else vmm_map_pages_continuous pml4 (p_virt_addr ph) (physical_base + p_virt_addr ph - 0xffffffff80000000)
             (seg_count ph) (kernel_segment_flags stub ph) s)"

text \<open>The loop over the program headers, each read where it lies when its turn comes.\<close>

primrec map_segments :: "nat \<Rightarrow> u64 \<Rightarrow> bool \<Rightarrow> u64 \<Rightarrow> u64 \<Rightarrow> pmm \<Rightarrow> pmm kres" where
  "map_segments 0 ph stub physical_base pml4 s = Inr s"
| "map_segments (Suc n) ph stub physical_base pml4 s =
     kbind (map_segment stub physical_base pml4 (elf_program_header_at (kmem s) ph) s)
       (map_segments n (ph + 56) stub physical_base pml4)"

definition entry_flags :: "bool \<Rightarrow> limine_memmap_entry \<Rightarrow> u64" where
  "entry_flags hypervisor e =
     (let f = PTE_PRESENT OR PTE_WRITABLE OR PTE_NX
      in if \<not> hypervisor \<and> me_type e = LIMINE_MEMMAP_FRAMEBUFFER then f OR (PTE_PCD OR PTE_PAT) else f)"

definition map_entry :: "bool \<Rightarrow> bool \<Rightarrow> u64 \<Rightarrow> limine_memmap_entry \<Rightarrow> pmm \<Rightarrow> pmm kres option" where
  "map_entry gb hypervisor pml4 e s =
     (let map_base = ALIGN_DOWN (me_base e) PAGE_SIZE;
          page_count = ALIGN_UP (me_length e) PAGE_SIZE div 4096
      in vmm_map_pages_hhdm gb pml4 (map_base + hhdmOffset s) map_base page_count (entry_flags hypervisor e) s)"

primrec map_memory :: "limine_memmap_entry list \<Rightarrow> bool \<Rightarrow> bool \<Rightarrow> u64 \<Rightarrow> pmm \<Rightarrow> pmm kres option" where
  "map_memory [] gb hypervisor pml4 s = Some (Inr s)"
| "map_memory (e # es) gb hypervisor pml4 s = kobind (map_entry gb hypervisor pml4 e s) (map_memory es gb hypervisor pml4)"

text \<open>The processor's answer for 1 GiB pages, as \<open>vmm_map_pages_hhdm\<close> asks for it.\<close>

definition gb_pages :: "kernel \<Rightarrow> bool" where
  "gb_pages k \<longleftrightarrow> cpuid_extended_supported 0x80000001 (plat (kdev k)) \<and> cpu_feature_bit 0x80000001 0 CHR ''d'' 26 (plat (kdev k))"

definition set_kernel_top :: "u64 \<Rightarrow> kernel \<Rightarrow> kernel" where
  "set_kernel_top pml4 k = set_kmem ((pkm (plat (kdev k)))\<lparr>kernel_pagemap := (kernel_pagemap (pkm (plat (kdev k))))\<lparr>top_level := pml4\<rparr>\<rparr>) k"

text \<open>The kernel's file and its segments.\<close>

definition map_kernel :: "boot_info \<Rightarrow> bool \<Rightarrow> u64 \<Rightarrow> pmm \<Rightarrow> pmm kres" where
  "map_kernel b stub pml4 s =
     (let h = elf_header_at (kmem s) (executable_file b)
      in if \<not> verify_elf_64 h then Inl (Panic ''VMM: Kernel elf file was invalid'')
         else map_segments (unat (e_program_header_entries h)) (executable_file b + e_program_header_table h) stub (executable_base b) pml4 s)"

definition report_pages :: "kernel \<Rightarrow> kernel kres option" where
  "report_pages k =
     (if cpuid_extended_supported 0x80000001 (plat (kdev k))
      then kputs (bytes_of (if gb_pages k then ''VMM: Using 1GB Pages for HHDM'' else ''VMM: Using 2MB Pages for HHDM'') @ [10]) k
      else Some (Inr k))"

definition setup_vmm :: "boot_info \<Rightarrow> kernel \<Rightarrow> kernel kres option" where
  "setup_vmm b k =
     kobind (Some (allocate_page (kpmm k))) (\<lambda>(pml4_phys, s1).
       let pml4 = pml4_phys + hhdmOffset s1
       in
     kobind (Some (kernel_half_loop 255 pml4 256 s1)) (\<lambda>s2.
     kobind (Some (map_kernel b (dbgstub_enabled (ksched k)) pml4 s2)) (\<lambda>s3.
       let k3 = put_pmm s3 (set_kernel_top pml4 k)
       in
     kobind (report_pages k3) (\<lambda>k4.
     kobind (map_memory (boot_memmap b) (gb_pages k4) (cpu_feature_bit 1 0 CHR ''c'' 31 (plat (kdev k4))) pml4 (kpmm k4)) (\<lambda>s5.
       let k5 = put_pmm s5 k4
       in
     kobind (in_sched (\<lambda>s. Some (Inr (vmm_switch_to (sym_kernel_pagemap (syms s)) s))) k5) (\<lambda>k6.
       kputs (bytes_of ''VMM: Virtual Memory Manager Setup'' @ [10]) k6))))))"

section \<open>The upper half\<close>

lemma fresh_top:
  assumes inv: "pmm_inv s" and ct: "\<forall>ct \<in> set (child_tables s). unat (ct_end ct) \<le> 2 ^ 52" and tk: "pmm_taken s l s1"
  shows "pt_inv s1 (page_node s l)" and "unat i < 512 \<Longrightarrow> pte s1 (page_node s l) i = 0"
    and "good_path p \<Longrightarrow> walk_clear s1 (page_node s l) p" and "translate s1 (page_node s l) va = None"
proof -
  have z: "pte s1 (page_node s l) i = 0" if "unat i < 512" for i using pte_taken_zero [OF tk that] .
  then show "unat i < 512 \<Longrightarrow> pte s1 (page_node s l) i = 0" .
  have w: "walk s1 (page_node s l) p = (if p = [] then Some (page_node s l) else None)" if "good_path p" for p
    using that z by (cases p) (auto simp: good_path_def)
  have inv1: "pmm_inv s1" and lay: "pmm_layout s1 = pmm_layout s" using tk by (simp_all add: pmm_taken_def)
  have "\<forall>ct \<in> set (child_tables s1). unat (ct_end ct) \<le> 2 ^ 52"
    using ct layout_nth [OF lay] by (auto simp: all_set_conv_all_nth)
  moreover have "used_table s1 (page_node s l)" using taken_frames(1) [OF tk] by simp
  ultimately show "pt_inv s1 (page_node s l)" using inv1 w by (auto simp: pt_inv_def split: if_splits)
  show "walk_clear s1 (page_node s l) p" if "good_path p"
    unfolding walk_clear_def
  proof (intro allI impI)
    fix q i r t assume q: "p = q @ i # r" "walk s1 (page_node s l) q = Some t"
    have "good_path q" "unat i < 512" using that q(1) by (auto simp: good_path_def)
    then show "pte s1 t i AND PTE_PRESENT = 0 \<or> pte s1 t i AND PTE_PS = 0" using w [of q] q(2) z [of i] by (simp split: if_splits)
  qed
  show "translate s1 (page_node s l) va = None" using w [OF good_va_path] by (simp add: translate_def va_path_def)
qed

lemma kernel_half_ok:
  assumes "pt_inv s pml4" and "\<And>k. k < n \<Longrightarrow> pte s pml4 (i + of_nat k) AND PTE_PRESENT = 0" and "unat i + n \<le> 512"
  shows "kernel_half_loop n pml4 i s = Inl (Panic ''PMM: out of memory'') \<and> avail s < n
    \<or> (\<exists>s'. kernel_half_loop n pml4 i s = Inr s' \<and> pt_ext s pml4 s' \<and> vm_kept s pml4 s' \<and> avail s \<le> avail s' + n
        \<and> (\<forall>k < n. walk s' pml4 [i + of_nat k] \<noteq> None))"
  using assms
proof (induction n arbitrary: i s)
  case 0
  then show ?case using pt_ext_refl vm_kept_refl by simp
next
  case (Suc n)
  have i: "unat i < 512" using Suc.prems(3) by simp
  consider (oom) "page_locs s = pages_in PAGE_USED s" "allocate_page s = Inl (Panic ''PMM: out of memory'')"
    | (ok) l s1 where "allocate_page s = Inr (page_addr s l, s1)" "pmm_taken s l s1"
    using allocate_page_outcome [OF pt_invD(1) [OF Suc.prems(1)]] by blast
  then show ?case
  proof cases
    case oom
    then show ?thesis by (simp add: avail_def)
  next
    case (ok l s1)
    define s2 where "s2 = set_pte pml4 i (page_addr s l OR (PTE_PRESENT OR PTE_WRITABLE OR PTE_LOCKED)) s1"
    have f: "(PTE_WRITABLE OR PTE_LOCKED) AND PTE_MASK = 0" "(PTE_WRITABLE OR PTE_LOCKED) AND PTE_PS = 0" by (simp_all add: pte_defs)
    have a: "pte s pml4 i AND PTE_PRESENT = 0" using Suc.prems(2) [of 0] by simp
    note new = vmm_level_new [OF Suc.prems(1) _ _ _ i a ok(2) f s2_def, of "[]"]
    have new: "pt_ext s pml4 s2" "walk s2 pml4 [i] = Some (page_node s l)" "level_grew s pml4 [] pml4 i s2"
      using new by (simp_all add: good_path_def del: walk.simps(2))
    have step: "kernel_half_loop (Suc n) pml4 i s = kernel_half_loop n pml4 (i + 1) s2"
      using ok(1) by (simp add: s2_def set_pte_twice pte_set_pte_same)
    have inv2: "pt_inv s2 pml4" and kept: "vm_kept s pml4 s2" using new(1) level_kept [OF new(1,3)] by (simp_all add: pt_ext_def good_path_def)
    have av: "avail s = Suc (avail s2)" using avail_taken [OF ok(2)] by (simp add: s2_def)
    have top: "used_table s pml4" using pt_invD(2) [OF Suc.prems(1), of "[]"] by (simp add: good_path_def)
    have idx: "unat (i + 1) = unat i + 1" if "0 < n" using Suc.prems(3) that by (subst unat_add_no_wrap) simp_all
    have absent: "pte s2 pml4 (i + 1 + of_nat k) AND PTE_PRESENT = 0" if "k < n" for k
    proof -
      have e: "i + 1 + of_nat k = i + of_nat (Suc k)" by simp
      have u: "unat (i + 1 + of_nat k) = unat i + Suc k"
        unfolding e using that Suc.prems(3) by (subst unat_add_no_wrap) (simp_all add: unat_of_nat64 del: of_nat_Suc)
      then have "unat (i + 1 + of_nat k) < 512" using that Suc.prems(3) by simp
      moreover have "i + 1 + of_nat k \<noteq> i" using arg_cong [of "i + 1 + of_nat k" i unat] unfolding u by auto
      ultimately show ?thesis using e new(3) top Suc.prems(2) [of "Suc k"] that unfolding level_grew_def by (metis Pair_inject Suc_mono)
    qed
    consider "kernel_half_loop n pml4 (i + 1) s2 = Inl (Panic ''PMM: out of memory'')" "avail s2 < n"
      | s' where "kernel_half_loop n pml4 (i + 1) s2 = Inr s'" "pt_ext s2 pml4 s'" "vm_kept s2 pml4 s'" "avail s2 \<le> avail s' + n"
          "\<forall>k < n. walk s' pml4 [i + 1 + of_nat k] \<noteq> None"
      using Suc.IH [OF inv2 absent] idx Suc.prems(3) by (cases "n = 0") (auto simp: pt_ext_refl vm_kept_refl inv2)
    then show ?thesis
    proof cases
      case 1
      then show ?thesis using step av by simp
    next
      case (2 s')
      have "walk s' pml4 [i] = Some (page_node s l)" using 2(3) new(2) i unfolding vm_kept_def by blast
      then have "walk s' pml4 [i + of_nat k] \<noteq> None" if "k < Suc n" for k
        using that 2(5) by (cases k) (auto simp: add.assoc simp del: walk.simps)
      then show ?thesis
        using step av 2(1,4) pt_ext_trans [OF new(1) 2(2)] vm_kept_trans [OF kept 2(3)] by (simp del: walk.simps kernel_half_loop.simps)
    qed
  qed
qed

section \<open>The kernel's segments\<close>

lemma program_header_cong:
  assumes "\<And>k. k < 56 \<Longrightarrow> m' (a + of_nat k) = m (a + of_nat k)"
  shows "elf_program_header_at m' a = elf_program_header_at m a"
proof -
  have r64: "read64 m' (a + of_nat j) = read64 m (a + of_nat j)" if "j + 8 \<le> 56" for j
    by (rule read64_cong_bytes) (use that assms [of "j + _"] in \<open>simp add: add.assoc\<close>)
  have r32: "read32 m' (a + of_nat j) = read32 m (a + of_nat j)" if "j + 4 \<le> 56" for j
    using that assms [of j] assms [of "j + 1"] assms [of "j + 2"] assms [of "j + 3"] by (simp add: read32_def add_ac)
  show ?thesis
    using r64 [of 8] r64 [of 16] r64 [of 24] r64 [of 32] r64 [of 40] r64 [of 48] r32 [of 0] r32 [of 4]
    by (simp add: elf_program_header_at_def)
qed

text \<open>The address space of the kernel's file: a page of a segment lies where the boot loader put it, the last segment wins.\<close>

definition seg_covers :: "elf_program_header_64 \<Rightarrow> u64 \<Rightarrow> bool" where
  "seg_covers ph va \<longleftrightarrow> p_type ph = ELF_PROG_PT_LOAD_TYPE \<and> unat (p_virt_addr ph) div 4096 \<le> unat va div 4096
     \<and> unat va div 4096 < unat (p_virt_addr ph) div 4096 + unat (seg_count ph)"

definition seg_frame :: "u64 \<Rightarrow> elf_program_header_64 \<Rightarrow> u64 \<Rightarrow> u64" where
  "seg_frame base ph va = (base + p_virt_addr ph - 0xffffffff80000000
     + of_nat (unat va div 4096 - unat (p_virt_addr ph) div 4096) * PAGE_SIZE) AND PTE_MASK"

primrec seg_translate :: "u64 \<Rightarrow> elf_program_header_64 list \<Rightarrow> u64 \<Rightarrow> u64 option" where
  "seg_translate base [] va = None"
| "seg_translate base (ph # phs) va =
     (case seg_translate base phs va of Some f \<Rightarrow> Some f
      | None \<Rightarrow> if seg_covers ph va then Some (seg_frame base ph va) else None)"

definition KERNEL_TOP :: nat where "KERNEL_TOP = 2 ^ 64 - 2 ^ 39"

text \<open>The upper half of the address space, in which the direct map lies.\<close>

definition UPPER_HALF :: nat where "UPPER_HALF = 2 ^ 64 - 2 ^ 47"

lemma unat_indices:
  "unat (pml4i va) = unat va div 2 ^ 39 mod 512" "unat (pml3i va) = unat va div 2 ^ 30 mod 512" "unat (pml2i va) = unat va div 2 ^ 21 mod 512"
proof -
  have "unat (drop_bit k va AND 0x1ff) = unat va div 2 ^ k mod 512" for k
  proof -
    have "drop_bit k va AND 0x1ff = take_bit 9 (drop_bit k va)" by (simp add: take_bit_eq_mask mask_eq_exp_minus_1)
    moreover have "unat (take_bit 9 (drop_bit k va)) = take_bit 9 (drop_bit k (unat va))"
      using take_bit_nat_eq_self [of "unat va" 64] unat_lt_64 [of va] by (simp only: unsigned_take_bit_eq unsigned_drop_bit_eq) simp
    ultimately show ?thesis by (simp only: take_bit_eq_mod drop_bit_eq_div) simp
  qed
  then show "unat (pml4i va) = unat va div 2 ^ 39 mod 512" "unat (pml3i va) = unat va div 2 ^ 30 mod 512"
    "unat (pml2i va) = unat va div 2 ^ 21 mod 512" by (simp_all only: pml4i_def pml3i_def pml2i_def)
qed

lemma mod_block: "c * m \<le> x \<Longrightarrow> x < c * m + m \<Longrightarrow> x mod m = x - c * (m :: nat)"
proof -
  assume "c * m \<le> x" "x < c * m + m"
  then obtain d where "x = c * m + d" "d < m" using le_Suc_ex by fastforce
  then show ?thesis by simp
qed

lemma upper_top_index:
  shows "UPPER_HALF \<le> unat x \<Longrightarrow> unat x < KERNEL_TOP \<Longrightarrow> 256 \<le> unat (pml4i x) \<and> unat (pml4i x) \<le> 510"
    and "KERNEL_TOP \<le> unat x \<Longrightarrow> unat (pml4i x) = 511"
proof -
  assume "UPPER_HALF \<le> unat x" "unat x < KERNEL_TOP"
  then have "(2 ^ 16 - 1) * 512 + 256 \<le> unat x div 2 ^ 39" "unat x div 2 ^ 39 \<le> (2 ^ 16 - 1) * 512 + 510"
    by (simp_all add: UPPER_HALF_def KERNEL_TOP_def)
  then show "256 \<le> unat (pml4i x) \<and> unat (pml4i x) \<le> 510"
    unfolding unat_indices using mod_block [of "2 ^ 16 - 1" 512 "unat x div 2 ^ 39"] by auto
next
  assume "KERNEL_TOP \<le> unat x"
  moreover have "unat x < 2 ^ 64" using unat_lt_64 [of x] by simp
  ultimately have "unat x div 2 ^ 39 = (2 ^ 16 - 1) * 512 + 511" by (simp add: KERNEL_TOP_def)
  then show "unat (pml4i x) = 511" unfolding unat_indices by simp
qed

text \<open>A segment of a higher-half kernel: inside the last entry of the top level.\<close>

definition seg_high :: "elf_program_header_64 \<Rightarrow> bool" where
  "seg_high ph \<longleftrightarrow> p_type ph = ELF_PROG_PT_LOAD_TYPE \<longrightarrow> KERNEL_TOP \<le> unat (p_virt_addr ph)
     \<and> unat (p_virt_addr ph) + 4096 * unat (seg_count ph) \<le> 2 ^ 64"

lemma segment_flags_mask: "kernel_segment_flags stub ph AND PTE_MASK = 0"
  by (simp add: kernel_segment_flags_def Let_def pte_defs PTE_GLOBAL_def PTE_NX_def)

lemma high_same_page:
  assumes "KERNEL_TOP \<le> unat x" and "KERNEL_TOP \<le> unat y"
  shows "same_page x y \<longleftrightarrow> unat x div 4096 = unat y div 4096"
proof -
  have r: "(unat z div 4096) mod 2 ^ 36 + (2 ^ 16 - 1) * 2 ^ 36 = unat z div 4096" if "KERNEL_TOP \<le> unat z" for z :: u64
  proof -
    have "unat z < 2 ^ 64" using unat_lt_64 [of z] by simp
    then have "unat z div 4096 < 2 ^ 52" "(2 ^ 16 - 1) * 2 ^ 36 \<le> unat z div 4096"
      using that by (simp_all add: KERNEL_TOP_def)
    then obtain d where d: "unat z div 4096 = (2 ^ 16 - 1) * 2 ^ 36 + d" "d < 2 ^ 36" using le_Suc_ex by force
    moreover have "((2 ^ 16 - 1) * 2 ^ 36 + d) mod 2 ^ 36 = d" using d(2) by (subst mod_mult_self3) simp
    ultimately show ?thesis by simp
  qed
  show ?thesis unfolding same_page_vpn by (metis r [OF assms(1)] r [OF assms(2)])
qed

lemma translate_same_page: "same_page va va' \<Longrightarrow> translate s pml4 va = translate s pml4 va'"
  by (auto simp: translate_def same_page_def split: option.splits)

text \<open>No large page anywhere: where 4 KiB pages can be mapped.\<close>

definition all_clear :: "pmm \<Rightarrow> u64 \<Rightarrow> bool" where
  "all_clear s pml4 \<longleftrightarrow> (\<forall>p. good_path p \<longrightarrow> walk_clear s pml4 p)"

lemma map_pages_outcome:
  assumes "pt_inv s pml4" and "all_clear s pml4"
  shows "vmm_map_pages_loop pml4 va pa flags n i s = Inl (Panic ''PMM: out of memory'') \<and> avail s < 3 * n
    \<or> (\<exists>s'. vmm_map_pages_loop pml4 va pa flags n i s = Inr s' \<and> vm_kept s pml4 s' \<and> all_clear s' pml4 \<and> avail s \<le> avail s' + 3 * n)"
  using assms
proof (induction n arbitrary: i s)
  case 0
  then show ?case using vm_kept_refl by simp
next
  case (Suc n)
  let ?r = "vmm_map_page pml4 (va + i * PAGE_SIZE) (pa + i * PAGE_SIZE) flags PAGE_SIZE s"
  have "walk_clear s pml4 (va_path (va + i * PAGE_SIZE))" using Suc.prems(2) by (simp add: all_clear_def)
  then consider (e) "?r = Inl (Panic ''PMM: out of memory'')" "avail s < 3"
    | (ok) s1 where "?r = Inr s1" "vm_kept s pml4 s1" "avail s \<le> avail s1 + 3" "all_clear s1 pml4"
    using vmm_map_page_ok [OF Suc.prems(1), of "va + i * PAGE_SIZE" "pa + i * PAGE_SIZE" flags] Suc.prems(2)
    unfolding all_clear_def by metis
  then show ?case
  proof cases
    case e
    then show ?thesis by simp
  next
    case ok
    have "pt_inv s1 pml4" using ok(2) by (simp add: vm_kept_def)
    from Suc.IH [OF this ok(4), of "i + 1"] show ?thesis
    proof (elim disjE exE conjE)
      assume "vmm_map_pages_loop pml4 va pa flags n (i + 1) s1 = Inl (Panic ''PMM: out of memory'')" "avail s1 < 3 * n"
      then show ?thesis using ok(1,3) by simp
    next
      fix s' assume "vmm_map_pages_loop pml4 va pa flags n (i + 1) s1 = Inr s'" "vm_kept s1 pml4 s'" "all_clear s' pml4" "avail s1 \<le> avail s' + 3 * n"
      then show ?thesis using ok(1,3) vm_kept_trans [OF ok(2)] by simp
    qed
  qed
qed

lemma segment_high_page:
  assumes high: "seg_high ph" "p_type ph = ELF_PROG_PT_LOAD_TYPE" and k: "k < unat (seg_count ph)"
  shows "KERNEL_TOP \<le> unat (p_virt_addr ph + of_nat k * PAGE_SIZE)"
    and "unat (p_virt_addr ph + of_nat k * PAGE_SIZE) = unat (p_virt_addr ph) + k * 4096"
proof -
  let ?v = "p_virt_addr ph"
  have h: "KERNEL_TOP \<le> unat ?v" "unat ?v + 4096 * unat (seg_count ph) \<le> 2 ^ 64" using high by (simp_all add: seg_high_def)
  have "unat (of_nat k * PAGE_SIZE) = k * 4096" using k h by (simp add: unat_word_ariths unat_of_nat)
  then show u: "unat (?v + of_nat k * PAGE_SIZE) = unat ?v + k * 4096" using k h by (subst unat_add_no_wrap) simp_all
  then show "KERNEL_TOP \<le> unat (?v + of_nat k * PAGE_SIZE)" using h by simp
qed

lemma segment_page:
  assumes high: "seg_high ph" "p_type ph = ELF_PROG_PT_LOAD_TYPE" and va: "KERNEL_TOP \<le> unat va" and k: "k < unat (seg_count ph)"
  shows "same_page (p_virt_addr ph + of_nat k * PAGE_SIZE) va \<longleftrightarrow> unat va div 4096 = unat (p_virt_addr ph) div 4096 + k"
  using high_same_page [OF segment_high_page(1) [OF high k] va] segment_high_page(2) [OF high k] by auto

lemma map_segment_ok:
  assumes inv: "pt_inv s pml4" and clear: "all_clear s pml4" and high: "seg_high ph"
  shows "map_segment stub base pml4 ph s = Inl (Panic ''PMM: out of memory'') \<and> avail s < 3 * unat (seg_count ph)
    \<or> (\<exists>s'. map_segment stub base pml4 ph s = Inr s' \<and> vm_kept s pml4 s' \<and> all_clear s' pml4 \<and> avail s \<le> avail s' + 3 * unat (seg_count ph)
        \<and> (\<forall>va. KERNEL_TOP \<le> unat va \<longrightarrow> translate s' pml4 va = (if seg_covers ph va then Some (seg_frame base ph va) else translate s pml4 va))
        \<and> (\<forall>va. unat (pml4i va) \<noteq> 511 \<longrightarrow> translate s' pml4 va = translate s pml4 va))"
proof (cases "p_type ph = ELF_PROG_PT_LOAD_TYPE")
  case False
  then show ?thesis using vm_kept_refl [OF inv] clear by (simp add: map_segment_def seg_covers_def)
next
  case True
  let ?n = "unat (seg_count ph)" and ?v = "p_virt_addr ph" and ?f = "kernel_segment_flags stub ph"
  define pa where "pa = base + ?v - 0xffffffff80000000"
  have run: "map_segment stub base pml4 ph s = vmm_map_pages_loop pml4 ?v pa ?f ?n (of_nat 0) s"
    using True by (simp add: map_segment_def vmm_map_pages_continuous_def pa_def)
  consider "map_segment stub base pml4 ph s = Inl (Panic ''PMM: out of memory'')" "avail s < 3 * ?n"
    | s' where "map_segment stub base pml4 ph s = Inr s'" "vm_kept s pml4 s'" "all_clear s' pml4" "avail s \<le> avail s' + 3 * ?n"
    using map_pages_outcome [OF inv clear] unfolding run by blast
  then show ?thesis
  proof cases
    case 1
    then show ?thesis by simp
  next
    case (2 s')
    have n: "0 + ?n \<le> 2 ^ 36" using high True by (simp add: seg_high_def KERNEL_TOP_def)
    have "walk_clear s pml4 (va_path (?v + of_nat (0 + k) * PAGE_SIZE))" for k using clear by (simp add: all_clear_def)
    note ok = vmm_map_pages_loop_ok [OF inv n this 2(1) [unfolded run]]
    have "translate s' pml4 va = (if seg_covers ph va then Some (seg_frame base ph va) else translate s pml4 va)"
      if va: "KERNEL_TOP \<le> unat va" for va
    proof (cases "seg_covers ph va")
      case cov: True
      define k where "k = unat va div 4096 - unat ?v div 4096"
      have k: "k < ?n" "unat va div 4096 = unat ?v div 4096 + k" using cov by (auto simp: seg_covers_def k_def)
      then have "translate s' pml4 va = translate s' pml4 (?v + of_nat k * PAGE_SIZE)"
        using translate_same_page segment_page [OF high True va k(1)] by metis
      also have "\<dots> = Some ((pa + of_nat k * PAGE_SIZE) AND PTE_MASK)"
        using ok k(1) leaf_view_entry [OF segment_flags_mask] by simp
      finally show ?thesis using cov by (simp add: seg_frame_def pa_def k_def)
    next
      case False
      have "\<not> same_page (?v + of_nat (0 + k) * PAGE_SIZE) va" if "k < ?n" for k
        using segment_page [OF high True va that] False True that by (auto simp: seg_covers_def)
      then show ?thesis using ok False by simp
    qed
    moreover have "translate s' pml4 va = translate s pml4 va" if va: "unat (pml4i va) \<noteq> 511" for va
    proof -
      have "\<not> same_page (?v + of_nat (0 + k) * PAGE_SIZE) va" if "k < ?n" for k
        using upper_top_index(2) [OF segment_high_page(1) [OF high True that]] va by (auto simp: same_page_def va_path_def)
      then show ?thesis using ok by simp
    qed
    ultimately show ?thesis using 2 by blast
  qed
qed

text \<open>The program headers of the file, one behind the other, and the pages they ask for.\<close>

primrec headers_at :: "mem \<Rightarrow> u64 \<Rightarrow> nat \<Rightarrow> elf_program_header_64 list" where
  "headers_at m a 0 = []"
| "headers_at m a (Suc n) = elf_program_header_at m a # headers_at m (a + 56) n"

definition seg_pages :: "elf_program_header_64 list \<Rightarrow> nat" where
  "seg_pages phs = sum_list (map (\<lambda>ph. unat (seg_count ph)) phs)"

lemma headers_cong: "(\<And>k. k < 56 * n \<Longrightarrow> m' (a + of_nat k) = m (a + of_nat k)) \<Longrightarrow> headers_at m' a n = headers_at m a n"
proof (induction n arbitrary: a)
  case (Suc n)
  have "elf_program_header_at m' a = elf_program_header_at m a" by (rule program_header_cong) (use Suc.prems in simp)
  moreover have "headers_at m' (a + 56) n = headers_at m (a + 56) n"
    by (rule Suc.IH) (use Suc.prems [of "56 + _"] in \<open>simp add: add.assoc\<close>)
  ultimately show ?case by simp
qed simp

lemma map_segments_ok:
  assumes "pt_inv s pml4" and "all_clear s pml4" and "\<forall>k < 56 * n. off_frames s (a + of_nat k)"
    and "\<forall>ph \<in> set (headers_at (kmem s) a n). seg_high ph"
  shows "map_segments n a stub base pml4 s = Inl (Panic ''PMM: out of memory'') \<and> avail s < 3 * seg_pages (headers_at (kmem s) a n)
    \<or> (\<exists>s'. map_segments n a stub base pml4 s = Inr s' \<and> vm_kept s pml4 s' \<and> all_clear s' pml4
        \<and> avail s \<le> avail s' + 3 * seg_pages (headers_at (kmem s) a n)
        \<and> (\<forall>va. KERNEL_TOP \<le> unat va \<longrightarrow> translate s' pml4 va =
             (case seg_translate base (headers_at (kmem s) a n) va of Some f \<Rightarrow> Some f | None \<Rightarrow> translate s pml4 va))
        \<and> (\<forall>va. unat (pml4i va) \<noteq> 511 \<longrightarrow> translate s' pml4 va = translate s pml4 va))"
  using assms
proof (induction n arbitrary: a s)
  case 0
  then show ?case using vm_kept_refl by simp
next
  case (Suc n)
  let ?ph = "elf_program_header_at (kmem s) a" and ?phs = "headers_at (kmem s) (a + 56) n"
  consider (e) "map_segment stub base pml4 ?ph s = Inl (Panic ''PMM: out of memory'')" "avail s < 3 * unat (seg_count ?ph)"
    | (ok) s1 where "map_segment stub base pml4 ?ph s = Inr s1" "vm_kept s pml4 s1" "all_clear s1 pml4"
        "avail s \<le> avail s1 + 3 * unat (seg_count ?ph)"
        "\<forall>va. KERNEL_TOP \<le> unat va \<longrightarrow> translate s1 pml4 va = (if seg_covers ?ph va then Some (seg_frame base ?ph va) else translate s pml4 va)"
        "\<forall>va. unat (pml4i va) \<noteq> 511 \<longrightarrow> translate s1 pml4 va = translate s pml4 va"
    using map_segment_ok [OF Suc.prems(1,2), of ?ph stub base] Suc.prems(4) by auto
  then show ?case
  proof cases
    case e
    then show ?thesis by (simp add: seg_pages_def)
  next
    case ok
    have inv1: "pt_inv s1 pml4" and lay: "pmm_layout s1 = pmm_layout s" and mem: "\<And>b. off_frames s b \<Longrightarrow> kmem s1 b = kmem s b"
      using ok(2) by (simp_all add: vm_kept_def)
    have off: "off_frames s (a + 56 + of_nat k)" if "k < 56 * n" for k
      using Suc.prems(3) [rule_format, of "56 + k"] that by (simp add: add.assoc)
    have hs: "headers_at (kmem s1) (a + 56) n = ?phs" by (rule headers_cong) (use off mem in blast)
    have off1: "\<forall>k < 56 * n. off_frames s1 (a + 56 + of_nat k)" using off off_frames_cong [OF lay] by simp
    have "\<forall>ph \<in> set ?phs. seg_high ph" using Suc.prems(4) by simp
    then have "map_segments n (a + 56) stub base pml4 s1 = Inl (Panic ''PMM: out of memory'') \<and> avail s1 < 3 * seg_pages ?phs
      \<or> (\<exists>s'. map_segments n (a + 56) stub base pml4 s1 = Inr s' \<and> vm_kept s1 pml4 s' \<and> all_clear s' pml4
          \<and> avail s1 \<le> avail s' + 3 * seg_pages ?phs
          \<and> (\<forall>va. KERNEL_TOP \<le> unat va \<longrightarrow> translate s' pml4 va =
               (case seg_translate base ?phs va of Some f \<Rightarrow> Some f | None \<Rightarrow> translate s1 pml4 va))
          \<and> (\<forall>va. unat (pml4i va) \<noteq> 511 \<longrightarrow> translate s' pml4 va = translate s1 pml4 va))"
      using Suc.IH [OF inv1 ok(3) off1, unfolded hs] by blast
    then show ?thesis
    proof (elim disjE exE conjE)
      assume "map_segments n (a + 56) stub base pml4 s1 = Inl (Panic ''PMM: out of memory'')" "avail s1 < 3 * seg_pages ?phs"
      then show ?thesis using ok(1,4) by (simp add: seg_pages_def)
    next
      fix s' assume r: "map_segments n (a + 56) stub base pml4 s1 = Inr s'" "vm_kept s1 pml4 s'" "all_clear s' pml4"
        "avail s1 \<le> avail s' + 3 * seg_pages ?phs"
        "\<forall>va. KERNEL_TOP \<le> unat va \<longrightarrow> translate s' pml4 va =
             (case seg_translate base ?phs va of Some f \<Rightarrow> Some f | None \<Rightarrow> translate s1 pml4 va)"
        "\<forall>va. unat (pml4i va) \<noteq> 511 \<longrightarrow> translate s' pml4 va = translate s1 pml4 va"
      have "translate s' pml4 va = (case seg_translate base (?ph # ?phs) va of Some f \<Rightarrow> Some f | None \<Rightarrow> translate s pml4 va)"
        if "KERNEL_TOP \<le> unat va" for va using r(5) ok(5) that by (simp split: option.splits)
      then show ?thesis using r(1,3,4,6) ok(1,4,6) vm_kept_trans [OF ok(2) r(2)] by (simp add: seg_pages_def)
    qed
  qed
qed

section \<open>The direct map\<close>

definition big_bits :: "bool \<Rightarrow> nat" where "big_bits gb = (if gb then 30 else 21)"

lemma big_size_bits: "big_size gb = 2 ^ big_bits gb" "unat (big_size gb) = 2 ^ big_bits gb"
  by (simp_all add: big_size_def big_bits_def JUMBO_PAGE_SIZE_def LARGE_PAGE_SIZE_def)

lemma digits_eq: "512 * a + r = 512 * b + q \<Longrightarrow> r < 512 \<Longrightarrow> q < 512 \<Longrightarrow> a = b \<and> r = (q :: nat)"
proof -
  assume e: "512 * a + r = 512 * b + q" "r < 512" "q < 512"
  then have "a = b" by linarith
  then show ?thesis using e(1) by simp
qed

lemma upper_same_big:
  assumes "UPPER_HALF \<le> unat x" and "UPPER_HALF \<le> unat y"
  shows "same_big gb x y \<longleftrightarrow> unat x div 2 ^ big_bits gb = unat y div 2 ^ big_bits gb"
proof -
  have b: "unat z div 2 ^ 30 mod 2 ^ 18 = unat z div 2 ^ 30 - (2 ^ 16 - 1) * 2 ^ 18"
      "unat z div 2 ^ 21 mod 2 ^ 27 = unat z div 2 ^ 21 - (2 ^ 16 - 1) * 2 ^ 27"
      "(2 ^ 16 - 1) * 2 ^ 18 \<le> unat z div 2 ^ 30" "(2 ^ 16 - 1) * 2 ^ 27 \<le> unat z div 2 ^ 21"
    if "UPPER_HALF \<le> unat z" for z :: u64
  proof -
    have "unat z < 2 ^ 64" using unat_lt_64 [of z] by simp
    then have "unat z div 2 ^ 30 < 2 ^ 34" "unat z div 2 ^ 21 < 2 ^ 43" by simp_all
    moreover show l: "(2 ^ 16 - 1) * 2 ^ 18 \<le> unat z div 2 ^ 30" "(2 ^ 16 - 1) * 2 ^ 27 \<le> unat z div 2 ^ 21"
      using that by (simp_all add: UPPER_HALF_def)
    ultimately show "unat z div 2 ^ 30 mod 2 ^ 18 = unat z div 2 ^ 30 - (2 ^ 16 - 1) * 2 ^ 18"
      "unat z div 2 ^ 21 mod 2 ^ 27 = unat z div 2 ^ 21 - (2 ^ 16 - 1) * 2 ^ 27"
      using mod_block [OF l(1)] mod_block [OF l(2)] by simp_all
  qed
  have two: "u mod 2 ^ 18 = 512 * (u div 512 mod 512) + u mod 512" for u :: nat
    using mod_mult2_eq [of u 512 512] by simp
  have three: "u mod 2 ^ 27 = 512 * (u div 512 mod 2 ^ 18) + u mod 512" for u :: nat
    using mod_mult2_eq [of u 512 "2 ^ 18"] by simp
  have d: "u div 2 ^ 30 div 512 = u div 2 ^ 39" "u div 2 ^ 21 div 512 = u div 2 ^ 30" for u :: nat by (simp_all flip: div_mult2_eq)
  have eq18: "u mod 2 ^ 18 = v mod 2 ^ 18 \<longleftrightarrow> u div 512 mod 512 = v div 512 mod 512 \<and> u mod 512 = v mod 512" for u v :: nat
  proof
    assume "u mod 2 ^ 18 = v mod 2 ^ 18"
    then have "512 * (u div 512 mod 512) + u mod 512 = 512 * (v div 512 mod 512) + v mod 512" by (simp only: two)
    then show "u div 512 mod 512 = v div 512 mod 512 \<and> u mod 512 = v mod 512" by (rule digits_eq) simp_all
  qed (simp only: two)
  have eq27: "u mod 2 ^ 27 = v mod 2 ^ 27 \<longleftrightarrow> u div 512 mod 2 ^ 18 = v div 512 mod 2 ^ 18 \<and> u mod 512 = v mod 512" for u v :: nat
  proof
    assume "u mod 2 ^ 27 = v mod 2 ^ 27"
    then have "512 * (u div 512 mod 2 ^ 18) + u mod 512 = 512 * (v div 512 mod 2 ^ 18) + v mod 512" by (simp only: three)
    then show "u div 512 mod 2 ^ 18 = v div 512 mod 2 ^ 18 \<and> u mod 512 = v mod 512" by (rule digits_eq) simp_all
  qed (simp only: three)
  show ?thesis
  proof (cases gb)
    case True
    have "same_big gb x y \<longleftrightarrow> unat x div 2 ^ 30 mod 2 ^ 18 = unat y div 2 ^ 30 mod 2 ^ 18"
      using True by (simp add: same_big_def big_path_def big_index_def word_unat_eq_iff unat_indices eq18 d del: power_numeral)
    then show ?thesis using True b(1,3) [OF assms(1)] b(1,3) [OF assms(2)] by (simp add: big_bits_def) linarith
  next
    case False
    have "same_big gb x y \<longleftrightarrow> unat x div 2 ^ 21 mod 2 ^ 27 = unat y div 2 ^ 21 mod 2 ^ 27"
      using False by (simp add: same_big_def big_path_def big_index_def word_unat_eq_iff unat_indices eq27 eq18 d del: power_numeral)
    then show ?thesis using False b(2,4) [OF assms(1)] b(2,4) [OF assms(2)] by (simp add: big_bits_def) linarith
  qed
qed

text \<open>
  The large page of the direct map that holds an address, and the tables that map it: no
  entry above the large pages is one itself.
\<close>

definition dm_frame :: "u64 \<Rightarrow> bool \<Rightarrow> u64 \<Rightarrow> u64" where
  "dm_frame off gb va = (of_nat (unat va div 2 ^ big_bits gb * 2 ^ big_bits gb) - off) AND PTE_MASK"

definition big_clear :: "pmm \<Rightarrow> bool \<Rightarrow> u64 \<Rightarrow> bool" where
  "big_clear s gb pml4 \<longleftrightarrow> (\<forall>va. walk_clear s pml4 (big_path gb va))"

text \<open>
  What a pass over the direct map has done: the addresses in a range are mapped, the others as
  before; and nothing at all changes below the entries of the top level it does not use.
\<close>

definition dm_grew :: "u64 \<Rightarrow> bool \<Rightarrow> u64 \<Rightarrow> (u64 \<Rightarrow> bool) \<Rightarrow> pmm \<Rightarrow> pmm \<Rightarrow> bool" where
  "dm_grew off gb pml4 R s s' \<longleftrightarrow> vm_kept s pml4 s' \<and> big_clear s' gb pml4
     \<and> (\<forall>va. UPPER_HALF \<le> unat va \<longrightarrow> direct s' gb pml4 va = (if R va then Some (dm_frame off gb va) else direct s gb pml4 va))
     \<and> (\<forall>va. (\<forall>x. R x \<longrightarrow> pml4i x \<noteq> pml4i va) \<longrightarrow> translate s' pml4 va = translate s pml4 va
          \<and> walk_clear s' pml4 (va_path va) = walk_clear s pml4 (va_path va))"

lemma dm_grew_refl: "pt_inv s pml4 \<Longrightarrow> big_clear s gb pml4 \<Longrightarrow> dm_grew off gb pml4 (\<lambda>_. False) s s"
  by (simp add: dm_grew_def vm_kept_refl)

lemma dm_grew_trans:
  assumes "dm_grew off gb pml4 R1 s s1" and "dm_grew off gb pml4 R2 s1 s2"
  shows "dm_grew off gb pml4 (\<lambda>va. R1 va \<or> R2 va) s s2"
  using assms vm_kept_trans [of s pml4 s1 s2] by (auto simp: dm_grew_def)

lemma hhdm_loop_ok:
  assumes "pt_inv s pml4" and "big_clear s gb pml4" and "flags AND PTE_MASK = 0"
    and "2 ^ big_bits gb dvd unat va" and "unat virt_end = unat va + 2 ^ big_bits gb * n"
    and "UPPER_HALF \<le> unat va" and "unat virt_end \<le> KERNEL_TOP"
  shows "vmm_hhdm_loop pml4 (big_size gb) flags virt_end va (va - off) s = Some (Inl (Panic ''PMM: out of memory'')) \<and> avail s < 2 * n
    \<or> (\<exists>s'. vmm_hhdm_loop pml4 (big_size gb) flags virt_end va (va - off) s = Some (Inr s') \<and> avail s \<le> avail s' + 2 * n
        \<and> dm_grew off gb pml4 (\<lambda>va'. unat va \<le> unat va' \<and> unat va' < unat virt_end) s s')"
  using assms
proof (induction n arbitrary: va s)
  case 0
  then have "\<not> va < virt_end" by (simp add: word_less_nat_alt)
  moreover have "dm_grew off gb pml4 (\<lambda>va'. unat va \<le> unat va' \<and> unat va' < unat virt_end) s s"
    using dm_grew_refl [OF 0(1,2)] 0(5) by (auto simp: dm_grew_def)
  ultimately show ?case by (subst (1 2) vmm_hhdm_loop.simps) simp
next
  case (Suc n)
  let ?B = "2 ^ big_bits gb :: nat" and ?map = "vmm_map_page pml4 va (va - off) flags (big_size gb) s"
  have B: "0 < ?B" by simp
  have lt: "va < virt_end" using Suc.prems(5) B by (simp add: word_less_nat_alt)
  have va1: "unat (va + big_size gb) = unat va + ?B"
    by (subst unat_add_no_wrap) (use Suc.prems(5) unat_lt_64 [of virt_end] big_size_bits(2) in simp_all)
  have c: "walk_clear s pml4 (big_path gb va)" using Suc.prems(2) by (simp add: big_clear_def)
  consider (e) "?map = Inl (Panic ''PMM: out of memory'')" "avail s < 2"
    | (ok) s1 where "?map = Inr s1" "vm_kept s pml4 s1" "avail s \<le> avail s1 + 2" "big_clear s1 gb pml4"
        "\<forall>va'. direct s1 gb pml4 va' = (if same_big gb va va' then Some ((va - off) AND PTE_MASK) else direct s gb pml4 va')"
        "\<forall>va'. pml4i va' \<noteq> pml4i va \<longrightarrow> translate s1 pml4 va' = translate s pml4 va' \<and> walk_clear s1 pml4 (va_path va') = walk_clear s pml4 (va_path va')"
    using vmm_map_big_ok [OF Suc.prems(1) c Suc.prems(3), of "va - off"] Suc.prems(2) unfolding big_clear_def by metis
  then show ?case
  proof cases
    case e
    then show ?thesis using lt by (subst (1 2) vmm_hhdm_loop.simps) simp
  next
    case ok
    have step: "vmm_hhdm_loop pml4 (big_size gb) flags virt_end va (va - off) s
        = vmm_hhdm_loop pml4 (big_size gb) flags virt_end (va + big_size gb) (va + big_size gb - off) s1"
      using lt ok(1) by (subst vmm_hhdm_loop.simps) (simp add: algebra_simps)
    have first: "dm_grew off gb pml4 (\<lambda>va'. unat va \<le> unat va' \<and> unat va' < unat va + ?B) s s1"
    proof -
      have "same_big gb va va' \<longleftrightarrow> unat va \<le> unat va' \<and> unat va' < unat va + ?B" if "UPPER_HALF \<le> unat va'" for va'
      proof -
        obtain q where q: "unat va = ?B * q" using Suc.prems(4) by blast
        have "unat va' div ?B = q \<longleftrightarrow> ?B * q \<le> unat va' \<and> unat va' < ?B * q + ?B" 
          using dividend_less_times_div [OF B, of "unat va'"] times_div_less_eq_dividend [of ?B "unat va'"] div_nat_eqI [of ?B q "unat va'"]
          by (auto simp: add.commute)
        then show ?thesis using upper_same_big [OF Suc.prems(6) that] q B by auto
      qed
      moreover have "(va - off) AND PTE_MASK = dm_frame off gb va'" if "same_big gb va va'" "UPPER_HALF \<le> unat va'" for va'
      proof -
        have "unat va' div ?B = unat va div ?B" using upper_same_big [OF Suc.prems(6) that(2), of gb] that(1) by simp
        then have "unat va' div ?B * ?B = unat va" using dvd_div_mult_self [OF Suc.prems(4)] by simp
        then show ?thesis by (simp only: dm_frame_def) simp
      qed
      moreover have "pml4i va' \<noteq> pml4i va" if "\<forall>x. unat va \<le> unat x \<and> unat x < unat va + ?B \<longrightarrow> pml4i x \<noteq> pml4i va'" for va'
        using that [rule_format, of va] B by auto
      ultimately show ?thesis using ok(2,4,5,6) by (simp add: dm_grew_def)
    qed
    have inv1: "pt_inv s1 pml4" using ok(2) by (simp add: vm_kept_def)
    have "vmm_hhdm_loop pml4 (big_size gb) flags virt_end (va + big_size gb) (va + big_size gb - off) s1 = Some (Inl (Panic ''PMM: out of memory'')) \<and> avail s1 < 2 * n
      \<or> (\<exists>s'. vmm_hhdm_loop pml4 (big_size gb) flags virt_end (va + big_size gb) (va + big_size gb - off) s1 = Some (Inr s') \<and> avail s1 \<le> avail s' + 2 * n
          \<and> dm_grew off gb pml4 (\<lambda>va'. unat (va + big_size gb) \<le> unat va' \<and> unat va' < unat virt_end) s1 s')"
      by (rule Suc.IH [OF inv1 ok(4) Suc.prems(3)]) (use Suc.prems va1 in simp_all)
    then show ?thesis
    proof (elim disjE exE conjE)
      assume "vmm_hhdm_loop pml4 (big_size gb) flags virt_end (va + big_size gb) (va + big_size gb - off) s1 = Some (Inl (Panic ''PMM: out of memory''))" "avail s1 < 2 * n"
      then show ?thesis using step ok(3) by simp
    next
      fix s' assume r: "vmm_hhdm_loop pml4 (big_size gb) flags virt_end (va + big_size gb) (va + big_size gb - off) s1 = Some (Inr s')"
        "avail s1 \<le> avail s' + 2 * n" "dm_grew off gb pml4 (\<lambda>va'. unat (va + big_size gb) \<le> unat va' \<and> unat va' < unat virt_end) s1 s'"
      have eq: "(\<lambda>va'. unat va \<le> unat va' \<and> unat va' < unat va + ?B \<or> unat (va + big_size gb) \<le> unat va' \<and> unat va' < unat virt_end)
          = (\<lambda>va'. unat va \<le> unat va' \<and> unat va' < unat virt_end)"
        unfolding va1 using Suc.prems(5) by (auto simp: fun_eq_iff)
      have "dm_grew off gb pml4 (\<lambda>va'. unat va \<le> unat va' \<and> unat va' < unat virt_end) s s'"
        using dm_grew_trans [OF first r(3)] unfolding eq .
      then show ?thesis using step r(1,2) ok(3) by auto
    qed
  qed
qed

text \<open>An entry of the memory map as the code rounds it, and the large pages it takes.\<close>

abbreviation entry_base :: "limine_memmap_entry \<Rightarrow> u64" where "entry_base e \<equiv> ALIGN_DOWN (me_base e) PAGE_SIZE"

definition entry_bytes :: "limine_memmap_entry \<Rightarrow> u64" where
  "entry_bytes e = ALIGN_UP (me_length e) PAGE_SIZE div 4096 * PAGE_SIZE"

definition in_entry :: "limine_memmap_entry \<Rightarrow> u64 \<Rightarrow> bool" where
  "in_entry e a \<longleftrightarrow> unat (entry_base e) \<le> unat a \<and> unat a < unat (entry_base e) + unat (entry_bytes e)"

text \<open>The direct map starts at a multiple of 1 GiB in the upper half, and the memory of the map ends below the kernel.\<close>

definition entry_fits :: "u64 \<Rightarrow> limine_memmap_entry \<Rightarrow> bool" where
  "entry_fits off e \<longleftrightarrow> unat off + unat (entry_base e) + unat (entry_bytes e) \<le> KERNEL_TOP"

definition hhdm_ok :: "u64 \<Rightarrow> bool" where
  "hhdm_ok off \<longleftrightarrow> UPPER_HALF \<le> unat off \<and> 2 ^ 30 dvd unat off"

definition entry_bigs :: "bool \<Rightarrow> limine_memmap_entry \<Rightarrow> nat" where
  "entry_bigs gb e = (unat (entry_base e) + unat (entry_bytes e) + 2 ^ big_bits gb - 1) div 2 ^ big_bits gb
     - unat (entry_base e) div 2 ^ big_bits gb"

text \<open>The range that was mapped ends where the memory does, counted in large pages.\<close>

definition range_below :: "u64 \<Rightarrow> (u64 \<Rightarrow> bool) \<Rightarrow> limine_memmap_entry list \<Rightarrow> bool" where
  "range_below off R es \<longleftrightarrow> (\<forall>va. R va \<longrightarrow> UPPER_HALF \<le> unat va
     \<and> (\<forall>c. 2 ^ 30 dvd c \<longrightarrow> (\<forall>e \<in> set es. unat off + unat (entry_base e) + unat (entry_bytes e) \<le> c) \<longrightarrow> unat va < c))"

lemma entry_flags_mask: "entry_flags hv e AND PTE_MASK = 0"
  by (simp add: entry_flags_def Let_def pte_defs PTE_NX_def PTE_PCD_def PTE_PAT_def)

lemma map_entry_ok:
  assumes inv: "pt_inv s pml4" and clear: "big_clear s gb pml4" and off: "hhdm_ok (hhdmOffset s)" and fits: "entry_fits (hhdmOffset s) e"
  shows "map_entry gb hv pml4 e s = Some (Inl (Panic ''PMM: out of memory'')) \<and> avail s < 2 * entry_bigs gb e
    \<or> (\<exists>s' R. map_entry gb hv pml4 e s = Some (Inr s') \<and> avail s \<le> avail s' + 2 * entry_bigs gb e \<and> dm_grew (hhdmOffset s) gb pml4 R s s'
        \<and> (\<forall>a. in_entry e a \<longrightarrow> R (hhdmOffset s + a)) \<and> range_below (hhdmOffset s) R [e])"
proof -
  define k where "k = big_bits gb"
  define off where "off = hhdmOffset s"
  define b where "b = entry_base e"
  define v where "v = b + off"
  have k: "k \<le> 30" "12 \<le> k" by (simp_all add: k_def big_bits_def)
  have o: "UPPER_HALF \<le> unat off" "2 ^ k dvd unat off"
    using assms(3) dvd_trans [OF le_imp_power_dvd [OF k(1), of "2 :: nat"]] unfolding off_def hhdm_ok_def by blast+
  have f: "unat off + unat b + unat (entry_bytes e) \<le> KERNEL_TOP" using fits by (simp add: entry_fits_def off_def b_def)
  have KT: "KERNEL_TOP + 2 ^ k \<le> 2 ^ 64" "KERNEL_TOP < 2 ^ 64"
    using power_increasing [OF k(1), of "2 :: nat"] by (simp_all add: KERNEL_TOP_def)
  have v: "unat v = unat b + unat off" unfolding v_def by (rule unat_add_no_wrap) (use f KT in simp)
  have e: "unat (v + entry_bytes e) = unat b + unat off + unat (entry_bytes e)" using v f KT by (subst unat_add_no_wrap) simp_all
  have big: "big_size gb = 2 ^ k" using big_size_bits by (simp add: k_def)
  obtain q where q: "unat off = 2 ^ k * q" using o(2) by blast
  have up: "unat (ALIGN_UP (v + entry_bytes e) (big_size gb)) = (unat (v + entry_bytes e) + 2 ^ k - 1) div 2 ^ k * 2 ^ k"
    by (rule unat_ALIGN_pow(1) [OF _ _ big]) (use k e f KT in simp_all)
  have down: "unat (ALIGN_DOWN v (big_size gb)) = unat v div 2 ^ k * 2 ^ k"
    by (rule unat_ALIGN_pow(2) [OF _ _ big]) (use k v f KT in simp_all)
  have pb: "unat (ALIGN_DOWN b (big_size gb)) = unat b div 2 ^ k * 2 ^ k"
    by (rule unat_ALIGN_pow(2) [OF _ _ big]) (use k f KT in simp_all)
  have k1: "1 \<le> (2 :: nat) ^ k" by simp
  define U where "U = (unat b + unat (entry_bytes e) + 2 ^ k - 1) div 2 ^ k"
  define D where "D = unat b div 2 ^ k"
  have up: "unat (ALIGN_UP (v + entry_bytes e) (big_size gb)) = (q + U) * 2 ^ k"
  proof -
    have "unat b + 2 ^ k * q + unat (entry_bytes e) + 2 ^ k - 1 = unat b + unat (entry_bytes e) + 2 ^ k - 1 + 2 ^ k * q" using k1 by linarith
    then show ?thesis unfolding up e q U_def by simp
  qed
  have down: "unat (ALIGN_DOWN v (big_size gb)) = (q + D) * 2 ^ k" unfolding down v q D_def by simp
  have DU: "D \<le> U" unfolding D_def U_def using k1 by (intro div_le_mono) linarith
  have n: "entry_bigs gb e = U - D" by (simp add: entry_bigs_def U_def D_def b_def k_def)
  have pa: "ALIGN_DOWN b (big_size gb) = ALIGN_DOWN v (big_size gb) - off"
  proof -
    have "unat (ALIGN_DOWN b (big_size gb) + off) = unat (ALIGN_DOWN b (big_size gb)) + unat off"
    proof (rule unat_add_no_wrap)
      have "unat (ALIGN_DOWN b (big_size gb)) \<le> unat b" unfolding pb by simp
      then show "unat (ALIGN_DOWN b (big_size gb)) + unat off < 2 ^ LENGTH(64)" using f KT by simp
    qed
    then have "unat (ALIGN_DOWN b (big_size gb) + off) = unat (ALIGN_DOWN v (big_size gb))"
      unfolding down pb q D_def by (simp add: algebra_simps)
    then have "ALIGN_DOWN b (big_size gb) + off = ALIGN_DOWN v (big_size gb)" by (rule word_eq_unatI)
    then show ?thesis by (simp add: algebra_simps)
  qed
  have le: "U + q \<le> c" if c: "unat b + unat (entry_bytes e) + 2 ^ k * q \<le> 2 ^ k * c" for c
  proof -
    have "(unat b + unat (entry_bytes e) + 2 ^ k - 1 + 2 ^ k * q) div 2 ^ k \<le> (2 ^ k * c + (2 ^ k - 1)) div 2 ^ k"
      using c k1 by (intro div_le_mono) linarith
    moreover have "(2 ^ k * c + (2 ^ k - 1)) div 2 ^ k = c" using k1 by (simp only: div_mult_self4) simp
    ultimately show ?thesis unfolding U_def by simp
  qed
  define R where "R = (\<lambda>va' :: u64. unat (ALIGN_DOWN v (big_size gb)) \<le> unat va' \<and> unat va' < unat (ALIGN_UP (v + entry_bytes e) (big_size gb)))"
  have cov: "R (off + a)" if "in_entry e a" for a
  proof -
    have a: "unat b \<le> unat a" "unat a < unat b + unat (entry_bytes e)" using that by (simp_all add: in_entry_def b_def)
    have ua: "unat (off + a) = unat off + unat a" by (rule unat_add_no_wrap) (use a f KT in simp)
    have "D * 2 ^ k \<le> unat b" by (simp add: D_def)
    moreover have "unat b + unat (entry_bytes e) \<le> U * 2 ^ k"
      using dividend_less_times_div [of "2 ^ k :: nat" "unat b + unat (entry_bytes e) + 2 ^ k - 1"] by (simp add: U_def mult.commute)
    ultimately show ?thesis unfolding R_def up down ua q using a by (simp add: add_mult_distrib)
  qed
  have low: "UPPER_HALF \<le> unat (ALIGN_DOWN v (big_size gb))" using o(1) unfolding down q by (simp add: algebra_simps)
  have bound: "unat (ALIGN_UP (v + entry_bytes e) (big_size gb)) \<le> d" if d: "2 ^ 30 dvd d" "unat off + unat b + unat (entry_bytes e) \<le> d" for d
  proof -
    obtain c where c: "d = 2 ^ k * c" using dvd_trans [OF le_imp_power_dvd [OF k(1), of "2 :: nat"] d(1)] by blast
    have "U + q \<le> c" by (rule le) (use d(2) q c in simp)
    then show ?thesis unfolding up c using mult_le_mono2 [of "U + q" c "2 ^ k"] by (simp add: algebra_simps)
  qed
  have below: "range_below off R [e]" unfolding range_below_def R_def using low bound by (fastforce simp: b_def)
  have run: "map_entry gb hv pml4 e s = vmm_hhdm_loop pml4 (big_size gb) (entry_flags hv e) (ALIGN_UP (v + entry_bytes e) (big_size gb))
      (ALIGN_DOWN v (big_size gb)) (ALIGN_DOWN v (big_size gb) - off) s"
    unfolding pa [symmetric] by (simp add: map_entry_def vmm_map_pages_hhdm_def Let_def v_def b_def off_def entry_bytes_def big_size_def)
  have "vmm_hhdm_loop pml4 (big_size gb) (entry_flags hv e) (ALIGN_UP (v + entry_bytes e) (big_size gb))
      (ALIGN_DOWN v (big_size gb)) (ALIGN_DOWN v (big_size gb) - off) s = Some (Inl (Panic ''PMM: out of memory'')) \<and> avail s < 2 * entry_bigs gb e
    \<or> (\<exists>s'. vmm_hhdm_loop pml4 (big_size gb) (entry_flags hv e) (ALIGN_UP (v + entry_bytes e) (big_size gb))
      (ALIGN_DOWN v (big_size gb)) (ALIGN_DOWN v (big_size gb) - off) s = Some (Inr s') \<and> avail s \<le> avail s' + 2 * entry_bigs gb e
        \<and> dm_grew off gb pml4 R s s')"
    unfolding R_def
  proof (rule hhdm_loop_ok [OF inv clear entry_flags_mask])
    show "2 ^ big_bits gb dvd unat (ALIGN_DOWN v (big_size gb))" unfolding down by (simp add: k_def)
    show "unat (ALIGN_UP (v + entry_bytes e) (big_size gb)) = unat (ALIGN_DOWN v (big_size gb)) + 2 ^ big_bits gb * entry_bigs gb e"
    proof -
      obtain d where "U = D + d" using DU le_Suc_ex by blast
      then show ?thesis unfolding up down n k_def [symmetric] by (simp add: algebra_simps)
    qed
    show "UPPER_HALF \<le> unat (ALIGN_DOWN v (big_size gb))" by (rule low)
    show "unat (ALIGN_UP (v + entry_bytes e) (big_size gb)) \<le> KERNEL_TOP" by (rule bound) (use f in \<open>simp_all add: KERNEL_TOP_def\<close>)
  qed
  then show ?thesis using cov below unfolding run off_def by auto
qed

lemma map_memory_ok:
  assumes "pt_inv s pml4" and "big_clear s gb pml4" and "hhdm_ok (hhdmOffset s)" and "\<forall>e \<in> set es. entry_fits (hhdmOffset s) e"
  shows "map_memory es gb hv pml4 s = Some (Inl (Panic ''PMM: out of memory'')) \<and> avail s < 2 * sum_list (map (entry_bigs gb) es)
    \<or> (\<exists>s' R. map_memory es gb hv pml4 s = Some (Inr s') \<and> avail s \<le> avail s' + 2 * sum_list (map (entry_bigs gb) es)
        \<and> dm_grew (hhdmOffset s) gb pml4 R s s' \<and> (\<forall>e \<in> set es. \<forall>a. in_entry e a \<longrightarrow> R (hhdmOffset s + a))
        \<and> range_below (hhdmOffset s) R es)"
  using assms
proof (induction es arbitrary: s)
  case Nil
  then show ?case using dm_grew_refl by (fastforce simp: range_below_def)
next
  case (Cons e es)
  consider (e) "map_entry gb hv pml4 e s = Some (Inl (Panic ''PMM: out of memory''))" "avail s < 2 * entry_bigs gb e"
    | (ok) s1 R where "map_entry gb hv pml4 e s = Some (Inr s1)" "avail s \<le> avail s1 + 2 * entry_bigs gb e"
        "dm_grew (hhdmOffset s) gb pml4 R s s1" "\<forall>a. in_entry e a \<longrightarrow> R (hhdmOffset s + a)" "range_below (hhdmOffset s) R [e]"
    using map_entry_ok [OF Cons.prems(1-3), of e hv] Cons.prems(4) by auto
  then show ?case
  proof cases
    case e
    then show ?thesis by simp
  next
    case ok
    have inv1: "pt_inv s1 pml4" and c1: "big_clear s1 gb pml4" and lay: "pmm_layout s1 = pmm_layout s"
      using ok(3) by (simp_all add: dm_grew_def vm_kept_def)
    note off = layout_nth(3) [OF lay]
    have "map_memory es gb hv pml4 s1 = Some (Inl (Panic ''PMM: out of memory'')) \<and> avail s1 < 2 * sum_list (map (entry_bigs gb) es)
      \<or> (\<exists>s' R'. map_memory es gb hv pml4 s1 = Some (Inr s') \<and> avail s1 \<le> avail s' + 2 * sum_list (map (entry_bigs gb) es)
          \<and> dm_grew (hhdmOffset s) gb pml4 R' s1 s' \<and> (\<forall>e \<in> set es. \<forall>a. in_entry e a \<longrightarrow> R' (hhdmOffset s + a))
          \<and> range_below (hhdmOffset s) R' es)"
      using Cons.IH [OF inv1 c1, unfolded off] Cons.prems(3,4) by simp
    then show ?thesis
    proof (elim disjE exE conjE)
      assume "map_memory es gb hv pml4 s1 = Some (Inl (Panic ''PMM: out of memory''))" "avail s1 < 2 * sum_list (map (entry_bigs gb) es)"
      then show ?thesis using ok(1,2) by simp
    next
      fix s' R' assume r: "map_memory es gb hv pml4 s1 = Some (Inr s')" "avail s1 \<le> avail s' + 2 * sum_list (map (entry_bigs gb) es)"
        "dm_grew (hhdmOffset s) gb pml4 R' s1 s'" "\<forall>e \<in> set es. \<forall>a. in_entry e a \<longrightarrow> R' (hhdmOffset s + a)" "range_below (hhdmOffset s) R' es"
      have "range_below (hhdmOffset s) (\<lambda>va. R va \<or> R' va) (e # es)" using ok(5) r(5) unfolding range_below_def by fastforce
      then show ?thesis
        using ok(1,2,4) r(1,2,4) dm_grew_trans [OF ok(3) r(3)]
        by (intro disjI2 exI [of _ s'] exI [of _ "\<lambda>va. R va \<or> R' va"]) auto
    qed
  qed
qed

text \<open>The frame of the large page that holds a physical address.\<close>

lemma dm_frame_address:
  assumes off: "hhdm_ok off" and a: "unat off + unat a < 2 ^ 64"
  shows "dm_frame off gb (off + a) = ALIGN_DOWN a (big_size gb)"
proof -
  define k where "k = big_bits gb"
  have k: "k \<le> 30" "12 \<le> k" by (simp_all add: k_def big_bits_def)
  have ua: "unat (off + a) = unat off + unat a" by (rule unat_add_no_wrap) (use a in simp)
  obtain q where q: "unat off = 2 ^ k * q"
    using off dvd_trans [OF le_imp_power_dvd [OF k(1), of "2 :: nat"]] unfolding hhdm_ok_def by blast
  have lt: "unat a < 2 ^ 47" using off a by (simp add: hhdm_ok_def UPPER_HALF_def)
  have down: "unat (ALIGN_DOWN a (big_size gb)) = unat a div 2 ^ k * 2 ^ k"
    by (rule unat_ALIGN_pow(2)) (use k lt power_increasing [OF k(1), of "2 :: nat"] in \<open>simp_all add: big_size_bits(1) k_def\<close>)
  have "unat (off + a) div 2 ^ k * 2 ^ k = unat off + unat a div 2 ^ k * 2 ^ k" unfolding ua q by (simp add: algebra_simps)
  then have "of_nat (unat (off + a) div 2 ^ k * 2 ^ k) - off = of_nat (unat a div 2 ^ k * 2 ^ k)" by (simp only: of_nat_add) simp
  also have "\<dots> = ALIGN_DOWN a (big_size gb)" unfolding down [symmetric] by simp
  finally have f: "of_nat (unat (off + a) div 2 ^ k * 2 ^ k) - off = ALIGN_DOWN a (big_size gb)" .
  have "unat a div 2 ^ k * 2 ^ k \<le> unat a" by simp
  moreover have "unat a < 2 ^ 52" using lt by simp
  ultimately have "unat (ALIGN_DOWN a (big_size gb)) < 2 ^ 52" unfolding down by (rule le_less_trans)
  moreover have "4096 dvd unat a div 2 ^ k * 2 ^ k" using le_imp_power_dvd [OF k(2), of "2 :: nat"] by simp
  ultimately have "ALIGN_DOWN a (big_size gb) AND PTE_MASK = ALIGN_DOWN a (big_size gb)" using down by (intro pte_mask_page) simp_all
  then show ?thesis using f by (simp only: dm_frame_def k_def)
qed

section \<open>The whole set-up\<close>

lemma elf_header_cong:
  assumes "\<And>k. k < 64 \<Longrightarrow> m' (a + of_nat k) = m (a + of_nat k)"
  shows "elf_header_at m' a = elf_header_at m a"
proof -
  have r64: "read64 m' (a + of_nat j) = read64 m (a + of_nat j)" if "j + 8 \<le> 64" for j
    by (rule read64_cong_bytes) (use that assms [of "j + _"] in \<open>simp add: add.assoc\<close>)
  have r32: "read32 m' (a + of_nat j) = read32 m (a + of_nat j)" if "j + 4 \<le> 64" for j
    using that assms [of j] assms [of "j + 1"] assms [of "j + 2"] assms [of "j + 3"] by (simp add: read32_def add_ac)
  have r16: "read16 m' (a + of_nat j) = read16 m (a + of_nat j)" if "j + 2 \<le> 64" for j
    using that assms [of j] assms [of "j + 1"] by (simp add: read16_def add_ac)
  have b: "m' a = m a" using assms [of 0] by simp
  show ?thesis
    using r64 [of 24] r64 [of 32] r64 [of 40] r32 [of 9] r32 [of 20] r32 [of 48] r16 [of 13] r16 [of 16] r16 [of 18] r16 [of 52] r16 [of 54]
      r16 [of 56] r16 [of 58] r16 [of 60] r16 [of 62] b assms [of 1] assms [of 2] assms [of 3] assms [of 4] assms [of 5] assms [of 6]
      assms [of 7] assms [of 8] assms [of 15]
    by (simp add: elf_header_at_def)
qed

text \<open>
  What the boot loader promises: the allocator is set up below \<open>2 ^ 52\<close>, the kernel's file is a
  valid one that lies outside the frames handed out and is linked into the last 512 GiB, and
  memory fits between the start of the direct map and the kernel.
\<close>

definition kernel_header :: "boot_info \<Rightarrow> pmm \<Rightarrow> elf_header_64" where
  "kernel_header b s = elf_header_at (kmem s) (executable_file b)"

definition kernel_segments :: "boot_info \<Rightarrow> pmm \<Rightarrow> elf_program_header_64 list" where
  "kernel_segments b s = headers_at (kmem s) (executable_file b + e_program_header_table (kernel_header b s))
     (unat (e_program_header_entries (kernel_header b s)))"

definition boot_ok :: "boot_info \<Rightarrow> pmm \<Rightarrow> bool" where
  "boot_ok b s \<longleftrightarrow> pmm_inv s \<and> (\<forall>ct \<in> set (child_tables s). unat (ct_end ct) \<le> 2 ^ 52)
     \<and> verify_elf_64 (kernel_header b s) \<and> (\<forall>ph \<in> set (kernel_segments b s). seg_high ph)
     \<and> (\<forall>j < 64. off_frames s (executable_file b + of_nat j))
     \<and> (\<forall>j < 56 * unat (e_program_header_entries (kernel_header b s)).
          off_frames s (executable_file b + e_program_header_table (kernel_header b s) + of_nat j))
     \<and> hhdm_ok (hhdmOffset s) \<and> (\<forall>e \<in> set (boot_memmap b). entry_fits (hhdmOffset s) e)"

text \<open>
  The tables that come out: the upper half has all its tables, the kernel and memory are mapped,
  and between the end of memory, in steps of 512 GiB, and the kernel nothing is.
\<close>

definition mem_below :: "boot_info \<Rightarrow> pmm \<Rightarrow> nat \<Rightarrow> bool" where
  "mem_below b s c \<longleftrightarrow> 2 ^ 39 dvd c \<and> (\<forall>e \<in> set (boot_memmap b). unat (hhdmOffset s) + unat (entry_base e) + unat (entry_bytes e) \<le> c)"

definition vm_ready :: "boot_info \<Rightarrow> bool \<Rightarrow> pmm \<Rightarrow> u64 \<Rightarrow> pmm \<Rightarrow> bool" where
  "vm_ready b gb s pml4 s' \<longleftrightarrow> pt_inv s' pml4 \<and> pmm_layout s' = pmm_layout s
     \<and> (\<forall>i. 256 \<le> unat i \<longrightarrow> unat i \<le> 510 \<longrightarrow> walk s' pml4 [i] \<noteq> None)
     \<and> (\<forall>va. KERNEL_TOP \<le> unat va \<longrightarrow> translate s' pml4 va = seg_translate (executable_base b) (kernel_segments b s) va)
     \<and> (\<forall>e \<in> set (boot_memmap b). \<forall>a. in_entry e a \<longrightarrow> direct s' gb pml4 (hhdmOffset s + a) = Some (ALIGN_DOWN a (big_size gb)))
     \<and> (\<forall>c va. mem_below b s c \<longrightarrow> UPPER_HALF \<le> unat va \<longrightarrow> c \<le> unat va \<longrightarrow> unat va < KERNEL_TOP \<longrightarrow>
          translate s' pml4 va = None \<and> walk_clear s' pml4 (va_path va))"

definition boot_frames :: "boot_info \<Rightarrow> bool \<Rightarrow> pmm \<Rightarrow> nat" where
  "boot_frames b gb s = 256 + 3 * seg_pages (kernel_segments b s) + 2 * sum_list (map (entry_bigs gb) (boot_memmap b))"

lemma map_kernel_kept:
  assumes "pmm_layout s2 = pmm_layout s" and "\<forall>x. off_frames s x \<longrightarrow> kmem s2 x = kmem s x" and ok: "boot_ok b s"
  shows "map_kernel b stub pml4 s2 = map_segments (unat (e_program_header_entries (kernel_header b s)))
      (executable_file b + e_program_header_table (kernel_header b s)) stub (executable_base b) pml4 s2"
    and "headers_at (kmem s2) (executable_file b + e_program_header_table (kernel_header b s))
      (unat (e_program_header_entries (kernel_header b s))) = kernel_segments b s"
proof -
  have h: "elf_header_at (kmem s2) (executable_file b) = kernel_header b s"
    unfolding kernel_header_def by (rule elf_header_cong) (use assms in \<open>simp add: boot_ok_def\<close>)
  then show "map_kernel b stub pml4 s2 = map_segments (unat (e_program_header_entries (kernel_header b s)))
      (executable_file b + e_program_header_table (kernel_header b s)) stub (executable_base b) pml4 s2"
    using ok by (simp add: map_kernel_def boot_ok_def Let_def)
  show "headers_at (kmem s2) (executable_file b + e_program_header_table (kernel_header b s))
      (unat (e_program_header_entries (kernel_header b s))) = kernel_segments b s"
    unfolding kernel_segments_def by (rule headers_cong) (use assms in \<open>simp add: boot_ok_def\<close>)
qed

lemma upper_entries:
  fixes i :: u64
  assumes "\<forall>k < 255. P (256 + of_nat k)" and i: "256 \<le> unat i" "unat i \<le> 510"
  shows "P i"
proof -
  have "256 + of_nat (unat i - 256) = (of_nat (256 + (unat i - 256)) :: u64)" by (simp only: of_nat_add) simp
  then have e: "256 + of_nat (unat i - 256) = i" using i by simp
  have "unat i - 256 < 255" using i by simp
  then show ?thesis using assms(1) [rule_format, of "unat i - 256"] unfolding e by blast
qed

text \<open>The top table and the upper half, then the kernel.\<close>

lemma kernel_tables_ok:
  assumes ok: "boot_ok b s"
  shows "kbind (allocate_page s) (\<lambda>(p, s1). kbind (kernel_half_loop 255 (p + hhdmOffset s1) 256 s1)
        (\<lambda>s2. map_kernel b stub (p + hhdmOffset s1) s2)) = Inl (Panic ''PMM: out of memory'')
        \<and> avail s < 256 + 3 * seg_pages (kernel_segments b s)
    \<or> (\<exists>p s1 s2 s3. allocate_page s = Inr (p, s1) \<and> kernel_half_loop 255 (p + hhdmOffset s1) 256 s1 = Inr s2
        \<and> map_kernel b stub (p + hhdmOffset s1) s2 = Inr s3 \<and> pt_inv s3 (p + hhdmOffset s1) \<and> all_clear s3 (p + hhdmOffset s1)
        \<and> pmm_layout s3 = pmm_layout s \<and> hhdmOffset s1 = hhdmOffset s \<and> (\<forall>va. unat (pml4i va) \<noteq> 511 \<longrightarrow> translate s3 (p + hhdmOffset s1) va = None) \<and> avail s \<le> avail s3 + (256 + 3 * seg_pages (kernel_segments b s))
        \<and> (\<forall>i. 256 \<le> unat i \<longrightarrow> unat i \<le> 510 \<longrightarrow> walk s3 (p + hhdmOffset s1) [i] \<noteq> None)
        \<and> (\<forall>va. KERNEL_TOP \<le> unat va \<longrightarrow> translate s3 (p + hhdmOffset s1) va = seg_translate (executable_base b) (kernel_segments b s) va))"
proof -
  have inv: "pmm_inv s" and ct: "\<forall>ct \<in> set (child_tables s). unat (ct_end ct) \<le> 2 ^ 52" using ok by (simp_all add: boot_ok_def)
  consider (oom) "page_locs s = pages_in PAGE_USED s" "allocate_page s = Inl (Panic ''PMM: out of memory'')"
    | (top) l s1 where "allocate_page s = Inr (page_addr s l, s1)" "pmm_taken s l s1"
    using allocate_page_outcome [OF inv] by blast
  then show ?thesis
  proof cases
    case oom
    then show ?thesis by (simp add: avail_def)
  next
    case (top l s1)
    note fresh = fresh_top [OF inv ct top(2)]
    have lay1: "pmm_layout s1 = pmm_layout s" and mem1: "\<And>x. off_frames s x \<Longrightarrow> kmem s1 x = kmem s x"
      using top(2) by (simp_all add: pmm_taken_def off_frames_def)
    have off1: "hhdmOffset s1 = hhdmOffset s" using layout_nth(3) [OF lay1] .
    define pml4 where "pml4 = page_addr s l + hhdmOffset s1"
    have pn: "page_node s l = pml4" by (simp add: pml4_def page_node_def off1)
    note fresh = fresh [unfolded pn]
    have av1: "avail s = Suc (avail s1)" using avail_taken [OF top(2)] .
    have "pte s1 pml4 (256 + of_nat k) AND PTE_PRESENT = 0" if "k < 255" for k
      using fresh(2) [of "256 + of_nat k"] that by (simp add: unat_word_ariths unat_of_nat)
    then consider (oom2) "kernel_half_loop 255 pml4 256 s1 = Inl (Panic ''PMM: out of memory'')" "avail s1 < 255"
      | (half) s2 where "kernel_half_loop 255 pml4 256 s1 = Inr s2" "pt_ext s1 pml4 s2" "vm_kept s1 pml4 s2" "avail s1 \<le> avail s2 + 255"
          "\<forall>k < 255. walk s2 pml4 [256 + of_nat k] \<noteq> None"
      using kernel_half_ok [OF fresh(1), of 255 256] by (auto simp del: walk.simps kernel_half_loop.simps)
    then show ?thesis
    proof cases
      case oom2
      then show ?thesis using top(1) av1 by (simp add: pml4_def [symmetric] del: kernel_half_loop.simps)
    next
      case (half s2)
      have inv2: "pt_inv s2 pml4" and lay2: "pmm_layout s2 = pmm_layout s" using half(3) lay1 by (simp_all add: vm_kept_def)
      have mem2: "\<forall>x. off_frames s x \<longrightarrow> kmem s2 x = kmem s x"
        using half(3) mem1 off_frames_cong [OF lay1] by (simp add: vm_kept_def)
      have clear2: "all_clear s2 pml4" using half(2) fresh(3) by (simp add: all_clear_def pt_ext_def)
      have tr2: "translate s2 pml4 va = None" for va using half(2) fresh(4) by (simp add: pt_ext_def)
      note mk = map_kernel_kept [OF lay2 mem2 ok]
      let ?n = "unat (e_program_header_entries (kernel_header b s))" and ?a = "executable_file b + e_program_header_table (kernel_header b s)"
      have "\<forall>j < 56 * ?n. off_frames s2 (?a + of_nat j)" using ok off_frames_cong [OF lay2] by (simp add: boot_ok_def)
      moreover have "\<forall>ph \<in> set (headers_at (kmem s2) ?a ?n). seg_high ph" unfolding mk(2) using ok by (simp add: boot_ok_def)
      moreover have "(case x of None \<Rightarrow> None | Some f \<Rightarrow> Some f) = x" for x :: "u64 option" by (cases x) simp_all
      ultimately consider (oom3) "map_kernel b stub pml4 s2 = Inl (Panic ''PMM: out of memory'')" "avail s2 < 3 * seg_pages (kernel_segments b s)"
        | (seg) s3 where "map_kernel b stub pml4 s2 = Inr s3" "vm_kept s2 pml4 s3" "all_clear s3 pml4"
            "avail s2 \<le> avail s3 + 3 * seg_pages (kernel_segments b s)"
            "\<forall>va. KERNEL_TOP \<le> unat va \<longrightarrow> translate s3 pml4 va = seg_translate (executable_base b) (kernel_segments b s) va"
            "\<forall>va. unat (pml4i va) \<noteq> 511 \<longrightarrow> translate s3 pml4 va = None"
        using map_segments_ok [OF inv2 clear2, of ?n ?a stub "executable_base b"] unfolding mk tr2 by metis
      then show ?thesis
      proof cases
        case oom3
        then show ?thesis using top(1) half(1,4) av1 by (simp add: pml4_def [symmetric] del: kernel_half_loop.simps)
      next
        case (seg s3)
        have lay3: "pmm_layout s3 = pmm_layout s" and inv3: "pt_inv s3 pml4" using seg(2) lay2 by (simp_all add: vm_kept_def)
        have w: "walk s3 pml4 [i] \<noteq> None" if i: "256 \<le> unat i" "unat i \<le> 510" for i
        proof -
          have "walk s2 pml4 [i] \<noteq> None" using upper_entries [of "\<lambda>i. walk s2 pml4 [i] \<noteq> None"] half(5) i by blast
          then show ?thesis using seg(2) i unfolding vm_kept_def by fastforce
        qed
        have "avail s \<le> avail s3 + (256 + 3 * seg_pages (kernel_segments b s))" using av1 half(4) seg(4) by simp
        then show ?thesis
          using top(1) half(1) [unfolded pml4_def] seg [unfolded pml4_def] inv3 [unfolded pml4_def] lay3 off1 w [unfolded pml4_def]
          by blast
      qed
    qed
  qed
qed

text \<open>Printing leaves the memory, the scheduler and the processor's answers alone.\<close>

lemma console_wrote_rest:
  assumes "console_wrote cs k k'"
  shows "pkm (plat (kdev k')) = pkm (plat (kdev k))" "ksched k' = ksched k" "gb_pages k' = gb_pages k" "console_ready k' = console_ready k"
    "cpu_feature_bit l sl r n (plat (kdev k')) = cpu_feature_bit l sl r n (plat (kdev k))"
  using assms console_wrote_ready [OF assms]
  by (auto simp: console_wrote_def gb_pages_def cpuid_extended_supported_def cpu_feature_bit_def cpuid_def)

lemma put_pmm_rest:
  "kpmm (put_pmm s k) = s" "kernel_pagemap (pkm (plat (kdev (put_pmm s k)))) = kernel_pagemap (pkm (plat (kdev k)))"
  "ksched (put_pmm s k) = ksched k" "console_ready (put_pmm s k) = console_ready k" "gb_pages (put_pmm s k) = gb_pages k"
  "kernel_pagemap (pkm (plat (kdev (set_kernel_top t k)))) = (kernel_pagemap (pkm (plat (kdev k))))\<lparr>top_level := t\<rparr>" "ksched (set_kernel_top t k) = ksched k"
  "console_ready (set_kernel_top t k) = console_ready k" "gb_pages (set_kernel_top t k) = gb_pages k"
  by (simp_all add: put_pmm_def set_kernel_top_def set_kmem_def set_plat_def set_kpmm_def console_ready_def tx_ready_def gb_pages_def
      cpuid_extended_supported_def cpu_feature_bit_def cpuid_def)

lemma switch_to_kernel:
  "\<exists>k'. in_sched (\<lambda>s. Some (Inr (vmm_switch_to (sym_kernel_pagemap (syms s)) s))) k = Some (Inr k')
     \<and> pkm (plat (kdev k')) = pkm (plat (kdev k)) \<and> console_ready k' = console_ready k
     \<and> cr3 (ksched k') = top_level (kernel_pagemap (pkm (plat (kdev k)))) - hhdmOffset (kpmm k)"
  by (simp add: in_sched_def vmm_switch_to_def pagemap_at_def set_plat_def console_ready_def tx_ready_def)

text \<open>What the two passes did makes the tables ready.\<close>

lemma upper_other_top:
  assumes "UPPER_HALF \<le> unat x" "unat x < c" "c \<le> unat y" "2 ^ 39 dvd c"
  shows "pml4i x \<noteq> pml4i y"
proof -
  have "UPPER_HALF \<le> unat y" using assms(1-3) by simp
  have m: "unat z div 2 ^ 39 mod 512 + (2 ^ 16 - 1) * 512 = unat z div 2 ^ 39" if "UPPER_HALF \<le> unat z" for z :: u64
  proof -
    have l: "(2 ^ 16 - 1) * 512 \<le> unat z div 2 ^ 39" using that by (simp add: UPPER_HALF_def)
    moreover have "unat z div 2 ^ 39 < (2 ^ 16 - 1) * 512 + 512" using unat_lt_64 [of z] by simp
    ultimately show ?thesis using mod_block [OF l] by simp
  qed
  obtain d where d: "c = 2 ^ 39 * d" using assms(4) by blast
  have "unat x div 2 ^ 39 < d" using assms(2) d less_mult_imp_div_less [of "unat x" d "2 ^ 39"] by (simp add: mult.commute)
  moreover have "d \<le> unat y div 2 ^ 39" using div_le_mono [OF assms(3), of "2 ^ 39"] d by simp
  ultimately have "unat (pml4i x) < unat (pml4i y)"
    using m [OF assms(1)] m [OF \<open>UPPER_HALF \<le> unat y\<close>] unfolding unat_indices by linarith
  then show ?thesis by auto
qed

lemma vm_ready_after:
  assumes ok: "boot_ok b s" and lay3: "pmm_layout s3 = pmm_layout s" and g: "dm_grew (hhdmOffset s) gb pml4 R s3 s5"
    and w: "\<forall>i. 256 \<le> unat i \<longrightarrow> unat i \<le> 510 \<longrightarrow> walk s3 pml4 [i] \<noteq> None"
    and tr: "\<forall>va. KERNEL_TOP \<le> unat va \<longrightarrow> translate s3 pml4 va = seg_translate (executable_base b) (kernel_segments b s) va"
    and cov: "\<forall>e \<in> set (boot_memmap b). \<forall>a. in_entry e a \<longrightarrow> R (hhdmOffset s + a)" and bel: "range_below (hhdmOffset s) R (boot_memmap b)"
    and low: "all_clear s3 pml4" "\<forall>va. unat (pml4i va) \<noteq> 511 \<longrightarrow> translate s3 pml4 va = None"
  shows "vm_ready b gb s pml4 s5"
proof -
  have kept: "vm_kept s3 pml4 s5" using g by (simp add: dm_grew_def)
  then have inv: "pt_inv s5 pml4" and lay: "pmm_layout s5 = pmm_layout s3" by (simp_all add: vm_kept_def)
  have "direct s5 gb pml4 (hhdmOffset s + a) = Some (ALIGN_DOWN a (big_size gb))" if e: "e \<in> set (boot_memmap b)" "in_entry e a" for e a
  proof -
    have h: "hhdm_ok (hhdmOffset s)" "entry_fits (hhdmOffset s) e" using ok e(1) by (simp_all add: boot_ok_def)
    have "unat (hhdmOffset s) + unat a < 2 ^ 64" using h(2) e(2) by (simp add: entry_fits_def in_entry_def KERNEL_TOP_def)
    moreover from this have "UPPER_HALF \<le> unat (hhdmOffset s + a)" using h(1) by (subst unat_add_no_wrap) (simp_all add: hhdm_ok_def)
    ultimately show ?thesis using g cov e dm_frame_address [OF h(1), of a gb] unfolding dm_grew_def by auto
  qed
  moreover have same: "translate s5 pml4 va = translate s3 pml4 va \<and> walk_clear s5 pml4 (va_path va) = walk_clear s3 pml4 (va_path va)"
    if c: "mem_below b s c" "c \<le> unat va" for va c
  proof -
    have "pml4i x \<noteq> pml4i va" if "R x" for x
    proof (rule upper_other_top)
      have "2 ^ 30 dvd c" using c(1) dvd_trans [OF le_imp_power_dvd [of 30 39 "2 :: nat"], of c] by (simp add: mem_below_def)
      then show "unat x < c" "UPPER_HALF \<le> unat x" using that bel c(1) by (simp_all add: range_below_def mem_below_def)
    qed (use c in \<open>simp_all add: mem_below_def\<close>)
    then show ?thesis using g by (simp add: dm_grew_def)
  qed
  moreover have "translate s5 pml4 va = seg_translate (executable_base b) (kernel_segments b s) va" if "KERNEL_TOP \<le> unat va" for va
  proof -
    have "mem_below b s KERNEL_TOP" using ok by (simp add: mem_below_def boot_ok_def entry_fits_def KERNEL_TOP_def)
    then show ?thesis using same [OF _ that] tr that by simp
  qed
  moreover have "translate s5 pml4 va = None \<and> walk_clear s5 pml4 (va_path va)"
    if "mem_below b s c" "UPPER_HALF \<le> unat va" "c \<le> unat va" "unat va < KERNEL_TOP" for c va
    using same [OF that(1,3)] low upper_top_index(1) [OF that(2,4)] by (simp add: all_clear_def)
  moreover have "walk s5 pml4 [i] \<noteq> None" if "256 \<le> unat i" "unat i \<le> 510" for i
  proof -
    have "walk s3 pml4 [i] \<noteq> None" "unat i < 512" using w that by auto
    then show ?thesis using kept unfolding vm_kept_def by fastforce
  qed
  ultimately show ?thesis using inv lay lay3 by (simp add: vm_ready_def del: walk.simps)
qed

lemma report_pages_ready:
  assumes "console_ready k"
  shows "\<exists>k'. report_pages k = Some (Inr k') \<and> pkm (plat (kdev k')) = pkm (plat (kdev k)) \<and> console_ready k' \<and> gb_pages k' = gb_pages k"
proof (cases "cpuid_extended_supported 0x80000001 (plat (kdev k))")
  case True
  define msg where "msg = bytes_of (if gb_pages k then ''VMM: Using 1GB Pages for HHDM'' else ''VMM: Using 2MB Pages for HHDM'') @ [10]"
  obtain k' where "kputs msg k = Some (Inr k')" "console_wrote msg k k'" using kputs_ready [OF assms] by blast
  then show ?thesis using True console_wrote_rest [of msg k k'] assms by (auto simp: report_pages_def msg_def [symmetric])
next
  case False
  then show ?thesis using assms by (simp add: report_pages_def)
qed

text \<open>Once the kernel is mapped, the rest is the pass over memory, the switch and a message.\<close>

lemma setup_vmm_rest:
  assumes a: "allocate_page (kpmm k) = Inr (p, s1)" "kernel_half_loop 255 (p + hhdmOffset s1) 256 s1 = Inr s2"
      "map_kernel b (dbgstub_enabled (ksched k)) (p + hhdmOffset s1) s2 = Inr s3" and con: "console_ready k"
  shows "\<exists>hv. (\<forall>e. map_memory (boot_memmap b) (gb_pages k) hv (p + hhdmOffset s1) s3 = Some (Inl e) \<longrightarrow> setup_vmm b k = Some (Inl e))
    \<and> (\<forall>s5. map_memory (boot_memmap b) (gb_pages k) hv (p + hhdmOffset s1) s3 = Some (Inr s5) \<longrightarrow>
        (\<exists>k'. setup_vmm b k = Some (Inr k') \<and> kpmm k' = s5
          \<and> kernel_pagemap (pkm (plat (kdev k'))) = (kernel_pagemap (pkm (plat (kdev k))))\<lparr>top_level := p + hhdmOffset s1\<rparr>
          \<and> cr3 (ksched k') = p + hhdmOffset s1 - hhdmOffset s5 \<and> console_ready k'))"
proof -
  define pml4 where "pml4 = p + hhdmOffset s1"
  define k3 where "k3 = put_pmm s3 (set_kernel_top pml4 k)"
  have k3: "kpmm k3 = s3" "kernel_pagemap (pkm (plat (kdev k3))) = (kernel_pagemap (pkm (plat (kdev k))))\<lparr>top_level := pml4\<rparr>"
      "console_ready k3" "gb_pages k3 = gb_pages k"
    using con by (simp_all add: k3_def put_pmm_rest)
  obtain k4 where k4: "report_pages k3 = Some (Inr k4)" "pkm (plat (kdev k4)) = pkm (plat (kdev k3))" "console_ready k4" "gb_pages k4 = gb_pages k"
    using report_pages_ready [OF k3(3)] k3(4) by auto
  define hv where "hv = cpu_feature_bit 1 0 CHR ''c'' 31 (plat (kdev k4))"
  have run: "setup_vmm b k = kobind (map_memory (boot_memmap b) (gb_pages k) hv pml4 s3) (\<lambda>s5.
      kobind (in_sched (\<lambda>s. Some (Inr (vmm_switch_to (sym_kernel_pagemap (syms s)) s))) (put_pmm s5 k4))
        (kputs (bytes_of ''VMM: Virtual Memory Manager Setup'' @ [10])))"
    using a k4 unfolding setup_vmm_def
    by (simp add: Let_def pml4_def [symmetric] k3_def [symmetric] hv_def [symmetric] k3 del: kernel_half_loop.simps)
  have "\<exists>k'. setup_vmm b k = Some (Inr k') \<and> kpmm k' = s5 \<and> kernel_pagemap (pkm (plat (kdev k'))) = (kernel_pagemap (pkm (plat (kdev k))))\<lparr>top_level := pml4\<rparr>
      \<and> cr3 (ksched k') = pml4 - hhdmOffset s5 \<and> console_ready k'" if m: "map_memory (boot_memmap b) (gb_pages k) hv pml4 s3 = Some (Inr s5)" for s5
  proof -
    obtain k6 where k6: "in_sched (\<lambda>s. Some (Inr (vmm_switch_to (sym_kernel_pagemap (syms s)) s))) (put_pmm s5 k4) = Some (Inr k6)"
      "pkm (plat (kdev k6)) = pkm (plat (kdev (put_pmm s5 k4)))" "console_ready k6"
      "cr3 (ksched k6) = top_level (kernel_pagemap (pkm (plat (kdev (put_pmm s5 k4))))) - hhdmOffset (kpmm (put_pmm s5 k4))"
      using switch_to_kernel [of "put_pmm s5 k4"] k4(3) by (auto simp: put_pmm_rest)
    define msg where "msg = bytes_of ''VMM: Virtual Memory Manager Setup'' @ [10]"
    obtain k7 where k7: "kputs msg k6 = Some (Inr k7)" "console_wrote msg k6 k7" using kputs_ready [OF k6(3)] by blast
    then have "setup_vmm b k = Some (Inr k7)" using run m k6(1) by (simp add: msg_def [symmetric])
    then show ?thesis using console_wrote_rest [OF k7(2)] k6(2-4) k4(2) k3(2) by (auto simp: put_pmm_rest)
  qed
  moreover have "setup_vmm b k = Some (Inl e)" if "map_memory (boot_memmap b) (gb_pages k) hv pml4 s3 = Some (Inl e)" for e
    using run that by simp
  ultimately show ?thesis unfolding pml4_def by blast
qed

lemma setup_vmm_outcome:
  assumes ok: "boot_ok b (kpmm k)" and con: "console_ready k"
  shows "setup_vmm b k = Some (Inl (Panic ''PMM: out of memory'')) \<and> avail (kpmm k) < boot_frames b (gb_pages k) (kpmm k)
    \<or> (\<exists>k'. setup_vmm b k = Some (Inr k')
        \<and> vm_ready b (gb_pages k) (kpmm k) (top_level (kernel_pagemap (pkm (plat (kdev k'))))) (kpmm k')
        \<and> cr3 (ksched k') = top_level (kernel_pagemap (pkm (plat (kdev k')))) - hhdmOffset (kpmm k')
        \<and> (\<exists>t. kernel_pagemap (pkm (plat (kdev k'))) = (kernel_pagemap (pkm (plat (kdev k))))\<lparr>top_level := t\<rparr>)
        \<and> console_ready k' \<and> avail (kpmm k) \<le> avail (kpmm k') + boot_frames b (gb_pages k) (kpmm k))"
proof -
  let ?s = "kpmm k" and ?gb = "gb_pages k" and ?stub = "dbgstub_enabled (ksched k)"
  define N where "N = 256 + 3 * seg_pages (kernel_segments b ?s)"
  define E where "E = 2 * sum_list (map (entry_bigs ?gb) (boot_memmap b))"
  have NE: "boot_frames b ?gb ?s = N + E" by (simp add: boot_frames_def N_def E_def)
  show ?thesis
    using kernel_tables_ok [OF ok, of ?stub, folded N_def]
  proof (elim disjE exE conjE)
    assume "kbind (allocate_page ?s) (\<lambda>(p, s1). kbind (kernel_half_loop 255 (p + hhdmOffset s1) 256 s1)
        (\<lambda>s2. map_kernel b ?stub (p + hhdmOffset s1) s2)) = Inl (Panic ''PMM: out of memory'')" "avail ?s < N"
    then show ?thesis unfolding NE
      by (auto simp: setup_vmm_def kbind_def kobind_def Let_def split: sum.splits prod.splits simp del: kernel_half_loop.simps)
  next
    fix p s1 s2 s3
    assume a: "allocate_page ?s = Inr (p, s1)" "kernel_half_loop 255 (p + hhdmOffset s1) 256 s1 = Inr s2"
      "map_kernel b ?stub (p + hhdmOffset s1) s2 = Inr s3" and t: "pt_inv s3 (p + hhdmOffset s1)" "all_clear s3 (p + hhdmOffset s1)"
      and lay: "pmm_layout s3 = pmm_layout ?s" and none: "\<forall>va. unat (pml4i va) \<noteq> 511 \<longrightarrow> translate s3 (p + hhdmOffset s1) va = None" and av: "avail ?s \<le> avail s3 + N"
      and w: "\<forall>i. 256 \<le> unat i \<longrightarrow> unat i \<le> 510 \<longrightarrow> walk s3 (p + hhdmOffset s1) [i] \<noteq> None"
      and tr: "\<forall>va. KERNEL_TOP \<le> unat va \<longrightarrow> translate s3 (p + hhdmOffset s1) va = seg_translate (executable_base b) (kernel_segments b ?s) va"
    obtain hv where rest: "\<And>e. map_memory (boot_memmap b) ?gb hv (p + hhdmOffset s1) s3 = Some (Inl e) \<Longrightarrow> setup_vmm b k = Some (Inl e)"
      "\<And>s5. map_memory (boot_memmap b) ?gb hv (p + hhdmOffset s1) s3 = Some (Inr s5) \<Longrightarrow>
        \<exists>k'. setup_vmm b k = Some (Inr k') \<and> kpmm k' = s5
          \<and> kernel_pagemap (pkm (plat (kdev k'))) = (kernel_pagemap (pkm (plat (kdev k))))\<lparr>top_level := p + hhdmOffset s1\<rparr>
          \<and> cr3 (ksched k') = p + hhdmOffset s1 - hhdmOffset s5 \<and> console_ready k'"
      using setup_vmm_rest [OF a con] by blast
    have off: "hhdmOffset s3 = hhdmOffset ?s" using layout_nth(3) [OF lay] .
    have bc: "big_clear s3 ?gb (p + hhdmOffset s1)" using t(2) by (simp add: big_clear_def all_clear_def)
    have fits: "hhdm_ok (hhdmOffset s3)" "\<forall>e \<in> set (boot_memmap b). entry_fits (hhdmOffset s3) e" using ok off by (simp_all add: boot_ok_def)
    from map_memory_ok [OF t(1) bc fits, of hv, folded E_def] show ?thesis
    proof (elim disjE exE conjE)
      assume "map_memory (boot_memmap b) ?gb hv (p + hhdmOffset s1) s3 = Some (Inl (Panic ''PMM: out of memory''))" "avail s3 < E"
      then show ?thesis using rest(1) av NE by simp
    next
      fix s5 R assume m: "map_memory (boot_memmap b) ?gb hv (p + hhdmOffset s1) s3 = Some (Inr s5)" "avail s3 \<le> avail s5 + E"
        "dm_grew (hhdmOffset s3) ?gb (p + hhdmOffset s1) R s3 s5" "\<forall>e \<in> set (boot_memmap b). \<forall>a. in_entry e a \<longrightarrow> R (hhdmOffset s3 + a)"
        "range_below (hhdmOffset s3) R (boot_memmap b)"
      have "vm_ready b ?gb ?s (p + hhdmOffset s1) s5" by (rule vm_ready_after [OF ok lay _ w tr _ _ t(2) none]) (use m off in simp_all)
      then show ?thesis using rest(2) [OF m(1)] av m(2) NE by auto
    qed
  qed
qed

text \<open>
  C33: The set-up of virtual memory: with frames enough for the tables it succeeds, and whenever it
  does, the page tables are well formed, the processor runs on them, every entry of the top
  level from 256 to 510 has a table (so that page maps made later share it), an address of the
  last 512 GiB translates as the kernel's file asks, and every byte of the memory map is found
  at the offset of the direct map, while nothing is mapped between the end of memory, rounded up
  to 512 GiB, and the kernel. The only other outcome is that the frames run out.
\<close>

theorem setup_vmm_correct:
  assumes "boot_ok b (kpmm k)" and "console_ready k"
  shows "(boot_frames b (gb_pages k) (kpmm k) \<le> avail (kpmm k) \<longrightarrow> (\<exists>k'. setup_vmm b k = Some (Inr k')))
    \<and> (setup_vmm b k = Some (Inl (Panic ''PMM: out of memory'')) \<or> (\<exists>k'. setup_vmm b k = Some (Inr k')))
    \<and> (\<forall>k'. setup_vmm b k = Some (Inr k') \<longrightarrow>
        vm_ready b (gb_pages k) (kpmm k) (top_level (kernel_pagemap (pkm (plat (kdev k'))))) (kpmm k')
        \<and> cr3 (ksched k') = top_level (kernel_pagemap (pkm (plat (kdev k')))) - hhdmOffset (kpmm k'))"
  using setup_vmm_outcome [OF assms] by auto

section \<open>One kernel half for all page maps\<close>

text \<open>
  Another page map that shares the kernel's half: its top level is a frame of its own, and the
  entries from 256 to 510 lead to the same tables.
\<close>

definition shares :: "pmm \<Rightarrow> u64 \<Rightarrow> u64 \<Rightarrow> bool" where
  "shares s k n \<longleftrightarrow> apart s k n \<and> (\<forall>i. 256 \<le> unat i \<longrightarrow> unat i \<le> 510 \<longrightarrow> walk s k [i] \<noteq> None \<and> walk s n [i] = walk s k [i])"

lemma shares_translate:
  assumes "shares s k n" and "256 \<le> unat (pml4i va)" and "unat (pml4i va) \<le> 510"
  shows "translate s n va = translate s k va"
proof -
  have "walk s n [pml4i va] = walk s k [pml4i va]" using assms unfolding shares_def by blast
  then have "walk s n ([pml4i va] @ [pml3i va, pml2i va]) = walk s k ([pml4i va] @ [pml3i va, pml2i va])" by (simp only: walk_append)
  then show ?thesis by (simp only: translate_def va_path_def append.simps)
qed

lemma walk_top: "hhdmOffset s' = hhdmOffset s \<Longrightarrow> pte s' n i = pte s m i \<Longrightarrow> walk s' n [i] = walk s m [i]"
  by (simp add: table_of_def)

lemma shares_kept:
  assumes "shares s k n" and kept: "vm_kept s k s'"
  shows "shares s' k n"
proof -
  have "pmm_layout s' = pmm_layout s" using kept by (simp add: vm_kept_def)
  note off = layout_nth(3) [OF this]
  have a: "apart s' k n" "\<forall>j. unat j < 512 \<longrightarrow> pte s' n j = pte s n j" using assms by (auto simp: shares_def vm_kept_def)
  have "walk s' k [i] \<noteq> None \<and> walk s' n [i] = walk s' k [i]" if i: "256 \<le> unat i" "unat i \<le> 510" for i
  proof -
    have w: "walk s k [i] \<noteq> None" "walk s n [i] = walk s k [i]" using assms(1) i unfolding shares_def by blast+
    have "unat i < 512" using i by simp
    then have "walk s' k [i] = walk s k [i]" using kept w(1) unfolding vm_kept_def by fastforce
    moreover have "walk s' n [i] = walk s n [i]" using walk_top [OF off] a(2) \<open>unat i < 512\<close> by blast
    ultimately show ?thesis using w by simp
  qed
  then show ?thesis using a(1) unfolding shares_def by blast
qed

lemma shares_new:
  assumes inv: "pt_inv s k" and half: "\<forall>i. 256 \<le> unat i \<longrightarrow> unat i \<le> 510 \<longrightarrow> walk s k [i] \<noteq> None"
    and nz: "0 \<notin> page_addr s ` page_locs s" and kpm: "k = top_level kpm" and new: "new_pagemap kpm s = Inr (pm, s')"
  shows "shares s' k (top_level pm)" and "pt_inv s' k" and "good_path p \<Longrightarrow> walk_clear s' k p = walk_clear s k p" and "avail s = Suc (avail s')"
proof -
  obtain l where l: "pmm_inv s'" "hhdmOffset s' = hhdmOffset s" "pmm_layout s' = pmm_layout s" "avail s = Suc (avail s')" "\<not> used_table s (top_level pm)"
    and ent: "\<forall>i. unat i < 512 \<longrightarrow> pte s' (top_level pm) i = (if unat i < 256 then 0 else pte s k i)"
    and keep: "\<forall>t j. used_table s t \<longrightarrow> unat j < 512 \<longrightarrow> pte s' t j = pte s t j"
    and us: "\<forall>u. used_table s' u \<longleftrightarrow> u = top_level pm \<or> used_table s u"
    using new_pagemap_ok [of s kpm] inv nz new unfolding kpm by auto
  show "avail s = Suc (avail s')" by (rule l(4))
  have w: "walk s' k p = walk s k p" if "good_path p" for p
  proof (rule walk_cong [OF l(2)])
    fix q i r t' assume q: "p = q @ i # r" "walk s k q = Some t'"
    then have "good_path q" "unat i < 512" using that by (auto simp: good_path_def)
    then show "pte s' t' i = pte s t' i" using keep pt_invD(2) [OF inv _ q(2)] by blast
  qed
  have "\<forall>ct \<in> set (child_tables s'). unat (ct_end ct) \<le> 2 ^ 52" using inv layout_nth [OF l(3)] by (auto simp: pt_inv_def all_set_conv_all_nth)
  then show "pt_inv s' k" using inv w us l(1) by (simp add: pt_inv_def)
  show "walk_clear s' k p = walk_clear s k p" if g: "good_path p" for p
  proof -
    have "(walk s' k q = Some x \<longrightarrow> pte s' x j AND PTE_PRESENT = 0 \<or> pte s' x j AND PTE_PS = 0)
        \<longleftrightarrow> (walk s k q = Some x \<longrightarrow> pte s x j AND PTE_PRESENT = 0 \<or> pte s x j AND PTE_PS = 0)" if "p = q @ j # r" for q j r x
    proof -
      have "good_path q" "unat j < 512" using g that by (auto simp: good_path_def)
      then show ?thesis using w [of q] keep pt_invD(2) [OF inv, of q x] by auto
    qed
    then show ?thesis unfolding walk_clear_def by blast
  qed
  have "apart s' k (top_level pm)" using us w pt_invD(2) [OF inv] l(5) by (auto simp: apart_def)
  moreover have "walk s' k [i] \<noteq> None \<and> walk s' (top_level pm) [i] = walk s' k [i]" if i: "256 \<le> unat i" "unat i \<le> 510" for i
  proof -
    have e: "pte s' (top_level pm) i = pte s k i" using ent i by simp
    have "walk s' (top_level pm) [i] = walk s k [i]" by (rule walk_top [OF l(2) e])
    moreover have "walk s' k [i] = walk s k [i]" by (rule w) (use i in \<open>simp add: good_single\<close>)
    ultimately show ?thesis using half i by (simp del: walk.simps)
  qed
  ultimately show "shares s' k (top_level pm)" unfolding shares_def by blast
qed

text \<open>The kernel's later mappings, one after the other.\<close>

primrec kernel_maps :: "(u64 \<times> u64 \<times> u64) list \<Rightarrow> u64 \<Rightarrow> pmm \<Rightarrow> pmm kres" where
  "kernel_maps [] pml4 s = Inr s"
| "kernel_maps (m # ms) pml4 s = (case m of (va, pa, flags) \<Rightarrow> kbind (vmm_map_page pml4 va pa flags PAGE_SIZE s) (kernel_maps ms pml4))"

lemma kernel_maps_shares:
  assumes "shares s k n" and "pt_inv s k" and "\<forall>(va, pa, f) \<in> set ms. walk_clear s k (va_path va)" and "kernel_maps ms k s = Inr s'"
  shows "shares s' k n"
  using assms
proof (induction ms arbitrary: s)
  case (Cons m ms)
  obtain va pa f where m: "m = (va, pa, f)" using prod_cases3 by blast
  obtain s1 where s1: "vmm_map_page k va pa f PAGE_SIZE s = Inr s1" "kernel_maps ms k s1 = Inr s'" using Cons.prems(4) m by (auto simp: kres_simps)
  have c: "walk_clear s k (va_path va)" using Cons.prems(3) m by simp
  have ok: "vm_kept s k s1" "\<forall>p. good_path p \<longrightarrow> walk_clear s1 k p = walk_clear s k p"
    using vmm_map_page_ok [OF Cons.prems(2) c, of pa f] s1(1) by auto
  then have "pt_inv s1 k" "\<forall>(va, pa, f) \<in> set ms. walk_clear s1 k (va_path va)" using Cons.prems(3) by (auto simp: vm_kept_def)
  then show ?case using Cons.IH [OF shares_kept [OF Cons.prems(1) ok(1)]] s1(2) by blast
qed simp

text \<open>
  C34: Whatever the kernel maps in its half after a page map was made is seen through that page map
  too, for every address below the last 512 GiB: all the page maps keep one kernel half,
  because the set-up gave each of its top-level entries a table beforehand.
\<close>

theorem kernel_half_shared:
  assumes "pt_inv s (top_level kpm)" and "\<forall>i. 256 \<le> unat i \<longrightarrow> unat i \<le> 510 \<longrightarrow> walk s (top_level kpm) [i] \<noteq> None"
    and "0 \<notin> page_addr s ` page_locs s" and "new_pagemap kpm s = Inr (pm, s1)"
    and "\<forall>(va, pa, f) \<in> set ms. walk_clear s (top_level kpm) (va_path va)" and "kernel_maps ms (top_level kpm) s1 = Inr s2"
    and "256 \<le> unat (pml4i va)" and "unat (pml4i va) \<le> 510"
  shows "translate s2 (top_level pm) va = translate s2 (top_level kpm) va"
proof -
  note new = shares_new [OF assms(1-3) refl assms(4)]
  have "\<forall>(va, pa, f) \<in> set ms. walk_clear s1 (top_level kpm) (va_path va)" using assms(5) new(3) by auto
  then show ?thesis using shares_translate [OF kernel_maps_shares [OF new(1,2) _ assms(6)] assms(7,8)] by blast
qed

section \<open>A small machine\<close>

text \<open>Memory with 512 frames, and a kernel file of one segment at \<open>0xFFFFA00000000000\<close>.\<close>

definition demo_file :: "u8 list" where
  "demo_file = [0x7F, 0x45, 0x4C, 0x46, 2, 1, 1, 0] @ replicate 8 0 @ [2, 0, 0x3E, 0, 1, 0, 0, 0] @ replicate 8 0 @ [64] @ replicate 7 0
     @ replicate 8 0 @ replicate 4 0 @ [64, 0, 56, 0, 1, 0] @ replicate 6 0
     @ [1, 0, 0, 0, 5, 0, 0, 0] @ replicate 8 0 @ [0, 0, 0, 0x80, 0xFF, 0xFF, 0xFF, 0xFF] @ replicate 8 0 @ replicate 8 0
     @ [0, 0x10, 0, 0, 0, 0, 0, 0] @ replicate 8 0"

definition demo_frames :: pmm where
  "demo_frames = \<lparr>hhdmOffset = 0xFFFF800000000000, freelist_head = 0, num_child_tables = 1,
     child_tables = [\<lparr>ct_addr = 0xFFFF800000000F00, ct_start = 0x1000, ct_end = 0x201000, ct_num_pages = 512, ct_pages = replicate 512 PAGE_UNINIT\<rparr>],
     total_pages = 512, used_pages = 0, fill_t = 0, fill_p = 0,
     kmem = (\<lambda>a. if unat (a - 0xFFFFA00000000000) < 120 then demo_file ! unat (a - 0xFFFFA00000000000) else 0)\<rparr>"

lemma demo_frames_pages:
  "page_locs demo_frames = {0} \<times> {..< 512}" "pages_in PAGE_USED demo_frames = {}" "pages_in PAGE_FREE demo_frames = {}"
  "pages_in PAGE_UNINIT demo_frames = {0} \<times> {..< 512}"
proof -
  show locs: "page_locs demo_frames = {0} \<times> {..< 512}" by (auto simp: page_locs_def demo_frames_def)
  have st: "page_st demo_frames 0 k = PAGE_UNINIT" if "k < 512" for k using that by (simp add: page_st_def demo_frames_def)
  show "pages_in PAGE_USED demo_frames = {}" "pages_in PAGE_FREE demo_frames = {}" "pages_in PAGE_UNINIT demo_frames = {0} \<times> {..< 512}"
    unfolding pages_in_def locs by (auto simp: st)
qed

lemma demo_frames_inv: "pmm_inv demo_frames" "avail demo_frames = 512"
proof -
  have "pmm_wf demo_frames" by (simp add: pmm_wf_def ct_wf_def demo_frames_def)
  moreover have "pmm_free_list demo_frames []" unfolding pmm_free_list_def demo_frames_pages by (simp add: demo_frames_def)
  moreover have "pmm_cursor demo_frames" unfolding pmm_cursor_def demo_frames_pages by (auto simp: demo_frames_def behind_cursor_def)
  moreover have "used_pages demo_frames = of_nat (card (pages_in PAGE_USED demo_frames))" unfolding demo_frames_pages by (simp add: demo_frames_def)
  ultimately show "pmm_inv demo_frames" unfolding pmm_inv_def pmm_rel_def by blast
  show "avail demo_frames = 512" unfolding avail_def demo_frames_pages by (simp add: card_cartesian_product)
qed

lemma demo_frames_off: "j < 4096 \<Longrightarrow> off_frames demo_frames (0xFFFFA00000000000 + of_nat j)"
proof -
  assume j: "j < 4096"
  have "4096 \<le> unat (0xFFFFA00000000000 + of_nat j - page_node demo_frames (0, k))" if "k < 512" for k
  proof -
    have "page_node demo_frames (0, k) = 0xFFFF800000001000 + 4096 * of_nat k" by (simp add: page_node_def page_addr_def demo_frames_def)
    moreover have "unat (0x1FFFFFFFF000 + of_nat j - 4096 * of_nat k :: u64) = 0x1FFFFFFFF000 + j - 4096 * k"
      using j that by (subst unat_sub) (auto simp: word_le_nat_alt unat_word_ariths unat_of_nat)
    ultimately show ?thesis using that by (simp add: algebra_simps)
  qed
  then show ?thesis unfolding off_frames_def demo_frames_pages by auto
qed

definition demo_boot :: boot_info where
  "demo_boot = \<lparr>executable_base = 0x100000, executable_file = 0xFFFFA00000000000,
     boot_memmap = [\<lparr>me_base = 0, me_length = 0x200000, me_type = LIMINE_MEMMAP_USABLE\<rparr>]\<rparr>"

definition demo_boot_kernel :: kernel where
  "demo_boot_kernel = put_pmm demo_frames (demo_kernel\<lparr>kdev := (kdev demo_kernel)\<lparr>serial_works := False\<rparr>\<rparr>)"

lemma demo_header:
  "verify_elf_64 (kernel_header demo_boot demo_frames)" "e_program_header_table (kernel_header demo_boot demo_frames) = 64"
  "e_program_header_entries (kernel_header demo_boot demo_frames) = 1"
  by (simp_all add: kernel_header_def demo_boot_def demo_frames_def elf_header_at_def demo_file_def verify_elf_64_iff verify_elf_magic_def
      read16_def read32_def read64_def ELF_64_BIT_def ELF_LITTLE_ENDIAN_def ELF_X86_64_ARCH_def ELF_SYSV_ABI_def ELF_EXECUTABLE_TYPE_def nth_append)

lemma demo_segment:
  "kernel_segments demo_boot demo_frames = [elf_program_header_at (kmem demo_frames) 0xFFFFA00000000040]"
  "p_type (elf_program_header_at (kmem demo_frames) 0xFFFFA00000000040) = ELF_PROG_PT_LOAD_TYPE"
  "p_virt_addr (elf_program_header_at (kmem demo_frames) 0xFFFFA00000000040) = 0xFFFFFFFF80000000"
  "p_mem_size (elf_program_header_at (kmem demo_frames) 0xFFFFA00000000040) = 0x1000"
proof -
  show "kernel_segments demo_boot demo_frames = [elf_program_header_at (kmem demo_frames) 0xFFFFA00000000040]"
    by (simp add: kernel_segments_def demo_header(2,3)) (simp add: demo_boot_def)
  show "p_type (elf_program_header_at (kmem demo_frames) 0xFFFFA00000000040) = ELF_PROG_PT_LOAD_TYPE"
    "p_virt_addr (elf_program_header_at (kmem demo_frames) 0xFFFFA00000000040) = 0xFFFFFFFF80000000"
    "p_mem_size (elf_program_header_at (kmem demo_frames) 0xFFFFA00000000040) = 0x1000"
    by (simp_all add: elf_program_header_at_def demo_frames_def demo_file_def read32_def read64_def ELF_PROG_PT_LOAD_TYPE_def nth_append)
qed

lemma demo_seg_count: "seg_count (elf_program_header_at (kmem demo_frames) 0xFFFFA00000000040) = 1"
  by (simp add: seg_count_def demo_segment ALIGN_UP_def PAGE_SIZE_def)

lemma demo_boot_ok: "boot_ok demo_boot demo_frames"
proof -
  have e: "executable_file demo_boot = 0xFFFFA00000000000" by (simp add: demo_boot_def)
  have off: "off_frames demo_frames (0xFFFFA00000000000 + 64 + of_nat j)" if "j < 56" for j
    using demo_frames_off [of "64 + j"] that by (simp add: add.assoc)
  have "unat (entry_base \<lparr>me_base = 0, me_length = 0x200000, me_type = LIMINE_MEMMAP_USABLE\<rparr>) = 0"
    "unat (entry_bytes \<lparr>me_base = 0, me_length = 0x200000, me_type = LIMINE_MEMMAP_USABLE\<rparr>) = 0x200000"
    by (simp_all add: entry_bytes_def ALIGN_DOWN_def ALIGN_UP_def PAGE_SIZE_def)
  then have "\<forall>e \<in> set (boot_memmap demo_boot). entry_fits (hhdmOffset demo_frames) e"
    by (simp add: demo_boot_def entry_fits_def demo_frames_def KERNEL_TOP_def)
  moreover have "hhdm_ok (hhdmOffset demo_frames)" by (simp add: hhdm_ok_def demo_frames_def UPPER_HALF_def)
  moreover have "\<forall>ct \<in> set (child_tables demo_frames). unat (ct_end ct) \<le> 2 ^ 52" by (simp add: demo_frames_def)
  moreover have "\<forall>ph \<in> set (kernel_segments demo_boot demo_frames). seg_high ph"
    by (simp add: demo_segment seg_high_def demo_seg_count KERNEL_TOP_def)
  moreover have "\<forall>j < 64. off_frames demo_frames (executable_file demo_boot + of_nat j)"
    using demo_frames_off unfolding e by simp
  moreover have "\<forall>j < 56 * unat (e_program_header_entries (kernel_header demo_boot demo_frames)).
      off_frames demo_frames (executable_file demo_boot + e_program_header_table (kernel_header demo_boot demo_frames) + of_nat j)"
    using off unfolding e by (simp add: demo_header(2,3))
  ultimately show ?thesis using demo_header demo_frames_inv(1) by (simp only: boot_ok_def simp_thms)
qed

lemma demo_boot_frames: "boot_frames demo_boot gb demo_frames = 261"
proof -
  have "unat (entry_base \<lparr>me_base = 0, me_length = 0x200000, me_type = LIMINE_MEMMAP_USABLE\<rparr>) = 0"
    "unat (entry_bytes \<lparr>me_base = 0, me_length = 0x200000, me_type = LIMINE_MEMMAP_USABLE\<rparr>) = 0x200000"
    by (simp_all add: entry_bytes_def ALIGN_DOWN_def ALIGN_UP_def PAGE_SIZE_def)
  then show ?thesis by (simp add: boot_frames_def seg_pages_def demo_segment(1) demo_seg_count) (simp add: demo_boot_def entry_bigs_def big_bits_def)
qed

theorem setup_vmm_correct_witness:
  "boot_ok demo_boot (kpmm demo_boot_kernel) \<and> (\<exists>k'. setup_vmm demo_boot demo_boot_kernel = Some (Inr k')
     \<and> translate (kpmm k') (top_level (kernel_pagemap (pkm (plat (kdev k'))))) 0xFFFFFFFF80000000 = Some 0x100000
     \<and> direct (kpmm k') (gb_pages demo_boot_kernel) (top_level (kernel_pagemap (pkm (plat (kdev k'))))) 0xFFFF800000012345 = Some 0)"
proof -
  have s: "kpmm demo_boot_kernel = demo_frames" by (simp add: demo_boot_kernel_def put_pmm_rest)
  have c: "console_ready demo_boot_kernel"
    unfolding demo_boot_kernel_def put_pmm_rest by (simp add: console_ready_def demo_kernel_def demo_sched_def spinlock_init_def)
  note t = setup_vmm_correct [of demo_boot demo_boot_kernel, unfolded s, OF demo_boot_ok c]
  then obtain k' where k': "setup_vmm demo_boot demo_boot_kernel = Some (Inr k')" using demo_boot_frames demo_frames_inv(2) by auto
  define pml4 where "pml4 = top_level (kernel_pagemap (pkm (plat (kdev k'))))"
  have r: "vm_ready demo_boot (gb_pages demo_boot_kernel) demo_frames pml4 (kpmm k')" using t k' by (simp add: pml4_def)
  have "seg_translate (executable_base demo_boot) (kernel_segments demo_boot demo_frames) 0xFFFFFFFF80000000 = Some 0x100000"
    by (simp add: demo_segment seg_covers_def seg_frame_def demo_seg_count) (simp add: demo_boot_def pte_defs)
  then have "translate (kpmm k') pml4 0xFFFFFFFF80000000 = Some 0x100000" using r by (simp add: vm_ready_def KERNEL_TOP_def)
  moreover have "in_entry \<lparr>me_base = 0, me_length = 0x200000, me_type = LIMINE_MEMMAP_USABLE\<rparr> 0x12345"
    by (simp add: in_entry_def entry_bytes_def ALIGN_DOWN_def ALIGN_UP_def PAGE_SIZE_def)
  then have "direct (kpmm k') (gb_pages demo_boot_kernel) pml4 (hhdmOffset demo_frames + 0x12345) = Some (ALIGN_DOWN 0x12345 (big_size (gb_pages demo_boot_kernel)))"
    using r by (simp add: vm_ready_def demo_boot_def)
  then have "direct (kpmm k') (gb_pages demo_boot_kernel) pml4 0xFFFF800000012345 = Some 0"
    by (simp add: demo_frames_def big_size_def ALIGN_DOWN_def JUMBO_PAGE_SIZE_def LARGE_PAGE_SIZE_def split: if_splits)
  ultimately show ?thesis using k' demo_boot_ok s by (auto simp: pml4_def)
qed

text \<open>The same frames with the upper half in place, a page map made, and then a page mapped for the kernel.\<close>

theorem kernel_half_shared_witness:
  "\<exists>s kpm pm s1 s2. new_pagemap kpm s = Inr (pm, s1)
     \<and> kernel_maps [(0xFFFF900000000000, 0x5000, PTE_WRITABLE)] (top_level kpm) s1 = Inr s2
     \<and> translate s2 (top_level pm) 0xFFFF900000000000 = Some 0x5000"
proof -
  have ct: "\<forall>ct \<in> set (child_tables demo_frames). unat (ct_end ct) \<le> 2 ^ 52" by (simp add: demo_frames_def)
  have "page_locs demo_frames \<noteq> pages_in PAGE_USED demo_frames" using demo_frames_inv(2) by (auto simp: avail_def)
  then obtain l t where t: "pmm_taken demo_frames l t" using allocate_page_outcome [OF demo_frames_inv(1)] by auto
  define k where "k = page_node demo_frames l"
  note fresh = fresh_top [OF demo_frames_inv(1) ct t, folded k_def]
  have av: "avail t = 511" using avail_taken [OF t] demo_frames_inv(2) by simp
  have "pte t k (256 + of_nat j) AND PTE_PRESENT = 0" if "j < 255" for j
    using fresh(2) [of "256 + of_nat j"] that by (simp add: unat_word_ariths unat_of_nat)
  then obtain s where s: "pt_ext t k s" "vm_kept t k s" "avail t \<le> avail s + 255" and w: "\<forall>j < 255. walk s k [256 + of_nat j] \<noteq> None"
    using kernel_half_ok [OF fresh(1), of 255 256] av by (auto simp del: walk.simps kernel_half_loop.simps)
  have half: "\<forall>i. 256 \<le> unat i \<longrightarrow> unat i \<le> 510 \<longrightarrow> walk s k [i] \<noteq> None"
    using upper_entries [of "\<lambda>i. walk s k [i] \<noteq> None"] w by blast
  define kpm where "kpm = \<lparr>top_level = k, free_ranges = [], used_ranges = []\<rparr>"
  have k: "k = top_level kpm" by (simp add: kpm_def)
  have inv: "pt_inv s (top_level kpm)" using s(1) by (simp add: pt_ext_def kpm_def)
  have lay: "pmm_layout s = pmm_layout demo_frames" using s(2) t by (simp add: vm_kept_def pmm_taken_def)
  have nz: "0 \<notin> page_addr s ` page_locs s"
  proof -
    have "page_addr demo_frames (0, j) \<noteq> 0" if "j < 512" for j
    proof -
      have "unat (page_addr demo_frames (0, j)) = 0x1000 + 4096 * j"
        using unat_page_addr(1) [of demo_frames 0 j] demo_frames_inv(1) pmm_inv_wf that unfolding demo_frames_pages by (simp add: demo_frames_def)
      then show ?thesis by auto
    qed
    then have "0 \<notin> page_addr demo_frames ` page_locs demo_frames" unfolding demo_frames_pages by force
    then show ?thesis using layout_cong(1,2) [OF lay] by (auto simp: image_iff)
  qed
  have "page_locs s \<noteq> pages_in PAGE_USED s" using s(3) av by (auto simp: avail_def)
  then obtain x where "allocate_page s = Inr x" using allocate_page_outcome [OF pt_invD(1) [OF inv]] by auto
  then obtain pm s1 where new: "new_pagemap kpm s = Inr (pm, s1)" using new_pagemap_ok [OF inv nz] by (auto simp: new_pagemap_def Let_def split: if_splits prod.splits)
  note sh = shares_new [OF inv half [unfolded k] nz refl new]
  have clear: "walk_clear s (top_level kpm) (va_path 0xFFFF900000000000)" using s(1) fresh(3) k by (simp add: pt_ext_def)
  then have c1: "walk_clear s1 (top_level kpm) (va_path 0xFFFF900000000000)" using sh(3) by simp
  have fl: "PTE_WRITABLE AND PTE_MASK = 0" by (simp add: pte_defs)
  obtain s2 where s2: "vmm_map_page (top_level kpm) 0xFFFF900000000000 0x5000 PTE_WRITABLE PAGE_SIZE s1 = Inr s2"
    "translate s2 (top_level kpm) 0xFFFF900000000000 = Some (0x5000 AND PTE_MASK)"
    using vmm_map_page_ok [OF sh(2) c1, of "0x5000" PTE_WRITABLE] sh(4) s(3) av by (auto simp: leaf_view_entry [OF fl])
  have maps: "kernel_maps [(0xFFFF900000000000, 0x5000, PTE_WRITABLE)] (top_level kpm) s1 = Inr s2" using s2(1) by simp
  have i: "256 \<le> unat (pml4i 0xFFFF900000000000)" "unat (pml4i 0xFFFF900000000000) \<le> 510" by (simp_all add: pml4i_def)
  have "translate s2 (top_level pm) 0xFFFF900000000000 = translate s2 (top_level kpm) 0xFFFF900000000000"
    by (rule kernel_half_shared [OF inv half [unfolded k] nz new _ maps i]) (use clear in simp)
  then have "translate s2 (top_level pm) 0xFFFF900000000000 = Some 0x5000" using s2(2) by (simp add: pte_defs)
  then show ?thesis using new maps by blast
qed

end
