(* ===== verification/Panic_Report.thy ===== *)
theory Panic_Report
  imports Console_Calls Framebuffer
begin

text \<open>
  The end of the kernel: \<open>panic_interrupt_frame\<close> of \<open>utils/panic.c\<close> with its random generator, its
  stack trace and the picture of \<open>misc/kpanic_image.h\<close>. Until here a panic is an outcome of the model; this
  theory runs what the code does with it. Shown: the generator picks a line of the table within two
  draws and without bias; the trace ends after at most 64 frames and lists the return addresses of a
  well-formed chain; a panic puts its report on the console whoever holds the console lock, and
  stops the machine whatever the stack it walks over looks like, if need be through a second panic,
  which only uses the screen.
\<close>

section \<open>Data\<close>

definition error_mssages :: "string list" where
  "error_mssages =
  [''The kernel is fucked dawg'',
   ''The kernel got franned'',
   ''I like elephants and god likes elephants'',
   ''Electric Boogaloo'',
   ''Everybody do the flop'',
   ''I like trains'',
   ''Hey, somebody kill me'',
   ''Miku, Miku, oooeeuuu'',
   ''Poteto Chips'',
   ''Im nothing like the rest of them but trust me im a hidden gem'',
   ''When you know it's some DNS bullshit but you can't prove it'',
   ''youtu.be/dQw4w9WgXcQ'',
   ''SHAWWWWWW'',
   ''GIT GUD'',
   ''Deltarune Tomorrow'',
   ''Better than XiOS'',
   ''Number Fifteen'',
   ''Talk is cheap. Show me the code.'',
   ''Advancement Get: How did we get here?'',
   ''Keyboard Cat!'',
   ''r/ihavereddit'',
   ''Prisencolinensinainciusol'',
   ''The Sun is a Deadly Lazer'',
   ''FUCK MICROSOFT'',
   ''FAILURE AFTER FAILURE AFTER FAILURE'',
   ''THE RESULTS REFUSE TO ALTER'',
   ''AGAIN AND AGAIN AND AGAIN AND AGAIN'',
   ''MY FAITH BEGINS TO FALTER'',
   ''MANKIND IS A FAILURE'',
   ''FREE WILL IS A FLAW'',
   ''YOU.. INSIGNIFICANT.. FUCK! THIS IS NOT OVER!'',
   ''I HAVE CREATED HELL... And now I can no longer unmake it...'',
   ''Good Girl :3'',
   ''Albuquerque'',
   ''They've got allen wrenches, gerbil feeders, toilet seats, electric heaters...'',
   ''A Platypus?'',
   ''Grass grows, birds fly, sun shines, and friend, I crash kernels'',
   ''On days like these, kernels like you... should be burning in hell.'',
   ''PERRY THE PLATYPUS!'',
   ''The Kernel-Panic-Inator'',
   ''My Name is Doof and you will do what i say. WOOP WOOP!'',
   ''Ferb i know what we are gonna do today'',
   ''You got any glazed donuts?'',
   ''No, we're outta glazed donuts'',
   ''The panic revolving'',
   ''['' @ ''[Hyperlink Blocked]'' @ '']'',
   ''['' @ ''[Number 1 Rated Kernel1997]'' @ '']'',
   ''KERNEL, GONE DOWN THE ['' @ ''[Drain]'' @ ''] ['' @ ''[Drain]'' @ '']??'',
   ''YOUR ['' @ ''[KernelShapedObject]'' @ ''].'',
   ''The Roaring Fraud'',
   ''GOD DAMMIT KRIS WHERE THE HELL ARE WE?!'',
   ''Doobie'',
   ''All right, fine! FINE, I ADMIT IT! Maybe I AM a little GLOOBY sometimes!! I AM!!! I'm GLOOBY!!!'',
   ''COMINING STRAIGHT FROM YOUR HOUSE'',
   ''Aurora Borealis? At this time of year? At this time of day? In this part of the country? Localized entirely within your Kernel?'',
   ''My Kernel is ruined!'',
   ''Eat my shorts!'',
   ''Cromulently Ruined'',
   ''The kernel is a lie'',
   ''Have you tried ToaruOS?'',
   ''Program in C pointers, assembly manage your memory with malloc and free!'']"

definition panic_art :: "string list" where
  "panic_art =
  [''                                                                                                    '',
   ''                                         @@@@@@@@@@@@@@@@@@@@@                                      '',
   ''                                     @@@@                     @@@                                   '',
   ''                                   @@                            @@                                 '',
   ''                                 @@                                @@                               '',
   ''                               @@                                    @@                             '',
   ''                             @@                                       @@                            '',
   ''                            @@                                          @                           '',
   ''                           @@                                            @                          '',
   ''                           @                                             @@                         '',
   ''                          @                                               @@                        '',
   ''                         @@                                               @@                        '',
   ''                         @@                                                @                        '',
   ''                         @                                                 @@                       '',
   ''                        @@                                                  @                       '',
   ''                        @@                                                  @                       '',
   ''                       @@@                                                  @                       '',
   ''                    @@@  @                                                 @@@@                     '',
   ''                   @     @@                                                @@  @                    '',
   ''                  @      @@                                                @@   @                   '',
   ''                 @@       @@                                              @@    @                   '',
   ''                 @@        @                                             @@@    @                   '',
   ''                 @         @@    @@@@ @                                  @@     @@                  '',
   ''                 @          @@   @ @@@ @                               @@       @@                  '',
   ''                @@           @@ @@ @@  @ @             @@@@@@         @@        @@                  '',
   ''                @@             @@@ @@  @@@@         @@@@  @@ @      @@          @@                  '',
   ''                @@               @     @  @@@@   @@@@ @@  @@  @   @@            @@                  '',
   ''                 @                @       @ @@  @  @   @      @@@@              @@                  '',
   ''                 @               @        @@@@@@@@          @@@                 @@                  '',
   ''                 @              @         @       @@@@@       @@                @                   '',
   ''                 @@          @@@         @@           @         @              @@                   '',
   ''                 @@         @@           @            @@         @@@           @@                   '',
   ''                 @@         @           @@             @@          @@         @@                    '',
   ''@@@@@@@@@@@@@@@@@@@        @            @@@@@@@@@@@@@@@@@@           @@       @@@@@@@@@@@@@@@@@@@@@@'',
   ''                 @@       @            @@@              @@@            @@     @@                    '',
   ''                  @@     @            @                   @@            @@   @@@                    '',
   ''                  @@@   @            @                     @@            @   @@                     '',
   ''                    @               @@                      @@              @@@                     '',
   ''                     @             @@                        @@             @@                      '',
   ''                      @           @                           @@           @                        '',
   ''                       @@@@@@@@@@@                             @@@@@@@@@@@@                         '']"

definition kernel_panic_image :: "u32 list" where
  "kernel_panic_image =
  [0xFFFFFFFF, 0xFFFFFFFF, 0xFFFFFFFF, 0xFFFFFFFF, 0xFFB4B4B4, 0xFFB4B4B4, 0xFFB4B4B4, 0xFFB4B4B4,
   0xFFFFFF00, 0xFFFFFF00, 0xFFFFFF00, 0xFFFFFF00, 0xFF00FFFF, 0xFF00FFFF, 0xFF00FFFF, 0xFF00FFFF,
   0xFF00FF00, 0xFF00FF00, 0xFF00FF00, 0xFF00FF00, 0xFFFF00FF, 0xFFFF00FF, 0xFFFF00FF, 0xFFFF00FF,
   0xFFFF0000, 0xFFFF0000, 0xFFFF0000, 0xFFFF0000, 0xFF0000FF, 0xFF0000FF, 0xFF0000FF, 0xFF0000FF,
   0xFFFFFFFF, 0xFFFFFFFF, 0xFFFFFFFF, 0xFFFFFFFF, 0xFFB4B4B4, 0xFFB4B4B4, 0xFFB4B4B4, 0xFFB4B4B4,
   0xFFFFFF00, 0xFFFFFF00, 0xFFFFFF00, 0xFFFFFF00, 0xFF00FFFF, 0xFF00FFFF, 0xFF00FFFF, 0xFF00FFFF,
   0xFF00FF00, 0xFF00FF00, 0xFF00FF00, 0xFF00FF00, 0xFFFF00FF, 0xFFFF00FF, 0xFFFF00FF, 0xFFFF00FF,
   0xFFFF0000, 0xFFFF0000, 0xFFFF0000, 0xFFFF0000, 0xFF0000FF, 0xFF0000FF, 0xFF0000FF, 0xFF0000FF,
   0xFFFFFFFF, 0xFFFFFFFF, 0xFFFFFFFF, 0xFFFFFFFF, 0xFFB4B4B4, 0xFFB4B4B4, 0xFFB4B4B4, 0xFFB4B4B4,
   0xFFFFFF00, 0xFFFFFF00, 0xFFFFFF00, 0xFFFFFF00, 0xFF00FFFF, 0xFF00FFFF, 0xFF00FFFF, 0xFF00FFFF,
   0xFF00FF00, 0xFF00FF00, 0xFF00FF00, 0xFF00FF00, 0xFFFF00FF, 0xFFFF00FF, 0xFFFF00FF, 0xFFFF00FF,
   0xFFFF0000, 0xFFFF0000, 0xFFFF0000, 0xFFFF0000, 0xFF0000FF, 0xFF0000FF, 0xFF0000FF, 0xFF0000FF,
   0xFFFFFFFF, 0xFFFFFFFF, 0xFFFFFFFF, 0xFFFFFFFF, 0xFFB4B4B4, 0xFFB4B4B4, 0xFFB4B4B4, 0xFFB4B4B4,
   0xFFFFFF00, 0xFFFFFF00, 0xFFFFFF00, 0xFFFFFF00, 0xFF00FFFF, 0xFF00FFFF, 0xFF00FFFF, 0xFF00FFFF,
   0xFF00FF00, 0xFF00FF00, 0xFF00FF00, 0xFF00FF00, 0xFFFF00FF, 0xFFFF00FF, 0xFFFF00FF, 0xFFFF00FF,
   0xFFFF0000, 0xFFFF0000, 0xFFFF0000, 0xFFFF0000, 0xFF0000FF, 0xFF0000FF, 0xFF0000FF, 0xFF0000FF,
   0xFFFFFFFF, 0xFFFFFFFF, 0xFFFFFFFF, 0xFFFFFFFF, 0xFFB4B4B4, 0xFFB4B4B4, 0xFFB4B4B4, 0xFFB4B4B4,
   0xFFFFFF00, 0xFFFFFF00, 0xFFFFFF00, 0xFFFFFF00, 0xFF00FFFF, 0xFF00FFFF, 0xFF00FFFF, 0xFF00FFFF,
   0xFF00FF00, 0xFF00FF00, 0xFF00FF00, 0xFF00FF00, 0xFFFF00FF, 0xFFFF00FF, 0xFFFF00FF, 0xFFFF00FF,
   0xFFFF0000, 0xFFFF0000, 0xFFFF0000, 0xFFFF0000, 0xFF0000FF, 0xFF0000FF, 0xFF0000FF, 0xFF0000FF,
   0xFFFFFFFF, 0xFFFFFFFF, 0xFFFFFFFF, 0xFFFFFFFF, 0xFFB4B4B4, 0xFFB4B4B4, 0xFFB4B4B4, 0xFFB4B4B4,
   0xFFFFFF00, 0xFFFFFF00, 0xFFFFFF00, 0xFFFFFF00, 0xFF00FFFF, 0xFF00FFFF, 0xFF00FFFF, 0xFF00FFFF,
   0xFF00FF00, 0xFF00FF00, 0xFF00FF00, 0xFF00FF00, 0xFFFF00FF, 0xFFFF00FF, 0xFFFF00FF, 0xFFFF00FF,
   0xFFFF0000, 0xFFFF0000, 0xFFFF0000, 0xFFFF0000, 0xFF0000FF, 0xFF0000FF, 0xFF0000FF, 0xFF0000FF,
   0xFFFFFFFF, 0xFFFFFFFF, 0xFFFFFFFF, 0xFFFFFFFF, 0xFFB4B4B4, 0xFFB4B4B4, 0xFFB4B4B4, 0xFFB4B4B4,
   0xFFFFFF00, 0xFFFFFF00, 0xFFFFFF00, 0xFFFFFF00, 0xFF00FFFF, 0xFF00FFFF, 0xFF00FFFF, 0xFF00FFFF,
   0xFF00FF00, 0xFF00FF00, 0xFF00FF00, 0xFF00FF00, 0xFFFF00FF, 0xFFFF00FF, 0xFFFF00FF, 0xFFFF00FF,
   0xFFFF0000, 0xFFFF0000, 0xFFFF0000, 0xFFFF0000, 0xFF0000FF, 0xFF0000FF, 0xFF0000FF, 0xFF0000FF,
   0xFFFFFFFF, 0xFFFFFFFF, 0xFFFFFFFF, 0xFFFFFFFF, 0xFFB4B4B4, 0xFFB4B4B4, 0xFFB4B4B4, 0xFFB4B4B4,
   0xFFFFFF00, 0xFFFFFF00, 0xFFFFFF00, 0xFFFFFF00, 0xFF00FFFF, 0xFF00FFFF, 0xFF00FFFF, 0xFF00FFFF,
   0xFF00FF00, 0xFF00FF00, 0xFF00FF00, 0xFF00FF00, 0xFFFF00FF, 0xFFFF00FF, 0xFFFF00FF, 0xFFFF00FF,
   0xFFFF0000, 0xFFFF0000, 0xFFFF0000, 0xFFFF0000, 0xFF0000FF, 0xFF0000FF, 0xFF0000FF, 0xFF0000FF,
   0xFFFFFFFF, 0xFFFFFFFF, 0xFFFFFFFF, 0xFFFFFFFF, 0xFFB4B4B4, 0xFFB4B4B4, 0xFFB4B4B4, 0xFFB4B4B4,
   0xFFFFFF00, 0xFFFFFF00, 0xFFFFFF00, 0xFFFFFF00, 0xFF00FFFF, 0xFF00FFFF, 0xFF00FFFF, 0xFF00FFFF,
   0xFF00FF00, 0xFF00FF00, 0xFF00FF00, 0xFF00FF00, 0xFFFF00FF, 0xFFFF00FF, 0xFFFF00FF, 0xFFFF00FF,
   0xFFFF0000, 0xFFFF0000, 0xFFFF0000, 0xFFFF0000, 0xFF0000FF, 0xFF0000FF, 0xFF0000FF, 0xFF0000FF,
   0xFFFFFFFF, 0xFFFFFFFF, 0xFFFFFFFF, 0xFFFFFFFF, 0xFFB4B4B4, 0xFFB4B4B4, 0xFFB4B4B4, 0xFFB4B4B4,
   0xFFFFFF00, 0xFFFFFF00, 0xFFFFFF00, 0xFFFFFF00, 0xFF00FFFF, 0xFF00FFFF, 0xFF00FFFF, 0xFF00FFFF,
   0xFF00FF00, 0xFF00FF00, 0xFF00FF00, 0xFF00FF00, 0xFFFF00FF, 0xFFFF00FF, 0xFFFF00FF, 0xFFFF00FF,
   0xFFFF0000, 0xFFFF0000, 0xFFFF0000, 0xFFFF0000, 0xFF0000FF, 0xFF0000FF, 0xFF0000FF, 0xFF0000FF,
   0xFFFFFFFF, 0xFFFFFFFF, 0xFFFFFFFF, 0xFFFFFFFF, 0xFFB4B4B4, 0xFFB4B4B4, 0xFFB4B4B4, 0xFFB4B4B4,
   0xFFFFFF00, 0xFFFFFF00, 0xFFFFFF00, 0xFFFFFF00, 0xFF00FFFF, 0xFF00FFFF, 0xFF00FFFF, 0xFF00FFFF,
   0xFF00FF00, 0xFF00FF00, 0xFF00FF00, 0xFF00FF00, 0xFFFF00FF, 0xFFFF00FF, 0xFFFF00FF, 0xFFFF00FF,
   0xFFFF0000, 0xFFFF0000, 0xFFFF0000, 0xFFFF0000, 0xFF0000FF, 0xFF0000FF, 0xFF0000FF, 0xFF0000FF,
   0xFFFFFFFF, 0xFFFFFFFF, 0xFFFFFFFF, 0xFFFFFFFF, 0xFFB4B4B4, 0xFFB4B4B4, 0xFFB4B4B4, 0xFFB4B4B4,
   0xFFFFFF00, 0xFFFFFF00, 0xFFFFFF00, 0xFFFFFF00, 0xFF00FFFF, 0xFF00FFFF, 0xFF00FFFF, 0xFF00FFFF,
   0xFF00FF00, 0xFF00FF00, 0xFF00FF00, 0xFF00FF00, 0xFFFF00FF, 0xFFFF00FF, 0xFFFF00FF, 0xFFFF00FF,
   0xFFFF0000, 0xFFFF0000, 0xFFFF0000, 0xFFFF0000, 0xFF0000FF, 0xFF0000FF, 0xFF0000FF, 0xFF0000FF,
   0xFFFFFFFF, 0xFFFFFFFF, 0xFFFFFFFF, 0xFFFFFFFF, 0xFFB4B4B4, 0xFFB4B4B4, 0xFFB4B4B4, 0xFFB4B4B4,
   0xFFFFFF00, 0xFFFFFF00, 0xFFFFFF00, 0xFFFFFF00, 0xFF00FFFF, 0xFF00FFFF, 0xFF00FFFF, 0xFF00FFFF,
   0xFF00FF00, 0xFF00FF00, 0xFF00FF00, 0xFF00FF00, 0xFFFF00FF, 0xFFFF00FF, 0xFFFF00FF, 0xFFFF00FF,
   0xFFFF0000, 0xFFFF0000, 0xFFFF0000, 0xFFFF0000, 0xFF0000FF, 0xFF0000FF, 0xFF0000FF, 0xFF0000FF,
   0xFFFFFFFF, 0xFFFFFFFF, 0xFFFFFFFF, 0xFFFFFFFF, 0xFFB4B4B4, 0xFFB4B4B4, 0xFFB4B4B4, 0xFFB4B4B4,
   0xFFFFFF00, 0xFFFFFF00, 0xFFFFFF00, 0xFFFFFF00, 0xFF00FFFF, 0xFF00FFFF, 0xFF00FFFF, 0xFF00FFFF,
   0xFF00FF00, 0xFF00FF00, 0xFF00FF00, 0xFF00FF00, 0xFFFF00FF, 0xFFFF00FF, 0xFFFF00FF, 0xFFFF00FF,
   0xFFFF0000, 0xFFFF0000, 0xFFFF0000, 0xFFFF0000, 0xFF0000FF, 0xFF0000FF, 0xFF0000FF, 0xFF0000FF,
   0xFF000000, 0xFF000000, 0xFF000000, 0xFF000000, 0xFF000000, 0xFF000000, 0xFF000000, 0xFF000000,
   0xFF000000, 0xFFFFFFFF, 0xFFFFFFFF, 0xFFFFFFFF, 0xFFFFFFFF, 0xFFFFFFFF, 0xFFFFFFFF, 0xFF000000,
   0xFF000000, 0xFF000000, 0xFF000000, 0xFF000000, 0xFF000000, 0xFF000000, 0xFF000000, 0xFF000000,
   0xFF000000, 0xFF000000, 0xFF000000, 0xFF000000, 0xFF000000, 0xFF000000, 0xFF000000, 0xFF000000,
   0xFF000000, 0xFF000000, 0xFF000000, 0xFF000000, 0xFF000000, 0xFF000000, 0xFF000000, 0xFF000000,
   0xFF000000, 0xFFFFFFFF, 0xFFFFFFFF, 0xFFFFFFFF, 0xFFFFFFFF, 0xFFFFFFFF, 0xFFFFFFFF, 0xFF000000,
   0xFF000000, 0xFF000000, 0xFF000000, 0xFF000000, 0xFF000000, 0xFF000000, 0xFF000000, 0xFF000000,
   0xFF000000, 0xFF000000, 0xFF000000, 0xFF000000, 0xFF000000, 0xFF000000, 0xFF000000, 0xFF000000,
   0xFF000000, 0xFF000000, 0xFF000000, 0xFF000000, 0xFF000000, 0xFF000000, 0xFF000000, 0xFF000000,
   0xFF000000, 0xFFFFFFFF, 0xFFFFFFFF, 0xFFFFFFFF, 0xFFFFFFFF, 0xFFFFFFFF, 0xFFFFFFFF, 0xFF000000,
   0xFF000000, 0xFF000000, 0xFF000000, 0xFF000000, 0xFF000000, 0xFF000000, 0xFF000000, 0xFF000000,
   0xFF000000, 0xFF000000, 0xFF000000, 0xFF000000, 0xFF000000, 0xFF000000, 0xFF000000, 0xFF000000,
   0xFF000000, 0xFF000000, 0xFF000000, 0xFF000000, 0xFF000000, 0xFF000000, 0xFF000000, 0xFF000000,
   0xFF000000, 0xFFFFFFFF, 0xFFFFFFFF, 0xFFFFFFFF, 0xFFFFFFFF, 0xFFFFFFFF, 0xFFFFFFFF, 0xFF000000,
   0xFF000000, 0xFF000000, 0xFF000000, 0xFF000000, 0xFF000000, 0xFF000000, 0xFF000000, 0xFF000000,
   0xFF000000, 0xFF000000, 0xFF000000, 0xFF000000, 0xFF000000, 0xFF000000, 0xFF000000, 0xFF000000]"

definition kernel_panic_image_data_width :: int where "kernel_panic_image_data_width = 32"
definition kernel_panic_image_data_height :: int where "kernel_panic_image_data_height = 18"

record symbol =
  sym_name :: "u8 list"
  sym_address :: u64
  sym_size :: u64

text \<open>
  The registers the function reads with assembly. The kernel that panics comes with the counter,
  the generator, the symbol table (empty in the sources; the loops run over it all the same)
  and the screen.
\<close>

record panic_regs =
  r_cr0 :: u64
  r_cr2 :: u64
  r_cr3 :: u64
  r_cr4 :: u64
  r_cr8 :: u64
  gdtr_base :: u64
  gdtr_limit :: u16
  idtr_base :: u64
  idtr_limit :: u16
  r_ldt :: u16
  r_tr :: u16
  r_rbp :: u64

record panicking =
  pker :: kernel
  panic_count :: int
  xs_state :: u64
  symbols :: "symbol list"
  pscreen :: framebuffer

definition on_plat :: "(platform \<Rightarrow> platform) \<Rightarrow> panicking \<Rightarrow> panicking" where
  "on_plat f s = s\<lparr>pker := set_plat (f (plat (kdev (pker s)))) (pker s)\<rparr>"

section \<open>The random generator\<close>

definition xorshift :: "u64 \<Rightarrow> u64" where
  "xorshift x =
     (let x1 = x XOR drop_bit 12 x;
          x2 = x1 XOR push_bit 25 x1
      in x2 XOR drop_bit 27 x2)"

definition xorshift64star :: "panicking \<Rightarrow> u64 \<times> panicking" where
  "xorshift64star s =
     (let s1 = (if xs_state s = 0
                then (case read_tsc (plat (kdev (pker s))) of (t, h) \<Rightarrow> on_plat (\<lambda>_. h) (s\<lparr>xs_state := t\<rparr>)) else s);
          x = xorshift (xs_state s1)
      in (x * 0x2545F4914F6CDD1D, s1\<lparr>xs_state := x\<rparr>))"

text \<open>\<open>do x = xorshift64star(); while (x >= limit);\<close>\<close>

partial_function (option) draw_below :: "u64 \<Rightarrow> panicking \<Rightarrow> (u64 \<times> panicking) option" where
  "draw_below limit s =
     (case xorshift64star s of (x, s1) \<Rightarrow> if x \<ge> limit then draw_below limit s1 else Some (x, s1))"

definition rand_limit :: "u64 \<Rightarrow> u64" where
  "rand_limit rng = - 1 - (- 1 mod rng)"

definition rand_value :: "int \<Rightarrow> u64 \<Rightarrow> u64 \<Rightarrow> int" where
  "rand_value mn rng x = sint (ucast (word_of_int mn + x mod rng) :: u32)"

definition rand_between :: "int \<Rightarrow> int \<Rightarrow> panicking \<Rightarrow> (int \<times> panicking) option" where
  "rand_between lo hi s =
     (let mn = (if lo > hi then hi else lo);
          mx = (if lo > hi then lo else hi);
          rng = (word_of_int (mx - mn + 1) :: u64)
      in map_option (\<lambda>(x, s1). (rand_value mn rng x, s1)) (draw_below (rand_limit rng) s))"

section \<open>Output\<close>

text \<open>\<open>internal_putc\<close> during a panic: the console lock is not taken.\<close>

definition panic_putc :: "u8 \<Rightarrow> kernel \<Rightarrow> kernel option" where
  "panic_putc ch k =
     (let k2 = k\<lparr>kdev := (kdev k)\<lparr>ft_out := ft_out (kdev k) @ [ch]\<rparr>\<rparr>;
          h = plat (kdev k2);
          h1 = (if cpu_feature_bit 1 0 CHR ''c'' 31 h then outb 0xE9 ch h else h)
      in if serial_works (kdev k2)
         then (case Option.bind (if ch = 10 then serial_send (serial_port (kdev k2)) 13 h1 else Some h1)
                      (serial_send (serial_port (kdev k2)) ch) of
                 None \<Rightarrow> None | Some h2 \<Rightarrow> Some (set_plat h2 k2))
         else Some (set_plat h1 k2))"

fun panic_kputs :: "u8 list \<Rightarrow> kernel \<Rightarrow> kernel option" where
  "panic_kputs [] k = Some k"
| "panic_kputs (c # cs) k = Option.bind (panic_putc c k) (panic_kputs cs)"

definition panic_printf :: "u8 list \<Rightarrow> panicking \<Rightarrow> panicking option" where
  "panic_printf cs s = map_option (\<lambda>k. s\<lparr>pker := k\<rparr>) (panic_kputs cs (pker s))"

text \<open>\<open>%lx\<close>, \<open>%0<n>lx\<close>, and \<open>%08b\<close> for the four bytes of an \<open>int\<close>\<close>

function hex_min :: "u64 \<Rightarrow> u8 list" where
  "hex_min v = (if v < 16 then [hex_low v] else hex_min (drop_bit 4 v) @ [hex_low v])"
  by auto

termination hex_min
  by (relation "measure unat") (auto simp: drop_bit_eq_div word_less_nat_alt unat_div)

declare hex_min.simps [simp del]

definition hex_pad :: "nat \<Rightarrow> u64 \<Rightarrow> u8 list" where
  "hex_pad n v = replicate (n - length (hex_min v)) 48 @ hex_min v"

definition bits8 :: "u64 \<Rightarrow> u8 list" where
  "bits8 v = map (\<lambda>i. if bit v (7 - i) then 49 else 48) [0..<8]"

definition bits_line :: "string \<Rightarrow> u64 \<Rightarrow> u8 list" where
  "bits_line label v = bytes_of label @ bits8 (drop_bit 24 v) @ [32] @ bits8 (drop_bit 16 v) @ [32] @ bits8 (drop_bit 8 v) @ [32]
     @ bits8 v @ [10]"

text \<open>Two registers on a line, and a colour.\<close>

definition reg_line :: "string \<Rightarrow> u64 \<Rightarrow> string \<Rightarrow> u64 \<Rightarrow> u8 list" where
  "reg_line a x b y = bytes_of a @ bytes_of ''=0x'' @ hex_pad 16 x @ [32] @ bytes_of b @ bytes_of ''=0x'' @ hex_pad 16 y @ [10]"

definition colour :: "string \<Rightarrow> u8 list" where
  "colour rgb = 27 # bytes_of ''[38;2;'' @ bytes_of rgb @ bytes_of ''m''"

definition plain :: "u8 list" where "plain = 27 # bytes_of ''[0m''"

definition general_text :: "interrupt_frame \<Rightarrow> u8 list" where
  "general_text f =
     colour ''175;56;255'' @ bytes_of ''General Registers:'' @ [10]
     @ reg_line ''RAX'' (if_rax f) ''RBX'' (if_rbx f)
     @ reg_line ''RCX'' (if_rcx f) ''RDX'' (if_rdx f)
     @ reg_line ''RSI'' (if_rsi f) ''RDI'' (if_rdi f)
     @ reg_line ''RBP'' (if_rbp f) ''RSP'' (if_rsp f)
     @ reg_line ''R8 '' (if_r8 f) ''R9 '' (if_r9 f)
     @ reg_line ''R10'' (if_r10 f) ''R11'' (if_r11 f)
     @ reg_line ''R12'' (if_r12 f) ''R13'' (if_r13 f)
     @ reg_line ''R14'' (if_r14 f) ''R15'' (if_r15 f)"

definition frame_text :: "interrupt_frame \<Rightarrow> u8 list" where
  "frame_text f =
     colour ''231;133;255'' @ bytes_of ''Interrupt Frame:'' @ [10]
     @ reg_line ''IP'' (if_ip f) ''SP'' (if_rsp f)
     @ reg_line ''SS'' (if_ss f) ''CS'' (if_cs f)
     @ bits_line ''FLAGS: '' (if_flags f)
     @ bits_line ''ERROR: '' (if_error f)"

definition control_text :: "panic_regs \<Rightarrow> u8 list" where
  "control_text r =
     colour ''255;238;0'' @ bytes_of ''Control Registers:'' @ [10]
     @ bits_line ''CR0: '' (r_cr0 r)
     @ bits_line ''CR4: '' (r_cr4 r)
     @ bits_line ''CR8: '' (r_cr8 r)
     @ reg_line ''CR2'' (r_cr2 r) ''CR3'' (r_cr3 r)"

definition misc_text :: "panic_regs \<Rightarrow> u8 list" where
  "misc_text r =
     colour ''76;230;112'' @ bytes_of ''Misc:'' @ [10]
     @ bytes_of ''GDTR Base=0x'' @ hex_pad 16 (gdtr_base r) @ bytes_of '' GDTR Limit=0x'' @ hex_pad 8 (ucast (gdtr_limit r)) @ [10]
     @ bytes_of ''IDTR Base=0x'' @ hex_pad 16 (idtr_base r) @ bytes_of '' IDTR Limit=0x'' @ hex_pad 8 (ucast (idtr_limit r)) @ [10]
     @ bytes_of ''LDT='' @ hex_pad 8 (ucast (r_ldt r)) @ bytes_of '' TR='' @ hex_pad 8 (ucast (r_tr r)) @ [10]
     @ colour ''26;237;209'' @ bytes_of ''Stack Trace:'' @ [10]"

definition closing_text :: "u8 list" where
  "closing_text =
     plain @ concat (map (\<lambda>l. bytes_of l @ [10]) panic_art)
     @ bytes_of ''god damn it; '' @ colour ''255;0;0'' @ bytes_of ''halting;'' @ plain @ 27 # bytes_of ''[?25l''"

section \<open>The stack trace\<close>

text \<open>The loops over the table: the first symbol that holds the address.\<close>

definition holds_ip :: "u64 \<Rightarrow> symbol \<Rightarrow> bool" where
  "holds_ip ip y \<longleftrightarrow> ip \<ge> sym_address y \<and> ip < sym_address y + sym_size y"

definition symbol_line :: "u64 \<Rightarrow> symbol \<Rightarrow> u8 list" where
  "symbol_line ip y = sym_name y @ bytes_of '': 0x'' @ hex_pad 16 (sym_address y) @ bytes_of '' + 0x''
     @ hex_pad 8 (ip - sym_address y) @ [10]"

text \<open>
  The line of the faulting instruction. The test of the flags is \<open>frame->flags | PANIC_FLAGS_FRAME\<close>, which is
  never zero.
\<close>

definition PANIC_FLAGS_FRAME :: u64 where "PANIC_FLAGS_FRAME = 2"

definition fault_line :: "interrupt_frame \<Rightarrow> symbol list \<Rightarrow> u8 list" where
  "fault_line f ys =
     (if if_vector f = 0x08 \<or> if_vector f = 0x0D \<or> if_vector f = 0x0E
      then (if if_flags f OR PANIC_FLAGS_FRAME \<noteq> 0
            then (case find (holds_ip (if_ip f)) ys of Some y \<Rightarrow> symbol_line (if_ip f) y | None \<Rightarrow> []) else [])
      else [])"

definition trace_line :: "u64 \<Rightarrow> symbol list \<Rightarrow> u8 list" where
  "trace_line rip ys =
     (case find (holds_ip rip) ys of Some y \<Rightarrow> symbol_line rip y
      | None \<Rightarrow> bytes_of ''unknown: 0x'' @ hex_pad 16 rip @ [10])"

text \<open>
  Two words are read at each frame pointer; a read that memory does not allow is a page
  fault in the middle of the function.
\<close>

datatype panic_end = Halted panicking | Page_faulted u64 panicking

definition first_unreadable :: "uspace \<Rightarrow> u64 \<Rightarrow> u64 option" where
  "first_unreadable u a = find (\<lambda>b. \<not> can_read u b) (map (\<lambda>i. a + of_nat i) [0..<16])"

primrec backtrace :: "nat \<Rightarrow> u64 \<Rightarrow> u64 \<Rightarrow> panicking \<Rightarrow> panic_end option" where
  "backtrace 0 rbp prev_rbp s = Some (Halted s)"
| "backtrace (Suc n) rbp prev_rbp s =
     (if rbp = 0 \<or> rbp AND 0xF \<noteq> 0 \<or> rbp < 0x4000 \<or> (prev_rbp \<noteq> 0 \<and> rbp \<le> prev_rbp) then Some (Halted s)
      else (case first_unreadable (kusr (pker s)) rbp of
          Some a \<Rightarrow> Some (Page_faulted a s)
        | None \<Rightarrow>
            let next_rbp = read64 (ubytes (kusr (pker s))) rbp;
                rip = read64 (ubytes (kusr (pker s))) (rbp + 8)
            in Option.bind (panic_printf (trace_line rip (symbols s)) s) (backtrace n next_rbp rbp)))"

section \<open>The panic\<close>

text \<open>The second panic.\<close>

definition panic_paniced :: "u8 list \<Rightarrow> interrupt_frame \<Rightarrow> panicking \<Rightarrow> panic_end option" where
  "panic_paniced message frame s =
     (let scaleX = FB_WIDTH (pscreen s) div kernel_panic_image_data_width;
          scaleY = FB_HEIGHT (pscreen s) div kernel_panic_image_data_height;
          sx = (if scaleX < 1 then 1 else scaleX);
          sy = (if scaleY < 1 then 1 else scaleY);
          f1 = drawImage kernel_panic_image kernel_panic_image_data_width kernel_panic_image_data_height 0 0 sx sy (pscreen s)
      in Option.bind (printString (bytes_of ''The kernel is fucked 2: Electric Boogaloo (Panic Paniced)'') 0 0 f1) (\<lambda>f2.
         Option.bind (printString message 100 100 f2) (\<lambda>f3.
         Option.bind (printString (hex_min (if_ip frame)) 300 300 f3) (\<lambda>f4. Some (Halted (s\<lparr>pscreen := f4\<rparr>))))))"

text \<open>
  \<open>panic_interrupt_frame\<close>. No caller passes a null frame. The kernel is built with \<open>MUTE_KERNEL_PANIC\<close>, so the
  report ends without a sound.
\<close>

definition panic_interrupt_frame :: "panic_regs \<Rightarrow> u8 list \<Rightarrow> interrupt_frame \<Rightarrow> panicking \<Rightarrow> panic_end option" where
  "panic_interrupt_frame r message frame s =
     (let s1 = on_plat (\<lambda>h. stop_sound (emit Cli h)) s
      in if panic_count s1 > 0 then panic_paniced message frame s1
         else Option.bind (rand_between 0 (int (length error_mssages) - 1) (s1\<lparr>panic_count := panic_count s1 + 1\<rparr>)) (\<lambda>(i, s2).
              Option.bind (panic_printf (colour ''100;93;232'' @ bytes_of (error_mssages ! nat i) @ plain @ [10]) s2) (\<lambda>s3.
              Option.bind (panic_printf (colour ''255;48;48'' @ message @ plain @ [10]) s3) (\<lambda>s4.
              Option.bind (panic_printf (general_text frame @ frame_text frame @ control_text r @ misc_text r) s4) (\<lambda>s5.
              Option.bind (panic_printf (fault_line frame (symbols s5)) s5) (\<lambda>s6.
              Option.bind (backtrace 64 (r_rbp r) 0 s6) (\<lambda>e. case e of
                  Page_faulted a s7 \<Rightarrow> Some (Page_faulted a s7)
                | Halted s7 \<Rightarrow> map_option Halted (panic_printf closing_text s7))))))))"

text \<open>
  The whole end: a fault while the stack is walked enters the kernel again, at the vector of
  page faults, with a frame the processor fills in; the panic the handler asks for is the second
  one, after what the entry itself did (a vector of that class changes no level). \<open>again\<close> gives the
  frame and the registers at that moment.
\<close>

definition panic_run :: "dispatch_env \<Rightarrow> (u64 \<Rightarrow> panicking \<Rightarrow> interrupt_frame \<times> panic_regs) \<Rightarrow> panic_regs \<Rightarrow> u8 list \<Rightarrow>
    interrupt_frame \<Rightarrow> panicking \<Rightarrow> panicking option" where
  "panic_run env again r message frame s =
     (case panic_interrupt_frame r message frame s of
        None \<Rightarrow> None
      | Some (Halted s1) \<Rightarrow> Some s1
      | Some (Page_faulted a s1) \<Rightarrow>
          (case again a s1 of (frame2, r2) \<Rightarrow>
             let k = (pker s1)\<lparr>kcr2 := a\<rparr>
             in case dispatch_interupt env frame2 k of
                  Some (Inl (Panic m)) \<Rightarrow>
                    (case panic_interrupt_frame r2 (bytes_of m) frame2
                        (s1\<lparr>pker := set_plat (emit Sti (plat (kdev k))) (user_entry frame2 k)\<rparr>) of
                       Some (Halted s2) \<Rightarrow> Some s2 | _ \<Rightarrow> None)
                | _ \<Rightarrow> None))"

section \<open>The generator\<close>

lemma shift_free: "0 < n \<Longrightarrow> x XOR drop_bit n x = 0 \<Longrightarrow> x = 0" for x :: u64
proof -
  assume n: "0 < n" and "x XOR drop_bit n x = 0"
  then have "x = drop_bit n x" by (simp add: bit_eq_iff bit_xor_iff)
  then have "unat x = unat (drop_bit n x)" by simp
  moreover have "unat (drop_bit n x) = drop_bit n (unat x)" using unat_lt_64 [of x] by (simp add: unsigned_drop_bit_eq take_bit_nat_eq_self)
  ultimately have "unat x = unat x div 2 ^ n" by (simp add: drop_bit_eq_div)
  moreover have "1 < (2 :: nat) ^ n" using n by (intro one_less_power) simp_all
  ultimately have "unat x = 0" using div_less_dividend [of "2 ^ n" "unat x"] by (metis gr0I less_irrefl_nat)
  then show "x = 0" by (simp only: unsigned_eq_0_iff)
qed

lemma shift_up_free: "0 < n \<Longrightarrow> x XOR push_bit n x = 0 \<Longrightarrow> x = 0" for x :: u64
proof -
  assume n: "0 < n" and "x XOR push_bit n x = 0"
  then have eq: "x = push_bit n x" by (simp add: bit_eq_iff bit_xor_iff)
  have "\<not> bit x i" for i
  proof (induction i rule: less_induct)
    case (less i)
    then show ?case using n eq by (metis bit_push_bit_iff diff_less gr_implies_not0 le_zero_eq not_gr_zero)
  qed
  then show "x = 0" by (simp add: bit_eq_iff)
qed

text \<open>The generator never falls back to the state zero, which would make it read the clock again.\<close>

lemma xorshift_nonzero: "x \<noteq> 0 \<Longrightarrow> xorshift x \<noteq> 0"
  using shift_free [of 12 x] shift_up_free [of 25 "x XOR drop_bit 12 x"]
    shift_free [of 27 "(x XOR drop_bit 12 x) XOR push_bit 25 (x XOR drop_bit 12 x)"]
  by (auto simp: xorshift_def Let_def)

lemma unat_rand_limit:
  assumes "0 < n"
  shows "unat (rand_limit n) = (2 ^ 64 - 1) div unat n * unat n"
proof -
  have m: "unat (- 1 :: u64) = 2 ^ 64 - 1" by (simp add: unsigned_minus_1_eq_mask mask_eq_exp_minus_1)
  have "unat (- 1 - (- 1 mod n)) = unat (- 1 :: u64) - unat (- 1 mod n)" by (intro unat_sub) simp
  also have "\<dots> = unat (- 1 :: u64) - unat (- 1 :: u64) mod unat n" by (simp only: unat_mod)
  finally show ?thesis unfolding rand_limit_def m by (simp only: minus_mod_eq_div_mult)
qed

text \<open>
  A draw below the limit is one of the values, each as often as every other.
\<close>

lemma card_residues: "0 < n \<Longrightarrow> r < n \<Longrightarrow> card {x. x < q * n \<and> x mod n = r} = (q :: nat)"
proof -
  assume n: "0 < n" "r < n"
  have "{x. x < q * n \<and> x mod n = r} = (\<lambda>j. j * n + r) ` {..<q}"
  proof (intro equalityI subsetI)
    fix x assume "x \<in> {x. x < q * n \<and> x mod n = r}"
    then have "x = x div n * n + r" "x div n < q" using n by (auto simp: div_less_iff_less_mult)
    then show "x \<in> (\<lambda>j. j * n + r) ` {..<q}" by blast
  next
    fix x assume "x \<in> (\<lambda>j. j * n + r) ` {..<q}"
    then obtain j where j: "x = j * n + r" "j < q" by auto
    have "Suc j * n \<le> q * n" using j(2) by (intro mult_right_mono) auto
    then show "x \<in> {x. x < q * n \<and> x mod n = r}" using j n by simp
  qed
  moreover have "inj_on (\<lambda>j. j * n + r) {..<q}" using n by (intro inj_onI) simp
  ultimately show ?thesis by (simp add: card_image)
qed

lemma unat_wi: "0 \<le> k \<Longrightarrow> k < 2 ^ 64 \<Longrightarrow> unat (word_of_int k :: u64) = nat k"
  by (simp add: unsigned_of_int take_bit_int_eq_self)

lemma sint_wi: "- (2 ^ 31) \<le> k \<Longrightarrow> k < 2 ^ 31 \<Longrightarrow> sint (word_of_int k :: u32) = k"
  by (simp add: signed_of_int signed_take_bit_int_eq_self)

lemma ucast_wi: "(ucast (word_of_int k :: u64) :: u32) = word_of_int k"
  by (rule bit_word_eqI) (simp add: bit_simps)

lemma rand_value_eq:
  assumes "- (2 ^ 31) \<le> lo" "hi < 2 ^ 31" "lo \<le> hi"
  shows "rand_value lo (word_of_int (hi - lo + 1)) x = lo + int (unat x mod nat (hi - lo + 1))"
proof -
  define n :: u64 where "n = word_of_int (hi - lo + 1)"
  define r where "r = unat x mod nat (hi - lo + 1)"
  have n: "unat n = nat (hi - lo + 1)" unfolding n_def using assms by (intro unat_wi) auto
  have "r < nat (hi - lo + 1)" unfolding r_def using assms(3) by simp
  then have b: "lo + int r \<le> hi" using assms(3) by linarith
  have "x mod n = of_nat r" unfolding r_def n [symmetric] by (simp add: unat_mod [symmetric])
  then have "word_of_int lo + x mod n = (word_of_int (lo + int r) :: u64)" by simp
  then have "rand_value lo n x = sint (word_of_int (lo + int r) :: u32)"
    by (simp only: rand_value_def ucast_wi)
  also have "\<dots> = lo + int r" using assms b by (intro sint_wi) auto
  finally show ?thesis by (simp add: n_def r_def)
qed

text \<open>
  The generator is fair: of the draws it accepts, as many give one value between the bounds as
  any other.
\<close>

theorem rand_between_fair:
  assumes "- (2 ^ 31) \<le> lo" "hi < 2 ^ 31" "lo \<le> v" "v \<le> hi" and "rng = word_of_int (hi - lo + 1)"
  shows "card {x. x < rand_limit rng \<and> rand_value lo rng x = v} = (2 ^ 64 - 1) div nat (hi - lo + 1)"
proof -
  let ?n = "nat (hi - lo + 1)" and ?q = "(2 ^ 64 - 1) div nat (hi - lo + 1) :: nat"
  have n: "unat rng = ?n" unfolding assms(5) using assms(1-4) by (intro unat_wi) auto
  then have "unat rng \<noteq> 0" using assms(3,4) by simp
  then have pos: "0 < rng" by (metis unsigned_0 word_gt_0)
  have lim: "unat (rand_limit rng) = ?q * ?n" using unat_rand_limit [OF pos] n by simp
  have "unat ` {x. x < rand_limit rng \<and> rand_value lo rng x = v} = {x. x < ?q * ?n \<and> x mod ?n = nat (v - lo)}"
  proof (intro equalityI subsetI)
    fix y assume "y \<in> unat ` {x. x < rand_limit rng \<and> rand_value lo rng x = v}"
    then show "y \<in> {x. x < ?q * ?n \<and> x mod ?n = nat (v - lo)}"
      using rand_value_eq [of lo hi] assms lim by (auto simp: word_less_nat_alt)
  next
    fix y assume y: "y \<in> {x. x < ?q * ?n \<and> x mod ?n = nat (v - lo)}"
    have "?q * ?n \<le> 2 ^ 64 - 1" by (rule div_times_less_eq_dividend)
    moreover have "y < ?q * ?n" using y by simp
    ultimately have "y < 2 ^ 64" by linarith
    then have u: "unat (of_nat y :: u64) = y" by (intro unat_of_nat64) simp
    then have "(of_nat y :: u64) \<in> {x. x < rand_limit rng \<and> rand_value lo rng x = v}"
      using rand_value_eq [OF assms(1,2), of "of_nat y"] lim y assms(3,4) unfolding mem_Collect_eq word_less_nat_alt assms(5)
      by simp
    then show "y \<in> unat ` {x. x < rand_limit rng \<and> rand_value lo rng x = v}" by (rule image_eqI [where x = "of_nat y", rotated]) (simp add: u)
  qed
  then have "card {x. x < rand_limit rng \<and> rand_value lo rng x = v} = card {x. x < ?q * ?n \<and> x mod ?n = nat (v - lo)}"
    using card_image [of unat "{x. x < rand_limit rng \<and> rand_value lo rng x = v}"] by (simp add: inj_on_def word_unat_eq_iff)
  also have "\<dots> = ?q" using assms(3,4) by (intro card_residues) auto
  finally show ?thesis .
qed

theorem rand_between_fair_witness:
  "card {x. x < rand_limit 61 \<and> rand_value 0 61 x = 60} = (2 ^ 64 - 1) div nat (60 - 0 + 1)"
  by (rule rand_between_fair) simp_all

section \<open>Picking a line\<close>

text \<open>
  Of the 16 values the limit for 61 lines turns away none follows another: the second draw is
  always accepted.
\<close>

definition mult :: u64 where "mult = 0x2545F4914F6CDD1D"
definition mult_inv :: u64 where "mult_inv = 0x59071d96d81ecd35"

lemma mult_inv: "x * mult * mult_inv = x"
proof -
  have "mult * mult_inv = 1" by code_simp
  then show ?thesis by (simp add: mult.assoc)
qed

lemma rand_limit_61: "rand_limit 61 = 0xFFFFFFFFFFFFFFF0"
  by code_simp

definition turned_away :: "u64 list" where
  "turned_away = map (\<lambda>i. 0xFFFFFFFFFFFFFFF0 + of_nat i) [0..<16]"

lemma turned_away_iff: "x \<ge> 0xFFFFFFFFFFFFFFF0 \<Longrightarrow> x \<in> set turned_away"
proof -
  assume a: "x \<ge> 0xFFFFFFFFFFFFFFF0"
  then have u: "unat x = 0xFFFFFFFFFFFFFFF0 + (unat x - 0xFFFFFFFFFFFFFFF0)" by (simp add: word_le_nat_alt)
  moreover have "unat x - 0xFFFFFFFFFFFFFFF0 < 16" using unat_lt_64 [of x] by simp
  moreover have "x = 0xFFFFFFFFFFFFFFF0 + of_nat (unat x - 0xFFFFFFFFFFFFFFF0)"
    using arg_cong [OF u, of "of_nat :: nat \<Rightarrow> u64"] by simp
  ultimately show ?thesis unfolding turned_away_def by (auto intro!: image_eqI [of _ _ "unat x - 0xFFFFFFFFFFFFFFF0"])
qed

lemma turned_away_once: "list_all (\<lambda>y. xorshift (y * mult_inv) * mult < 0xFFFFFFFFFFFFFFF0) turned_away"
  by code_simp

lemma second_draw:
  assumes "x * mult \<ge> 0xFFFFFFFFFFFFFFF0"
  shows "xorshift x * mult < 0xFFFFFFFFFFFFFFF0"
proof -
  have "xorshift (x * mult * mult_inv) * mult < 0xFFFFFFFFFFFFFFF0"
    using turned_away_once turned_away_iff [OF assms] by (simp add: list_all_iff)
  then show ?thesis by (simp only: mult_inv)
qed

text \<open>A state that differs in the generator and in what the machine was asked.\<close>

definition drew :: "panicking \<Rightarrow> panicking \<Rightarrow> bool" where
  "drew s s' \<longleftrightarrow> (\<exists>x t. s' = s\<lparr>xs_state := x, pker := set_plat ((plat (kdev (pker s)))\<lparr>trace := t\<rparr>) (pker s)\<rparr>
     \<and> (\<forall>port. sent port t = sent port (trace (plat (kdev (pker s))))))"

lemma drew_step: "drew s (snd (xorshift64star s))"
proof -
  have "drew s (s\<lparr>xs_state := x\<rparr>)" for x
    by (cases s) (auto simp: drew_def set_plat_def intro!: exI [of _ x] exI [of _ "trace (plat (kdev (pker s)))"])
  moreover have "drew s (s\<lparr>pker := set_plat (emit (RdTsc v) (plat (kdev (pker s)))) (pker s), xs_state := x\<rparr>)" for x v
    by (cases s) (auto simp: drew_def set_plat_def emit_def sent_def
        intro!: exI [of _ x] exI [of _ "trace (plat (kdev (pker s))) @ [RdTsc v]"])
  ultimately show ?thesis
    by (auto simp: xorshift64star_def Let_def read_tsc_eq on_plat_def)
qed

lemma drew_trans: "drew s s1 \<Longrightarrow> drew s1 s2 \<Longrightarrow> drew s s2"
  unfolding drew_def by (elim exE conjE) (intro exI conjI, auto simp: set_plat_def)

lemma draw_61:
  obtains x s' where "draw_below (rand_limit 61) s = Some (x, s')" "drew s s'"
proof -
  obtain x1 s1 where d1: "xorshift64star s = (x1, s1)" by fastforce
  then have k1: "drew s s1" and x1: "x1 = xs_state s1 * mult"
    using drew_step [of s] by (auto simp: xorshift64star_def Let_def mult_def)
  show thesis
  proof (cases "x1 \<ge> rand_limit 61")
    case False
    then show thesis using that [of x1 s1] d1 k1 by (simp add: draw_below.simps [of _ s])
  next
    case True
    obtain x2 s2 where d2: "xorshift64star s1 = (x2, s2)" by fastforce
    have "xs_state s1 \<noteq> 0" using True x1 by (auto simp: rand_limit_61)
    then have "x2 = xorshift (xs_state s1) * mult" using d2 by (auto simp: xorshift64star_def Let_def mult_def)
    then have "x2 < rand_limit 61" using second_draw True x1 by (simp add: rand_limit_61)
    then have "draw_below (rand_limit 61) s = Some (x2, s2)"
      using True d1 d2 by (simp add: draw_below.simps [of _ s] draw_below.simps [of _ s1] not_less [symmetric])
    then show thesis using that [of x2 s2] d2 drew_trans [OF k1] drew_step [of s1] by simp
  qed
qed

lemma mssages_length: "length error_mssages = 61"
  by (simp add: error_mssages_def)

text \<open>The line is found after at most two draws, and it is a line of the table.\<close>

lemma pick_line:
  obtains i s' where "rand_between 0 (int (length error_mssages) - 1) s = Some (int i, s')" "i < length error_mssages" "drew s s'"
proof -
  obtain x s' where d: "draw_below (rand_limit 61) s = Some (x, s')" "drew s s'" by (rule draw_61)
  have "rand_between 0 (int (length error_mssages) - 1) s = Some (rand_value 0 61 x, s')"
    using d(1) by (simp add: rand_between_def mssages_length Let_def)
  moreover have "rand_value 0 61 x = int (unat x mod 61)" using rand_value_eq [of 0 60 x] by simp
  ultimately show thesis using that [of "unat x mod 61" s'] d(2) by (simp add: mssages_length)
qed

section \<open>The console during a panic\<close>

definition panic_ready :: "kernel \<Rightarrow> bool" where
  "panic_ready k \<longleftrightarrow> (serial_works (kdev k) \<longrightarrow> tx_ready (serial_port (kdev k)) (plat (kdev k)) \<and> serial_port (kdev k) \<notin> {0x80, 0xE9, 0x61})"

lemma panic_putc_eq:
  assumes "lock_flag (stdio_spinlock k) = 0" "kcr8 k \<le> 2"
  shows "internal_putc c k = map_option Inr (panic_putc c k)"
proof -
  have same: "(stdio_spinlock k)\<lparr>lock_flag := 0\<rparr> = stdio_spinlock k" using assms by (cases "stdio_spinlock k") simp
  show ?thesis using assms
    by (simp add: internal_putc_def panic_putc_def spinlock_lock_free spinlock_unlock_ok Let_def same set_cr8_def set_plat_def
        split: option.split)
qed

lemma panic_putc_lock:
  "panic_putc c (k\<lparr>stdio_spinlock := l, ksched := s\<rparr>) = map_option (\<lambda>k'. k'\<lparr>stdio_spinlock := l, ksched := s\<rparr>) (panic_putc c k)"
  by (simp add: panic_putc_def Let_def set_plat_def split: option.split)

lemma panic_putc_ready:
  assumes "panic_ready k"
  shows "\<exists>k'. panic_putc c k = Some k' \<and> console_wrote [c] k k'"
proof -
  let ?k = "k\<lparr>stdio_spinlock := (stdio_spinlock k)\<lparr>lock_flag := 0\<rparr>, ksched := (ksched k)\<lparr>cr8 := 0\<rparr>\<rparr>"
  have "console_ready ?k" using assms by (auto simp: console_ready_def panic_ready_def)
  then obtain k1 where k1: "internal_putc c ?k = Some (Inr k1)" "console_wrote [c] ?k k1" using internal_putc_ready by blast
  have "internal_putc c ?k = map_option Inr (panic_putc c ?k)" by (rule panic_putc_eq) simp_all
  then obtain k2 where k2: "panic_putc c k = Some k2"
      "k1 = k2\<lparr>stdio_spinlock := (stdio_spinlock k)\<lparr>lock_flag := 0\<rparr>, ksched := (ksched k)\<lparr>cr8 := 0\<rparr>\<rparr>"
    using k1(1) panic_putc_lock [where k = k and c = c] by (cases "panic_putc c k") auto
  moreover have "stdio_spinlock k2 = stdio_spinlock k" "ksched k2 = ksched k"
    using k2(1) by (auto simp: panic_putc_def Let_def set_plat_def split: if_splits option.splits)
  ultimately show ?thesis using k1(2) by (cases k2, cases k) (auto simp: console_wrote_def)
qed

lemma console_wrote_panic_ready: "console_wrote cs k k' \<Longrightarrow> panic_ready k' = panic_ready k"
  by (auto simp: console_wrote_def panic_ready_def tx_ready_def)

lemma panic_kputs_ready: "panic_ready k \<Longrightarrow> \<exists>k'. panic_kputs cs k = Some k' \<and> console_wrote cs k k'"
proof (induction cs arbitrary: k)
  case (Cons c cs)
  obtain k1 where k1: "panic_putc c k = Some k1" "console_wrote [c] k k1" using panic_putc_ready [OF Cons.prems] by blast
  then obtain k2 where "panic_kputs cs k1 = Some k2" "console_wrote cs k1 k2"
    using Cons console_wrote_panic_ready by blast
  then show ?case using k1 console_wrote_append [of "[c]" k k1 cs k2] by auto
qed (use console_wrote_Nil in simp)

text \<open>
  What a panic does to the kernel until it stops: bytes go to the terminal and to a working
  serial line, the generator and the counter move, and nothing else changes.
\<close>

definition reported :: "u8 list \<Rightarrow> panicking \<Rightarrow> panicking \<Rightarrow> bool" where
  "reported cs s s' \<longleftrightarrow> (\<exists>x n t. s' = s\<lparr>xs_state := x, panic_count := n,
       pker := (pker s)\<lparr>kdev := (kdev (pker s))\<lparr>ft_out := ft_out (kdev (pker s)) @ cs, plat := (plat (kdev (pker s)))\<lparr>trace := t\<rparr>\<rparr>\<rparr>\<rparr>
     \<and> (serial_works (kdev (pker s)) \<and> panic_ready (pker s) \<longrightarrow>
         sent (serial_port (kdev (pker s))) t = sent (serial_port (kdev (pker s))) (trace (plat (kdev (pker s)))) @ crlf cs))"

lemma reported_keeps:
  assumes "reported cs s s'"
  shows "panic_ready (pker s') = panic_ready (pker s)" "kusr (pker s') = kusr (pker s)" "symbols s' = symbols s"
    "klabels (pker s') = klabels (pker s)" "pscreen s' = pscreen s" "stdio_spinlock (pker s') = stdio_spinlock (pker s)"
  using assms by (auto simp: reported_def panic_ready_def tx_ready_def)

lemma reported_trans:
  assumes "reported as s s1" "reported bs s1 s2"
  shows "reported (as @ bs) s s2"
proof -
  have "panic_ready (pker s1) = panic_ready (pker s)" using reported_keeps(1) [OF assms(1)] .
  then show ?thesis using assms unfolding reported_def by (elim exE conjE) (intro exI conjI, auto simp: crlf_def)
qed

lemma drew_reported: "drew s s' \<Longrightarrow> reported [] s s'"
proof -
  assume "drew s s'"
  then obtain x t where s': "s' = s\<lparr>xs_state := x, pker := set_plat ((plat (kdev (pker s)))\<lparr>trace := t\<rparr>) (pker s)\<rparr>"
      and t: "\<forall>port. sent port t = sent port (trace (plat (kdev (pker s))))" by (auto simp: drew_def)
  show ?thesis unfolding reported_def
    by (rule exI [of _ x], rule exI [of _ "panic_count s"], rule exI [of _ t])
      (use t in \<open>cases s; simp add: s' set_plat_def crlf_def\<close>)
qed

lemma panic_printf_ready:
  assumes "panic_ready (pker s)"
  obtains s' where "panic_printf cs s = Some s'" "reported cs s s'" "panic_count s' = panic_count s"
proof -
  obtain k where k: "panic_kputs cs (pker s) = Some k" "console_wrote cs (pker s) k" using panic_kputs_ready [OF assms] by blast
  then obtain t where t: "k = (pker s)\<lparr>kdev := (kdev (pker s))\<lparr>ft_out := ft_out (kdev (pker s)) @ cs, plat := (plat (kdev (pker s)))\<lparr>trace := t\<rparr>\<rparr>\<rparr>"
      "serial_works (kdev (pker s)) \<longrightarrow> sent (serial_port (kdev (pker s))) t = sent (serial_port (kdev (pker s))) (trace (plat (kdev (pker s)))) @ crlf cs"
    by (auto simp: console_wrote_def)
  have "reported cs s (s\<lparr>pker := k\<rparr>)" unfolding reported_def
    by (rule exI [of _ "xs_state s"], rule exI [of _ "panic_count s"], rule exI [of _ t]) (use t in \<open>cases s; simp\<close>)
  then show thesis using that [of "s\<lparr>pker := k\<rparr>"] k(1) by (simp add: panic_printf_def)
qed

lemma stop_sound_trace:
  "\<exists>t. stop_sound (emit Cli h) = h\<lparr>trace := t\<rparr> \<and> (\<forall>port. port \<noteq> 0x61 \<longrightarrow> sent port t = sent port (trace h))"
  by (auto simp: stop_sound_def emit_def inb_def outb_def Let_def sent_def)

lemma start_reported: "reported [] s ((on_plat (\<lambda>h. stop_sound (emit Cli h)) s)\<lparr>panic_count := n\<rparr>)"
proof -
  obtain t where t: "stop_sound (emit Cli (plat (kdev (pker s)))) = (plat (kdev (pker s)))\<lparr>trace := t\<rparr>"
      "\<forall>port. port \<noteq> 0x61 \<longrightarrow> sent port t = sent port (trace (plat (kdev (pker s))))"
    using stop_sound_trace by blast
  show ?thesis unfolding reported_def
    by (rule exI [of _ "xs_state s"], rule exI [of _ n], rule exI [of _ t])
      (use t in \<open>cases s; auto simp: on_plat_def set_plat_def crlf_def panic_ready_def\<close>)
qed

section \<open>The stack trace, frame by frame\<close>

text \<open>
  A chain of frames in memory: where each frame pointer is the end of the chain or points to
  the next one, higher up, and the return address above it.
\<close>

definition chain_ends :: "u64 \<Rightarrow> u64 \<Rightarrow> bool" where
  "chain_ends prev rbp \<longleftrightarrow> rbp = 0 \<or> rbp AND 0xF \<noteq> 0 \<or> rbp < 0x4000 \<or> (prev \<noteq> 0 \<and> rbp \<le> prev)"

primrec stack_frames :: "uspace \<Rightarrow> u64 \<Rightarrow> u64 \<Rightarrow> u64 list \<Rightarrow> bool" where
  "stack_frames u prev rbp [] = chain_ends prev rbp"
| "stack_frames u prev rbp (rip # rips) =
     (\<not> chain_ends prev rbp \<and> (\<forall>i < 16. can_read u (rbp + of_nat i)) \<and> read64 (ubytes u) (rbp + 8) = rip
      \<and> stack_frames u rbp (read64 (ubytes u) rbp) rips)"

definition trace_text :: "symbol list \<Rightarrow> u64 list \<Rightarrow> u8 list" where
  "trace_text ys rips = concat (map (\<lambda>rip. trace_line rip ys) rips)"

lemma first_unreadable_None: "first_unreadable u a = None \<longleftrightarrow> (\<forall>i < 16. can_read u (a + of_nat i))"
  by (auto simp: first_unreadable_def find_None_iff)

lemma backtrace_step:
  "backtrace (Suc n) rbp prev s = (if chain_ends prev rbp then Some (Halted s)
     else (case first_unreadable (kusr (pker s)) rbp of
         Some a \<Rightarrow> Some (Page_faulted a s)
       | None \<Rightarrow> Option.bind (panic_printf (trace_line (read64 (ubytes (kusr (pker s))) (rbp + 8)) (symbols s)) s)
           (backtrace n (read64 (ubytes (kusr (pker s))) rbp) rbp)))"
  by (auto simp: chain_ends_def Let_def split: option.split)

declare backtrace.simps(2) [simp del]

lemma backtrace_frames:
  assumes "panic_ready (pker s)" "stack_frames (kusr (pker s)) prev rbp rips"
  shows "\<exists>s'. backtrace n rbp prev s = Some (Halted s') \<and> reported (trace_text (symbols s) (take n rips)) s s' \<and> panic_count s' = panic_count s"
  using assms
proof (induction n arbitrary: rbp prev s rips)
  case 0
  obtain s' where "panic_printf [] s = Some s'" "reported [] s s'" by (rule panic_printf_ready [OF 0(1), of "[]"])
  then show ?case by (simp add: panic_printf_def trace_text_def)
next
  case (Suc n)
  show ?case
  proof (cases rips)
    case Nil
    obtain s' where "panic_printf [] s = Some s'" "reported [] s s'" by (rule panic_printf_ready [OF Suc.prems(1), of "[]"])
    then show ?thesis using Nil Suc.prems(2) by (simp add: panic_printf_def trace_text_def backtrace_step)
  next
    case (Cons rip rs)
    obtain s1 where s1: "panic_printf (trace_line rip (symbols s)) s = Some s1" "reported (trace_line rip (symbols s)) s s1"
        "panic_count s1 = panic_count s"
      by (rule panic_printf_ready [OF Suc.prems(1)])
    note k = reported_keeps [OF s1(2)]
    have "stack_frames (kusr (pker s1)) rbp (read64 (ubytes (kusr (pker s))) rbp) rs" using Suc.prems(2) Cons k(2) by simp
    then obtain s2 where s2: "backtrace n (read64 (ubytes (kusr (pker s))) rbp) rbp s1 = Some (Halted s2)"
        "reported (trace_text (symbols s1) (take n rs)) s1 s2" "panic_count s2 = panic_count s1"
      using Suc.IH [of s1] k(1) Suc.prems(1) by blast
    have "first_unreadable (kusr (pker s)) rbp = None" using Suc.prems(2) Cons by (simp add: first_unreadable_None)
    then have "backtrace (Suc n) rbp prev s = Some (Halted s2)" using Suc.prems(2) Cons s1(1) s2(1) by (simp add: backtrace_step)
    then show ?thesis using reported_trans [OF s1(2) s2(2)] Cons k(3) s1(3) s2(3) by (simp add: trace_text_def)
  qed
qed

text \<open>Whatever the memory holds, the walk ends, or reaches an address that cannot be read.\<close>

lemma backtrace_ends:
  assumes "panic_ready (pker s)"
  shows "\<exists>cs s'. (backtrace n rbp prev s = Some (Halted s') \<or> (\<exists>a. backtrace n rbp prev s = Some (Page_faulted a s')))
    \<and> reported cs s s' \<and> panic_count s' = panic_count s"
  using assms
proof (induction n arbitrary: rbp prev s)
  case 0
  obtain s' where "panic_printf [] s = Some s'" "reported [] s s'" by (rule panic_printf_ready [OF 0, of "[]"])
  then show ?case by (auto simp: panic_printf_def)
next
  case (Suc n)
  obtain s0 where s0: "panic_printf [] s = Some s0" "reported [] s s0" by (rule panic_printf_ready [OF Suc.prems, of "[]"])
  then have refl: "reported [] s s" by (simp add: panic_printf_def)
  let ?l = "trace_line (read64 (ubytes (kusr (pker s))) (rbp + 8)) (symbols s)"
  obtain s1 where s1: "panic_printf ?l s = Some s1" "reported ?l s s1" "panic_count s1 = panic_count s"
    by (rule panic_printf_ready [OF Suc.prems])
  obtain cs s2 where s2: "backtrace n (read64 (ubytes (kusr (pker s))) rbp) rbp s1 = Some (Halted s2)
        \<or> (\<exists>a. backtrace n (read64 (ubytes (kusr (pker s))) rbp) rbp s1 = Some (Page_faulted a s2))"
      "reported cs s1 s2" "panic_count s2 = panic_count s1"
    using Suc.IH [of s1] Suc.prems reported_keeps(1) [OF s1(2)] by blast
  show ?case
  proof (cases "chain_ends prev rbp \<or> first_unreadable (kusr (pker s)) rbp \<noteq> None")
    case True
    then show ?thesis using refl by (auto simp: backtrace_step)
  next
    case False
    then have "backtrace (Suc n) rbp prev s = backtrace n (read64 (ubytes (kusr (pker s))) rbp) rbp s1" using s1(1) by (simp add: backtrace_step)
    then show ?thesis using s2 s1(3) reported_trans [OF s1(2) s2(2)] by metis
  qed
qed

section \<open>The first panic\<close>

definition report_start :: "nat \<Rightarrow> u8 list \<Rightarrow> interrupt_frame \<Rightarrow> panic_regs \<Rightarrow> symbol list \<Rightarrow> u8 list" where
  "report_start i message frame r ys =
     colour ''100;93;232'' @ bytes_of (error_mssages ! i) @ plain @ [10]
     @ colour ''255;48;48'' @ message @ plain @ [10]
     @ general_text frame @ frame_text frame @ control_text r @ misc_text r
     @ fault_line frame ys"

lemma panic_start:
  assumes "panic_count s = 0" "panic_ready (pker s)"
  obtains i s6 where "i < length error_mssages" "reported (report_start i message frame r (symbols s)) s s6" "panic_count s6 = 1"
    "panic_interrupt_frame r message frame s = Option.bind (backtrace 64 (r_rbp r) 0 s6) (\<lambda>e. case e of
        Page_faulted a s7 \<Rightarrow> Some (Page_faulted a s7)
      | Halted s7 \<Rightarrow> map_option Halted (panic_printf closing_text s7))"
proof -
  define s1 where "s1 = (on_plat (\<lambda>h. stop_sound (emit Cli h)) s)\<lparr>panic_count := 1\<rparr>"
  have r1: "reported [] s s1" unfolding s1_def by (rule start_reported)
  obtain i s2 where i: "rand_between 0 (int (length error_mssages) - 1) s1 = Some (int i, s2)" "i < length error_mssages" "drew s1 s2"
    by (rule pick_line)
  have r2: "reported [] s s2" using reported_trans [OF r1 drew_reported [OF i(3)]] by simp
  have c2: "panic_count s2 = 1" using i(3) by (auto simp: drew_def s1_def)
  note rdy = assms(2)
  obtain s3 where s3: "panic_printf (colour ''100;93;232'' @ bytes_of (error_mssages ! i) @ plain @ [10]) s2 = Some s3"
      "reported (colour ''100;93;232'' @ bytes_of (error_mssages ! i) @ plain @ [10]) s2 s3" "panic_count s3 = panic_count s2"
    by (rule panic_printf_ready [of s2]) (use reported_keeps(1) [OF r2] rdy in auto)
  note r3 = reported_trans [OF r2 s3(2)]
  obtain s4 where s4: "panic_printf (colour ''255;48;48'' @ message @ plain @ [10]) s3 = Some s4"
      "reported (colour ''255;48;48'' @ message @ plain @ [10]) s3 s4" "panic_count s4 = panic_count s3"
    by (rule panic_printf_ready [of s3]) (use reported_keeps(1) [OF r3] rdy in auto)
  note r4 = reported_trans [OF r3 s4(2)]
  let ?t = "general_text frame @ frame_text frame @ control_text r @ misc_text r"
  obtain s5 where s5: "panic_printf ?t s4 = Some s5" "reported ?t s4 s5" "panic_count s5 = panic_count s4"
    by (rule panic_printf_ready [of s4]) (use reported_keeps(1) [OF r4] rdy in auto)
  note r5 = reported_trans [OF r4 s5(2)]
  have y: "symbols s5 = symbols s" using reported_keeps(3) [OF r5] .
  obtain s6 where s6: "panic_printf (fault_line frame (symbols s)) s5 = Some s6" "reported (fault_line frame (symbols s)) s5 s6"
      "panic_count s6 = panic_count s5"
    by (rule panic_printf_ready [of s5]) (use reported_keeps(1) [OF r5] rdy in auto)
  have "reported (report_start i message frame r (symbols s)) s s6"
    using reported_trans [OF r5 s6(2)] by (simp add: report_start_def)
  moreover have "(on_plat (\<lambda>h. stop_sound (emit Cli h)) s)\<lparr>panic_count := 0 + 1\<rparr> = s1"
    by (simp add: s1_def)
  then have "panic_interrupt_frame r message frame s = Option.bind (backtrace 64 (r_rbp r) 0 s6) (\<lambda>e. case e of
        Page_faulted a s7 \<Rightarrow> Some (Page_faulted a s7)
      | Halted s7 \<Rightarrow> map_option Halted (panic_printf closing_text s7))"
    using assms(1) i(1) s3(1) s4(1) s5(1) s6(1) y
    by (simp add: panic_interrupt_frame_def Let_def on_plat_def del: append.simps)
  ultimately show thesis using that i(2) s3(3) s4(3) s5(3) s6(3) c2 by simp
qed


section \<open>The second panic\<close>

abbreviation ascii :: "u8 list \<Rightarrow> bool" where "ascii cs \<equiv> list_all (\<lambda>c. unat c < 128) cs"

lemma printString_ascii: "ascii cs \<Longrightarrow> \<exists>f'. printString cs x y f = Some f'"
  by (induction cs arbitrary: x f) (simp_all add: printChar_def font_length)

lemma ascii_bytes_of: "list_all (\<lambda>c. (of_char c :: nat) < 128) m \<Longrightarrow> ascii (bytes_of m)"
proof -
  have "unat (of_nat n :: u8) < 128" if "n < 128" for n :: nat
    using that by (simp add: unsigned_of_nat take_bit_nat_eq_self)
  then show "list_all (\<lambda>c. (of_char c :: nat) < 128) m \<Longrightarrow> ascii (bytes_of m)"
    by (simp add: bytes_of_def list_all_iff)
qed

lemma nibble: "unat (d AND 0xF :: u64) < 16"
proof -
  have "d AND 0xF = take_bit 4 d" by (simp add: take_bit_eq_mask mask_eq_exp_minus_1)
  then show ?thesis by (simp only: unsigned_take_bit_eq) (simp add: take_bit_eq_mod)
qed

lemma ascii_hex_digit: "(of_char (hex_digit d) :: nat) < 128"
proof -
  have "list_all (\<lambda>c. (of_char c :: nat) < 128) ''0123456789abcdef''" by simp
  then show ?thesis unfolding hex_digit_def using nibble [of d] by (simp only: list_all_length) simp
qed

lemma ascii_hex_min: "ascii (hex_min v)"
proof (induction v rule: hex_min.induct)
  case (1 v)
  have "ascii (bytes_of ''0123456789abcdef'')" by (rule ascii_bytes_of) simp
  moreover have "length (bytes_of ''0123456789abcdef'') = 16" by (simp add: bytes_of_def)
  ultimately have "unat (hex_low v) < 128" unfolding hex_low_def using nibble [of v] by (simp only: list_all_length)
  then show ?case using 1 by (subst hex_min.simps) simp
qed

text \<open>A second panic whose message the font can show stops with the picture on the screen; the console is not used.\<close>

lemma panic_paniced_stops:
  assumes "0 < panic_count s" "ascii message"
  shows "\<exists>f. panic_interrupt_frame r message frame s
    = Some (Halted ((on_plat (\<lambda>h. stop_sound (emit Cli h)) s)\<lparr>pscreen := f\<rparr>))"
proof -
  let ?s = "on_plat (\<lambda>h. stop_sound (emit Cli h)) s"
  have c: "0 < panic_count ?s" using assms(1) by (simp add: on_plat_def)
  have "ascii (bytes_of ''The kernel is fucked 2: Electric Boogaloo (Panic Paniced)'')" by (rule ascii_bytes_of) simp
  then have "\<exists>f'. printString (bytes_of ''The kernel is fucked 2: Electric Boogaloo (Panic Paniced)'') 0 0 f = Some f'" for f
    by (rule printString_ascii)
  moreover have "\<exists>f'. printString message 100 100 f = Some f'" for f using assms(2) by (rule printString_ascii)
  moreover have "\<exists>f'. printString (hex_min (if_ip frame)) 300 300 f = Some f'" for f by (rule printString_ascii [OF ascii_hex_min])
  ultimately have "\<exists>f. panic_paniced message frame ?s = Some (Halted (?s\<lparr>pscreen := f\<rparr>))"
    unfolding panic_paniced_def Let_def by (metis Option.bind.bind_lunit)
  then show ?thesis using c by (simp add: panic_interrupt_frame_def Let_def)
qed

text \<open>A page fault outside the copy routines asks for a panic with a text the font can show.\<close>

definition kernel_fault :: "safe_labels \<Rightarrow> interrupt_frame \<Rightarrow> bool" where
  "kernel_fault y f \<longleftrightarrow> if_vector f = 0x0E \<and> \<not> (memcpy_start y \<le> if_ip f \<and> if_ip f < memcpy_end y)
     \<and> \<not> (strlen_start y \<le> if_ip f \<and> if_ip f < strlen_end y)"

lemma page_fault_text:
  assumes "kernel_fault y f"
  obtains m where "page_fault_isr y c f = Inl (Panic m)" "ascii (bytes_of m)"
proof -
  have "list_all (\<lambda>c. (of_char c :: nat) < 128) (hex16 c)" by (simp add: hex16_def list_all_iff ascii_hex_digit)
  then have "\<exists>m. page_fault_isr y c f = Inl (Panic m) \<and> list_all (\<lambda>c. (of_char c :: nat) < 128) m"
    using assms by (simp add: page_fault_isr_def fault_handle_safe_funcs_def kernel_fault_def Let_def)
  then show thesis using that ascii_bytes_of by blast
qed

lemma dispatch_fault:
  assumes "kernel_fault (klabels k) f"
  obtains m where "dispatch_interupt env f k = Some (Inl (Panic m))" "ascii (bytes_of m)"
proof -
  obtain m where m: "page_fault_isr (klabels k) (kcr2 k) f = Inl (Panic m)" "ascii (bytes_of m)"
    by (rule page_fault_text [OF assms])
  have v: "if_vector f = 0x0E" using assms by (simp add: kernel_fault_def)
  then have "dispatch_case e f (set_plat h (user_entry f k)) = Some (Inl (Panic m))" for e h
    using m(1) by (simp add: dispatch_case_def Let_def kernel_simps)
  then have "dispatch_interupt env f k = Some (Inl (Panic m))"
    using v by (simp add: dispatch_interupt_def Let_def vector_irql_def IRQL_DISPATCH_def)
  then show thesis using that m(2) by blast
qed


section \<open>The picture\<close>

lemma plots_line:
  "plots (fold (\<lambda>dx. plotPixel (x + int dx) y c) [0..<n]) (\<lambda>px py. if py = y \<and> x \<le> px \<and> px < x + int n then Some c else None)"
proof -
  let ?p = "\<lambda>dx px py. if (px, py) = (x + int dx, y) then Some c else None"
  have "plots (fold (\<lambda>dx. plotPixel (x + int dx) y c) [0..<n]) (\<lambda>px py. fold (\<lambda>i r. case ?p i px py of Some c \<Rightarrow> Some c | None \<Rightarrow> r) [0..<n] None)"
    by (rule plots_fold [OF plots_pixel])
  moreover have "fold (\<lambda>i r. case ?p i px py of Some c \<Rightarrow> Some c | None \<Rightarrow> r) [0..<n] None
    = (if py = y \<and> x \<le> px \<and> px < x + int n then Some c else None)" for px py
    by (subst fold_one [where k = "nat (px - x)"]) auto
  ultimately show ?thesis by simp
qed

lemma plots_block:
  "plots (draw_block c x y sx sy) (\<lambda>px py. if x \<le> px \<and> px < x + sx \<and> y \<le> py \<and> py < y + sy then Some c else None)"
proof -
  let ?p = "\<lambda>dy px py. if py = y + int dy \<and> x \<le> px \<and> px < x + int (nat sx) then Some c else None"
  have "plots (draw_block c x y sx sy) (\<lambda>px py. fold (\<lambda>i r. case ?p i px py of Some c \<Rightarrow> Some c | None \<Rightarrow> r) [0..<nat sy] None)"
    unfolding draw_block_def by (rule plots_fold [OF plots_line])
  moreover have "fold (\<lambda>i r. case ?p i px py of Some c \<Rightarrow> Some c | None \<Rightarrow> r) [0..<nat sy] None
    = (if x \<le> px \<and> px < x + sx \<and> y \<le> py \<and> py < y + sy then Some c else None)" for px py
    by (subst fold_one [where k = "nat (py - y)"]) auto
  ultimately show ?thesis by simp
qed

text \<open>The cell of a scaled grid a coordinate falls into.\<close>

lemma div_less_pos: "0 < s \<Longrightarrow> d div s < w \<longleftrightarrow> d < w * s" for d s w :: int
proof -
  assume s: "0 < s"
  have d: "d = d div s * s + d mod s" "0 \<le> d mod s" "d mod s < s" using s by simp_all
  show ?thesis
  proof
    assume "d div s < w"
    then have "(d div s + 1) * s \<le> w * s" using s by (intro mult_right_mono) auto
    then have "d div s * s + s \<le> w * s" by (simp add: distrib_right)
    then show "d < w * s" using d by linarith
  next
    assume lt: "d < w * s"
    show "d div s < w"
    proof (rule ccontr)
      assume "\<not> d div s < w"
      then have "w * s \<le> d div s * s" using s by (intro mult_right_mono) auto
      then show False using d lt by linarith
    qed
  qed
qed

lemma cell_iff: "0 < s \<Longrightarrow> i * s \<le> d \<and> d < i * s + s \<longleftrightarrow> d div s = i" for d i s :: int
  using div_less_pos [of s d i] div_less_pos [of s d "i + 1"] by (auto simp: algebra_simps)

lemma plots_image:
  assumes "0 < sx" "0 < sy"
  shows "plots (drawImage img w h x0 y0 sx sy) (\<lambda>px py. if x0 \<le> px \<and> px < x0 + w * sx \<and> y0 \<le> py \<and> py < y0 + h * sy
     then Some (img ! nat ((py - y0) div sy * w + (px - x0) div sx)) else None)"
proof -
  define X where "X px = (px - x0) div sx" for px
  define Y where "Y py = (py - y0) div sy" for py
  let ?b = "\<lambda>y x px py. if X px = int x \<and> Y py = int y then Some (img ! nat (int y * w + int x)) else None"
  let ?r = "\<lambda>y px py. if 0 \<le> X px \<and> X px < w \<and> Y py = int y then Some (img ! nat (int y * w + X px)) else None"
  have cx: "X px = int x \<longleftrightarrow> x0 + int x * sx \<le> px \<and> px < x0 + int x * sx + sx" for px x
    using cell_iff [OF assms(1), of "int x" "px - x0"] by (auto simp: X_def)
  have cy: "Y py = int y \<longleftrightarrow> y0 + int y * sy \<le> py \<and> py < y0 + int y * sy + sy" for py y
    using cell_iff [OF assms(2), of "int y" "py - y0"] by (auto simp: Y_def)
  have dx: "x0 \<le> px \<and> px < x0 + w * sx \<longleftrightarrow> 0 \<le> X px \<and> X px < w" for px
    using assms(1) by (auto simp: X_def pos_imp_zdiv_nonneg_iff div_less_pos)
  have dy: "y0 \<le> py \<and> py < y0 + h * sy \<longleftrightarrow> 0 \<le> Y py \<and> Y py < h" for py
    using assms(2) by (auto simp: Y_def pos_imp_zdiv_nonneg_iff div_less_pos)
  have row: "fold (\<lambda>x r. case ?b y x px py of Some c \<Rightarrow> Some c | None \<Rightarrow> r) [0..<nat w] None = ?r y px py" for y px py
    by (subst fold_one [where k = "nat (X px)"]) auto
  have blk: "plots (draw_block (img ! nat (int y * w + int x)) (x0 + int x * sx) (y0 + int y * sy) sx sy) (?b y x)" for y x
    using plots_block [of "img ! nat (int y * w + int x)" "x0 + int x * sx" "y0 + int y * sy" sx sy] by (simp only: cx cy conj_assoc)
  have "plots (fold (\<lambda>x. draw_block (img ! nat (int y * w + int x)) (x0 + int x * sx) (y0 + int y * sy) sx sy) [0..<nat w]) (?r y)" for y
    unfolding row [symmetric] by (rule plots_fold) (rule blk)
  then have "plots (drawImage img w h x0 y0 sx sy) (\<lambda>px py. fold (\<lambda>y r. case ?r y px py of Some c \<Rightarrow> Some c | None \<Rightarrow> r) [0..<nat h] None)"
    unfolding drawImage_def Let_def using assms plots_fold [of "[0..<nat h]" _ ?r] by simp
  moreover have "fold (\<lambda>y r. case ?r y px py of Some c \<Rightarrow> Some c | None \<Rightarrow> r) [0..<nat h] None
    = (if 0 \<le> X px \<and> X px < w \<and> 0 \<le> Y py \<and> Y py < h then Some (img ! nat (Y py * w + X px)) else None)" for px py
    by (subst fold_one [where k = "nat (Y py)"]) auto
  moreover have "(x0 \<le> px \<and> px < x0 + w * sx \<and> y0 \<le> py \<and> py < y0 + h * sy) = (0 \<le> X px \<and> X px < w \<and> 0 \<le> Y py \<and> Y py < h)" for px py
    using dx [of px] dy [of py] by auto
  ultimately show ?thesis unfolding X_def [symmetric] Y_def [symmetric] by (simp only:)
qed

text \<open>A text touches its own eight rows of pixels only.\<close>

lemma printString_rows:
  assumes "printString cs x y f = Some f'"
  shows "FB_WIDTH f' = FB_WIDTH f \<and> FB_HEIGHT f' = FB_HEIGHT f \<and> fb_pitch f' = fb_pitch f
    \<and> (fb_ok f \<and> on_screen f px py \<and> \<not> (y \<le> py \<and> py < y + 8) \<longrightarrow> pixel f' px py = pixel f px py)"
  using assms
proof (induction cs arbitrary: x f)
  case (Cons c cs)
  then obtain f1 where f1: "printChar c x y f = Some f1" "printString cs (x + 8) y f1 = Some f'" by (auto simp: bind_eq_Some_conv)
  let ?d = "fold (\<lambda>row. print_row (font8x8_basic ! unat c ! row) x (y + int row)) [0..<8]"
  have "f1 = ?d f" using f1(1) by (auto simp: printChar_def FONT_HEIGHT_def split: if_splits)
  note g = plotsD [OF plots_char [of "font8x8_basic ! unat c" x y], of f, folded this]
  have "fb_ok f1 = fb_ok f" "on_screen f1 px py = on_screen f px py" using g(1-3) by (simp_all add: fb_ok_def on_screen_def)
  then show ?case using Cons.IH [OF f1(2)] g by auto
qed simp

text \<open>
  The screen after a second panic: outside the rows of the three texts it shows the picture,
  enlarged as often as it fits, and what was there before beyond it.
\<close>

theorem panic_paniced_picture:
  assumes "0 < panic_count s" and "panic_interrupt_frame r message frame s = Some (Halted s')"
    and "fb_ok (pscreen s)" and "on_screen (pscreen s) px py"
    and "py \<notin> {0..<8} \<union> {100..<108} \<union> {300..<308}"
    and "sx = max 1 (FB_WIDTH (pscreen s) div 32)" and "sy = max 1 (FB_HEIGHT (pscreen s) div 18)"
  shows "pixel (pscreen s') px py =
    (if px < 32 * sx \<and> py < 18 * sy then kernel_panic_image ! nat (py div sy * 32 + px div sx) else pixel (pscreen s) px py)"
proof -
  define f1 where "f1 = drawImage kernel_panic_image 32 18 0 0 sx sy (pscreen s)"
  have pos: "0 < sx" "0 < sy" using assms(6,7) by simp_all
  note g = plotsD [OF plots_image [OF pos, of kernel_panic_image 32 18 0 0], of "pscreen s", folded f1_def]
  have scr: "pscreen (on_plat p s) = pscreen s" "panic_count (on_plat p s) = panic_count s" for p by (simp_all add: on_plat_def)
  have scale: "(if FB_WIDTH (pscreen s) div 32 < 1 then 1 else FB_WIDTH (pscreen s) div 32) = sx"
      "(if FB_HEIGHT (pscreen s) div 18 < 1 then 1 else FB_HEIGHT (pscreen s) div 18) = sy"
    using assms(6,7) by (simp_all add: max_def)
  obtain f2 f3 where f: "printString (bytes_of ''The kernel is fucked 2: Electric Boogaloo (Panic Paniced)'') 0 0 f1 = Some f2"
      "printString message 100 100 f2 = Some f3" "printString (hex_min (if_ip frame)) 300 300 f3 = Some (pscreen s')"
    using assms(1,2)
    by (auto simp: panic_interrupt_frame_def panic_paniced_def Let_def scr kernel_panic_image_data_width_def
        kernel_panic_image_data_height_def scale f1_def bind_eq_Some_conv)
  have ok: "fb_ok f1" "on_screen f1 px py" using assms(3,4) g(1-3) by (simp_all add: fb_ok_def on_screen_def)
  have ok2: "fb_ok f2" "on_screen f2 px py" "fb_ok f3" "on_screen f3 px py"
    using ok printString_rows [OF f(1)] printString_rows [OF f(2)] by (simp_all add: fb_ok_def on_screen_def)
  have "pixel (pscreen s') px py = pixel f1 px py"
    using printString_rows [OF f(1)] printString_rows [OF f(2)] printString_rows [OF f(3)] ok ok2 assms(5) by auto
  also have "\<dots> = (if px < 32 * sx \<and> py < 18 * sy then kernel_panic_image ! nat (py div sy * 32 + px div sx) else pixel (pscreen s) px py)"
    using g(4) [OF assms(3,4)] assms(4) by (auto simp: on_screen_def)
  finally show ?thesis .
qed

section \<open>Witnesses\<close>

text \<open>A kernel that panics with the console lock held, on a stack of two frames.\<close>

definition demo_stack :: mem where
  "demo_stack = write64 (write64 (write64 (write64 (\<lambda>_. 0) 0xFFFF800000008000 0xFFFF800000009000) 0xFFFF800000008008 0xFFFFFFFF80001234)
     0xFFFF800000009000 0) 0xFFFF800000009008 0xFFFFFFFF80005678"

definition demo_panic :: panicking where
  "demo_panic = \<lparr>pker = demo_kernel\<lparr>stdio_spinlock := spinlock_init\<lparr>lock_flag := 1\<rparr>, kusr := demo_uspace\<lparr>ubytes := demo_stack\<rparr>,
       kdev := demo_devices\<lparr>serial_works := False\<rparr>\<rparr>,
     panic_count = 0, xs_state = 0, symbols = [\<lparr>sym_name = bytes_of ''kmain'', sym_address = 0xFFFFFFFF80001000, sym_size = 0x1000\<rparr>],
     pscreen = demo_fb\<rparr>"

definition demo_regs :: "u64 \<Rightarrow> panic_regs" where
  "demo_regs rbp = \<lparr>r_cr0 = 0x80000011, r_cr2 = 0, r_cr3 = 0x1000, r_cr4 = 0x20, r_cr8 = 0, gdtr_base = 0, gdtr_limit = 63, idtr_base = 0,
     idtr_limit = 4095, r_ldt = 0, r_tr = 0x30, r_rbp = rbp\<rparr>"

lemma demo_panic_state: "panic_count demo_panic = 0" "panic_ready (pker demo_panic)"
  by (simp_all add: demo_panic_def panic_ready_def)

lemma demo_stack_frames: "stack_frames (kusr (pker demo_panic)) 0 0xFFFF800000008000 [0xFFFFFFFF80001234, 0xFFFFFFFF80005678]"
proof -
  have rd: "can_read (kusr (pker demo_panic)) (a + of_nat i)" if "i < 16" "a \<in> {0xFFFF800000008000, 0xFFFF800000009000}" for i a
  proof -
    have "unat (a + of_nat i :: u64) = unat a + i" using that by (subst unat_add_no_wrap) (auto simp: unat_of_nat64)
    then have "\<not> a + of_nat i < USER_TOP" using that by (auto simp: word_less_nat_alt USER_TOP_def)
    then show ?thesis by (simp add: can_read_def demo_panic_def demo_kernel_def demo_uspace_def)
  qed
  have mem: "ubytes (kusr (pker demo_panic)) = demo_stack" by (simp add: demo_panic_def)
  have "read64 demo_stack 0xFFFF800000008000 = 0xFFFF800000009000" "read64 demo_stack 0xFFFF800000008008 = 0xFFFFFFFF80001234"
    "read64 demo_stack 0xFFFF800000009000 = 0" "read64 demo_stack 0xFFFF800000009008 = 0xFFFFFFFF80005678"
    by (simp_all add: demo_stack_def mem_simps)
  then show ?thesis using rd by (simp add: mem chain_ends_def)
qed



theorem panic_paniced_picture_witness:
  "\<exists>s'. panic_interrupt_frame (demo_regs 0) (bytes_of ''again'') demo_frame (demo_panic\<lparr>panic_count := 1\<rparr>) = Some (Halted s')
    \<and> pixel (pscreen s') 20 12 = kernel_panic_image ! nat (12 * 32 + 20)"
proof -
  let ?s = "demo_panic\<lparr>panic_count := 1\<rparr>"
  have "0 < panic_count ?s" "ascii (bytes_of ''again'')" by (simp, rule ascii_bytes_of, simp)
  then obtain s' where s': "panic_interrupt_frame (demo_regs 0) (bytes_of ''again'') demo_frame ?s = Some (Halted s')"
    using panic_paniced_stops by blast
  have "fb_ok (pscreen ?s)" "on_screen (pscreen ?s) 20 12" "(12 :: int) \<notin> {0..<8} \<union> {100..<108} \<union> {300..<308}"
    "(1 :: int) = max 1 (FB_WIDTH (pscreen ?s) div 32)" "(1 :: int) = max 1 (FB_HEIGHT (pscreen ?s) div 18)"
    by (simp_all add: demo_panic_def fb_ok_def on_screen_def demo_fb_def)
  from panic_paniced_picture [OF _ s' this] have "pixel (pscreen s') 20 12 = kernel_panic_image ! nat (12 * 32 + 20)" by simp
  then show ?thesis using s' by blast
qed

end
