(* ===== verification/Kernel_Memory.thy ===== *)
theory Kernel_Memory
  imports Libc_Stdlib
begin

text \<open>
  The allocators together. The slab heap, the page tables and the pages of large blocks all live
  in frames of the physical allocator; this theory joins their invariants and shows what
  \<open>malloc\<close> does for requests beyond a page's slabs: it reserves addresses, takes frames, maps
  them, and disturbs nothing that was in use.
\<close>

section \<open>Frames that are left alone\<close>

definition frame_kept :: "pmm \<Rightarrow> pmm \<Rightarrow> u64 \<Rightarrow> bool" where
  "frame_kept s s' n \<longleftrightarrow> used_table s' n \<and> (\<forall>j. unat j < 512 \<longrightarrow> pte s' n j = pte s n j)"

lemma heap_rel_kept:
  assumes h: "heap_rel s cs S F" and inv: "pmm_inv s'"
    and kept: "\<And>i p. i < length cs \<Longrightarrow> p \<in> set (S i) \<Longrightarrow> frame_kept s s' p"
  shows "heap_rel s' cs S F"
  unfolding heap_rel_def
proof (intro conjI allI impI ballI)
  fix i assume i: "i < length cs"
  show "sc_size (cs ! i) = of_nat (8 * wid i)" "S i \<noteq> []" "distinct (S i)" using heap_relD(7-9) [OF h i] by simp_all
  have "pte s' q 0 = pte s q 0" if "q \<in> set (S i)" for q using kept [OF i that] by (simp add: frame_kept_def)
  then show "bm.chain (kmem s') (sc_slabs (cs ! i)) (S i) 0" using slab_chain_cong [of "S i" s' s] heap_relD(3) [OF h i] by simp
  fix p assume p: "p \<in> set (S i)"
  show "used_table s' p" using kept [OF i p] by (simp add: frame_kept_def)
  show "slab_ok s' p (wid i) (F p)"
    by (rule slab_ok_cong [OF heap_relD(2) [OF h i] _ heap_relD(5) [OF h i p]]) (use kept [OF i p] in \<open>simp add: frame_kept_def\<close>)
qed (use h inv in \<open>auto simp: heap_rel_def\<close>)

text \<open>
  A change of the page tables under \<open>pml4\<close> that only adds: frames in use stay in use, those that are
  no tables keep their contents.
\<close>

definition vm_grew :: "pmm \<Rightarrow> u64 \<Rightarrow> pmm \<Rightarrow> bool" where
  "vm_grew s pml4 s' \<longleftrightarrow> pt_inv s' pml4 \<and> pmm_layout s' = pmm_layout s
     \<and> (\<forall>n. used_table s n \<longrightarrow> used_table s' n) \<and> (\<forall>n. apart s pml4 n \<longrightarrow> apart s' pml4 n \<and> frame_kept s s' n)
     \<and> (\<forall>p. good_path p \<longrightarrow> walk_clear s' pml4 p = walk_clear s pml4 p)"

lemma vm_grew_refl: "pt_inv s pml4 \<Longrightarrow> vm_grew s pml4 s"
  by (simp add: vm_grew_def frame_kept_def apart_def)

lemma vm_grew_trans: "vm_grew s pml4 s1 \<Longrightarrow> vm_grew s1 pml4 s2 \<Longrightarrow> vm_grew s pml4 s2"
  by (simp add: vm_grew_def frame_kept_def)

lemma vm_grew_offset: "vm_grew s pml4 s' \<Longrightarrow> hhdmOffset s' = hhdmOffset s"
  using layout_nth(3) [of s' s] by (simp add: vm_grew_def)

text \<open>The same but for the frames of \<open>P\<close>, which may change; nothing is mapped or unmapped.\<close>

definition vm_grew_off :: "u64 set \<Rightarrow> pmm \<Rightarrow> u64 \<Rightarrow> pmm \<Rightarrow> bool" where
  "vm_grew_off P s pml4 s' \<longleftrightarrow> pt_inv s' pml4 \<and> pmm_layout s' = pmm_layout s
     \<and> (\<forall>n. used_table s n \<longrightarrow> used_table s' n) \<and> (\<forall>n. apart s pml4 n \<longrightarrow> apart s' pml4 n \<and> (n \<notin> P \<longrightarrow> frame_kept s s' n))
     \<and> (\<forall>p. good_path p \<longrightarrow> walk_clear s' pml4 p = walk_clear s pml4 p)
     \<and> (\<forall>va. translate s' pml4 va = translate s pml4 va)"

text \<open>
  Whatever else happens, page tables whose frames stay in use with their contents map as before.
\<close>

lemma tables_kept:
  assumes inv: "pt_inv s pml4" and inv': "pmm_inv s'" and lay: "pmm_layout s' = pmm_layout s"
    and tab: "\<And>p t. good_path p \<Longrightarrow> walk s pml4 p = Some t \<Longrightarrow> frame_kept s s' t"
  shows "pt_inv s' pml4" and "good_path p \<Longrightarrow> walk s' pml4 p = walk s pml4 p"
    and "good_path p \<Longrightarrow> walk_clear s' pml4 p = walk_clear s pml4 p" and "translate s' pml4 va = translate s pml4 va"
proof -
  have keep: "pte s' t j = pte s t j" if "good_path p" "walk s pml4 p = Some t" "unat j < 512" for p t j
    using tab [OF that(1,2)] that(3) by (simp add: frame_kept_def)
  have w: "walk s' pml4 p = walk s pml4 p" if p: "good_path p" for p
  proof (rule walk_cong [OF layout_nth(3) [OF lay]])
    fix q i r t assume q: "p = q @ i # r" "walk s pml4 q = Some t"
    have "good_path q" "unat i < 512" using p q(1) by (auto simp: good_path_def)
    then show "pte s' t i = pte s t i" using keep q(2) by blast
  qed
  then show "good_path p \<Longrightarrow> walk s' pml4 p = walk s pml4 p" .
  show "pt_inv s' pml4"
    unfolding pt_inv_def
  proof (intro conjI)
    show "\<forall>ct \<in> set (child_tables s'). unat (ct_end ct) \<le> 2 ^ 52"
      using inv layout_nth(1,2) [OF lay] unfolding pt_inv_def all_set_conv_all_nth by metis
  qed (use inv' w tab pt_invD(3) [OF inv] in \<open>auto simp: frame_kept_def\<close>)
  show "good_path p \<Longrightarrow> walk_clear s' pml4 p = walk_clear s pml4 p"
  proof -
    assume p: "good_path p"
    have "walk s' pml4 q = walk s pml4 q \<and> (walk s pml4 q = Some t \<longrightarrow> pte s' t i = pte s t i)" if "p = q @ i # r" for q i r t
    proof -
      have "good_path q" "unat i < 512" using p that by (auto simp: good_path_def)
      then show ?thesis using w keep by blast
    qed
    then show ?thesis unfolding walk_clear_def by metis
  qed
  have "pte s' t (pml1i va) = pte s t (pml1i va)" if "walk s pml4 (va_path va) = Some t" for t using keep [OF _ that] by simp
  then show "translate s' pml4 va = translate s pml4 va" using w [of "va_path va"] by (auto simp: translate_def split: option.split)
qed

text \<open>A new frame: it is none of the tables, and they are as before.\<close>

lemma page_new_grew:
  assumes inv: "pt_inv s pml4" and nw: "page_new s n s'"
  shows "vm_grew s pml4 s'" and "apart s' pml4 n" and "translate s' pml4 va = translate s pml4 va"
proof -
  have lay: "pmm_layout s' = pmm_layout s" and inv': "pmm_inv s'" and fresh: "\<not> used_table s n"
    and us: "\<And>t. used_table s' t \<longleftrightarrow> t = n \<or> used_table s t" and keep: "\<And>t. used_table s t \<Longrightarrow> frame_kept s s' t"
    using nw by (auto simp: page_new_def frame_kept_def)
  have "frame_kept s s' t" if "good_path p" "walk s pml4 p = Some t" for p t using keep pt_invD(2) [OF inv that] .
  then have t: "pt_inv s' pml4" "\<And>p. good_path p \<Longrightarrow> walk s' pml4 p = walk s pml4 p"
      "\<And>p. good_path p \<Longrightarrow> walk_clear s' pml4 p = walk_clear s pml4 p" "\<And>va. translate s' pml4 va = translate s pml4 va"
    using tables_kept [OF inv inv' lay] by blast+
  show "apart s' pml4 n" using us fresh t(2) pt_invD(2) [OF inv] by (auto simp: apart_def)
  have "apart s' pml4 m \<and> frame_kept s s' m" if "apart s pml4 m" for m using that t(2) keep by (auto simp: apart_def frame_kept_def)
  then show "vm_grew s pml4 s'" using t(1,3) lay us by (simp add: vm_grew_def)
  show "translate s' pml4 va = translate s pml4 va" by (rule t(4))
qed

lemma taken_new:
  assumes inv: "pmm_inv s" and tk: "pmm_taken s l s1"
  shows "page_new s (page_node s l) s1"
  using taken_frames [OF tk] pte_taken [OF inv tk] avail_taken [OF tk] tk pmm_inv_wf [OF inv]
  by (auto simp: page_new_def pmm_taken_def)

text \<open>One page of a large block.\<close>

definition map_fresh :: "u64 \<Rightarrow> u64 \<Rightarrow> pmm \<Rightarrow> pmm kres" where
  "map_fresh pml4 va s = kbind (allocate_page s) (\<lambda>(pa, s1). vmm_map_page pml4 va pa (PTE_WRITABLE OR PTE_NX) PAGE_SIZE s1)"

lemma map_fresh_ok:
  assumes inv: "pt_inv s pml4" and clear: "walk_clear s pml4 (va_path va)"
  shows "map_fresh pml4 va s = Inl (Panic ''PMM: out of memory'') \<and> avail s < 4
    \<or> (\<exists>n s'. map_fresh pml4 va s = Inr s' \<and> vm_grew s pml4 s' \<and> \<not> used_table s n \<and> apart s' pml4 n \<and> avail s \<le> avail s' + 4
        \<and> (\<forall>va'. translate s' pml4 va' = (if same_page va va' then Some (n - hhdmOffset s) else translate s pml4 va')))"
proof -
  have wf: "pmm_wf s" using pmm_inv_wf [OF pt_invD(1) [OF inv]] .
  from allocate_page_outcome [OF pt_invD(1) [OF inv]]
  show ?thesis
  proof (elim disjE conjE exE)
    assume "page_locs s = pages_in PAGE_USED s" "allocate_page s = Inl (Panic ''PMM: out of memory'')"
    then show ?thesis by (simp add: map_fresh_def avail_def)
  next
    fix l s1 assume al: "allocate_page s = Inr (page_addr s l, s1)" and tk: "pmm_taken s l s1"
    note nw = taken_new [OF pt_invD(1) [OF inv] tk]
    note g = page_new_grew [OF inv nw]
    have fresh: "\<not> used_table s (page_node s l)" using nw by (simp add: page_new_def)
    have l: "l \<in> page_locs s" using tk by (simp add: pmm_taken_def)
    have inv1: "pt_inv s1 pml4" using g(1) by (simp add: vm_grew_def)
    have "walk_clear s1 pml4 (va_path va)" using g(1) clear by (simp add: vm_grew_def)
    from vmm_map_page_ok [OF inv1 this, of "page_addr s l" "PTE_WRITABLE OR PTE_NX"]
    show ?thesis
    proof (elim disjE conjE exE)
      assume "vmm_map_page pml4 va (page_addr s l) (PTE_WRITABLE OR PTE_NX) PAGE_SIZE s1 = Inl (Panic ''PMM: out of memory'')" "avail s1 < 3"
      then show ?thesis using al avail_taken [OF tk] by (simp add: map_fresh_def)
    next
      fix s2 assume m: "vmm_map_page pml4 va (page_addr s l) (PTE_WRITABLE OR PTE_NX) PAGE_SIZE s1 = Inr s2" "vm_kept s1 pml4 s2"
        "avail s1 \<le> avail s2 + 3" "\<forall>p. good_path p \<longrightarrow> walk_clear s2 pml4 p = walk_clear s1 pml4 p"
        and tr: "\<forall>va'. translate s2 pml4 va' = (if same_page va va'
             then leaf_view ((page_addr s l AND PTE_MASK) OR (PTE_PRESENT OR (PTE_WRITABLE OR PTE_NX))) else translate s1 pml4 va')"
      have "vm_grew s1 pml4 s2" using m(2,4) by (auto simp: vm_grew_def vm_kept_def frame_kept_def apart_def)
      moreover have "leaf_view ((page_addr s l AND PTE_MASK) OR (PTE_PRESENT OR (PTE_WRITABLE OR PTE_NX))) = Some (page_node s l - hhdmOffset s)"
        using alloc_mask [OF inv l] page_node_props(5) [OF wf l] by (subst leaf_view_entry) (simp_all add: pte_defs PTE_NX_def)
      ultimately show ?thesis
        using m(1,2,3) al avail_taken [OF tk] tr g fresh vm_grew_trans [OF g(1)]
        by (intro disjI2 exI [of _ "page_node s l"] exI [of _ s2]) (auto simp: map_fresh_def vm_kept_def)
    qed
  qed
qed

section \<open>The pages of a large block\<close>

lemma malloc_pages_step:
  "malloc_pages block off (Suc n) k = kbind (map_fresh (top_level (kernel_pagemap k)) (block + off) (hpmm (kheap k)))
     (\<lambda>s. malloc_pages block (off + PAGE_SIZE) n (set_kpmm s k))"
  by (cases "allocate_page (hpmm (kheap k))") (auto simp: map_fresh_def kbind_def split: sum.split)

text \<open>
  \<open>fresh_block s pml4 s' va ns\<close>: the pages from \<open>va\<close> on are mapped to the frames \<open>ns\<close>, all different and all
  taken from the free ones, and the rest of the address space is as before.
\<close>

definition fresh_block :: "pmm \<Rightarrow> u64 \<Rightarrow> pmm \<Rightarrow> u64 \<Rightarrow> u64 list \<Rightarrow> bool" where
  "fresh_block s pml4 s' va ns \<longleftrightarrow> distinct ns \<and> (\<forall>n \<in> set ns. \<not> used_table s n \<and> apart s' pml4 n)
     \<and> (\<forall>j < length ns. translate s' pml4 (va + of_nat j * PAGE_SIZE) = Some (ns ! j - hhdmOffset s))
     \<and> (\<forall>va'. (\<forall>j < length ns. \<not> same_page (va + of_nat j * PAGE_SIZE) va') \<longrightarrow> translate s' pml4 va' = translate s pml4 va')"

lemma fresh_block_Cons:
  assumes g1: "vm_grew s pml4 s1" and n: "\<not> used_table s n" "apart s1 pml4 n"
    and tr: "\<forall>va'. translate s1 pml4 va' = (if same_page va va' then Some (n - hhdmOffset s) else translate s pml4 va')"
    and g2: "vm_grew s1 pml4 s2" and rest: "fresh_block s1 pml4 s2 (va + PAGE_SIZE) ns" and len: "length ns < 2 ^ 36"
  shows "fresh_block s pml4 s2 va (n # ns)"
proof -
  have va: "va + of_nat (Suc j) * PAGE_SIZE = va + PAGE_SIZE + of_nat j * PAGE_SIZE" for j by (simp add: algebra_simps)
  have sep: "\<not> same_page (va + PAGE_SIZE + of_nat j * PAGE_SIZE) va" if "j < length ns" for j
    using page_run_distinct [of "Suc j" 0 va] that len by (auto simp: va simp del: of_nat_Suc)
  have off: "hhdmOffset s1 = hhdmOffset s" using vm_grew_offset [OF g1] .
  have "used_table s1 n" using n(2) by (simp add: apart_def)
  then have "n \<notin> set ns" using rest by (auto simp: fresh_block_def)
  moreover have "apart s2 pml4 n" using g2 n(2) by (simp add: vm_grew_def)
  moreover have "\<not> used_table s m" if "m \<in> set ns" for m using rest g1 that by (auto simp: fresh_block_def vm_grew_def)
  moreover have first: "translate s2 pml4 va = Some (n - hhdmOffset s)" using rest sep tr by (auto simp: fresh_block_def)
  moreover have "translate s2 pml4 (va + of_nat j * PAGE_SIZE) = Some ((n # ns) ! j - hhdmOffset s)" if "j < Suc (length ns)" for j
    using that rest first off by (cases j) (auto simp: fresh_block_def va simp del: of_nat_Suc)
  moreover have "translate s2 pml4 va' = translate s pml4 va'"
    if v: "\<forall>j < Suc (length ns). \<not> same_page (va + of_nat j * PAGE_SIZE) va'" for va'
  proof -
    have "\<not> same_page va va'" using v [rule_format, of 0] by simp
    moreover have "\<not> same_page (va + PAGE_SIZE + of_nat j * PAGE_SIZE) va'" if "j < length ns" for j
      using v [rule_format, of "Suc j"] that by (simp add: va del: of_nat_Suc)
    ultimately show ?thesis using rest tr by (simp add: fresh_block_def)
  qed
  ultimately show ?thesis using rest n(1) by (auto simp: fresh_block_def)
qed

lemma malloc_pages_ok:
  assumes "pt_inv (hpmm (kheap k)) pml4" and "pml4 = top_level (kernel_pagemap k)" and "n < 2 ^ 36"
    and "\<forall>j < n. walk_clear (hpmm (kheap k)) pml4 (va_path (block + off + of_nat j * PAGE_SIZE))"
  shows "malloc_pages block off n k = Inl (Panic ''PMM: out of memory'') \<and> avail (hpmm (kheap k)) < 4 * n
    \<or> (\<exists>s ns. malloc_pages block off n k = Inr (set_kpmm s k) \<and> vm_grew (hpmm (kheap k)) pml4 s \<and> length ns = n
        \<and> fresh_block (hpmm (kheap k)) pml4 s (block + off) ns \<and> avail (hpmm (kheap k)) \<le> avail s + 4 * n)"
  using assms
proof (induction n arbitrary: off k)
  case 0
  have "set_kpmm (hpmm (kheap k)) k = k" by (simp add: set_kpmm_def)
  then show ?case using 0 vm_grew_refl [OF 0(1)] by (auto simp: fresh_block_def intro!: exI [of _ "hpmm (kheap k)"])
next
  case (Suc n)
  let ?s = "hpmm (kheap k)" and ?va = "block + off"
  have "walk_clear ?s pml4 (va_path ?va)" using Suc.prems(4) [rule_format, of 0] by simp
  from map_fresh_ok [OF Suc.prems(1) this]
  show ?case
  proof (elim disjE exE conjE)
    assume "map_fresh pml4 ?va ?s = Inl (Panic ''PMM: out of memory'')" "avail ?s < 4"
    then show ?thesis using Suc.prems(2) by (auto simp: malloc_pages_step simp del: malloc_pages.simps)
  next
    fix m s1 assume m: "map_fresh pml4 ?va ?s = Inr s1" "vm_grew ?s pml4 s1" "\<not> used_table ?s m" "apart s1 pml4 m" "avail ?s \<le> avail s1 + 4"
      "\<forall>va'. translate s1 pml4 va' = (if same_page ?va va' then Some (m - hhdmOffset ?s) else translate ?s pml4 va')"
    let ?k = "set_kpmm s1 k"
    have k: "hpmm (kheap ?k) = s1" "kernel_pagemap ?k = kernel_pagemap k" "set_kpmm s ?k = set_kpmm s k" for s
      by (simp_all add: set_kpmm_def)
    have "walk_clear s1 pml4 (va_path (block + (off + PAGE_SIZE) + of_nat j * PAGE_SIZE))" if "j < n" for j
      using Suc.prems(4) [rule_format, of "Suc j"] that m(2) by (simp add: vm_grew_def algebra_simps)
    then have clear: "\<forall>j < n. walk_clear s1 pml4 (va_path (block + (off + PAGE_SIZE) + of_nat j * PAGE_SIZE))" by blast
    have n: "n < 2 ^ 36" using Suc.prems(3) by simp
    have inv1: "pt_inv s1 pml4" using m(2) by (simp add: vm_grew_def)
    have step: "malloc_pages block off (Suc n) k = malloc_pages block (off + PAGE_SIZE) n ?k"
      using m(1) Suc.prems(2) by (simp add: malloc_pages_step del: malloc_pages.simps)
    from Suc.IH [of ?k "off + PAGE_SIZE", unfolded k, OF inv1 Suc.prems(2) n clear]
    show ?thesis
    proof (elim disjE exE conjE)
      assume "malloc_pages block (off + PAGE_SIZE) n ?k = Inl (Panic ''PMM: out of memory'')" "avail s1 < 4 * n"
      then show ?thesis using m(5) step by simp
    next
      fix s2 ns assume r: "malloc_pages block (off + PAGE_SIZE) n ?k = Inr (set_kpmm s2 k)" "vm_grew s1 pml4 s2" "length ns = n"
        "fresh_block s1 pml4 s2 (block + (off + PAGE_SIZE)) ns" "avail s1 \<le> avail s2 + 4 * n"
      have "fresh_block ?s pml4 s2 ?va (m # ns)"
        by (rule fresh_block_Cons [OF m(2,3,4,6) r(2)]) (use r(3,4) Suc.prems(3) in \<open>simp_all add: algebra_simps\<close>)
      then show ?thesis using r m(5) step vm_grew_trans [OF m(2) r(2)]
        by (intro disjI2 exI [of _ s2] exI [of _ "m # ns"]) auto
    qed
  qed
qed

section \<open>Writing to a frame that is no table\<close>

lemma set_pte_data:
  assumes inv: "pt_inv s pml4" and n: "apart s pml4 n" and i: "unat i < 512"
  shows "pt_inv (set_pte n i v s) pml4" and "good_path p \<Longrightarrow> walk (set_pte n i v s) pml4 p = walk s pml4 p"
    and "good_path p \<Longrightarrow> walk_clear (set_pte n i v s) pml4 p = walk_clear s pml4 p"
    and "translate (set_pte n i v s) pml4 va = translate s pml4 va"
    and "apart (set_pte n i v s) pml4 m = apart s pml4 m"
    and "used_table s m \<Longrightarrow> m \<noteq> n \<Longrightarrow> frame_kept s (set_pte n i v s) m"
proof -
  let ?s = "set_pte n i v s"
  have un: "used_table s n" using n by (simp add: apart_def)
  have keep: "frame_kept s ?s t" if "used_table s t" "t \<noteq> n" for t
    using pte_set_pte [OF _ _ i] used_table_aligned [OF pt_invD(1) [OF inv]] un that by (auto simp: frame_kept_def)
  then show "used_table s m \<Longrightarrow> m \<noteq> n \<Longrightarrow> frame_kept s ?s m" .
  have "frame_kept s ?s t" if "good_path q" "walk s pml4 q = Some t" for q t
    using keep [of t] pt_invD(2) [OF inv that] n that by (auto simp: apart_def)
  then have t: "pt_inv ?s pml4" "\<And>p. good_path p \<Longrightarrow> walk ?s pml4 p = walk s pml4 p"
      "\<And>p. good_path p \<Longrightarrow> walk_clear ?s pml4 p = walk_clear s pml4 p" "\<And>va. translate ?s pml4 va = translate s pml4 va"
    using tables_kept [OF inv pmm_inv_set_pte [OF pt_invD(1) [OF inv] un i] set_pte_fields(3)] by blast+
  show "pt_inv ?s pml4" "good_path p \<Longrightarrow> walk ?s pml4 p = walk s pml4 p" "good_path p \<Longrightarrow> walk_clear ?s pml4 p = walk_clear s pml4 p"
    "translate ?s pml4 va = translate s pml4 va" by (rule t | assumption)+
  show "apart ?s pml4 m = apart s pml4 m" using t(2) by (simp add: apart_def)
qed

section \<open>The joint invariant\<close>

abbreviation mpmm :: "kmemory \<Rightarrow> pmm" where "mpmm k \<equiv> hpmm (kheap k)"
abbreviation mtop :: "kmemory \<Rightarrow> u64" where "mtop k \<equiv> top_level (kernel_pagemap k)"

lemma mpmm_set [simp]: "mpmm (set_kpmm s k) = s"
  by (simp add: set_kpmm_def)

text \<open>
  The slabs are a heap; the page tables are well formed; no slab is a table; the ranges for large
  blocks are sound, lie in their part of the address space, where pages are small ones, and a free
  address there is not mapped.
\<close>

definition slabs_apart :: "pmm \<Rightarrow> u64 \<Rightarrow> slab_cache list \<Rightarrow> (nat \<Rightarrow> u64 list) \<Rightarrow> bool" where
  "slabs_apart s pml4 cs S \<longleftrightarrow> (\<forall>i < length cs. \<forall>p \<in> set (S i). apart s pml4 p)"

definition ranges_ok :: "pmm \<Rightarrow> pagemap \<Rightarrow> bool" where
  "ranges_ok s pm \<longleftrightarrow> vma_inv pm \<and> rt.cover (free_ranges pm) \<union> rt.cover (used_ranges pm) \<subseteq> {unat VALLOC_RANGE_START ..< unat VALLOC_RANGE_END}
     \<and> (\<forall>va. VALLOC_RANGE_START \<le> va \<longrightarrow> va < VALLOC_RANGE_END \<longrightarrow> walk_clear s (top_level pm) (va_path va))
     \<and> (\<forall>va. unat va \<in> rt.cover (free_ranges pm) \<longrightarrow> translate s (top_level pm) va = None)"

text \<open>The frame at physical address zero is not handed out: the page loops read zero as not mapped.\<close>

definition frames_nonzero :: "pmm \<Rightarrow> bool" where
  "frames_nonzero s \<longleftrightarrow> (\<forall>l \<in> page_locs s. page_addr s l \<noteq> 0)"

lemma frames_nonzero_layout: "pmm_layout s' = pmm_layout s \<Longrightarrow> frames_nonzero s' = frames_nonzero s"
  using layout_cong(1,2) [of s' s] by (simp add: frames_nonzero_def)

lemma used_nonzero: "frames_nonzero s \<Longrightarrow> pmm_wf s \<Longrightarrow> used_table s n \<Longrightarrow> n \<noteq> hhdmOffset s"
  using page_node_props(5) [of s] pages_in_locs by (fastforce simp: frames_nonzero_def used_table_def)

definition kmem_ok :: "kmemory \<Rightarrow> bool" where
  "kmem_ok k \<longleftrightarrow> pt_inv (mpmm k) (mtop k) \<and> ranges_ok (mpmm k) (kernel_pagemap k) \<and> frames_nonzero (mpmm k)
     \<and> (\<exists>S F. length (slab_caches (kheap k)) = 6 \<and> heap_rel (mpmm k) (slab_caches (kheap k)) S F
          \<and> slabs_apart (mpmm k) (mtop k) (slab_caches (kheap k)) S)"

lemma slabs_grew:
  assumes "heap_rel s cs S F" "slabs_apart s pml4 cs S" "vm_grew s pml4 s'"
  shows "heap_rel s' cs S F" and "slabs_apart s' pml4 cs S"
proof -
  have k: "apart s' pml4 p \<and> frame_kept s s' p" if "i < length cs" "p \<in> set (S i)" for i p
    using assms(2,3) that by (simp add: slabs_apart_def vm_grew_def)
  then show "slabs_apart s' pml4 cs S" by (simp add: slabs_apart_def)
  have "pmm_inv s'" using assms(3) by (simp add: vm_grew_def pt_inv_def)
  then show "heap_rel s' cs S F" using heap_rel_kept [OF assms(1)] k by blast
qed

lemma slabs_data:
  assumes "heap_rel s cs S F" "slabs_apart s pml4 cs S" "pt_inv s pml4" "apart s pml4 n" "unat i < 512"
    and "\<forall>i < length cs. n \<notin> set (S i)"
  shows "heap_rel (set_pte n i v s) cs S F" and "slabs_apart (set_pte n i v s) pml4 cs S"
proof -
  note d = set_pte_data [OF assms(3-5), where v = v]
  show "slabs_apart (set_pte n i v s) pml4 cs S" using assms(2) d(5) by (simp add: slabs_apart_def)
  show "heap_rel (set_pte n i v s) cs S F"
  proof (rule heap_rel_kept [OF assms(1) pt_invD(1) [OF d(1)]])
    fix j p assume j: "j < length cs" "p \<in> set (S j)"
    then have "used_table s p" "p \<noteq> n" using heap_relD(4) [OF assms(1) j] assms(6) by auto
    then show "frame_kept s (set_pte n i v s) p" by (rule d(6))
  qed
qed

section \<open>Large blocks\<close>

lemma valloc_range: "unat VALLOC_RANGE_START = 0xFFFFA00000000000" "unat VALLOC_RANGE_END = 0xFFFFE00000000000"
  by (simp_all add: VALLOC_RANGE_START_def VALLOC_RANGE_END_def)

lemma mod_close_le: "x \<le> y \<Longrightarrow> x mod m = y mod m \<Longrightarrow> y < x + m \<Longrightarrow> x = (y :: nat)"
proof -
  assume a: "x \<le> y" "x mod m = y mod m" "y < x + m"
  then have "m dvd y - x" using mod_eq_dvd_iff_nat [of x y m] by simp
  then show "x = y" using a(1,3) dvd_imp_le [of m "y - x"] by linarith
qed

lemma mod_close: "x mod m = y mod m \<Longrightarrow> x < y + m \<Longrightarrow> y < x + m \<Longrightarrow> x = (y :: nat)"
  using mod_close_le [of x y m] mod_close_le [of y x m] by (cases "x \<le> y") auto

text \<open>Within the part for large blocks an address determines its page.\<close>

lemma same_page_close:
  assumes "same_page a b" "unat a \<in> {unat VALLOC_RANGE_START ..< unat VALLOC_RANGE_END}" "unat b \<in> {unat VALLOC_RANGE_START ..< unat VALLOC_RANGE_END}"
  shows "unat a div 4096 = unat b div 4096"
proof (rule mod_close [where m = "2 ^ 36"])
  show "unat a div 4096 mod 2 ^ 36 = unat b div 4096 mod 2 ^ 36" using assms(1) by (simp add: same_page_vpn)
  have "unat a div 4096 \<le> 0xFFFFE00000000" "unat b div 4096 \<le> 0xFFFFE00000000" "0xFFFFA00000000 \<le> unat a div 4096" "0xFFFFA00000000 \<le> unat b div 4096"
    using assms(2,3) unfolding valloc_range by auto
  then show "unat a div 4096 < unat b div 4096 + 2 ^ 36" "unat b div 4096 < unat a div 4096 + 2 ^ 36" by simp_all
qed

lemma page_of: "x mod 4096 = 0 \<Longrightarrow> x div 4096 = y div 4096 \<Longrightarrow> x \<le> y \<and> y < x + 4096" for x y :: nat
  using div_mult_mod_eq [of x 4096] div_mult_mod_eq [of y 4096] mod_less_divisor [of 4096 y] by simp

lemma page_index: "b mod 4096 = 0 \<Longrightarrow> b \<le> x \<Longrightarrow> (b + 4096 * ((x - b) div 4096)) div 4096 = x div 4096" for b x :: nat
proof -
  assume b: "b mod 4096 = 0" "b \<le> x"
  then obtain q where q: "b = 4096 * q" by (metis mod_0_imp_dvd dvdE)
  have "x div 4096 = (4096 * q + (x - b)) div 4096" using b(2) q by simp
  then show ?thesis unfolding q by simp
qed

lemma page_low_bits: "page_aligned a \<Longrightarrow> a AND 0xFFF = 0"
proof -
  assume "page_aligned a"
  moreover have "a AND 0xFFF = take_bit 12 a" by (simp add: take_bit_eq_mask mask_eq_exp_minus_1)
  moreover have "unat (take_bit 12 a) = unat a mod 4096" by (simp only: unsigned_take_bit_eq) (simp add: take_bit_eq_mod)
  ultimately have "unat (a AND 0xFFF) = 0" by simp
  then show ?thesis by (simp only: unsigned_eq_0_iff)
qed

definition block_count :: "u64 \<Rightarrow> nat" where
  "block_count sz = (unat sz + 16 + 4095) div 4096"

lemma block_size:
  assumes "unat sz \<le> 2 ^ 47"
  shows "unat (sz + 16) = unat sz + 16" and "unat (ALIGN_UP (sz + 16) PAGE_SIZE) = 4096 * block_count sz"
    and "unat (ALIGN_UP (sz + 16) PAGE_SIZE div PAGE_SIZE) = block_count sz"
proof -
  show u: "unat (sz + 16) = unat sz + 16" using assms by (subst unat_add_no_wrap) simp_all
  have b: "unat (sz + 16) + 4095 < 2 ^ 64" using assms u by simp
  have "page_aligned (ALIGN_UP (sz + 16) PAGE_SIZE)" by (rule ALIGN_UP_page_aligned)
  then have "4096 dvd unat (ALIGN_UP (sz + 16) PAGE_SIZE)" by (simp add: mod_eq_0_iff_dvd)
  then obtain q where q: "unat (ALIGN_UP (sz + 16) PAGE_SIZE) = 4096 * q" by (elim dvdE)
  then have "q = block_count sz" using ALIGN_UP_ge [OF b] unfolding u block_count_def by linarith
  then show "unat (ALIGN_UP (sz + 16) PAGE_SIZE) = 4096 * block_count sz" using q by simp
  then show "unat (ALIGN_UP (sz + 16) PAGE_SIZE div PAGE_SIZE) = block_count sz" by (simp add: unat_div PAGE_SIZE_def)
qed

text \<open>The addresses of a block that was reserved.\<close>

lemma block_addresses:
  assumes "page_aligned block" "{unat block ..< unat block + 4096 * n} \<subseteq> {unat VALLOC_RANGE_START ..< unat VALLOC_RANGE_END}" "0 < n"
  shows "n < 2 ^ 36" and "j < n \<Longrightarrow> unat (block + of_nat j * PAGE_SIZE) = unat block + 4096 * j"
    and "j < n \<Longrightarrow> unat (block + of_nat j * PAGE_SIZE) \<in> {unat VALLOC_RANGE_START ..< unat VALLOC_RANGE_END}"
    and "VALLOC_RANGE_START \<le> block" "block < VALLOC_RANGE_END"
proof -
  have "unat block \<in> {unat block ..< unat block + 4096 * n}" "unat block + 4096 * n - 1 \<in> {unat block ..< unat block + 4096 * n}"
    using assms(3) by auto
  then have b: "unat VALLOC_RANGE_START \<le> unat block" "unat block + 4096 * n - 1 < unat VALLOC_RANGE_END" using assms(2) by auto
  then show n: "n < 2 ^ 36" unfolding valloc_range by simp
  have u: "unat (block + of_nat j * PAGE_SIZE) = unat block + 4096 * j" if "j < n" for j
  proof -
    have j: "unat (of_nat j * PAGE_SIZE :: u64) = 4096 * j"
      using that n by (simp add: PAGE_SIZE_def unat_word_ariths unat_of_nat64)
    have "unat block + 4096 * j < 2 ^ 64" using b(2) that unfolding valloc_range by simp
    then show ?thesis using j by (subst unat_add_no_wrap) simp_all
  qed
  then show "j < n \<Longrightarrow> unat (block + of_nat j * PAGE_SIZE) = unat block + 4096 * j" .
  show "j < n \<Longrightarrow> unat (block + of_nat j * PAGE_SIZE) \<in> {unat VALLOC_RANGE_START ..< unat VALLOC_RANGE_END}"
    using u [of j] b by auto
  show "VALLOC_RANGE_START \<le> block" "block < VALLOC_RANGE_END" using b assms(3) by (auto simp: word_le_nat_alt word_less_nat_alt)
qed

text \<open>
  The ranges after a block was moved to the used ones and mapped.
\<close>

lemma ranges_after:
  assumes ok: "ranges_ok s pm" and al: "page_aligned block" and n: "0 < n" "length ns = n"
    and pm: "vma_inv pm'" "top_level pm' = top_level pm" "vma_moved (free_ranges pm) (used_ranges pm) block (4096 * n) (free_ranges pm') (used_ranges pm')"
    and clear: "\<forall>p. good_path p \<longrightarrow> walk_clear s' (top_level pm) p = walk_clear s (top_level pm) p"
    and fresh: "fresh_block s (top_level pm) s' block ns"
  shows "ranges_ok s' pm'"
proof -
  let ?R = "{unat VALLOC_RANGE_START ..< unat VALLOC_RANGE_END}" and ?B = "{unat block ..< unat block + 4096 * n}"
  have mv: "?B \<subseteq> rt.cover (free_ranges pm)" "rt.cover (free_ranges pm') = rt.cover (free_ranges pm) - ?B"
      "rt.cover (used_ranges pm') = rt.cover (used_ranges pm) \<union> ?B"
    using pm(3) by (auto simp: vma_moved_def)
  have sub: "rt.cover (free_ranges pm) \<subseteq> ?R" "rt.cover (used_ranges pm) \<subseteq> ?R" using ok by (auto simp: ranges_ok_def)
  have B: "?B \<subseteq> ?R" using mv(1) sub(1) by blast
  note a = block_addresses [OF al B n(1)]
  have "translate s' (top_level pm) va = None" if va: "unat va \<in> rt.cover (free_ranges pm')" for va
  proof -
    have "\<not> same_page (block + of_nat j * PAGE_SIZE) va" if j: "j < n" for j
    proof
      assume "same_page (block + of_nat j * PAGE_SIZE) va"
      then have "(unat block + 4096 * j) div 4096 = unat va div 4096"
        using same_page_close [OF _ a(3) [OF j]] va mv(2) sub(1) a(2) [OF j] by auto
      then have "unat block + 4096 * j \<le> unat va \<and> unat va < unat block + 4096 * j + 4096"
        using al by (intro page_of) simp_all
      then have "unat va \<in> ?B" using j by auto
      then show False using va mv(2) by blast
    qed
    then have "translate s' (top_level pm) va = translate s (top_level pm) va" using fresh n(2) by (auto simp: fresh_block_def)
    then show ?thesis using ok va mv(2) by (simp add: ranges_ok_def)
  qed
  then show ?thesis using ok pm(1,2) clear mv sub B by (auto simp: ranges_ok_def)
qed

lemma kmem_ok_heap: "kmem_ok k \<Longrightarrow> heap_inv (kheap k)"
  by (auto simp: kmem_ok_def heap_inv_def)

lemma malloc_large_ok:
  assumes ok: "kmem_ok k" and z: "1024 < unat sz" "unat sz \<le> 2 ^ 47"
    and fit: "\<exists>r \<in> set (free_ranges (kernel_pagemap k)). ALIGN_UP (sz + 16) PAGE_SIZE \<le> rsize r"
  shows "malloc sz k = Some (Inl (Panic ''PMM: out of memory'')) \<and> avail (mpmm k) < 4 * block_count sz
    \<or> (\<exists>block ns k'. malloc sz k = Some (Inr (block + 16, k')) \<and> kmem_ok k' \<and> kload64 k' block = sz
        \<and> page_aligned block \<and> length ns = block_count sz \<and> mtop k' = mtop k
        \<and> \<lparr>vaddr = block, rsize = ALIGN_UP (sz + 16) PAGE_SIZE\<rparr> \<in> set (used_ranges (kernel_pagemap k'))
        \<and> vma_moved (free_ranges (kernel_pagemap k)) (used_ranges (kernel_pagemap k)) block (4096 * block_count sz)
            (free_ranges (kernel_pagemap k')) (used_ranges (kernel_pagemap k'))
        \<and> fresh_block (mpmm k) (mtop k) (mpmm k') block ns
        \<and> heap_live (kheap k') = heap_live (kheap k) \<and> pmm_layout (mpmm k') = pmm_layout (mpmm k)
        \<and> (\<forall>n. apart (mpmm k) (mtop k) n \<longrightarrow> apart (mpmm k') (mtop k) n \<and> frame_kept (mpmm k) (mpmm k') n)
        \<and> avail (mpmm k) \<le> avail (mpmm k') + 4 * block_count sz)"
proof -
  let ?s = "mpmm k" and ?t = "mtop k" and ?cs = "slab_caches (kheap k)" and ?n = "block_count sz"
  let ?R = "{unat VALLOC_RANGE_START ..< unat VALLOC_RANGE_END}"
  note bs = block_size [OF z(2)]
  have n: "0 < ?n" by (simp add: block_count_def)
  obtain S F where h: "length ?cs = 6" "heap_rel ?s ?cs S F" "slabs_apart ?s ?t ?cs S"
    and inv: "pt_inv ?s ?t" and rng: "ranges_ok ?s (kernel_pagemap k)" using ok by (auto simp: kmem_ok_def)
  obtain block pm where v: "valloc (kernel_pagemap k) (sz + 16) = (block, pm)" by fastforce
  have z': "0 < sz + 16" "unat (sz + 16) \<le> 2 ^ 64 - 4096" using bs(1) z by (simp_all add: word_less_nat_alt)
  have "find (\<lambda>r. ALIGN_UP (sz + 16) PAGE_SIZE \<le> rsize r) (free_ranges (kernel_pagemap k)) \<noteq> None"
    using fit by (auto simp: find_None_iff)
  with valloc_outcome [OF _ z' v] rng
  have p: "page_aligned block" "top_level pm = ?t" "vma_inv pm"
      "vma_moved (free_ranges (kernel_pagemap k)) (used_ranges (kernel_pagemap k)) block (4096 * ?n) (free_ranges pm) (used_ranges pm)"
      "\<lparr>vaddr = block, rsize = ALIGN_UP (sz + 16) PAGE_SIZE\<rparr> \<in> set (used_ranges pm)"
    unfolding bs(2) by (auto simp: ranges_ok_def)
  have "{unat block ..< unat block + 4096 * ?n} \<subseteq> rt.cover (free_ranges (kernel_pagemap k))" using p(4) by (simp only: vma_moved_def)
  moreover have "rt.cover (free_ranges (kernel_pagemap k)) \<subseteq> ?R" using rng by (simp add: ranges_ok_def)
  ultimately have B: "{unat block ..< unat block + 4096 * ?n} \<subseteq> ?R" by (rule subset_trans)
  note a = block_addresses [OF p(1) B n]
  let ?k = "k\<lparr>kernel_pagemap := pm\<rparr>"
  have clear: "\<forall>j < ?n. walk_clear (mpmm ?k) ?t (va_path (block + 0 + of_nat j * PAGE_SIZE))"
    using rng a(3) unfolding ranges_ok_def by (auto simp: word_le_nat_alt word_less_nat_alt)
  have m: "malloc sz k = Some (kbind (malloc_pages block 0 ?n ?k) (\<lambda>k1. Inr (block + 16, kstore64 block sz k1)))"
    using z(1) v bs(3) by (simp add: malloc_def word_le_nat_alt Let_def)
  have inv': "pt_inv (mpmm ?k) ?t" "?t = mtop ?k" using inv p(2) by simp_all
  from malloc_pages_ok [OF inv' a(1) clear]
  show ?thesis
  proof (elim disjE exE conjE)
    assume "malloc_pages block 0 ?n ?k = Inl (Panic ''PMM: out of memory'')" "avail (mpmm ?k) < 4 * ?n"
    then show ?thesis using m by simp
  next
    fix s ns assume "malloc_pages block 0 ?n ?k = Inr (set_kpmm s ?k)" "vm_grew (mpmm ?k) ?t s" "length ns = ?n"
      "fresh_block (mpmm ?k) ?t s (block + 0) ns" "avail (mpmm ?k) \<le> avail s + 4 * ?n"
    then have l: "malloc_pages block 0 ?n ?k = Inr (set_kpmm s ?k)" and g: "vm_grew ?s ?t s" and ns: "length ns = ?n"
      and fr: "fresh_block ?s ?t s block ns" and av: "avail ?s \<le> avail s + 4 * ?n" by simp_all
    have inv1: "pt_inv s ?t" using g by (simp add: vm_grew_def)
    have n0: "ns ! 0 \<in> set ns" using ns n by simp
    then have ap: "apart s ?t (ns ! 0)" "\<not> used_table ?s (ns ! 0)" using fr by (auto simp: fresh_block_def)
    have tr: "translate s ?t block = Some (ns ! 0 - hhdmOffset ?s)" using fr ns n unfolding fresh_block_def by (metis add.right_neutral mult_zero_left of_nat_0)
    let ?s2 = "set_pte (ns ! 0) 0 sz s" and ?k1 = "set_kpmm s ?k"
    have i0: "unat (0 :: u64) < 512" by simp
    note d = set_pte_data [OF inv1 ap(1) i0, where v = sz]
    have off: "hhdmOffset s = hhdmOffset ?s" using vm_grew_offset [OF g] .
    have low: "block AND 0xFFF = 0" using p(1) by (rule page_low_bits)
    have cl: "walk_clear s ?t (va_path block)" using clear g n by (auto simp: vm_grew_def)
    have res: "kresolve (set_kpmm s' ?k) block = ns ! 0" if "translate s' ?t block = translate s ?t block" "walk_clear s' ?t (va_path block)"
        "hhdmOffset s' = hhdmOffset s" for s'
      using that tr off low a(4,5) p(2) by (simp add: kresolve_def set_kpmm_def vmm_get_phys_translate)
    have st: "kstore64 block sz ?k1 = set_kpmm ?s2 ?k"
      using res [of s] cl by (simp add: kstore64_def poke64_def set_pte_def) (simp add: set_kpmm_def)
    have off2: "hhdmOffset ?s2 = hhdmOffset s" by simp
    have ld: "kload64 (set_kpmm ?s2 ?k) block = sz"
    proof -
      have "kresolve (set_kpmm ?s2 ?k) block = ns ! 0" using res [OF d(4) _ off2] d(3) cl by simp
      then show ?thesis using pte_set_pte_same [of "ns ! 0" 0 sz s] by (simp add: kload64_def peek64_def pte_def)
    qed
    have notslab: "\<forall>i < length ?cs. ns ! 0 \<notin> set (S i)" using ap(2) heap_relD(4) [OF h(2)] by blast
    note h1 = slabs_grew [OF h(2,3) g]
    note h2 = slabs_data [OF h1 inv1 ap(1) i0 notslab, where v = sz]
    have fr2: "fresh_block ?s ?t ?s2 block ns" using fr d(4,5) by (simp add: fresh_block_def)
    have clear2: "\<forall>p. good_path p \<longrightarrow> walk_clear ?s2 ?t p = walk_clear ?s ?t p" using d(3) g by (simp add: vm_grew_def)
    have rng2: "ranges_ok ?s2 pm" by (rule ranges_after [OF rng p(1) n ns p(3,2,4) clear2 fr2])
    let ?k2 = "set_kpmm ?s2 ?k"
    have k2: "mpmm ?k2 = ?s2" "kernel_pagemap ?k2 = pm" "slab_caches (kheap ?k2) = ?cs" by (simp_all add: set_kpmm_def)
    have lay: "pmm_layout ?s2 = pmm_layout ?s" using g by (simp add: vm_grew_def)
    have "frames_nonzero ?s2" using ok frames_nonzero_layout [OF lay] by (simp add: kmem_ok_def)
    then have ok2: "kmem_ok ?k2" unfolding kmem_ok_def k2 p(2) using d(1) rng2 h(1) h2 by blast
    have live: "heap_live (kheap ?k2) = heap_live (kheap k)"
      using heap_live_eq [of "kheap ?k2" S F] heap_live_eq [of "kheap k" S F] h(2) h2(1) k2 by simp
    have keep: "apart ?s2 ?t m \<and> frame_kept ?s ?s2 m" if m: "apart ?s ?t m" for m
    proof -
      have "apart s ?t m" "frame_kept ?s s m" "m \<noteq> ns ! 0" using m g ap(2) by (auto simp: vm_grew_def apart_def)
      moreover have "frame_kept s ?s2 m" using d(6) calculation by (simp add: apart_def)
      ultimately show ?thesis using d(5) by (simp add: frame_kept_def)
    qed
    have "malloc sz k = Some (Inr (block + 16, ?k2))" using m l st by simp
    then show ?thesis
      using ok2 ld p(1,2,4,5) ns fr2 live keep lay av unfolding k2
      by (intro disjI2 exI [of _ block] exI [of _ ns] exI [of _ ?k2]) (simp add: k2)
  qed
qed

section \<open>Giving a large block back\<close>

lemma unmap_grew:
  assumes inv: "pt_inv s pml4" and clear: "walk_clear s pml4 (va_path va)"
  shows "vm_grew s pml4 (vmm_unmap_page pml4 va s)" and "avail (vmm_unmap_page pml4 va s) = avail s"
    and "translate (vmm_unmap_page pml4 va s) pml4 va' = (if same_page va va' then None else translate s pml4 va')"
proof -
  note u = vmm_unmap_page_ok [OF inv clear]
  then show "translate (vmm_unmap_page pml4 va s) pml4 va' = (if same_page va va' then None else translate s pml4 va')" by blast
  have "vm_grew s pml4 (vmm_unmap_page pml4 va s) \<and> avail (vmm_unmap_page pml4 va s) = avail s"
  proof (cases "walk s pml4 (va_path va)")
    case None
    then have "vmm_unmap_page pml4 va s = s"
      using walk_clear_levels [OF clear] by (auto simp: vmm_unmap_page_def Let_def va_path_def split: if_splits)
    then show ?thesis using vm_grew_refl [OF inv] by simp
  next
    case (Some t)
    then have eq: "vmm_unmap_page pml4 va s = set_pte t (pml1i va) 0 s"
      by (auto simp: vmm_unmap_page_def Let_def va_path_def split: if_splits)
    note l = set_leaf [OF inv Some refl, where v = 0]
    have "apart (set_pte t (pml1i va) 0 s) pml4 n \<and> (\<forall>j. unat j < 512 \<longrightarrow> pte (set_pte t (pml1i va) 0 s) n j = pte s n j)"
      if "apart s pml4 n" for n
      by (rule set_pte_apart [OF inv _ Some]) (use l(2) that in simp_all)
    then show ?thesis using u unfolding eq by (auto simp: vm_grew_def frame_kept_def apart_def)
  qed
  then show "vm_grew s pml4 (vmm_unmap_page pml4 va s)" "avail (vmm_unmap_page pml4 va s) = avail s" by simp_all
qed

lemma release_ok:
  assumes inv: "pt_inv s pml4" and n: "apart s pml4 n"
  obtains s' where "free_page (n - hhdmOffset s) s = Inr s'" "pt_inv s' pml4" "pmm_layout s' = pmm_layout s"
    "\<And>p. good_path p \<Longrightarrow> walk_clear s' pml4 p = walk_clear s pml4 p" "\<And>va. translate s' pml4 va = translate s pml4 va"
    "\<And>m. apart s pml4 m \<Longrightarrow> m \<noteq> n \<Longrightarrow> apart s' pml4 m \<and> frame_kept s s' m" "\<not> used_table s' n" "avail s' = Suc (avail s)"
proof -
  obtain fl where rel: "pmm_rel s fl" using pt_invD(1) [OF inv] by (auto simp: pmm_inv_def)
  have wf: "pmm_wf s" using rel by (simp add: pmm_rel_def)
  obtain l where l: "l \<in> pages_in PAGE_USED s" "n = page_node s l" using n by (auto simp: apart_def used_table_def)
  have loc: "l \<in> page_locs s" using l(1) pages_in_locs by blast
  obtain s' where s': "free_page (page_addr s l) s = Inr s'" "pmm_rel s' (page_node s l # fl)" "pmm_layout s' = pmm_layout s"
      "pages_in PAGE_USED s' = pages_in PAGE_USED s - {l}" "kmem s' = write64 (kmem s) (page_node s l) (freelist_head s)"
    using free_page_used [OF rel l(1)] by blast
  have used: "used_table s' m \<longleftrightarrow> used_table s m \<and> m \<noteq> n" for m
  proof -
    have "page_node s' x = page_node s x" if "x \<in> pages_in PAGE_USED s" for x
      using layout_cong(3) [OF s'(3)] that pages_in_locs by blast
    moreover have "x = l" if "x \<in> pages_in PAGE_USED s" "page_node s x = page_node s l" for x
      using page_node_inj [OF wf] that loc pages_in_locs by (auto simp: inj_on_def)
    ultimately show ?thesis unfolding used_table_def s'(4) l(2) by auto
  qed
  have i0: "unat (0 :: u64) < 512" by simp
  have pte: "pte s' x j = pte (set_pte n 0 (freelist_head s) s) x j" for x j using s'(5) by (simp add: pte_def set_pte_def l(2))
  have keep: "frame_kept s s' m" if "used_table s m" "m \<noteq> n" for m
    using set_pte_data(6) [OF inv n i0 that] that by (simp add: frame_kept_def used pte)
  have "frame_kept s s' t" if "good_path p" "walk s pml4 p = Some t" for p t
    using keep [of t] pt_invD(2) [OF inv that] n that by (auto simp: apart_def)
  moreover have "pmm_inv s'" using s'(2) by (auto simp: pmm_inv_def)
  ultimately have t: "pt_inv s' pml4" "\<And>p. good_path p \<Longrightarrow> walk s' pml4 p = walk s pml4 p"
      "\<And>p. good_path p \<Longrightarrow> walk_clear s' pml4 p = walk_clear s pml4 p" "\<And>va. translate s' pml4 va = translate s pml4 va"
    using tables_kept [OF inv _ s'(3)] by blast+
  note t(1,3,4)
  moreover have "apart s' pml4 m \<and> frame_kept s s' m" if m: "apart s pml4 m" "m \<noteq> n" for m
    using keep [of m] m t(2) by (auto simp: apart_def frame_kept_def)
  moreover have "avail s' = Suc (avail s)"
  proof -
    have "page_locs s' - pages_in PAGE_USED s' = insert l (page_locs s - pages_in PAGE_USED s)"
      using layout_cong(1) [OF s'(3)] s'(4) loc by auto
    then show ?thesis using l(1) page_locs_finite [of s] by (simp add: avail_def)
  qed
  moreover have "free_page (n - hhdmOffset s) s = Inr s'" using s'(1) page_node_props(5) [OF wf loc] l(2) by simp
  ultimately show thesis using that [of s'] s'(3) used by blast
qed

lemma free_pages_ok:
  assumes "pt_inv (mpmm k) pml4" and "pml4 = mtop k" and "length ns < 2 ^ 36" and "distinct ns"
    and "\<forall>j < length ns. walk_clear (mpmm k) pml4 (va_path (block + off + of_nat j * PAGE_SIZE))
          \<and> translate (mpmm k) pml4 (block + off + of_nat j * PAGE_SIZE) = Some (ns ! j - hhdmOffset (mpmm k))"
    and "\<forall>n \<in> set ns. apart (mpmm k) pml4 n \<and> n \<noteq> hhdmOffset (mpmm k)"
  shows "\<exists>s'. free_pages block off (length ns) k = Inr (set_kpmm s' k) \<and> pt_inv s' pml4 \<and> pmm_layout s' = pmm_layout (mpmm k)
    \<and> (\<forall>p. good_path p \<longrightarrow> walk_clear s' pml4 p = walk_clear (mpmm k) pml4 p)
    \<and> (\<forall>m. apart (mpmm k) pml4 m \<longrightarrow> m \<notin> set ns \<longrightarrow> apart s' pml4 m \<and> frame_kept (mpmm k) s' m)
    \<and> (\<forall>va. translate s' pml4 va = (if \<exists>j < length ns. same_page (block + off + of_nat j * PAGE_SIZE) va then None else translate (mpmm k) pml4 va))
    \<and> avail s' = avail (mpmm k) + length ns"
  using assms
proof (induction ns arbitrary: off k)
  case Nil
  have "set_kpmm (mpmm k) k = k" by (simp add: set_kpmm_def)
  then show ?case using Nil by (intro exI [of _ "mpmm k"]) (simp add: frame_kept_def apart_def)
next
  case (Cons n ns)
  let ?s = "mpmm k" and ?va = "block + off"
  have va: "block + off + of_nat (Suc j) * PAGE_SIZE = block + (off + PAGE_SIZE) + of_nat j * PAGE_SIZE" for j by (simp add: algebra_simps)
  have c0: "walk_clear ?s pml4 (va_path ?va)" "translate ?s pml4 ?va = Some (n - hhdmOffset ?s)" using Cons.prems(5) [rule_format, of 0] by simp_all
  define s1 where "s1 = vmm_unmap_page pml4 ?va ?s"
  note u = unmap_grew [OF Cons.prems(1) c0(1), folded s1_def]
  have inv1: "pt_inv s1 pml4" and off1: "hhdmOffset s1 = hhdmOffset ?s" using u(1) vm_grew_offset [OF u(1)] by (simp_all add: vm_grew_def)
  have ap1: "apart s1 pml4 m \<and> frame_kept ?s s1 m" if "apart ?s pml4 m" for m using u(1) that by (simp add: vm_grew_def)
  have n: "apart ?s pml4 n" "n \<noteq> hhdmOffset ?s" "n \<notin> set ns" using Cons.prems(4,6) by simp_all
  obtain s2 where s2: "free_page (n - hhdmOffset s1) s1 = Inr s2" "pt_inv s2 pml4" "pmm_layout s2 = pmm_layout s1"
      "\<And>p. good_path p \<Longrightarrow> walk_clear s2 pml4 p = walk_clear s1 pml4 p" "\<And>va. translate s2 pml4 va = translate s1 pml4 va"
      "\<And>m. apart s1 pml4 m \<Longrightarrow> m \<noteq> n \<Longrightarrow> apart s2 pml4 m \<and> frame_kept s1 s2 m" "avail s2 = Suc (avail s1)"
    using release_ok [OF inv1] ap1 [OF n(1)] by metis
  have off2: "hhdmOffset s2 = hhdmOffset ?s" using layout_nth(3) [OF s2(3)] off1 by simp
  let ?k = "set_kpmm s2 k"
  have k: "mpmm ?k = s2" "kernel_pagemap ?k = kernel_pagemap k" "set_kpmm s ?k = set_kpmm s k" for s by (simp_all add: set_kpmm_def)
  have step: "free_pages block off (length (n # ns)) k = free_pages block (off + PAGE_SIZE) (length ns) ?k"
    using s2(1) n(2) off1 vmm_get_phys_translate [OF c0(1)] c0(2) Cons.prems(2) by (simp add: Let_def s1_def)
  have tr2: "translate s2 pml4 va = (if same_page ?va va then None else translate ?s pml4 va)" for va using s2(5) u(3) by simp
  have sep: "\<not> same_page ?va (block + (off + PAGE_SIZE) + of_nat j * PAGE_SIZE)" if "j < length ns" for j
    using page_run_distinct [of 0 "Suc j" ?va] that Cons.prems(3) by (auto simp: va simp del: of_nat_Suc)
  have pages: "\<forall>j < length ns. walk_clear s2 pml4 (va_path (block + (off + PAGE_SIZE) + of_nat j * PAGE_SIZE))
      \<and> translate s2 pml4 (block + (off + PAGE_SIZE) + of_nat j * PAGE_SIZE) = Some (ns ! j - hhdmOffset s2)"
  proof (intro allI impI)
    fix j assume j: "j < length ns"
    have "walk_clear ?s pml4 (va_path (block + (off + PAGE_SIZE) + of_nat j * PAGE_SIZE))
      \<and> translate ?s pml4 (block + (off + PAGE_SIZE) + of_nat j * PAGE_SIZE) = Some (ns ! j - hhdmOffset ?s)"
      using Cons.prems(5) [rule_format, of "Suc j"] j by (simp add: va del: of_nat_Suc)
    then show "walk_clear s2 pml4 (va_path (block + (off + PAGE_SIZE) + of_nat j * PAGE_SIZE))
      \<and> translate s2 pml4 (block + (off + PAGE_SIZE) + of_nat j * PAGE_SIZE) = Some (ns ! j - hhdmOffset s2)"
      using s2(4) u(1) tr2 sep [OF j] off2 by (simp add: vm_grew_def)
  qed
  have keep: "apart s2 pml4 m \<and> frame_kept ?s s2 m" if "apart ?s pml4 m" "m \<noteq> n" for m
    using ap1 [OF that(1)] s2(6) [of m] that(2) by (simp add: frame_kept_def)
  have frames: "\<forall>m \<in> set ns. apart s2 pml4 m \<and> m \<noteq> hhdmOffset s2" using Cons.prems(6) keep n(3) off2 by auto
  have len: "length ns < 2 ^ 36" "distinct ns" using Cons.prems(3,4) by simp_all
  from Cons.IH [of ?k "off + PAGE_SIZE", unfolded k, OF s2(2) Cons.prems(2) len pages frames]
  obtain s3 where s3: "free_pages block (off + PAGE_SIZE) (length ns) ?k = Inr (set_kpmm s3 k)" "pt_inv s3 pml4" "pmm_layout s3 = pmm_layout s2"
      "\<forall>p. good_path p \<longrightarrow> walk_clear s3 pml4 p = walk_clear s2 pml4 p"
      "\<forall>m. apart s2 pml4 m \<longrightarrow> m \<notin> set ns \<longrightarrow> apart s3 pml4 m \<and> frame_kept s2 s3 m"
      "\<forall>va. translate s3 pml4 va = (if \<exists>j < length ns. same_page (block + (off + PAGE_SIZE) + of_nat j * PAGE_SIZE) va then None else translate s2 pml4 va)"
      "avail s3 = avail s2 + length ns" by blast
  have "(\<exists>j < length (n # ns). same_page (block + off + of_nat j * PAGE_SIZE) va)
      \<longleftrightarrow> same_page ?va va \<or> (\<exists>j < length ns. same_page (block + (off + PAGE_SIZE) + of_nat j * PAGE_SIZE) va)" for va
    by (simp add: Ex_less_Suc2 va del: of_nat_Suc)
  then have "translate s3 pml4 va = (if \<exists>j < length (n # ns). same_page (block + off + of_nat j * PAGE_SIZE) va then None else translate ?s pml4 va)" for va
    using s3(6) tr2 by auto
  moreover have "apart s3 pml4 m \<and> frame_kept ?s s3 m" if "apart ?s pml4 m" "m \<notin> set (n # ns)" for m
    using keep [OF that(1)] that(2) s3(5) by (auto simp: frame_kept_def)
  moreover have "walk_clear s3 pml4 p = walk_clear ?s pml4 p" if "good_path p" for p using s3(4) s2(4) u(1) that by (simp add: vm_grew_def)
  moreover have "pmm_layout s3 = pmm_layout ?s" using s3(3) s2(3) u(1) by (simp add: vm_grew_def)
  moreover have "avail s3 = avail ?s + length (n # ns)" using s3(7) s2(7) u(2) by simp
  ultimately show ?case using s3(1,2) step by (intro exI [of _ s3]) (simp del: length_Cons)
qed

text \<open>A large block that has not been freed, and the frames behind it.\<close>

definition big_block :: "kmemory \<Rightarrow> u64 \<Rightarrow> u64 \<Rightarrow> u64 list \<Rightarrow> bool" where
  "big_block k block sz ns \<longleftrightarrow> 1024 < unat sz \<and> unat sz \<le> 2 ^ 47 \<and> kload64 k block = sz \<and> page_aligned block
     \<and> \<lparr>vaddr = block, rsize = ALIGN_UP (sz + 16) PAGE_SIZE\<rparr> \<in> set (used_ranges (kernel_pagemap k))
     \<and> length ns = block_count sz \<and> distinct ns
     \<and> (\<forall>j < length ns. translate (mpmm k) (mtop k) (block + of_nat j * PAGE_SIZE) = Some (ns ! j - hhdmOffset (mpmm k)))
     \<and> (\<forall>n \<in> set ns. apart (mpmm k) (mtop k) n
          \<and> (\<forall>S F i. heap_rel (mpmm k) (slab_caches (kheap k)) S F \<longrightarrow> i < length (slab_caches (kheap k)) \<longrightarrow> n \<notin> set (S i)))"

lemma free_large_ok:
  assumes ok: "kmem_ok k" and b: "big_block k block sz ns"
  shows "\<exists>k'. free (block + 16) k = Inr k' \<and> kmem_ok k' \<and> mtop k' = mtop k
    \<and> vma_moved (used_ranges (kernel_pagemap k)) (free_ranges (kernel_pagemap k)) block (4096 * block_count sz)
        (used_ranges (kernel_pagemap k')) (free_ranges (kernel_pagemap k'))
    \<and> (\<forall>va. translate (mpmm k') (mtop k) va = (if \<exists>j < length ns. same_page (block + of_nat j * PAGE_SIZE) va then None else translate (mpmm k) (mtop k) va))
    \<and> heap_live (kheap k') = heap_live (kheap k) \<and> pmm_layout (mpmm k') = pmm_layout (mpmm k)
    \<and> (\<forall>m. apart (mpmm k) (mtop k) m \<longrightarrow> m \<notin> set ns \<longrightarrow> apart (mpmm k') (mtop k) m \<and> frame_kept (mpmm k) (mpmm k') m)
    \<and> avail (mpmm k') = avail (mpmm k) + block_count sz"
proof -
  let ?s = "mpmm k" and ?t = "mtop k" and ?pm = "kernel_pagemap k" and ?cs = "slab_caches (kheap k)" and ?n = "block_count sz"
  let ?R = "{unat VALLOC_RANGE_START ..< unat VALLOC_RANGE_END}" and ?B = "{unat block ..< unat block + 4096 * ?n}"
  let ?r = "\<lparr>vaddr = block, rsize = ALIGN_UP (sz + 16) PAGE_SIZE\<rparr>"
  have z: "1024 < unat sz" "unat sz \<le> 2 ^ 47" and ld: "kload64 k block = sz" and al: "page_aligned block" and r: "?r \<in> set (used_ranges ?pm)"
    and ns: "length ns = ?n" "distinct ns" using b by (simp_all add: big_block_def)
  note bs = block_size [OF z(2)]
  have n: "0 < ?n" by (simp add: block_count_def)
  obtain S F where h: "length ?cs = 6" "heap_rel ?s ?cs S F" "slabs_apart ?s ?t ?cs S"
    and inv: "pt_inv ?s ?t" and rng: "ranges_ok ?s ?pm" and nz: "frames_nonzero ?s" using ok by (auto simp: kmem_ok_def)
  have vi: "vma_inv ?pm" using rng by (simp add: ranges_ok_def)
  have rb: "bytes_in ?r = ?B" by (simp add: bytes_in_def bs(2))
  have "?B \<subseteq> rt.cover (used_ranges ?pm)" using cover_element [OF r] rb by simp
  moreover have sub: "rt.cover (used_ranges ?pm) \<subseteq> ?R" "rt.cover (free_ranges ?pm) \<subseteq> ?R" using rng by (simp_all add: ranges_ok_def)
  ultimately have B: "?B \<subseteq> ?R" by blast
  note a = block_addresses [OF al B n]
  have pages: "\<forall>j < length ns. walk_clear ?s ?t (va_path (block + 0 + of_nat j * PAGE_SIZE))
      \<and> translate ?s ?t (block + 0 + of_nat j * PAGE_SIZE) = Some (ns ! j - hhdmOffset ?s)"
    using b rng a(3) unfolding ns(1) ranges_ok_def big_block_def by (auto simp: word_le_nat_alt word_less_nat_alt)
  have frames: "\<forall>m \<in> set ns. apart ?s ?t m \<and> m \<noteq> hhdmOffset ?s"
    using b used_nonzero [OF nz pmm_inv_wf [OF pt_invD(1) [OF inv]]] by (auto simp: big_block_def apart_def)
  have len: "length ns < 2 ^ 36" using a(1) ns(1) by simp
  obtain s where s: "free_pages block 0 (length ns) k = Inr (set_kpmm s k)" "pt_inv s ?t" "pmm_layout s = pmm_layout ?s"
      "\<forall>p. good_path p \<longrightarrow> walk_clear s ?t p = walk_clear ?s ?t p"
      "\<forall>m. apart ?s ?t m \<longrightarrow> m \<notin> set ns \<longrightarrow> apart s ?t m \<and> frame_kept ?s s m"
      "\<forall>va. translate s ?t va = (if \<exists>j < length ns. same_page (block + 0 + of_nat j * PAGE_SIZE) va then None else translate ?s ?t va)"
      "avail s = avail ?s + length ns"
    using free_pages_ok [OF inv refl len ns(2) pages frames] by blast
  obtain res pm where v: "vfree ?pm block (sz + 16) = (res, pm)" by fastforce
  have z': "0 < sz + 16" "unat (sz + 16) \<le> 2 ^ 64 - 4096" using bs(1) z by (simp_all add: word_less_nat_alt)
  have "range_ok ?r" using vi r by (simp add: vma_inv_def tree_ok_def)
  then have nw: "unat block + unat (ALIGN_UP (sz + 16) PAGE_SIZE) < 2 ^ 64" by (simp add: range_ok_def)
  have "\<exists>r \<in> set (used_ranges ?pm). {unat block ..< unat block + unat (ALIGN_UP (sz + 16) PAGE_SIZE)} \<subseteq> bytes_in r"
    using r rb unfolding bs(2) by blast
  then have p: "top_level pm = ?t" "vma_inv pm" "vma_moved (used_ranges ?pm) (free_ranges ?pm) block (4096 * ?n) (used_ranges pm) (free_ranges pm)"
    using vfree_outcome [OF vi al z' nw v] unfolding bs(2) by simp_all
  let ?k = "(set_kpmm s k)\<lparr>kernel_pagemap := pm\<rparr>"
  have k: "mpmm ?k = s" "kernel_pagemap ?k = pm" "slab_caches (kheap ?k) = ?cs" by (simp_all add: set_kpmm_def)
  have fr: "free (block + 16) k = Inr ?k"
    using ld z(1) s(1) v bs(3) ns(1) by (simp add: free_def Let_def word_le_nat_alt set_kpmm_def)
  have keep: "apart s ?t q \<and> frame_kept ?s s q" if "i < length ?cs" "q \<in> set (S i)" for i q
  proof -
    have "apart ?s ?t q" using h(3) that by (auto simp: slabs_apart_def)
    moreover have "q \<notin> set ns" using b h(2) that by (auto simp: big_block_def)
    ultimately show ?thesis using s(5) by blast
  qed
  have h2: "heap_rel s ?cs S F" by (rule heap_rel_kept [OF h(2) pt_invD(1) [OF s(2)]]) (use keep in blast)
  have sa: "slabs_apart s ?t ?cs S" using keep by (simp add: slabs_apart_def)
  have "ranges_ok s pm"
    unfolding ranges_ok_def
  proof (intro conjI allI impI)
    show "rt.cover (free_ranges pm) \<union> rt.cover (used_ranges pm) \<subseteq> ?R" using p(3) sub B unfolding vma_moved_def by blast
    show "walk_clear s (top_level pm) (va_path va)" if "VALLOC_RANGE_START \<le> va" "va < VALLOC_RANGE_END" for va
      using rng s(4) that p(1) by (simp add: ranges_ok_def)
    fix va :: u64 assume va: "unat va \<in> rt.cover (free_ranges pm)"
    show "translate s (top_level pm) va = None"
    proof (cases "unat va \<in> ?B")
      case False
      then have "unat va \<in> rt.cover (free_ranges ?pm)" using va p(3) by (auto simp: vma_moved_def)
      then have "translate ?s ?t va = None" using rng by (simp add: ranges_ok_def)
      then show ?thesis using s(6) p(1) by simp
    next
      case True
      define j where "j = (unat va - unat block) div 4096"
      have j: "j < ?n" using True by (auto simp: j_def)
      have "unat va div 4096 = unat (block + of_nat j * PAGE_SIZE) div 4096"
        using page_index [of "unat block" "unat va"] True al unfolding a(2) [OF j] by (simp add: j_def)
      then have "same_page (block + of_nat j * PAGE_SIZE) va" by (simp add: same_page_vpn)
      then show ?thesis using s(6) p(1) j ns(1) by auto
    qed
  qed (rule p(2))
  moreover have "frames_nonzero s" using nz frames_nonzero_layout [OF s(3)] by simp
  ultimately have "kmem_ok ?k" unfolding kmem_ok_def k p(1) using s(2) h(1) h2 sa by blast
  moreover have "heap_live (kheap ?k) = heap_live (kheap k)"
    using heap_live_eq [of "kheap ?k" S F] heap_live_eq [of "kheap k" S F] h(2) h2 k by simp
  ultimately show ?thesis using fr p(1,3) s(3,5,6,7) ns(1) by (intro exI [of _ ?k]) (simp add: k mpmm_set)
qed

lemma translate_page: "same_page va va' \<Longrightarrow> translate s pml4 va' = translate s pml4 va"
  by (auto simp: same_page_def translate_def split: option.split)

lemma big_block_fresh:
  assumes ok: "kmem_ok k" and z: "1024 < unat sz" "unat sz \<le> 2 ^ 47" and "kload64 k' block = sz" "page_aligned block" "mtop k' = mtop k"
    and "\<lparr>vaddr = block, rsize = ALIGN_UP (sz + 16) PAGE_SIZE\<rparr> \<in> set (used_ranges (kernel_pagemap k'))" "length ns = block_count sz"
    and fr: "fresh_block (mpmm k) (mtop k) (mpmm k') block ns" and ok': "kmem_ok k'" and lay: "pmm_layout (mpmm k') = pmm_layout (mpmm k)"
    and keep: "\<forall>n. apart (mpmm k) (mtop k) n \<longrightarrow> apart (mpmm k') (mtop k) n \<and> frame_kept (mpmm k) (mpmm k') n"
    and cs: "slab_caches (kheap k') = slab_caches (kheap k)"
  shows "big_block k' block sz ns"
proof -
  let ?cs = "slab_caches (kheap k)"
  obtain S F where h: "heap_rel (mpmm k) ?cs S F" "slabs_apart (mpmm k) (mtop k) ?cs S" using ok by (auto simp: kmem_ok_def)
  have "pmm_inv (mpmm k')" using ok' by (auto simp: kmem_ok_def pt_inv_def)
  then have h': "heap_rel (mpmm k') ?cs S F" by (rule heap_rel_kept [OF h(1)]) (use h(2) keep in \<open>auto simp: slabs_apart_def\<close>)
  have "n \<notin> set (T i)" if "n \<in> set ns" "heap_rel (mpmm k') ?cs T G" "i < length ?cs" for n T G i
  proof -
    have "T i = S i" using heap_rel_det(1) [OF that(2) h' that(3)] .
    moreover have "\<not> used_table (mpmm k) n" using fr that(1) by (simp add: fresh_block_def)
    ultimately show ?thesis using heap_relD(4) [OF h(1) that(3)] by auto
  qed
  then show ?thesis using assms layout_nth(3) [OF lay] by (auto simp: big_block_def fresh_block_def)
qed

lemma malloc_pages_caches: "malloc_pages block off n k = Inr k' \<Longrightarrow> slab_caches (kheap k') = slab_caches (kheap k)"
  by (induction n arbitrary: off k) (auto simp: set_kpmm_def kbind_def split: sum.splits)

lemma malloc_large_caches: "malloc sz k = Some (Inr (p, k')) \<Longrightarrow> 1024 < unat sz \<Longrightarrow> slab_caches (kheap k') = slab_caches (kheap k)"
  by (auto simp: malloc_def word_le_nat_alt Let_def kbind_def kstore64_def set_kpmm_def split: prod.splits sum.splits dest!: malloc_pages_caches)

section \<open>Small blocks\<close>

text \<open>
  The heap writes only its slabs and adds only frames that were free, so the tables and the pages
  of large blocks stay as they are.
\<close>

lemma slabs_changed:
  assumes h: "heap_rel s cs S F" and ap: "slabs_apart s pml4 cs S" and inv: "pt_inv s pml4"
    and h': "heap_rel s' cs S' F'" and cs: "cs \<noteq> []" and o: "only_slabs cs S s S' s'" and lay: "pmm_layout s' = pmm_layout s"
  shows "slabs_apart s' pml4 cs S'" and "vm_grew_off (\<Union>i < length cs. set (S i)) s pml4 s'"
proof -
  let ?P = "\<Union>i < length cs. set (S i)"
  have inv': "pmm_inv s'" using heap_relD(1) [OF h', of 0] cs by simp
  have us: "used_table s' t" if "used_table s t" for t using o that by (simp add: only_slabs_def)
  have keep: "frame_kept s s' t" if "used_table s t" "t \<notin> ?P" for t using o that us by (auto simp: only_slabs_def frame_kept_def)
  have "t \<notin> ?P" if "good_path p" "walk s pml4 p = Some t" for p t
    using ap that by (auto simp: slabs_apart_def apart_def)
  then have "frame_kept s s' t" if "good_path p" "walk s pml4 p = Some t" for p t
    using keep [OF pt_invD(2) [OF inv that]] that by blast
  then have t: "pt_inv s' pml4" "\<And>p. good_path p \<Longrightarrow> walk s' pml4 p = walk s pml4 p"
      "\<And>p. good_path p \<Longrightarrow> walk_clear s' pml4 p = walk_clear s pml4 p" "\<And>va. translate s' pml4 va = translate s pml4 va"
    using tables_kept [OF inv inv' lay] by blast+
  have same: "apart s' pml4 m" if "used_table s' m" "\<not> used_table s m \<or> apart s pml4 m" for m
    using that t(2) pt_invD(2) [OF inv] by (auto simp: apart_def)
  show "slabs_apart s' pml4 cs S'"
    unfolding slabs_apart_def
  proof (intro allI impI ballI)
    fix i p assume i: "i < length cs" "p \<in> set (S' i)"
    then have "p \<in> set (S i) \<or> \<not> used_table s p" using o by (simp add: only_slabs_def)
    then show "apart s' pml4 p" using same heap_relD(4) [OF h' i] ap i(1) by (auto simp: slabs_apart_def)
  qed
  show "vm_grew_off ?P s pml4 s'"
    using t lay us keep same by (auto simp: vm_grew_off_def apart_def)
qed

lemma kmem_ok_slabs:
  assumes k: "kmem_ok k" and k': "kernel_pagemap k' = kernel_pagemap k" "slab_caches (kheap k') = slab_caches (kheap k)"
    and S: "heap_rel (mpmm k) (slab_caches (kheap k)) S F" "slabs_apart (mpmm k) (mtop k) (slab_caches (kheap k)) S"
    and h': "heap_rel (mpmm k') (slab_caches (kheap k)) S' F'" "only_slabs (slab_caches (kheap k)) S (mpmm k) S' (mpmm k')"
    and lay: "pmm_layout (mpmm k') = pmm_layout (mpmm k)"
  shows "kmem_ok k'" and "slabs_apart (mpmm k') (mtop k) (slab_caches (kheap k)) S'"
    and "translate (mpmm k') (mtop k') va = translate (mpmm k) (mtop k) va"
proof -
  have o: "pt_inv (mpmm k) (mtop k)" "ranges_ok (mpmm k) (kernel_pagemap k)" "frames_nonzero (mpmm k)" "length (slab_caches (kheap k)) = 6"
    using k by (auto simp: kmem_ok_def)
  have cs: "slab_caches (kheap k) \<noteq> []" using o(4) by auto
  note c = slabs_changed [OF S(1,2) o(1) h'(1) cs h'(2) lay]
  show "slabs_apart (mpmm k') (mtop k) (slab_caches (kheap k)) S'" by (rule c(1))
  have g: "pt_inv (mpmm k') (mtop k)" "\<And>p. good_path p \<Longrightarrow> walk_clear (mpmm k') (mtop k) p = walk_clear (mpmm k) (mtop k) p"
      "\<And>va. translate (mpmm k') (mtop k) va = translate (mpmm k) (mtop k) va"
    using c(2) by (simp_all add: vm_grew_off_def)
  show "translate (mpmm k') (mtop k') va = translate (mpmm k) (mtop k) va" using g(3) k'(1) by simp
  have "ranges_ok (mpmm k') (kernel_pagemap k')" using o(2) g(2,3) by (simp add: ranges_ok_def k'(1))
  moreover have "frames_nonzero (mpmm k')" using frames_nonzero_layout [OF lay] o(3) by simp
  moreover have "\<exists>S F. length (slab_caches (kheap k')) = 6 \<and> heap_rel (mpmm k') (slab_caches (kheap k')) S F
      \<and> slabs_apart (mpmm k') (mtop k') (slab_caches (kheap k')) S"
    using h'(1) c(1) o(4) k' by auto
  ultimately show "kmem_ok k'" using g(1) k'(1) by (simp add: kmem_ok_def)
qed

lemma malloc_small_kmem:
  assumes k: "kmem_ok k" and b: "hhdm_below (mpmm k)" and z: "unat sz \<le> 1008" and m: "malloc sz k = Some (Inr (ptr, k1))"
  shows "kmem_ok k1" and "hhdm_below (mpmm k1)" and "translate (mpmm k1) (mtop k1) va = translate (mpmm k) (mtop k) va"
proof -
  let ?cs = "slab_caches (kheap k)"
  obtain S F where S: "length ?cs = 6" "heap_rel (mpmm k) ?cs S F" "slabs_apart (mpmm k) (mtop k) ?cs S"
    using k by (auto simp: kmem_ok_def)
  have inv: "heap_inv (kheap k)" using S by (auto simp: heap_inv_def)
  have u: "unat (sz + 16) \<le> 1024" using z by (simp add: unat_word_ariths)
  have le: "sz \<le> 1024" using z by (simp add: word_le_nat_alt)
  from kmalloc_ok [OF inv, of "sz + 16"] u m le
  obtain a h1 where a: "kmalloc (sz + 16) (kheap k) = Some (Inr (a, h1))" "heap_inv h1"
      "heap_live h1 = insert a (heap_live (kheap k))" "pmm_layout (hpmm h1) = pmm_layout (mpmm k)"
    by (auto simp: malloc_def)
  obtain S1 F1 where h1: "heap_rel (hpmm h1) ?cs S1 F1" "slab_caches h1 = ?cs" "only_slabs ?cs S (mpmm k) S1 (hpmm h1)"
    by (rule kmalloc_slabs [OF S(2,1) u a(1)])
  let ?k = "k\<lparr>kheap := h1\<rparr>"
  have k1: "kmem_ok ?k" "slabs_apart (mpmm ?k) (mtop ?k) ?cs S1" "\<And>va. translate (mpmm ?k) (mtop ?k) va = translate (mpmm k) (mtop k) va"
    using kmem_ok_slabs [OF k, of ?k S F S1 F1] S(2,3) h1 a(4) by simp_all
  have b1: "hhdm_below (mpmm ?k)" using hhdm_below_layout [OF a(4)] b by simp
  have "kresolve ?k a = a" using kresolve_live [of ?k a] a(2,3) b1 by simp
  then have k2: "k1 = set_kpmm (poke64 a sz (hpmm h1)) ?k" using m a(1) le by (simp add: malloc_def kstore64_def)
  obtain i p n where x: "(i, p, n) \<in> live_objs ?cs S1 F1" "a = objaddr p (wid i) n"
  proof -
    have "a \<in> obj_at ` live_objs ?cs S1 F1" using a(3) heap_live_eq [of h1 S1 F1] h1(1,2) by simp
    then show thesis using that by (auto simp: obj_at_def)
  qed
  then have o: "i < length ?cs" "p \<in> set (S1 i)" "n < slab_n (wid i)" "n \<notin> set (F1 p)"
    by (auto simp: live_objs_def heap_objects_def)
  note po = poke_object [OF h1(1) o, of sz, folded x(2)]
  have lay: "pmm_layout (mpmm k1) = pmm_layout (mpmm ?k)" using po(2) by (simp add: k2 page_upd_def)
  have "kmem_ok k1 \<and> (\<forall>va. translate (mpmm k1) (mtop k1) va = translate (mpmm ?k) (mtop ?k) va)"
    using kmem_ok_slabs [OF k1(1), of k1 S1 F1 S1 F1] po(1) only_slabs_upd [where S = S1, OF po(2) o(1,2)] h1(1,2) k1(2) lay
    by (simp add: k2 set_kpmm_def)
  then show "kmem_ok k1" "translate (mpmm k1) (mtop k1) va = translate (mpmm k) (mtop k) va" using k1(3) by simp_all
  show "hhdm_below (mpmm k1)" using hhdm_below_layout [OF lay] b1 by simp
qed

lemma free_small_kmem:
  assumes k: "kmem_ok k" and a: "a \<in> heap_live (kheap k)" and z: "unat (kload64 k a) \<le> 1024"
  obtains k1 where "free (a + 16) k = Inr k1" "kmem_ok k1" "heap_live (kheap k1) = heap_live (kheap k) - {a}"
    "pmm_layout (mpmm k1) = pmm_layout (mpmm k)" "\<And>va. translate (mpmm k1) (mtop k1) va = translate (mpmm k) (mtop k) va"
proof -
  let ?cs = "slab_caches (kheap k)" and ?k = "k\<lparr>kheap := kfree a (kheap k)\<rparr>"
  obtain S F where S: "length ?cs = 6" "heap_rel (mpmm k) ?cs S F" "slabs_apart (mpmm k) (mtop k) ?cs S"
    using k by (auto simp: kmem_ok_def)
  have inv: "heap_inv (kheap k)" using S by (auto simp: heap_inv_def)
  obtain i p n where x: "(i, p, n) \<in> live_objs ?cs S F" "a = objaddr p (wid i) n"
    using a unfolding heap_live_eq [OF S(2)] by (auto simp: obj_at_def)
  then have o: "i < length ?cs" "p \<in> set (S i)" "n < slab_n (wid i)" "n \<notin> set (F p)"
    by (auto simp: live_objs_def heap_objects_def)
  obtain s' where s': "kfree a (kheap k) = (kheap k)\<lparr>hpmm := s'\<rparr>" "heap_rel s' ?cs S (F(p := n # F p))" "page_upd (mpmm k) p s'"
    using kfree_ok [OF S(2) o] x(2) by blast
  have lay: "pmm_layout s' = pmm_layout (mpmm k)" using s'(3) by (simp add: page_upd_def)
  have "kmem_ok ?k" "\<And>va. translate (mpmm ?k) (mtop ?k) va = translate (mpmm k) (mtop k) va"
    using kmem_ok_slabs [OF k, of ?k S F S "F(p := n # F p)"] S(2,3) s' only_slabs_upd [where S = S, OF s'(3) o(1,2)] lay by simp_all
  moreover have "free (a + 16) k = Inr ?k" using z by (simp add: free_def Let_def word_le_nat_alt)
  ultimately show thesis using that [of ?k] kfree_live [OF inv a] s'(1) lay by simp
qed

section \<open>The state at the start\<close>

text \<open>\<open>setup_heap\<close> takes a new frame for every cache: none is a table, and the tables map as before.\<close>

lemma init_slabcaches_apart:
  assumes "heap_rel (hpmm h) (slab_caches h) S F" and "slabs_apart (hpmm h) pml4 (slab_caches h) S"
    and "pt_inv (hpmm h) pml4" and "length (slab_caches h) + n = 6" and "n \<le> avail (hpmm h)"
    and "zs = map (\<lambda>i. of_nat (8 * wid i)) [length (slab_caches h) ..< 6]"
  shows "\<exists>h' S' F'. init_slabcaches zs h = Inr h' \<and> length (slab_caches h') = 6 \<and> heap_rel (hpmm h') (slab_caches h') S' F'
    \<and> slabs_apart (hpmm h') pml4 (slab_caches h') S' \<and> vm_grew (hpmm h) pml4 (hpmm h')
    \<and> (\<forall>va. translate (hpmm h') pml4 va = translate (hpmm h) pml4 va) \<and> avail (hpmm h) = avail (hpmm h') + n"
  using assms
proof (induction n arbitrary: h zs S F)
  case 0
  have "init_slabcaches zs h = Inr h" "length (slab_caches h) = 6" using 0(4,6) by simp_all
  then show ?case using 0(1,2) vm_grew_refl [OF 0(3)] by (intro exI [of _ h] exI [of _ S] exI [of _ F]) simp
next
  case (Suc n)
  let ?m = "length (slab_caches h)" and ?s = "hpmm h"
  have m: "?m < 6" using Suc.prems(4) by simp
  have zs: "zs = of_nat (8 * wid ?m) # map (\<lambda>i. of_nat (8 * wid i)) [Suc ?m ..< 6]"
    using Suc.prems(6) m by (simp add: upt_conv_Cons)
  obtain p s1 where ok: "new_slab (of_nat (8 * wid ?m)) ?s = Inr (p, s1)" "page_new ?s p s1" "pte s1 p 0 = 0"
      "slab_ok s1 p (wid ?m) (rev [0 ..< slab_n (wid ?m)])"
    using new_slab_ok [OF pt_invD(1) [OF Suc.prems(3)] wid_ok [OF m]] Suc.prems(5) by auto
  let ?c = "\<lparr>sc_size = of_nat (8 * wid ?m), sc_slabs = p\<rparr>"
  let ?h = "h\<lparr>hpmm := s1, slab_caches := slab_caches h @ [?c]\<rparr>"
  let ?S = "S(?m := [p])" and ?F = "F(p := rev [0 ..< slab_n (wid ?m)])"
  have step: "init_slabcaches zs h = init_slabcaches (map (\<lambda>i. of_nat (8 * wid i)) [Suc ?m ..< 6]) ?h"
    unfolding zs using ok(1) by (simp add: init_slabcache_def del: of_nat_mult)
  note g = page_new_grew [OF Suc.prems(3) ok(2)]
  have h': "heap_rel (hpmm ?h) (slab_caches ?h) ?S ?F"
    using heap_rel_new_cache [OF Suc.prems(1) m ok(2-4) refl] by simp
  have "slabs_apart s1 pml4 (slab_caches h) S" by (rule slabs_grew(2) [OF Suc.prems(1,2) g(1)])
  then have ap: "slabs_apart (hpmm ?h) pml4 (slab_caches ?h) ?S" using g(2) by (auto simp: slabs_apart_def less_Suc_eq)
  have inv1: "pt_inv (hpmm ?h) pml4" using g(1) by (simp add: vm_grew_def)
  have av: "avail ?s = Suc (avail s1)" using ok(2) by (simp add: page_new_def)
  have "\<exists>h' S' F'. init_slabcaches (map (\<lambda>i. of_nat (8 * wid i)) [Suc ?m ..< 6]) ?h = Inr h' \<and> length (slab_caches h') = 6
      \<and> heap_rel (hpmm h') (slab_caches h') S' F' \<and> slabs_apart (hpmm h') pml4 (slab_caches h') S' \<and> vm_grew (hpmm ?h) pml4 (hpmm h')
      \<and> (\<forall>va. translate (hpmm h') pml4 va = translate (hpmm ?h) pml4 va) \<and> avail (hpmm ?h) = avail (hpmm h') + n"
    by (rule Suc.IH [OF h' ap inv1]) (use Suc.prems(4,5) av in simp_all)
  then show ?case using step vm_grew_trans [OF g(1)] g(3) av by auto
qed

lemma ranges_grew:
  assumes "ranges_ok s pm" "vm_grew s (top_level pm) s'" "\<And>va. translate s' (top_level pm) va = translate s (top_level pm) va"
  shows "ranges_ok s' pm"
  using assms by (simp add: ranges_ok_def vm_grew_def)

lemma setup_kmem_ok:
  assumes inv: "pt_inv s (top_level pm)" and rng: "ranges_ok s pm" and nz: "frames_nonzero s" and av: "6 \<le> avail s"
  obtains h where "setup_heap s = Inr h" "kmem_ok \<lparr>kheap = h, kernel_pagemap = pm\<rparr>" "avail s = avail (hpmm h) + 6"
    "pmm_layout (hpmm h) = pmm_layout s" "\<And>va. translate (hpmm h) (top_level pm) va = translate s (top_level pm) va"
proof -
  let ?h = "\<lparr>hpmm = s, slab_caches = []\<rparr>"
  have "[32, 64, 128, 256, 512, 1024] = map (\<lambda>i. of_nat (8 * wid i) :: u64) [0 ..< 6]"
    by (simp add: wid_def upt_conv_Cons)
  moreover have "heap_rel (hpmm ?h) (slab_caches ?h) (\<lambda>_. []) (\<lambda>_. [])" using pt_invD(1) [OF inv] by (simp add: heap_rel_def)
  moreover have "slabs_apart (hpmm ?h) (top_level pm) (slab_caches ?h) (\<lambda>_. [])" by (simp add: slabs_apart_def)
  ultimately obtain h S F where h: "setup_heap s = Inr h" "length (slab_caches h) = 6" "heap_rel (hpmm h) (slab_caches h) S F"
      "slabs_apart (hpmm h) (top_level pm) (slab_caches h) S" "vm_grew s (top_level pm) (hpmm h)"
      "\<And>va. translate (hpmm h) (top_level pm) va = translate s (top_level pm) va" "avail s = avail (hpmm h) + 6"
    using init_slabcaches_apart [of ?h "\<lambda>_. []" "\<lambda>_. []" "top_level pm" 6 "[32, 64, 128, 256, 512, 1024]"] inv av
    by (auto simp: setup_heap_def)
  have "frames_nonzero (hpmm h)" using frames_nonzero_layout [of "hpmm h" s] h(5) nz by (simp add: vm_grew_def)
  then have "kmem_ok \<lparr>kheap = h, kernel_pagemap = pm\<rparr>"
    using ranges_grew [OF rng h(5,6)] h(2-5) by (auto simp: kmem_ok_def vm_grew_def)
  then show thesis using that h(1,5-7) by (simp add: vm_grew_def)
qed

lemma ranges_ok_init:
  assumes "free_ranges pm = []" "used_ranges pm = []"
    and "\<And>va. VALLOC_RANGE_START \<le> va \<Longrightarrow> va < VALLOC_RANGE_END \<Longrightarrow> walk_clear s (top_level pm) (va_path va)"
    and "\<And>va. VALLOC_RANGE_START \<le> va \<Longrightarrow> va < VALLOC_RANGE_END \<Longrightarrow> translate s (top_level pm) va = None"
  shows "ranges_ok s (valloc_init pm)" and "top_level (valloc_init pm) = top_level pm"
proof -
  have fr: "free_ranges (valloc_init pm) = [\<lparr>vaddr = VALLOC_RANGE_START, rsize = VALLOC_RANGE_END - VALLOC_RANGE_START\<rparr>]"
      "used_ranges (valloc_init pm) = []" "top_level (valloc_init pm) = top_level pm"
    using assms(1,2) by (simp_all add: valloc_init_def)
  have "rt.cover (free_ranges (valloc_init pm)) = {unat VALLOC_RANGE_START ..< unat VALLOC_RANGE_END}"
      "rt.cover (used_ranges (valloc_init pm)) = {}"
    by (auto simp: fr rt.cover_def bytes_in_def VALLOC_RANGE_START_def VALLOC_RANGE_END_def)
  moreover have "vma_inv (valloc_init pm)"
    by (auto simp: vma_inv_def fr tree_ok_def range_ok_def rt.cover_def bytes_in_def VALLOC_RANGE_START_def VALLOC_RANGE_END_def)
  moreover have "translate s (top_level pm) va = None" if "unat va \<in> {unat VALLOC_RANGE_START ..< unat VALLOC_RANGE_END}" for va
    using assms(4) [of va] that by (simp add: word_le_nat_alt word_less_nat_alt)
  ultimately show "ranges_ok s (valloc_init pm)" using assms(3) fr(3) by (simp add: ranges_ok_def)
  show "top_level (valloc_init pm) = top_level pm" by (rule fr(3))
qed

lemma demo_kmem_ok:
  obtains k where "kmem_ok k" "avail (mpmm k) = 9" "hhdm_below (mpmm k)"
    "free_ranges (kernel_pagemap k) = [\<lparr>vaddr = VALLOC_RANGE_START, rsize = VALLOC_RANGE_END - VALLOC_RANGE_START\<rparr>]"
proof -
  let ?pm = "\<lparr>top_level = 0xFFFF800000001000, free_ranges = [], used_ranges = []\<rparr>"
  have "translate demo_vm t va = None" for t va by (simp add: translate_def va_path_def demo_vm_pte)
  then have r: "ranges_ok demo_vm (valloc_init ?pm)" "top_level (valloc_init ?pm) = 0xFFFF800000001000"
    using ranges_ok_init [of ?pm demo_vm] demo_vm_clear by simp_all
  have "page_addr demo_vm (0, n) \<noteq> 0" if "n < 16" for n
  proof -
    have "pmm_wf demo_vm" using pt_invD(1) [OF demo_pt_inv] pmm_inv_wf by blast
    then have "unat (page_addr demo_vm (0, n)) \<noteq> 0"
      using unat_page_addr [of demo_vm 0 n] that unfolding demo_vm_pages by (simp add: demo_vm_def)
    then show ?thesis by auto
  qed
  then have "frames_nonzero demo_vm" unfolding frames_nonzero_def demo_vm_pages by auto
  then obtain h where h: "kmem_ok \<lparr>kheap = h, kernel_pagemap = valloc_init ?pm\<rparr>" "avail demo_vm = avail (hpmm h) + 6"
      "pmm_layout (hpmm h) = pmm_layout demo_vm"
    using setup_kmem_ok [of demo_vm "valloc_init ?pm"] r demo_pt_inv demo_vm_avail by auto
  moreover have "free_ranges (valloc_init ?pm) = [\<lparr>vaddr = VALLOC_RANGE_START, rsize = VALLOC_RANGE_END - VALLOC_RANGE_START\<rparr>]"
    by (simp add: valloc_init_def)
  ultimately show thesis using that [of "\<lparr>kheap = h, kernel_pagemap = valloc_init ?pm\<rparr>"] demo_vm_avail demo_below hhdm_below_layout [OF h(3)] by simp
qed

section \<open>Large blocks, taken and given back\<close>

lemma block_unmapped:
  assumes rng: "ranges_ok s pm" and al: "page_aligned block" and sub: "{unat block ..< unat block + 4096 * n} \<subseteq> rt.cover (free_ranges pm)"
    and j: "j < n" "same_page (block + of_nat j * PAGE_SIZE) va"
  shows "translate s (top_level pm) va = None"
proof -
  have n: "0 < n" using j(1) by simp
  have "rt.cover (free_ranges pm) \<subseteq> {unat VALLOC_RANGE_START ..< unat VALLOC_RANGE_END}" using rng by (simp add: ranges_ok_def)
  with sub have R: "{unat block ..< unat block + 4096 * n} \<subseteq> {unat VALLOC_RANGE_START ..< unat VALLOC_RANGE_END}" by (rule subset_trans)
  have "unat (block + of_nat j * PAGE_SIZE) \<in> rt.cover (free_ranges pm)"
    using sub block_addresses(2) [OF al R n j(1)] j(1) by auto
  then have "translate s (top_level pm) (block + of_nat j * PAGE_SIZE) = None" using rng by (simp add: ranges_ok_def)
  then show ?thesis using translate_page [OF j(2), of s "top_level pm"] by simp
qed



section \<open>Any request\<close>

text \<open>
  C35: \<open>malloc\<close> of any size up to \<open>2\<^sup>4\<^sup>7\<close> bytes for which a large enough range of addresses is free ends. It
  stops the kernel when there are no frames left, and for the sixteen sizes that neither path
  serves; otherwise it keeps the joint invariant of frames, page tables, ranges and slabs, every
  translation that existed, and every object in use.
\<close>

theorem malloc_keeps:
  assumes k: "kmem_ok k" and b: "hhdm_below (mpmm k)" and z: "unat sz \<le> 2 ^ 47"
    and r: "1024 < unat sz \<longrightarrow> (\<exists>r \<in> set (free_ranges (kernel_pagemap k)). ALIGN_UP (sz + 16) PAGE_SIZE \<le> rsize r)"
  shows "malloc sz k = Some (Inl (Panic ''PMM: out of memory'')) \<and> avail (mpmm k) < 4 * block_count sz
    \<or> malloc sz k = Some (Inl (Panic ''no mem'')) \<and> 1008 < unat sz \<and> unat sz \<le> 1024
    \<or> (\<exists>p k1. malloc sz k = Some (Inr (p, k1)) \<and> kmem_ok k1 \<and> hhdm_below (mpmm k1)
        \<and> (\<forall>va f. translate (mpmm k) (mtop k) va = Some f \<longrightarrow> translate (mpmm k1) (mtop k1) va = Some f)
        \<and> heap_live (kheap k) \<subseteq> heap_live (kheap k1))"
proof -
  have inv: "heap_inv (kheap k)" using k by (auto simp: kmem_ok_def heap_inv_def)
  consider (small) "unat sz \<le> 1008" | (gap) "1008 < unat sz" "unat sz \<le> 1024" | (large) "1024 < unat sz" by linarith
  then show ?thesis
  proof cases
    case small
    have "unat (sz + 16) \<le> 1024" "sz \<le> 1024" using small by (simp_all add: unat_word_ariths word_le_nat_alt)
    with kmalloc_ok [OF inv, of "sz + 16"]
    consider (oom) "malloc sz k = Some (Inl (Panic ''PMM: out of memory''))" "avail (mpmm k) = 0"
      | (ok) p k1 where "malloc sz k = Some (Inr (p, k1))" by (auto simp: malloc_def)
    then show ?thesis
    proof cases
      case oom
      then show ?thesis by (simp add: block_count_def)
    next
      case (ok p k1)
      then show ?thesis using malloc_small_kmem [OF k b small ok] malloc_small_ok [OF inv b small ok] by auto
    qed
  next
    case gap
    have "1024 < unat (sz + 16)" using gap by (simp add: unat_word_ariths)
    then show ?thesis using kmalloc_too_big [OF inv] gap by (simp add: malloc_def word_le_nat_alt)
  next
    case large
    then have fit: "\<exists>r \<in> set (free_ranges (kernel_pagemap k)). ALIGN_UP (sz + 16) PAGE_SIZE \<le> rsize r" using r by blast
    from malloc_large_ok [OF k large z fit] show ?thesis
    proof (elim disjE exE conjE)
      fix block ns and k1 :: kmemory
      assume m: "malloc sz k = Some (Inr (block + 16, k1))" "kmem_ok k1" "fresh_block (mpmm k) (mtop k) (mpmm k1) block ns"
        "mtop k1 = mtop k" "pmm_layout (mpmm k1) = pmm_layout (mpmm k)" "heap_live (kheap k1) = heap_live (kheap k)"
        "page_aligned block" "length ns = block_count sz" "vma_moved (free_ranges (kernel_pagemap k)) (used_ranges (kernel_pagemap k)) block
          (4096 * block_count sz) (free_ranges (kernel_pagemap k1)) (used_ranges (kernel_pagemap k1))"
      have rng: "ranges_ok (mpmm k) (kernel_pagemap k)" using k by (simp add: kmem_ok_def)
      have sub: "{unat block ..< unat block + 4096 * block_count sz} \<subseteq> rt.cover (free_ranges (kernel_pagemap k))"
        using m(9) by (simp add: vma_moved_def)
      have "translate (mpmm k1) (mtop k1) va = Some f" if "translate (mpmm k) (mtop k) va = Some f" for va f
        using that m(3,4,8) block_unmapped [OF rng m(7) sub, of _ va] unfolding fresh_block_def by (metis option.distinct(1))
      then show ?thesis using m hhdm_below_layout [OF m(5)] b by auto
    qed simp_all
  qed
qed

theorem malloc_keeps_witness:
  "\<exists>k p k1. kmem_ok k \<and> malloc 2000 k = Some (Inr (p, k1)) \<and> kmem_ok k1 \<and> heap_live (kheap k) \<subseteq> heap_live (kheap k1)"
proof -
  obtain k where k: "kmem_ok k" "avail (mpmm k) = 9" "hhdm_below (mpmm k)"
      "free_ranges (kernel_pagemap k) = [\<lparr>vaddr = VALLOC_RANGE_START, rsize = VALLOC_RANGE_END - VALLOC_RANGE_START\<rparr>]"
    by (rule demo_kmem_ok)
  have "\<exists>r \<in> set (free_ranges (kernel_pagemap k)). ALIGN_UP (2000 + 16) PAGE_SIZE \<le> rsize r"
    unfolding k(4) by (simp add: ALIGN_UP_def PAGE_SIZE_def VALLOC_RANGE_START_def VALLOC_RANGE_END_def)
  moreover have "block_count 2000 = 1" by (simp add: block_count_def)
  ultimately show ?thesis using malloc_keeps [OF k(1,3), of 2000] k(1,2) by auto
qed

end
