(* ===== verification/Boot.thy ===== *)
theory Boot
  imports Vm_Setup Kernel_Memory Shell Cpu_Tables Cmdline
begin

text \<open>
  The start of the kernel (\<open>kmain\<close> of \<open>kernel.c\<close>): the memory managers brought up one after the
  other, the wait for the Enter key, and the first three threads. Shown here: what \<open>setup_vmm\<close>,
  \<open>setup_heap\<close> and \<open>valloc_init\<close> leave satisfies the joint invariant of \<open>Kernel_Memory\<close>, from
  which every later \<open>malloc\<close> starts; and from such a state the three threads are made and linked.
\<close>

section \<open>The memory managers\<close>

abbreviation bpm :: "kernel \<Rightarrow> kmemory" where "bpm k \<equiv> pkm (plat (kdev k))"

definition boot_heap :: "kernel \<Rightarrow> kernel kres option" where
  "boot_heap k = kobind (Some (setup_heap (kpmm k))) (\<lambda>h.
     kputs (bytes_of ''HEAP: Heap Setup'' @ [10]) (set_kmem ((bpm k)\<lparr>kheap := h\<rparr>) k))"

definition boot_valloc :: "kernel \<Rightarrow> kernel kres option" where
  "boot_valloc k = kobind (kalloc sizeof_page_range k) (\<lambda>(_, k1).
     kputs (bytes_of ''VMA: Virtual Memory Allocator Setup'' @ [10])
       (set_kmem ((bpm k1)\<lparr>kernel_pagemap := valloc_init (kernel_pagemap (bpm k1))\<rparr>) k1))"

definition memory_up :: "boot_info \<Rightarrow> kernel \<Rightarrow> kernel kres option" where
  "memory_up b k = kobind (setup_vmm b k) (\<lambda>k1. kobind (boot_heap k1) boot_valloc)"

section \<open>The other stages of \<open>kmain\<close>\<close>

text \<open>The processor's tables and registers.\<close>

definition cpu_up :: "cpu_state \<Rightarrow> cpu_state" where
  "cpu_up c = (case setup_fred (setup_gdt (setup_control_registers c)) of (ok, c1) \<Rightarrow> if ok then c1 else setup_idt c1)"

definition in_plat :: "(platform \<Rightarrow> platform kres option) \<Rightarrow> kernel \<Rightarrow> kernel kres option" where
  "in_plat f k = kobind (f (plat (kdev k))) (\<lambda>h. Some (Inr (set_plat h k)))"

definition in_dev :: "(devices \<Rightarrow> devices kres option) \<Rightarrow> kernel \<Rightarrow> kernel kres option" where
  "in_dev f k = kobind (f (kdev k)) (\<lambda>d. Some (Inr (k\<lparr>kdev := d\<rparr>)))"

text \<open>What comes from outside: the boot loader's answers, the contents of uninitialised locals, linker addresses, and what happens meanwhile.\<close>

record kmain_env =
  cmdline :: u64
  hhdm_offset :: u64
  rsdp :: u64
  boot_modules :: "boot_module list"
  boot_gunzip :: "u64 \<Rightarrow> u64 \<Rightarrow> u64"
  read_slot :: "u8 list"
  key_slot :: "nat \<Rightarrow> u8"
  meanwhile :: "nat \<Rightarrow> kernel \<Rightarrow> kernel"
  boot_dispatch :: dispatch_env
  int3_frame :: interrupt_frame
  sym_syscall_handler :: u64
  sym_idle_thread :: u64
  sym_reaper_thread :: u64
  sym_start_shell :: u64

text \<open>The text of a NUL-terminated buffer.\<close>

definition c_text :: "u8 list \<Rightarrow> u8 list" where
  "c_text = takeWhile (\<lambda>c. c \<noteq> 0)"

definition greeting :: "platform \<Rightarrow> u8 list" where
  "greeting h = [27, 99, 27] @ bytes_of ''[2J'' @ [27] @ bytes_of ''[H'' @ bytes_of ''KERNEL: Kernel Started'' @ [10]
     @ bytes_of ''KERNEL: CPU Vendor: '' @ c_text (get_cpu_vendor h) @ [10] @ bytes_of ''KERNEL: CPU Name: '' @ c_text (get_cpu_name h) @ [10]
     @ (if cpu_feature_bit 1 0 CHR ''c'' 31 h then bytes_of ''KERNEL: Hypervisor ID: '' @ c_text (get_hypervisor_id h) @ [10] else [])"

definition boot_tarfs :: "kmain_env \<Rightarrow> kernel \<Rightarrow> kernel kres option" where
  "boot_tarfs e k = kobind (init_tarfs (boot_gunzip e) (boot_modules e) (ubytes (kusr k)) Tar_ops (files (kdev k))) (\<lambda>(archive, fs).
     Some (Inr (k\<lparr>karchive := archive, kdev := (kdev k)\<lparr>files := fs\<rparr>\<rparr>)))"

definition boot_test :: "kmain_env \<Rightarrow> kernel \<Rightarrow> kernel kres option" where
  "boot_test e k = kobind (kfs_read (bytes_of ''/test.txt'') (read_slot e) 512 k) (\<lambda>(status, readBuf, k1).
     if status > 0
     then kobind (buffer_string readBuf) (\<lambda>str.
            kputs (bytes_of ''KERNEL: Testing tarfs by printing \"test.txt\" from initramfs: '' @ str) k1)
     else Some (Inr k1))"

text \<open>\<open>DBG_LOG\<close>, which prints only when the command line asked for it.\<close>

definition DBG_LOG :: "bool \<Rightarrow> string \<Rightarrow> kernel \<Rightarrow> kernel kres option" where
  "DBG_LOG on msg k =
     (if on then kputs ([27] @ bytes_of ''[93mDBG: '' @ bytes_of msg @ [27] @ bytes_of ''[0m'' @ [10]) k else Some (Inr k))"

definition boot_debugger :: "kmain_env \<Rightarrow> bool \<Rightarrow> kernel \<Rightarrow> kernel kres option" where
  "boot_debugger e dbg k =
     (if dbgstub_enabled (ksched k)
      then (let k1 = k\<lparr>kdev := (kdev k)\<lparr>serial_works := False\<rparr>\<rparr>
            in kobind (dbgstub_init (bpm k1) (kdbg k1)) (\<lambda>(m, s).
               kobind (DBG_LOG dbg ''Awaiting Debugger'' ((set_kmem m k1)\<lparr>kdbg := s\<rparr>)) (\<lambda>k2.
               kobind (dispatch_interupt (boot_dispatch e) ((int3_frame e)\<lparr>if_vector := 3\<rparr>) k2) (\<lambda>(_, k3).
                 Some (Inr k3)))))
      else Some (Inr k))"

definition drivers_up :: "kmain_env \<Rightarrow> bool \<Rightarrow> kernel \<Rightarrow> kernel kres option" where
  "drivers_up e dbg k =
     kobind (in_plat (\<lambda>h. kobind (setup_acpi (ubytes (kusr k)) (hhdmOffset (kpmm k)) (rsdp e) h) (\<lambda>(_, h1). Some (Inr h1))) k) (\<lambda>k1.
     kobind (in_plat (\<lambda>h. Some (Inr (setup_irqs h))) k1) (\<lambda>k2.
     kobind (in_plat setup_timer k2) (\<lambda>k3.
     kobind (in_plat (\<lambda>h. kobind (setup_apic h) (\<lambda>(_, h1). Some (Inr h1))) k3) (\<lambda>k4.
     kobind (boot_tarfs e k4) (\<lambda>k5.
     kobind (boot_test e k5) (\<lambda>k6.
     kobind (in_dev setup_tty k6) (\<lambda>k7.
     kobind (in_dev setup_serial k7) (\<lambda>k8.
     kobind (boot_debugger e dbg k8) (\<lambda>k9.
     kobind (in_dev setup_ps2 k9) (\<lambda>k10.
     kobind (in_dev setup_keyboard k10) (init_syscall (sym_syscall_handler e))))))))))))"

text \<open>
  The wait for Enter. \<open>keyPressed\<close> is a local without a value: its byte in round \<open>n\<close> is whatever
  \<open>key_slot\<close> says, and \<open>fs_read\<close> writes it only when there is a key.
\<close>

partial_function (option) enter_loop :: "kmain_env \<Rightarrow> nat \<Rightarrow> kernel \<Rightarrow> kernel kres option" where
  "enter_loop e n k =
     kobind (kfs_read (bytes_of ''/dev/kbd'') [key_slot e n] 1 k) (\<lambda>x. case x of (_, keyPressed, k1) \<Rightarrow>
     kobind (in_plat (timer_blocking_sleep_ms 1) k1) (\<lambda>k2.
       if hd keyPressed = 10 \<or> hd keyPressed = 13 then Some (Inr k2) else enter_loop e (Suc n) (meanwhile e n k2)))"

definition NO_ARGS :: args_t where
  "NO_ARGS = \<lparr>arg1 = 0, arg2 = 0, arg3 = 0, arg4 = 0, arg5 = 0, arg6 = 0\<rparr>"

definition start_threads :: "kmain_env \<Rightarrow> kernel \<Rightarrow> kernel kres option" where
  "start_threads e k =
     kobind (in_sched (create_thread (sym_idle_thread e) 0 NO_ARGS) k) (\<lambda>k1.
     kobind (in_sched (create_thread (sym_reaper_thread e) 0 NO_ARGS) k1) (\<lambda>k2.
     kobind (in_sched (create_thread (sym_start_shell e) 0 NO_ARGS) k2) (\<lambda>k3.
       Some (Inr (set_plat ((plat (kdev k3))\<lparr>shouldSchedule := True\<rparr>) k3)))))"

text \<open>The frames, from the memory map the boot loader gives.\<close>

definition boot_pmm :: "kmain_env \<Rightarrow> boot_info \<Rightarrow> kernel \<Rightarrow> kernel kres option" where
  "boot_pmm e b k = kobind (Some (setup_pmm (hhdm_offset e) (boot_memmap b) (kmem (kpmm k)))) (\<lambda>s.
     kputs (bytes_of ''PMM: '' @ dec_digits (unat (drop_bit 20 (total_pages s * PAGE_SIZE))) @ bytes_of '' MiB usable memory detected'' @ [10]
       @ bytes_of ''PMM: Physical Memory Manager Setup'' @ [10]) (put_pmm s k))"

text \<open>
  \<open>kmain\<close> up to its endless loop, without the terminal's set-up and the processor's tables
  (\<open>cpu_up\<close>), whose state is apart from the rest.
\<close>

definition kmain :: "kmain_env \<Rightarrow> boot_info \<Rightarrow> machine \<Rightarrow> machine kres option" where
  "kmain e b s =
     kobind (kputs (greeting (plat (kdev (kern s)))) (kern s)) (\<lambda>k0.
     case setup_cmdline (cmdline e) (s\<lparr>kern := k0\<rparr>) of None \<Rightarrow> None | Some s1 \<Rightarrow>
     kobind (boot_pmm e b (kern s1)) (\<lambda>k1.
     kobind (memory_up b k1) (\<lambda>k2.
     kobind (drivers_up e (dbg_enabled s1) k2) (\<lambda>k3.
     kobind (kputs (bytes_of ''KERNEL: Press Enter to Start the Builtin Kernel Test CLI'' @ [10]) k3) (\<lambda>k4.
     kobind (enter_loop e 0 k4) (\<lambda>k5.
     kobind (start_threads e k5) (\<lambda>k6. Some (Inr (s1\<lparr>kern := k6\<rparr>)))))))))"

section \<open>Memory\<close>

lemma set_kmem_rest: "bpm (set_kmem m k) = m" "ksched (set_kmem m k) = ksched k" "console_ready (set_kmem m k) = console_ready k"
  by (simp_all add: set_kmem_def set_plat_def console_ready_def tx_ready_def)

lemma window_high:
  assumes "VALLOC_RANGE_START \<le> va" "va < VALLOC_RANGE_END"
  shows "UPPER_HALF \<le> unat va" "unat VALLOC_RANGE_START \<le> unat va" "unat va < KERNEL_TOP"
proof -
  have "unat VALLOC_RANGE_START \<le> unat va" "unat va < unat VALLOC_RANGE_END" using assms by (simp_all add: word_le_nat_alt word_less_nat_alt)
  moreover have "UPPER_HALF \<le> unat VALLOC_RANGE_START" "unat VALLOC_RANGE_END \<le> KERNEL_TOP"
    by (simp_all add: UPPER_HALF_def KERNEL_TOP_def VALLOC_RANGE_START_def VALLOC_RANGE_END_def)
  ultimately show "UPPER_HALF \<le> unat va" "unat VALLOC_RANGE_START \<le> unat va" "unat va < KERNEL_TOP" by simp_all
qed

text \<open>The state the boot loader's promises and \<open>setup_pmm\<close> give.\<close>

definition memory_bootable :: "boot_info \<Rightarrow> kernel \<Rightarrow> bool" where
  "memory_bootable b k \<longleftrightarrow> boot_ok b (kpmm k) \<and> console_ready k \<and> mem_below b (kpmm k) (unat VALLOC_RANGE_START)
     \<and> hhdm_below (kpmm k) \<and> frames_nonzero (kpmm k)
     \<and> free_ranges (kernel_pagemap (bpm k)) = [] \<and> used_ranges (kernel_pagemap (bpm k)) = []
     \<and> boot_frames b (gb_pages k) (kpmm k) + 7 \<le> avail (kpmm k)"

lemma empty_ranges:
  assumes "free_ranges pm = []" "used_ranges pm = []"
    and "\<And>va. VALLOC_RANGE_START \<le> va \<Longrightarrow> va < VALLOC_RANGE_END \<Longrightarrow> walk_clear s (top_level pm) (va_path va)"
  shows "ranges_ok s pm"
  using assms by (simp add: ranges_ok_def vma_inv_def tree_ok_def rt.cover_def)

lemma boot_vmm_up:
  assumes "memory_bootable b k"
  obtains k1 where "setup_vmm b k = Some (Inr k1)" "vm_ready b (gb_pages k) (kpmm k) (mtop (bpm k1)) (kpmm k1)" "console_ready k1"
    "pt_inv (kpmm k1) (mtop (bpm k1))" "pmm_layout (kpmm k1) = pmm_layout (kpmm k)" "avail (kpmm k) \<le> avail (kpmm k1) + boot_frames b (gb_pages k) (kpmm k)"
    "free_ranges (kernel_pagemap (bpm k1)) = []" "used_ranges (kernel_pagemap (bpm k1)) = []"
    "\<And>va. VALLOC_RANGE_START \<le> va \<Longrightarrow> va < VALLOC_RANGE_END \<Longrightarrow>
       translate (kpmm k1) (mtop (bpm k1)) va = None \<and> walk_clear (kpmm k1) (mtop (bpm k1)) (va_path va)"
proof -
  have m: "boot_ok b (kpmm k)" "console_ready k" "mem_below b (kpmm k) (unat VALLOC_RANGE_START)"
      "free_ranges (kernel_pagemap (bpm k)) = []" "used_ranges (kernel_pagemap (bpm k)) = []"
      "boot_frames b (gb_pages k) (kpmm k) + 7 \<le> avail (kpmm k)"
    using assms by (simp_all add: memory_bootable_def)
  from setup_vmm_outcome [OF m(1,2)] m(6) obtain k1 t where k1: "setup_vmm b k = Some (Inr k1)"
      "vm_ready b (gb_pages k) (kpmm k) (mtop (bpm k1)) (kpmm k1)" "console_ready k1"
      "kernel_pagemap (bpm k1) = (kernel_pagemap (bpm k))\<lparr>top_level := t\<rparr>"
      "avail (kpmm k) \<le> avail (kpmm k1) + boot_frames b (gb_pages k) (kpmm k)"
    by auto
  have "translate (kpmm k1) (mtop (bpm k1)) va = None \<and> walk_clear (kpmm k1) (mtop (bpm k1)) (va_path va)"
    if "VALLOC_RANGE_START \<le> va" "va < VALLOC_RANGE_END" for va
    using k1(2) m(3) window_high [OF that] unfolding vm_ready_def by blast
  then show thesis using that [of k1] k1 m(4-6) by (simp add: vm_ready_def)
qed

lemma boot_heap_up:
  assumes con: "console_ready k" and inv: "pt_inv (kpmm k) (mtop (bpm k))" and rng: "ranges_ok (kpmm k) (kernel_pagemap (bpm k))"
    and nz: "frames_nonzero (kpmm k)" and av: "7 \<le> avail (kpmm k)"
  obtains k' where "boot_heap k = Some (Inr k')" "console_ready k'" "kmem_ok (bpm k')" "avail (kpmm k) = avail (kpmm k') + 6"
    "kernel_pagemap (bpm k') = kernel_pagemap (bpm k)" "pmm_layout (kpmm k') = pmm_layout (kpmm k)"
    "\<And>va. translate (kpmm k') (mtop (bpm k)) va = translate (kpmm k) (mtop (bpm k)) va"
proof -
  obtain h where h: "setup_heap (kpmm k) = Inr h" "kmem_ok \<lparr>kheap = h, kernel_pagemap = kernel_pagemap (bpm k)\<rparr>"
      "avail (kpmm k) = avail (hpmm h) + 6" "pmm_layout (hpmm h) = pmm_layout (kpmm k)"
      "\<And>va. translate (hpmm h) (mtop (bpm k)) va = translate (kpmm k) (mtop (bpm k)) va"
    using setup_kmem_ok [OF inv rng nz] av by auto
  define m where "m = (bpm k)\<lparr>kheap := h\<rparr>"
  define msg where "msg = bytes_of ''HEAP: Heap Setup'' @ [10]"
  have m: "m = \<lparr>kheap = h, kernel_pagemap = kernel_pagemap (bpm k)\<rparr>" by (simp add: m_def)
  have "console_ready (set_kmem m k)" using con by (simp add: set_kmem_rest)
  then obtain k' where k': "kputs msg (set_kmem m k) = Some (Inr k')" "console_wrote msg (set_kmem m k) k'" using kputs_ready by blast
  note r = console_wrote_rest [OF k'(2), unfolded set_kmem_rest]
  have "boot_heap k = Some (Inr k')" using k'(1) h(1) by (simp add: boot_heap_def msg_def [symmetric] m_def [symmetric])
  then show thesis using that [of k'] r(1,4) con h(2-5) av by (simp add: m)
qed

text \<open>The node of the window comes from the heap before the window is there.\<close>

lemma boot_valloc_up:
  assumes con: "console_ready k" and ok: "kmem_ok (bpm k)" and b: "hhdm_below (kpmm k)" and av: "0 < avail (kpmm k)"
    and emp: "free_ranges (kernel_pagemap (bpm k)) = []" "used_ranges (kernel_pagemap (bpm k)) = []"
    and win: "\<And>va. VALLOC_RANGE_START \<le> va \<Longrightarrow> va < VALLOC_RANGE_END \<Longrightarrow> translate (kpmm k) (mtop (bpm k)) va = None"
  obtains k' where "boot_valloc k = Some (Inr k')" "console_ready k'" "kmem_ok (bpm k')" "hhdm_below (kpmm k')"
    "free_ranges (kernel_pagemap (bpm k')) = [\<lparr>vaddr = VALLOC_RANGE_START, rsize = VALLOC_RANGE_END - VALLOC_RANGE_START\<rparr>]"
    "used_ranges (kernel_pagemap (bpm k')) = []"
    "\<And>va. translate (kpmm k') (mtop (bpm k')) va = translate (kpmm k) (mtop (bpm k)) va" "avail (kpmm k) \<le> avail (kpmm k') + 1"
proof -
  let ?m = "bpm k"
  have inv: "heap_inv (kheap ?m)" using ok by (auto simp: kmem_ok_def heap_inv_def)
  have z: "unat sizeof_page_range \<le> 1008" by (simp add: sizeof_page_range_def)
  obtain p m1 where m1: "malloc sizeof_page_range ?m = Some (Inr (p, m1))"
    using kmalloc_ok [OF inv, of "sizeof_page_range + 16"] av by (auto simp: malloc_def sizeof_page_range_def)
  note s = malloc_small_kmem [OF ok b z m1]
  have pm: "kernel_pagemap m1 = kernel_pagemap ?m"
    using m1 by (auto simp: malloc_def sizeof_page_range_def kstore64_def set_kpmm_def split: option.splits sum.splits)
  define m2 where "m2 = m1\<lparr>kernel_pagemap := valloc_init (kernel_pagemap m1)\<rparr>"
  have rng: "ranges_ok (mpmm m1) (valloc_init (kernel_pagemap m1))" and tl: "top_level (valloc_init (kernel_pagemap m1)) = mtop m1"
    using ranges_ok_init [of "kernel_pagemap m1" "mpmm m1"] s(1,3) win emp pm by (simp_all add: kmem_ok_def ranges_ok_def)
  have ok2: "kmem_ok m2" using s(1) rng tl by (simp add: kmem_ok_def m2_def)
  define msg where "msg = bytes_of ''VMA: Virtual Memory Allocator Setup'' @ [10]"
  define k2 where "k2 = set_kmem m2 (set_kmem m1 k)"
  have k2: "console_ready k2" "bpm k2 = m2" using con by (simp_all add: k2_def set_kmem_rest)
  then obtain k' where k': "kputs msg k2 = Some (Inr k')" "console_wrote msg k2 k'" using kputs_ready by blast
  have "boot_valloc k = Some (Inr k')"
    using k'(1) m1 by (simp add: boot_valloc_def kalloc_def msg_def [symmetric] m2_def [symmetric] k2_def [symmetric] set_kmem_rest)
  moreover have "free_ranges (kernel_pagemap m2) = [\<lparr>vaddr = VALLOC_RANGE_START, rsize = VALLOC_RANGE_END - VALLOC_RANGE_START\<rparr>]"
      "used_ranges (kernel_pagemap m2) = []" "mpmm m2 = mpmm m1" "mtop m2 = mtop m1"
    using emp pm tl by (simp_all add: m2_def valloc_init_def)
  ultimately show thesis using that [of k'] console_wrote_rest(1,4) [OF k'(2)] k2 ok2 s(2,3) malloc_small_ok [OF inv b z m1] by simp
qed

lemma memory_up_ok:
  assumes "memory_bootable b k"
  shows "\<exists>k'. memory_up b k = Some (Inr k') \<and> avail (kpmm k) \<le> avail (kpmm k') + boot_frames b (gb_pages k) (kpmm k) + 7 \<and> kmem_ok (bpm k') \<and> hhdm_below (mpmm (bpm k')) \<and> console_ready k'
    \<and> free_ranges (kernel_pagemap (bpm k')) = [\<lparr>vaddr = VALLOC_RANGE_START, rsize = VALLOC_RANGE_END - VALLOC_RANGE_START\<rparr>]
    \<and> used_ranges (kernel_pagemap (bpm k')) = []
    \<and> (\<forall>va. KERNEL_TOP \<le> unat va \<longrightarrow>
         translate (mpmm (bpm k')) (mtop (bpm k')) va = seg_translate (executable_base b) (kernel_segments b (kpmm k)) va)"
proof -
  obtain k1 where k1: "setup_vmm b k = Some (Inr k1)" "vm_ready b (gb_pages k) (kpmm k) (mtop (bpm k1)) (kpmm k1)" "console_ready k1"
    "pt_inv (kpmm k1) (mtop (bpm k1))" "pmm_layout (kpmm k1) = pmm_layout (kpmm k)" "avail (kpmm k) \<le> avail (kpmm k1) + boot_frames b (gb_pages k) (kpmm k)"
    "free_ranges (kernel_pagemap (bpm k1)) = []" "used_ranges (kernel_pagemap (bpm k1)) = []"
    and win: "\<And>va. VALLOC_RANGE_START \<le> va \<Longrightarrow> va < VALLOC_RANGE_END \<Longrightarrow>
       translate (kpmm k1) (mtop (bpm k1)) va = None \<and> walk_clear (kpmm k1) (mtop (bpm k1)) (va_path va)"
    using boot_vmm_up [OF assms] by blast
  have nz: "frames_nonzero (kpmm k1)" and below: "hhdm_below (kpmm k1)"
    using assms frames_nonzero_layout [OF k1(5)] hhdm_below_layout [OF k1(5)] by (simp_all add: memory_bootable_def)
  have rng: "ranges_ok (kpmm k1) (kernel_pagemap (bpm k1))" by (rule empty_ranges) (use k1(7,8) win in simp_all)
  have enough: "boot_frames b (gb_pages k) (kpmm k) + 7 \<le> avail (kpmm k)" using assms by (simp add: memory_bootable_def)
  then have av1: "7 \<le> avail (kpmm k1)" using k1(6) by simp
  obtain k2 where k2: "boot_heap k1 = Some (Inr k2)" "console_ready k2" "kmem_ok (bpm k2)" "avail (kpmm k1) = avail (kpmm k2) + 6"
      "kernel_pagemap (bpm k2) = kernel_pagemap (bpm k1)" "pmm_layout (kpmm k2) = pmm_layout (kpmm k1)"
      "\<And>va. translate (kpmm k2) (mtop (bpm k1)) va = translate (kpmm k1) (mtop (bpm k1)) va"
    using boot_heap_up [OF k1(3,4) rng nz av1] by blast
  have "hhdm_below (kpmm k2)" using hhdm_below_layout [OF k2(6)] below by simp
  then obtain k3 where k3: "boot_valloc k2 = Some (Inr k3)" "console_ready k3" "kmem_ok (bpm k3)" "hhdm_below (kpmm k3)"
      "free_ranges (kernel_pagemap (bpm k3)) = [\<lparr>vaddr = VALLOC_RANGE_START, rsize = VALLOC_RANGE_END - VALLOC_RANGE_START\<rparr>]"
      "used_ranges (kernel_pagemap (bpm k3)) = []"
      "\<And>va. translate (kpmm k3) (mtop (bpm k3)) va = translate (kpmm k2) (mtop (bpm k2)) va" "avail (kpmm k2) \<le> avail (kpmm k3) + 1"
    using boot_valloc_up [OF k2(2,3)] k1(6-8) k2(4,5,7) win enough by auto
  have "memory_up b k = Some (Inr k3)" using k1(1) k2(1) k3(1) by (simp add: memory_up_def)
  then show ?thesis using k3 k1(2,6) k2(4,5,7) by (intro exI [of _ k3]) (simp add: vm_ready_def)
qed

text \<open>
  C37: The memory managers come up: from a bootable state, with room for the tables and seven frames
  more, \<open>setup_vmm\<close>, \<open>setup_heap\<close> and \<open>valloc_init\<close> succeed; page tables, slabs, free frames and
  the window of large blocks then satisfy their joint invariant, the window is all free, and
  the kernel's own addresses translate as its file asks.
\<close>

theorem memory_comes_up:
  assumes "memory_bootable b k"
  shows "\<exists>k'. memory_up b k = Some (Inr k') \<and> kmem_ok (bpm k') \<and> hhdm_below (mpmm (bpm k')) \<and> console_ready k'
    \<and> free_ranges (kernel_pagemap (bpm k')) = [\<lparr>vaddr = VALLOC_RANGE_START, rsize = VALLOC_RANGE_END - VALLOC_RANGE_START\<rparr>]
    \<and> used_ranges (kernel_pagemap (bpm k')) = []
    \<and> (\<forall>va. KERNEL_TOP \<le> unat va \<longrightarrow>
         translate (mpmm (bpm k')) (mtop (bpm k')) va = seg_translate (executable_base b) (kernel_segments b (kpmm k)) va)"
  using memory_up_ok [OF assms] by blast

definition demo_bootable :: kernel where
  "demo_bootable = set_kmem ((bpm demo_boot_kernel)\<lparr>kernel_pagemap := \<lparr>top_level = 0, free_ranges = [], used_ranges = []\<rparr>\<rparr>) demo_boot_kernel"

lemma demo_bootable: "memory_bootable demo_boot demo_bootable"
proof -
  have k: "kpmm demo_bootable = demo_frames" by (simp add: demo_bootable_def set_kmem_rest demo_boot_kernel_def put_pmm_rest)
  have wf: "pmm_wf demo_frames" using demo_frames_inv(1) pmm_inv_wf by blast
  have a: "unat (page_addr demo_frames (0, n)) = 4096 + 4096 * n" if "n < 512" for n
    using unat_page_addr [OF wf, of 0 n] that unfolding demo_frames_pages by (simp add: demo_frames_def)
  have nd: "unat (page_node demo_frames (0, n)) + 4096 \<le> unat VALLOC_RANGE_START" if "n < 512" for n
  proof -
    have "unat (page_node demo_frames (0, n)) = 4096 + 4096 * n + unat (hhdmOffset demo_frames)"
      unfolding page_node_def by (subst unat_add_no_wrap) (use a [OF that] that in \<open>simp_all add: demo_frames_def\<close>)
    then show ?thesis using that by (simp add: demo_frames_def VALLOC_RANGE_START_def)
  qed
  have "frames_nonzero demo_frames" unfolding frames_nonzero_def demo_frames_pages using a by fastforce
  moreover have "hhdm_below demo_frames" unfolding hhdm_below_def demo_frames_pages using nd by auto
  moreover have "mem_below demo_boot demo_frames (unat VALLOC_RANGE_START)"
    by (simp add: mem_below_def demo_boot_def demo_frames_def VALLOC_RANGE_START_def entry_bytes_def ALIGN_DOWN_def ALIGN_UP_def PAGE_SIZE_def)
  moreover have "console_ready demo_bootable"
    unfolding demo_bootable_def demo_boot_kernel_def set_kmem_rest put_pmm_rest by (simp add: console_ready_def demo_kernel_def demo_sched_def spinlock_init_def)
  moreover have "free_ranges (kernel_pagemap (bpm demo_bootable)) = []" "used_ranges (kernel_pagemap (bpm demo_bootable)) = []"
    by (simp_all add: demo_bootable_def set_kmem_rest)
  ultimately show ?thesis using demo_boot_ok demo_boot_frames demo_frames_inv(2) by (simp add: memory_bootable_def k)
qed

theorem memory_comes_up_witness:
  "memory_bootable demo_boot demo_bootable
   \<and> (\<exists>k'. memory_up demo_boot demo_bootable = Some (Inr k') \<and> kmem_ok (bpm k'))"
  using memory_comes_up [OF demo_bootable] demo_bootable by blast

section \<open>The first threads\<close>

text \<open>The window for large blocks is one free range of at least \<open>n\<close> bytes, as it is until the first block is given back.\<close>

definition window_left :: "nat \<Rightarrow> kmemory \<Rightarrow> bool" where
  "window_left n k \<longleftrightarrow> (\<exists>r. free_ranges (kernel_pagemap k) = [r] \<and> n \<le> unat (rsize r))"

lemma malloc_pages_pagemap: "malloc_pages block off n k = Inr k' \<Longrightarrow> kernel_pagemap k' = kernel_pagemap k"
  by (induction n arbitrary: off k) (auto simp: set_kpmm_def kbind_def split: sum.splits)

lemma malloc_pagemap:
  assumes "malloc sz k = Some (Inr (p, k'))"
  shows "kernel_pagemap k' = (if unat sz \<le> 1024 then kernel_pagemap k else snd (valloc (kernel_pagemap k) (sz + 16)))"
  using assms
  by (auto simp: malloc_def word_le_nat_alt Let_def kbind_def kstore64_def set_kpmm_def split: option.splits prod.splits sum.splits
      dest!: malloc_pages_pagemap)

lemma malloc_large_window:
  assumes ok: "kmem_ok k" and w: "window_left (4096 * block_count sz + n) k" and n: "0 < n" and z: "1024 < unat sz" "unat sz \<le> 2 ^ 47"
  shows "malloc sz k = Some (Inl (Panic ''PMM: out of memory'')) \<and> avail (mpmm k) < 4 * block_count sz
    \<or> (\<exists>p k'. malloc sz k = Some (Inr (p, k')) \<and> kmem_ok k' \<and> window_left n k' \<and> heap_live (kheap k') = heap_live (kheap k)
        \<and> pmm_layout (mpmm k') = pmm_layout (mpmm k) \<and> avail (mpmm k) \<le> avail (mpmm k') + 4 * block_count sz)"
proof -
  let ?sz = "ALIGN_UP (sz + 16) PAGE_SIZE"
  obtain r where r: "free_ranges (kernel_pagemap k) = [r]" "4096 * block_count sz + n \<le> unat (rsize r)" using w by (auto simp: window_left_def)
  note bs = block_size [OF z(2)]
  have lt: "?sz < rsize r" using r(2) n bs(2) by (simp add: word_less_nat_alt)
  have fit: "\<exists>r \<in> set (free_ranges (kernel_pagemap k)). ?sz \<le> rsize r" using r(1) lt by simp
  have "sz + 16 \<noteq> 0" using bs(1) by (metis add_is_0 numeral_eq_iff unsigned_0 zero_neq_numeral)
  then have rest: "free_ranges (snd (valloc (kernel_pagemap k) (sz + 16))) = [\<lparr>vaddr = vaddr r + ?sz, rsize = rsize r - ?sz\<rparr>]"
    using r(1) lt by (simp add: valloc_def Let_def RB_REMOVE_def)
  have "unat (rsize r - ?sz) = unat (rsize r) - 4096 * block_count sz" using lt bs(2) by (simp add: unat_sub)
  then have "window_left n k'" if "kernel_pagemap k' = snd (valloc (kernel_pagemap k) (sz + 16))" for k' :: kmemory
    using that rest r(2) by (simp add: window_left_def)
  then show ?thesis using malloc_large_ok [OF ok z fit] malloc_pagemap [of sz k] z(1) by fastforce
qed

text \<open>A scheduler at rest on a kernel memory with \<open>n\<close> bytes of the window left; \<open>ts\<close> are its threads.\<close>

definition sched_up :: "nat \<Rightarrow> sched \<Rightarrow> u64 list \<Rightarrow> bool" where
  "sched_up n s ts \<longleftrightarrow> kmem_ok (km s) \<and> hhdm_below (mpmm (km s)) \<and> window_left n (km s) \<and> can_schedule s
     \<and> (if threads s = 0 then ts = [] else run_ring s ts) \<and> (\<forall>t \<in> set ts. t - 16 \<in> heap_live (kheap (km s)))"

text \<open>The bytes of the window, and the frames at most, that a thread takes: a structure, its descriptors and its stack.\<close>

definition THREAD_WINDOW :: nat where "THREAD_WINDOW = 19 * 4096"
definition THREAD_FRAMES :: nat where "THREAD_FRAMES = 77"

definition kernel_thread :: "sched \<Rightarrow> u64 \<Rightarrow> thread \<Rightarrow> bool" where
  "kernel_thread s i t \<longleftrightarrow> thread_state t = THREAD_STATE_RUNNING \<and> sleep_awake_time t = 0 \<and> \<not> is_user_task t
     \<and> th_pagemap t = sym_kernel_pagemap (syms s) \<and> threadId t = i"

text \<open>The three blocks: the frames run out at one of them, or all are there and nothing in use has changed.\<close>

lemma thread_blocks:
  assumes ok: "kmem_ok k" and b: "hhdm_below (mpmm k)" and w: "window_left (THREAD_WINDOW + n) k" and n: "0 < n"
  obtains (oom1) "malloc sizeof_thread k = Some (Inl (Panic ''PMM: out of memory''))" "avail (mpmm k) < THREAD_FRAMES"
    | (oom2) new k1 where "malloc sizeof_thread k = Some (Inr (new, k1))" "malloc sizeof_fds k1 = Some (Inl (Panic ''PMM: out of memory''))"
        "avail (mpmm k) < THREAD_FRAMES"
    | (oom3) new k1 fdsp k2 where "malloc sizeof_thread k = Some (Inr (new, k1))" "malloc sizeof_fds k1 = Some (Inr (fdsp, k2))"
        "malloc STACK_SIZE k2 = Some (Inl (Panic ''PMM: out of memory''))" "avail (mpmm k) < THREAD_FRAMES"
    | (blocks) new k1 fdsp k2 stk k3 where "malloc sizeof_thread k = Some (Inr (new, k1))" "malloc sizeof_fds k1 = Some (Inr (fdsp, k2))"
        "malloc STACK_SIZE k2 = Some (Inr (stk, k3))" "new \<noteq> 0" "new - 16 \<notin> heap_live (kheap k)" "kmem_ok k3" "hhdm_below (mpmm k3)"
        "window_left n k3" "heap_live (kheap k3) = insert (new - 16) (heap_live (kheap k))" "avail (mpmm k) \<le> avail (mpmm k3) + THREAD_FRAMES"
proof -
  have inv: "heap_inv (kheap k)" using ok by (auto simp: kmem_ok_def heap_inv_def)
  have z: "unat sizeof_thread \<le> 1008" "1024 < unat sizeof_fds" "unat sizeof_fds \<le> 2 ^ 47" "1024 < unat STACK_SIZE" "unat STACK_SIZE \<le> 2 ^ 47"
      "block_count sizeof_fds = 2" "block_count STACK_SIZE = 17"
    by (simp_all add: sizeof_thread_def sizeof_fds_def STACK_SIZE_def block_count_def)
  have u: "unat (sizeof_thread + 16) \<le> 1024" "sizeof_thread \<le> 1024" by (simp_all add: sizeof_thread_def)
  from kmalloc_ok [OF inv u(1)] consider "malloc sizeof_thread k = Some (Inl (Panic ''PMM: out of memory''))" "avail (mpmm k) = 0"
    | (ok) new k1 where "malloc sizeof_thread k = Some (Inr (new, k1))" using u(2) by (auto simp: malloc_def)
  then show thesis
  proof cases
    case 1
    then show ?thesis using oom1 by (simp add: THREAD_FRAMES_def)
  next
    case (ok new k1)
    note m1 = malloc_small_kmem [OF assms(1) b z(1) ok] malloc_small_ok [OF inv b z(1) ok] malloc_small_nonzero [OF inv b z(1) ok]
    have n1: "0 < 17 * 4096 + n" using n by simp
    have w1: "window_left (4096 * block_count sizeof_fds + (17 * 4096 + n)) k1"
      using w malloc_pagemap [OF ok] z(1,6) by (simp add: window_left_def THREAD_WINDOW_def)
    from malloc_large_window [OF m1(1) w1 n1 z(2,3)] show ?thesis
    proof (elim disjE conjE exE)
      assume "malloc sizeof_fds k1 = Some (Inl (Panic ''PMM: out of memory''))" "avail (mpmm k1) < 4 * block_count sizeof_fds"
      then show ?thesis using oom2 [OF ok] m1(4) z(6) by (simp add: THREAD_FRAMES_def)
    next
      fix fdsp k2 assume m2: "malloc sizeof_fds k1 = Some (Inr (fdsp, k2))" "kmem_ok k2" "window_left (17 * 4096 + n) k2"
        "heap_live (kheap k2) = heap_live (kheap k1)" "pmm_layout (mpmm k2) = pmm_layout (mpmm k1)"
        "avail (mpmm k1) \<le> avail (mpmm k2) + 4 * block_count sizeof_fds"
      have w2: "window_left (4096 * block_count STACK_SIZE + n) k2" using m2(3) z(7) by simp
      from malloc_large_window [OF m2(2) w2 n z(4,5)] show ?thesis
      proof (elim disjE conjE exE)
        assume "malloc STACK_SIZE k2 = Some (Inl (Panic ''PMM: out of memory''))" "avail (mpmm k2) < 4 * block_count STACK_SIZE"
        then show ?thesis using oom3 [OF ok m2(1)] m1(4) m2(6) z(6,7) by (simp add: THREAD_FRAMES_def)
      next
        fix stk k3 assume m3: "malloc STACK_SIZE k2 = Some (Inr (stk, k3))" "kmem_ok k3" "window_left n k3" "heap_live (kheap k3) = heap_live (kheap k2)"
          "pmm_layout (mpmm k3) = pmm_layout (mpmm k2)" "avail (mpmm k2) \<le> avail (mpmm k3) + 4 * block_count STACK_SIZE"
        have "hhdm_below (mpmm k3)" using m1(2) hhdm_below_layout [OF m2(5)] hhdm_below_layout [OF m3(5)] by simp
        then show ?thesis using blocks [OF ok m2(1) m3(1) m1(5)] m1(4) m2(4,6) m3 z(6,7) by (simp add: THREAD_FRAMES_def)
      qed
    qed
  qed
qed

lemma create_thread_up:
  assumes up: "sched_up (THREAD_WINDOW + n) s ts" and n: "0 < n"
  shows "create_thread f 0 args s = Some (Inl (Panic ''PMM: out of memory'')) \<and> avail (mpmm (km s)) < THREAD_FRAMES
    \<or> (\<exists>s' new. create_thread f 0 args s = Some (Inr s') \<and> sched_up n s' (case ts of [] \<Rightarrow> [new] | t # ts' \<Rightarrow> t # new # ts')
        \<and> new \<notin> set ts \<and> kernel_thread s (scast (next_thread_id s)) (thr s' new)
        \<and> (\<forall>p. p \<noteq> new \<longrightarrow> (thr s' p)\<lparr>next_thread := 0\<rparr> = (thr s p)\<lparr>next_thread := 0\<rparr>)
        \<and> next_thread_id s' = next_thread_id s + 1 \<and> syms s' = syms s \<and> avail (mpmm (km s)) \<le> avail (mpmm (km s')) + THREAD_FRAMES)"
proof -
  have o: "kmem_ok (km s)" "hhdm_below (mpmm (km s))" "window_left (THREAD_WINDOW + n) (km s)" "can_schedule s"
      "if threads s = 0 then ts = [] else run_ring s ts" "\<forall>t \<in> set ts. t - 16 \<in> heap_live (kheap (km s))"
    using up by (simp_all add: sched_up_def)
  from o(1-3) n show ?thesis
  proof (cases rule: thread_blocks)
    case (blocks new k1 fdsp k2 stk k3)
    have fresh: "new \<notin> set ts" using blocks(5) o(6) by auto
    obtain s' where s': "create_thread f 0 args s = Some (Inr s')" "run_ring s' (case ts of [] \<Rightarrow> [new] | t # ts' \<Rightarrow> t # new # ts')"
        "kernel_thread s (scast (next_thread_id s)) (thr s' new)" "\<forall>p. p \<noteq> new \<longrightarrow> (thr s' p)\<lparr>next_thread := 0\<rparr> = (thr s p)\<lparr>next_thread := 0\<rparr>"
        "can_schedule s'" "next_thread_id s' = next_thread_id s + 1" "km s' = k3" "syms s' = syms s"
      using create_thread_after [OF blocks(1-3) o(4,5) blocks(4) fresh, of f 0 args] by (auto simp: kernel_thread_def)
    let ?ts = "case ts of [] \<Rightarrow> [new] | t # ts' \<Rightarrow> t # new # ts'"
    have "set ?ts = insert new (set ts)" by (cases ts) auto
    moreover have "threads s' \<noteq> 0" using s'(2) by (auto simp: run_ring_def split: list.splits)
    ultimately have "sched_up n s' ?ts" using s'(2,5,7) blocks(6-9) o(6) by (auto simp: sched_up_def)
    then show ?thesis using s' fresh blocks(10) by (intro disjI2 exI [of _ s'] exI [of _ new]) simp
  qed (simp_all add: create_thread_def)
qed

abbreviation bsched :: "kernel \<Rightarrow> sched" where "bsched k \<equiv> (ksched k)\<lparr>km := bpm k\<rparr>"

lemma kernel_thread_links: "t'\<lparr>next_thread := 0\<rparr> = t\<lparr>next_thread := 0\<rparr> \<Longrightarrow> kernel_thread s i t' = kernel_thread s i t"
  using same_but_linksD [of "\<lambda>_. t" "\<lambda>_. t'"] by (simp add: same_but_links_def kernel_thread_def)

lemma thread_made:
  assumes "sched_up (THREAD_WINDOW + n) (bsched k) ts" and "0 < n"
  obtains (oom) "in_sched (create_thread f 0 args) k = Some (Inl (Panic ''PMM: out of memory''))" "avail (kpmm k) < THREAD_FRAMES"
    | (made) k' new where "in_sched (create_thread f 0 args) k = Some (Inr k')"
        "sched_up n (bsched k') (case ts of [] \<Rightarrow> [new] | t # ts' \<Rightarrow> t # new # ts')" "new \<notin> set ts"
        "kernel_thread (ksched k) (scast (next_thread_id (ksched k))) (thr (ksched k') new)"
        "\<And>p j. p \<noteq> new \<Longrightarrow> kernel_thread (ksched k) j (thr (ksched k') p) = kernel_thread (ksched k) j (thr (ksched k) p)"
        "next_thread_id (ksched k') = next_thread_id (ksched k) + 1" "syms (ksched k') = syms (ksched k)" "avail (kpmm k) \<le> avail (kpmm k') + THREAD_FRAMES"
  using create_thread_up [OF assms, of f args]
proof (elim disjE exE conjE)
  assume "create_thread f 0 args (bsched k) = Some (Inl (Panic ''PMM: out of memory''))" "avail (mpmm (km (bsched k))) < THREAD_FRAMES"
  then show thesis by (intro oom) (simp_all add: in_sched_def)
next
  fix s' new
  assume c: "create_thread f 0 args (bsched k) = Some (Inr s')" "sched_up n s' (case ts of [] \<Rightarrow> [new] | t # ts' \<Rightarrow> t # new # ts')" "new \<notin> set ts"
    "kernel_thread (bsched k) (scast (next_thread_id (bsched k))) (thr s' new)"
    "\<forall>p. p \<noteq> new \<longrightarrow> (thr s' p)\<lparr>next_thread := 0\<rparr> = (thr (bsched k) p)\<lparr>next_thread := 0\<rparr>"
    "next_thread_id s' = next_thread_id (bsched k) + 1" "syms s' = syms (bsched k)" "avail (mpmm (km (bsched k))) \<le> avail (mpmm (km s')) + THREAD_FRAMES"
  define k' where "k' = set_plat ((plat (kdev k))\<lparr>pkm := km s'\<rparr>) (k\<lparr>ksched := s'\<rparr>)"
  have k': "ksched k' = s'" "bpm k' = km s'" "bsched k' = s'" by (simp_all add: k'_def set_plat_def)
  have "in_sched (create_thread f 0 args) k = Some (Inr k')" using c(1) by (simp add: in_sched_def k'_def)
  moreover have "kernel_thread (ksched k) j (thr s' p) = kernel_thread (ksched k) j (thr (ksched k) p)" if "p \<noteq> new" for p j
    by (rule kernel_thread_links) (use c(5) that in simp)
  moreover have "kernel_thread (ksched k) j = kernel_thread (bsched k) j" for j by (simp add: kernel_thread_def fun_eq_iff)
  ultimately show thesis using c by (intro made [of k' new]) (simp_all add: k')
qed


lemma demo_window: "3 * THREAD_WINDOW + 1 \<le> unat (VALLOC_RANGE_END - VALLOC_RANGE_START)"
  by (simp add: THREAD_WINDOW_def VALLOC_RANGE_END_def VALLOC_RANGE_START_def)


end
