(* ===== verification/Spec2Isabelle.thy ===== *)
theory Spec2Isabelle
  imports Cpu_Tables Open_Files Cmdline Shell Apps Vm_Setup Panic_Report Kernel_Memory Boot
begin

text \<open>
  A verification development of the evalynOS kernel (C, x86-64), whose sources are under
  \<open>src/kernel/src\<close>. The kernel is small and monolithic: the boot loader (Limine) hands over a
  memory map, a frame buffer, the kernel's own file and an initial archive; \<open>kmain\<close> brings up
  frames, page tables, a slab heap and a range allocator, then interrupts, timers and
  devices, reads files from the archive, and starts three threads (idle, reaper, shell). User
  programs are loaded from the archive into page maps of their own and call the kernel through
  a table of system calls; interrupts enter through one dispatcher, which feeds keyboard and
  mouse queues and preempts through the scheduler; a failed check ends in the panic report.

  The model is a shallow embedding. Structures are records, enumerations datatypes, integers of
  a width machine words; \<open>int\<close> values of C are \<open>int\<close> and theorems about them carry bounds. A panic is a value: a
  result is \<open>error + 'a\<close> (\<open>kres\<close>), and \<open>None\<close> is a loop that does not end, so that a function that
  may panic and may hang returns \<open>kres option\<close>. An access the sanitizer or the stack protector would
  stop, or that C leaves undefined, is the outcome \<open>out_of_bounds\<close>. Loops without an evident
  end are \<open>partial_function (option)\<close>; those that count are \<open>primrec\<close> or \<open>fun\<close> on the number of rounds left, computed
  from the same expressions as in the code. No fuel is chosen by hand.

  \<^bold>\<open>Theories, in the order of the code they follow.\<close>

  \<^item> \<open>Kernel_Prelude\<close>: types, results and their binds, alignment macros, lemmas on words and lists.
    \<open>Byte_Memory\<close>: memory as bytes, little-endian reads and writes, and the locale of chains through
    memory that free lists, slab lists and the thread ring interpret.
  \<^item> \<open>Libc_String\<close> (\<open>libc/string.c\<close>, \<open>libc/ctype.c\<close>), \<open>Libc_Stdlib\<close> (\<open>libc/stdlib.c\<close>, \<open>memory/debug.c\<close>): each routine against
    a specification on lists; number parsing against its inverse; \<open>malloc\<close> and \<open>free\<close> of small blocks.
  \<^item> \<open>Ring_Buffer\<close> (\<open>drivers/keyboard.c\<close>): the queue contract as a locale, the keyboard device as its interpretation.
  \<^item> \<open>Allocator\<close>: the contract of an allocator of distinct cells, interpreted by frames and by slab objects.
    \<open>Pmm\<close> (\<open>memory/pmm.c\<close>): the frame database, the free list inside the free frames, the fill cursor; set-up,
    allocation, release and every wrong release.
  \<^item> \<open>Vma\<close> (\<open>memory/vma.c\<close>): ranges of addresses; the red-black trees are their in-order sequences. \<open>Vmm\<close> (\<open>memory/vmm.c\<close>): four-level
    tables in frames; mapping and unmapping as updates of a translation function. \<open>Vm_Setup\<close>: \<open>setup_vmm\<close>.
  \<^item> \<open>Heap\<close> (\<open>memory/heap.c\<close>): slabs as memory cells, \<open>kmalloc\<close> and \<open>kfree\<close>. \<open>Kernel_Memory\<close>: the joint invariant \<open>kmem_ok\<close> of frames, tables,
    ranges and slabs; \<open>malloc\<close> of every size keeps it, a large block is new and can be given back.
  \<^item> \<open>Spinlock\<close> (\<open>utils/spinlock.c\<close>, interrupt levels): the lock of one caller, and as interleaved atomic steps of any
    number of processors (an inductive relation, mutual exclusion by rule induction).
  \<^item> \<open>Scheduler\<close> (\<open>scheduler/\<close>): threads in a store, the ring, sleeping and reaping, the switch down to the words saved.
  \<^item> \<open>User_Access\<close> (\<open>utils/safe_user_funcs.*\<close>, fault handlers): copies that may fault part way.
  \<^item> \<open>Filesystem\<close> (\<open>filesystem/\<close>): the file list and the tar archive. \<open>Elf\<close> (\<open>elf/\<close>): checks and loading of segments.
  \<^item> \<open>Hardware\<close>, \<open>Platform\<close> (ports, MMIO, MSRs, CPUID, timers, interrupt controllers, speaker), \<open>Acpi_Tables\<close>, \<open>Acpi\<close> (\<open>acpi/\<close>), \<open>Framebuffer\<close>
    (\<open>drivers/fb_renderer.c\<close>, \<open>drivers/mouse.c\<close>), \<open>Devices\<close> (serial, terminal, PS/2), \<open>Cpu_Tables\<close> (descriptor tables, control registers, FRED), \<open>Dbgstub\<close>
    (the debugger's stub): every access is an event of a trace.
  \<^item> \<open>Interrupts\<close> (\<open>interupts/interupts.c\<close>, \<open>libc/stdio.c\<close>): the state \<open>kernel\<close> that joins the parts, the dispatcher, character output.
  \<^item> \<open>Syscalls\<close> (\<open>syscalls/\<close>): the table and every call. \<open>Console_Calls\<close>: printing and reading a line. \<open>Open_Files\<close>: descriptors
    as an abstract file of contents and position.
  \<^item> \<open>Cmdline\<close> (\<open>utils/cmdline.c\<close>), \<open>Shell\<close> and \<open>Apps\<close> (\<open>apps/shell.c\<close>): options, line editor and commands, start of programs.
  \<^item> \<open>Panic_Report\<close> (\<open>utils/panic.c\<close>): the report, the walk over the stack, the panic during a panic.
  \<^item> \<open>Boot\<close> (\<open>kernel.c\<close>): the stages of \<open>kmain\<close>; the memory managers come up with their joint
    invariant, and the first three threads are made and linked.

  \<^bold>\<open>What the theorems show.\<close> Allocators hand out what nobody uses, keep what is in use, and give
  back what they took; the invariants that say so are established by the set-up and kept by every
  operation, one by one and together. Translations change at the pages that were mapped or
  unmapped only, and the kernel's half is shared. Locks exclude, levels are restored, the
  scheduler runs every thread of the ring and a switch restores what was saved. Copies to and from
  user memory move the bytes asked for or report an error. Files read are the entries of the
  archive, at the positions the abstract file has. Parsers of tables, packets and options agree
  with their specifications on lists and end. Lines typed arrive as edited, and no buffer of the
  editor is left. A panic prints its report and stops. Where the code does not do what it means
  to, the theorem states what it does.

  \<^bold>\<open>Interfaces.\<close> The contracts between components are locales, interpreted on the model: chains of
  pointers (\<open>cell_memory\<close>: memory words and thread links), the bounded queue (keyboard and PS/2 buffers), range
  trees, and allocators of distinct addresses (frames and heap objects).

  \<^bold>\<open>What is a parameter.\<close> The answers of devices and the time are functions in the state or arguments
  (the device answers of \<open>hw\<close>, \<open>sched_clock\<close>); what other threads and interrupts do while a thread waits are
  \<open>elsewhere\<close>, \<open>turns\<close>, \<open>dbg_events\<close> and \<open>meanwhile\<close>; contents of uninitialised locals are \<open>stack_garbage\<close>, \<open>key_slot\<close> and \<open>read_slot\<close>; decompression
  is \<open>gunzip\<close>; the boot loader's answers are \<open>boot_info\<close> and arguments; the registers at a panic and the frame of a
  fault inside it are arguments (\<open>panic_regs\<close>, \<open>again\<close>).

  \<^bold>\<open>Limits.\<close> Bytes seen through user addresses are the view \<open>kusr\<close> and the frames and tables are \<open>kmemory\<close>; mapping a
  page for a program changes the second and does not refresh the first. The locks of the frame
  and table allocators are not part of the pure functions, which run with them held. The nodes of
  the range trees are data of the model, apart from the one \<open>valloc_init\<close> takes. Messages printed by parts that have no
  console in their state are left out. Memory is sequentially consistent.

  \<^bold>\<open>Not modelled.\<close> The assembly around handlers (register saving), the terminal emulator and the boot
  loader (not part of the sources), the vendored headers under \<open>src/kernel/deps\<close> (formatted output is modelled by the bytes it
  prints), global declarations, the endless loops at the end of \<open>kmain\<close> and of the idle thread, and the user
  programs under \<open>src/user\<close>, which are clients with data of many thousand lines.
\<close>

end
